(* ===== verification/Prelude.thy ===== *)
theory Prelude
imports Complex_Main "HOL-Library.Word" "HOL-Library.Signed_Division" "HOL-Library.Log_Nat"
begin

text \<open>
  Shared vocabulary of the development: the machine integers of the C++ sources, the
  exceptions thrown by \<open>ThrowFakeluaException\<close> as values of a sum type, decimal printing
  (\<open>std::to_string\<close>), and the generic lemmas on lists and words the components share.
  A thrown exception is represented by its message.
\<close>

unbundle bit_operations_syntax

type_synonym int64 = "64 word"
type_synonym uint64 = "64 word"
type_synonym uint32 = "32 word"
type_synonym byte = "8 word"
type_synonym exn = string
type_synonym 'a result = "exn + 'a"

named_theorems fl_defs
named_theorems fl_splits

section \<open>Results\<close>

text \<open>\<open>Inl\<close> is a thrown exception, \<open>Inr\<close> a normal return.\<close>

definition rbind :: "'a result \<Rightarrow> ('a \<Rightarrow> 'b result) \<Rightarrow> 'b result" where
  "rbind r f = (case r of Inl e \<Rightarrow> Inl e | Inr x \<Rightarrow> f x)"

lemma rbind_simps [simp]:
  "rbind (Inl e) f = Inl e"
  "rbind (Inr x) f = f x"
  by (simp_all add: rbind_def)

lemma rbind_Inr_iff: "rbind r f = Inr y \<longleftrightarrow> (\<exists>x. r = Inr x \<and> f x = Inr y)"
  by (cases r) auto

lemma rbind_Inl_iff: "rbind r f = Inl e \<longleftrightarrow> r = Inl e \<or> (\<exists>x. r = Inr x \<and> f x = Inl e)"
  by (cases r) auto

lemma rbind_cong [fundef_cong]:
  "r = r' \<Longrightarrow> (\<And>x. r' = Inr x \<Longrightarrow> f x = g x) \<Longrightarrow> rbind r f = rbind r' g"
  by (cases r') auto

section \<open>Decimal printing\<close>

fun dec_digits :: "nat \<Rightarrow> string" where
  "dec_digits n = (if n < 10 then [char_of (48 + n)]
                   else dec_digits (n div 10) @ [char_of (48 + n mod 10)])"

declare dec_digits.simps [simp del]

definition to_string_nat :: "nat \<Rightarrow> string" where
  "to_string_nat n = dec_digits n"

definition to_string_int :: "int \<Rightarrow> string" where
  "to_string_int i = (if i < 0 then CHR ''-'' # dec_digits (nat (- i)) else dec_digits (nat i))"

text \<open>The value denoted by a string of decimal digits, the inverse of \<open>dec_digits\<close>.\<close>

definition digits_val :: "string \<Rightarrow> nat" where
  "digits_val s = foldl (\<lambda>a c. 10 * a + (of_char c - 48)) 0 s"

lemma digits_val_snoc: "digits_val (s @ [c]) = 10 * digits_val s + (of_char c - 48)"
  by (simp add: digits_val_def)

lemma digits_val_dec: "digits_val (dec_digits n) = n"
proof (induction n rule: dec_digits.induct)
  case (1 n)
  show ?case
  proof (cases "n < 10")
    case True
    then show ?thesis
      by (subst dec_digits.simps) (simp add: digits_val_def take_bit_eq_mod)
  next
    case False
    with 1 have "digits_val (dec_digits (n div 10)) = n div 10" by simp
    then show ?thesis using False
      by (subst dec_digits.simps) (simp add: digits_val_snoc take_bit_eq_mod)
  qed
qed

lemma dec_digits_inj: "dec_digits m = dec_digits n \<Longrightarrow> m = n"
  by (metis digits_val_dec)

lemma dec_digits_chars: "c \<in> set (dec_digits n) \<Longrightarrow> 48 \<le> (of_char c :: nat) \<and> (of_char c :: nat) < 58"
proof (induction n rule: dec_digits.induct)
  case (1 n)
  show ?case
  proof (cases "n < 10")
    case True
    with 1 show ?thesis
      by (subst (asm) dec_digits.simps) (auto simp: take_bit_eq_mod)
  next
    case False
    from 1(2) False have "c \<in> set (dec_digits (n div 10)) \<or> c = char_of (48 + n mod 10)"
      by (subst (asm) dec_digits.simps) auto
    then show ?thesis
    proof
      assume "c \<in> set (dec_digits (n div 10))"
      with 1(1) False show ?thesis by simp
    next
      assume "c = char_of (48 + n mod 10)"
      then show ?thesis by (simp add: take_bit_eq_mod)
    qed
  qed
qed

lemma dec_digits_nonempty [simp]: "dec_digits n \<noteq> []"
  by (subst dec_digits.simps) simp

lemma to_string_int_inj: "to_string_int i = to_string_int j \<Longrightarrow> i = j"
proof -
  assume eq: "to_string_int i = to_string_int j"
  have minus: "CHR ''-'' \<notin> set (dec_digits n)" for n
    using dec_digits_chars [of "CHR ''-''" n] by auto
  have hd_not: "dec_digits n \<noteq> CHR ''-'' # xs" for n xs
    using minus [of n] by auto
  from eq show "i = j"
    by (auto simp: to_string_int_def hd_not hd_not [symmetric] dest: dec_digits_inj
        split: if_splits)
qed

section \<open>Words\<close>

lemma unat_lt_pow: "unat (w :: 'a::len word) < 2 ^ LENGTH('a)"
  by (rule unsigned_less)

lemma sint64_bounds: "- (2 ^ 63) \<le> sint (i :: int64)" "sint (i :: int64) < 2 ^ 63"
  using sint_greater_eq [of i] sint_less [of i] by simp_all

lemma sint_word_of_int64:
  "- (2 ^ 63) \<le> n \<Longrightarrow> n < 2 ^ 63 \<Longrightarrow> sint (word_of_int n :: int64) = n"
  by (simp add: signed_of_int signed_take_bit_int_eq_self)

lemma word_of_int_sint64 [simp]: "word_of_int (sint (i :: int64)) = i"
  by simp

lemma sint_inj_int64: "sint (i :: int64) = sint j \<longleftrightarrow> i = j"
  by (rule signed_word_eqI [THEN iffI]) auto

section \<open>Lists\<close>

lemma nth_update_eq_if:
  "i < length xs \<Longrightarrow> xs[i := v] ! j = (if i = j then v else xs ! j)"
  by (simp add: nth_list_update)

end
