(* ===== verification/Doubles.thy ===== *)
theory Doubles
imports Prelude
begin

text \<open>
  IEEE-754 binary64 values as their 64 bits, and the helpers of \<open>util/number_util.h\<close> that
  move between \<open>double\<close> and \<open>int64_t\<close>.

  A finite double is an integer multiple of \<open>2 ^ (-1074)\<close>. \<open>d_scaled\<close> is that
  integer, so every comparison and conversion below is exact integer arithmetic; infinities are
  given the value \<open>2 ^ 1024\<close>, above every finite double. Arithmetic rounds the exact result
  to nearest, ties to even (\<open>d_round\<close>). A NaN result is the quiet NaN \<open>d_nan\<close>: which
  payload the hardware propagates is not modelled.
\<close>

type_synonym double = "64 word"

section \<open>Fields and value\<close>

definition d_sign :: "double \<Rightarrow> bool" where
  "d_sign w \<longleftrightarrow> 2 ^ 63 \<le> unat w"

definition d_expf :: "double \<Rightarrow> nat" where
  "d_expf w = unat w div 2 ^ 52 mod 2048"

definition d_frac :: "double \<Rightarrow> nat" where
  "d_frac w = unat w mod 2 ^ 52"

definition d_isnan :: "double \<Rightarrow> bool" where
  "d_isnan w \<longleftrightarrow> d_expf w = 2047 \<and> d_frac w \<noteq> 0"

definition d_isinf :: "double \<Rightarrow> bool" where
  "d_isinf w \<longleftrightarrow> d_expf w = 2047 \<and> d_frac w = 0"

definition d_isfinite :: "double \<Rightarrow> bool" where
  "d_isfinite w \<longleftrightarrow> d_expf w \<noteq> 2047"

definition d_mag :: "double \<Rightarrow> nat" where
  "d_mag w = (if d_expf w = 0 then d_frac w else (2 ^ 52 + d_frac w) * 2 ^ (d_expf w - 1))"

definition d_scaled :: "double \<Rightarrow> int" where
  "d_scaled w = (if d_sign w then - int (d_mag w) else int (d_mag w))"

definition d_unit :: int where
  "d_unit = 2 ^ 1074"

definition d_nan :: double where "d_nan = 0x7FF8000000000000"
definition d_inf :: double where "d_inf = 0x7FF0000000000000"

section \<open>Comparison and rounding\<close>

definition d_eq :: "double \<Rightarrow> double \<Rightarrow> bool" where
  "d_eq a b \<longleftrightarrow> \<not> d_isnan a \<and> \<not> d_isnan b \<and> d_scaled a = d_scaled b"

definition d_lt :: "double \<Rightarrow> double \<Rightarrow> bool" where
  "d_lt a b \<longleftrightarrow> \<not> d_isnan a \<and> \<not> d_isnan b \<and> d_scaled a < d_scaled b"

definition d_le :: "double \<Rightarrow> double \<Rightarrow> bool" where
  "d_le a b \<longleftrightarrow> \<not> d_isnan a \<and> \<not> d_isnan b \<and> d_scaled a \<le> d_scaled b"

text \<open>Round the non-negative rational \<open>num / den\<close>, in units of \<open>2 ^ (-1074)\<close>.\<close>

definition d_round_bits :: "nat \<Rightarrow> nat \<Rightarrow> nat" where
  "d_round_bits num den =
     (let sh = floorlog 2 (num div den) - 53;
          d = den * 2 ^ sh;
          m = num div d;
          r = num mod d;
          m' = (if d < 2 * r \<or> (2 * r = d \<and> odd m) then m + 1 else m)
      in min (sh * 2 ^ 52 + m') (2047 * 2 ^ 52))"

definition d_round :: "bool \<Rightarrow> nat \<Rightarrow> nat \<Rightarrow> double" where
  "d_round s num den = word_of_nat ((if s then 2 ^ 63 else 0) + d_round_bits num den)"

section \<open>Arithmetic\<close>

definition d_zero :: "bool \<Rightarrow> double" where
  "d_zero s = (if s then 0x8000000000000000 else 0)"

definition d_infinity :: "bool \<Rightarrow> double" where
  "d_infinity s = (if s then 0xFFF0000000000000 else d_inf)"

definition d_neg :: "double \<Rightarrow> double" where
  "d_neg w = w XOR 0x8000000000000000"

definition d_add :: "double \<Rightarrow> double \<Rightarrow> double" where
  "d_add a b =
     (if d_isnan a \<or> d_isnan b then d_nan
      else if d_isinf a then (if d_isinf b \<and> d_sign a \<noteq> d_sign b then d_nan else a)
      else if d_isinf b then b
      else let s = d_scaled a + d_scaled b in
           if s = 0 then d_zero (d_sign a \<and> d_sign b)
           else d_round (s < 0) (nat \<bar>s\<bar>) 1)"

definition d_sub :: "double \<Rightarrow> double \<Rightarrow> double" where
  "d_sub a b = d_add a (d_neg b)"

definition d_mul :: "double \<Rightarrow> double \<Rightarrow> double" where
  "d_mul a b =
     (let s = (d_sign a \<noteq> d_sign b) in
      if d_isnan a \<or> d_isnan b then d_nan
      else if d_isinf a \<or> d_isinf b
        then (if d_mag a = 0 \<or> d_mag b = 0 then d_nan else d_infinity s)
      else d_round s (d_mag a * d_mag b) (nat d_unit))"

definition d_div :: "double \<Rightarrow> double \<Rightarrow> double" where
  "d_div a b =
     (let s = (d_sign a \<noteq> d_sign b) in
      if d_isnan a \<or> d_isnan b then d_nan
      else if d_isinf a then (if d_isinf b then d_nan else d_infinity s)
      else if d_isinf b then d_zero s
      else if d_mag b = 0 then (if d_mag a = 0 then d_nan else d_infinity s)
      else d_round s (d_mag a * nat d_unit) (d_mag b))"

text \<open>Conversions: \<open>static_cast<double>(int64_t)\<close>, truncation, \<open>std::floor\<close>, \<open>std::ceil\<close>.\<close>

definition d_of_int :: "int \<Rightarrow> double" where
  "d_of_int i = d_round (i < 0) (nat (\<bar>i\<bar> * d_unit)) 1"

definition i64_to_double :: "int64 \<Rightarrow> double" where
  "i64_to_double i = d_of_int (sint i)"

definition d_trunc :: "double \<Rightarrow> int" where
  "d_trunc w = (if d_sign w then - (int (d_mag w) div d_unit) else int (d_mag w) div d_unit)"

definition d_to_int64 :: "double \<Rightarrow> int64" where
  "d_to_int64 w = word_of_int (d_trunc w)"

definition d_floor :: "double \<Rightarrow> double" where
  "d_floor w =
     (if \<not> d_isfinite w then w
      else let q = d_scaled w div d_unit in if q = 0 then d_zero (d_sign w) else d_of_int q)"

definition d_ceil :: "double \<Rightarrow> double" where
  "d_ceil w =
     (if \<not> d_isfinite w then w
      else let q = - ((- d_scaled w) div d_unit) in
           if q = 0 then d_zero (d_sign w) else d_of_int q)"

text \<open>The fractional part \<open>std::modf\<close> returns, in units of \<open>2 ^ (-1074)\<close>.\<close>

definition d_modf_frac :: "double \<Rightarrow> int" where
  "d_modf_frac w = d_scaled w - d_trunc w * d_unit"

section \<open>The helpers of number\_util.h\<close>

text \<open>The constants \<open>2 ^ 63\<close> and \<open>- 2 ^ 63\<close> as doubles.\<close>

definition d_two63 :: double where "d_two63 = 0x43E0000000000000"
definition d_mtwo63 :: double where "d_mtwo63 = 0xC3E0000000000000"

definition TryConvertDoubleToInt64 :: "double \<Rightarrow> int64 option" where
  "TryConvertDoubleToInt64 d =
     (if \<not> d_isfinite d then None
      else if d_modf_frac d \<noteq> 0 then None
      else let int_part = d_of_int (d_trunc d) in
           if d_lt int_part d_mtwo63 \<or> d_le d_two63 int_part then None
           else Some (d_to_int64 int_part))"

definition CompareInt64Double :: "int64 \<Rightarrow> double \<Rightarrow> int" where
  "CompareInt64Double integer floating =
     (if d_isnan floating then 0
      else if d_le d_two63 floating then -1
      else if d_lt floating d_mtwo63 then 1
      else let truncated = d_to_int64 floating in
        if sint integer < sint truncated then -1
        else if sint integer > sint truncated then 1
        else let truncated_as_double = i64_to_double truncated in
          if d_lt truncated_as_double floating then -1
          else if d_lt floating truncated_as_double then 1
          else 0)"

definition Int64DoubleEqual :: "int64 \<Rightarrow> double \<Rightarrow> bool" where
  "Int64DoubleEqual integer floating \<longleftrightarrow>
     \<not> d_isnan floating \<and> CompareInt64Double integer floating = 0"

section \<open>Facts about the representation\<close>

lemma d_frac_lt: "d_frac w < 2 ^ 52"
  by (simp add: d_frac_def)

lemma d_expf_lt: "d_expf w < 2048"
  by (simp add: d_expf_def)

lemma d_unit_pos [simp]: "0 < d_unit" "0 \<le> d_unit" "d_unit \<noteq> 0"
  by (simp_all add: d_unit_def)

lemma d_scaled_abs: "\<bar>d_scaled w\<bar> = int (d_mag w)"
  by (simp add: d_scaled_def)

lemma d_trunc_alt: "d_trunc w = d_scaled w sdiv d_unit"
  by (simp add: d_trunc_def d_scaled_def signed_divide_int_def sgn_if)

text \<open>The bits below the sign decode to the magnitude they were built from.\<close>

lemma unat_bits:
  assumes "b < 2 ^ 63"
  shows "unat (word_of_nat ((if s then 2 ^ 63 else 0) + b) :: double) = (if s then 2 ^ 63 else 0) + b"
  using assms by (subst unat_of_nat) simp

lemma sign_bits: "b < 2 ^ 63 \<Longrightarrow> d_sign (word_of_nat ((if s then 2 ^ 63 else 0) + b)) = s"
  unfolding d_sign_def by (subst unat_bits) auto

lemma fields_bits:
  assumes "e < 2048" "f < 2 ^ 52"
  shows "d_expf (word_of_nat ((if s then 2 ^ 63 else 0) + (e * 2 ^ 52 + f))) = e"
    and "d_frac (word_of_nat ((if s then 2 ^ 63 else 0) + (e * 2 ^ 52 + f))) = f"
proof -
  have b: "e * 2 ^ 52 + f < 2 ^ 63" using assms by simp
  have eq: "(if s then 2 ^ 63 else 0) + (e * 2 ^ 52 + f) = ((if s then 2048 else 0) + e) * 2 ^ 52 + f"
    by simp
  note u = unat_bits [OF b, of s, unfolded eq]
  have div: "(k * 2 ^ 52 + f) div 2 ^ 52 = k" and mod: "(k * 2 ^ 52 + f) mod 2 ^ 52 = f" for k :: nat
    using assms(2) by simp_all
  show "d_expf (word_of_nat ((if s then 2 ^ 63 else 0) + (e * 2 ^ 52 + f))) = e"
    using assms(1) by (simp only: d_expf_def eq u div) auto
  show "d_frac (word_of_nat ((if s then 2 ^ 63 else 0) + (e * 2 ^ 52 + f))) = f"
    by (simp only: d_frac_def eq u mod)
qed

lemma mag_bits:
  assumes "m \<le> 2 ^ 53" "sh = 0 \<or> 2 ^ 52 \<le> m" "sh * 2 ^ 52 + m < 2047 * 2 ^ 52"
  shows "d_mag (word_of_nat ((if s then 2 ^ 63 else 0) + (sh * 2 ^ 52 + m))) = m * 2 ^ sh"
    and "d_expf (word_of_nat ((if s then 2 ^ 63 else 0) + (sh * 2 ^ 52 + m))) < 2047"
proof -
  consider (sub) "sh = 0" "m < 2 ^ 52" | (norm) "2 ^ 52 \<le> m" "m < 2 ^ 53" | (carry) "m = 2 ^ 53"
    using assms by linarith
  then have "d_mag (word_of_nat ((if s then 2 ^ 63 else 0) + (sh * 2 ^ 52 + m))) = m * 2 ^ sh
     \<and> d_expf (word_of_nat ((if s then 2 ^ 63 else 0) + (sh * 2 ^ 52 + m))) < 2047"
  proof cases
    case sub
    then show ?thesis using fields_bits [of 0 m s] by (simp add: d_mag_def)
  next
    case norm
    have eq: "sh * 2 ^ 52 + m = (sh + 1) * 2 ^ 52 + (m - 2 ^ 52)" using norm by simp
    have sh: "sh + 1 < 2047" using assms(3) norm by simp
    then have "sh + 1 < 2048" "m - 2 ^ 52 < 2 ^ 52" using norm by simp_all
    from fields_bits [OF this, of s] show ?thesis
      unfolding eq d_mag_def using norm sh by simp
  next
    case carry
    have eq: "sh * 2 ^ 52 + m = (sh + 2) * 2 ^ 52 + 0" using carry by simp
    have sh: "sh + 2 < 2047" using assms(3) carry by simp
    then have "sh + 2 < 2048" "(0::nat) < 2 ^ 52" by simp_all
    from fields_bits [OF this, of s] show ?thesis
      unfolding eq d_mag_def using carry sh by simp
  qed
  then show "d_mag (word_of_nat ((if s then 2 ^ 63 else 0) + (sh * 2 ^ 52 + m))) = m * 2 ^ sh"
    and "d_expf (word_of_nat ((if s then 2 ^ 63 else 0) + (sh * 2 ^ 52 + m))) < 2047" by auto
qed

section \<open>Exact rounding\<close>

text \<open>A magnitude with at most 53 significant bits is a double, and rounding keeps it.\<close>

definition d_repr :: "nat \<Rightarrow> bool" where
  "d_repr n \<longleftrightarrow> n < 2 ^ 2098 \<and> (\<exists>m k. n = m * 2 ^ k \<and> m < 2 ^ 53)"

lemma floorlog_shift:
  assumes "n = m * 2 ^ k" "m < 2 ^ 53"
  shows "2 ^ (floorlog 2 n - 53) dvd n"
proof -
  have "n < 2 ^ (53 + k)" using assms by (simp add: power_add)
  then have "floorlog 2 n \<le> 53 + k" by (intro floorlog_leI) simp_all
  then have "floorlog 2 n - 53 \<le> k" by simp
  then show ?thesis using assms(1) by (simp add: le_imp_power_dvd dvd_mult)
qed

lemma d_round_exact:
  assumes "d_repr n"
  shows "d_mag (d_round s n 1) = n" "d_sign (d_round s n 1) = s" "d_isfinite (d_round s n 1)"
proof -
  define sh where "sh = floorlog 2 n - 53"
  define q where "q = n div 2 ^ sh"
  from assms obtain m k where "n = m * 2 ^ k" "m < 2 ^ 53" and n: "n < 2 ^ 2098"
    by (auto simp: d_repr_def)
  then have dvd: "2 ^ sh dvd n" unfolding sh_def by (intro floorlog_shift)
  then have q: "n = q * 2 ^ sh" unfolding q_def by simp
  have sh: "sh \<le> 2045"
    using floorlog_leI [OF n] by (simp add: sh_def)
  have hi: "q < 2 ^ 53"
  proof (cases "n = 0")
    case False
    then have "n < 2 ^ floorlog 2 n" using floorlog_bounds [of n 2] by simp
    also have "\<dots> \<le> 2 ^ (53 + sh)" by (intro power_increasing) (simp_all add: sh_def)
    finally show ?thesis using q by (simp add: power_add)
  qed (simp add: q_def)
  have lo: "sh = 0 \<or> 2 ^ 52 \<le> q"
  proof (cases "sh = 0")
    case False
    then have "n \<noteq> 0" by (cases "n = 0") (simp_all add: sh_def floorlog_def)
    then have "2 ^ (floorlog 2 n - 1) \<le> n" using floorlog_bounds [of n 2] by simp
    moreover have "floorlog 2 n - 1 = 52 + sh" using False by (simp add: sh_def)
    ultimately have "2 ^ 52 * 2 ^ sh \<le> q * 2 ^ sh" using q by (simp add: power_add)
    then show ?thesis by simp
  qed simp
  have lt: "sh * 2 ^ 52 + q < 2047 * 2 ^ 52"
    using sh hi by simp
  have "d_round_bits n 1 = sh * 2 ^ 52 + q"
    using dvd lt by (simp add: d_round_bits_def Let_def q_def sh_def)
  then have eq: "d_round s n 1 = word_of_nat ((if s then 2 ^ 63 else 0) + (sh * 2 ^ 52 + q))"
    by (simp only: d_round_def)
  from mag_bits [OF less_imp_le [OF hi] lo lt, of s] show "d_mag (d_round s n 1) = n"
    and "d_isfinite (d_round s n 1)"
    unfolding eq using q by (simp_all add: d_isfinite_def)
  show "d_sign (d_round s n 1) = s"
    unfolding eq using lt by (intro sign_bits) simp
qed

lemma d_mag_repr: "d_isfinite w \<Longrightarrow> d_repr (d_mag w)"
proof -
  assume "d_isfinite w"
  then have e: "d_expf w - 1 \<le> 2045" using d_expf_lt [of w] by (simp add: d_isfinite_def)
  have f: "2 ^ 52 + d_frac w < 2 ^ 53" using d_frac_lt [of w] by simp
  show ?thesis
  proof (cases "d_expf w = 0")
    case True
    have "d_frac w < 2 ^ 53" "d_frac w < 2 ^ 2098" "d_frac w = d_frac w * 2 ^ 0"
      using d_frac_lt [of w] by (auto elim!: order_less_le_trans)
    then have "d_repr (d_frac w)" unfolding d_repr_def by blast
    then show ?thesis using True by (simp add: d_mag_def)
  next
    case False
    have p: "(2::nat) ^ (d_expf w - 1) \<le> 2 ^ 2045" by (rule power_increasing [OF e]) simp
    have "(2 ^ 52 + d_frac w) * 2 ^ (d_expf w - 1) < 2 ^ 53 * 2 ^ 2045"
      by (rule mult_less_le_imp_less [OF f p]) simp_all
    then show ?thesis
      using False f unfolding d_repr_def d_mag_def by (auto simp del: power_Suc simp: power_add [symmetric])
  qed
qed

lemma d_repr_trunc: "d_repr n \<Longrightarrow> d_repr (n div 2 ^ 1074 * 2 ^ 1074)"
proof -
  assume "d_repr n"
  then obtain m k where n: "n = m * 2 ^ k" "m < 2 ^ 53" "n < 2 ^ 2098" by (auto simp: d_repr_def)
  have lt: "n div 2 ^ 1074 * 2 ^ 1074 < 2 ^ 2098"
    using n(3) by (rule order_le_less_trans [OF div_times_less_eq_dividend])
  show ?thesis
  proof (cases "1074 \<le> k")
    case True
    then have "2 ^ 1074 dvd n" unfolding n(1) by (intro dvd_mult le_imp_power_dvd)
    then show ?thesis using n by (auto simp: d_repr_def)
  next
    case False
    then have "(2::nat) ^ k \<le> 2 ^ 1074" by (intro power_increasing) simp_all
    then have "n div 2 ^ 1074 \<le> m * 2 ^ 1074 div 2 ^ 1074"
      unfolding n(1) by (intro div_le_mono mult_le_mono2)
    then have "n div 2 ^ 1074 < 2 ^ 53" using n(2) by simp
    then show ?thesis using lt unfolding d_repr_def by blast
  qed
qed

section \<open>Integers and doubles\<close>

lemma d_of_int_exact:
  assumes "d_repr (nat (\<bar>i\<bar> * d_unit))"
  shows "d_scaled (d_of_int i) = i * d_unit" "d_isfinite (d_of_int i)"
  using d_round_exact [OF assms, of "i < 0"] by (auto simp: d_of_int_def d_scaled_def mult_le_0_iff)

lemma abs_div_bounds:
  fixes u m s t q :: int
  assumes "0 \<le> m" "q = m - r" "0 \<le> r" "r < u" "r \<le> m" "s = (if neg then - m else m)" "t = (if neg then - q else q)"
  shows "t \<le> s + (u - 1)" "s - (u - 1) \<le> t" "0 \<le> s \<Longrightarrow> t \<le> s" "s \<le> 0 \<Longrightarrow> s \<le> t"
proof -
  have "s = - m \<and> t = - q \<or> s = m \<and> t = q" using assms(6,7) by simp
  then show "t \<le> s + (u - 1)" "s - (u - 1) \<le> t" "0 \<le> s \<Longrightarrow> t \<le> s" "s \<le> 0 \<Longrightarrow> s \<le> t"
    using assms(1-5) by (elim disjE conjE; linarith)+
qed

lemma d_trunc_bounds:
  shows "d_trunc w * d_unit \<le> d_scaled w + (d_unit - 1)"
    and "d_scaled w - (d_unit - 1) \<le> d_trunc w * d_unit"
    and "0 \<le> d_scaled w \<Longrightarrow> d_trunc w * d_unit \<le> d_scaled w"
    and "d_scaled w \<le> 0 \<Longrightarrow> d_scaled w \<le> d_trunc w * d_unit"
proof -
  define m where "m = int (d_mag w)"
  have m: "0 \<le> m" by (simp add: m_def)
  have q: "m div d_unit * d_unit = m - m mod d_unit" by (simp add: minus_mod_eq_div_mult)
  have r: "0 \<le> m mod d_unit" "m mod d_unit < d_unit"
    using pos_mod_sign pos_mod_bound d_unit_pos(1) by blast+
  have l: "m mod d_unit \<le> m" using m by (simp add: zmod_le_nonneg_dividend)
  have s: "d_scaled w = (if d_sign w then - m else m)"
    by (simp add: d_scaled_def m_def)
  have t: "d_trunc w * d_unit = (if d_sign w then - (m div d_unit * d_unit) else m div d_unit * d_unit)"
    by (simp add: d_trunc_def m_def)
  note bounds = abs_div_bounds [OF m q r l s t]
  show "d_trunc w * d_unit \<le> d_scaled w + (d_unit - 1)" by (rule bounds(1))
  show "d_scaled w - (d_unit - 1) \<le> d_trunc w * d_unit" by (rule bounds(2))
  show "0 \<le> d_scaled w \<Longrightarrow> d_trunc w * d_unit \<le> d_scaled w" by (rule bounds(3))
  show "d_scaled w \<le> 0 \<Longrightarrow> d_scaled w \<le> d_trunc w * d_unit" by (rule bounds(4))
qed

lemma d_of_trunc:
  assumes "d_isfinite w"
  shows "d_scaled (d_of_int (d_trunc w)) = d_trunc w * d_unit" "d_isfinite (d_of_int (d_trunc w))"
proof -
  define N :: nat where "N = 2 ^ 1074"
  have unit: "d_unit = int N" by (simp only: d_unit_def N_def of_nat_power of_nat_numeral)
  have "\<bar>d_trunc w\<bar> = int (d_mag w div N)"
    by (cases "d_sign w") (simp_all only: d_trunc_def unit zdiv_int [symmetric] if_True if_False abs_minus_cancel abs_of_nat)
  then have "nat (\<bar>d_trunc w\<bar> * d_unit) = d_mag w div N * N"
    unfolding unit by (simp only: of_nat_mult [symmetric] nat_int)
  then have "d_repr (nat (\<bar>d_trunc w\<bar> * d_unit))"
    unfolding N_def using d_repr_trunc [OF d_mag_repr [OF assms]] by simp
  then show "d_scaled (d_of_int (d_trunc w)) = d_trunc w * d_unit" "d_isfinite (d_of_int (d_trunc w))"
    by (rule d_of_int_exact)+
qed

lemma d_two63_facts [simp]:
  "\<not> d_isnan d_two63" "\<not> d_isnan d_mtwo63"
  "d_scaled d_two63 = 2 ^ 63 * d_unit" "d_scaled d_mtwo63 = - (2 ^ 63 * d_unit)"
  by (simp_all add: d_two63_def d_mtwo63_def d_isnan_def d_expf_def d_frac_def d_scaled_def
      d_sign_def d_mag_def d_unit_def)

lemma d_isinf_mag: "d_isinf w \<Longrightarrow> int (d_mag w) = 2 ^ 1024 * d_unit"
  by (simp add: d_isinf_def d_mag_def d_unit_def)

lemma d_trunc_int64:
  assumes "\<not> d_le d_two63 w" "\<not> d_lt w d_mtwo63" "\<not> d_isnan w"
  shows "sint (d_to_int64 w) = d_trunc w" "d_isfinite w"
proof -
  have lt: "d_scaled w < 2 ^ 63 * d_unit" "- (2 ^ 63 * d_unit) \<le> d_scaled w"
    using assms by (auto simp: d_le_def d_lt_def not_le not_less)
  show "d_isfinite w"
  proof (rule ccontr)
    assume "\<not> d_isfinite w"
    with assms(3) have "d_isinf w" by (auto simp: d_isfinite_def d_isnan_def d_isinf_def)
    from d_isinf_mag [OF this] d_scaled_abs [of w] have "\<bar>d_scaled w\<bar> = 2 ^ 1024 * d_unit" by simp
    moreover have "(2::int) ^ 63 * d_unit < 2 ^ 1024 * d_unit" by (intro mult_strict_right_mono) simp_all
    ultimately show False using lt by (auto simp: abs_if split: if_splits)
  qed
  have "d_trunc w < 2 ^ 63"
  proof (rule ccontr)
    assume "\<not> d_trunc w < 2 ^ 63"
    then have ge: "2 ^ 63 * d_unit \<le> d_trunc w * d_unit" by (intro mult_right_mono) simp_all
    moreover have "0 \<le> d_scaled w"
      using ge d_trunc_bounds(1) [of w] by (simp add: d_unit_def)
    ultimately show False using d_trunc_bounds(3) [of w] lt by linarith
  qed
  moreover have "- (2 ^ 63) \<le> d_trunc w"
  proof (rule ccontr)
    assume "\<not> - (2 ^ 63) \<le> d_trunc w"
    then have le: "d_trunc w * d_unit \<le> (- (2 ^ 63) - 1) * d_unit" by (intro mult_right_mono) simp_all
    moreover have "d_scaled w \<le> 0"
      using le d_trunc_bounds(2) [of w] by (simp add: d_unit_def)
    ultimately show False using d_trunc_bounds(4) [of w] lt by (simp add: algebra_simps)
  qed
  ultimately show "sint (d_to_int64 w) = d_trunc w"
    unfolding d_to_int64_def by (rule sint_word_of_int64 [rotated])
qed

text \<open>
  \<open>CompareInt64Double\<close> is the exact three-way comparison: the sign of the difference of the
  integer and the real value of the double, although the code only ever converts the truncated
  value back to \<open>double\<close>.
\<close>

lemma CompareInt64Double_sgn:
  assumes "\<not> d_isnan d"
  shows "CompareInt64Double i d = sgn (sint i * d_unit - d_scaled d)"
proof -
  have ib: "sint i * d_unit < 2 ^ 63 * d_unit" "- (2 ^ 63) * d_unit \<le> sint i * d_unit"
    using sint64_bounds [of i] by (auto intro!: mult_strict_right_mono mult_right_mono simp del: mult_minus_left)
  consider (hi) "d_le d_two63 d" | (lo) "\<not> d_le d_two63 d" "d_lt d d_mtwo63"
    | (mid) "\<not> d_le d_two63 d" "\<not> d_lt d d_mtwo63" by blast
  then show ?thesis
  proof cases
    case hi
    then have "sint i * d_unit < d_scaled d" using ib(1) unfolding d_le_def d_two63_facts by linarith
    then show ?thesis using assms hi by (simp add: CompareInt64Double_def sgn_if)
  next
    case lo
    then have "d_scaled d < sint i * d_unit" using ib(2) unfolding d_lt_def d_two63_facts by linarith
    then show ?thesis using assms lo by (simp add: CompareInt64Double_def sgn_if)
  next
    case mid
    note t = d_trunc_int64 [OF mid assms]
    have rt: "d_scaled (i64_to_double (d_to_int64 d)) = d_trunc d * d_unit"
      "\<not> d_isnan (i64_to_double (d_to_int64 d))"
      using d_of_trunc [OF t(2)] by (auto simp: i64_to_double_def t(1) d_isfinite_def d_isnan_def)
    consider (lt) "sint i < d_trunc d" | (gt) "sint i > d_trunc d" | (eq) "sint i = d_trunc d"
      by linarith
    then show ?thesis
    proof cases
      case lt
      then have "sint i * d_unit \<le> (d_trunc d - 1) * d_unit" by (intro mult_right_mono) simp_all
      then have "sint i * d_unit < d_scaled d"
        using d_trunc_bounds(1) [of d] by (simp add: algebra_simps)
      then show ?thesis using mid assms lt t by (simp add: CompareInt64Double_def Let_def sgn_if)
    next
      case gt
      then have "(d_trunc d + 1) * d_unit \<le> sint i * d_unit" by (intro mult_right_mono) simp_all
      then have "d_scaled d < sint i * d_unit"
        using d_trunc_bounds(2) [of d] by (simp add: algebra_simps)
      then show ?thesis using mid assms gt t by (simp add: CompareInt64Double_def Let_def sgn_if)
    next
      case eq
      then show ?thesis using mid assms t rt
        by (auto simp: CompareInt64Double_def Let_def sgn_if d_lt_def)
    qed
  qed
qed

lemma CompareInt64Double_nan: "d_isnan d \<Longrightarrow> CompareInt64Double i d = 0"
  by (simp add: CompareInt64Double_def)

lemma Int64DoubleEqual_iff:
  "Int64DoubleEqual i d \<longleftrightarrow> \<not> d_isnan d \<and> d_scaled d = sint i * d_unit"
  by (auto simp: Int64DoubleEqual_def CompareInt64Double_sgn sgn_eq_0_iff)

end
