(* ===== verification/Values.thy ===== *)
theory Values
imports Doubles
begin

text \<open>
  The runtime value \<open>CVar\<close> / \<open>Var\<close> (\<open>var/var.h\<close>, \<open>var/var.cpp\<close>,
  \<open>var/var_type.h\<close>, \<open>var/var_string.h\<close>) and the number formatting of
  \<open>util/number_util.h\<close>.

  The tagged union \<open>(type_, flag_, data_)\<close> is a datatype with one constructor per tag.
  \<open>flag_\<close> only ever carries \<open>CONST_FLAG\<close>, on tables. A string is its bytes: a
  \<open>StringId\<close> is an interned string, and since \<open>ConstString::Alloc\<close> hands out one
  pointer per content, equality of ids is equality of contents. A
  \<open>VarMulti\<close> is written once when it is built and read afterwards, so it is its list of
  elements. Tables and closures are shared and mutable, so they are addresses; address 0 is the
  null pointer.
\<close>

type_synonym ptr = "64 word"

datatype cvar =
    VNil
  | VBool bool
  | VInt int64
  | VFloat double
  | VString string
  | VStringId string
  | VTable bool ptr
  | VMulti "cvar list"
  | VClosure ptr

datatype VarType = TNil | TBool | TInt | TFloat | TString | TStringId | TTable | TMulti | TClosure

fun Type :: "cvar \<Rightarrow> VarType" where
  "Type VNil = TNil"
| "Type (VBool _) = TBool"
| "Type (VInt _) = TInt"
| "Type (VFloat _) = TFloat"
| "Type (VString _) = TString"
| "Type (VStringId _) = TStringId"
| "Type (VTable _ _) = TTable"
| "Type (VMulti _) = TMulti"
| "Type (VClosure _) = TClosure"

text \<open>The enumerators' values, which the JIT runtime header repeats.\<close>

fun VarType_code :: "VarType \<Rightarrow> nat" where
  "VarType_code TNil = 0"
| "VarType_code TBool = 1"
| "VarType_code TInt = 2"
| "VarType_code TFloat = 3"
| "VarType_code TString = 4"
| "VarType_code TStringId = 5"
| "VarType_code TTable = 6"
| "VarType_code TMulti = 7"
| "VarType_code TClosure = 8"

fun VarTypeToString :: "VarType \<Rightarrow> string" where
  "VarTypeToString TNil = ''Nil''"
| "VarTypeToString TBool = ''Bool''"
| "VarTypeToString TInt = ''Int''"
| "VarTypeToString TFloat = ''Float''"
| "VarTypeToString TString = ''String''"
| "VarTypeToString TStringId = ''StringId''"
| "VarTypeToString TTable = ''Table''"
| "VarTypeToString TMulti = ''Multi''"
| "VarTypeToString TClosure = ''Closure''"

section \<open>Truth and equality\<close>

fun TestTrue :: "cvar \<Rightarrow> bool" where
  "TestTrue VNil = False"
| "TestTrue (VBool b) = b"
| "TestTrue (VMulti _) = True"
| "TestTrue _ = True"

text \<open>
  \<open>Var::Equal\<close>: the cross-type cases first (String with StringId, Int with Float), then the
  switch over the common type; a Multi is compared element by element.
\<close>

fun Equal :: "cvar \<Rightarrow> cvar \<Rightarrow> bool" where
  "Equal VNil w = (w = VNil)"
| "Equal (VBool a) w = (case w of VBool b \<Rightarrow> a = b | _ \<Rightarrow> False)"
| "Equal (VInt i) w = (case w of VInt j \<Rightarrow> i = j | VFloat d \<Rightarrow> Int64DoubleEqual i d | _ \<Rightarrow> False)"
| "Equal (VFloat d) w = (case w of VInt i \<Rightarrow> Int64DoubleEqual i d | VFloat e \<Rightarrow> d_eq d e | _ \<Rightarrow> False)"
| "Equal (VString s) w = (case w of VString t \<Rightarrow> s = t | VStringId t \<Rightarrow> s = t | _ \<Rightarrow> False)"
| "Equal (VStringId s) w = (case w of VString t \<Rightarrow> s = t | VStringId t \<Rightarrow> s = t | _ \<Rightarrow> False)"
| "Equal (VTable _ p) w = (case w of VTable _ q \<Rightarrow> p = q | _ \<Rightarrow> False)"
| "Equal (VClosure p) w = (case w of VClosure q \<Rightarrow> p = q | _ \<Rightarrow> False)"
| "Equal (VMulti xs) w =
     (case w of VMulti ys \<Rightarrow> length xs = length ys \<and> list_all2 Equal xs ys | _ \<Rightarrow> False)"

section \<open>Hashes\<close>

text \<open>djb2 over the bytes, in 32-bit arithmetic; 0 means ``not computed yet'' and is replaced by 1.\<close>

definition djb2_step :: "uint32 \<Rightarrow> char \<Rightarrow> uint32" where
  "djb2_step h c = (push_bit 5 h + h) + of_char c"

definition HashOf :: "string \<Rightarrow> uint32" where
  "HashOf s = (let h = foldl djb2_step 5381 s in if h = 0 then 1 else h)"

text \<open>The xor fold of a 64-bit pattern to 32 bits.\<close>

definition fold64 :: "64 word \<Rightarrow> uint32" where
  "fold64 w = ucast (w XOR drop_bit 32 w)"

text \<open>On a signed \<open>int64_t\<close> the shift is arithmetic; the low 32 bits of the result agree.\<close>

definition fold64_signed :: "int64 \<Rightarrow> uint32" where
  "fold64_signed k = ucast (k XOR signed_drop_bit 32 k)"

section \<open>Printing\<close>

text \<open>
  \<open>snprintf("%.14g")\<close> on a finite, non-zero magnitude \<open>n / 2 ^ 1074\<close>: the decimal
  exponent, the 14 significant digits rounded to nearest (ties to even on the exact value), then
  fixed or exponent notation with trailing zeros removed, as ISO C defines the \<open>g\<close> conversion.
\<close>

definition dec_exp :: "nat \<Rightarrow> nat \<Rightarrow> int" where
  "dec_exp num den =
     (if den \<le> num then int (floorlog 10 (num div den)) - 1
      else let f = floorlog 10 (den div num) in
           if den \<le> num * 10 ^ (f - 1) then - int (f - 1) else - int f)"

definition round_half_even :: "nat \<Rightarrow> nat \<Rightarrow> nat" where
  "round_half_even n d =
     (let q = n div d; r = n mod d in if d < 2 * r \<or> (2 * r = d \<and> odd q) then q + 1 else q)"

definition g14_digits :: "nat \<Rightarrow> nat \<Rightarrow> nat \<times> int" where
  "g14_digits num den =
     (let x = dec_exp num den;
          k = 13 - x;
          ds = (if 0 \<le> k then round_half_even (num * 10 ^ nat k) den
                else round_half_even num (den * 10 ^ nat (- k)))
      in if ds = 10 ^ 14 then (10 ^ 13, x + 1) else (ds, x))"

definition strip_zeros :: "string \<Rightarrow> string" where
  "strip_zeros s = rev (dropWhile (\<lambda>c. c = CHR ''0'') (rev s))"

definition with_point :: "string \<Rightarrow> string \<Rightarrow> string" where
  "with_point ip fp = (let f = strip_zeros fp in if f = [] then ip else ip @ ''.'' @ f)"

definition exp_text :: "int \<Rightarrow> string" where
  "exp_text x = (let d = dec_digits (nat \<bar>x\<bar>) in
     ''e'' @ (if x < 0 then ''-'' else ''+'') @ (if length d < 2 then ''0'' @ d else d))"

definition fmt_g14_pos :: "nat \<Rightarrow> nat \<Rightarrow> string" where
  "fmt_g14_pos num den =
     (let (ds, x) = g14_digits num den; s = dec_digits ds in
      if - 4 \<le> x \<and> x < 14
      then (if 0 \<le> x then with_point (take (nat x + 1) s) (drop (nat x + 1) s)
            else with_point ''0'' (replicate (nat (- x) - 1) (CHR ''0'') @ s))
      else with_point (take 1 s) (drop 1 s) @ exp_text x)"

definition snprintf_g14 :: "double \<Rightarrow> string" where
  "snprintf_g14 w =
     (if d_sign w then ''-'' else '''') @
     (if d_isnan w then ''nan''
      else if d_isinf w then ''inf''
      else if d_mag w = 0 then ''0''
      else fmt_g14_pos (d_mag w) (nat d_unit))"

definition is_digit_char :: "char \<Rightarrow> bool" where
  "is_digit_char c \<longleftrightarrow> 48 \<le> (of_char c :: nat) \<and> (of_char c :: nat) \<le> 57"

definition integer_shape :: "string \<Rightarrow> bool" where
  "integer_shape s =
     (case s of c # r \<Rightarrow> list_all is_digit_char (if c = CHR ''-'' then r else s) | [] \<Rightarrow> True)"

definition FormatLuaFloat :: "double \<Rightarrow> string" where
  "FormatLuaFloat value =
     (let buf = snprintf_g14 value in
      if buf = [] then []
      else if integer_shape buf \<and> length buf + 2 < 64 then buf @ ''.0''
      else buf)"

text \<open>\<open>std::format("{}", void *)\<close>: lower-case hexadecimal with prefix \<open>0x\<close>.\<close>

definition hex_char :: "nat \<Rightarrow> char" where
  "hex_char d = (if d < 10 then char_of (48 + d) else char_of (87 + d))"

fun hex_digits :: "nat \<Rightarrow> string" where
  "hex_digits n = (if n < 16 then [hex_char n] else hex_digits (n div 16) @ [hex_char (n mod 16)])"

declare hex_digits.simps [simp del]

definition ptr_text :: "ptr \<Rightarrow> string" where
  "ptr_text p = ''0x'' @ hex_digits (unat p)"

fun join_comma :: "string list \<Rightarrow> string" where
  "join_comma [] = ''''"
| "join_comma [s] = s"
| "join_comma (s # t # r) = s @ '', '' @ join_comma (t # r)"

fun ToString :: "bool \<Rightarrow> bool \<Rightarrow> cvar \<Rightarrow> string" where
  "ToString q pf VNil = ''nil''"
| "ToString q pf (VBool b) = (if b then ''true'' else ''false'')"
| "ToString q pf (VInt i) = to_string_int (sint i)"
| "ToString q pf (VFloat d) = FormatLuaFloat d"
| "ToString q pf (VString s) = (if q then [CHR 34] @ s @ [CHR 34] else s)"
| "ToString q pf (VStringId s) = (if q then [CHR 34] @ s @ [CHR 34] else s)"
| "ToString q pf (VTable _ p) = ''table('' @ ptr_text p @ '')''"
| "ToString q pf (VClosure p) = ''function('' @ ptr_text p @ '')''"
| "ToString q pf (VMulti xs) = ''multi('' @ join_comma (map (ToString q pf) xs) @ '')''"

end
