(* ===== verification/VmOps.thy ===== *)
theory VmOps
imports Values
begin

text \<open>
  The arithmetic, comparison and numeric-for helpers of the interpreter's hot path
  (\<open>interp/vm_ops.h\<close>). Integers are 64-bit words with wrap-around, floats are binary64
  bit patterns; \<open>std::pow\<close> is a parameter. A thrown exception is \<open>Inl\<close> its message.
  Where an expression evaluates two operands that may both throw, the left one is checked first.
\<close>

section \<open>Conversions\<close>

fun IsTrue :: "cvar \<Rightarrow> bool" where
  "IsTrue VNil = False"
| "IsTrue (VBool b) = b"
| "IsTrue _ = True"

definition arith_error :: exn where
  "arith_error = ''attempt to perform arithmetic on non-numeric value''"

fun is_num :: "cvar \<Rightarrow> bool" where
  "is_num (VInt _) = True"
| "is_num (VFloat _) = True"
| "is_num _ = False"

definition CheckNum :: "cvar \<Rightarrow> unit result" where
  "CheckNum v = (if is_num v then Inr () else Inl arith_error)"

definition DoubleFitsInt64 :: "double \<Rightarrow> int64 option" where
  "DoubleFitsInt64 d =
     (if \<not> d_isfinite d then None
      else if d_modf_frac d \<noteq> 0 then None
      else let ip = d_of_int (d_trunc d) in
           if d_lt ip d_mtwo63 \<or> d_le d_two63 ip then None
           else Some (d_to_int64 ip))"

fun CheckInt :: "cvar \<Rightarrow> int64 result" where
  "CheckInt (VInt i) = Inr i"
| "CheckInt (VFloat d) =
     (case DoubleFitsInt64 d of Some i \<Rightarrow> Inr i | None \<Rightarrow> Inl ''number has no integer representation'')"
| "CheckInt _ = Inl ''attempt to perform bitwise operation on non-numeric value''"

fun ToDouble :: "cvar \<Rightarrow> double" where
  "ToDouble (VInt i) = i64_to_double i"
| "ToDouble (VFloat d) = d"
| "ToDouble _ = 0"

section \<open>Arithmetic\<close>

text \<open>C++'s truncating division of \<open>int64_t\<close>, with the correction for a negative inexact quotient.\<close>

definition sdiv64 :: "int64 \<Rightarrow> int64 \<Rightarrow> int64" where
  "sdiv64 a b = word_of_int (sint a sdiv sint b)"

definition smod64 :: "int64 \<Rightarrow> int64 \<Rightarrow> int64" where
  "smod64 a b = word_of_int (sint a smod sint b)"

definition FloorDivQuotient :: "int64 \<Rightarrow> int64 \<Rightarrow> int64" where
  "FloorDivQuotient a b =
     (if b = - 1 then 0 - a
      else let q = sdiv64 a b in
           if sint (a XOR b) < 0 \<and> smod64 a b \<noteq> 0 then q - 1 else q)"

definition num_binop :: "(int64 \<Rightarrow> int64 \<Rightarrow> int64) \<Rightarrow> (double \<Rightarrow> double \<Rightarrow> double) \<Rightarrow> cvar \<Rightarrow> cvar \<Rightarrow> cvar result" where
  "num_binop fi fd a b =
     (case (a, b) of
        (VInt i, VInt j) \<Rightarrow> Inr (VInt (fi i j))
      | _ \<Rightarrow> rbind (CheckNum a) (\<lambda>_. rbind (CheckNum b) (\<lambda>_. Inr (VFloat (fd (ToDouble a) (ToDouble b))))))"

definition BinAdd :: "cvar \<Rightarrow> cvar \<Rightarrow> cvar result" where "BinAdd = num_binop (+) d_add"
definition BinSub :: "cvar \<Rightarrow> cvar \<Rightarrow> cvar result" where "BinSub = num_binop (-) d_sub"
definition BinMul :: "cvar \<Rightarrow> cvar \<Rightarrow> cvar result" where "BinMul = num_binop (*) d_mul"

definition BinDiv :: "cvar \<Rightarrow> cvar \<Rightarrow> cvar result" where
  "BinDiv a b =
     rbind (CheckNum a) (\<lambda>_. rbind (CheckNum b) (\<lambda>_. Inr (VFloat (d_div (ToDouble a) (ToDouble b)))))"

definition BinIdiv :: "cvar \<Rightarrow> cvar \<Rightarrow> cvar result" where
  "BinIdiv a b =
     rbind (CheckNum a) (\<lambda>_. rbind (CheckNum b) (\<lambda>_.
       case (a, b) of
         (VInt i, VInt j) \<Rightarrow>
           if j = 0 then Inl ''floor division by zero'' else Inr (VInt (FloorDivQuotient i j))
       | _ \<Rightarrow> Inr (VFloat (d_floor (d_div (ToDouble a) (ToDouble b))))))"

definition BinMod :: "cvar \<Rightarrow> cvar \<Rightarrow> cvar result" where
  "BinMod a b =
     rbind (CheckNum a) (\<lambda>_. rbind (CheckNum b) (\<lambda>_.
       case (a, b) of
         (VInt i, VInt j) \<Rightarrow>
           if j = 0 then Inl ''modulo by zero''
           else if j = - 1 then Inr (VInt 0)
           else let q = FloorDivQuotient i j in Inr (VInt (i - j * q))
       | _ \<Rightarrow> let fa = ToDouble a; fb = ToDouble b in
              Inr (VFloat (d_sub fa (d_mul fb (d_floor (d_div fa fb)))))))"

definition BinPow :: "(double \<Rightarrow> double \<Rightarrow> double) \<Rightarrow> cvar \<Rightarrow> cvar \<Rightarrow> cvar result" where
  "BinPow pow a b =
     rbind (CheckNum a) (\<lambda>_. rbind (CheckNum b) (\<lambda>_. Inr (VFloat (pow (ToDouble a) (ToDouble b)))))"

definition int_binop :: "(int64 \<Rightarrow> int64 \<Rightarrow> int64) \<Rightarrow> cvar \<Rightarrow> cvar \<Rightarrow> cvar result" where
  "int_binop f a b = rbind (CheckInt a) (\<lambda>i. rbind (CheckInt b) (\<lambda>j. Inr (VInt (f i j))))"

definition BinBand :: "cvar \<Rightarrow> cvar \<Rightarrow> cvar result" where "BinBand = int_binop (AND)"
definition BinBxor :: "cvar \<Rightarrow> cvar \<Rightarrow> cvar result" where "BinBxor = int_binop (XOR)"
definition BinBor :: "cvar \<Rightarrow> cvar \<Rightarrow> cvar result" where "BinBor = int_binop (OR)"

text \<open>Shifts are logical (on \<open>uint64_t\<close>); a negative count shifts the other way.\<close>

definition shl64 :: "int64 \<Rightarrow> int64 \<Rightarrow> int64" where
  "shl64 ai bi =
     (if 64 \<le> sint bi \<or> sint bi \<le> - 64 then 0
      else if 0 \<le> sint bi then push_bit (nat (sint bi)) ai
      else drop_bit (nat (sint (- bi))) ai)"

definition shr64 :: "int64 \<Rightarrow> int64 \<Rightarrow> int64" where
  "shr64 ai bi =
     (if 64 \<le> sint bi \<or> sint bi \<le> - 64 then 0
      else if 0 \<le> sint bi then drop_bit (nat (sint bi)) ai
      else push_bit (nat (sint (- bi))) ai)"

definition BinShl :: "cvar \<Rightarrow> cvar \<Rightarrow> cvar result" where "BinShl = int_binop shl64"
definition BinShr :: "cvar \<Rightarrow> cvar \<Rightarrow> cvar result" where "BinShr = int_binop shr64"

definition UnMinus :: "cvar \<Rightarrow> cvar result" where
  "UnMinus a = rbind (CheckNum a) (\<lambda>_.
     case a of VInt i \<Rightarrow> Inr (VInt (0 - i)) | _ \<Rightarrow> Inr (VFloat (d_neg (ToDouble a))))"

definition UnNot :: "cvar \<Rightarrow> cvar" where "UnNot a = VBool (\<not> IsTrue a)"

definition UnBnot :: "cvar \<Rightarrow> cvar result" where
  "UnBnot a = rbind (CheckInt a) (\<lambda>i. Inr (VInt (NOT i)))"

section \<open>Comparisons\<close>

definition CmpLt :: "cvar \<Rightarrow> cvar \<Rightarrow> cvar result" where
  "CmpLt a b =
     (case (a, b) of
        (VInt i, VInt j) \<Rightarrow> Inr (VBool (sint i < sint j))
      | _ \<Rightarrow> rbind (CheckNum a) (\<lambda>_. rbind (CheckNum b) (\<lambda>_. Inr (VBool
          (case (a, b) of
             (VInt i, _) \<Rightarrow> CompareInt64Double i (ToDouble b) < 0
           | (_, VInt j) \<Rightarrow> CompareInt64Double j (ToDouble a) > 0
           | _ \<Rightarrow> d_lt (ToDouble a) (ToDouble b))))))"

definition CmpLe :: "cvar \<Rightarrow> cvar \<Rightarrow> cvar result" where
  "CmpLe a b =
     (case (a, b) of
        (VInt i, VInt j) \<Rightarrow> Inr (VBool (sint i \<le> sint j))
      | _ \<Rightarrow> rbind (CheckNum a) (\<lambda>_. rbind (CheckNum b) (\<lambda>_. Inr (VBool
          (if d_isnan (case a of VFloat d \<Rightarrow> d | _ \<Rightarrow> ToDouble b) then False
           else case (a, b) of
             (VInt i, _) \<Rightarrow> CompareInt64Double i (ToDouble b) \<le> 0
           | (_, VInt j) \<Rightarrow> CompareInt64Double j (ToDouble a) \<ge> 0
           | _ \<Rightarrow> d_le (ToDouble a) (ToDouble b))))))"

fun UnboxMulti :: "cvar \<Rightarrow> nat \<Rightarrow> cvar" where
  "UnboxMulti (VMulti vs) idx = (if idx < length vs then vs ! idx else VNil)"
| "UnboxMulti v idx = (if idx = 0 then v else VNil)"

section \<open>Numeric for\<close>

definition step_zero :: exn where "step_zero = CHR 0x27 # ''for'' @ CHR 0x27 # '' step is zero''"

fun ForStepPositive :: "cvar \<Rightarrow> bool result" where
  "ForStepPositive (VInt i) = (if i = 0 then Inl step_zero else Inr (sint i > 0))"
| "ForStepPositive (VFloat d) = (if d_eq d 0 then Inl step_zero else Inr (d_lt 0 d))"
| "ForStepPositive _ = Inl (CHR 0x27 # ''for'' @ CHR 0x27 # '' step must be a number'')"

definition ForLoopInRange :: "cvar \<Rightarrow> cvar \<Rightarrow> cvar \<Rightarrow> bool result" where
  "ForLoopInRange ctrl limit step =
     (case (ctrl, limit, step) of
        (VInt c, VInt l, VInt s) \<Rightarrow> Inr (if sint s > 0 then sint c \<le> sint l else sint c \<ge> sint l)
      | _ \<Rightarrow> rbind (CheckNum ctrl) (\<lambda>_. rbind (CheckNum limit) (\<lambda>_.
          let c = ToDouble ctrl; l = ToDouble limit in
          rbind (ForStepPositive step) (\<lambda>pos. Inr (if pos then d_le c l else d_le l c)))))"

definition int64_max :: int64 where "int64_max = 0x7FFFFFFFFFFFFFFF"
definition int64_min :: int64 where "int64_min = 0x8000000000000000"

text \<open>The result is \<open>None\<close> where the source sets \<open>*skip\<close>.\<close>

definition ForLimitToInt :: "cvar \<Rightarrow> int64 \<Rightarrow> int64 option result" where
  "ForLimitToInt limit step =
     (case limit of
        VInt l \<Rightarrow> Inr (Some l)
      | _ \<Rightarrow> rbind (CheckNum limit) (\<lambda>_.
          let flim = ToDouble limit in
          case DoubleFitsInt64 flim of
            Some p \<Rightarrow> Inr (Some p)
          | None \<Rightarrow> Inr
              (if \<not> d_isfinite flim then
                 if d_lt 0 flim then (if sint step < 0 then None else Some int64_max)
                 else if sint step > 0 then None else Some int64_min
               else if d_le d_two63 flim then (if sint step < 0 then None else Some int64_max)
               else if d_lt flim d_mtwo63 then (if sint step > 0 then None else Some int64_min)
               else Some (if sint step > 0 then d_to_int64 (d_floor flim) else d_to_int64 (d_ceil flim)))))"

text \<open>
  The result is whether the loop is skipped and the new \<open>(idx, limit, step, loopvar)\<close>: in the
  integer case \<open>limit\<close> becomes the number of iterations after the first.
\<close>

definition for_count :: "int64 \<Rightarrow> int64 \<Rightarrow> int64 \<Rightarrow> uint64" where
  "for_count init lm st =
     (if sint st > 0 then
        let count = lm - init in if st \<noteq> 1 then count div st else count
      else (init - lm) div (- (st + 1) + 1))"

definition ForPrepFloat :: "cvar \<Rightarrow> cvar \<Rightarrow> cvar \<Rightarrow> (bool \<times> cvar \<times> cvar \<times> cvar \<times> cvar) result" where
  "ForPrepFloat idx limit step =
     rbind (CheckNum idx) (\<lambda>_. rbind (CheckNum limit) (\<lambda>_. rbind (CheckNum step) (\<lambda>_.
       let i = ToDouble idx; l = ToDouble limit; st = ToDouble step in
       if d_eq st 0 then Inl step_zero
       else Inr (if d_lt 0 st then d_lt l i else d_lt i l, VFloat i, VFloat l, VFloat st, VFloat i))))"

definition ForPrep :: "cvar \<Rightarrow> cvar \<Rightarrow> cvar \<Rightarrow> (bool \<times> cvar \<times> cvar \<times> cvar \<times> cvar) result" where
  "ForPrep idx limit step =
     (case (idx, step) of
        (VInt init, VInt st) \<Rightarrow>
          if st = 0 then Inl step_zero
          else if is_num limit then
            rbind (ForLimitToInt limit st) (\<lambda>r.
              case r of
                None \<Rightarrow> Inr (True, idx, limit, step, idx)
              | Some lm \<Rightarrow>
                  if (if sint st > 0 then sint init > sint lm else sint init < sint lm)
                  then Inr (True, idx, limit, step, idx)
                  else Inr (False, idx, VInt (for_count init lm st), step, idx))
          else ForPrepFloat idx limit step
      | _ \<Rightarrow> ForPrepFloat idx limit step)"

text \<open>
  The handler of \<open>FORLOOP\<close>: whether the jump is taken, and the new \<open>(idx, limit)\<close>. The integer
  branch reads \<open>data_.i\<close> of the slots whatever their tag; \<open>data_i\<close> is that reading of
  the union.
\<close>

fun data_i :: "cvar \<Rightarrow> int64" where
  "data_i (VInt i) = i"
| "data_i (VFloat d) = d"
| "data_i (VTable _ p) = p"
| "data_i (VClosure p) = p"
| "data_i (VBool b) = (if b then 1 else 0)"
| "data_i _ = 0"

definition ForLoop :: "cvar \<Rightarrow> cvar \<Rightarrow> cvar \<Rightarrow> (bool \<times> cvar \<times> cvar) result" where
  "ForLoop ctrl limit step =
     (case step of
        VInt st \<Rightarrow>
          let count = data_i limit in
          Inr (if 0 < count then (True, VInt (data_i ctrl + st), VInt (count - 1))
               else (False, ctrl, limit))
      | _ \<Rightarrow> rbind (BinAdd ctrl step) (\<lambda>c'. rbind (ForLoopInRange c' limit step) (\<lambda>r. Inr (r, c', limit))))"

section \<open>Integer division\<close>

lemma sdiv_floor_int:
  fixes x y :: int
  assumes "y \<noteq> 0"
  shows "x div y = x sdiv y - (if (x < 0) \<noteq> (y < 0) \<and> x smod y \<noteq> 0 then 1 else 0)"
proof -
  define u v where "u = \<bar>x\<bar>" and "v = \<bar>y\<bar>"
  have v: "v \<noteq> 0" using assms by (simp add: v_def)
  have "x = u \<and> 0 \<le> x \<or> x = - u \<and> x < 0" and "y = v \<and> 0 < y \<or> y = - v \<and> y < 0"
    using assms by (simp_all add: u_def v_def abs_if)
  then consider "x = u" "y = v" "0 \<le> x" "0 < y" | "x = - u" "y = v" "x < 0" "0 < y"
    | "x = u" "y = - v" "0 \<le> x" "y < 0" | "x = - u" "y = - v" "x < 0" "y < 0"
    by blast
  then show ?thesis
    by cases (use v in \<open>auto simp: signed_divide_int_def signed_modulo_int_def zdiv_zminus1_eq_if
        zdiv_zminus2_eq_if sgn_if minus_div_mult_eq_mod [symmetric] split: if_splits\<close>)
qed

lemma sdiv_int_bounds:
  fixes x y :: int
  assumes "- (2 ^ 63) \<le> x" "x < 2 ^ 63" "y \<noteq> 0" "y \<noteq> - 1"
  shows "- (2 ^ 63) \<le> x sdiv y" "x sdiv y < 2 ^ 63"
proof -
  have "- (2 ^ 63) \<le> x sdiv y \<and> x sdiv y < 2 ^ 63"
  proof (cases "y = 1")
    case True
    then show ?thesis using assms by simp
  next
    case False
    then have "\<bar>x\<bar> div \<bar>y\<bar> \<le> \<bar>x\<bar> div 2"
      using assms by (intro zdiv_mono2) auto
    moreover have "0 \<le> \<bar>x\<bar> div \<bar>y\<bar>" using assms(3) by (simp add: pos_imp_zdiv_nonneg_iff)
    then have "\<bar>x sdiv y\<bar> \<le> \<bar>x\<bar> div \<bar>y\<bar>"
      by (auto simp: signed_divide_int_def abs_mult sgn_if abs_if)
    ultimately show ?thesis using assms(1,2) by linarith
  qed
  then show "- (2 ^ 63) \<le> x sdiv y" "x sdiv y < 2 ^ 63" by simp_all
qed

lemma smod_int_bounds:
  fixes x y :: int
  assumes "- (2 ^ 63) \<le> y" "y < 2 ^ 63" "y \<noteq> 0"
  shows "- (2 ^ 63) \<le> x smod y" "x smod y < 2 ^ 63"
proof -
  have eq: "x smod y = sgn x * (\<bar>x\<bar> mod \<bar>y\<bar>)"
    by (simp add: signed_modulo_int_def signed_divide_int_def minus_div_mult_eq_mod [symmetric]
        algebra_simps sgn_if abs_if)
  have "\<bar>x smod y\<bar> \<le> \<bar>x\<bar> mod \<bar>y\<bar>"
    unfolding eq using assms(3) by (simp add: abs_mult sgn_if)
  moreover have "\<bar>x\<bar> mod \<bar>y\<bar> < \<bar>y\<bar>" using assms(3) by simp
  ultimately show "- (2 ^ 63) \<le> x smod y" "x smod y < 2 ^ 63" using assms(1,2) by linarith+
qed

lemma sint_nonzero: "(b :: int64) \<noteq> 0 \<Longrightarrow> sint b \<noteq> 0"
  by (metis sint_0 signed_word_eqI)

text \<open>The correction turns C++'s truncating division into the floored one, overflow included.\<close>

lemma FloorDivQuotient_div:
  assumes "b \<noteq> 0"
  shows "FloorDivQuotient a b = word_of_int (sint a div sint b)"
proof (cases "b = - 1")
  case True
  then show ?thesis by (simp add: FloorDivQuotient_def)
next
  case False
  have b: "sint b \<noteq> 0" using assms by (rule sint_nonzero)
  have smod: "smod64 a b = 0 \<longleftrightarrow> sint a smod sint b = 0"
    by (metis smod64_def sint_0 sint_word_of_int64 smod_int_bounds sint64_bounds b of_int_0)
  have xor: "sint (a XOR b) < 0 \<longleftrightarrow> (sint a < 0) \<noteq> (sint b < 0)"
    by (simp add: signed_xor_eq)
  show ?thesis
    using False smod xor by (auto simp: FloorDivQuotient_def sdiv64_def Let_def sdiv_floor_int [OF b])
qed

lemma BinMod_int:
  assumes "b \<noteq> 0"
  shows "BinMod (VInt a) (VInt b) = Inr (VInt (word_of_int (sint a mod sint b)))"
proof (cases "b = - 1")
  case True
  then show ?thesis by (simp add: BinMod_def CheckNum_def)
next
  case False
  have "word_of_int (sint a mod sint b) = (word_of_int (sint a - sint b * (sint a div sint b)) :: int64)"
    by (simp add: minus_mult_div_eq_mod)
  also have "\<dots> = a - b * word_of_int (sint a div sint b)" by (simp del: minus_mult_div_eq_mod)
  finally show ?thesis using False assms by (simp add: BinMod_def CheckNum_def FloorDivQuotient_div)
qed

section \<open>Conversions are exact\<close>

lemma uint_word_of_int64: "0 \<le> n \<Longrightarrow> n < 2 ^ 64 \<Longrightarrow> uint (word_of_int n :: 64 word) = n"
  by (simp add: uint_word_of_int)

lemma uint_nonneg64: "0 \<le> sint (a :: int64) \<Longrightarrow> uint a = sint a"
  using uint_word_of_int64 [of "sint a"] sint64_bounds [of a] by simp

lemma d_trunc_multiple: "d_scaled w = t * d_unit \<Longrightarrow> d_trunc w = t"
  using d_unit_pos by (auto simp: d_trunc_alt signed_divide_int_def abs_mult sgn_if zero_less_mult_iff simp del: d_unit_pos)

lemma le_zdiv_iff:
  assumes "0 < (u::int)"
  shows "x \<le> s div u \<longleftrightarrow> x * u \<le> s"
proof
  assume "x \<le> s div u"
  then have "x * u \<le> s div u * u" using assms by simp
  also have "\<dots> \<le> s" using assms by (simp add: minus_mod_eq_div_mult [symmetric])
  finally show "x * u \<le> s" .
next
  assume "x * u \<le> s"
  then have "x * u div u \<le> s div u" using assms by (rule zdiv_mono1)
  then show "x \<le> s div u" using assms by simp
qed

lemma TryConvert_iff:
  "TryConvertDoubleToInt64 d = Some i \<longleftrightarrow> \<not> d_isnan d \<and> d_scaled d = sint i * d_unit"
proof (cases "d_isfinite d")
  case False
  have "\<bar>sint i * d_unit\<bar> < 2 ^ 1024 * d_unit"
    using sint64_bounds [of i] by (auto simp: abs_mult intro!: mult_strict_right_mono) 
  then show ?thesis using False d_isinf_mag [of d] d_scaled_abs [of d]
    by (auto simp: TryConvertDoubleToInt64_def d_isfinite_def d_isnan_def d_isinf_def)
next
  case True
  define t where "t = d_trunc d"
  note fin = d_of_trunc [OF True, folded t_def]
  have nan: "\<not> d_isnan d" "\<not> d_isnan (d_of_int t)"
    using True fin by (auto simp: d_isfinite_def d_isnan_def)
  have tr: "d_trunc (d_of_int t) = t" by (rule d_trunc_multiple) (rule fin(1))
  have lt: "d_lt (d_of_int t) d_mtwo63 \<longleftrightarrow> t < - (2 ^ 63)"
    using nan(2) mult_less_cancel_right_pos [of d_unit t "- (2 ^ 63)"] by (simp add: d_lt_def fin(1))
  have le: "d_le d_two63 (d_of_int t) \<longleftrightarrow> 2 ^ 63 \<le> t"
    using nan(2) mult_le_cancel_right_pos [of d_unit "2 ^ 63" t] by (simp add: d_le_def fin(1))
  have conv: "TryConvertDoubleToInt64 d =
      (if d_scaled d = t * d_unit \<and> - (2 ^ 63) \<le> t \<and> t < 2 ^ 63 then Some (word_of_int t) else None)"
    using True tr by (simp add: TryConvertDoubleToInt64_def d_modf_frac_def lt le Let_def d_to_int64_def
        flip: t_def) 
  have "d_scaled d = sint i * d_unit \<Longrightarrow> t = sint i"
    unfolding t_def by (rule d_trunc_multiple)
  then show ?thesis
    using nan sint64_bounds [of i] sint_word_of_int64 [of t] by (auto simp: conv)
qed

lemma DoubleFitsInt64_eq: "DoubleFitsInt64 = TryConvertDoubleToInt64"
  by (simp add: fun_eq_iff DoubleFitsInt64_def TryConvertDoubleToInt64_def)

lemma d_repr_small: "n \<le> 2 ^ 53 \<Longrightarrow> d_repr (n * 2 ^ 1074)"
proof (cases "n = 2 ^ 53")
  case True
  have "(2::nat) ^ 53 * 2 ^ 1074 = 1 * 2 ^ 1127" by (simp only: power_add [symmetric]) simp
  then show ?thesis unfolding d_repr_def True
    by (intro conjI exI [of _ 1] exI [of _ 1127]) (simp_all only:, simp_all)
next
  case False
  moreover assume "n \<le> 2 ^ 53"
  ultimately have "n < 2 ^ 53" by simp
  moreover have "n * 2 ^ 1074 < 2 ^ 53 * 2 ^ 1074" using \<open>n < 2 ^ 53\<close> by (simp only: mult_less_cancel2) simp
  moreover have "(2::nat) ^ 53 * 2 ^ 1074 < 2 ^ 2098" by (simp only: power_add [symmetric]) simp
  ultimately show ?thesis unfolding d_repr_def
    by (intro conjI exI [of _ n] exI [of _ 1074]) (auto intro: order_less_trans simp only:)
qed

lemma frac_small:
  assumes "d_isfinite w" "\<not> 2 ^ 1074 dvd d_mag w"
  shows "d_mag w < 2 ^ 53 * 2 ^ 1074"
proof -
  obtain m k where mk: "d_mag w = m * 2 ^ k" "m < 2 ^ 53"
    using d_mag_repr [OF assms(1)] unfolding d_repr_def by blast
  have "k < 1074"
  proof (rule ccontr)
    assume "\<not> k < 1074"
    then have "(2::nat) ^ 1074 dvd 2 ^ k" by (intro le_imp_power_dvd) simp
    then show False using assms(2) mk(1) by simp
  qed
  have "m * 2 ^ k < 2 ^ 53 * 2 ^ k" using mk(2) by simp
  also have "\<dots> \<le> 2 ^ 53 * 2 ^ 1074" using \<open>k < 1074\<close> by (intro mult_left_mono power_increasing) simp_all
  finally show ?thesis by (simp only: mk(1))
qed

lemma d_unit_nat: "d_unit = int (2 ^ 1074)"
  unfolding d_unit_def by (simp only: of_nat_power of_nat_numeral)

lemma d_repr_near:
  assumes fin: "d_isfinite w" and near: "\<bar>q * d_unit - d_scaled w\<bar> < d_unit"
  shows "d_repr (nat (\<bar>q\<bar> * d_unit))"
proof (cases "2 ^ 1074 dvd d_mag w")
  case True
  then obtain c where c: "d_mag w = 2 ^ 1074 * c" by blast
  have "\<exists>e. d_scaled w = e * d_unit"
    unfolding d_scaled_def c d_unit_nat
    by (intro exI [of _ "if d_sign w then - int c else int c"]) simp
  then obtain e where e: "d_scaled w = e * d_unit" ..
  have "\<bar>q - e\<bar> * d_unit < 1 * d_unit"
    using near by (simp add: e left_diff_distrib [symmetric] abs_mult)
  then have "\<bar>q - e\<bar> < 1" by (rule mult_right_less_imp_less) simp
  then have "nat (\<bar>q\<bar> * d_unit) = d_mag w"
    using d_scaled_abs [of w] e by (simp add: abs_mult)
  then show ?thesis using d_mag_repr [OF fin] by simp
next
  case False
  have "int (d_mag w) < int (2 ^ 53 * 2 ^ 1074)" using frac_small [OF fin False] by (simp only: of_nat_less_iff)
  also have "\<dots> = 2 ^ 53 * d_unit" unfolding d_unit_nat by (simp only: of_nat_mult of_nat_power of_nat_numeral)
  finally have "\<bar>q * d_unit\<bar> < (2 ^ 53 + 1) * d_unit"
    using near d_scaled_abs [of w] by (simp add: algebra_simps)
  then have "\<bar>q\<bar> * d_unit < (2 ^ 53 + 1) * d_unit" by (simp add: abs_mult)
  then have "\<bar>q\<bar> < 2 ^ 53 + 1" by (rule mult_right_less_imp_less) simp
  then have "d_repr (nat \<bar>q\<bar> * 2 ^ 1074)" by (intro d_repr_small) simp
  moreover have "nat (\<bar>q\<bar> * d_unit) = nat \<bar>q\<bar> * 2 ^ 1074"
    unfolding d_unit_nat by (simp only: nat_mult_distrib [of "\<bar>q\<bar>"] abs_ge_zero nat_int)
  ultimately show ?thesis by simp
qed

lemma d_zero_scaled [simp]: "d_scaled (d_zero s) = 0" "d_isfinite (d_zero s)"
  by (cases s; simp add: d_zero_def d_scaled_def d_mag_def d_expf_def d_frac_def d_isfinite_def)+

lemma d_floor_scaled:
  assumes "d_isfinite w"
  shows "d_scaled (d_floor w) = d_scaled w div d_unit * d_unit"
proof -
  have "\<bar>d_scaled w div d_unit * d_unit - d_scaled w\<bar> < d_unit"
    by (simp add: minus_mod_eq_div_mult [symmetric])
  from d_of_int_exact(1) [OF d_repr_near [OF assms this]] show ?thesis
    using assms by (auto simp: d_floor_def Let_def)
qed

lemma d_ceil_scaled:
  assumes "d_isfinite w"
  shows "d_scaled (d_ceil w) = - ((- d_scaled w) div d_unit) * d_unit"
proof -
  have "\<bar>- ((- d_scaled w) div d_unit) * d_unit - d_scaled w\<bar> < d_unit"
    by (simp add: minus_mod_eq_div_mult [symmetric])
  from d_of_int_exact(1) [OF d_repr_near [OF assms this]] show ?thesis
    using assms by (auto simp: d_ceil_def Let_def)
qed

section \<open>The limit of an integer loop\<close>

text \<open>The real value of a number, in units of \<open>2 ^ (-1074)\<close>.\<close>

fun num_scaled :: "cvar \<Rightarrow> int" where
  "num_scaled (VInt i) = sint i * d_unit"
| "num_scaled (VFloat d) = d_scaled d"
| "num_scaled _ = 0"

fun num_nan :: "cvar \<Rightarrow> bool" where
  "num_nan (VFloat d) = d_isnan d"
| "num_nan _ = False"

text \<open>The loop condition on unbounded integers and exact reals.\<close>

definition for_within :: "int \<Rightarrow> int \<Rightarrow> int \<Rightarrow> bool" where
  "for_within x L st \<longleftrightarrow> (if 0 < st then x * d_unit \<le> L else L \<le> x * d_unit)"

lemma for_within_mult: "for_within x (l * d_unit) st \<longleftrightarrow> (if 0 < st then x \<le> l else l \<le> x)"
  by (simp add: for_within_def)

definition limit_ok :: "int64 option \<Rightarrow> int \<Rightarrow> int \<Rightarrow> bool" where
  "limit_ok r L st \<longleftrightarrow> (\<forall>x :: int64.
     for_within (sint x) L st \<longleftrightarrow>
     (case r of None \<Rightarrow> False | Some l \<Rightarrow> if 0 < st then sint x \<le> sint l else sint l \<le> sint x))"

lemma limit_ok_int: "L = sint l * d_unit \<Longrightarrow> limit_ok (Some l) L st"
  by (simp add: limit_ok_def for_within_mult)

lemma sint_limits [simp]: "sint int64_max = 2 ^ 63 - 1" "sint int64_min = - (2 ^ 63)"
  by (simp_all add: int64_max_def int64_min_def)

lemma limit_ok_high:
  assumes "2 ^ 63 * d_unit \<le> L" "st \<noteq> 0"
  shows "limit_ok (if st < 0 then None else Some int64_max) L st"
proof -
  have "sint x * d_unit < 2 ^ 63 * d_unit" for x :: int64
    using sint64_bounds(2) by (intro mult_strict_right_mono) simp_all
  then have "sint x * d_unit < L" for x :: int64 using assms(1) by (rule order_less_le_trans)
  then have ge: "sint x * d_unit \<le> L" "\<not> L \<le> sint x * d_unit" for x :: int64
    by (simp_all add: less_imp_le not_le)
  have le: "sint x \<le> 2 ^ 63 - 1" for x :: int64 using sint64_bounds(2) [of x] by simp
  show ?thesis using assms(2) le by (auto simp: limit_ok_def for_within_def ge simp del: not_le)
qed

lemma limit_ok_low:
  assumes "L < - (2 ^ 63 * d_unit)" "st \<noteq> 0"
  shows "limit_ok (if 0 < st then None else Some int64_min) L st"
proof -
  have "L < sint x * d_unit" for x :: int64
  proof -
    have "- (2 ^ 63) * d_unit \<le> sint x * d_unit"
      by (rule mult_right_mono [OF sint64_bounds(1)]) simp
    with assms(1) show ?thesis by linarith
  qed
  then have le: "L \<le> sint x * d_unit" "\<not> sint x * d_unit \<le> L" for x :: int64
    by (simp_all add: less_imp_le not_le)
  show ?thesis using assms(2) sint64_bounds(1)
    by (cases "0 < st") (simp_all add: limit_ok_def for_within_def le del: not_le)
qed

lemma nonint_small:
  assumes "d_isfinite d" "\<And>t. d_scaled d \<noteq> t * d_unit"
  shows "\<bar>d_scaled d\<bar> < 2 ^ 53 * d_unit"
proof -
  have "\<not> 2 ^ 1074 dvd d_mag d"
  proof
    assume "2 ^ 1074 dvd d_mag d"
    then obtain c where c: "d_mag d = 2 ^ 1074 * c" by blast
    have m: "int (d_mag d) = int c * d_unit" by (simp only: c d_unit_nat of_nat_mult mult.commute)
    show False
      using assms(2) [of "if d_sign d then - int c else int c"] m
      by (cases "d_sign d") (simp_all add: d_scaled_def)
  qed
  from frac_small [OF assms(1) this]
  have "int (d_mag d) < int (2 ^ 53 * 2 ^ 1074)" by (simp only: of_nat_less_iff)
  also have "\<dots> = 2 ^ 53 * d_unit" unfolding d_unit_nat by (simp only: of_nat_mult of_nat_power of_nat_numeral)
  finally show ?thesis by (simp only: d_scaled_abs)
qed

lemma limit_ok_frac:
  assumes fin: "d_isfinite d" and no_int: "\<And>t. d_scaled d \<noteq> t * d_unit" and st: "st \<noteq> 0"
  shows "limit_ok (Some (if st > 0 then d_to_int64 (d_floor d) else d_to_int64 (d_ceil d))) (d_scaled d) st"
proof -
  define s where "s = d_scaled d"
  note small = nonint_small [OF fin no_int, folded s_def]
  have b: "- (2 ^ 53) * d_unit \<le> s" "- (2 ^ 53) * d_unit \<le> - s" 
    "\<not> 2 ^ 53 * d_unit \<le> s" "\<not> 2 ^ 53 * d_unit \<le> - s"
    using small by auto
  define p q where "p = s div d_unit" and "q = - s div d_unit"
  have pq: "- (2 ^ 53) \<le> p" "p < 2 ^ 53" "- (2 ^ 53) \<le> q" "q < 2 ^ 53"
    using b by (simp_all only: p_def q_def le_zdiv_iff [OF d_unit_pos(1)] not_False_eq_True flip: not_le)
  have "sint (d_to_int64 (d_floor d)) = p"
    unfolding d_to_int64_def d_trunc_multiple [OF d_floor_scaled [OF fin]] s_def [symmetric] p_def [symmetric]
    by (rule sint_word_of_int64) (use pq in simp_all)
  moreover have "sint (d_to_int64 (d_ceil d)) = - q"
    unfolding d_to_int64_def d_trunc_multiple [OF d_ceil_scaled [OF fin]] s_def [symmetric] q_def [symmetric]
    by (rule sint_word_of_int64) (use pq in simp_all)
  moreover have "x * d_unit \<le> s \<longleftrightarrow> x \<le> p" for x by (simp add: p_def le_zdiv_iff)
  moreover have "s \<le> x * d_unit \<longleftrightarrow> - q \<le> x" for x
    using le_zdiv_iff [of d_unit "- x" "- s"] by (auto simp: q_def)
  ultimately show ?thesis by (auto simp: limit_ok_def for_within_def simp flip: s_def)
qed

lemma ForLimitToInt_ok:
  assumes "is_num limit" "\<not> num_nan limit" "st \<noteq> 0"
  shows "\<exists>r. ForLimitToInt limit st = Inr r \<and> limit_ok r (num_scaled limit) (sint st)"
proof -
  have st: "sint st \<noteq> 0" using assms(3) by (metis sint_0 signed_word_eqI)
  consider (int) l where "limit = VInt l" | (float) d where "limit = VFloat d" "\<not> d_isnan d"
    using assms(1,2) by (cases limit) auto
  then show ?thesis
  proof cases
    case int
    then show ?thesis by (simp add: ForLimitToInt_def limit_ok_int)
  next
    case float
    show ?thesis
    proof (cases "DoubleFitsInt64 d")
      case (Some p)
      then have "d_scaled d = sint p * d_unit" by (simp add: DoubleFitsInt64_eq TryConvert_iff)
      with Some show ?thesis using float limit_ok_int [of "d_scaled d" p]
        by (simp add: ForLimitToInt_def CheckNum_def)
    next
      case None
      have zero: "d_scaled 0 = 0" "\<not> d_isnan 0"
        by (simp_all add: d_scaled_def d_mag_def d_expf_def d_frac_def d_isnan_def)
      have lim: "ForLimitToInt limit st = Inr
          (if \<not> d_isfinite d then
             if d_lt 0 d then (if sint st < 0 then None else Some int64_max)
             else if sint st > 0 then None else Some int64_min
           else if d_le d_two63 d then (if sint st < 0 then None else Some int64_max)
           else if d_lt d d_mtwo63 then (if sint st > 0 then None else Some int64_min)
           else Some (if sint st > 0 then d_to_int64 (d_floor d) else d_to_int64 (d_ceil d)))"
        using None float by (simp add: ForLimitToInt_def CheckNum_def)
      consider (hi) "2 ^ 63 * d_unit \<le> d_scaled d" | (lo) "d_scaled d < - (2 ^ 63 * d_unit)"
        | (mid) "- (2 ^ 63 * d_unit) \<le> d_scaled d" "d_scaled d < 2 ^ 63 * d_unit" by linarith
      then show ?thesis
      proof cases
        case hi
        moreover have "0 < 2 ^ 63 * d_unit" by (rule mult_pos_pos) simp_all
        ultimately have "0 < d_scaled d" by linarith
        then have "d_lt 0 d" "d_le d_two63 d" using hi float zero unfolding d_lt_def d_le_def d_two63_facts by simp_all
        then show ?thesis using limit_ok_high [OF hi st] float lim by simp
      next
        case lo
        have "0 < 2 ^ 63 * d_unit" by (rule mult_pos_pos) simp_all
        with lo have "d_scaled d < 0" by linarith
        moreover from this lo have "\<not> 2 ^ 63 * d_unit \<le> d_scaled d"
          using \<open>0 < 2 ^ 63 * d_unit\<close> by linarith
        ultimately have "\<not> d_lt 0 d" "d_lt d d_mtwo63" "\<not> d_le d_two63 d"
          using lo float zero unfolding d_lt_def d_le_def d_two63_facts by simp_all
        then show ?thesis using limit_ok_low [OF lo st] float lim by simp
      next
        case mid
        then have "\<not> d_le d_two63 d" "\<not> d_lt d d_mtwo63" using float
          unfolding d_lt_def d_le_def d_two63_facts by linarith+
        moreover have no_int: "d_scaled d \<noteq> t * d_unit" for t
        proof
          assume eq: "d_scaled d = t * d_unit"
          have "- (2 ^ 63) * d_unit \<le> t * d_unit" "t * d_unit < 2 ^ 63 * d_unit"
            using mid by (simp_all only: eq mult_minus_left)
          then have "sint (word_of_int t :: int64) = t"
            by (intro sint_word_of_int64) (simp_all only: mult_less_cancel_right_pos mult_le_cancel_right_pos d_unit_pos)
          then show False using None eq float(2) TryConvert_iff [of d "word_of_int t"]
            by (simp add: DoubleFitsInt64_eq)
        qed
        moreover from d_trunc_int64(2) [OF calculation(1,2) float(2)] have fin: "d_isfinite d" .
        ultimately have "ForLimitToInt limit st =
            Inr (Some (if sint st > 0 then d_to_int64 (d_floor d) else d_to_int64 (d_ceil d)))"
          using lim by simp
        then show ?thesis using limit_ok_frac [OF fin no_int st] float by simp
      qed
    qed
  qed
qed

section \<open>The values an integer loop visits\<close>

lemma for_count_pos:
  assumes "0 < sint st" "sint init \<le> sint lm"
  shows "uint (for_count init lm st) = (sint lm - sint init) div sint st"
proof -
  have "uint (lm - init) = sint lm - sint init"
    using uint_word_of_int64 [of "sint lm - sint init"] sint64_bounds [of lm] sint64_bounds [of init] assms
    by simp
  then show ?thesis using assms uint_nonneg64 [of st] by (auto simp: for_count_def Let_def uint_div_distrib)
qed

lemma for_count_neg:
  assumes "sint st < 0" "sint lm \<le> sint init"
  shows "uint (for_count init lm st) = (sint init - sint lm) div (- sint st)"
proof -
  have "uint (init - lm) = sint init - sint lm"
    using uint_word_of_int64 [of "sint init - sint lm"] sint64_bounds [of lm] sint64_bounds [of init] assms
    by simp
  moreover have "uint (- st) = - sint st"
    using uint_word_of_int64 [of "- sint st"] sint64_bounds [of st] assms by simp
  ultimately show ?thesis using assms by (simp add: for_count_def uint_div_distrib)
qed

text \<open>The values the loop variable takes: the code's loop, and the arithmetic progression.\<close>

fun for_run :: "nat \<Rightarrow> cvar \<Rightarrow> cvar \<Rightarrow> cvar \<Rightarrow> cvar list option" where
  "for_run 0 idx limit step = None"
| "for_run (Suc n) idx limit step =
     (case ForLoop idx limit step of
        Inl _ \<Rightarrow> None
      | Inr (jump, i', l') \<Rightarrow> if jump then map_option ((#) i') (for_run n i' l' step) else Some [])"

definition for_visited :: "nat \<Rightarrow> cvar \<Rightarrow> cvar \<Rightarrow> cvar \<Rightarrow> cvar list option" where
  "for_visited fuel idx limit step =
     (case ForPrep idx limit step of
        Inl _ \<Rightarrow> None
      | Inr (skip, i, l, s, v) \<Rightarrow> if skip then Some [] else map_option ((#) v) (for_run fuel i l s))"

definition int64_range :: "int \<Rightarrow> bool" where
  "int64_range x \<longleftrightarrow> - (2 ^ 63) \<le> x \<and> x < 2 ^ 63"

function lua_for :: "int \<Rightarrow> int \<Rightarrow> int \<Rightarrow> int list" where
  "lua_for x L st =
     (if st \<noteq> 0 \<and> int64_range x \<and> for_within x L st then x # lua_for (x + st) L st else [])"
  by auto
termination
  by (relation "measure (\<lambda>(x, L, st). nat (if 0 < st then 2 ^ 63 - x else x + 2 ^ 63 + 1))")
    (auto simp: int64_range_def)

declare lua_for.simps [simp del]

definition remaining :: "int64 \<Rightarrow> int64 \<Rightarrow> int \<Rightarrow> uint64 \<Rightarrow> bool" where
  "remaining i lm st count \<longleftrightarrow>
     (if 0 < st then sint i \<le> sint lm \<and> uint count = (sint lm - sint i) div st
      else sint lm \<le> sint i \<and> uint count = (sint i - sint lm) div (- st))"

lemma remaining_init:
  assumes "st \<noteq> 0" "if 0 < sint st then sint a \<le> sint lm else sint lm \<le> sint a"
  shows "remaining a lm (sint st) (for_count a lm st)"
proof -
  have "sint st \<noteq> 0" using assms(1) by (metis sint_0 signed_word_eqI)
  then show ?thesis using assms by (auto simp: remaining_def for_count_pos for_count_neg)
qed

lemma div_sub_self: "0 < (s::int) \<Longrightarrow> (d - s) div s = d div s - 1"
  using div_mult_self1 [of s d "- 1"] by simp

lemma remaining_step:
  assumes "remaining i lm (sint st) count" "sint st \<noteq> 0" "count \<noteq> 0"
  shows "sint (i + st) = sint i + sint st" "remaining (i + st) lm (sint st) (count - 1)"
proof -
  have c: "1 \<le> uint count" "uint (count - 1) = uint count - 1"
    using assms(3) uint_lt2p [of count] uint_word_of_int64 [of "uint count - 1"]
    by (auto simp: uint_0_iff int_one_le_iff_zero_less order_less_le)
  have fit: "sint (i + st) = sint i + sint st" if "int64_range (sint i + sint st)"
    using that sint_word_of_int64 [of "sint i + sint st"] by (simp add: int64_range_def)
  have "sint (i + st) = sint i + sint st \<and> remaining (i + st) lm (sint st) (count - 1)"
  proof (cases "0 < sint st")
    case True
    with assms c have "sint i + sint st \<le> sint lm"
      by (simp add: remaining_def le_zdiv_iff)
    with True fit sint64_bounds [of i] sint64_bounds [of lm]
    have "sint (i + st) = sint i + sint st" "sint i + sint st \<le> sint lm" by (auto simp: int64_range_def)
    then show ?thesis using True assms c div_sub_self [OF True, of "sint lm - sint i"]
      by (simp add: remaining_def diff_diff_eq)
  next
    case False
    with assms c have "sint lm \<le> sint i + sint st"
      by (simp add: remaining_def le_zdiv_iff)
    with False fit sint64_bounds [of i] sint64_bounds [of lm]
    have "sint (i + st) = sint i + sint st" "sint lm \<le> sint i + sint st" by (auto simp: int64_range_def)
    then show ?thesis using False assms c div_sub_self [of "- sint st" "sint i - sint lm"]
      by (simp add: remaining_def algebra_simps)
  qed
  then show "sint (i + st) = sint i + sint st" "remaining (i + st) lm (sint st) (count - 1)" by simp_all
qed

lemma remaining_last:
  assumes "remaining i lm (sint st) 0" "sint st \<noteq> 0" "limit_ok (Some lm) L (sint st)"
  shows "lua_for (sint i + sint st) L (sint st) = []"
proof -
  define x where "x = sint i + sint st"
  have out: "\<not> (if 0 < sint st then x \<le> sint lm else sint lm \<le> x)"
    using assms(1,2) le_zdiv_iff [of "sint st" 1 "sint lm - sint i"]
      le_zdiv_iff [of "- sint st" 1 "sint i - sint lm"]
    by (auto simp: remaining_def x_def)
  have "\<not> (int64_range x \<and> for_within x L (sint st))"
  proof
    assume x: "int64_range x \<and> for_within x L (sint st)"
    define w :: int64 where "w = word_of_int x"
    have w: "sint w = x"
      unfolding w_def using x by (intro sint_word_of_int64) (simp_all add: int64_range_def)
    have "for_within (sint w) L (sint st) \<longleftrightarrow> (if 0 < sint st then sint w \<le> sint lm else sint lm \<le> sint w)"
      using assms(3) unfolding limit_ok_def by (simp del: if_split)
    with w x out show False by (cases "0 < sint st") simp_all
  qed
  then show ?thesis unfolding x_def [symmetric] by (subst lua_for.simps) auto
qed

lemma remaining_within:
  assumes "remaining i lm (sint st) count" "limit_ok (Some lm) L (sint st)" "sint st \<noteq> 0"
  shows "lua_for (sint i) L (sint st) = sint i # lua_for (sint i + sint st) L (sint st)"
proof -
  have "for_within (sint i) L (sint st)"
    using assms by (auto simp: limit_ok_def remaining_def split: if_splits)
  then show ?thesis using assms(3) sint64_bounds [of i]
    by (subst lua_for.simps) (simp add: int64_range_def)
qed

lemma for_run_remaining:
  assumes "remaining i lm (sint st) count" "limit_ok (Some lm) L (sint st)" "sint st \<noteq> 0"
    "unat count < fuel"
  shows "for_run fuel (VInt i) (VInt count) (VInt st) =
    Some (map (\<lambda>x. VInt (word_of_int x)) (lua_for (sint i + sint st) L (sint st)))"
  using assms
proof (induction fuel arbitrary: i count)
  case (Suc n)
  show ?case
  proof (cases "count = 0")
    case True
    with Suc.prems remaining_last show ?thesis by (simp add: ForLoop_def)
  next
    case False
    note step = remaining_step [OF Suc.prems(1,3) False]
    have "unat count \<noteq> 0" using False by (metis unat_eq_zero)
    then have "unat (count - 1) < n" using Suc.prems(4) False by (simp add: unat_minus_one)
    note ih = Suc.IH [OF step(2) Suc.prems(2,3) this]
    have jump: "ForLoop (VInt i) (VInt count) (VInt st) = Inr (True, VInt (i + st), VInt (count - 1))"
      using False by (simp add: ForLoop_def word_gt_0)
    have "(word_of_int (sint (i + st)) :: int64) = i + st" by (rule word_of_int_sint64)
    then show ?thesis
      using ih remaining_within [OF step(2) Suc.prems(2,3)] by (simp only: for_run.simps jump step(1)) simp
  qed
qed simp

lemma for_visited_lua_for:
  assumes "is_num limit" "\<not> num_nan limit" "st \<noteq> 0" "2 ^ 64 \<le> fuel"
  shows "for_visited fuel (VInt a) limit (VInt st) =
    Some (map (\<lambda>x. VInt (word_of_int x)) (lua_for (sint a) (num_scaled limit) (sint st)))"
proof -
  let ?L = "num_scaled limit"
  have st: "sint st \<noteq> 0" using assms(3) by (metis sint_0 signed_word_eqI)
  obtain r where r: "ForLimitToInt limit st = Inr r" "limit_ok r ?L (sint st)"
    using ForLimitToInt_ok [OF assms(1-3)] by blast
  then have w: "for_within (sint a) ?L (sint st) \<longleftrightarrow> (case r of None \<Rightarrow> False
      | Some l \<Rightarrow> if 0 < sint st then sint a \<le> sint l else sint l \<le> sint a)"
    unfolding limit_ok_def by blast
  show ?thesis
  proof (cases "for_within (sint a) ?L (sint st)")
    case False
    then have "lua_for (sint a) ?L (sint st) = []" by (subst lua_for.simps) simp
    then show ?thesis using r(1) assms(1,3) False [unfolded w]
      by (cases r) (auto simp: for_visited_def ForPrep_def split: if_splits)
  next
    case True
    then obtain l where l: "r = Some l" "if 0 < sint st then sint a \<le> sint l else sint l \<le> sint a"
      unfolding w by (cases r) simp_all
    note rem = remaining_init [OF assms(3) l(2)]
    have "unat (for_count a l st) < fuel" using assms(4) unat_lt_pow [of "for_count a l st"] by simp
    from for_run_remaining [OF rem r(2) [unfolded l(1)] st this]
      remaining_within [OF rem r(2) [unfolded l(1)] st]
    show ?thesis using r(1) l assms(1,3)
      by (auto simp: for_visited_def ForPrep_def split: if_splits)
  qed
qed

lemma lua_for_range: "x \<in> set (lua_for a L st) \<Longrightarrow> int64_range x \<and> for_within x L st"
proof (induction a L st rule: lua_for.induct)
  case (1 a L st)
  then show ?case by (subst (asm) (2) lua_for.simps) (auto split: if_splits)
qed

lemma lua_for_no_wrap: "map (\<lambda>x. sint (word_of_int x :: int64)) (lua_for a L st) = lua_for a L st"
  using lua_for_range by (intro map_idI) (auto simp: int64_range_def intro: sint_word_of_int64)

section \<open>Comparisons are exact\<close>

lemma d_zero_facts: "d_scaled 0 = 0" "\<not> d_isnan 0"
  by (simp_all add: d_scaled_def d_mag_def d_expf_def d_frac_def d_isnan_def)

lemma CmpLt_scaled:
  assumes "is_num a" "is_num b"
  shows "CmpLt a b = Inr (VBool (\<not> num_nan a \<and> \<not> num_nan b \<and> num_scaled a < num_scaled b))"
proof -
  have lt: "sint i * d_unit < sint j * d_unit \<longleftrightarrow> sint i < sint j" for i j :: int64
    by (rule mult_less_cancel_right_pos) simp
  have c: "CompareInt64Double i d < 0 \<longleftrightarrow> \<not> d_isnan d \<and> sint i * d_unit < d_scaled d"
    "CompareInt64Double i d > 0 \<longleftrightarrow> \<not> d_isnan d \<and> d_scaled d < sint i * d_unit" for i d
    by (cases "d_isnan d"; simp add: CompareInt64Double_nan CompareInt64Double_sgn)+
  show ?thesis using assms
    by (cases a; cases b) (simp_all add: CmpLt_def CheckNum_def lt c d_lt_def)
qed

lemma CmpLe_scaled:
  assumes "is_num a" "is_num b"
  shows "CmpLe a b = Inr (VBool (\<not> num_nan a \<and> \<not> num_nan b \<and> num_scaled a \<le> num_scaled b))"
proof -
  have le: "sint i * d_unit \<le> sint j * d_unit \<longleftrightarrow> sint i \<le> sint j" for i j :: int64
    by (rule mult_le_cancel_right_pos) simp
  have c: "CompareInt64Double i d \<le> 0 \<longleftrightarrow> sint i * d_unit \<le> d_scaled d"
    "0 \<le> CompareInt64Double i d \<longleftrightarrow> d_scaled d \<le> sint i * d_unit" if "\<not> d_isnan d" for i d
    using that by (auto simp: CompareInt64Double_sgn sgn_if)
  show ?thesis using assms
    by (cases a; cases b) (auto simp: CmpLe_def CheckNum_def le c d_le_def)
qed

text \<open>\<open>Var::Equal\<close> on numbers is equality of real values, whatever the two tags.\<close>

lemma Equal_scaled:
  assumes "is_num a" "is_num b"
  shows "Equal a b \<longleftrightarrow> \<not> num_nan a \<and> \<not> num_nan b \<and> num_scaled a = num_scaled b"
  using assms by (cases a; cases b) (auto simp: Int64DoubleEqual_iff d_eq_def sint_inj_int64)

section \<open>Shifts\<close>

text \<open>The shift by an unbounded signed distance: multiplication or division of the unsigned value.\<close>

definition shift_by :: "int64 \<Rightarrow> int \<Rightarrow> int64" where
  "shift_by a n = (if 0 \<le> n then word_of_int (uint a * 2 ^ nat n) else word_of_int (uint a div 2 ^ nat (- n)))"

lemma shift_by_left: "push_bit n a = shift_by a (int n)"
  by (simp add: shift_by_def push_bit_eq_mult) 

lemma shift_by_right: "drop_bit n a = shift_by a (- int n)"
proof (cases "n = 0")
  case False
  have "uint (drop_bit n a) = uint a div 2 ^ n" by (simp add: unsigned_drop_bit_eq bintr_uint flip: drop_bit_eq_div)
  then show ?thesis using False by (simp add: shift_by_def) (metis word_of_int_uint)
qed (simp add: shift_by_def)

lemma shift_by_far: "64 \<le> \<bar>n\<bar> \<Longrightarrow> shift_by a n = 0"
proof (cases "0 \<le> n")
  case True
  assume "64 \<le> \<bar>n\<bar>"
  with True have "(2 :: int64) ^ nat n = 0" by (simp add: exp_eq_zero_iff)
  with shift_by_left [of "nat n" a] True show ?thesis by (simp add: push_bit_eq_mult)
next
  case False
  assume "64 \<le> \<bar>n\<bar>"
  with False have "(2::int) ^ 64 \<le> 2 ^ nat (- n)" by (intro power_increasing) auto
  then have "uint a div 2 ^ nat (- n) = 0" using uint_lt2p [of a] by (intro div_pos_pos_trivial) auto
  with False show ?thesis by (simp add: shift_by_def)
qed

lemma sint_uminus_int64: "- 64 < sint b \<Longrightarrow> sint (b::int64) < 64 \<Longrightarrow> sint (- b) = - sint b"
  using sint_word_of_int64 [of "- sint b"] by simp

lemma shl64_shift_by: "shl64 a b = shift_by a (sint b)"
  using shift_by_left [of "nat (sint b)" a] shift_by_right [of "nat (- sint b)" a] shift_by_far [of "sint b" a]
    sint_uminus_int64 [of b]
  by (auto simp: shl64_def)

lemma shr64_shift_by: "shr64 a b = shift_by a (- sint b)"
  using shift_by_left [of "nat (- sint b)" a] shift_by_right [of "nat (sint b)" a] shift_by_far [of "- sint b" a]
    sint_uminus_int64 [of b]
  by (auto simp: shr64_def)

section \<open>Properties\<close>

text \<open>
  C17. \<open>//\<close> and \<open>%\<close> on integers are the floored division and modulus, for every
  divisor but 0, on which they throw; the one overflowing quotient (the least integer by -1) wraps.
\<close>

theorem integer_division_floors:
  "BinIdiv (VInt a) (VInt b) =
     (if b = 0 then Inl ''floor division by zero'' else Inr (VInt (word_of_int (sint a div sint b)))) \<and>
   BinMod (VInt a) (VInt b) =
     (if b = 0 then Inl ''modulo by zero'' else Inr (VInt (word_of_int (sint a mod sint b))))"
  by (simp add: BinMod_int) (simp add: BinIdiv_def BinMod_def CheckNum_def FloorDivQuotient_div)

text \<open>
  C15. A numeric \<open>for\<close> over integers whose limit is any number but NaN runs the body for
  exactly the arithmetic progression that starts at the initial value and stays within the limit
  and within \<open>int64\<close>: no element is missed, none is repeated, the counter never wraps
  around, and \<open>2 ^ 64\<close> turns of \<open>FORLOOP\<close> always suffice.
\<close>

theorem for_loop_visits_progression:
  assumes "is_num limit" "\<not> num_nan limit" "st \<noteq> 0" "2 ^ 64 \<le> fuel"
  shows "\<exists>vs. for_visited fuel (VInt a) limit (VInt st) = Some (map VInt vs) \<and>
    map sint vs = lua_for (sint a) (num_scaled limit) (sint st)"
proof -
  have "for_visited fuel (VInt a) limit (VInt st) =
      Some (map VInt (map word_of_int (lua_for (sint a) (num_scaled limit) (sint st))))"
    using for_visited_lua_for [OF assms] by simp
  moreover have "map sint (map (word_of_int :: int \<Rightarrow> int64) (lua_for (sint a) (num_scaled limit) (sint st))) =
      lua_for (sint a) (num_scaled limit) (sint st)"
    using lua_for_no_wrap by (simp only: map_map comp_def)
  ultimately show ?thesis by blast
qed

theorem for_loop_visits_progression_witness:
  "\<exists>vs. for_visited (2 ^ 64) (VInt 1) (VFloat 0x4014000000000000) (VInt 2) = Some (map VInt vs) \<and>
    map sint vs = lua_for 1 (num_scaled (VFloat 0x4014000000000000)) 2"
  using for_loop_visits_progression [of "VFloat 0x4014000000000000" 2 "2 ^ 64" 1]
  by (simp add: d_isnan_def d_expf_def)

text \<open>
  C16. Comparisons and equality of numbers compare their exact real values, whatever the mixture of
  integers and floats, and are false on NaN; a non-number in an order comparison throws.
\<close>

theorem comparisons_exact:
  assumes "is_num a" "is_num b"
  shows "CmpLt a b = Inr (VBool (\<not> num_nan a \<and> \<not> num_nan b \<and> num_scaled a < num_scaled b)) \<and>
    CmpLe a b = Inr (VBool (\<not> num_nan a \<and> \<not> num_nan b \<and> num_scaled a \<le> num_scaled b)) \<and>
    (Equal a b \<longleftrightarrow> \<not> num_nan a \<and> \<not> num_nan b \<and> num_scaled a = num_scaled b)"
  using CmpLt_scaled [OF assms] CmpLe_scaled [OF assms] Equal_scaled [OF assms] by blast

theorem comparisons_exact_witness:
  "CmpLt (VInt 9007199254740993) (VFloat 0x4340000000000000) =
     Inr (VBool (num_scaled (VInt 9007199254740993) < num_scaled (VFloat 0x4340000000000000)))"
  using comparisons_exact [of "VInt 9007199254740993" "VFloat 0x4340000000000000"]
  by (simp add: d_isnan_def d_expf_def)

text \<open>
  A shift by any distance, negative ones and those beyond the width included, is the logical
  shift of the 64-bit pattern: multiplication or truncating division of the unsigned value by the
  power of two.
\<close>

theorem shifts_logical:
  "BinShl (VInt a) (VInt b) = Inr (VInt (shift_by a (sint b))) \<and>
   BinShr (VInt a) (VInt b) = Inr (VInt (shift_by a (- sint b)))"
  by (simp add: BinShl_def BinShr_def int_binop_def shl64_shift_by shr64_shift_by)

end
