(* ===== verification/HeapAlloc.thy ===== *)
theory HeapAlloc
imports Prelude
begin

text \<open>
  The bump allocator \<open>HeapAllocator\<close> / \<open>Heap\<close> (\<open>state/heap.h\<close>,
  \<open>state/heap.cpp\<close>) and the allocation fast path of JIT-compiled code (\<open>FlFastAlloc\<close>,
  \<open>compile/c_runtime_header.h\<close>), which bumps the same block through the shared
  \<open>FlHeapSlot\<close>. Addresses are natural numbers; \<open>std::aligned_alloc\<close> is a
  parameter that maps the addresses handed out so far to a new one, or to \<open>None\<close>.
  A destructor record is the pair of its function and its object.
\<close>

section \<open>State and operations\<close>

definition BLOCK_SIZE :: nat where "BLOCK_SIZE = 1048576"
definition max_align :: nat where "max_align = 16"

type_synonym addr = nat

record FlHeapSlot =
  curr :: nat
  slot_end :: addr

record heap_allocator =
  slot :: "FlHeapSlot option"
  blocks :: "addr list"
  current_block_index :: nat
  current_block_offset :: nat
  destructors :: "(nat \<times> addr) list"

definition HeapAllocator :: "FlHeapSlot option \<Rightarrow> heap_allocator" where
  "HeapAllocator s = \<lparr>slot = s, blocks = [], current_block_index = 0, current_block_offset = 0, destructors = []\<rparr>"

text \<open>The bump pointer a JIT allocation may have moved is read back before a C++ allocation.\<close>

definition sync_slot :: "heap_allocator \<Rightarrow> heap_allocator" where
  "sync_slot h =
     (case slot h of
        None \<Rightarrow> h
      | Some sl \<Rightarrow>
          if curr sl \<noteq> 0 \<and> current_block_index h < length (blocks h) then
            let base = blocks h ! current_block_index h in
            if base \<le> curr sl \<and> curr sl \<le> base + BLOCK_SIZE
            then h\<lparr>current_block_offset := curr sl - base\<rparr> else h
          else h)"

definition alloc_size_error :: "nat \<Rightarrow> exn" where
  "alloc_size_error sz =
     ''Alloc failed, requested size '' @ to_string_nat sz @ '' exceeds block size '' @ to_string_nat BLOCK_SIZE"

definition bump :: "nat \<Rightarrow> nat \<Rightarrow> heap_allocator \<Rightarrow> addr \<times> heap_allocator" where
  "bump padding sz h =
     (let base = blocks h ! current_block_index h;
          off = current_block_offset h + padding;
          off' = off + sz
      in (base + off,
          h\<lparr>current_block_offset := off',
            slot := map_option (\<lambda>_. \<lparr>curr = base + off', slot_end = base + BLOCK_SIZE\<rparr>) (slot h)\<rparr>))"

definition Alloc :: "(addr list \<Rightarrow> addr option) \<Rightarrow> nat \<Rightarrow> heap_allocator \<Rightarrow> addr result \<times> heap_allocator" where
  "Alloc aligned_alloc sz h0 =
     (let h = sync_slot h0 in
      if sz > BLOCK_SIZE then (Inl (alloc_size_error sz), h)
      else
        let padding = (max_align - current_block_offset h mod max_align) mod max_align;
            full = current_block_offset h + padding + sz > BLOCK_SIZE;
            h1 = (if full then h\<lparr>current_block_offset := 0,
                                 current_block_index := current_block_index h + 1\<rparr> else h);
            padding1 = (if full then 0 else padding)
        in if current_block_index h1 < length (blocks h1) then
             (case bump padding1 sz h1 of (p, h2) \<Rightarrow> (Inr p, h2))
           else (case aligned_alloc (blocks h1) of
                   None \<Rightarrow> (Inl ''failed to allocate memory'', h1)
                 | Some b \<Rightarrow>
                     (case bump padding1 sz (h1\<lparr>blocks := blocks h1 @ [b]\<rparr>) of
                        (p, h2) \<Rightarrow> (Inr p, h2))))"

definition New :: "(addr list \<Rightarrow> addr option) \<Rightarrow> nat \<Rightarrow> nat \<Rightarrow> heap_allocator \<Rightarrow> addr result \<times> heap_allocator" where
  "New aligned_alloc destroyer sz h =
     (case Alloc aligned_alloc sz h of
        (Inl e, h') \<Rightarrow> (Inl e, h')
      | (Inr p, h') \<Rightarrow> (Inr p, h'\<lparr>destructors := destructors h' @ [(destroyer, p)]\<rparr>))"

text \<open>The destructors are run in reverse order; the blocks stay.\<close>

definition Reset :: "heap_allocator \<Rightarrow> (nat \<times> addr) list \<times> heap_allocator" where
  "Reset h =
     (rev (destructors h),
      h\<lparr>destructors := [], current_block_index := 0, current_block_offset := 0,
        slot := map_option (\<lambda>_. case blocks h of
            b # _ \<Rightarrow> \<lparr>curr = b, slot_end = b + BLOCK_SIZE\<rparr> | [] \<Rightarrow> \<lparr>curr = 0, slot_end = 0\<rparr>) (slot h)\<rparr>)"

definition Size :: "heap_allocator \<Rightarrow> nat" where
  "Size h = current_block_index h * BLOCK_SIZE + current_block_offset h"

text \<open>
  The JIT's fast path: \<open>sz\<close> is a \<open>size_t\<close>, rounded up to a multiple of 16 in 64-bit
  arithmetic; the block's current pointer is used as it is.
\<close>

definition align_up16 :: "64 word \<Rightarrow> 64 word" where
  "align_up16 sz = (sz + 15) AND NOT 15"

definition FlFastAlloc :: "(addr list \<Rightarrow> addr option) \<Rightarrow> 64 word \<Rightarrow> heap_allocator \<Rightarrow> addr result \<times> heap_allocator" where
  "FlFastAlloc aligned_alloc sz h =
     (let aligned_size = align_up16 sz in
      case slot h of
        Some hs \<Rightarrow>
          let c = curr hs in
          if c \<noteq> 0 \<and> sz \<le> aligned_size \<and> c + unat aligned_size > c \<and> c + unat aligned_size \<le> slot_end hs
          then (Inr c, h\<lparr>slot := Some (hs\<lparr>curr := c + unat aligned_size\<rparr>)\<rparr>)
          else Alloc aligned_alloc (unat sz) h
      | None \<Rightarrow> Alloc aligned_alloc (unat sz) h)"

section \<open>The two allocators of a State\<close>

record heap =
  temp_allocator :: heap_allocator
  const_allocator :: heap_allocator

definition GetAllocator :: "heap \<Rightarrow> bool \<Rightarrow> heap_allocator" where
  "GetAllocator h is_const = (if is_const then const_allocator h else temp_allocator h)"

definition Heap_Reset :: "heap \<Rightarrow> (nat \<times> addr) list \<times> heap" where
  "Heap_Reset h = (case Reset (temp_allocator h) of (ds, t) \<Rightarrow> (ds, h\<lparr>temp_allocator := t\<rparr>))"

section \<open>Allocation histories\<close>

datatype heap_op = OpAlloc nat | OpNew nat nat | OpFast "64 word"

text \<open>The byte ranges \<open>(address, sz)\<close> a sequence of requests obtains; a failed request is skipped.\<close>

fun run_op :: "(addr list \<Rightarrow> addr option) \<Rightarrow> heap_op \<Rightarrow> heap_allocator \<Rightarrow> (addr \<times> nat) list \<times> heap_allocator" where
  "run_op aa (OpAlloc n) h = (case Alloc aa n h of (Inr p, h') \<Rightarrow> ([(p, n)], h') | (Inl _, h') \<Rightarrow> ([], h'))"
| "run_op aa (OpNew d n) h = (case New aa d n h of (Inr p, h') \<Rightarrow> ([(p, n)], h') | (Inl _, h') \<Rightarrow> ([], h'))"
| "run_op aa (OpFast n) h = (case FlFastAlloc aa n h of (Inr p, h') \<Rightarrow> ([(p, unat n)], h') | (Inl _, h') \<Rightarrow> ([], h'))"

fun run_ops :: "(addr list \<Rightarrow> addr option) \<Rightarrow> heap_op list \<Rightarrow> heap_allocator \<Rightarrow> (addr \<times> nat) list \<times> heap_allocator" where
  "run_ops aa [] h = ([], h)"
| "run_ops aa (x # xs) h =
     (case run_op aa x h of (rs, h1) \<Rightarrow> case run_ops aa xs h1 of (rs', h2) \<Rightarrow> (rs @ rs', h2))"

definition range_disjoint :: "addr \<times> nat \<Rightarrow> addr \<times> nat \<Rightarrow> bool" where
  "range_disjoint r s \<longleftrightarrow> fst r + snd r \<le> fst s \<or> fst s + snd s \<le> fst r \<or> snd r = 0 \<or> snd s = 0"

section \<open>Invariant\<close>

text \<open>What the code relies on in \<open>aligned_alloc\<close>: non-null, aligned, disjoint from live blocks.\<close>

definition aligned_alloc_ok :: "(addr list \<Rightarrow> addr option) \<Rightarrow> bool" where
  "aligned_alloc_ok aa \<longleftrightarrow>
     (\<forall>bs b. aa bs = Some b \<longrightarrow> 0 < b \<and> b mod max_align = 0 \<and>
        (\<forall>b' \<in> set bs. b + BLOCK_SIZE \<le> b' \<or> b' + BLOCK_SIZE \<le> b))"

definition blocks_ok :: "addr list \<Rightarrow> bool" where
  "blocks_ok bs \<longleftrightarrow> (\<forall>b \<in> set bs. 0 < b \<and> b mod max_align = 0) \<and>
     sorted_wrt (\<lambda>b b'. b + BLOCK_SIZE \<le> b' \<or> b' + BLOCK_SIZE \<le> b) bs"

text \<open>The block the bump pointer is in, and how far it has got.\<close>

definition slot_in :: "heap_allocator \<Rightarrow> nat \<Rightarrow> FlHeapSlot \<Rightarrow> bool" where
  "slot_in h i sl \<longleftrightarrow> i < length (blocks h) \<and> blocks h ! i \<le> curr sl \<and> curr sl \<le> slot_end sl \<and>
     slot_end sl = blocks h ! i + BLOCK_SIZE"

definition heap_ok :: "heap_allocator \<Rightarrow> nat \<Rightarrow> nat \<Rightarrow> bool" where
  "heap_ok h i off \<longleftrightarrow> blocks_ok (blocks h) \<and> current_block_offset h \<le> BLOCK_SIZE \<and> off \<le> BLOCK_SIZE \<and>
     (case slot h of
        None \<Rightarrow> i = current_block_index h \<and> off = current_block_offset h \<and>
          (i < length (blocks h) \<or> i = length (blocks h) \<and> off = 0)
      | Some sl \<Rightarrow>
          if curr sl = 0
          then blocks h = [] \<and> current_block_index h = 0 \<and> current_block_offset h = 0 \<and> off = 0 \<and> i = 0
          else slot_in h i sl \<and> off = curr sl - blocks h ! i \<and>
            (current_block_index h = i \<or>
             current_block_index h = i + 1 \<and> current_block_offset h = 0 \<and> i + 1 = length (blocks h)))"

text \<open>A range that lies below the bump pointer.\<close>

definition range_used :: "heap_allocator \<Rightarrow> nat \<Rightarrow> nat \<Rightarrow> addr \<times> nat \<Rightarrow> bool" where
  "range_used h i off r \<longleftrightarrow>
     (\<exists>j < length (blocks h). j \<le> i \<and> blocks h ! j \<le> fst r \<and>
        fst r + snd r \<le> blocks h ! j + (if j = i then off else BLOCK_SIZE))"

lemma blocks_ok_append:
  "blocks_ok bs \<Longrightarrow> aligned_alloc_ok aa \<Longrightarrow> aa bs = Some b \<Longrightarrow> blocks_ok (bs @ [b])"
  by (auto simp: blocks_ok_def aligned_alloc_ok_def sorted_wrt_append)

lemma blocks_ok_nth:
  assumes "blocks_ok bs" "i < length bs"
  shows "0 < bs ! i" "bs ! i mod max_align = 0"
  using assms by (auto simp: blocks_ok_def)

lemma blocks_ok_apart:
  assumes "blocks_ok bs" "i < length bs" "j < length bs" "i \<noteq> j"
  shows "bs ! i + BLOCK_SIZE \<le> bs ! j \<or> bs ! j + BLOCK_SIZE \<le> bs ! i"
  using assms by (auto simp: blocks_ok_def sorted_wrt_iff_nth_less nat_neq_iff)

text \<open>
  One request: the new state stays well formed, what was in use stays in use, and the new range
  is in use and apart from everything that was.
\<close>

definition op_ok :: "heap_allocator \<Rightarrow> nat \<Rightarrow> nat \<Rightarrow> (addr \<times> nat) list \<Rightarrow> heap_allocator \<Rightarrow> nat \<Rightarrow> nat \<Rightarrow> bool" where
  "op_ok h i off rs h' i' off' \<longleftrightarrow> heap_ok h' i' off' \<and>
     (\<forall>r. range_used h i off r \<longrightarrow> range_used h' i' off' r) \<and>
     sorted_wrt range_disjoint rs \<and>
     (\<forall>r \<in> set rs. range_used h' i' off' r \<and> (\<forall>q. range_used h i off q \<longrightarrow> range_disjoint q r))"

lemma op_ok_trans:
  "op_ok h i off rs h1 i1 off1 \<Longrightarrow> op_ok h1 i1 off1 rs' h2 i2 off2 \<Longrightarrow> op_ok h i off (rs @ rs') h2 i2 off2"
  unfolding op_ok_def sorted_wrt_append by (metis Un_iff set_append)

text \<open>Placing a range at offset \<open>o1\<close> of block \<open>k\<close>, at or after the bump pointer.\<close>

lemma place_ok:
  assumes ok: "heap_ok h i off" "heap_ok h' k off'"
    and blocks: "blocks h' = blocks h @ ys"
    and k: "i \<le> k" "k < length (blocks h')" "i = k \<longrightarrow> off \<le> o1" "o1 + n \<le> off'"
  shows "op_ok h i off [(blocks h' ! k + o1, n)] h' k off'"
proof -
  have off: "off' \<le> BLOCK_SIZE" "off \<le> BLOCK_SIZE" "blocks_ok (blocks h')" using ok by (auto simp: heap_ok_def)
  have nth: "j < length (blocks h) \<Longrightarrow> blocks h' ! j = blocks h ! j" for j
    by (simp add: blocks nth_append)
  have mono: "range_used h' k off' r" if "range_used h i off r" for r
  proof -
    from that obtain j where j: "j < length (blocks h)" "j \<le> i" "blocks h ! j \<le> fst r"
      "fst r + snd r \<le> blocks h ! j + (if j = i then off else BLOCK_SIZE)" by (auto simp: range_used_def)
    then show ?thesis using k off nth [OF j(1)] unfolding range_used_def
      by (intro exI [of _ j]) (auto simp: blocks split: if_splits)
  qed
  have disj: "range_disjoint q (blocks h' ! k + o1, n)" if q: "range_used h i off q" for q
  proof -
    from q obtain j where j: "j < length (blocks h)" "j \<le> i" "blocks h ! j \<le> fst q"
      "fst q + snd q \<le> blocks h ! j + (if j = i then off else BLOCK_SIZE)" by (auto simp: range_used_def)
    show ?thesis
    proof (cases "j = k")
      case True
      with j k nth [OF j(1)] show ?thesis by (auto simp: range_disjoint_def)
    next
      case False
      with blocks_ok_apart [OF off(3) _ k(2), of j] j k off nth [OF j(1)]
      show ?thesis by (auto simp: range_disjoint_def blocks split: if_splits)
    qed
  qed
  have "range_used h' k off' (blocks h' ! k + o1, n)"
    using k unfolding range_used_def by (intro exI [of _ k]) simp
  with ok mono disj show ?thesis by (simp add: op_ok_def)
qed

lemma op_ok_none: "heap_ok h' i off \<Longrightarrow> blocks h' = blocks h \<Longrightarrow> op_ok h i off [] h' i off"
  by (simp add: op_ok_def range_used_def)

lemma sync_slot_fields [simp]:
  "blocks (sync_slot h) = blocks h" "slot (sync_slot h) = slot h"
  "destructors (sync_slot h) = destructors h" "current_block_index (sync_slot h) = current_block_index h"
  by (auto simp: sync_slot_def Let_def split: option.splits)

lemma sync_slot_ok:
  assumes "heap_ok h i off"
  shows "heap_ok (sync_slot h) i off"
    and "current_block_index (sync_slot h) = i \<and> current_block_offset (sync_slot h) = off \<or>
         current_block_index (sync_slot h) = i + 1 \<and> current_block_offset (sync_slot h) = 0 \<and>
         i + 1 = length (blocks h)"
  using assms by (auto simp: heap_ok_def sync_slot_def slot_in_def Let_def split: option.splits if_splits)

lemma bump_eq:
  "bump padding n h = (p, h') \<Longrightarrow> k = current_block_index h \<Longrightarrow> o1 = current_block_offset h + padding \<Longrightarrow>
    p = blocks h ! k + o1 \<and> blocks h' = blocks h \<and> current_block_index h' = k \<and>
    current_block_offset h' = o1 + n \<and>
    slot h' = map_option (\<lambda>_. \<lparr>curr = blocks h ! k + (o1 + n), slot_end = blocks h ! k + BLOCK_SIZE\<rparr>) (slot h)"
  by (auto simp: bump_def Let_def)

text \<open>A bump in block \<open>k\<close>, at an offset that is aligned and not below the bump pointer.\<close>

lemma bump_ok:
  assumes ok: "heap_ok h i off" and bs: "blocks_ok (blocks h1)" "blocks h1 = blocks h @ ys"
    and slot: "slot h1 = slot h" and b: "bump padding n h1 = (p, h')"
    and k: "i \<le> current_block_index h1" "current_block_index h1 < length (blocks h1)"
    and o1: "i = current_block_index h1 \<longrightarrow> off \<le> current_block_offset h1 + padding"
      "current_block_offset h1 + padding + n \<le> BLOCK_SIZE"
      "(current_block_offset h1 + padding) mod max_align = 0"
  shows "op_ok h i off [(p, n)] h' (current_block_index h1) (current_block_offset h1 + padding + n) \<and> p mod max_align = 0"
proof -
  let ?k = "current_block_index h1" and ?o = "current_block_offset h1 + padding"
  note e = bump_eq [OF b refl refl]
  have base: "0 < blocks h1 ! ?k" by (rule blocks_ok_nth(1) [OF bs(1) k(2)])
  have ok': "heap_ok h' ?k (?o + n)"
  proof (cases "slot h1")
    case None
    then show ?thesis using e bs(1) k(2) o1(2) by (simp add: heap_ok_def)
  next
    case (Some sl)
    then show ?thesis using e bs(1) k(2) o1(2) base by (simp add: heap_ok_def slot_in_def)
  qed
  have "op_ok h i off [(blocks h' ! ?k + ?o, n)] h' ?k (?o + n)"
    by (rule place_ok [OF ok ok', of ys]) (use e bs k o1 in auto)
  moreover have "p mod max_align = 0"
    using e o1(3) blocks_ok_nth(2) [OF bs(1) k(2)] by (simp add: mod_eq_0_iff_dvd)
  ultimately show ?thesis using e by (simp add: add.assoc)
qed

lemma padding_aligned: "(a + (max_align - a mod max_align) mod max_align) mod max_align = 0"
proof (cases "a mod max_align = 0")
  case False
  then have lt: "(max_align - a mod max_align) mod max_align = max_align - a mod max_align"
    by (intro mod_less) (simp add: max_align_def)
  have "(a + (max_align - a mod max_align)) mod max_align = (a mod max_align + (max_align - a mod max_align)) mod max_align"
    by (simp only: mod_add_left_eq)
  also have "a mod max_align + (max_align - a mod max_align) = max_align"
    by (intro le_add_diff_inverse mod_le_divisor) (simp add: max_align_def)
  finally show ?thesis by (simp add: lt)
qed simp

text \<open>Where an allocation of \<open>n\<close> bytes is going to be placed.\<close>

definition alloc_pos :: "nat \<Rightarrow> heap_allocator \<Rightarrow> heap_allocator \<times> nat" where
  "alloc_pos n h =
     (let padding = (max_align - current_block_offset h mod max_align) mod max_align in
      if current_block_offset h + padding + n > BLOCK_SIZE
      then (h\<lparr>current_block_offset := 0, current_block_index := current_block_index h + 1\<rparr>, 0)
      else (h, padding))"

lemma Alloc_eq:
  "Alloc aa n h =
     (if n > BLOCK_SIZE then (Inl (alloc_size_error n), sync_slot h)
      else let (h1, pad) = alloc_pos n (sync_slot h) in
        if current_block_index h1 < length (blocks h1) then (case bump pad n h1 of (p, h2) \<Rightarrow> (Inr p, h2))
        else case aa (blocks h1) of None \<Rightarrow> (Inl ''failed to allocate memory'', h1)
          | Some b \<Rightarrow> (case bump pad n (h1\<lparr>blocks := blocks h1 @ [b]\<rparr>) of (p, h2) \<Rightarrow> (Inr p, h2)))"
  by (simp add: Alloc_def alloc_pos_def Let_def split: option.split)

lemma alloc_pos_ok:
  assumes ok: "heap_ok h i off" and n: "n \<le> BLOCK_SIZE" and pos: "alloc_pos n (sync_slot h) = (h1, pad)"
  shows "blocks h1 = blocks h" "slot h1 = slot h" "i \<le> current_block_index h1"
    "current_block_index h1 \<le> length (blocks h)"
    "i = current_block_index h1 \<longrightarrow> off \<le> current_block_offset h1 + pad"
    "current_block_offset h1 + pad + n \<le> BLOCK_SIZE"
    "(current_block_offset h1 + pad) mod max_align = 0"
proof -
  let ?s = "sync_slot h"
  have i: "i < length (blocks h) \<or> i = length (blocks h) \<and> off = 0"
    using ok by (auto simp: heap_ok_def slot_in_def split: option.splits if_splits)
  have zero: "(max_align - 0 mod max_align) mod max_align = 0" by (simp add: max_align_def)
  note s = sync_slot_ok(2) [OF ok]
  have "blocks h1 = blocks h \<and> slot h1 = slot h \<and> i \<le> current_block_index h1 \<and>
    current_block_index h1 \<le> length (blocks h) \<and>
    (i = current_block_index h1 \<longrightarrow> off \<le> current_block_offset h1 + pad) \<and>
    current_block_offset h1 + pad + n \<le> BLOCK_SIZE \<and> (current_block_offset h1 + pad) mod max_align = 0"
  proof (cases "current_block_offset ?s + (max_align - current_block_offset ?s mod max_align) mod max_align + n > BLOCK_SIZE")
    case True
    have "current_block_offset ?s \<noteq> 0"
    proof
      assume z: "current_block_offset ?s = 0"
      show False using True n unfolding z zero by simp
    qed
    with s i have "current_block_index ?s = i" "i < length (blocks h)" by auto
    moreover have "h1 = ?s\<lparr>current_block_offset := 0, current_block_index := current_block_index ?s + 1\<rparr>" "pad = 0"
      using pos True by (simp_all add: alloc_pos_def Let_def)
    ultimately show ?thesis using n by simp
  next
    case False
    then have "h1 = ?s" "pad = (max_align - current_block_offset ?s mod max_align) mod max_align"
      using pos by (auto simp: alloc_pos_def Let_def)
    moreover have "i = current_block_index ?s \<longrightarrow> off \<le> current_block_offset ?s" "i \<le> current_block_index ?s"
      "current_block_index ?s \<le> length (blocks h)" using s i by auto
    ultimately show ?thesis using False padding_aligned [of "current_block_offset ?s"]
      by (auto intro: trans_le_add1)
  qed
  then show "blocks h1 = blocks h" "slot h1 = slot h" "i \<le> current_block_index h1"
    "current_block_index h1 \<le> length (blocks h)"
    "i = current_block_index h1 \<longrightarrow> off \<le> current_block_offset h1 + pad"
    "current_block_offset h1 + pad + n \<le> BLOCK_SIZE"
    "(current_block_offset h1 + pad) mod max_align = 0" by simp_all
qed

lemma alloc_fail_ok:
  assumes ok: "heap_ok h i off" and n: "n \<le> BLOCK_SIZE" and pos: "alloc_pos n (sync_slot h) = (h1, pad)"
    and fail: "current_block_index h1 = length (blocks h)"
  shows "\<exists>k off'. op_ok h i off [] h1 k off'"
proof -
  note a = alloc_pos_ok [OF ok n pos]
  have off: "off \<le> BLOCK_SIZE" "blocks_ok (blocks h)" using ok by (simp_all add: heap_ok_def)
  have cases: "h1 = sync_slot h \<or>
      h1 = sync_slot h\<lparr>current_block_offset := 0, current_block_index := current_block_index h + 1\<rparr>"
    using pos by (auto simp: alloc_pos_def Let_def split: if_splits)
  note s = sync_slot_ok [OF ok]
  show ?thesis
  proof (cases "slot h")
    case None
    have i: "i = current_block_index h" "off = current_block_offset h"
      "i < length (blocks h) \<or> i = length (blocks h) \<and> off = 0" using ok None by (auto simp: heap_ok_def)
    have "current_block_offset h1 = 0" using cases i fail None by (auto simp: sync_slot_def)
    then have "heap_ok h1 (length (blocks h)) 0" using a fail off None by (simp add: heap_ok_def)
    moreover have "range_used h1 (length (blocks h)) 0 r" if "range_used h i off r" for r
    proof -
      from that obtain j where j: "j < length (blocks h)" "j \<le> i" "blocks h ! j \<le> fst r"
        "fst r + snd r \<le> blocks h ! j + (if j = i then off else BLOCK_SIZE)" by (auto simp: range_used_def)
      then show ?thesis using a(1) off(1) unfolding range_used_def
        by (intro exI [of _ j]) (auto split: if_splits)
    qed
    ultimately show ?thesis unfolding op_ok_def by (intro exI [of _ "length (blocks h)"] exI [of _ 0]) simp
  next
    case (Some sl)
    have "heap_ok h1 i off"
    proof (cases "h1 = sync_slot h")
      case True
      then show ?thesis using s(1) by simp
    next
      case False
      with cases have h1: "current_block_index h1 = current_block_index h + 1" "current_block_offset h1 = 0" by auto
      show ?thesis using ok Some h1 fail a(1,2) by (auto simp: heap_ok_def slot_in_def split: if_splits)
    qed
    then show ?thesis using op_ok_none a(1) by blast
  qed
qed

lemma Alloc_ok:
  assumes ok: "heap_ok h i off" and aa: "aligned_alloc_ok aa" and r: "Alloc aa n h = (r, h')"
  shows "\<exists>k off'. case r of Inr p \<Rightarrow> op_ok h i off [(p, n)] h' k off' \<and> p mod max_align = 0
     | Inl _ \<Rightarrow> op_ok h i off [] h' k off'"
proof (cases "n > BLOCK_SIZE")
  case True
  then show ?thesis using r op_ok_none [OF sync_slot_ok(1) [OF ok], of h] by (fastforce simp: Alloc_eq)
next
  case False
  obtain h1 pad where pos: "alloc_pos n (sync_slot h) = (h1, pad)" by fastforce
  from False have n: "n \<le> BLOCK_SIZE" by simp
  note a = alloc_pos_ok [OF ok n pos]
  have bs: "blocks_ok (blocks h)" using ok by (simp add: heap_ok_def)
  consider (same) "current_block_index h1 < length (blocks h)"
    | (fail) "current_block_index h1 = length (blocks h)" "aa (blocks h) = None"
    | (fresh) b where "current_block_index h1 = length (blocks h)" "aa (blocks h) = Some b"
    using a(4) by (cases "aa (blocks h)") fastforce+
  then show ?thesis
  proof cases
    case same
    obtain p h2 where b: "bump pad n h1 = (p, h2)" by fastforce
    have "op_ok h i off [(p, n)] h2 (current_block_index h1) (current_block_offset h1 + pad + n) \<and> p mod max_align = 0"
      by (rule bump_ok [OF ok _ _ a(2) b, of "[]"]) (use a bs same in auto)
    then show ?thesis using r pos n same a(1) b by (fastforce simp: Alloc_eq)
  next
    case fail
    then show ?thesis using r pos n a(1) alloc_fail_ok [OF ok n pos fail(1)] by (fastforce simp: Alloc_eq)
  next
    case (fresh b)
    let ?h = "h1\<lparr>blocks := blocks h1 @ [b]\<rparr>"
    obtain p h2 where bu: "bump pad n ?h = (p, h2)" by fastforce
    have "op_ok h i off [(p, n)] h2 (current_block_index ?h) (current_block_offset ?h + pad + n) \<and> p mod max_align = 0"
      by (rule bump_ok [OF ok _ _ _ bu, of "[b]"]) (use a bs fresh blocks_ok_append [OF bs aa] in auto)
    then show ?thesis using r pos n fresh a(1) bu by (fastforce simp: Alloc_eq)
  qed
qed

lemma align_up16_ge:
  assumes "sz \<le> align_up16 sz"
  shows "unat sz \<le> unat (align_up16 sz)"
  using assms by (simp add: word_le_nat_alt)

lemma FlFastAlloc_ok:
  assumes ok: "heap_ok h i off" and aa: "aligned_alloc_ok aa" and r: "FlFastAlloc aa sz h = (r, h')"
  shows "\<exists>k off'. case r of Inr p \<Rightarrow> op_ok h i off [(p, unat sz)] h' k off' | Inl _ \<Rightarrow> op_ok h i off [] h' k off'"
proof (cases "\<exists>hs. slot h = Some hs \<and> curr hs \<noteq> 0 \<and> sz \<le> align_up16 sz \<and>
    curr hs + unat (align_up16 sz) > curr hs \<and> curr hs + unat (align_up16 sz) \<le> slot_end hs")
  case False
  then have "FlFastAlloc aa sz h = Alloc aa (unat sz) h"
    by (auto simp: FlFastAlloc_def Let_def split: option.splits)
  with Alloc_ok [OF ok aa, of "unat sz" r h'] r show ?thesis by (cases r) auto
next
  case True
  then obtain hs where hs: "slot h = Some hs" "curr hs \<noteq> 0" "sz \<le> align_up16 sz"
    "curr hs + unat (align_up16 sz) > curr hs" "curr hs + unat (align_up16 sz) \<le> slot_end hs" by blast
  let ?a = "unat (align_up16 sz)"
  have r': "r = Inr (curr hs)" "h' = h\<lparr>slot := Some (hs\<lparr>curr := curr hs + ?a\<rparr>)\<rparr>"
    using r hs by (simp_all add: FlFastAlloc_def Let_def)
  have i: "slot_in h i hs" "off = curr hs - blocks h ! i" using ok hs by (auto simp: heap_ok_def)
  have ok': "heap_ok h' i (off + ?a)"
    using ok hs i by (auto simp: heap_ok_def slot_in_def r')
  have "op_ok h i off [(blocks h' ! i + off, unat sz)] h' i (off + ?a)"
    by (rule place_ok [OF ok ok', of "[]"]) (use r' i align_up16_ge [OF hs(3)] in \<open>auto simp: slot_in_def\<close>)
  moreover have "blocks h' ! i + off = curr hs" using i r' by (simp add: slot_in_def)
  ultimately show ?thesis using r' by auto
qed

lemma op_ok_destructors: "op_ok h i off rs (h'\<lparr>destructors := ds\<rparr>) k off' = op_ok h i off rs h' k off'"
  by (simp add: op_ok_def heap_ok_def slot_in_def range_used_def split: option.split)

lemma run_op_ok:
  assumes ok: "heap_ok h i off" and aa: "aligned_alloc_ok aa" and r: "run_op aa x h = (rs, h')"
  shows "\<exists>k off'. op_ok h i off rs h' k off'"
proof (cases x)
  case (OpAlloc n)
  obtain q h1 where q: "Alloc aa n h = (q, h1)" by fastforce
  from Alloc_ok [OF ok aa q] show ?thesis using q r OpAlloc by (cases q) fastforce+
next
  case (OpNew d n)
  obtain q h1 where q: "Alloc aa n h = (q, h1)" by fastforce
  from Alloc_ok [OF ok aa q] show ?thesis using q r OpNew
    by (cases q) (fastforce simp: New_def op_ok_destructors)+
next
  case (OpFast n)
  obtain q h1 where q: "FlFastAlloc aa n h = (q, h1)" by fastforce
  from FlFastAlloc_ok [OF ok aa q] show ?thesis using q r OpFast by (cases q) fastforce+
qed

lemma run_ops_ok:
  assumes "heap_ok h i off" "aligned_alloc_ok aa" "run_ops aa xs h = (rs, h')"
  shows "\<exists>k off'. op_ok h i off rs h' k off'"
  using assms
proof (induction xs arbitrary: h i off rs)
  case Nil
  then show ?case using op_ok_none [OF Nil(1), of h] by auto
next
  case (Cons x xs)
  obtain rs1 h1 rs2 where st: "run_op aa x h = (rs1, h1)" "run_ops aa xs h1 = (rs2, h')" "rs = rs1 @ rs2"
    using Cons.prems(3) by (auto split: prod.splits)
  obtain k off' where 1: "op_ok h i off rs1 h1 k off'" using run_op_ok [OF Cons.prems(1,2) st(1)] by blast
  then have "heap_ok h1 k off'" by (simp add: op_ok_def)
  from Cons.IH [OF this Cons.prems(2) st(2)] 1 st(3) show ?case using op_ok_trans by blast
qed

lemma heap_ok_init: "s = None \<or> s = Some \<lparr>curr = 0, slot_end = 0\<rparr> \<Longrightarrow> heap_ok (HeapAllocator s) 0 0"
  by (auto simp: heap_ok_def HeapAllocator_def blocks_ok_def)

lemma heap_ok_Reset:
  assumes "heap_ok h i off"
  shows "heap_ok (snd (Reset h)) 0 0"
proof (cases "blocks h")
  case Nil
  then show ?thesis using assms by (auto simp: heap_ok_def Reset_def split: option.splits)
next
  case (Cons b bs)
  then have "blocks_ok (b # bs)" "0 < b" using assms by (auto simp: heap_ok_def blocks_ok_def)
  with Cons show ?thesis by (auto simp: heap_ok_def Reset_def slot_in_def split: option.splits)
qed

text \<open>The states an allocator goes through.\<close>

inductive heap_reachable :: "(addr list \<Rightarrow> addr option) \<Rightarrow> heap_allocator \<Rightarrow> bool" for aa where
  init: "s = None \<or> s = Some \<lparr>curr = 0, slot_end = 0\<rparr> \<Longrightarrow> heap_reachable aa (HeapAllocator s)"
| op: "heap_reachable aa h \<Longrightarrow> heap_reachable aa (snd (run_op aa x h))"
| reset: "heap_reachable aa h \<Longrightarrow> heap_reachable aa (snd (Reset h))"

lemma heap_reachable_ok:
  assumes "heap_reachable aa h" "aligned_alloc_ok aa"
  shows "\<exists>i off. heap_ok h i off"
  using assms(1)
proof induction
  case (init s)
  then show ?case using heap_ok_init by blast
next
  case (op h x)
  then obtain i off where "heap_ok h i off" by blast
  from run_op_ok [OF this assms(2), of x "fst (run_op aa x h)" "snd (run_op aa x h)"]
  show ?case by (auto simp: op_ok_def)
next
  case (reset h)
  then show ?case using heap_ok_Reset by blast
qed

section \<open>Properties\<close>

text \<open>A concrete \<open>aligned_alloc\<close>: a block above all the given ones.\<close>

definition bump_alloc :: "addr list \<Rightarrow> addr option" where
  "bump_alloc bs = Some ((foldr max bs 0 div BLOCK_SIZE + 2) * BLOCK_SIZE)"

lemma foldr_max_ge: "b \<in> set bs \<Longrightarrow> b \<le> foldr max bs (0 :: nat)"
  by (induction bs) auto

lemma bump_alloc_ok: "aligned_alloc_ok bump_alloc"
proof -
  have "b + BLOCK_SIZE \<le> (foldr max bs 0 div BLOCK_SIZE + 2) * BLOCK_SIZE" if "b \<in> set bs" for b bs
  proof -
    have "foldr max bs 0 \<le> (foldr max bs 0 div BLOCK_SIZE + 1) * BLOCK_SIZE"
      using div_mult_mod_eq [of "foldr max bs 0" BLOCK_SIZE] mod_less_divisor [of BLOCK_SIZE "foldr max bs 0"]
      by (simp add: BLOCK_SIZE_def)
    with foldr_max_ge [OF that] show ?thesis by (simp add: add.commute)
  qed
  then show ?thesis
    by (auto simp: aligned_alloc_ok_def bump_alloc_def BLOCK_SIZE_def max_align_def)
qed

text \<open>
  C18. Between two resets the C++ allocator, \<open>New\<close> and the JIT fast path together never hand
  out overlapping memory, whatever the sequence of requests (failed ones included) and however the
  allocator got into the state before the reset; every range lies inside one block.
\<close>

theorem alloc_never_overlaps:
  assumes "heap_reachable aa h" "aligned_alloc_ok aa" "run_ops aa xs (snd (Reset h)) = (rs, h')"
  shows "sorted_wrt range_disjoint rs \<and>
    (\<forall>(p, n) \<in> set rs. \<exists>b \<in> set (blocks h'). b \<le> p \<and> p + n \<le> b + BLOCK_SIZE)"
proof -
  obtain i off where "heap_ok h i off" using heap_reachable_ok [OF assms(1,2)] by blast
  from run_ops_ok [OF heap_ok_Reset [OF this] assms(2,3)]
  obtain k off' where ok: "op_ok (snd (Reset h)) 0 0 rs h' k off'" by blast
  then have "off' \<le> BLOCK_SIZE" by (simp add: op_ok_def heap_ok_def)
  then have "\<exists>b \<in> set (blocks h'). b \<le> fst r \<and> fst r + snd r \<le> b + BLOCK_SIZE"
    if "range_used h' k off' r" for r
  proof -
    from that obtain j where j: "j < length (blocks h')" "blocks h' ! j \<le> fst r"
      "fst r + snd r \<le> blocks h' ! j + (if j = k then off' else BLOCK_SIZE)" by (auto simp: range_used_def)
    then show ?thesis using \<open>off' \<le> BLOCK_SIZE\<close>
      by (intro bexI [of _ "blocks h' ! j"]) (auto split: if_splits)
  qed
  with ok show ?thesis by (auto simp: op_ok_def)
qed

theorem alloc_never_overlaps_witness:
  "sorted_wrt range_disjoint (fst (run_ops bump_alloc [OpAlloc 13, OpFast 40, OpNew 7 24, OpAlloc 1048576]
     (snd (Reset (HeapAllocator (Some \<lparr>curr = 0, slot_end = 0\<rparr>)))))) \<and>
   fst (run_ops bump_alloc [OpAlloc 13, OpFast 40, OpNew 7 24, OpAlloc 1048576]
     (snd (Reset (HeapAllocator (Some \<lparr>curr = 0, slot_end = 0\<rparr>))))) =
     [(2097152, 13), (2097165, 40), (2097216, 24), (4194304, 1048576)]"
proof (rule conjI)
  let ?h = "HeapAllocator (Some \<lparr>curr = 0, slot_end = 0\<rparr>)"
  have "heap_reachable bump_alloc ?h" by (rule heap_reachable.init) simp
  from alloc_never_overlaps [OF this bump_alloc_ok surjective_pairing]
  show "sorted_wrt range_disjoint (fst (run_ops bump_alloc [OpAlloc 13, OpFast 40, OpNew 7 24, OpAlloc 1048576] (snd (Reset ?h))))"
    by blast
qed (simp add: FlFastAlloc_def Alloc_eq alloc_pos_def HeapAllocator_def sync_slot_def bump_def New_def Reset_def
      BLOCK_SIZE_def max_align_def align_up16_def bump_alloc_def)

text \<open>
  The C++ allocator returns addresses aligned to \<open>max_align_t\<close>, so any object can be placed
  there.
\<close>

theorem Alloc_aligned:
  assumes "heap_reachable aa h" "aligned_alloc_ok aa" "Alloc aa n h = (Inr p, h')"
  shows "p mod max_align = 0"
proof -
  obtain i off where "heap_ok h i off" using heap_reachable_ok [OF assms(1,2)] by blast
  from Alloc_ok [OF this assms(2,3)] show ?thesis by auto
qed

theorem Alloc_aligned_witness:
  "fst (Alloc bump_alloc 24 (snd (run_op bump_alloc (OpAlloc 13) (HeapAllocator None)))) = Inr 2097168 \<and>
   (2097168 :: nat) mod max_align = 0"
proof (rule conjI)
  let ?h = "snd (run_op bump_alloc (OpAlloc 13) (HeapAllocator None))"
  have r: "heap_reachable bump_alloc ?h" by (intro heap_reachable.op heap_reachable.init) simp
  show 1: "fst (Alloc bump_alloc 24 ?h) = Inr 2097168"
    by (simp add: Alloc_eq alloc_pos_def HeapAllocator_def sync_slot_def bump_def
      BLOCK_SIZE_def max_align_def bump_alloc_def)
  from Alloc_aligned [OF r bump_alloc_ok, of 24 2097168 "snd (Alloc bump_alloc 24 ?h)"] 1
  show "(2097168 :: nat) mod max_align = 0" by (metis prod.collapse)
qed

text \<open>
  The JIT fast path does not: it takes the current pointer as it is, and after a C++ allocation
  of 13 bytes (an interned string of length 5) it returns an address that is 13 modulo 16.
\<close>

theorem FlFastAlloc_misaligned:
  "fst (FlFastAlloc (\<lambda>_. Some 1048576) 16
      (snd (Alloc (\<lambda>_. Some 1048576) 13 (HeapAllocator (Some \<lparr>curr = 0, slot_end = 0\<rparr>))))) = Inr 1048589"
  by (simp add: FlFastAlloc_def Alloc_eq alloc_pos_def HeapAllocator_def sync_slot_def bump_def
      BLOCK_SIZE_def max_align_def align_up16_def)

end
