(* ===== verification/HashTable.thy ===== *)
theory HashTable
imports VmOps HeapAlloc
begin

text \<open>
  The table representation \<open>VarTable\<close> (\<open>var/var_table.h\<close>) and the host-side operations on
  it, the anonymous namespace of \<open>native/table/native_table.cpp\<close>.

  Node indices and counters are natural numbers (the allocator's block size keeps them far below
  \<open>2 ^ 32\<close>), hashes are 32-bit words. An operation that may throw returns its result together
  with the table as it is at that moment. Loops that follow \<open>next\<close> links carry the number of
  nodes as fuel; running out of it, which the invariant of theory \<open>HashInv\<close> excludes, is the
  outcome \<open>Diverged\<close>. The contents of freshly allocated, not yet written memory is nil.
\<close>

section \<open>Data\<close>

definition QUICK_DATA_SIZE :: nat where "QUICK_DATA_SIZE = 8"
definition INVALID_INDEX :: nat where "INVALID_INDEX = 4294967295"

record VarEntry =
  e_key :: cvar
  e_val :: cvar
  e_hash :: uint32

record TableNode =
  entry :: VarEntry
  nxt :: nat
  active_pos :: nat

record VarTable =
  tbl_count :: nat
  bucket_count :: nat
  nodes :: "TableNode list"
  active_list :: "nat list"
  quick_data :: "VarEntry list"
  free_list_idx :: nat
  spec :: ptr
  spec_get :: ptr
  spec_set :: ptr
  spec_keys :: "cvar list option"
  spec_vals :: "cvar list option"
  spec_count :: nat
  seq_len_valid :: bool
  seq_len :: int64
  arr :: "cvar list"
  arr_size :: nat
  arr_cap :: nat

definition nil_entry :: VarEntry where
  "nil_entry = \<lparr>e_key = VNil, e_val = VNil, e_hash = 0\<rparr>"

text \<open>The accessors \<open>spec_get\<close> / \<open>spec_set\<close> of specialised tables point into JIT-generated code.\<close>

record spec_env =
  call_get :: "ptr \<Rightarrow> VarTable \<Rightarrow> cvar \<Rightarrow> cvar option"
  call_set :: "ptr \<Rightarrow> VarTable \<Rightarrow> cvar \<Rightarrow> cvar \<Rightarrow> VarTable option"

text \<open>A step that may throw, with the table it leaves.\<close>

type_synonym 'a tstep = "'a result \<times> VarTable"

definition tbind :: "'a tstep \<Rightarrow> ('a \<Rightarrow> VarTable \<Rightarrow> 'b tstep) \<Rightarrow> 'b tstep" where
  "tbind m f = (case m of (Inl e, t) \<Rightarrow> (Inl e, t) | (Inr x, t) \<Rightarrow> f x t)"

lemma tbind_simps [simp]: "tbind (Inl e, t) f = (Inl e, t)" "tbind (Inr x, t) f = f x t"
  by (simp_all add: tbind_def)

definition diverges :: exn where "diverges = ''<does not terminate>''"

definition table_alloc :: "nat \<Rightarrow> VarTable \<Rightarrow> unit tstep" where
  "table_alloc n t = (if n > BLOCK_SIZE then (Inl (alloc_size_error n), t) else (Inr (), t))"

definition sizeof_TableNode :: nat where "sizeof_TableNode = 48"
definition sizeof_CVar :: nat where "sizeof_CVar = 16"
definition sizeof_uint32 :: nat where "sizeof_uint32 = 4"

section \<open>Hashes and equality of keys\<close>

definition IntKeyHash :: "int64 \<Rightarrow> uint32" where
  "IntKeyHash k = ucast (k XOR signed_drop_bit 32 k)"

fun VarKeyHash :: "cvar \<Rightarrow> uint32" where
  "VarKeyHash VNil = 0"
| "VarKeyHash (VBool b) = (if b then 1 else 0)"
| "VarKeyHash (VInt i) = IntKeyHash i"
| "VarKeyHash (VFloat d) = fold64 d"
| "VarKeyHash (VString s) = HashOf s"
| "VarKeyHash (VStringId s) = HashOf s"
| "VarKeyHash (VTable _ p) = fold64 p"
| "VarKeyHash (VClosure p) = fold64 p"
| "VarKeyHash (VMulti _) = 0"

fun VarKeyEqual :: "cvar \<Rightarrow> cvar \<Rightarrow> bool" where
  "VarKeyEqual VNil b = (b = VNil)"
| "VarKeyEqual (VBool x) b = (case b of VBool y \<Rightarrow> x = y | _ \<Rightarrow> False)"
| "VarKeyEqual (VInt i) b = (case b of VInt j \<Rightarrow> i = j | VFloat d \<Rightarrow> Int64DoubleEqual i d | _ \<Rightarrow> False)"
| "VarKeyEqual (VFloat d) b = (case b of VInt j \<Rightarrow> Int64DoubleEqual j d | VFloat e \<Rightarrow> d_eq d e | _ \<Rightarrow> False)"
| "VarKeyEqual (VString s) b = (case b of VString r \<Rightarrow> s = r | VStringId r \<Rightarrow> s = r | _ \<Rightarrow> False)"
| "VarKeyEqual (VStringId s) b = (case b of VString r \<Rightarrow> s = r | VStringId r \<Rightarrow> s = r | _ \<Rightarrow> False)"
| "VarKeyEqual (VTable _ p) b = (case b of VTable _ q \<Rightarrow> p = q | _ \<Rightarrow> False)"
| "VarKeyEqual (VClosure p) b = (case b of VClosure q \<Rightarrow> p = q | _ \<Rightarrow> False)"
| "VarKeyEqual (VMulti _) b = False"

fun VarKeyEqualInt :: "cvar \<Rightarrow> int64 \<Rightarrow> bool" where
  "VarKeyEqualInt (VInt i) idx = (i = idx)"
| "VarKeyEqualInt (VFloat d) idx = Int64DoubleEqual idx d"
| "VarKeyEqualInt _ idx = False"

fun NormalizeTableKey :: "cvar \<Rightarrow> cvar" where
  "NormalizeTableKey (VFloat d) = (case DoubleFitsInt64 d of Some i \<Rightarrow> VInt i | None \<Rightarrow> VFloat d)"
| "NormalizeTableKey k = k"

text \<open>The bit trick, on \<open>uint32_t\<close>.\<close>

definition NextPowerOfTwo :: "uint32 \<Rightarrow> uint32" where
  "NextPowerOfTwo v0 =
     (let v = v0 - 1; v = v OR drop_bit 1 v; v = v OR drop_bit 2 v; v = v OR drop_bit 4 v;
          v = v OR drop_bit 8 v; v = v OR drop_bit 16 v in v + 1)"

section \<open>Walking a bucket\<close>

datatype walk = Found nat | Missing | Diverged

fun find_node :: "nat \<Rightarrow> TableNode list \<Rightarrow> (VarEntry \<Rightarrow> bool) \<Rightarrow> nat \<Rightarrow> walk" where
  "find_node 0 ns P i = Diverged"
| "find_node (Suc n) ns P i =
     (if P (entry (ns ! i)) then Found i
      else if nxt (ns ! i) = INVALID_INDEX then Missing
      else find_node n ns P (nxt (ns ! i)))"

fun find_quick :: "VarEntry list \<Rightarrow> (VarEntry \<Rightarrow> bool) \<Rightarrow> nat \<Rightarrow> nat option" where
  "find_quick [] P i = None"
| "find_quick (e # es) P i = (if P e then Some i else find_quick es P (i + 1))"

definition bucket_of :: "VarTable \<Rightarrow> uint32 \<Rightarrow> nat" where
  "bucket_of t h = unat (h AND (word_of_nat (bucket_count t) - 1))"

definition key_is :: "uint32 \<Rightarrow> cvar \<Rightarrow> VarEntry \<Rightarrow> bool" where
  "key_is h key e \<longleftrightarrow> e_hash e = h \<and> VarKeyEqual (e_key e) key"

section \<open>Insertion and rehash\<close>

definition TableInsertRaw :: "VarTable \<Rightarrow> cvar \<Rightarrow> cvar \<Rightarrow> uint32 \<Rightarrow> bool tstep" where
  "TableInsertRaw t key v h =
     (let idx = bucket_of t h; main = nodes t ! idx in
      if e_key (entry main) = VNil then
        (Inr True, t\<lparr>
           nodes := (nodes t)[idx := \<lparr>entry = \<lparr>e_key = key, e_val = v, e_hash = h\<rparr>,
                                       nxt = INVALID_INDEX, active_pos = tbl_count t\<rparr>],
           active_list := (active_list t)[tbl_count t := idx],
           tbl_count := tbl_count t + 1\<rparr>)
      else case find_node (length (nodes t)) (nodes t) (key_is h key) idx of
        Found i \<Rightarrow>
          let n = nodes t ! i in
          (Inr True, t\<lparr>nodes := (nodes t)[i := n\<lparr>entry := (entry n)\<lparr>e_val := v\<rparr>\<rparr>]\<rparr>)
      | Diverged \<Rightarrow> (Inl diverges, t)
      | Missing \<Rightarrow>
          if free_list_idx t = INVALID_INDEX then (Inr False, t)
          else
            let new = free_list_idx t;
                ns = (nodes t)[new := \<lparr>entry = \<lparr>e_key = key, e_val = v, e_hash = h\<rparr>,
                                        nxt = nxt main, active_pos = tbl_count t\<rparr>]
            in (Inr True, t\<lparr>
                  free_list_idx := nxt (nodes t ! new),
                  nodes := ns[idx := (ns ! idx)\<lparr>nxt := new\<rparr>],
                  active_list := (active_list t)[tbl_count t := new],
                  tbl_count := tbl_count t + 1\<rparr>))"

text \<open>The fresh node array: empty buckets, and the overflow nodes linked into the free list.\<close>

definition init_nodes :: "nat \<Rightarrow> TableNode list" where
  "init_nodes nbc =
     (let tot = nbc + nbc div 2 in
      map (\<lambda>i. \<lparr>entry = nil_entry,
                nxt = (if nbc \<le> i \<and> i + 1 < tot then i + 1 else INVALID_INDEX),
                active_pos = INVALID_INDEX\<rparr>) [0..<tot])"

definition init_table :: "VarTable \<Rightarrow> nat \<Rightarrow> VarTable" where
  "init_table t nbc = t\<lparr>
     nodes := init_nodes nbc,
     active_list := replicate (nbc + nbc div 2) 0,
     bucket_count := nbc,
     tbl_count := 0,
     free_list_idx := (if nbc div 2 > 0 then nbc else INVALID_INDEX)\<rparr>"

fun rehash_quick :: "VarEntry list \<Rightarrow> VarTable \<Rightarrow> bool tstep" where
  "rehash_quick [] t = (Inr True, t)"
| "rehash_quick (e # es) t =
     tbind (TableInsertRaw t (e_key e) (e_val e) (e_hash e)) (\<lambda>ok t'.
       if ok then rehash_quick es t' else (Inr False, t'))"

fun rehash_chain :: "nat \<Rightarrow> TableNode list \<Rightarrow> nat \<Rightarrow> VarTable \<Rightarrow> bool tstep" where
  "rehash_chain 0 old i t = (Inl diverges, t)"
| "rehash_chain (Suc n) old i t =
     (if i = INVALID_INDEX then (Inr True, t)
      else let e = entry (old ! i) in
        if e_key e \<noteq> VNil then
          tbind (TableInsertRaw t (e_key e) (e_val e) (e_hash e)) (\<lambda>ok t'.
            if ok then rehash_chain n old (nxt (old ! i)) t' else (Inr False, t'))
        else rehash_chain n old (nxt (old ! i)) t)"

fun rehash_buckets :: "TableNode list \<Rightarrow> nat list \<Rightarrow> VarTable \<Rightarrow> bool tstep" where
  "rehash_buckets old [] t = (Inr True, t)"
| "rehash_buckets old (i # is) t =
     tbind (rehash_chain (Suc (length old)) old i t) (\<lambda>ok t'.
       if ok then rehash_buckets old is t' else (Inr False, t'))"

definition rehash_into :: "VarTable \<Rightarrow> nat \<Rightarrow> bool tstep" where
  "rehash_into t nbc =
     (if bucket_count t = 0 then rehash_quick (take (tbl_count t) (quick_data t)) (init_table t nbc)
      else rehash_buckets (nodes t) [0..<bucket_count t] (init_table t nbc))"

text \<open>
  The retry loop: a failed attempt restores the old arrays and doubles the number of buckets. The
  doubling meets the allocator's limit within 32 rounds.
\<close>

fun rehash_loop :: "nat \<Rightarrow> VarTable \<Rightarrow> nat \<Rightarrow> unit tstep" where
  "rehash_loop 0 t nbc = (Inl diverges, t)"
| "rehash_loop (Suc n) t nbc =
     (let tot = nbc + nbc div 2 in
      tbind (table_alloc (tot * sizeof_TableNode + tot * sizeof_uint32) t) (\<lambda>_ t.
        case rehash_into t nbc of
          (Inl e, t') \<Rightarrow> (Inl e, t')
        | (Inr ok, t') \<Rightarrow> if ok then (Inr (), t') else rehash_loop n t (nbc * 2)))"

definition rehash_start :: "VarTable \<Rightarrow> nat \<Rightarrow> nat" where
  "rehash_start t min_buckets =
     (let n0 = unat (NextPowerOfTwo (word_of_nat (tbl_count t + 1)));
          n1 = (if n0 \<le> bucket_count t then bucket_count t * 2 else n0);
          n2 = (if min_buckets > n1 then unat (NextPowerOfTwo (word_of_nat min_buckets)) else n1)
      in if n2 < 1 then 1 else n2)"

definition TableRehashTo :: "VarTable \<Rightarrow> nat \<Rightarrow> unit tstep" where
  "TableRehashTo t min_buckets = rehash_loop 32 t (rehash_start t min_buckets)"

definition TableRehash :: "VarTable \<Rightarrow> unit tstep" where
  "TableRehash t = TableRehashTo t 0"

section \<open>Deletion\<close>

definition unlink_from_active :: "VarTable \<Rightarrow> nat \<Rightarrow> nat \<Rightarrow> VarTable" where
  "unlink_from_active t node_idx pos =
     (let last_idx = active_list t ! (tbl_count t - 1) in
      if node_idx \<noteq> last_idx
      then t\<lparr>active_list := (active_list t)[pos := last_idx],
             nodes := (nodes t)[last_idx := (nodes t ! last_idx)\<lparr>active_pos := pos\<rparr>]\<rparr>
      else t)"

fun delete_chain :: "nat \<Rightarrow> VarTable \<Rightarrow> (VarEntry \<Rightarrow> bool) \<Rightarrow> nat \<Rightarrow> nat \<Rightarrow> unit tstep" where
  "delete_chain 0 t P prev cur = (Inl diverges, t)"
| "delete_chain (Suc n) t P prev cur =
     (if cur = INVALID_INDEX then (Inr (), t)
      else if P (entry (nodes t ! cur)) then
        let t1 = unlink_from_active t cur (active_pos (nodes t ! cur));
            ns1 = (nodes t1)[cur := (nodes t1 ! cur)\<lparr>active_pos := INVALID_INDEX\<rparr>];
            ns2 = ns1[prev := (ns1 ! prev)\<lparr>nxt := nxt (ns1 ! cur)\<rparr>];
            ns3 = ns2[cur := (ns2 ! cur)\<lparr>nxt := free_list_idx t1\<rparr>]
        in (Inr (), t1\<lparr>nodes := ns3, free_list_idx := cur, tbl_count := tbl_count t1 - 1\<rparr>)
      else delete_chain n t P cur (nxt (nodes t ! cur)))"

definition delete_main :: "VarTable \<Rightarrow> nat \<Rightarrow> VarTable" where
  "delete_main t idx =
     (let cur = nodes t ! idx in
      if nxt cur \<noteq> INVALID_INDEX then
        let nx = nxt cur;
            t1 = unlink_from_active t nx (active_pos (nodes t ! nx));
            ns1 = (nodes t1)[nx := (nodes t1 ! nx)\<lparr>active_pos := INVALID_INDEX\<rparr>];
            ns2 = ns1[idx := (ns1 ! idx)\<lparr>entry := entry (ns1 ! nx), nxt := nxt (ns1 ! nx)\<rparr>];
            ns3 = ns2[nx := (ns2 ! nx)\<lparr>nxt := free_list_idx t1\<rparr>]
        in t1\<lparr>nodes := ns3, free_list_idx := nx, tbl_count := tbl_count t1 - 1\<rparr>
      else
        let t1 = unlink_from_active t idx (active_pos cur);
            ns1 = (nodes t1)[idx := (nodes t1 ! idx)\<lparr>active_pos := INVALID_INDEX\<rparr>];
            ns2 = ns1[idx := (ns1 ! idx)\<lparr>entry := (entry (ns1 ! idx))\<lparr>e_key := VNil\<rparr>\<rparr>]
        in t1\<lparr>nodes := ns2, tbl_count := tbl_count t1 - 1\<rparr>)"

definition TableDelete :: "VarTable \<Rightarrow> cvar \<Rightarrow> uint32 \<Rightarrow> unit tstep" where
  "TableDelete t key h =
     (if tbl_count t = 0 then (Inr (), t)
      else if bucket_count t = 0 then
        (case find_quick (take (tbl_count t) (quick_data t)) (key_is h key) 0 of
           Some i \<Rightarrow> (Inr (), t\<lparr>
             quick_data := (if i + 1 < tbl_count t then (quick_data t)[i := quick_data t ! (tbl_count t - 1)]
                            else quick_data t),
             tbl_count := tbl_count t - 1\<rparr>)
         | None \<Rightarrow> (Inr (), t))
      else
        let idx = bucket_of t h; cur = nodes t ! idx in
        if e_key (entry cur) = VNil then (Inr (), t)
        else if key_is h key (entry cur) then (Inr (), delete_main t idx)
        else delete_chain (Suc (length (nodes t))) t (key_is h key) idx (nxt cur))"

section \<open>The array part\<close>

definition int_key_is :: "uint32 \<Rightarrow> int64 \<Rightarrow> VarEntry \<Rightarrow> bool" where
  "int_key_is h k e \<longleftrightarrow> e_hash e = h \<and> e_key e = VInt k"

definition TableHashGetInt :: "VarTable \<Rightarrow> int64 \<Rightarrow> cvar" where
  "TableHashGetInt t k =
     (if tbl_count t = 0 then VNil
      else let h = IntKeyHash k in
        if bucket_count t = 0 then
          (case find_quick (take (tbl_count t) (quick_data t)) (int_key_is h k) 0 of
             Some i \<Rightarrow> e_val (quick_data t ! i) | None \<Rightarrow> VNil)
        else
          (case find_node (length (nodes t)) (nodes t) (int_key_is h k) (bucket_of t h) of
             Found i \<Rightarrow> e_val (entry (nodes t ! i)) | _ \<Rightarrow> VNil))"

definition arr_resize :: "VarTable \<Rightarrow> nat \<Rightarrow> cvar list" where
  "arr_resize t cap = take (arr_size t) (arr t) @ replicate (cap - arr_size t) VNil"

definition TableArrGrow :: "VarTable \<Rightarrow> unit tstep" where
  "TableArrGrow t =
     (let cap = (if arr_cap t \<noteq> 0 then arr_cap t * 2 else 4) in
      tbind (table_alloc (cap * sizeof_CVar) t) (\<lambda>_ t.
        (Inr (), t\<lparr>arr := arr_resize t cap, arr_cap := cap\<rparr>)))"

definition arr_push :: "cvar \<Rightarrow> VarTable \<Rightarrow> VarTable" where
  "arr_push v t = t\<lparr>arr := (arr t)[arr_size t := v], arr_size := arr_size t + 1\<rparr>"

definition grow_push :: "cvar \<Rightarrow> VarTable \<Rightarrow> unit tstep" where
  "grow_push v t =
     tbind (if arr_size t = arr_cap t then TableArrGrow t else (Inr (), t)) (\<lambda>_ t. (Inr (), arr_push v t))"

text \<open>
  The loop that moves the integer keys following the array out of the hash part; it ends because
  each round deletes a key.
\<close>

fun migrate :: "nat \<Rightarrow> VarTable \<Rightarrow> unit tstep" where
  "migrate 0 t = (Inl diverges, t)"
| "migrate (Suc n) t =
     (if tbl_count t = 0 then (Inr (), t)
      else let nk = word_of_nat (arr_size t) + 1; hv = TableHashGetInt t nk in
        if hv = VNil then (Inr (), t)
        else tbind (TableDelete t (VInt nk) (IntKeyHash nk)) (\<lambda>_ t.
               tbind (grow_push hv t) (\<lambda>_ t. migrate n t)))"

definition TableArrSetInt :: "VarTable \<Rightarrow> int64 \<Rightarrow> cvar \<Rightarrow> bool tstep" where
  "TableArrSetInt t k v =
     (let idx = unat (k - 1) in
      if idx < arr_size t then (Inr True, t\<lparr>arr := (arr t)[idx := v]\<rparr>)
      else if idx \<noteq> arr_size t \<or> v = VNil \<or> spec_set t \<noteq> 0 then (Inr False, t)
      else tbind (grow_push v t) (\<lambda>_ t.
             tbind (migrate (Suc (tbl_count t)) t) (\<lambda>_ t. (Inr True, t))))"

text \<open>Lua's \<open>computesizes\<close>: the histogram of integer keys by power-of-two slice.\<close>

definition count_key :: "int64 \<Rightarrow> nat list \<times> nat \<Rightarrow> nat list \<times> nat" where
  "count_key kk nt =
     (case nt of (nums, tot) \<Rightarrow>
        if 1 \<le> sint kk \<and> sint kk \<le> 2 ^ 30 then
          let b = (if kk = 1 then 0 else floorlog 2 (unat (kk - 1))) in
          (nums[b := nums ! b + 1], tot + 1)
        else (nums, tot))"

fun optimal_size :: "nat \<Rightarrow> nat list \<Rightarrow> nat \<Rightarrow> nat \<Rightarrow> nat \<Rightarrow> nat \<Rightarrow> nat" where
  "optimal_size i [] tot a opt two = opt"
| "optimal_size i (n # nums) tot a opt two =
     (if i < 31 \<and> tot > two div 2 then
        let a' = a + n in
        optimal_size (i + 1) nums tot a' (if a' > two div 2 then two else opt) (two * 2)
      else opt)"

text \<open>The live entries, in the order the code enumerates them.\<close>

definition live_entries :: "VarTable \<Rightarrow> VarEntry list" where
  "live_entries t =
     (if bucket_count t = 0 then take (tbl_count t) (quick_data t)
      else map (\<lambda>p. entry (nodes t ! (active_list t ! p))) [0..<tbl_count t])"

definition key_histogram :: "VarTable \<Rightarrow> int64 \<Rightarrow> nat list \<times> nat" where
  "key_histogram t nk =
     (let h0 = (replicate 32 0, 0);
          h1 = fold (\<lambda>i h. if arr t ! i \<noteq> VNil then count_key (word_of_nat i + 1) h else h) [0..<arr_size t] h0;
          h2 = fold (\<lambda>e h. case e_key e of VInt k \<Rightarrow> count_key k h | _ \<Rightarrow> h) (live_entries t) h1
      in count_key nk h2)"

fun pull_keys :: "nat list \<Rightarrow> VarTable \<Rightarrow> unit tstep" where
  "pull_keys [] t = (Inr (), t)"
| "pull_keys (j # js) t =
     (if tbl_count t = 0 then (Inr (), t)
      else let k = word_of_nat j; hv = TableHashGetInt t k in
        if hv = VNil then pull_keys js t
        else tbind (TableDelete t (VInt k) (IntKeyHash k)) (\<lambda>_ t.
               pull_keys js (t\<lparr>arr := (arr t)[j - 1 := hv]\<rparr>)))"

definition TableArrTryResize :: "VarTable \<Rightarrow> int64 \<Rightarrow> bool tstep" where
  "TableArrTryResize t nk =
     (let (nums, tot) = key_histogram t nk;
          optimal = optimal_size 0 nums tot 0 0 1
      in if optimal \<le> arr_size t then (Inr False, t)
         else tbind (table_alloc (optimal * sizeof_CVar) t) (\<lambda>_ t.
           let old_size = arr_size t;
               t1 = t\<lparr>arr := arr_resize t optimal, arr_cap := optimal, arr_size := optimal\<rparr>
           in tbind (pull_keys [old_size + 1..<optimal + 1] t1) (\<lambda>_ t.
                tbind (migrate (Suc (tbl_count t)) t) (\<lambda>_ t. (Inr True, t)))))"

definition hash_full :: "VarTable \<Rightarrow> bool" where
  "hash_full t =
     (if bucket_count t = 0 then QUICK_DATA_SIZE \<le> tbl_count t
      else bucket_count t \<le> tbl_count t \<or> free_list_idx t = INVALID_INDEX)"

definition quick_push :: "VarTable \<Rightarrow> cvar \<Rightarrow> cvar \<Rightarrow> uint32 \<Rightarrow> VarTable" where
  "quick_push t key v h =
     t\<lparr>quick_data := (quick_data t)[tbl_count t := \<lparr>e_key = key, e_val = v, e_hash = h\<rparr>], tbl_count := tbl_count t + 1\<rparr>"

definition TableArrResizeInsert :: "VarTable \<Rightarrow> int64 \<Rightarrow> cvar \<Rightarrow> bool tstep" where
  "TableArrResizeInsert t k v =
     (if spec_set t \<noteq> 0 then (Inr False, t)
      else if \<not> hash_full t then (Inr False, t)
      else tbind (TableArrTryResize t k) (\<lambda>ok t.
        if \<not> ok then (Inr False, t)
        else tbind (TableArrSetInt t k v) (\<lambda>ok t.
          if ok then (Inr True, t)
          else
            let h = IntKeyHash k in
            if bucket_count t = 0 then
              if tbl_count t < QUICK_DATA_SIZE then (Inr True, quick_push t (VInt k) v h)
              else (Inr False, t)
            else if tbl_count t < bucket_count t \<and> free_list_idx t \<noteq> INVALID_INDEX then
              tbind (TableInsertRaw t (VInt k) v h) (\<lambda>_ t. (Inr True, t))
            else (Inr False, t))))"

section \<open>Writing a non-nil value\<close>

definition resize_insert_if_int :: "VarTable \<Rightarrow> cvar \<Rightarrow> cvar \<Rightarrow> bool tstep" where
  "resize_insert_if_int t key v =
     (case key of VInt k \<Rightarrow> TableArrResizeInsert t k v | _ \<Rightarrow> (Inr False, t))"

definition set_buckets :: "VarTable \<Rightarrow> cvar \<Rightarrow> cvar \<Rightarrow> uint32 \<Rightarrow> unit tstep" where
  "set_buckets t key v h =
     (let insert = (\<lambda>t. tbind (TableInsertRaw t key v h) (\<lambda>_ t. (Inr (), t))) in
      if bucket_count t \<le> tbl_count t \<or> free_list_idx t = INVALID_INDEX then
        tbind (resize_insert_if_int t key v) (\<lambda>ok t.
          if ok then (Inr (), t) else tbind (TableRehash t) (\<lambda>_ t. insert t))
      else insert t)"

definition TableSetNonNil :: "VarTable \<Rightarrow> cvar \<Rightarrow> cvar \<Rightarrow> uint32 \<Rightarrow> unit tstep" where
  "TableSetNonNil t key v h =
     (if bucket_count t = 0 then
        case find_quick (take (tbl_count t) (quick_data t)) (key_is h key) 0 of
          Some i \<Rightarrow> (Inr (), t\<lparr>quick_data := (quick_data t)[i := (quick_data t ! i)\<lparr>e_val := v\<rparr>]\<rparr>)
        | None \<Rightarrow>
            if tbl_count t < QUICK_DATA_SIZE then (Inr (), quick_push t key v h)
            else tbind (resize_insert_if_int t key v) (\<lambda>ok t.
              if ok then (Inr (), t) else tbind (TableRehash t) (\<lambda>_ t. set_buckets t key v h))
      else set_buckets t key v h)"

end
