(* ===== verification/TableApi.thy ===== *)
theory TableApi
imports HashTable
begin

text \<open>
  The table operations of the host and the interpreter (\<open>TableHelper\<close>,
  \<open>native/table/native_table.cpp\<close>): reads, writes, length with its cache, enumeration and
  creation. A table handle is the \<open>VTable\<close> value with its const flag; the objects are in a store
  from addresses to tables. \<open>const_alloc\<close> is \<open>State::InterpConstAlloc\<close>. The null state
  pointer, which the callers of these functions never pass, is not modelled.
\<close>

section \<open>Reads\<close>

definition spec_lookup :: "VarTable \<Rightarrow> (cvar \<Rightarrow> bool) \<Rightarrow> cvar option" where
  "spec_lookup t P =
     (case (spec_keys t, spec_vals t) of
        (Some ks, Some vs) \<Rightarrow>
          (case find_quick (map (\<lambda>k. \<lparr>e_key = k, e_val = VNil, e_hash = 0\<rparr>) (take (spec_count t) ks)) (\<lambda>e. P (e_key e)) 0 of
             Some i \<Rightarrow> Some (vs ! i) | None \<Rightarrow> None)
      | _ \<Rightarrow> None)"

definition spec_get_call :: "spec_env \<Rightarrow> VarTable \<Rightarrow> cvar \<Rightarrow> cvar option" where
  "spec_get_call env t key = (if spec_get t \<noteq> 0 then call_get env (spec_get t) t key else None)"

text \<open>The search of the hash part for an entry that satisfies a predicate.\<close>

definition hash_lookup :: "VarTable \<Rightarrow> uint32 \<Rightarrow> (VarEntry \<Rightarrow> bool) \<Rightarrow> cvar" where
  "hash_lookup t h P =
     (if bucket_count t = 0 then
        (case find_quick (take (tbl_count t) (quick_data t)) P 0 of
           Some i \<Rightarrow> e_val (quick_data t ! i) | None \<Rightarrow> VNil)
      else
        (case find_node (length (nodes t)) (nodes t) P (bucket_of t h) of
           Found i \<Rightarrow> e_val (entry (nodes t ! i)) | _ \<Rightarrow> VNil))"

definition GetTableInt :: "spec_env \<Rightarrow> VarTable \<Rightarrow> int64 \<Rightarrow> cvar" where
  "GetTableInt env t idx =
     (if unat (idx - 1) < arr_size t then arr t ! unat (idx - 1)
      else case spec_get_call env t (VInt idx) of
        Some r \<Rightarrow> r
      | None \<Rightarrow>
          (case spec_lookup t (\<lambda>k. VarKeyEqualInt k idx) of
             Some v \<Rightarrow> v
           | None \<Rightarrow>
               let h = IntKeyHash idx in
               hash_lookup t h (\<lambda>e. e_hash e = h \<and> VarKeyEqualInt (e_key e) idx)))"

definition nan_index :: exn where "nan_index = ''table index is NaN''"

definition is_nan_key :: "cvar \<Rightarrow> bool" where
  "is_nan_key k = (case k of VFloat d \<Rightarrow> d_isnan d | _ \<Rightarrow> False)"

definition GetTable :: "spec_env \<Rightarrow> VarTable \<Rightarrow> cvar \<Rightarrow> cvar result" where
  "GetTable env t key0 =
     (let key = NormalizeTableKey key0 in
      if is_nan_key key then Inl nan_index
      else Inr (case spec_get_call env t key of
        Some r \<Rightarrow> r
      | None \<Rightarrow>
          let rest = (\<lambda>_::unit. case spec_lookup t (\<lambda>k. VarKeyEqual k key) of
               Some v \<Rightarrow> v
             | None \<Rightarrow> let h = VarKeyHash key in hash_lookup t h (key_is h key))
          in (case key of
                VInt i \<Rightarrow> if unat (i - 1) < arr_size t then arr t ! unat (i - 1) else rest ()
              | _ \<Rightarrow> rest ())))"

fun key_match_str :: "cvar \<Rightarrow> string \<Rightarrow> bool" where
  "key_match_str (VStringId s) target = (s = target)"
| "key_match_str (VString s) target = (s = target)"
| "key_match_str _ target = False"

definition GetTableStrId :: "spec_env \<Rightarrow> VarTable \<Rightarrow> string \<Rightarrow> cvar" where
  "GetTableStrId env t str_key =
     (case spec_get_call env t (VString str_key) of
        Some r \<Rightarrow> if r \<noteq> VNil then r else
          (case spec_lookup t (\<lambda>k. key_match_str k str_key) of
             Some v \<Rightarrow> v
           | None \<Rightarrow> let h = HashOf str_key in hash_lookup t h (\<lambda>e. e_hash e = h \<and> key_match_str (e_key e) str_key))
      | None \<Rightarrow>
          (case spec_lookup t (\<lambda>k. key_match_str k str_key) of
             Some v \<Rightarrow> v
           | None \<Rightarrow> let h = HashOf str_key in hash_lookup t h (\<lambda>e. e_hash e = h \<and> key_match_str (e_key e) str_key)))"

section \<open>Length\<close>

text \<open>Unlike the reads, this one skips a spec field, array slot or node whose value is nil.\<close>

definition TableHasIntKey :: "spec_env \<Rightarrow> VarTable \<Rightarrow> int64 \<Rightarrow> bool" where
  "TableHasIntKey env t k =
     (case spec_get_call env t (VInt k) of
        Some r \<Rightarrow> r \<noteq> VNil
      | None \<Rightarrow>
          if unat (k - 1) < arr_size t then arr t ! unat (k - 1) \<noteq> VNil
          else
            let in_spec = (case (spec_keys t, spec_vals t) of
                  (Some ks, Some vs) \<Rightarrow> \<exists>i \<in> set [0..<spec_count t]. VarKeyEqualInt (ks ! i) k \<and> vs ! i \<noteq> VNil
                | _ \<Rightarrow> False);
                P = (\<lambda>e. e_key e = VInt k \<and> e_val e \<noteq> VNil)
            in in_spec \<or>
              (if bucket_count t = 0 then list_ex P (take (tbl_count t) (quick_data t))
               else (case find_node (length (nodes t)) (nodes t) P (bucket_of t (IntKeyHash k)) of
                       Found _ \<Rightarrow> True | _ \<Rightarrow> False)))"

function SeqScanFrom :: "spec_env \<Rightarrow> VarTable \<Rightarrow> int64 \<Rightarrow> int64" where
  "SeqScanFrom env t base =
     (if sint base < 2 ^ 63 - 1 \<and> TableHasIntKey env t (base + 1) then SeqScanFrom env t (base + 1) else base)"
  by auto
termination
proof (relation "measure (\<lambda>(env, t, base). nat (2 ^ 63 - sint base))", simp, clarify)
  fix env :: spec_env and t :: VarTable and base :: int64
  assume "sint base < 2 ^ 63 - 1"
  then have "sint (base + 1) = sint base + 1"
    using sint_word_of_int64 [of "sint base + 1"] sint64_bounds [of base] by simp
  with sint64_bounds [of base] show "((env, t, base + 1), env, t, base) \<in> measure (\<lambda>(env, t, base). nat (2 ^ 63 - sint base))"
    by simp
qed

declare SeqScanFrom.simps [simp del]

definition SeqCacheable :: "VarTable \<Rightarrow> bool" where
  "SeqCacheable t \<longleftrightarrow> spec t = 0 \<and> spec_count t = 0"

definition SeqNoteIntSet :: "spec_env \<Rightarrow> VarTable \<Rightarrow> int64 \<Rightarrow> bool \<Rightarrow> VarTable" where
  "SeqNoteIntSet env t k is_nil =
     (if \<not> seq_len_valid t then t
      else if \<not> SeqCacheable t then t\<lparr>seq_len_valid := False\<rparr>
      else if is_nil then
        if 1 \<le> sint k \<and> sint k \<le> sint (seq_len t) then t\<lparr>seq_len := k - 1\<rparr> else t
      else if sint (seq_len t) < 2 ^ 63 - 1 \<and> k = seq_len t + 1
        then t\<lparr>seq_len := SeqScanFrom env t k\<rparr> else t)"

definition GetTableLen :: "spec_env \<Rightarrow> VarTable \<Rightarrow> int64 \<times> VarTable" where
  "GetTableLen env t =
     (if \<not> SeqCacheable t then (SeqScanFrom env t 0, t)
      else if seq_len_valid t then (seq_len t, t)
      else let n = SeqScanFrom env t 0 in (n, t\<lparr>seq_len := n, seq_len_valid := True\<rparr>))"

section \<open>Writes\<close>

definition const_error :: exn where "const_error = ''attempt to modify a const table''"

definition CheckConstTable :: "bool \<Rightarrow> bool \<Rightarrow> VarTable \<Rightarrow> unit tstep" where
  "CheckConstTable const_alloc flag t = (if flag \<and> \<not> const_alloc then (Inl const_error, t) else (Inr (), t))"

definition spec_set_call :: "spec_env \<Rightarrow> VarTable \<Rightarrow> cvar \<Rightarrow> cvar \<Rightarrow> VarTable option" where
  "spec_set_call env t key v = (if spec_set t \<noteq> 0 then call_set env (spec_set t) t key v else None)"

definition spec_index :: "VarTable \<Rightarrow> (cvar \<Rightarrow> bool) \<Rightarrow> nat option" where
  "spec_index t P =
     (case (spec_keys t, spec_vals t) of
        (Some ks, Some _) \<Rightarrow>
          find_quick (map (\<lambda>k. \<lparr>e_key = k, e_val = VNil, e_hash = 0\<rparr>) (take (spec_count t) ks)) (\<lambda>e. P (e_key e)) 0
      | _ \<Rightarrow> None)"

definition hash_write :: "VarTable \<Rightarrow> cvar \<Rightarrow> cvar \<Rightarrow> uint32 \<Rightarrow> unit tstep" where
  "hash_write t key v h = (if v = VNil then TableDelete t key h else TableSetNonNil t key v h)"

definition SetTableInt :: "spec_env \<Rightarrow> bool \<Rightarrow> bool \<Rightarrow> VarTable \<Rightarrow> int64 \<Rightarrow> cvar \<Rightarrow> unit tstep" where
  "SetTableInt env const_alloc flag t idx v =
     tbind (CheckConstTable const_alloc flag t) (\<lambda>_ t.
       case spec_set_call env t (VInt idx) v of
         Some t' \<Rightarrow> (Inr (), t')
       | None \<Rightarrow>
           (case spec_index t (\<lambda>k. VarKeyEqualInt k idx) of
              Some i \<Rightarrow> (Inr (), t\<lparr>spec_vals := map_option (\<lambda>vs. vs[i := v]) (spec_vals t)\<rparr>)
            | None \<Rightarrow>
                tbind (TableArrSetInt t idx v) (\<lambda>ok t.
                  if ok then (Inr (), SeqNoteIntSet env t idx (v = VNil))
                  else tbind (hash_write t (VInt idx) v (IntKeyHash idx)) (\<lambda>_ t.
                    (Inr (), SeqNoteIntSet env t idx (v = VNil))))))"

definition SetTable :: "spec_env \<Rightarrow> bool \<Rightarrow> bool \<Rightarrow> VarTable \<Rightarrow> cvar \<Rightarrow> cvar \<Rightarrow> unit tstep" where
  "SetTable env const_alloc flag t key0 v =
     (let key = NormalizeTableKey key0 in
      if key = VNil then (Inr (), t)
      else if is_nan_key key then (Inl nan_index, t)
      else tbind (CheckConstTable const_alloc flag t) (\<lambda>_ t.
        case spec_set_call env t key v of
          Some t' \<Rightarrow> (Inr (), t')
        | None \<Rightarrow>
            tbind (case key of VInt i \<Rightarrow> TableArrSetInt t i v | _ \<Rightarrow> (Inr False, t)) (\<lambda>ok t.
              let note_set = (\<lambda>t. case key of VInt i \<Rightarrow> SeqNoteIntSet env t i (v = VNil) | _ \<Rightarrow> t) in
              if ok then (Inr (), note_set t)
              else tbind (hash_write t key v (VarKeyHash key)) (\<lambda>_ t. (Inr (), note_set t)))))"

definition SetTableStrId :: "bool \<Rightarrow> bool \<Rightarrow> VarTable \<Rightarrow> string \<Rightarrow> cvar \<Rightarrow> unit tstep" where
  "SetTableStrId const_alloc flag t str_key v =
     tbind (CheckConstTable const_alloc flag t) (\<lambda>_ t. hash_write t (VStringId str_key) v (HashOf str_key))"

section \<open>Enumeration and creation\<close>

text \<open>\<open>snapshot\<close> is \<open>EnsureNativeSpecSnapshot\<close>, the identity on tables that wrap no native object.\<close>

definition spec_pairs :: "VarTable \<Rightarrow> (cvar \<times> cvar) list" where
  "spec_pairs t =
     (case (spec_keys t, spec_vals t) of
        (Some ks, Some vs) \<Rightarrow>
          filter (\<lambda>(k, v). k \<noteq> VNil \<and> v \<noteq> VNil) (map (\<lambda>i. (ks ! i, vs ! i)) [0..<spec_count t])
      | _ \<Rightarrow> [])"

definition arr_pairs :: "VarTable \<Rightarrow> (cvar \<times> cvar) list" where
  "arr_pairs t =
     filter (\<lambda>(k, v). v \<noteq> VNil) (map (\<lambda>i. (VInt (word_of_nat i + 1), arr t ! i)) [0..<arr_size t])"

definition hash_pairs :: "VarTable \<Rightarrow> (cvar \<times> cvar) list" where
  "hash_pairs t = filter (\<lambda>(k, v). k \<noteq> VNil \<and> v \<noteq> VNil) (map (\<lambda>e. (e_key e, e_val e)) (live_entries t))"

definition CollectKVPairs :: "(VarTable \<Rightarrow> VarTable) \<Rightarrow> VarTable \<Rightarrow> (cvar \<times> cvar) list" where
  "CollectKVPairs snapshot t0 = (let t = snapshot t0 in spec_pairs t @ arr_pairs t @ hash_pairs t)"

definition CreateTable :: VarTable where
  "CreateTable = \<lparr>tbl_count = 0, bucket_count = 0, nodes = [], active_list = [],
     quick_data = replicate QUICK_DATA_SIZE nil_entry, free_list_idx = INVALID_INDEX,
     spec = 0, spec_get = 0, spec_set = 0, spec_keys = None, spec_vals = None, spec_count = 0,
     seq_len_valid = True, seq_len = 0, arr = [], arr_size = 0, arr_cap = 0\<rparr>"

end
