(* ===== verification/KeyMap.thy ===== *)
theory KeyMap
imports HashTable
begin

text \<open>
  Table keys up to the code's equality, and lists of entries as finite maps: the canonical
  representative of a key, agreement of \<open>VarKeyEqual\<close> and \<open>VarKeyHash\<close> with it, and
  the effect of appending, removing and updating an entry.
\<close>

section \<open>Canonical keys\<close>

text \<open>The representative of a key: normalised, without string kind or const flag.\<close>

fun canon :: "cvar \<Rightarrow> cvar" where
  "canon (VStringId s) = VString s"
| "canon (VTable _ p) = VTable False p"
| "canon k = k"

fun key_ok :: "cvar \<Rightarrow> bool" where
  "key_ok VNil = False"
| "key_ok (VMulti _) = False"
| "key_ok (VFloat d) = (\<not> d_isnan d \<and> DoubleFitsInt64 d = None)"
| "key_ok _ = True"

lemma d_mag_mono:
  assumes "d_expf a < d_expf b"
  shows "d_mag a < d_mag b"
proof -
  have b: "2 ^ 52 * 2 ^ (d_expf b - 1) \<le> d_mag b"
    using assms by (simp add: d_mag_def)
  show ?thesis
  proof (cases "d_expf a = 0")
    case True
    have "d_mag a < 2 ^ 52 * 1" using True d_frac_lt [of a] by (simp add: d_mag_def)
    also have "\<dots> \<le> 2 ^ 52 * 2 ^ (d_expf b - 1)" by (intro mult_left_mono) simp_all
    finally show ?thesis using b by (rule order_less_le_trans)
  next
    case False
    have "2 ^ 52 + d_frac a < 2 ^ 53" using d_frac_lt [of a] by simp
    then have "d_mag a < 2 ^ 53 * 2 ^ (d_expf a - 1)" using False by (simp add: d_mag_def)
    also have "(2::nat) ^ 53 * 2 ^ (d_expf a - 1) = 2 ^ 52 * 2 ^ d_expf a"
      using False by (cases "d_expf a") simp_all
    also have "\<dots> \<le> 2 ^ 52 * 2 ^ (d_expf b - 1)"
      using assms by (intro mult_left_mono power_increasing) simp_all
    finally show ?thesis using b by (rule order_less_le_trans)
  qed
qed

lemma d_mag_inj:
  assumes "d_mag a = d_mag b"
  shows "d_expf a = d_expf b \<and> d_frac a = d_frac b"
proof -
  have e: "d_expf a = d_expf b" using d_mag_mono [of a b] d_mag_mono [of b a] assms by (metis less_irrefl nat_neq_iff)
  then show ?thesis using assms by (auto simp: d_mag_def split: if_splits)
qed

lemma double_fields_inj:
  assumes "d_sign a = d_sign b" "d_expf a = d_expf b" "d_frac a = d_frac b"
  shows "a = b"
proof -
  have split: "unat w = (if d_sign w then 2 ^ 63 else 0) + d_expf w * 2 ^ 52 + d_frac w" for w :: double
  proof -
    have "unat w < 2 ^ 64" using unat_lt_pow [of w] by simp
    then have "unat w div 2 ^ 52 < 2 * 2048" by (simp add: less_mult_imp_div_less)
    then have "unat w div 2 ^ 52 = (if 2048 \<le> unat w div 2 ^ 52 then 2048 else 0) + d_expf w"
      by (auto simp: d_expf_def mod_if)
    moreover have "2048 \<le> unat w div 2 ^ 52 \<longleftrightarrow> d_sign w"
      by (simp add: d_sign_def less_eq_div_iff_mult_less_eq)
    moreover have "unat w = unat w div 2 ^ 52 * 2 ^ 52 + d_frac w"
      by (simp only: d_frac_def div_mult_mod_eq)
    ultimately show ?thesis by (auto simp: algebra_simps)
  qed
  have "unat a = unat b" using split [of a] split [of b] assms by simp
  then show ?thesis by (simp add: word_unat_eq_iff)
qed

lemma d_scaled_inj:
  assumes "d_scaled a = d_scaled b" "d_scaled a \<noteq> 0"
  shows "a = b"
proof -
  have "d_mag a = d_mag b" "d_sign a = d_sign b"
    using assms by (auto simp: d_scaled_def split: if_splits)
  with d_mag_inj double_fields_inj show ?thesis by blast
qed

lemma key_ok_float_nonzero:
  assumes "key_ok (VFloat d)"
  shows "d_scaled d \<noteq> 0"
proof
  assume "d_scaled d = 0"
  with assms TryConvert_iff [of d 0] show False by (simp add: DoubleFitsInt64_eq)
qed

lemma VarKeyEqual_canon:
  assumes "key_ok a" "key_ok b"
  shows "VarKeyEqual a b \<longleftrightarrow> canon a = canon b"
proof -
  have no: "\<not> Int64DoubleEqual i d" if "key_ok (VFloat d)" for i d
    using that TryConvert_iff [of d i] by (auto simp: DoubleFitsInt64_eq Int64DoubleEqual_iff)
  have fl: "d_eq d e \<longleftrightarrow> d = e" if "key_ok (VFloat d)" "key_ok (VFloat e)" for d e
    using that d_scaled_inj [of d e] key_ok_float_nonzero [of d] by (auto simp: d_eq_def)
  show ?thesis using assms no fl by (cases a; cases b) auto
qed

lemma VarKeyHash_canon: "VarKeyHash (canon k) = VarKeyHash k"
  by (cases k) auto

lemma key_ok_canon [simp]: "key_ok (canon k) = key_ok k"
  by (cases k) auto

lemma canon_canon [simp]: "canon (canon k) = canon k"
  by (cases k) auto

lemma canon_VInt_iff [simp]: "canon k = VInt i \<longleftrightarrow> k = VInt i"
  by (cases k) auto

lemma key_ok_normalized:
  "k \<noteq> VNil \<Longrightarrow> \<forall>vs. k \<noteq> VMulti vs \<Longrightarrow> \<forall>d. k = VFloat d \<longrightarrow> \<not> d_isnan d \<Longrightarrow> key_ok (NormalizeTableKey k)"
  by (cases k) (auto split: option.splits)

text \<open>An entry as the code stores it: proper key, the key's hash, a non-nil value.\<close>

definition entry_ok :: "VarEntry \<Rightarrow> bool" where
  "entry_ok e \<longleftrightarrow> key_ok (e_key e) \<and> e_hash e = VarKeyHash (e_key e) \<and> e_val e \<noteq> VNil"

lemma key_is_canon:
  assumes "entry_ok e" "key_ok k"
  shows "key_is (VarKeyHash k) k e \<longleftrightarrow> canon (e_key e) = canon k"
  using assms VarKeyEqual_canon [of "e_key e" k] unfolding key_is_def entry_ok_def
  by (metis VarKeyHash_canon)

lemma int_key_is_canon:
  assumes "entry_ok e"
  shows "int_key_is (IntKeyHash k) k e \<longleftrightarrow> canon (e_key e) = VInt k"
  using assms by (auto simp: int_key_is_def entry_ok_def)

section \<open>The map of live entries\<close>

definition entry_pair :: "VarEntry \<Rightarrow> cvar \<times> cvar" where
  "entry_pair e = (canon (e_key e), e_val e)"

definition entries_map :: "VarEntry list \<Rightarrow> cvar \<rightharpoonup> cvar" where
  "entries_map es = map_of (map entry_pair es)"

definition entries_distinct :: "VarEntry list \<Rightarrow> bool" where
  "entries_distinct es \<longleftrightarrow> distinct (map (canon \<circ> e_key) es)"

lemma fst_entry_pair [simp]: "fst \<circ> entry_pair = canon \<circ> e_key"
  by (auto simp: entry_pair_def)

lemma entries_map_Some:
  assumes "entries_distinct es"
  shows "entries_map es k = Some v \<longleftrightarrow> (\<exists>e \<in> set es. canon (e_key e) = k \<and> e_val e = v)"
proof -
  have "distinct (map fst (map entry_pair es))" using assms by (simp add: entries_distinct_def)
  from map_of_eq_Some_iff [OF this] show ?thesis
    by (auto simp: entries_map_def entry_pair_def)
qed

lemma entries_map_None: "entries_map es k = None \<longleftrightarrow> (\<forall>e \<in> set es. canon (e_key e) \<noteq> k)"
  by (force simp: entries_map_def map_of_eq_None_iff entry_pair_def)

lemma entries_map_Some_nth:
  assumes "entries_distinct es"
  shows "entries_map es k = Some v \<longleftrightarrow> (\<exists>q < length es. canon (e_key (es ! q)) = k \<and> e_val (es ! q) = v)"
  unfolding entries_map_Some [OF assms] by (metis in_set_conv_nth)

text \<open>Distinct entry lists over the same set denote the same map.\<close>

lemma entries_map_set:
  assumes "entries_distinct es" "entries_distinct es'" "set es = set es'"
  shows "entries_map es = entries_map es'"
proof
  fix k
  show "entries_map es k = entries_map es' k"
    using entries_map_Some [OF assms(1), of k] entries_map_Some [OF assms(2), of k] assms(3)
    by (metis not_Some_eq)
qed

lemma entries_map_snoc:
  assumes "entries_distinct (es @ [e])"
  shows "entries_map (es @ [e]) = (entries_map es)(canon (e_key e) \<mapsto> e_val e)"
proof -
  have "canon (e_key e) \<notin> fst ` set (map entry_pair es)"
    using assms by (auto simp: entries_distinct_def entry_pair_def)
  then have "map_of (map entry_pair es) (canon (e_key e)) = None" by (simp add: map_of_eq_None_iff)
  then show ?thesis by (auto simp: entries_map_def entry_pair_def map_add_def fun_eq_iff split: option.split)
qed

text \<open>Removing an entry, whatever the order of the rest.\<close>

lemma entries_map_remove:
  assumes "entries_distinct es" "entries_distinct es'" "e \<in> set es" "set es' = set es - {e}"
  shows "entries_map es' = (entries_map es)(canon (e_key e) := None)"
proof
  fix k
  have uniq: "f = e" if "f \<in> set es" "canon (e_key f) = canon (e_key e)" for f
    using that assms(1,3) by (auto simp: entries_distinct_def distinct_map inj_on_def)
  show "entries_map es' k = ((entries_map es)(canon (e_key e) := None)) k"
  proof (cases "k = canon (e_key e)")
    case True
    then show ?thesis using uniq assms(4) by (auto simp: entries_map_None)
  next
    case False
    then have "entries_map es' k = Some v \<longleftrightarrow> entries_map es k = Some v" for v
      using assms(4) by (auto simp: entries_map_Some [OF assms(1)] entries_map_Some [OF assms(2)])
    with False show ?thesis by (metis fun_upd_other not_Some_eq)
  qed
qed

text \<open>Changing the value of an entry in place.\<close>

lemma entries_map_update:
  assumes "entries_distinct es" "p < length es" "canon (e_key e') = canon (e_key (es ! p))"
  shows "entries_distinct (es[p := e'])" "entries_map (es[p := e']) = (entries_map es)(canon (e_key e') \<mapsto> e_val e')"
proof -
  have "map (canon \<circ> e_key) (es[p := e']) = map (canon \<circ> e_key) es"
    using assms(2,3) by (intro nth_equalityI) (auto simp: nth_list_update)
  then show d: "entries_distinct (es[p := e'])" using assms(1) by (simp add: entries_distinct_def)
  show "entries_map (es[p := e']) = (entries_map es)(canon (e_key e') \<mapsto> e_val e')"
  proof
    fix k
    have other: "q = p" if "q < length es" "canon (e_key (es ! q)) = canon (e_key e')" for q
      using nth_eq_iff_index_eq [OF assms(1) [unfolded entries_distinct_def], of q p] that assms(2,3)
      by simp
    have "entries_map (es[p := e']) k = Some v \<longleftrightarrow> ((entries_map es)(canon (e_key e') \<mapsto> e_val e')) k = Some v" for v
    proof (cases "k = canon (e_key e')")
      case True
      have "q = p" if "q < length es" "canon (e_key (es[p := e'] ! q)) = canon (e_key e')" for q
        using that other by (cases "q = p") simp_all
      then have "entries_map (es[p := e']) k = Some v \<longleftrightarrow> e_val e' = v"
        unfolding entries_map_Some_nth [OF d] True using assms(2)
        by (metis length_list_update nth_list_update_eq)
      with True show ?thesis by simp
    next
      case False
      then have "entries_map (es[p := e']) k = Some v \<longleftrightarrow> entries_map es k = Some v"
        using assms(2,3) unfolding entries_map_Some_nth [OF d] entries_map_Some_nth [OF assms(1)]
        by (metis length_list_update nth_list_update_eq nth_list_update_neq)
      with False show ?thesis by simp
    qed
    then show "entries_map (es[p := e']) k = ((entries_map es)(canon (e_key e') \<mapsto> e_val e')) k"
      by (metis not_Some_eq)
  qed
qed

end
