(* ===== verification/HashInv.thy ===== *)
theory HashInv
imports KeyMap "HOL-Library.Multiset"
begin

text \<open>
  The bucket array of a table refines a finite map: the invariant of the nodes with their overflow
  chains, free list and active list, and the effect of lookup, insertion, deletion and rehash on
  the map of live entries.
\<close>

section \<open>Linked chains\<close>

fun linked :: "TableNode list \<Rightarrow> nat \<Rightarrow> nat list \<Rightarrow> bool" where
  "linked ns i [] = (i = INVALID_INDEX)"
| "linked ns i (x # xs) = (i = x \<and> x < length ns \<and> x \<noteq> INVALID_INDEX \<and> linked ns (nxt (ns ! x)) xs)"

lemma linked_cong:
  assumes "length ns' = length ns" "\<forall>x \<in> set xs. nxt (ns' ! x) = nxt (ns ! x)"
  shows "linked ns' i xs = linked ns i xs"
  using assms by (induction xs arbitrary: i) auto

lemma linked_update [simp]: "x \<notin> set xs \<Longrightarrow> linked (ns[x := n]) i xs = linked ns i xs"
  by (rule linked_cong) (simp, metis nth_list_update_neq)

lemma linked_range: "linked ns i xs \<Longrightarrow> x \<in> set xs \<Longrightarrow> x < length ns"
  by (induction xs arbitrary: i) auto

lemma find_node_linked:
  assumes "linked ns i xs" "xs \<noteq> []" "length xs \<le> fuel"
  shows "find_node fuel ns P i =
    (case find (\<lambda>i. P (entry (ns ! i))) xs of Some j \<Rightarrow> Found j | None \<Rightarrow> Missing)"
  using assms
proof (induction xs arbitrary: i fuel)
  case (Cons x xs)
  then obtain n where n: "fuel = Suc n" by (cases fuel) auto
  show ?case
  proof (cases "xs = []")
    case True
    with Cons.prems n show ?thesis by simp
  next
    case False
    with Cons.prems n have "find_node n ns P (nxt (ns ! x)) =
        (case find (\<lambda>i. P (entry (ns ! i))) xs of Some j \<Rightarrow> Found j | None \<Rightarrow> Missing)"
      by (intro Cons.IH) auto
    moreover have "nxt (ns ! x) \<noteq> INVALID_INDEX" using Cons.prems(1) False by (cases xs) auto
    ultimately show ?thesis using Cons.prems(1) n by simp
  qed
qed simp

section \<open>The invariant\<close>

definition node_key :: "VarTable \<Rightarrow> nat \<Rightarrow> cvar" where
  "node_key t i = e_key (entry (nodes t ! i))"

text \<open>The occupied nodes, given the overflow chain \<open>ch ! b\<close> of each bucket \<open>b\<close>.\<close>

definition occ :: "VarTable \<Rightarrow> nat list list \<Rightarrow> nat set" where
  "occ t ch = {b. b < bucket_count t \<and> node_key t b \<noteq> VNil} \<union> set (concat ch)"

definition total_nodes :: "VarTable \<Rightarrow> nat" where
  "total_nodes t = bucket_count t + bucket_count t div 2"

definition shape_ok :: "VarTable \<Rightarrow> nat list list \<Rightarrow> nat list \<Rightarrow> bool" where
  "shape_ok t ch fl \<longleftrightarrow>
     (\<exists>k. bucket_count t = 2 ^ k) \<and> bucket_count t \<le> 8192 \<and>
     length (nodes t) = total_nodes t \<and> length (active_list t) = total_nodes t \<and>
     length ch = bucket_count t \<and>
     mset (concat ch @ fl) = mset [bucket_count t..<total_nodes t]"

definition chains_ok :: "VarTable \<Rightarrow> nat list list \<Rightarrow> nat list \<Rightarrow> bool" where
  "chains_ok t ch fl \<longleftrightarrow>
     (\<forall>b < bucket_count t. linked (nodes t) b (b # ch ! b)) \<and> linked (nodes t) (free_list_idx t) fl \<and>
     (\<forall>b < bucket_count t. node_key t b = VNil \<longrightarrow> ch ! b = [])"

definition nodes_ok :: "VarTable \<Rightarrow> nat list list \<Rightarrow> bool" where
  "nodes_ok t ch \<longleftrightarrow>
     (\<forall>b < bucket_count t. \<forall>i \<in> set (b # ch ! b). i \<in> occ t ch \<longrightarrow>
        entry_ok (entry (nodes t ! i)) \<and> bucket_of t (e_hash (entry (nodes t ! i))) = b)"

definition active_ok :: "VarTable \<Rightarrow> nat list list \<Rightarrow> bool" where
  "active_ok t ch \<longleftrightarrow>
     tbl_count t \<le> length (active_list t) \<and>
     distinct (take (tbl_count t) (active_list t)) \<and> set (take (tbl_count t) (active_list t)) = occ t ch \<and>
     (\<forall>p < tbl_count t. active_pos (nodes t ! (active_list t ! p)) = p)"

definition hash_inv :: "VarTable \<Rightarrow> nat list list \<Rightarrow> nat list \<Rightarrow> bool" where
  "hash_inv t ch fl \<longleftrightarrow>
     shape_ok t ch fl \<and> chains_ok t ch fl \<and> nodes_ok t ch \<and> active_ok t ch \<and>
     inj_on (\<lambda>i. canon (node_key t i)) (occ t ch)"

definition hmap :: "VarTable \<Rightarrow> cvar \<rightharpoonup> cvar" where
  "hmap t = entries_map (live_entries t)"

subsection \<open>Consequences\<close>

lemma find_Some_mem: "find P xs = Some x \<Longrightarrow> x \<in> set xs \<and> P x"
  by (metis find_Some_iff nth_mem)

lemma shape_ok_overflow:
  assumes "shape_ok t ch fl"
  shows "distinct (concat ch @ fl)" "set (concat ch @ fl) = {bucket_count t..<total_nodes t}"
    "distinct (concat ch)"
proof -
  have m: "mset (concat ch @ fl) = mset [bucket_count t..<total_nodes t]"
    using assms by (simp add: shape_ok_def)
  show "distinct (concat ch @ fl)" using mset_eq_imp_distinct_iff [OF m] by simp
  then show "distinct (concat ch)" by simp
  show "set (concat ch @ fl) = {bucket_count t..<total_nodes t}"
    using mset_eq_setD [OF m] by (simp only: set_upt)
qed

lemma mset_concat_update:
  assumes "b < length ch"
  shows "mset (concat (ch[b := ys])) + mset (ch ! b) = mset (concat ch) + mset ys"
proof -
  have "mset (concat ch) = mset (concat (take b ch)) + mset (ch ! b) + mset (concat (drop (Suc b) ch))"
    by (subst id_take_nth_drop [OF assms]) simp
  moreover have "mset (concat (ch[b := ys])) = mset (concat (take b ch)) + mset ys + mset (concat (drop (Suc b) ch))"
    by (simp add: upd_conv_take_nth_drop [OF assms])
  ultimately show ?thesis by simp
qed

lemma shape_okD:
  assumes "shape_ok t ch fl"
  shows "0 < bucket_count t" "length (nodes t) < INVALID_INDEX" "length ch = bucket_count t"
    "length (nodes t) = bucket_count t + bucket_count t div 2"
  using assms by (auto simp: shape_ok_def total_nodes_def INVALID_INDEX_def)

lemma in_chain_range:
  assumes "shape_ok t ch fl" "b < bucket_count t" "i \<in> set (ch ! b)"
  shows "bucket_count t \<le> i" "i < total_nodes t" "i \<in> set (concat ch)"
proof -
  have "ch ! b \<in> set ch" using assms by (auto simp: shape_ok_def)
  with assms(3) show c: "i \<in> set (concat ch)" by auto
  then have "i \<in> set (concat ch @ fl)" by simp
  then have "i \<in> {bucket_count t..<total_nodes t}" using shape_ok_overflow(2) [OF assms(1)] by blast
  then show "bucket_count t \<le> i" "i < total_nodes t" by simp_all
qed

lemma in_concat_chain: "i \<in> set (concat ch) \<longleftrightarrow> (\<exists>b < length ch. i \<in> set (ch ! b))"
  unfolding set_concat UN_iff by (metis in_set_conv_nth)

declare set_concat [simp del]

lemma concat_disjoint:
  assumes "distinct (concat ch)" "b < length ch" "b' < length ch" "i \<in> set (ch ! b)" "i \<in> set (ch ! b')"
  shows "b = b'"
proof (rule ccontr)
  assume "b \<noteq> b'"
  define lo hi where "lo = min b b'" and "hi = max b b'"
  have lh: "lo < hi" "hi < length ch" "i \<in> set (ch ! lo)" "i \<in> set (ch ! hi)"
    using assms \<open>b \<noteq> b'\<close> by (auto simp: lo_def hi_def min_def max_def)
  have "concat ch = concat (take hi ch) @ concat (drop hi ch)" by (metis append_take_drop_id concat_append)
  with assms(1) have "set (concat (take hi ch)) \<inter> set (concat (drop hi ch)) = {}" by (metis distinct_append)
  moreover have "ch ! lo \<in> set (take hi ch)" using lh by (auto simp: in_set_conv_nth)
  moreover have "ch ! hi \<in> set (drop hi ch)" using lh(2) by (metis Cons_nth_drop_Suc list.set_intros(1))
  ultimately show False using lh(3,4) unfolding set_concat by blast
qed

lemma main_not_overflow:
  assumes "shape_ok t ch fl" "b < bucket_count t"
  shows "b \<notin> set (concat ch)"
  using in_chain_range(1) [OF assms(1)] shape_okD(3) [OF assms(1)] assms(2)
  unfolding in_concat_chain by (metis linorder_not_le)

lemma main_not_free:
  assumes "shape_ok t ch fl" "b < bucket_count t"
  shows "b \<notin> set fl"
proof
  assume "b \<in> set fl"
  then have "b \<in> set (concat ch @ fl)" by simp
  then have "b \<in> {bucket_count t..<total_nodes t}" using shape_ok_overflow(2) [OF assms(1)] by blast
  then show False using assms(2) by simp
qed

lemma free_range:
  assumes "shape_ok t ch fl" "x \<in> set fl"
  shows "bucket_count t \<le> x" "x < total_nodes t" "x \<notin> set (concat ch)"
proof -
  have "x \<in> set (concat ch @ fl)" using assms by simp
  then have "x \<in> {bucket_count t..<total_nodes t}" using shape_ok_overflow(2) [OF assms(1)] by blast
  then show "bucket_count t \<le> x" "x < total_nodes t" by simp_all
  show "x \<notin> set (concat ch)" using shape_ok_overflow(1) [OF assms(1)] assms(2) by auto
qed

lemma chain_occ:
  assumes "shape_ok t ch fl" "b < bucket_count t"
  shows "i \<in> set (b # ch ! b) \<and> i \<in> occ t ch \<longleftrightarrow>
    (if node_key t b = VNil then i \<in> set (ch ! b) else i \<in> set (b # ch ! b))"
  using in_chain_range(3) [OF assms] main_not_overflow [OF assms] assms(2) by (auto simp: occ_def)

lemma occ_range:
  assumes "shape_ok t ch fl" "i \<in> occ t ch"
  shows "i < total_nodes t"
proof -
  have "set (concat ch) \<subseteq> {bucket_count t..<total_nodes t}"
    using shape_ok_overflow(2) [OF assms(1)] by auto
  with assms(2) show ?thesis by (auto simp: occ_def total_nodes_def)
qed

lemma nodes_okD:
  assumes "hash_inv t ch fl" "c < bucket_count t" "i \<in> set (c # ch ! c)" "i \<in> occ t ch"
  shows "entry_ok (entry (nodes t ! i)) \<and> bucket_of t (e_hash (entry (nodes t ! i))) = c"
  using assms unfolding hash_inv_def nodes_ok_def by blast

lemma active_mem:
  assumes "active_ok t ch" "p < tbl_count t"
  shows "active_list t ! p \<in> occ t ch"
proof -
  have "active_list t ! p \<in> set (take (tbl_count t) (active_list t))"
    using assms nth_mem [of p "take (tbl_count t) (active_list t)"] by (simp add: active_ok_def)
  then show ?thesis using assms(1) by (simp add: active_ok_def)
qed

lemma occ_bucket:
  assumes "hash_inv t ch fl" "i \<in> occ t ch"
  shows "\<exists>b < bucket_count t. i \<in> set (b # ch ! b) \<and> bucket_of t (e_hash (entry (nodes t ! i))) = b"
proof -
  have "length ch = bucket_count t" using assms(1) by (simp add: hash_inv_def shape_ok_def)
  then have "\<exists>b < bucket_count t. i \<in> set (b # ch ! b)"
    using assms(2) by (auto simp: occ_def in_concat_chain)
  with assms show ?thesis unfolding hash_inv_def nodes_ok_def by blast
qed

lemma occ_entry_ok: "hash_inv t ch fl \<Longrightarrow> i \<in> occ t ch \<Longrightarrow> entry_ok (entry (nodes t ! i))"
  using occ_bucket unfolding hash_inv_def nodes_ok_def by blast

text \<open>Every bucket and every overflow node is accounted for.\<close>

lemma overflow_count:
  assumes "shape_ok t ch fl"
  shows "length (concat ch) + length fl = bucket_count t div 2"
proof -
  have "length (concat ch @ fl) = length [bucket_count t..<total_nodes t]"
    using assms unfolding shape_ok_def by (metis mset_eq_length)
  then show ?thesis by (simp add: total_nodes_def)
qed

lemma active_count:
  assumes "shape_ok t ch fl" "active_ok t ch"
  shows "tbl_count t = card {b. b < bucket_count t \<and> node_key t b \<noteq> VNil} + length (concat ch)"
proof -
  have "tbl_count t = card (set (take (tbl_count t) (active_list t)))"
    using assms(2) by (metis active_ok_def distinct_card length_take min.absorb2)
  also have "\<dots> = card (occ t ch)" using assms(2) by (simp only: active_ok_def)
  also have "\<dots> = card {b. b < bucket_count t \<and> node_key t b \<noteq> VNil} + card (set (concat ch))"
    unfolding occ_def
  proof (rule card_Un_disjoint)
    have "bucket_count t \<le> i" if "i \<in> set (concat ch)" for i
      using that in_chain_range(1) [OF assms(1)] shape_okD(3) [OF assms(1)] unfolding in_concat_chain by auto
    then show "{b. b < bucket_count t \<and> node_key t b \<noteq> VNil} \<inter> set (concat ch) = {}"
      by (auto simp del: set_concat simp: not_le [symmetric])
  qed simp_all
  also have "card (set (concat ch)) = length (concat ch)"
    using shape_ok_overflow(3) [OF assms(1)] by (intro distinct_card)
  finally show ?thesis .
qed

text \<open>With at most half as many keys as buckets, a collision always finds a free overflow node.\<close>

lemma free_when_half:
  assumes "shape_ok t ch fl" "active_ok t ch" "tbl_count t \<le> bucket_count t div 2"
    "b < bucket_count t" "node_key t b \<noteq> VNil"
  shows "fl \<noteq> []"
proof
  assume "fl = []"
  with overflow_count [OF assms(1)] have "length (concat ch) = bucket_count t div 2" by simp
  moreover have "card {b. b < bucket_count t \<and> node_key t b \<noteq> VNil} > 0"
    using assms(4,5) by (auto simp: card_gt_0_iff)
  ultimately show False using active_count [OF assms(1,2)] assms(3) by simp
qed

lemma free_iff:
  assumes "chains_ok t ch fl"
  shows "free_list_idx t = INVALID_INDEX \<longleftrightarrow> fl = []"
  using assms by (cases fl) (auto simp: chains_ok_def)

lemma bucket_of_less:
  assumes "shape_ok t ch fl"
  shows "bucket_of t h < bucket_count t"
proof -
  obtain k where k: "bucket_count t = 2 ^ k" using assms by (auto simp: shape_ok_def)
  have "h AND (word_of_nat (bucket_count t) - 1) = take_bit k h"
    by (simp add: k take_bit_eq_mask mask_eq_exp_minus_1)
  then have "bucket_of t h = take_bit k (unat h)"
    unfolding bucket_of_def by (simp only: unsigned_take_bit_eq)
  then have "bucket_of t h = unat h mod 2 ^ k" by (simp only: take_bit_eq_mod)
  then show ?thesis by (simp add: k)
qed

section \<open>Lookup\<close>

lemma bucket_of_cong: "bucket_count t' = bucket_count t \<Longrightarrow> bucket_of t' h = bucket_of t h"
  by (simp add: bucket_of_def)

lemma live_eq:
  assumes "shape_ok t ch fl" "active_ok t ch"
  shows "live_entries t = map (\<lambda>i. entry (nodes t ! i)) (take (tbl_count t) (active_list t))"
  using assms shape_okD(1) [OF assms(1)]
  by (intro nth_equalityI) (auto simp: live_entries_def active_ok_def)

lemma set_live:
  assumes "hash_inv t ch fl"
  shows "set (live_entries t) = (\<lambda>i. entry (nodes t ! i)) ` occ t ch"
proof -
  have "shape_ok t ch fl" "active_ok t ch" using assms by (auto simp: hash_inv_def)
  then show ?thesis unfolding live_eq [OF \<open>shape_ok t ch fl\<close> \<open>active_ok t ch\<close>] by (simp add: active_ok_def)
qed

lemma distinct_live:
  assumes "hash_inv t ch fl"
  shows "entries_distinct (live_entries t)"
proof -
  have "shape_ok t ch fl" "active_ok t ch" and inj: "inj_on (\<lambda>i. canon (node_key t i)) (occ t ch)"
    using assms by (auto simp: hash_inv_def)
  then show ?thesis unfolding live_eq [OF \<open>shape_ok t ch fl\<close> \<open>active_ok t ch\<close>] entries_distinct_def
    by (simp add: distinct_map active_ok_def comp_def node_key_def)
qed

lemma hmap_Some:
  assumes "hash_inv t ch fl"
  shows "hmap t k = Some v \<longleftrightarrow> (\<exists>i \<in> occ t ch. canon (node_key t i) = k \<and> e_val (entry (nodes t ! i)) = v)"
  using entries_map_Some [OF distinct_live [OF assms]] set_live [OF assms] by (auto simp: hmap_def node_key_def)

lemma hmap_None:
  assumes "hash_inv t ch fl"
  shows "hmap t k = None \<longleftrightarrow> (\<forall>i \<in> occ t ch. canon (node_key t i) \<noteq> k)"
  using set_live [OF assms] by (auto simp: hmap_def entries_map_None node_key_def)

lemma chain_length:
  assumes sh: "shape_ok t ch fl" and bl: "b < bucket_count t"
  shows "length (b # ch ! b) < Suc (length (nodes t))"
proof -
  have "distinct (ch ! b)" "set (ch ! b) \<subseteq> {bucket_count t..<total_nodes t}"
  proof -
    have "ch ! b \<in> set ch" using bl shape_okD(3) [OF sh] by simp
    then show "distinct (ch ! b)" using shape_ok_overflow(3) [OF sh] by (simp add: distinct_concat_iff)
    show "set (ch ! b) \<subseteq> {bucket_count t..<total_nodes t}" using in_chain_range [OF sh bl] by auto
  qed
  then have "length (ch ! b) \<le> bucket_count t div 2"
    using distinct_card card_mono [of "{bucket_count t..<total_nodes t}" "set (ch ! b)"]
    by (fastforce simp: total_nodes_def)
  then show ?thesis using shape_okD(1,4) [OF sh] by simp
qed

text \<open>
  A search for a proper key in its bucket: it finds the one occupied node that has the key, or
  reports that there is none. The predicate is any test that agrees with the key on proper entries
  and rejects nil keys.
\<close>

lemma find_node_bucket:
  assumes inv: "hash_inv t ch fl" and b: "b = bucket_of t (VarKeyHash key)"
    and P: "\<And>e. entry_ok e \<Longrightarrow> P e \<longleftrightarrow> canon (e_key e) = canon key" "\<And>e. e_key e = VNil \<Longrightarrow> \<not> P e"
  shows "find_node (length (nodes t)) (nodes t) P b = Missing \<and> hmap t (canon key) = None \<or>
    (\<exists>i. find_node (length (nodes t)) (nodes t) P b = Found i \<and> i \<in> occ t ch \<and> i \<in> set (b # ch ! b) \<and>
       canon (node_key t i) = canon key \<and> hmap t (canon key) = Some (e_val (entry (nodes t ! i))))"
proof -
  have sh: "shape_ok t ch fl" and ck: "chains_ok t ch fl" using inv by (auto simp: hash_inv_def)
  have bl: "b < bucket_count t" unfolding b by (rule bucket_of_less [OF sh])
  let ?xs = "b # ch ! b"
  have lk: "linked (nodes t) b ?xs" using ck bl by (simp add: chains_ok_def)
  have len: "length ?xs \<le> length (nodes t)" using chain_length [OF sh bl] by simp
  note fn = find_node_linked [OF lk _ len, of P, simplified]
  have in_occ: "i \<in> occ t ch" if "i \<in> set ?xs" "P (entry (nodes t ! i))" for i
    using that P(2) bl in_chain_range(3) [OF sh bl] by (auto simp: occ_def node_key_def)
  have match: "P (entry (nodes t ! i)) \<longleftrightarrow> canon (node_key t i) = canon key" if "i \<in> occ t ch" for i
    using P(1) [OF occ_entry_ok [OF inv that]] by (simp add: node_key_def)
  have here: "i \<in> set ?xs" if i: "i \<in> occ t ch" and c: "canon (node_key t i) = canon key" for i
  proof -
    obtain b' where b': "i \<in> set (b' # ch ! b')" "bucket_of t (e_hash (entry (nodes t ! i))) = b'"
      using occ_bucket [OF inv i] by blast
    have "e_hash (entry (nodes t ! i)) = VarKeyHash key"
      using occ_entry_ok [OF inv i] c VarKeyHash_canon by (metis entry_ok_def node_key_def)
    with b' b show ?thesis by simp
  qed
  show ?thesis
  proof (cases "find (\<lambda>i. P (entry (nodes t ! i))) ?xs")
    case None
    then have "\<not> P (entry (nodes t ! i))" if "i \<in> set ?xs" for i using that unfolding find_None_iff by blast
    then have "hmap t (canon key) = None" unfolding hmap_None [OF inv] using here match by blast
    with None fn show ?thesis by simp
  next
    case (Some i)
    then have i: "i \<in> set ?xs" "P (entry (nodes t ! i))" by (auto dest: find_Some_mem simp del: find.simps)
    then have "i \<in> occ t ch" by (rule in_occ)
    moreover from this i have "canon (node_key t i) = canon key" using match by blast
    ultimately have "hmap t (canon key) = Some (e_val (entry (nodes t ! i)))"
      using hmap_Some [OF inv] by blast
    with Some fn i \<open>i \<in> occ t ch\<close> \<open>canon (node_key t i) = canon key\<close> show ?thesis by auto
  qed
qed

section \<open>Insertion\<close>

text \<open>What the operations on the hash part leave alone.\<close>

definition hash_frame :: "VarTable \<Rightarrow> VarTable \<Rightarrow> bool" where
  "hash_frame t t' \<longleftrightarrow> t' = t\<lparr>tbl_count := tbl_count t', bucket_count := bucket_count t', nodes := nodes t',
     active_list := active_list t', quick_data := quick_data t', free_list_idx := free_list_idx t'\<rparr>"

lemma hash_frame_refl [simp]: "hash_frame t t"
  by (simp add: hash_frame_def)

lemma hash_frame_trans: "hash_frame t t' \<Longrightarrow> hash_frame t' t'' \<Longrightarrow> hash_frame t t''"
  unfolding hash_frame_def by (cases t; cases t'; cases t'') simp

lemma hash_frame_fields:
  assumes "hash_frame t t'"
  shows "arr t' = arr t" "arr_size t' = arr_size t" "arr_cap t' = arr_cap t" "spec t' = spec t"
    "spec_get t' = spec_get t" "spec_set t' = spec_set t" "spec_keys t' = spec_keys t"
    "spec_vals t' = spec_vals t" "spec_count t' = spec_count t" "seq_len t' = seq_len t"
    "seq_len_valid t' = seq_len_valid t"
  by (subst assms [unfolded hash_frame_def], simp)+

lemma hmap_eqI:
  assumes "\<And>k v. hmap t k = Some v \<longleftrightarrow> m k = Some v"
  shows "hmap t = m"
  using assms by (metis ext not_Some_eq)

text \<open>Overwriting the value of an occupied node.\<close>

lemma update_value:
  assumes inv: "hash_inv t ch fl" and i: "i \<in> occ t ch" and v: "v \<noteq> VNil"
  defines "t' \<equiv> t\<lparr>nodes := (nodes t)[i := (nodes t ! i)\<lparr>entry := (entry (nodes t ! i))\<lparr>e_val := v\<rparr>\<rparr>]\<rparr>"
  shows "hash_inv t' ch fl" "hmap t' = (hmap t)(canon (node_key t i) \<mapsto> v)"
proof -
  have sh: "shape_ok t ch fl" using inv by (simp add: hash_inv_def)
  have il: "i < length (nodes t)" using occ_range [OF sh i] sh by (simp add: shape_ok_def)
  have n: "nodes t' ! j = (if j = i then (nodes t ! i)\<lparr>entry := (entry (nodes t ! i))\<lparr>e_val := v\<rparr>\<rparr> else nodes t ! j)" for j
    using il by (simp add: t'_def nth_list_update)
  have key: "node_key t' j = node_key t j" for j by (simp add: node_key_def n)
  have oc: "occ t' ch = occ t ch" by (simp add: occ_def key) (simp add: t'_def)
  have lk: "linked (nodes t') j xs = linked (nodes t) j xs" for j xs
    by (rule linked_cong) (simp_all add: n, simp add: t'_def)
  have f: "bucket_count t' = bucket_count t" "total_nodes t' = total_nodes t" "free_list_idx t' = free_list_idx t"
    "active_list t' = active_list t" "tbl_count t' = tbl_count t" "length (nodes t') = length (nodes t)"
    "bucket_of t' h = bucket_of t h" for h
    by (simp_all add: t'_def total_nodes_def bucket_of_def)
  have e: "active_pos (nodes t' ! j) = active_pos (nodes t ! j)" "e_hash (entry (nodes t' ! j)) = e_hash (entry (nodes t ! j))"
    "entry_ok (entry (nodes t ! j)) \<Longrightarrow> entry_ok (entry (nodes t' ! j))" for j
    using v by (auto simp: n entry_ok_def)
  have "shape_ok t' ch fl" using sh by (simp only: shape_ok_def f)
  moreover have "chains_ok t' ch fl" using inv unfolding hash_inv_def chains_ok_def f lk key by blast
  moreover have "nodes_ok t' ch" using inv e(3) unfolding hash_inv_def nodes_ok_def f oc e(2) by blast
  moreover have "active_ok t' ch" using inv unfolding hash_inv_def active_ok_def f oc e(1) by blast
  ultimately have inv': "hash_inv t' ch fl" using inv by (simp add: hash_inv_def key oc)
  then show "hash_inv t' ch fl" .
  have inj: "inj_on (\<lambda>i. canon (node_key t i)) (occ t ch)" using inv by (simp add: hash_inv_def)
  show "hmap t' = (hmap t)(canon (node_key t i) \<mapsto> v)"
  proof (rule hmap_eqI)
    fix k w
    show "hmap t' k = Some w \<longleftrightarrow> ((hmap t)(canon (node_key t i) \<mapsto> v)) k = Some w"
    proof (cases "k = canon (node_key t i)")
      case True
      then have "hmap t' k = Some w \<longleftrightarrow> w = v"
        unfolding hmap_Some [OF inv'] oc key n using i inj by (auto simp: inj_on_def)
      with True show ?thesis by auto
    next
      case False
      then show ?thesis
        using hmap_Some [OF inv', of k w] hmap_Some [OF inv, of k w] unfolding oc key n by auto
    qed
  qed
qed

text \<open>A key that is absent, put into its empty bucket.\<close>

lemma insert_main:
  assumes inv: "hash_inv t ch fl" and b: "b = bucket_of t h" and empty: "node_key t b = VNil"
    and e: "entry_ok e" "e_hash e = h" and absent: "hmap t (canon (e_key e)) = None"
    and room: "tbl_count t < total_nodes t"
  defines "t' \<equiv> t\<lparr>nodes := (nodes t)[b := \<lparr>entry = e, nxt = INVALID_INDEX, active_pos = tbl_count t\<rparr>],
      active_list := (active_list t)[tbl_count t := b], tbl_count := tbl_count t + 1\<rparr>"
  shows "hash_inv t' ch fl" "live_entries t' = live_entries t @ [e]"
proof -
  let ?n = "\<lparr>entry = e, nxt = INVALID_INDEX, active_pos = tbl_count t\<rparr>"
  have sh: "shape_ok t ch fl" and ck: "chains_ok t ch fl" and ac: "active_ok t ch" using inv by (auto simp: hash_inv_def)
  have bl: "b < bucket_count t" unfolding b by (rule bucket_of_less [OF sh])
  have len: "length (nodes t) = total_nodes t" "length (active_list t) = total_nodes t" using sh by (auto simp: shape_ok_def)
  have f: "bucket_count t' = bucket_count t" "total_nodes t' = total_nodes t" "free_list_idx t' = free_list_idx t"
    "length (nodes t') = length (nodes t)" "length (active_list t') = length (active_list t)"
    "bucket_of t' x = bucket_of t x" for x
    by (simp_all add: t'_def total_nodes_def bucket_of_def)
  have n: "nodes t' ! j = (if j = b then ?n else nodes t ! j)" for j
    using bl len by (simp add: t'_def nth_list_update total_nodes_def)
  have knil: "e_key e \<noteq> VNil" using e by (auto simp: entry_ok_def)
  have key: "node_key t' j = (if j = b then e_key e else node_key t j)" for j by (simp add: node_key_def n)
  have cb: "ch ! b = []" using ck bl empty by (simp add: chains_ok_def)
  have bo: "b \<notin> set (concat ch)" by (rule main_not_overflow [OF sh bl])
  have oc: "occ t' ch = insert b (occ t ch)" using bl knil by (auto simp: occ_def key f)
  have bocc: "b \<notin> occ t ch" using empty bo by (auto simp: occ_def)
  have bfl: "b \<notin> set fl" by (rule main_not_free [OF sh bl])
  have "shape_ok t' ch fl" using sh by (simp only: shape_ok_def f)
  moreover have "chains_ok t' ch fl"
  proof -
    have "linked (nodes t') i (i # ch ! i)" if i: "i < bucket_count t" for i
    proof (cases "i = b")
      case True
      then show ?thesis using cb n [of b] bl len shape_okD(2) [OF sh] f by (simp add: total_nodes_def)
    next
      case False
      have "b \<notin> set (i # ch ! i)" using False in_chain_range(1) [OF sh i, of b] bl by auto
      then show ?thesis using ck i by (simp add: t'_def chains_ok_def del: linked.simps)
    qed
    moreover have "linked (nodes t') (free_list_idx t') fl" using ck bfl by (simp add: t'_def chains_ok_def)
    ultimately show ?thesis using ck knil by (simp add: chains_ok_def key f)
  qed
  moreover have "nodes_ok t' ch"
  proof -
    have "entry_ok (entry (nodes t' ! i)) \<and> bucket_of t (e_hash (entry (nodes t' ! i))) = c"
      if c: "c < bucket_count t" "i \<in> set (c # ch ! c)" "i \<in> occ t' ch" for c i
    proof (cases "i = b")
      case True
      then have "c = b" using c in_chain_range(1) [OF sh c(1), of b] bl by auto
      then show ?thesis using True e b by (simp add: n)
    next
      case False
      then show ?thesis using nodes_okD [OF inv c(1,2)] c(3) by (simp add: oc n)
    qed
    then show ?thesis by (simp add: nodes_ok_def f)
  qed
  moreover have take: "take (tbl_count t') (active_list t') = take (tbl_count t) (active_list t) @ [b]"
    using room len by (simp add: t'_def take_Suc_conv_app_nth)
  have "active_ok t' ch"
  proof -
    have "b \<noteq> active_list t ! p" if "p < tbl_count t" for p
      using active_mem [OF ac that] bocc by auto
    moreover have "active_list t' ! p = (if p = tbl_count t then b else active_list t ! p)" for p
      using room len by (simp add: t'_def nth_list_update)
    moreover have c: "tbl_count t' = Suc (tbl_count t)" by (simp add: t'_def)
    ultimately have "active_pos (nodes t' ! (active_list t' ! p)) = p" if "p < tbl_count t'" for p
      using that ac by (auto simp: active_ok_def n less_Suc_eq)
    then show ?thesis using ac bocc room len by (auto simp: active_ok_def take oc f) (simp add: c)
  qed
  moreover have "inj_on (\<lambda>i. canon (node_key t' i)) (occ t' ch)"
    using inv absent bocc unfolding oc hmap_None [OF inv]
    by (auto simp: hash_inv_def inj_on_def key)
  ultimately show inv': "hash_inv t' ch fl" by (simp add: hash_inv_def)
  then have sa: "shape_ok t' ch fl" "active_ok t' ch" by (auto simp: hash_inv_def)
  have "set (take (tbl_count t) (active_list t)) = occ t ch" using ac by (simp add: active_ok_def)
  then show "live_entries t' = live_entries t @ [e]"
    using bocc unfolding live_eq [OF sa] live_eq [OF sh ac] take by (auto simp: n)
qed

text \<open>A key that is absent from a non-empty bucket, put into the first free overflow node.\<close>

lemma insert_overflow:
  assumes inv: "hash_inv t ch (new # fl)" and b: "b = bucket_of t h" and main: "node_key t b \<noteq> VNil"
    and e: "entry_ok e" "e_hash e = h" and absent: "hmap t (canon (e_key e)) = None"
    and room: "tbl_count t < total_nodes t"
  defines "ns \<equiv> (nodes t)[new := \<lparr>entry = e, nxt = nxt (nodes t ! b), active_pos = tbl_count t\<rparr>]"
  defines "t' \<equiv> t\<lparr>free_list_idx := nxt (nodes t ! new), nodes := ns[b := (ns ! b)\<lparr>nxt := new\<rparr>],
      active_list := (active_list t)[tbl_count t := new], tbl_count := tbl_count t + 1\<rparr>"
  shows "hash_inv t' (ch[b := new # ch ! b]) fl" "live_entries t' = live_entries t @ [e]"
proof -
  let ?n = "\<lparr>entry = e, nxt = nxt (nodes t ! b), active_pos = tbl_count t\<rparr>"
  let ?ch = "ch[b := new # ch ! b]"
  have sh: "shape_ok t ch (new # fl)" and ck: "chains_ok t ch (new # fl)" and ac: "active_ok t ch"
    using inv by (auto simp: hash_inv_def)
  have bl: "b < bucket_count t" unfolding b by (rule bucket_of_less [OF sh])
  have bch: "b < length ch" using bl shape_okD(3) [OF sh] by simp
  have new: "bucket_count t \<le> new" "new < total_nodes t" "new \<notin> set (concat ch)"
    using free_range [OF sh, of new] by simp_all
  then have nb: "new \<noteq> b" using bl by simp
  have len: "length (nodes t) = total_nodes t" "length (active_list t) = total_nodes t" using sh by (auto simp: shape_ok_def)
  have f: "bucket_count t' = bucket_count t" "total_nodes t' = total_nodes t"
    "length (nodes t') = length (nodes t)" "length (active_list t') = length (active_list t)"
    "bucket_of t' x = bucket_of t x" for x
    by (simp_all add: t'_def ns_def total_nodes_def bucket_of_def)
  have n: "nodes t' ! j = (if j = b then (nodes t ! b)\<lparr>nxt := new\<rparr> else if j = new then ?n else nodes t ! j)" for j
    using bl len new nb by (simp add: t'_def ns_def nth_list_update total_nodes_def)
  have knil: "e_key e \<noteq> VNil" using e by (auto simp: entry_ok_def)
  have key: "node_key t' j = (if j = new then e_key e else node_key t j)" for j
    using nb by (simp add: node_key_def n)
  have sc: "set (concat ?ch) = insert new (set (concat ch))"
  proof -
    have "mset (concat ?ch) + mset (ch ! b) = mset (concat ch) + mset (new # ch ! b)"
      by (rule mset_concat_update [OF bch])
    then have "mset (concat ?ch) = add_mset new (mset (concat ch))" by simp
    then show ?thesis using set_mset_mset [of "concat ?ch"] by simp
  qed
  have oc: "occ t' ?ch = insert new (occ t ch)" using new by (auto simp: occ_def key f sc)
  have nocc: "new \<notin> occ t ch" using new by (auto simp: occ_def)
  have other: "new \<notin> set (c # ch ! c) \<and> (c \<noteq> b \<longrightarrow> b \<notin> set (c # ch ! c))" if c: "c < bucket_count t" for c
    using in_chain_range(3) [OF sh c, of new] in_chain_range(1) [OF sh c, of b] new bl c by auto
  have "shape_ok t' ?ch fl"
  proof -
    have "mset (concat ?ch @ fl) = mset (concat ch @ new # fl)"
      using mset_concat_update [OF bch, of "new # ch ! b"] by simp
    then show ?thesis using sh by (simp add: shape_ok_def f)
  qed
  moreover have "chains_ok t' ?ch fl"
  proof -
    have old: "linked (nodes t) b (b # ch ! b)" "linked (nodes t) (free_list_idx t) (new # fl)"
      using ck bl by (auto simp: chains_ok_def)
    have bfree: "b \<notin> set (new # fl)" by (rule main_not_free [OF sh bl])
    have "new \<notin> set fl" using shape_ok_overflow(1) [OF sh] by simp
    have tail: "linked (nodes t') i xs = linked (nodes t) i xs" if "b \<notin> set xs" "new \<notin> set xs" for i xs
      using that by (simp add: t'_def ns_def)
    have "linked (nodes t') i (i # ?ch ! i)" if i: "i < bucket_count t" for i
    proof (cases "i = b")
      case True
      have "b \<notin> set (ch ! b)" "new \<notin> set (ch ! b)"
        using other [OF bl] in_chain_range(1) [OF sh bl, of b] bl by auto
      from tail [OF this] show ?thesis
        using True old bch bl len new shape_okD(2) [OF sh] nb
        by (simp add: n f total_nodes_def)
    next
      case False
      then have "b \<notin> set (i # ch ! i)" "new \<notin> set (i # ch ! i)" using other [OF i] by auto
      from tail [OF this] show ?thesis using ck i False by (simp add: chains_ok_def del: linked.simps)
    qed
    moreover have "linked (nodes t') (free_list_idx t') fl"
      using old(2) tail [of fl] bfree \<open>new \<notin> set fl\<close> by (simp add: t'_def)
    ultimately show ?thesis using ck main knil nb bch by (auto simp: chains_ok_def key f nth_list_update)
  qed
  moreover have "nodes_ok t' ?ch"
  proof -
    have "entry_ok (entry (nodes t' ! i)) \<and> bucket_of t (e_hash (entry (nodes t' ! i))) = c"
      if c: "c < bucket_count t" "i \<in> set (c # ?ch ! c)" "i \<in> occ t' ?ch" for c i
    proof (cases "i = new")
      case True
      then have "c = b" using c other [OF c(1)] bch by (auto simp: nth_list_update split: if_splits)
      then show ?thesis using True e b nb by (simp add: n)
    next
      case False
      then have "i \<in> set (c # ch ! c)" "i \<in> occ t ch" using c bch by (auto simp: nth_list_update oc split: if_splits)
      then have "entry_ok (entry (nodes t ! i)) \<and> bucket_of t (e_hash (entry (nodes t ! i))) = c"
        by (rule nodes_okD [OF inv c(1)])
      then show ?thesis using False by (auto simp: n)
    qed
    then show ?thesis by (simp add: nodes_ok_def f)
  qed
  moreover have take: "take (tbl_count t') (active_list t') = take (tbl_count t) (active_list t) @ [new]"
    using room len by (simp add: t'_def take_Suc_conv_app_nth)
  have "active_ok t' ?ch"
  proof -
    have "new \<noteq> active_list t ! p" if "p < tbl_count t" for p
      using active_mem [OF ac that] nocc by auto
    moreover have "active_list t' ! p = (if p = tbl_count t then new else active_list t ! p)" for p
      using room len by (simp add: t'_def nth_list_update)
    moreover have c: "tbl_count t' = Suc (tbl_count t)" by (simp add: t'_def)
    ultimately have "active_pos (nodes t' ! (active_list t' ! p)) = p" if "p < tbl_count t'" for p
      using that ac nb by (auto simp: active_ok_def n less_Suc_eq)
    then show ?thesis using ac nocc room len by (auto simp: active_ok_def take oc f) (simp add: c)
  qed
  moreover have "inj_on (\<lambda>i. canon (node_key t' i)) (occ t' ?ch)"
    using inv absent nocc unfolding oc hmap_None [OF inv]
    by (auto simp: hash_inv_def inj_on_def key)
  ultimately show inv': "hash_inv t' ?ch fl" by (simp add: hash_inv_def)
  then have sa: "shape_ok t' ?ch fl" "active_ok t' ?ch" by (auto simp: hash_inv_def)
  have "set (take (tbl_count t) (active_list t)) = occ t ch" using ac by (simp add: active_ok_def)
  then show "live_entries t' = live_entries t @ [e]"
    using nocc nb unfolding live_eq [OF sa] live_eq [OF sh ac] take by (auto simp: n)
qed

lemma hmap_snoc:
  assumes "hash_inv t ch fl" "hash_inv t' ch' fl'" "live_entries t' = live_entries t @ [e]"
  shows "hmap t' = (hmap t)(canon (e_key e) \<mapsto> e_val e)"
  using entries_map_snoc [of "live_entries t" e] distinct_live [OF assms(2)] assms(3) by (simp add: hmap_def)

lemma key_is_iff:
  assumes "key_ok key"
  shows "entry_ok e \<Longrightarrow> key_is (VarKeyHash key) key e \<longleftrightarrow> canon (e_key e) = canon key"
    "e_key e = VNil \<Longrightarrow> \<not> key_is h key e"
  using assms key_is_canon by (auto simp: key_is_def)

lemma TableInsertRaw_ok:
  assumes inv: "hash_inv t ch fl" and k: "key_ok key" and v: "v \<noteq> VNil" and room: "tbl_count t < total_nodes t"
  shows "\<exists>ok t'. TableInsertRaw t key v (VarKeyHash key) = (Inr ok, t') \<and> hash_frame t t' \<and>
    bucket_count t' = bucket_count t \<and> quick_data t' = quick_data t \<and>
    (if ok then (\<exists>ch' fl'. hash_inv t' ch' fl') \<and> hmap t' = (hmap t)(canon key \<mapsto> v) \<and>
        tbl_count t' = tbl_count t + (if hmap t (canon key) = None then 1 else 0) \<and>
        (hmap t (canon key) = None \<longrightarrow> live_entries t' = live_entries t @ [\<lparr>e_key = key, e_val = v, e_hash = VarKeyHash key\<rparr>])
     else t' = t \<and> fl = [] \<and> hmap t (canon key) = None \<and> node_key t (bucket_of t (VarKeyHash key)) \<noteq> VNil)"
proof -
  let ?h = "VarKeyHash key" let ?e = "\<lparr>e_key = key, e_val = v, e_hash = VarKeyHash key\<rparr>"
  let ?b = "bucket_of t (VarKeyHash key)"
  have sh: "shape_ok t ch fl" and ck: "chains_ok t ch fl" using inv by (auto simp: hash_inv_def)
  have bl: "?b < bucket_count t" by (rule bucket_of_less [OF sh])
  have e: "entry_ok ?e" "e_hash ?e = ?h" using k v by (auto simp: entry_ok_def)
  note look = find_node_bucket [where P = "key_is ?h key" and key = key, OF inv refl key_is_iff [OF k]]
  show ?thesis
  proof (cases "node_key t ?b = VNil")
    case True
    have nb: "?b \<notin> occ t ch" "ch ! ?b = []"
      using True main_not_overflow [OF sh bl] ck bl by (auto simp: occ_def chains_ok_def)
    then have absent: "hmap t (canon key) = None" using look by auto
    then have absent': "hmap t (canon (e_key ?e)) = None" by simp
    note ins = insert_main [OF inv refl True e absent' room]
    show ?thesis using True absent ins hmap_snoc [OF inv ins(1) ins(2)]
      by (intro exI [of _ True]) (auto simp: TableInsertRaw_def Let_def node_key_def hash_frame_def)
  next
    case main: False
    from look consider (miss) "find_node (length (nodes t)) (nodes t) (key_is ?h key) ?b = Missing" "hmap t (canon key) = None"
      | (found) i where "find_node (length (nodes t)) (nodes t) (key_is ?h key) ?b = Found i" "i \<in> occ t ch"
          "canon (node_key t i) = canon key" "hmap t (canon key) \<noteq> None" by auto
    then show ?thesis
    proof cases
      case found
      show ?thesis using main found update_value [OF inv found(2) v]
        by (intro exI [of _ True]) (auto simp: TableInsertRaw_def Let_def node_key_def hash_frame_def)
    next
      case miss
      show ?thesis
      proof (cases fl)
        case Nil
        then have "free_list_idx t = INVALID_INDEX" using free_iff [OF ck] by simp
        then show ?thesis using main miss Nil
          by (intro exI [of _ False] exI [of _ t]) (simp add: TableInsertRaw_def Let_def node_key_def)
      next
        case (Cons new fl')
        have fr: "free_list_idx t = new" "new \<noteq> INVALID_INDEX" using ck Cons by (auto simp: chains_ok_def)
        from miss(2) have absent': "hmap t (canon (e_key ?e)) = None" by simp
        note ins = insert_overflow [OF inv [unfolded Cons] refl main e absent' room]
        show ?thesis using main miss fr ins hmap_snoc [OF inv ins(1) ins(2)]
          by (intro exI [of _ True]) (auto simp: TableInsertRaw_def Let_def node_key_def hash_frame_def)
      qed
    qed
  qed
qed

end
