(* ===== verification/Rehash.thy ===== *)
theory Rehash
imports HashInv
begin

text \<open>
  Growing the bucket array: the power-of-two bit trick, the fresh node array, and re-insertion of
  every entry. With at most half as many keys as new buckets the overflow nodes cannot run out, so
  the first attempt of the retry loop succeeds and the map is unchanged.
\<close>

section \<open>Rehash\<close>

subsection \<open>The power of two\<close>

lemma smear_step:
  assumes "\<And>i. bit v i = (\<exists>j < k. bit x (i + j))"
  shows "bit (v OR drop_bit k v) i = (\<exists>j < 2 * k. bit (x :: uint32) (i + j))"
proof -
  have "(\<exists>j < 2 * k. bit x (i + j)) \<longleftrightarrow> (\<exists>j < k. bit x (i + j)) \<or> (\<exists>j < k. bit x (i + k + j))" (is "?l \<longleftrightarrow> ?r")
  proof
    assume ?l
    then obtain j where j: "j < 2 * k" "bit x (i + j)" by blast
    show ?r
    proof (cases "j < k")
      case False
      with j have "j - k < k \<and> bit x (i + k + (j - k))" by simp
      then show ?thesis by blast
    qed (use j in blast)
  next
    assume ?r
    then show ?l
    proof
      assume "\<exists>j < k. bit x (i + j)"
      then obtain j where "j < k" "bit x (i + j)" by blast
      then show ?l by (intro exI [of _ j]) simp
    next
      assume "\<exists>j < k. bit x (i + k + j)"
      then obtain j where "j < k" "bit x (i + k + j)" by blast
      then show ?l by (intro exI [of _ "k + j"]) (simp add: add.assoc)
    qed
  qed
  then show ?thesis by (simp add: bit_or_iff bit_drop_bit_eq assms add.commute add.left_commute)
qed

lemma bits_above: "(\<exists>j. bit (x :: uint32) (i + j)) \<longleftrightarrow> 2 ^ i \<le> unat x"
proof -
  have b: "bit (drop_bit i x) j = bit x (i + j)" for j by (simp add: bit_drop_bit_eq)
  have "(\<exists>j. bit x (i + j)) \<longleftrightarrow> drop_bit i x \<noteq> 0"
  proof
    assume "\<exists>j. bit x (i + j)"
    then obtain j where "bit (drop_bit i x) j" unfolding b by blast
    then show "drop_bit i x \<noteq> 0" by auto
  next
    assume ne: "drop_bit i x \<noteq> 0"
    show "\<exists>j. bit x (i + j)"
    proof (rule ccontr)
      assume "\<not> (\<exists>j. bit x (i + j))"
      then have "drop_bit i x = 0" unfolding b [symmetric] by (intro bit_eqI) simp
      with ne show False ..
    qed
  qed
  also have "\<dots> \<longleftrightarrow> unat (drop_bit i x) \<noteq> 0" by (simp only: unat_eq_zero)
  also have "unat (drop_bit i x) = unat x div 2 ^ i" 
  proof -
    have "take_bit 32 (unat x) = unat x" using unat_lt_pow [of x] by (simp add: take_bit_nat_eq_self)
    then show ?thesis by (simp add: unsigned_drop_bit_eq flip: drop_bit_eq_div)
  qed
  finally show ?thesis by (simp add: div_eq_0_iff not_less)
qed

lemma floorlog_less: "i < floorlog 2 n \<longleftrightarrow> 2 ^ i \<le> n"
proof (cases "n = 0")
  case False
  then have b: "2 ^ (floorlog 2 n - 1) \<le> n" "n < 2 ^ floorlog 2 n" using floorlog_bounds [of n 2] by auto
  show ?thesis
  proof
    assume "i < floorlog 2 n"
    then have "(2::nat) ^ i \<le> 2 ^ (floorlog 2 n - 1)" by (intro power_increasing) auto
    with b(1) show "2 ^ i \<le> n" by (rule order_trans [rotated])
  next
    assume "2 ^ i \<le> n"
    from this b(2) have "(2::nat) ^ i < 2 ^ floorlog 2 n" by (rule order_le_less_trans)
    then show "i < floorlog 2 n" by (rule power_less_imp_less_exp [rotated]) simp
  qed
qed (simp add: floorlog_def)

lemma NextPowerOfTwo_floorlog:
  assumes "v \<noteq> 0" "unat v \<le> 2 ^ 31"
  shows "unat (NextPowerOfTwo v) = 2 ^ floorlog 2 (unat v - 1)"
proof -
  define x where "x = v - 1"
  have ux: "unat x = unat v - 1" using assms(1) unfolding x_def by (simp add: unat_minus_one)
  define m where "m = floorlog 2 (unat x)"
  define v1 where "v1 = x OR drop_bit 1 x"
  define v2 where "v2 = v1 OR drop_bit 2 v1"
  define v3 where "v3 = v2 OR drop_bit 4 v2"
  define v4 where "v4 = v3 OR drop_bit 8 v3"
  define v5 where "v5 = v4 OR drop_bit 16 v4"
  have s0: "bit x i = (\<exists>j < 1. bit x (i + j))" for i by simp
  have s1: "bit v1 i = (\<exists>j < 2. bit x (i + j))" for i using smear_step [OF s0, of i, folded v1_def] by simp
  have s2: "bit v2 i = (\<exists>j < 4. bit x (i + j))" for i using smear_step [OF s1, of i, folded v2_def] by simp
  have s3: "bit v3 i = (\<exists>j < 8. bit x (i + j))" for i using smear_step [OF s2, of i, folded v3_def] by simp
  have s4: "bit v4 i = (\<exists>j < 16. bit x (i + j))" for i using smear_step [OF s3, of i, folded v4_def] by simp
  have s5: "bit v5 i = (\<exists>j < 32. bit x (i + j))" for i using smear_step [OF s4, of i, folded v5_def] by simp
  have all: "bit v5 i \<longleftrightarrow> (\<exists>j. bit x (i + j))" for i
  proof -
    have "j < 32" if "bit x (i + j)" for j using bit_imp_le_length [OF that] by simp
    then show ?thesis unfolding s5 by blast
  qed
  have "unat v \<noteq> 0" using assms(1) by (metis unat_eq_zero)
  then have "unat x < 2 ^ 31" using ux assms(2) by linarith
  then have m: "m < 32" using floorlog_less [of 31 "unat x"] by (simp add: m_def)
  have "v5 = mask m"
    by (rule bit_eqI) (simp add: all bits_above bit_mask_iff m_def floorlog_less)
  moreover have "NextPowerOfTwo v = v5 + 1"
    by (simp only: NextPowerOfTwo_def Let_def v5_def v4_def v3_def v2_def v1_def x_def)
  ultimately have "NextPowerOfTwo v = mask m + 1" by simp
  also have "\<dots> = 2 ^ m" by (simp add: mask_eq_exp_minus_1)
  also have "\<dots> = word_of_nat (2 ^ m)" by simp
  finally have "unat (NextPowerOfTwo v) = 2 ^ m mod 2 ^ 32" by (simp only: unat_of_nat) simp
  moreover have "(2::nat) ^ m < 2 ^ 32" using m by (intro power_strict_increasing) simp_all
  ultimately show ?thesis by (simp add: m_def ux)
qed

lemma NextPowerOfTwo_nat:
  assumes "1 \<le> n" "n \<le> 2 ^ 31"
  shows "unat (NextPowerOfTwo (word_of_nat n)) = 2 ^ floorlog 2 (n - 1)"
proof -
  have u: "unat (word_of_nat n :: uint32) = n" using assms(2) by (simp add: unat_of_nat)
  then have "word_of_nat n \<noteq> (0 :: uint32)" using assms(1) by (metis not_one_le_zero unat_0)
  from NextPowerOfTwo_floorlog [OF this] show ?thesis using assms(2) by (simp add: u)
qed

lemma pow2_floorlog_bounds: "n < 2 ^ floorlog 2 n" "0 < n \<Longrightarrow> 2 ^ floorlog 2 n \<le> 2 * n"
  using floorlog_less [of "floorlog 2 n" n] floorlog_less [of "floorlog 2 n - 1" n]
  by (auto simp: not_less) (cases "floorlog 2 n"; simp)

subsection \<open>Re-inserting the entries\<close>

lemma rehash_quick_append:
  "rehash_quick (es @ es') t =
     tbind (rehash_quick es t) (\<lambda>ok t'. if ok then rehash_quick es' t' else (Inr False, t'))"
proof (induction es arbitrary: t)
  case (Cons e es)
  show ?case
  proof (cases "TableInsertRaw t (e_key e) (e_val e) (e_hash e)")
    case (Pair r t')
    then show ?thesis using Cons.IH by (cases r) auto
  qed
qed simp

lemma rehash_chain_linked:
  assumes "linked old i xs" "length xs < n"
  shows "rehash_chain n old i t =
    rehash_quick (filter (\<lambda>e. e_key e \<noteq> VNil) (map (\<lambda>i. entry (old ! i)) xs)) t"
  using assms
proof (induction xs arbitrary: i n t)
  case Nil
  then obtain m where "n = Suc m" by (cases n) auto
  with Nil show ?case by simp
next
  case (Cons x xs)
  then obtain m where m: "n = Suc m" "length xs < m" by (cases n) auto
  note ih = Cons.IH [OF _ m(2), of "nxt (old ! x)"]
  show ?case
  proof (cases "TableInsertRaw t (e_key (entry (old ! x))) (e_val (entry (old ! x))) (e_hash (entry (old ! x)))")
    case (Pair r t')
    then show ?thesis using Cons.prems ih m(1) by (cases r) auto
  qed
qed

text \<open>The entries of the buckets \<open>bs\<close>, in the order the rehash visits them.\<close>

definition visit :: "VarTable \<Rightarrow> nat list list \<Rightarrow> nat list \<Rightarrow> nat list" where
  "visit t ch bs = concat (map (\<lambda>b. (if node_key t b \<noteq> VNil then [b] else []) @ ch ! b) bs)"

lemma rehash_buckets_visit:
  assumes inv: "hash_inv t ch fl" and bs: "set bs \<subseteq> {..<bucket_count t}"
  shows "rehash_buckets (nodes t) bs t0 = rehash_quick (map (\<lambda>i. entry (nodes t ! i)) (visit t ch bs)) t0"
  using bs
proof (induction bs arbitrary: t0)
  case Nil
  then show ?case by (simp add: visit_def)
next
  case (Cons b bs)
  have sh: "shape_ok t ch fl" and ck: "chains_ok t ch fl" using inv by (auto simp: hash_inv_def)
  have bl: "b < bucket_count t" using Cons.prems by simp
  let ?es = "map (\<lambda>i. entry (nodes t ! i)) (visit t ch [b])"
  have lk: "linked (nodes t) b (b # ch ! b)" using ck bl by (simp add: chains_ok_def)
  have len: "length (b # ch ! b) < Suc (length (nodes t))" by (rule chain_length [OF sh bl])
  have nonnil: "e_key (entry (nodes t ! i)) \<noteq> VNil" if "i \<in> set (ch ! b)" for i
    using nodes_okD [OF inv bl, of i] that in_chain_range(3) [OF sh bl that] by (auto simp: occ_def entry_ok_def)
  have "filter (\<lambda>e. e_key e \<noteq> VNil) (map (\<lambda>i. entry (nodes t ! i)) (b # ch ! b)) = ?es"
    using nonnil by (auto simp: visit_def node_key_def filter_map comp_def intro!: filter_True)
  with rehash_chain_linked [OF lk len] have chain: "rehash_chain (Suc (length (nodes t))) (nodes t) b t0 = rehash_quick ?es t0"
    by simp
  have split: "visit t ch (b # bs) = visit t ch [b] @ visit t ch bs" by (simp add: visit_def)
  have ih: "rehash_buckets (nodes t) bs t1 = rehash_quick (map (\<lambda>i. entry (nodes t ! i)) (visit t ch bs)) t1" for t1
    using Cons.IH Cons.prems by simp
  show ?case unfolding rehash_buckets.simps chain split map_append rehash_quick_append ih ..
qed

lemma mset_visit:
  "mset (visit t ch bs) = mset (filter (\<lambda>b. node_key t b \<noteq> VNil) bs) + mset (concat (map ((!) ch) bs))"
  by (induction bs) (auto simp: visit_def)

lemma visit_all:
  assumes "shape_ok t ch fl"
  shows "distinct (visit t ch [0..<bucket_count t])" "set (visit t ch [0..<bucket_count t]) = occ t ch"
proof -
  have ch: "map ((!) ch) [0..<bucket_count t] = ch" using shape_okD(3) [OF assms] by (metis map_nth)
  let ?ys = "filter (\<lambda>b. node_key t b \<noteq> VNil) [0..<bucket_count t] @ concat ch"
  have m: "mset (visit t ch [0..<bucket_count t]) = mset ?ys" by (simp add: mset_visit ch)
  have "distinct ?ys" using main_not_overflow [OF assms] shape_ok_overflow(3) [OF assms] by auto
  then show "distinct (visit t ch [0..<bucket_count t])" using mset_eq_imp_distinct_iff [OF m] by simp
  show "set (visit t ch [0..<bucket_count t]) = occ t ch"
    using mset_eq_setD [OF m] by (auto simp: occ_def)
qed

text \<open>Inserting fresh, distinct entries into a table that keeps half its buckets free never fails.\<close>

lemma rehash_quick_ok:
  assumes "hash_inv t ch fl" "entries_distinct (live_entries t @ es)" "\<forall>e \<in> set es. entry_ok e"
    "tbl_count t + length es \<le> bucket_count t div 2"
  shows "\<exists>t' ch' fl'. rehash_quick es t = (Inr True, t') \<and> hash_inv t' ch' fl' \<and> hash_frame t t' \<and>
    bucket_count t' = bucket_count t \<and> quick_data t' = quick_data t \<and>
    live_entries t' = live_entries t @ es \<and> tbl_count t' = tbl_count t + length es"
  using assms
proof (induction es arbitrary: t ch fl)
  case Nil
  then show ?case by auto
next
  case (Cons e es)
  note inv = Cons.prems(1)
  have sh: "shape_ok t ch fl" and ac: "active_ok t ch" using inv by (auto simp: hash_inv_def)
  have e: "entry_ok e" "key_ok (e_key e)" "e_val e \<noteq> VNil" "e_hash e = VarKeyHash (e_key e)"
    using Cons.prems(3) by (auto simp: entry_ok_def)
  have absent: "hmap t (canon (e_key e)) = None"
    using Cons.prems(2)
    by (fastforce simp: hmap_def entries_map_None entries_distinct_def image_iff)
  have room: "tbl_count t < total_nodes t" "tbl_count t \<le> bucket_count t div 2"
    using Cons.prems(4) shape_okD(1) [OF sh] by (auto simp: total_nodes_def)
  obtain ok t1 where ins: "TableInsertRaw t (e_key e) (e_val e) (e_hash e) = (Inr ok, t1)" "hash_frame t t1"
    "bucket_count t1 = bucket_count t" "quick_data t1 = quick_data t"
    "if ok then (\<exists>ch' fl'. hash_inv t1 ch' fl') \<and> hmap t1 = (hmap t)(canon (e_key e) \<mapsto> e_val e) \<and>
        tbl_count t1 = tbl_count t + (if hmap t (canon (e_key e)) = None then 1 else 0) \<and>
        (hmap t (canon (e_key e)) = None \<longrightarrow> live_entries t1 = live_entries t @ [\<lparr>e_key = e_key e, e_val = e_val e, e_hash = VarKeyHash (e_key e)\<rparr>])
     else t1 = t \<and> fl = [] \<and> hmap t (canon (e_key e)) = None \<and> node_key t (bucket_of t (VarKeyHash (e_key e))) \<noteq> VNil"
    using TableInsertRaw_ok [OF inv e(2,3) room(1)] unfolding e(4) by blast
  have ok: "ok"
  proof (rule ccontr)
    assume "\<not> ok"
    with ins(5) free_when_half [OF sh ac room(2) bucket_of_less [OF sh]] show False by auto
  qed
  have live: "live_entries t1 = live_entries t @ [e]" "tbl_count t1 = tbl_count t + 1"
    using ins(5) ok absent e(4) by auto
  obtain ch1 fl1 where inv1: "hash_inv t1 ch1 fl1" using ins(5) ok by auto
  obtain t' ch' fl' where r: "rehash_quick es t1 = (Inr True, t')" "hash_inv t' ch' fl'" "hash_frame t1 t'"
    "bucket_count t' = bucket_count t1" "quick_data t' = quick_data t1"
    "live_entries t' = live_entries t1 @ es" "tbl_count t' = tbl_count t1 + length es"
    using Cons.IH [OF inv1] Cons.prems(2-4) live ins(3) by auto
  show ?case
    using ins ok r live hash_frame_trans by (intro exI [of _ t'] exI [of _ ch'] exI [of _ fl']) auto
qed

subsection \<open>The fresh table\<close>

lemma init_free_list:
  assumes "nbc \<le> i" "i < nbc + nbc div 2" "nbc \<le> 8192"
  shows "linked (init_nodes nbc) i [i..<nbc + nbc div 2]"
  using assms
proof (induction "nbc + nbc div 2 - i" arbitrary: i)
  case (Suc n)
  have i: "[i..<nbc + nbc div 2] = i # [Suc i..<nbc + nbc div 2]" using Suc.prems by (simp add: upt_conv_Cons)
  have n: "nxt (init_nodes nbc ! i) = (if Suc i < nbc + nbc div 2 then Suc i else INVALID_INDEX)"
    using Suc.prems by (simp add: init_nodes_def Let_def)
  have l: "i < length (init_nodes nbc)" "i \<noteq> INVALID_INDEX"
    using Suc.prems by (auto simp: init_nodes_def Let_def INVALID_INDEX_def)
  show ?case
  proof (cases "Suc i < nbc + nbc div 2")
    case True
    then have "linked (init_nodes nbc) (Suc i) [Suc i..<nbc + nbc div 2]"
      using Suc by (intro Suc.hyps(1)) auto
    with True n l show ?thesis by (simp only: i linked.simps if_True simp_thms)
  next
    case False
    then have "[Suc i..<nbc + nbc div 2] = []" by simp
    with False n l show ?thesis by (simp only: i linked.simps if_False simp_thms)
  qed
qed simp

lemma init_table_ok:
  assumes "nbc = 2 ^ k" "nbc \<le> 8192"
  shows "hash_inv (init_table t nbc) (replicate nbc []) [nbc..<nbc + nbc div 2]"
    "live_entries (init_table t nbc) = []" "hash_frame t (init_table t nbc)"
    "bucket_count (init_table t nbc) = nbc" "tbl_count (init_table t nbc) = 0"
    "quick_data (init_table t nbc) = quick_data t"
proof -
  let ?t = "init_table t nbc"
  have len: "length (init_nodes nbc) = nbc + nbc div 2" by (simp add: init_nodes_def Let_def)
  have c: "concat (replicate nbc ([] :: nat list)) = []" by (induction nbc) auto
  have o: "occ ?t (replicate nbc []) = {}"
    by (auto simp: occ_def c init_table_def node_key_def init_nodes_def Let_def nil_entry_def)
  have "shape_ok ?t (replicate nbc []) [nbc..<nbc + nbc div 2]"
  proof -
    have "\<exists>k. nbc = 2 ^ k" using assms(1) by blast
    then show ?thesis using assms(2) by (simp add: shape_ok_def init_table_def total_nodes_def len c)
  qed
  moreover have "chains_ok ?t (replicate nbc []) [nbc..<nbc + nbc div 2]"
  proof -
    have "linked (init_nodes nbc) b [b]" if "b < nbc" for b
      using that assms(2) by (simp add: len) (simp add: init_nodes_def Let_def INVALID_INDEX_def)
    moreover have "linked (init_nodes nbc) (if 0 < nbc div 2 then nbc else INVALID_INDEX) [nbc..<nbc + nbc div 2]"
      using init_free_list [of nbc nbc] assms(2) by auto
    ultimately show ?thesis by (simp add: chains_ok_def init_table_def del: linked.simps)
  qed
  moreover have "nodes_ok ?t (replicate nbc [])" "active_ok ?t (replicate nbc [])"
    by (simp_all add: nodes_ok_def active_ok_def o) (simp_all add: init_table_def)
  ultimately show "hash_inv ?t (replicate nbc []) [nbc..<nbc + nbc div 2]" by (simp add: hash_inv_def o)
  show "live_entries ?t = []" "hash_frame t ?t" "bucket_count ?t = nbc" "tbl_count ?t = 0"
    "quick_data ?t = quick_data t"
    by (simp_all add: live_entries_def init_table_def hash_frame_def)
qed

subsection \<open>The rehash as a whole\<close>

text \<open>The small mode: up to eight entries in a row.\<close>

definition quick_inv :: "VarTable \<Rightarrow> bool" where
  "quick_inv t \<longleftrightarrow> bucket_count t = 0 \<and> tbl_count t \<le> QUICK_DATA_SIZE \<and>
     length (quick_data t) = QUICK_DATA_SIZE \<and> (\<forall>e \<in> set (live_entries t). entry_ok e) \<and>
     entries_distinct (live_entries t)"

definition bucket_inv :: "VarTable \<Rightarrow> bool" where
  "bucket_inv t \<longleftrightarrow> (\<exists>ch fl. hash_inv t ch fl) \<and> tbl_count t \<le> bucket_count t \<and>
     length (quick_data t) = QUICK_DATA_SIZE"

definition hash_ok :: "VarTable \<Rightarrow> bool" where
  "hash_ok t \<longleftrightarrow> (if bucket_count t = 0 then quick_inv t else bucket_inv t)"

lemma live_distinct: "hash_ok t \<Longrightarrow> entries_distinct (live_entries t)"
  using distinct_live by (auto simp: hash_ok_def quick_inv_def bucket_inv_def split: if_splits)

lemma live_entry_ok: "hash_ok t \<Longrightarrow> e \<in> set (live_entries t) \<Longrightarrow> entry_ok e"
  using set_live occ_entry_ok by (fastforce simp: hash_ok_def quick_inv_def bucket_inv_def split: if_splits)

lemma live_length: "hash_ok t \<Longrightarrow> length (live_entries t) = tbl_count t"
  by (auto simp: hash_ok_def quick_inv_def live_entries_def split: if_splits)

text \<open>An attempt with at least twice as many buckets as keys succeeds and keeps the map.\<close>

lemma rehash_into_ok:
  assumes ok: "hash_ok t" and nbc: "nbc = 2 ^ k" "nbc \<le> 8192" and room: "tbl_count t \<le> nbc div 2"
  shows "\<exists>t'. rehash_into t nbc = (Inr True, t') \<and> bucket_inv t' \<and> hash_frame t t' \<and>
    bucket_count t' = nbc \<and> tbl_count t' = tbl_count t \<and> hmap t' = hmap t"
proof -
  note init = init_table_ok [OF nbc, of t]
  obtain es where es: "rehash_into t nbc = rehash_quick es (init_table t nbc)"
    "entries_distinct es" "set es = set (live_entries t)" "length es = tbl_count t"
  proof (cases "bucket_count t = 0")
    case True
    then show ?thesis using ok live_length [OF ok]
      by (intro that [of "live_entries t"]) (auto simp: rehash_into_def live_entries_def hash_ok_def quick_inv_def)
  next
    case False
    then obtain ch fl where inv: "hash_inv t ch fl" using ok by (auto simp: hash_ok_def bucket_inv_def)
    then have sh: "shape_ok t ch fl" and ac: "active_ok t ch" and inj: "inj_on (\<lambda>i. canon (node_key t i)) (occ t ch)"
      by (auto simp: hash_inv_def)
    let ?v = "visit t ch [0..<bucket_count t]"
    let ?es = "map (\<lambda>i. entry (nodes t ! i)) ?v"
    note vis = visit_all [OF sh]
    have "rehash_into t nbc = rehash_quick ?es (init_table t nbc)"
      using False rehash_buckets_visit [OF inv, of "[0..<bucket_count t]"]
      by (simp add: rehash_into_def atLeast0LessThan)
    moreover have "entries_distinct ?es"
      using vis inj by (simp add: entries_distinct_def distinct_map comp_def node_key_def)
    moreover have s: "set ?es = set (live_entries t)" using vis(2) by (simp add: set_live [OF inv])
    moreover have "length ?es = tbl_count t"
    proof -
      have "length ?v = card (occ t ch)" using vis distinct_card by metis
      also have "\<dots> = length (take (tbl_count t) (active_list t))" using ac distinct_card by (metis active_ok_def)
      finally show ?thesis using ac by (simp add: active_ok_def)
    qed
    ultimately show ?thesis by (rule that)
  qed
  have "\<exists>t' ch' fl'. rehash_quick es (init_table t nbc) = (Inr True, t') \<and> hash_inv t' ch' fl' \<and>
    hash_frame (init_table t nbc) t' \<and> bucket_count t' = bucket_count (init_table t nbc) \<and>
    quick_data t' = quick_data (init_table t nbc) \<and>
    live_entries t' = live_entries (init_table t nbc) @ es \<and> tbl_count t' = tbl_count (init_table t nbc) + length es"
    using es live_entry_ok [OF ok] room by (intro rehash_quick_ok [OF init(1)]) (auto simp: init)
  then obtain t' ch' fl' where r: "rehash_quick es (init_table t nbc) = (Inr True, t')" "hash_inv t' ch' fl'"
    "hash_frame (init_table t nbc) t'" "bucket_count t' = nbc" "quick_data t' = quick_data t"
    "live_entries t' = es" "tbl_count t' = tbl_count t" by (auto simp: init es(4))
  have "hmap t' = hmap t"
    unfolding hmap_def using r(6) es live_distinct [OF ok] by (intro entries_map_set) auto
  moreover have "length (quick_data t) = QUICK_DATA_SIZE"
    using ok by (auto simp: hash_ok_def quick_inv_def bucket_inv_def split: if_splits)
  ultimately show ?thesis using r es(1) room init(3) hash_frame_trans
    by (intro exI [of _ t']) (auto simp: bucket_inv_def)
qed

subsection \<open>TableRehash\<close>

lemma rehash_loop_ok:
  assumes ok: "hash_ok t" and nbc: "nbc = 2 ^ k" "nbc \<le> 8192" and room: "tbl_count t \<le> nbc div 2"
  shows "\<exists>t'. rehash_loop (Suc n) t nbc = (Inr (), t') \<and> bucket_inv t' \<and> hash_frame t t' \<and>
    bucket_count t' = nbc \<and> tbl_count t' = tbl_count t \<and> hmap t' = hmap t"
proof -
  obtain t' where "rehash_into t nbc = (Inr True, t')" "bucket_inv t'" "hash_frame t t'"
    "bucket_count t' = nbc" "tbl_count t' = tbl_count t" "hmap t' = hmap t"
    using rehash_into_ok [OF ok nbc room] by blast
  moreover have "(nbc + nbc div 2) * sizeof_TableNode + (nbc + nbc div 2) * sizeof_uint32 \<le> BLOCK_SIZE"
    using nbc(2) by (simp add: sizeof_TableNode_def sizeof_uint32_def BLOCK_SIZE_def)
  ultimately show ?thesis by (simp add: table_alloc_def)
qed

lemma rehash_loop_too_big:
  assumes "13792 \<le> nbc"
  shows "\<exists>e. rehash_loop (Suc n) t nbc = (Inl e, t)"
proof -
  have "6896 \<le> nbc div 2" using assms by simp
  with assms show ?thesis by (simp add: table_alloc_def sizeof_TableNode_def sizeof_uint32_def BLOCK_SIZE_def Let_def)
qed

lemma floorlog_pow2: "floorlog 2 (2 ^ k) = k + 1"
proof -
  have "k < floorlog 2 (2 ^ k)" "\<not> k + 1 < floorlog 2 (2 ^ k)" by (simp_all only: floorlog_less) simp_all
  then show ?thesis by linarith
qed

text \<open>
  The rehash that precedes an insertion: from eight quick entries to sixteen buckets, otherwise to
  twice the buckets; from 8192 buckets the allocation is refused and nothing has changed.
\<close>

lemma rehash_start_quick: "bucket_count t = 0 \<Longrightarrow> tbl_count t = 8 \<Longrightarrow> rehash_start t 0 = 16"
  using NextPowerOfTwo_nat [of 9] floorlog_pow2 [of 3] by (simp add: rehash_start_def Let_def)

lemma rehash_start_buckets:
  assumes "bucket_count t = 2 ^ k" "tbl_count t \<le> bucket_count t" "bucket_count t \<le> 8192"
  shows "rehash_start t 0 = 2 * bucket_count t"
proof -
  have n: "unat (NextPowerOfTwo (word_of_nat (tbl_count t + 1))) = 2 ^ floorlog 2 (tbl_count t)"
    using NextPowerOfTwo_nat [of "tbl_count t + 1"] assms(2,3) by simp
  have "2 ^ floorlog 2 (tbl_count t) \<le> bucket_count t \<or> 2 ^ floorlog 2 (tbl_count t) = 2 * bucket_count t"
  proof (cases "tbl_count t = bucket_count t")
    case True
    then show ?thesis using assms(1) floorlog_pow2 [of k] by simp
  next
    case False
    then have "tbl_count t < 2 ^ k" using assms(1,2) by simp
    then have "\<not> k < floorlog 2 (tbl_count t)" by (simp add: floorlog_less)
    then have "(2::nat) ^ floorlog 2 (tbl_count t) \<le> 2 ^ k" by (intro power_increasing) simp_all
    then show ?thesis using assms(1) by simp
  qed
  then show ?thesis using n assms(1) by (auto simp: rehash_start_def Let_def)
qed

lemma TableRehash_ok:
  assumes ok: "hash_ok t" and full: "bucket_count t = 0 \<longrightarrow> tbl_count t = 8"
  shows "(\<exists>t'. TableRehash t = (Inr (), t') \<and> bucket_inv t' \<and> hash_frame t t' \<and>
      bucket_count t' = (if bucket_count t = 0 then 16 else 2 * bucket_count t) \<and>
      tbl_count t' = tbl_count t \<and> hmap t' = hmap t \<and> tbl_count t' \<le> bucket_count t' div 2) \<or>
    (\<exists>e. TableRehash t = (Inl e, t) \<and> bucket_count t = 8192)"
proof (cases "bucket_count t = 0")
  case True
  have "TableRehash t = rehash_loop (Suc 31) t 16"
    using rehash_start_quick [OF True full [rule_format, OF True]] by (simp add: TableRehash_def TableRehashTo_def numeral_eq_Suc)
  then show ?thesis using rehash_loop_ok [OF ok, of 16 4 31] full [rule_format, OF True] True by auto
next
  case False
  then obtain ch fl where inv: "hash_inv t ch fl" and c: "tbl_count t \<le> bucket_count t"
    using ok by (auto simp: hash_ok_def bucket_inv_def)
  then obtain k where k: "bucket_count t = 2 ^ k" "bucket_count t \<le> 8192" by (auto simp: hash_inv_def shape_ok_def)
  have r: "TableRehash t = rehash_loop (Suc 31) t (2 * bucket_count t)"
    using rehash_start_buckets [OF k(1) c k(2)] by (simp add: TableRehash_def TableRehashTo_def numeral_eq_Suc)
  show ?thesis
  proof (cases "bucket_count t = 8192")
    case True
    then show ?thesis using r rehash_loop_too_big [of "2 * bucket_count t" 31 t] by auto
  next
    case False
    have "(2::nat) ^ k < 2 ^ 13" using False k by simp
    then have "k < 13" by (rule power_less_imp_less_exp [rotated]) simp
    then have "(2::nat) ^ (k + 1) \<le> 2 ^ 13" by (intro power_increasing) simp_all
    then have "2 * bucket_count t = 2 ^ (k + 1)" "2 * bucket_count t \<le> 8192" using k by simp_all
    then show ?thesis using r rehash_loop_ok [OF ok, of "2 * bucket_count t" "k + 1" 31] c \<open>bucket_count t \<noteq> 0\<close> by auto
  qed
qed

end
