(* ===== verification/HashDelete.thy ===== *)
theory HashDelete
imports Rehash
begin

text \<open>
  Deletion from the hash part: swap-removal from the active list, promotion of the first overflow
  node when the main node goes, unlinking from the middle of a chain, and the return of the node to
  the free list. The map loses exactly the deleted key.
\<close>

section \<open>Swap-removal from the active list\<close>

lemma swap_remove:
  assumes d: "distinct xs" and p: "p < length xs"
  shows "distinct (butlast (xs[p := last xs]))" "set (butlast (xs[p := last xs])) = set xs - {xs ! p}"
proof -
  have ne: "xs \<noteq> []" using p by auto
  obtain ys z where xs: "xs = ys @ [z]" using ne by (metis append_butlast_last_id)
  have "butlast (xs[p := last xs]) = (if p < length ys then ys[p := z] else ys)"
    using p by (auto simp: xs list_update_append butlast_append)
  moreover have "distinct (ys[p := z]) \<and> set (ys[p := z]) = set xs - {xs ! p}" if "p < length ys"
  proof -
    have z: "z \<notin> set ys" "distinct ys" using d by (auto simp: xs)
    then have "distinct (ys[p := z])" by (simp add: distinct_list_update)
    moreover have "set (ys[p := z]) = insert z (set ys - {ys ! p})"
      using z that by (simp add: set_update_distinct)
    ultimately show ?thesis using z that by (auto simp: xs nth_append)
  qed
  moreover have "xs ! p = z" if "\<not> p < length ys" using that p by (simp add: xs nth_append)
  ultimately show "distinct (butlast (xs[p := last xs]))" "set (butlast (xs[p := last xs])) = set xs - {xs ! p}"
    using d by (auto simp: xs)
qed

text \<open>
  \<open>unlink_from_active\<close> on the node \<open>x\<close> at its position: the rest of the active list is intact,
  and only \<open>active_pos\<close> fields have changed.
\<close>

lemma unlink_ok:
  assumes ac: "active_ok t ch" and x: "x \<in> occ t ch" and range: "\<forall>i \<in> occ t ch. i < length (nodes t)"
  defines "t1 \<equiv> unlink_from_active t x (active_pos (nodes t ! x))"
  shows "distinct (take (tbl_count t - 1) (active_list t1))"
    "set (take (tbl_count t - 1) (active_list t1)) = occ t ch - {x}"
    "\<forall>q < tbl_count t - 1. active_pos (nodes t1 ! (active_list t1 ! q)) = q"
    "entry (nodes t1 ! j) = entry (nodes t ! j)" "nxt (nodes t1 ! j) = nxt (nodes t ! j)"
    "length (nodes t1) = length (nodes t)" "length (active_list t1) = length (active_list t)"
    "tbl_count t1 = tbl_count t" "free_list_idx t1 = free_list_idx t" "bucket_count t1 = bucket_count t"
    "quick_data t1 = quick_data t" "hash_frame t t1" "0 < tbl_count t"
proof -
  let ?c = "tbl_count t" and ?xs = "take (tbl_count t) (active_list t)"
  have len: "?c \<le> length (active_list t)" and d: "distinct ?xs" and s: "set ?xs = occ t ch"
    and pos: "\<And>q. q < ?c \<Longrightarrow> active_pos (nodes t ! (active_list t ! q)) = q" using ac by (auto simp: active_ok_def)
  obtain p where p: "p < ?c" "active_list t ! p = x" using x s len by (metis in_set_conv_nth length_take min.absorb2 nth_take)
  then have ap: "active_pos (nodes t ! x) = p" using pos by blast
  show c0: "0 < ?c" using p(1) by simp
  define l where "l = active_list t ! (?c - 1)"
  have last: "last ?xs = l" using len c0 by (subst last_conv_nth) (auto simp: l_def)
  have lx: "l = x \<longleftrightarrow> p = ?c - 1"
    using p c0 len nth_eq_iff_index_eq [OF d, of "?c - 1" p] by (auto simp: l_def)
  have locc: "l \<in> occ t ch" using active_mem [OF ac, of "?c - 1"] c0 by (simp add: l_def)
  have t1: "t1 = (if x = l then t else t\<lparr>active_list := (active_list t)[p := l],
       nodes := (nodes t)[l := (nodes t ! l)\<lparr>active_pos := p\<rparr>]\<rparr>)"
    unfolding t1_def unlink_from_active_def Let_def ap l_def [symmetric] by simp
  have al: "active_list t1 = (active_list t)[p := l]"
    using p(2) list_update_id [of "active_list t" p] by (cases "x = l") (simp_all add: t1)
  have "?xs[p := last ?xs] = take ?c (active_list t1)" by (simp only: al last take_update_swap)
  then have take: "take (?c - 1) (active_list t1) = butlast (?xs[p := last ?xs])"
    using len by (simp add: butlast_take al)
  show "distinct (take (?c - 1) (active_list t1))" "set (take (?c - 1) (active_list t1)) = occ t ch - {x}"
    unfolding take using swap_remove [OF d, of p] p len s by simp_all
  show "\<forall>q < ?c - 1. active_pos (nodes t1 ! (active_list t1 ! q)) = q"
  proof (intro allI impI)
    fix q assume q: "q < ?c - 1"
    have ql: "active_list t ! q \<noteq> l"
      using q c0 len nth_eq_iff_index_eq [OF d, of q "?c - 1"] by (auto simp: l_def)
    show "active_pos (nodes t1 ! (active_list t1 ! q)) = q"
      using q p c0 len ql pos [of q] range locc by (auto simp: t1 nth_list_update)
  qed
  show "entry (nodes t1 ! j) = entry (nodes t ! j)" "nxt (nodes t1 ! j) = nxt (nodes t ! j)"
    using range locc by (auto simp: t1 nth_list_update)
  show "length (nodes t1) = length (nodes t)" "length (active_list t1) = length (active_list t)"
    "tbl_count t1 = ?c" "free_list_idx t1 = free_list_idx t" "bucket_count t1 = bucket_count t"
    "quick_data t1 = quick_data t" "hash_frame t t1"
    by (auto simp: t1 hash_frame_def)
qed

section \<open>What every kind of deletion establishes\<close>

text \<open>
  \<open>x\<close> is the node that is given up, \<open>y\<close> the one whose entry goes: they differ when the entry
  of the first overflow node \<open>x\<close> is moved into the main node \<open>y\<close>.
\<close>

lemma delete_finish:
  assumes inv: "hash_inv t ch fl" and x: "x \<in> occ t ch" and y: "y \<in> occ t ch"
  defines "t1 \<equiv> unlink_from_active t x (active_pos (nodes t ! x))"
  assumes al: "active_list t' = active_list t1" "tbl_count t' = tbl_count t - 1" "bucket_count t' = bucket_count t"
    and ap: "\<And>j. j \<noteq> x \<Longrightarrow> active_pos (nodes t' ! j) = active_pos (nodes t1 ! j)"
    and oc: "occ t' ch' = occ t ch - {x}"
    and st: "shape_ok t' ch' fl'" "chains_ok t' ch' fl'" "nodes_ok t' ch'"
    and ent: "\<And>i. i \<in> occ t ch \<Longrightarrow> i \<noteq> x \<Longrightarrow> entry (nodes t' ! i) = entry (nodes t ! (if i = y then x else i))"
  shows "hash_inv t' ch' fl'" "hmap t' = (hmap t)(canon (node_key t y) := None)"
proof -
  have sh: "shape_ok t ch fl" and ac: "active_ok t ch" and inj: "inj_on (\<lambda>i. canon (node_key t i)) (occ t ch)"
    using inv by (auto simp: hash_inv_def)
  have range: "\<forall>i \<in> occ t ch. i < length (nodes t)" using occ_range [OF sh] sh by (simp add: shape_ok_def)
  note u = unlink_ok [OF ac x range, folded t1_def]
  have "active_ok t' ch'"
  proof -
    have le: "tbl_count t - 1 \<le> length (active_list t1)" using ac u(7) by (auto simp: active_ok_def)
    have "active_pos (nodes t' ! (active_list t1 ! q)) = q" if q: "q < tbl_count t - 1" for q
    proof -
      have "active_list t1 ! q \<in> set (take (tbl_count t - 1) (active_list t1))"
        using q le nth_mem [of q "take (tbl_count t - 1) (active_list t1)"] by simp
      then have "active_list t1 ! q \<noteq> x" unfolding u(2) by blast
      with u(3) q ap show ?thesis by simp
    qed
    with u(1,2) le show ?thesis by (simp add: active_ok_def al oc)
  qed
  moreover have key: "node_key t' i = node_key t (if i = y then x else i)" if "i \<in> occ t ch" "i \<noteq> x" for i
    using ent [OF that] by (simp add: node_key_def)
  have "inj_on (\<lambda>i. canon (node_key t' i)) (occ t' ch')"
  proof (rule inj_onI)
    fix i j assume ij: "i \<in> occ t' ch'" "j \<in> occ t' ch'" "canon (node_key t' i) = canon (node_key t' j)"
    then have o: "i \<in> occ t ch" "i \<noteq> x" "j \<in> occ t ch" "j \<noteq> x" by (auto simp: oc)
    have "(if i = y then x else i) = (if j = y then x else j)"
      using inj_onD [OF inj] ij(3) o x by (simp add: key split: if_splits)
    then show "i = j" using o by (auto split: if_splits)
  qed
  ultimately show inv': "hash_inv t' ch' fl'" using st by (simp add: hash_inv_def)
  have einj: "entry (nodes t ! i) \<noteq> entry (nodes t ! y)" if "i \<in> occ t ch" "i \<noteq> y" for i
    using inj_onD [OF inj _ that(1) y] that(2) by (auto simp: node_key_def)
  have "set (live_entries t') = set (live_entries t) - {entry (nodes t ! y)}"
  proof -
    have "set (live_entries t') = (\<lambda>i. entry (nodes t ! (if i = y then x else i))) ` (occ t ch - {x})"
      unfolding set_live [OF inv'] oc using ent by (intro image_cong) auto
    also have "\<dots> = (\<lambda>i. entry (nodes t ! i)) ` (occ t ch - {y})"
    proof (cases "x = y")
      case True
      then show ?thesis by (intro image_cong) auto
    next
      case False
      have "(\<lambda>i. if i = y then x else i) ` (occ t ch - {x}) = occ t ch - {y}"
        using x y False by (auto simp: image_iff)
      then show ?thesis by (metis (no_types, lifting) image_cong image_image)
    qed
    also have "\<dots> = (\<lambda>i. entry (nodes t ! i)) ` occ t ch - {entry (nodes t ! y)}" using einj by auto
    finally show ?thesis by (simp add: set_live [OF inv])
  qed
  moreover have "entry (nodes t ! y) \<in> set (live_entries t)" using y by (simp add: set_live [OF inv])
  ultimately show "hmap t' = (hmap t)(canon (node_key t y) := None)"
    using entries_map_remove [OF distinct_live [OF inv] distinct_live [OF inv']]
    by (simp add: hmap_def node_key_def)
qed

section \<open>The three kinds of deletion\<close>

lemma TableDelete_main_alone:
  assumes inv: "hash_inv t ch fl" and b: "b < bucket_count t" "node_key t b \<noteq> VNil"
    and nx: "nxt (nodes t ! b) = INVALID_INDEX"
  shows "\<exists>ch' fl'. hash_inv (delete_main t b) ch' fl'" "hmap (delete_main t b) = (hmap t)(canon (node_key t b) := None)"
    "hash_frame t (delete_main t b)" "bucket_count (delete_main t b) = bucket_count t"
    "tbl_count (delete_main t b) = tbl_count t - 1" "quick_data (delete_main t b) = quick_data t"
proof -
  define t1 where "t1 = unlink_from_active t b (active_pos (nodes t ! b))"
  define t' where "t' = delete_main t b"
  have sh: "shape_ok t ch fl" and ck: "chains_ok t ch fl" and ac: "active_ok t ch" using inv by (auto simp: hash_inv_def)
  have range: "\<forall>i \<in> occ t ch. i < length (nodes t)" using occ_range [OF sh] sh by (simp add: shape_ok_def)
  have bo: "b \<in> occ t ch" "b < length (nodes t)" using b range by (auto simp: occ_def)
  note u = unlink_ok [OF ac bo(1) range, folded t1_def]
  have t': "t' = t1\<lparr>nodes := (nodes t1)[b := (nodes t1 ! b)\<lparr>active_pos := INVALID_INDEX,
      entry := (entry (nodes t1 ! b))\<lparr>e_key := VNil\<rparr>\<rparr>], tbl_count := tbl_count t1 - 1\<rparr>"
    using nx bo(2) u(6) by (simp add: t'_def delete_main_def Let_def flip: t1_def)
  have f: "active_list t' = active_list t1" "tbl_count t' = tbl_count t - 1" "bucket_count t' = bucket_count t"
    "length (nodes t') = length (nodes t)" "free_list_idx t' = free_list_idx t" "total_nodes t' = total_nodes t"
    "length (active_list t') = length (active_list t)" "bucket_of t' h = bucket_of t h" for h
    by (simp_all add: t' u total_nodes_def bucket_of_def)
  have n: "nxt (nodes t' ! j) = nxt (nodes t ! j)" "j \<noteq> b \<Longrightarrow> entry (nodes t' ! j) = entry (nodes t ! j)"
    "j \<noteq> b \<Longrightarrow> active_pos (nodes t' ! j) = active_pos (nodes t1 ! j)" for j
    using bo(2) u(4,5,6) by (auto simp: t' nth_list_update)
  have kb: "node_key t' b = VNil" using bo(2) u(6) by (simp add: node_key_def t')
  have key: "j \<noteq> b \<Longrightarrow> node_key t' j = node_key t j" for j by (simp add: node_key_def n)
  have lk: "linked (nodes t') i xs = linked (nodes t) i xs" for i xs by (rule linked_cong) (simp_all add: f n)
  have cb: "ch ! b = []" using ck b(1) nx by (cases "ch ! b") (auto simp: chains_ok_def)
  have oc: "occ t' ch = occ t ch - {b}"
    using main_not_overflow [OF sh b(1)] kb key by (auto simp: occ_def f) metis+
  have st: "shape_ok t' ch fl" using sh by (simp add: shape_ok_def f u)
  have "chains_ok t' ch fl"
    unfolding chains_ok_def f lk using ck cb key unfolding chains_ok_def by metis
  moreover have "nodes_ok t' ch"
    unfolding nodes_ok_def f oc using nodes_okD [OF inv] n(2) by auto
  ultimately have "hash_inv t' ch fl \<and> hmap t' = (hmap t)(canon (node_key t b) := None)"
    using delete_finish [OF inv bo(1) bo(1), folded t1_def, of t' ch fl] f(1-3) n(2,3) oc st by simp
  then show "\<exists>ch' fl'. hash_inv (delete_main t b) ch' fl'" "hmap (delete_main t b) = (hmap t)(canon (node_key t b) := None)"
    by (auto simp flip: t'_def)
  have "hash_frame t1 t'" by (simp add: t' hash_frame_def)
  with u(12) show "hash_frame t (delete_main t b)" unfolding t'_def by (rule hash_frame_trans)
  show "bucket_count (delete_main t b) = bucket_count t" "tbl_count (delete_main t b) = tbl_count t - 1"
    "quick_data (delete_main t b) = quick_data t"
    using f u by (simp_all add: t' flip: t'_def)
qed

text \<open>Moving a node from a chain to the free list keeps all overflow nodes accounted for.\<close>

lemma shape_ok_free:
  assumes sh: "shape_ok t ch fl" and b: "b < bucket_count t" and m: "mset (ch ! b) = add_mset x (mset ys)"
    and f: "bucket_count t' = bucket_count t" "length (nodes t') = length (nodes t)"
      "length (active_list t') = length (active_list t)"
  shows "shape_ok t' (ch[b := ys]) (x # fl)" "set (concat (ch[b := ys])) = set (concat ch) - {x}"
    "x \<in> set (ch ! b)"
proof -
  have bl: "b < length ch" using b shape_okD(3) [OF sh] by simp
  have "mset (concat (ch[b := ys])) + mset (ch ! b) = mset (concat ch) + mset ys"
    by (rule mset_concat_update [OF bl])
  then have c: "mset (concat ch) = add_mset x (mset (concat (ch[b := ys])))" by (simp add: m)
  have "total_nodes t' = total_nodes t" by (simp add: total_nodes_def f)
  then show "shape_ok t' (ch[b := ys]) (x # fl)" using sh c by (simp add: shape_ok_def f)
  have "distinct (x # concat (ch[b := ys]))"
    using shape_ok_overflow(3) [OF sh] mset_eq_imp_distinct_iff [of "concat ch" "x # concat (ch[b := ys])"] c by simp
  moreover have "set (concat ch) = insert x (set (concat (ch[b := ys])))"
    using mset_eq_setD [of "concat ch" "x # concat (ch[b := ys])"] c by simp
  ultimately show "set (concat (ch[b := ys])) = set (concat ch) - {x}" by auto
  show "x \<in> set (ch ! b)" using m by (metis set_mset_mset union_single_eq_member)
qed

lemma TableDelete_main_promote:
  assumes inv: "hash_inv t ch fl" and b: "b < bucket_count t" "node_key t b \<noteq> VNil"
    and nx: "nxt (nodes t ! b) \<noteq> INVALID_INDEX"
  shows "\<exists>ch' fl'. hash_inv (delete_main t b) ch' fl'" "hmap (delete_main t b) = (hmap t)(canon (node_key t b) := None)"
    "hash_frame t (delete_main t b)" "bucket_count (delete_main t b) = bucket_count t"
    "tbl_count (delete_main t b) = tbl_count t - 1" "quick_data (delete_main t b) = quick_data t"
proof -
  define x where "x = nxt (nodes t ! b)"
  define t1 where "t1 = unlink_from_active t x (active_pos (nodes t ! x))"
  define t' where "t' = delete_main t b"
  have sh: "shape_ok t ch fl" and ck: "chains_ok t ch fl" and ac: "active_ok t ch" using inv by (auto simp: hash_inv_def)
  obtain ys where cb: "ch ! b = x # ys" using ck b(1) nx by (cases "ch ! b") (auto simp: chains_ok_def x_def)
  have range: "\<forall>i \<in> occ t ch. i < length (nodes t)" using occ_range [OF sh] sh by (simp add: shape_ok_def)
  have bo: "b \<in> occ t ch" "b < length (nodes t)" using b range by (auto simp: occ_def)
  have xr: "bucket_count t \<le> x" "x \<in> set (concat ch)" using in_chain_range [OF sh b(1), of x] cb by simp_all
  then have xo: "x \<in> occ t ch" "x < length (nodes t)" "x \<noteq> b" using range b(1) by (auto simp: occ_def)
  note u = unlink_ok [OF ac xo(1) range, folded t1_def]
  have t': "t' = t1\<lparr>free_list_idx := x, nodes := (nodes t1)
      [x := (nodes t1 ! x)\<lparr>active_pos := INVALID_INDEX, nxt := free_list_idx t\<rparr>,
       b := (nodes t1 ! b)\<lparr>entry := entry (nodes t1 ! x), nxt := nxt (nodes t1 ! x)\<rparr>], tbl_count := tbl_count t1 - 1\<rparr>"
    using nx xo bo(2) u(6,9) by (simp add: t'_def delete_main_def Let_def list_update_swap flip: x_def t1_def)
  have f: "active_list t' = active_list t1" "tbl_count t' = tbl_count t - 1" "bucket_count t' = bucket_count t"
    "length (nodes t') = length (nodes t)" "free_list_idx t' = x" "total_nodes t' = total_nodes t"
    "bucket_of t' h = bucket_of t h" for h
    by (simp_all add: t' u total_nodes_def bucket_of_def)
  have n: "nxt (nodes t' ! j) = (if j = b then nxt (nodes t ! x) else if j = x then free_list_idx t else nxt (nodes t ! j))"
    "j \<noteq> x \<Longrightarrow> entry (nodes t' ! j) = entry (nodes t ! (if j = b then x else j))"
    "j \<noteq> x \<Longrightarrow> active_pos (nodes t' ! j) = active_pos (nodes t1 ! j)" for j
    using bo(2) xo u(4,5,6) by (auto simp: t' nth_list_update)
  have key: "j \<noteq> x \<Longrightarrow> node_key t' j = node_key t (if j = b then x else j)" for j by (simp add: node_key_def n)
  have xnil: "node_key t x \<noteq> VNil" using occ_entry_ok [OF inv xo(1)] by (auto simp: entry_ok_def node_key_def)
  let ?ch = "ch[b := ys]"
  have bl: "b < length ch" using b(1) shape_okD(3) [OF sh] by simp
  have al: "length (active_list t') = length (active_list t)" by (simp add: f u)
  have m: "mset (ch ! b) = add_mset x (mset ys)" by (simp add: cb)
  note st = shape_ok_free [OF sh b(1) m f(3,4) al]
  have oc: "occ t' ?ch = occ t ch - {x}"
  proof -
    have "j < bucket_count t \<Longrightarrow> node_key t' j \<noteq> VNil \<longleftrightarrow> node_key t j \<noteq> VNil" for j
      using key [of j] xr(1) b(2) xnil by auto
    then show ?thesis using xr(1) by (auto simp: occ_def f st(2))
  qed
  have nin: "b \<notin> set (c # ch ! c)" "x \<notin> set (c # ch ! c)" if "c < bucket_count t" "c \<noteq> b" for c
    using in_chain_range(1) [OF sh that(1), of b] that b(1) xr(1)
      concat_disjoint [OF shape_ok_overflow(3) [OF sh] bl, of c x] shape_okD(3) [OF sh] by (auto simp: cb)
  have dys: "b \<notin> set ys" "x \<notin> set ys"
    using in_chain_range(1) [OF sh b(1), of b] b(1) shape_ok_overflow(3) [OF sh] bl
    by (auto simp: cb distinct_concat_iff) (metis cb distinct.simps(2) nth_mem)
  have lk: "linked (nodes t') i xs = linked (nodes t) i xs" if "b \<notin> set xs" "x \<notin> set xs" for i xs
    using that by (intro linked_cong) (auto simp: f n)
  have chain_b: "linked (nodes t) b (b # x # ys)" using ck b(1) by (simp add: chains_ok_def flip: cb)
  have "chains_ok t' ?ch (x # fl)"
  proof -
    have "linked (nodes t') c (c # ?ch ! c)" if c: "c < bucket_count t" for c
    proof (cases "c = b")
      case True
      then show ?thesis using chain_b bl dys lk bo(2) by (simp add: f n)
    next
      case False
      then show ?thesis using ck c lk [OF nin [OF c False]] by (simp add: chains_ok_def del: linked.simps)
    qed
    moreover have "linked (nodes t') (free_list_idx t') (x # fl)"
    proof -
      have "b \<notin> set fl" "x \<notin> set fl" using main_not_free [OF sh b(1)] free_range(3) [OF sh, of x] xr(2) by auto
      then have "linked (nodes t') (free_list_idx t) fl" using ck lk by (simp add: chains_ok_def)
      then show ?thesis using xo chain_b by (simp add: f n)
    qed
    moreover have "?ch ! c = []" if "c < bucket_count t" "node_key t' c = VNil" for c
      using that key [of c] xr(1) xnil ck by (auto simp: chains_ok_def split: if_splits)
    ultimately show ?thesis by (simp add: chains_ok_def f)
  qed
  moreover have "nodes_ok t' ?ch"
  proof -
    have "entry_ok (entry (nodes t' ! i)) \<and> bucket_of t (e_hash (entry (nodes t' ! i))) = c"
      if c: "c < bucket_count t" "i \<in> set (c # ?ch ! c)" "i \<in> occ t ch" "i \<noteq> x" for c i
    proof (cases "i = b")
      case True
      then have "c = b" using c nin(1) [OF c(1)] bl by (cases "c = b") auto
      then show ?thesis using nodes_okD [OF inv b(1), of x] xo True by (simp add: n cb)
    next
      case False
      have "i \<in> set (c # ch ! c)" using c(2) bl by (cases "c = b") (auto simp: cb)
      then show ?thesis using nodes_okD [OF inv c(1) _ c(3)] False c(4) by (simp add: n)
    qed
    then show ?thesis unfolding nodes_ok_def f oc by blast
  qed
  ultimately have "hash_inv t' ?ch (x # fl) \<and> hmap t' = (hmap t)(canon (node_key t b) := None)"
    using delete_finish [OF inv xo(1) bo(1), folded t1_def, of t' ?ch "x # fl"] f(1-3) n(2,3) oc st(1) by simp
  then show "\<exists>ch' fl'. hash_inv (delete_main t b) ch' fl'" "hmap (delete_main t b) = (hmap t)(canon (node_key t b) := None)"
    by (auto simp flip: t'_def)
  have "hash_frame t1 t'" by (simp add: t' hash_frame_def)
  with u(12) show "hash_frame t (delete_main t b)" unfolding t'_def by (rule hash_frame_trans)
  show "bucket_count (delete_main t b) = bucket_count t" "tbl_count (delete_main t b) = tbl_count t - 1"
    "quick_data (delete_main t b) = quick_data t"
    using f u by (simp_all add: t' flip: t'_def)
qed

text \<open>The body of the chain walk at the matching node.\<close>

definition chain_remove :: "VarTable \<Rightarrow> nat \<Rightarrow> nat \<Rightarrow> VarTable" where
  "chain_remove t prev cur =
     (let t1 = unlink_from_active t cur (active_pos (nodes t ! cur));
          ns1 = (nodes t1)[cur := (nodes t1 ! cur)\<lparr>active_pos := INVALID_INDEX\<rparr>];
          ns2 = ns1[prev := (ns1 ! prev)\<lparr>nxt := nxt (ns1 ! cur)\<rparr>];
          ns3 = ns2[cur := (ns2 ! cur)\<lparr>nxt := free_list_idx t1\<rparr>]
      in t1\<lparr>nodes := ns3, free_list_idx := cur, tbl_count := tbl_count t1 - 1\<rparr>)"

lemma delete_chain_none:
  assumes "linked (nodes t) cur xs" "length xs < n" "\<forall>i \<in> set xs. \<not> P (entry (nodes t ! i))"
  shows "delete_chain n t P prev cur = (Inr (), t)"
  using assms
proof (induction xs arbitrary: prev cur n)
  case Nil
  then show ?case by (cases n) auto
next
  case (Cons x xs)
  then show ?case by (cases n) auto
qed

lemma delete_chain_some:
  assumes "linked (nodes t) cur (pre @ x # post)" "length pre < n" "\<forall>i \<in> set pre. \<not> P (entry (nodes t ! i))"
    "P (entry (nodes t ! x))"
  shows "delete_chain n t P prev cur = (Inr (), chain_remove t (last (prev # pre)) x)"
  using assms
proof (induction pre arbitrary: prev cur n)
  case Nil
  then show ?case by (cases n) (auto simp: chain_remove_def Let_def)
next
  case (Cons y pre)
  then obtain m where m: "n = Suc m" "length pre < m" by (cases n) auto
  have "delete_chain m t P y (nxt (nodes t ! y)) = (Inr (), chain_remove t (last (y # pre)) x)"
    using Cons.prems m by (intro Cons.IH) auto
  then show ?case using Cons.prems m by auto
qed

text \<open>Redirecting a link around a node.\<close>

lemma linked_skip:
  assumes "linked ns i ((qs @ [q]) @ x # post)" "distinct ((qs @ [q]) @ x # post)"
    "length ns' = length ns" "\<And>j. nxt (ns' ! j) = (if j = q then nxt (ns ! x) else if j = x then z else nxt (ns ! j))"
  shows "linked ns' i ((qs @ [q]) @ post)"
  using assms(1,2)
proof (induction qs arbitrary: i)
  case Nil
  have "linked ns' j post = linked ns j post" for j
    using Nil(2) assms(3,4) by (intro linked_cong) auto
  with Nil show ?case using assms(3,4) by auto
next
  case (Cons y qs)
  then show ?case using assms(3,4) by auto
qed

lemma chain_remove_ok:
  assumes inv: "hash_inv t ch fl" and b: "b < bucket_count t" "node_key t b \<noteq> VNil"
    and cb: "ch ! b = pre @ x # post"
  defines "t' \<equiv> chain_remove t (last (b # pre)) x"
  shows "\<exists>ch' fl'. hash_inv t' ch' fl'" "hmap t' = (hmap t)(canon (node_key t x) := None)"
    "hash_frame t t'" "bucket_count t' = bucket_count t" "tbl_count t' = tbl_count t - 1" "quick_data t' = quick_data t"
proof -
  define prev where "prev = last (b # pre)"
  define t1 where "t1 = unlink_from_active t x (active_pos (nodes t ! x))"
  have sh: "shape_ok t ch fl" and ck: "chains_ok t ch fl" and ac: "active_ok t ch" using inv by (auto simp: hash_inv_def)
  have bl: "b < length ch" using b(1) shape_okD(3) [OF sh] by simp
  have range: "\<forall>i \<in> occ t ch. i < length (nodes t)" using occ_range [OF sh] sh by (simp add: shape_ok_def)
  have mem: "bucket_count t \<le> i" "i \<in> set (concat ch)" if "i \<in> set (ch ! b)" for i
    using in_chain_range [OF sh b(1) that] by simp_all
  have dist: "distinct (b # pre @ x # post)"
  proof -
    have "ch ! b \<in> set ch" using bl by simp
    then have "distinct (ch ! b)" using shape_ok_overflow(3) [OF sh] by (simp add: distinct_concat_iff)
    moreover have "b \<notin> set (ch ! b)" using mem(1) b(1) by (meson linorder_not_le)
    ultimately show ?thesis by (simp add: cb)
  qed
  have xr: "bucket_count t \<le> x" "x \<in> set (concat ch)" using mem cb by simp_all
  then have xo: "x \<in> occ t ch" "x < length (nodes t)" "x \<noteq> b" using range b(1) by (auto simp: occ_def)
  have prev: "prev \<in> occ t ch" "prev < length (nodes t)" "prev \<noteq> x" "prev \<in> set (b # pre)"
  proof -
    show p: "prev \<in> set (b # pre)" by (simp add: prev_def)
    then have "prev = b \<or> prev \<in> set (ch ! b)" by (auto simp: cb)
    then show "prev \<in> occ t ch" using b mem(2) by (auto simp: occ_def)
    then show "prev < length (nodes t)" using range by blast
    show "prev \<noteq> x" using p dist by auto
  qed
  note u = unlink_ok [OF ac xo(1) range, folded t1_def]
  have "t' = chain_remove t prev x" by (simp only: t'_def prev_def)
  note t' = this [unfolded chain_remove_def Let_def, folded t1_def]
  have f: "active_list t' = active_list t1" "tbl_count t' = tbl_count t - 1" "bucket_count t' = bucket_count t"
    "length (nodes t') = length (nodes t)" "free_list_idx t' = x" "total_nodes t' = total_nodes t"
    "bucket_of t' h = bucket_of t h" for h
    by (simp_all add: t' u total_nodes_def bucket_of_def)
  have n: "nxt (nodes t' ! j) = (if j = prev then nxt (nodes t ! x) else if j = x then free_list_idx t else nxt (nodes t ! j))"
    "entry (nodes t' ! j) = entry (nodes t ! j)"
    "j \<noteq> x \<Longrightarrow> active_pos (nodes t' ! j) = active_pos (nodes t1 ! j)" for j
    using prev xo u(4,5,6,9) by (auto simp: t' nth_list_update)
  have key: "node_key t' j = node_key t j" for j by (simp add: node_key_def n)
  let ?ys = "pre @ post" let ?ch = "ch[b := ?ys]"
  have al: "length (active_list t') = length (active_list t)" by (simp add: f u)
  have m: "mset (ch ! b) = add_mset x (mset ?ys)" by (simp add: cb)
  note st = shape_ok_free [OF sh b(1) m f(3,4) al]
  have oc: "occ t' ?ch = occ t ch - {x}" using xr(1) by (auto simp: occ_def f st(2) key)
  have nin: "i \<notin> set (c # ch ! c)" if "c < bucket_count t" "c \<noteq> b" "i \<in> set (b # ch ! b)" for c i
    using in_chain_range(1) [OF sh that(1), of i] that b(1) mem(1) [of i]
      concat_disjoint [OF shape_ok_overflow(3) [OF sh] bl, of c i] shape_okD(3) [OF sh]
    by auto
  have lk: "linked (nodes t') i xs = linked (nodes t) i xs" if "prev \<notin> set xs" "x \<notin> set xs" for i xs
    using that by (intro linked_cong) (auto simp: f n)
  have pin: "prev \<in> set (b # ch ! b)" "x \<in> set (b # ch ! b)" using prev(4) by (auto simp: cb)
  have chain_b: "linked (nodes t) b ((b # pre) @ x # post)" using ck b(1) by (simp add: chains_ok_def flip: cb)
  have "chains_ok t' ?ch (x # fl)"
  proof -
    have "linked (nodes t') c (c # ?ch ! c)" if c: "c < bucket_count t" for c
    proof (cases "c = b")
      case True
      obtain qs where qs: "b # pre = qs @ [prev]" unfolding prev_def by (metis append_butlast_last_id list.distinct(1))
      have "linked (nodes t') b ((qs @ [prev]) @ post)"
      proof (rule linked_skip)
        show "linked (nodes t) b ((qs @ [prev]) @ x # post)" using chain_b by (simp only: qs)
        show "distinct ((qs @ [prev]) @ x # post)" using dist by (simp only: qs [symmetric]) simp
      qed (simp_all add: f n)
      then have "linked (nodes t') b ((b # pre) @ post)" by (simp only: qs)
      then show ?thesis using True bl by simp
    next
      case False
      then show ?thesis using ck c lk [OF nin [OF c False pin(1)] nin [OF c False pin(2)]]
        by (simp add: chains_ok_def del: linked.simps)
    qed
    moreover have "linked (nodes t') (free_list_idx t') (x # fl)"
    proof -
      have "prev \<notin> set fl" "x \<notin> set fl"
        using main_not_free [OF sh b(1)] free_range(3) [OF sh] xr(2) mem(2) pin(1) by auto
      then have "linked (nodes t') (free_list_idx t) fl" using ck lk by (simp add: chains_ok_def)
      moreover have "x \<noteq> INVALID_INDEX" using xo(2) shape_okD(2) [OF sh] by simp
      ultimately show ?thesis using xo prev(3) by (simp add: f n)
    qed
    moreover have "?ch ! c = []" if "c < bucket_count t" "node_key t' c = VNil" for c
      using that key [of c] b(2) ck by (cases "c = b") (auto simp: chains_ok_def)
    ultimately show ?thesis by (simp add: chains_ok_def f)
  qed
  moreover have "nodes_ok t' ?ch"
  proof -
    have "entry_ok (entry (nodes t' ! i)) \<and> bucket_of t (e_hash (entry (nodes t' ! i))) = c"
      if c: "c < bucket_count t" "i \<in> set (c # ?ch ! c)" "i \<in> occ t ch" for c i
    proof -
      have "i \<in> set (c # ch ! c)" using c(2) bl by (cases "c = b") (auto simp: cb)
      then show ?thesis using nodes_okD [OF inv c(1) _ c(3)] by (simp add: n)
    qed
    then show ?thesis unfolding nodes_ok_def f oc by blast
  qed
  ultimately have "hash_inv t' ?ch (x # fl) \<and> hmap t' = (hmap t)(canon (node_key t x) := None)"
    using delete_finish [OF inv xo(1) xo(1), folded t1_def, of t' ?ch "x # fl"] f(1-3) n(2,3) oc st(1) by simp
  then show "\<exists>ch' fl'. hash_inv t' ch' fl'" "hmap t' = (hmap t)(canon (node_key t x) := None)" by auto
  have "hash_frame t1 t'" by (simp add: t' hash_frame_def)
  with u(12) show "hash_frame t t'" by (rule hash_frame_trans)
  show "bucket_count t' = bucket_count t" "tbl_count t' = tbl_count t - 1" "quick_data t' = quick_data t"
    using f u by (simp_all add: t')
qed

section \<open>TableDelete\<close>

lemma find_quick_Some:
  "find_quick es P i = Some j \<Longrightarrow> i \<le> j \<and> j < i + length es \<and> P (es ! (j - i)) \<and> (\<forall>k < j - i. \<not> P (es ! k))"
proof (induction es arbitrary: i)
  case (Cons e es)
  show ?case
  proof (cases "P e")
    case True
    then show ?thesis using Cons.prems by auto
  next
    case False
    then have "find_quick es P (i + 1) = Some j" using Cons.prems by simp
    note ih = Cons.IH [OF this]
    then have "j - i = Suc (j - (i + 1))" by linarith
    with ih False show ?thesis by (auto simp: nth_Cons split: nat.split)
  qed
qed simp

lemma find_quick_None: "find_quick es P i = None \<longleftrightarrow> (\<forall>e \<in> set es. \<not> P e)"
  by (induction es arbitrary: i) auto

lemma TableDelete_quick:
  assumes q: "quick_inv t" and k: "key_ok key"
  shows "\<exists>t'. TableDelete t key (VarKeyHash key) = (Inr (), t') \<and> quick_inv t' \<and> hash_frame t t' \<and>
    hmap t' = (hmap t)(canon key := None) \<and>
    tbl_count t' = tbl_count t - (if hmap t (canon key) = None then 0 else 1)"
proof (cases "tbl_count t = 0")
  case True
  have "hmap t = Map.empty" using True q by (simp add: hmap_def quick_inv_def live_entries_def entries_map_def)
  then show ?thesis using True q by (intro exI [of _ t]) (simp add: TableDelete_def)
next
  case c0: False
  let ?P = "key_is (VarKeyHash key) key" and ?es = "take (tbl_count t) (quick_data t)"
  have b: "bucket_count t = 0" "tbl_count t \<le> length (quick_data t)" "length (quick_data t) = QUICK_DATA_SIZE"
    and live: "live_entries t = ?es" and ok: "\<forall>e \<in> set ?es. entry_ok e" and d: "entries_distinct ?es"
    using q by (auto simp: quick_inv_def live_entries_def)
  have P: "?P e \<longleftrightarrow> canon (e_key e) = canon key" if "e \<in> set ?es" for e using key_is_iff(1) [OF k] ok that by blast
  show ?thesis
  proof (cases "find_quick ?es ?P 0")
    case None
    then have n: "hmap t (canon key) = None" using P by (simp add: find_quick_None hmap_def entries_map_None live)
    then have "hmap t = (hmap t)(canon key := None)" by auto
    then show ?thesis using None n b c0 q by (intro exI [of _ t]) (simp add: TableDelete_def)
  next
    case (Some i)
    let ?c = "tbl_count t"
    define qd where "qd = (if i + 1 < ?c then (quick_data t)[i := quick_data t ! (?c - 1)] else quick_data t)"
    define t' where "t' = t\<lparr>quick_data := qd, tbl_count := ?c - 1\<rparr>"
    have i: "i < ?c" "?P (quick_data t ! i)" using find_quick_Some [OF Some] b by auto
    then have ci: "canon (e_key (quick_data t ! i)) = canon key"
      using P [of "quick_data t ! i"] b(2) by (simp add: in_set_conv_nth) (metis min.absorb2 nth_take)
    have last: "last ?es = quick_data t ! (?c - 1)" using b(2) c0 by (subst last_conv_nth) auto
    have "take ?c qd = ?es[i := last ?es]"
    proof (cases "i + 1 < ?c")
      case True
      then show ?thesis by (simp add: qd_def last take_update_swap)
    next
      case False
      then have "i = ?c - 1" using i by simp
      then have "?es ! i = last ?es" using c0 by (simp add: last)
      then have "?es[i := last ?es] = ?es" by (metis list_update_id)
      then show ?thesis using False by (simp add: qd_def)
    qed
    then have "take (?c - 1) qd = butlast (?es[i := last ?es])"
      using b(2) by (metis (no_types, lifting) butlast_take length_list_update qd_def)
    then have live': "live_entries t' = butlast (?es[i := last ?es])" using b(1) by (simp add: t'_def live_entries_def)
    have "distinct ?es" using d by (simp add: entries_distinct_def distinct_map)
    from swap_remove [OF this, of i] have s: "set (live_entries t') = set ?es - {quick_data t ! i}"
      using i b(2) by (simp add: live')
    have d': "entries_distinct (live_entries t')"
    proof -
      have ne: "?es \<noteq> []" using i b(2) by auto
      have "map (canon \<circ> e_key) (live_entries t') = butlast ((map (canon \<circ> e_key) ?es)[i := last (map (canon \<circ> e_key) ?es)])"
        using last_map [OF ne, of "canon \<circ> e_key"] by (simp add: live' map_butlast map_update)
      then show ?thesis using swap_remove(1) [of "map (canon \<circ> e_key) ?es" i] d i b(2)
        by (simp add: entries_distinct_def)
    qed
    have mem: "quick_data t ! i \<in> set ?es" using i b(2) by (auto simp: in_set_conv_nth)
    have "quick_inv t'" using b ok s d' q by (auto simp: quick_inv_def t'_def qd_def)
    moreover have "hmap t' = (hmap t)(canon key := None)"
      using entries_map_remove [OF d d' mem s] by (simp add: hmap_def live ci)
    moreover have "hmap t (canon key) \<noteq> None" using mem ci by (auto simp: hmap_def entries_map_None live)
    moreover have "TableDelete t key (VarKeyHash key) = (Inr (), t')"
      using Some b(1) c0 by (simp add: TableDelete_def t'_def qd_def)
    ultimately show ?thesis by (intro exI [of _ t']) (auto simp: t'_def hash_frame_def)
  qed
qed

lemma TableDelete_bucket:
  assumes bi: "bucket_inv t" and k: "key_ok key" and b0: "bucket_count t \<noteq> 0"
  shows "\<exists>t'. TableDelete t key (VarKeyHash key) = (Inr (), t') \<and> bucket_inv t' \<and> hash_frame t t' \<and>
    bucket_count t' = bucket_count t \<and> hmap t' = (hmap t)(canon key := None) \<and>
    tbl_count t' = tbl_count t - (if hmap t (canon key) = None then 0 else 1)"
proof (cases "tbl_count t = 0")
  case True
  have "hmap t = Map.empty" using True b0 by (simp add: hmap_def live_entries_def entries_map_def)
  then show ?thesis using True bi by (intro exI [of _ t]) (simp add: TableDelete_def)
next
  case c0: False
  obtain ch fl where inv: "hash_inv t ch fl" using bi by (auto simp: bucket_inv_def)
  have sh: "shape_ok t ch fl" and ck: "chains_ok t ch fl" using inv by (auto simp: hash_inv_def)
  let ?h = "VarKeyHash key" let ?b = "bucket_of t (VarKeyHash key)" let ?P = "key_is ?h key"
  have bl: "?b < bucket_count t" by (rule bucket_of_less [OF sh])
  note look = find_node_bucket [where P = ?P and key = key, OF inv refl key_is_iff [OF k]]
  have linked: "linked (nodes t) ?b (?b # ch ! ?b)" using ck bl by (simp add: chains_ok_def)
  have len: "length (?b # ch ! ?b) < Suc (length (nodes t))" by (rule chain_length [OF sh bl])
  have fnd: "find_node (length (nodes t)) (nodes t) ?P ?b =
      (case List.find (\<lambda>i. ?P (entry (nodes t ! i))) (?b # ch ! ?b) of Some j \<Rightarrow> Found j | None \<Rightarrow> Missing)"
    using find_node_linked [OF linked] len by simp
  have fin: ?thesis if "TableDelete t key ?h = (Inr (), t')" "\<exists>ch' fl'. hash_inv t' ch' fl'"
    "hmap t' = (hmap t)(canon key := None)" "hash_frame t t'" "bucket_count t' = bucket_count t"
    "tbl_count t' = tbl_count t - 1" "quick_data t' = quick_data t" "hmap t (canon key) \<noteq> None" for t'
    using that bi by (intro exI [of _ t']) (auto simp: bucket_inv_def)
  show ?thesis
  proof (cases "hmap t (canon key)")
    case None
    then have m: "find_node (length (nodes t)) (nodes t) ?P ?b = Missing" using look by auto
    then have no: "\<forall>i \<in> set (?b # ch ! ?b). \<not> ?P (entry (nodes t ! i))"
      unfolding fnd by (auto split: option.splits simp: find_None_iff simp del: find.simps)
    have "delete_chain (Suc (length (nodes t))) t ?P ?b (nxt (nodes t ! ?b)) = (Inr (), t)"
      using linked no len by (intro delete_chain_none [where xs = "ch ! ?b"]) auto
    then have "TableDelete t key ?h = (Inr (), t)" using no c0 b0 by (simp add: TableDelete_def Let_def)
    then show ?thesis using None bi by (intro exI [of _ t]) auto
  next
    case (Some v)
    then obtain i where i: "find_node (length (nodes t)) (nodes t) ?P ?b = Found i" "i \<in> occ t ch"
      "i \<in> set (?b # ch ! ?b)" "canon (node_key t i) = canon key" using look by auto
    have Pi: "?P (entry (nodes t ! i))"
      using key_is_iff(1) [OF k occ_entry_ok [OF inv i(2)]] i(4) by (simp add: node_key_def)
    have main: "node_key t ?b \<noteq> VNil"
      using i(2,3) main_not_overflow [OF sh bl] ck bl by (auto simp: chains_ok_def occ_def)
    have some: "hmap t (canon key) \<noteq> None" using Some by simp
    show ?thesis
    proof (cases "?P (entry (nodes t ! ?b))")
      case True
      have bo: "?b \<in> occ t ch" using main bl by (simp add: occ_def)
      have cb: "canon (node_key t ?b) = canon key"
        using key_is_iff(1) [OF k occ_entry_ok [OF inv bo]] True by (simp add: node_key_def)
      have td: "TableDelete t key ?h = (Inr (), delete_main t ?b)"
        using True c0 b0 main by (simp add: TableDelete_def Let_def node_key_def)
      show ?thesis
      proof (cases "nxt (nodes t ! ?b) = INVALID_INDEX")
        case True
        note r = TableDelete_main_alone [OF inv bl main True]
        show ?thesis by (rule fin [OF td r(1) r(2) [unfolded cb] r(3-6) some])
      next
        case False
        note r = TableDelete_main_promote [OF inv bl main False]
        show ?thesis by (rule fin [OF td r(1) r(2) [unfolded cb] r(3-6) some])
      qed
    next
      case False
      from i(1) fnd have "List.find (\<lambda>i. ?P (entry (nodes t ! i))) (?b # ch ! ?b) = Some i"
        by (auto split: option.splits simp del: find.simps)
      then have "List.find (\<lambda>i. ?P (entry (nodes t ! i))) (ch ! ?b) = Some i" using False by simp
      then obtain p where p: "p < length (ch ! ?b)" "ch ! ?b ! p = i" "\<forall>q < p. \<not> ?P (entry (nodes t ! (ch ! ?b ! q)))"
        by (auto simp: find_Some_iff)
      let ?pre = "take p (ch ! ?b)" and ?post = "drop (Suc p) (ch ! ?b)"
      have split: "ch ! ?b = ?pre @ i # ?post" using p id_take_nth_drop by metis
      have pre: "\<forall>j \<in> set ?pre. \<not> ?P (entry (nodes t ! j))" using p by (auto simp: in_set_conv_nth)
      have "delete_chain (Suc (length (nodes t))) t ?P ?b (nxt (nodes t ! ?b)) =
          (Inr (), chain_remove t (last (?b # ?pre)) i)"
        using linked len p Pi pre by (intro delete_chain_some [where post = ?post]) (auto simp flip: split)
      then have td: "TableDelete t key ?h = (Inr (), chain_remove t (last (?b # ?pre)) i)"
        using False c0 b0 main by (simp add: TableDelete_def Let_def node_key_def)
      note r = chain_remove_ok [OF inv bl main split]
      show ?thesis by (rule fin [OF td r(1) r(2) [unfolded i(4)] r(3-6) some])
    qed
  qed
qed

lemma TableDelete_ok:
  assumes "hash_ok t" "key_ok key"
  shows "\<exists>t'. TableDelete t key (VarKeyHash key) = (Inr (), t') \<and> hash_ok t' \<and> hash_frame t t' \<and>
    bucket_count t' = bucket_count t \<and> hmap t' = (hmap t)(canon key := None) \<and>
    tbl_count t' = tbl_count t - (if hmap t (canon key) = None then 0 else 1)"
proof (cases "bucket_count t = 0")
  case True
  with TableDelete_quick [of t key] assms show ?thesis by (auto simp: hash_ok_def quick_inv_def)
next
  case False
  with assms(1) have "bucket_inv t" by (simp add: hash_ok_def)
  then obtain t' where "TableDelete t key (VarKeyHash key) = (Inr (), t') \<and> bucket_inv t' \<and> hash_frame t t' \<and>
    bucket_count t' = bucket_count t \<and> hmap t' = (hmap t)(canon key := None) \<and>
    tbl_count t' = tbl_count t - (if hmap t (canon key) = None then 0 else 1)"
    using TableDelete_bucket [OF _ assms(2) False] by blast
  with False show ?thesis by (intro exI [of _ t']) (simp add: hash_ok_def)
qed

end
