(* ===== verification/TableRefine.thy ===== *)
theory TableRefine
imports TableApi HashDelete
begin

text \<open>
  A plain table (no specialised fields) refines a finite map from canonical keys to non-nil values:
  the array part and the hash part are disjoint, every read returns the map's value, and every
  write, whatever growth, migration or rehash it causes, is the update of the map at one key.
\<close>

section \<open>Abstraction and invariant\<close>

definition arr_val :: "VarTable \<Rightarrow> int64 \<Rightarrow> cvar" where
  "arr_val t i = (if unat (i - 1) < arr_size t then arr t ! unat (i - 1) else VNil)"

definition tmap :: "VarTable \<Rightarrow> cvar \<rightharpoonup> cvar" where
  "tmap t k = (case k of VInt i \<Rightarrow> if arr_val t i \<noteq> VNil then Some (arr_val t i) else hmap t k | _ \<Rightarrow> hmap t k)"

definition arr_ok :: "VarTable \<Rightarrow> bool" where
  "arr_ok t \<longleftrightarrow> length (arr t) = arr_cap t \<and> arr_size t \<le> arr_cap t \<and> arr_cap t \<le> 65536 \<and>
     (arr_cap t = 0 \<or> (\<exists>k. arr_cap t = 2 ^ k))"

definition plain :: "VarTable \<Rightarrow> bool" where
  "plain t \<longleftrightarrow> spec t = 0 \<and> spec_get t = 0 \<and> spec_set t = 0 \<and> spec_count t = 0"

definition core :: "VarTable \<Rightarrow> bool" where
  "core t \<longleftrightarrow> hash_ok t \<and> arr_ok t \<and> plain t"

text \<open>No integer key from 1 to \<open>n\<close> is in the hash part.\<close>

definition hash_above :: "VarTable \<Rightarrow> nat \<Rightarrow> bool" where
  "hash_above t n \<longleftrightarrow> (\<forall>i. hmap t (VInt i) \<noteq> None \<longrightarrow> n \<le> unat (i - 1))"

definition tinv :: "VarTable \<Rightarrow> bool" where
  "tinv t \<longleftrightarrow> core t \<and> hash_above t (arr_size t + 1)"

text \<open>What the writes below leave alone.\<close>

definition tbl_frame :: "VarTable \<Rightarrow> VarTable \<Rightarrow> bool" where
  "tbl_frame t t' \<longleftrightarrow> t' = t\<lparr>tbl_count := tbl_count t', bucket_count := bucket_count t', nodes := nodes t',
     active_list := active_list t', quick_data := quick_data t', free_list_idx := free_list_idx t',
     arr := arr t', arr_size := arr_size t', arr_cap := arr_cap t'\<rparr>"

lemma tbl_frame_refl [simp]: "tbl_frame t t"
  by (simp add: tbl_frame_def)

lemma tbl_frame_trans: "tbl_frame t t' \<Longrightarrow> tbl_frame t' t'' \<Longrightarrow> tbl_frame t t''"
  unfolding tbl_frame_def by (cases t; cases t'; cases t'') simp

lemma hash_frame_tbl: "hash_frame t t' \<Longrightarrow> tbl_frame t t'"
  unfolding hash_frame_def tbl_frame_def by (cases t; cases t') simp

lemma tbl_frame_fields:
  assumes "tbl_frame t t'"
  shows "spec t' = spec t" "spec_get t' = spec_get t" "spec_set t' = spec_set t" "spec_keys t' = spec_keys t"
    "spec_vals t' = spec_vals t" "spec_count t' = spec_count t" "seq_len t' = seq_len t"
    "seq_len_valid t' = seq_len_valid t" "plain t' = plain t"
proof -
  obtain a b c d e f g h i where t': "t' = t\<lparr>tbl_count := a, bucket_count := b, nodes := c,
     active_list := d, quick_data := e, free_list_idx := f, arr := g, arr_size := h, arr_cap := i\<rparr>"
    using assms unfolding tbl_frame_def by blast
  show "spec t' = spec t" "spec_get t' = spec_get t" "spec_set t' = spec_set t" "spec_keys t' = spec_keys t"
    "spec_vals t' = spec_vals t" "spec_count t' = spec_count t" "seq_len t' = seq_len t"
    "seq_len_valid t' = seq_len_valid t" "plain t' = plain t"
    by (simp_all add: t' plain_def)
qed

text \<open>The hash part does not see the array fields.\<close>

lemma hash_part_cong:
  assumes "tbl_count t' = tbl_count t" "bucket_count t' = bucket_count t" "nodes t' = nodes t"
    "active_list t' = active_list t" "quick_data t' = quick_data t" "free_list_idx t' = free_list_idx t"
  shows "hash_ok t' = hash_ok t" "hmap t' = hmap t" "live_entries t' = live_entries t"
proof -
  show l: "live_entries t' = live_entries t" by (simp add: live_entries_def assms)
  then show "hmap t' = hmap t" by (simp add: hmap_def)
  have "hash_inv t' ch fl = hash_inv t ch fl" for ch fl
    by (simp add: hash_inv_def shape_ok_def chains_ok_def nodes_ok_def active_ok_def occ_def total_nodes_def
        node_key_def bucket_of_def assms)
  then show "hash_ok t' = hash_ok t"
    by (simp add: hash_ok_def quick_inv_def bucket_inv_def l assms)
qed

lemma arr_val_frame: "hash_frame t t' \<Longrightarrow> arr_val t' i = arr_val t i"
  by (simp add: arr_val_def hash_frame_fields)

lemma core_hash_frame: "core t \<Longrightarrow> hash_ok t' \<Longrightarrow> hash_frame t t' \<Longrightarrow> core t'"
  by (simp add: core_def arr_ok_def plain_def hash_frame_fields)

section \<open>Reads of the hash part\<close>

lemma hash_lookup_ok:
  assumes ok: "hash_ok t" and P: "\<And>e. entry_ok e \<Longrightarrow> P e \<longleftrightarrow> canon (e_key e) = canon key" "\<And>e. e_key e = VNil \<Longrightarrow> \<not> P e"
  shows "hash_lookup t (VarKeyHash key) P = (case hmap t (canon key) of Some v \<Rightarrow> v | None \<Rightarrow> VNil)"
proof (cases "bucket_count t = 0")
  case True
  then have q: "quick_inv t" using ok by (simp add: hash_ok_def)
  let ?es = "take (tbl_count t) (quick_data t)"
  have len: "tbl_count t \<le> length (quick_data t)" and live: "live_entries t = ?es"
    and eok: "\<forall>e \<in> set ?es. entry_ok e" and d: "entries_distinct ?es"
    using q True by (auto simp: quick_inv_def live_entries_def)
  show ?thesis
  proof (cases "find_quick ?es P 0")
    case None
    then have "hmap t (canon key) = None" using P(1) eok by (auto simp: find_quick_None hmap_def entries_map_None live)
    then show ?thesis using None True by (simp add: hash_lookup_def)
  next
    case (Some i)
    then have i: "i < tbl_count t" "P (?es ! i)" using find_quick_Some [OF Some] len by auto
    then have m: "?es ! i \<in> set ?es" using len by (intro nth_mem) simp
    then have "hmap t (canon key) = Some (e_val (?es ! i))"
      using i(2) P(1) eok unfolding hmap_def live entries_map_Some [OF d] by blast
    then show ?thesis using Some True i(1) by (simp add: hash_lookup_def)
  qed
next
  case False
  then obtain ch fl where inv: "hash_inv t ch fl" using ok by (auto simp: hash_ok_def bucket_inv_def)
  from find_node_bucket [OF inv refl P] show ?thesis using False by (auto simp: hash_lookup_def)
qed

lemma hmap_val: "hash_ok t \<Longrightarrow> hmap t k = Some v \<Longrightarrow> v \<noteq> VNil"
  using live_entry_ok entries_map_Some [OF live_distinct] by (fastforce simp: hmap_def entry_ok_def)

lemma TableHashGetInt_ok:
  assumes "hash_ok t"
  shows "TableHashGetInt t k = (case hmap t (VInt k) of Some v \<Rightarrow> v | None \<Rightarrow> VNil)"
proof (cases "tbl_count t = 0")
  case True
  then have "live_entries t = []" using live_length [OF assms] by (simp add: live_entries_def)
  then show ?thesis using True by (simp add: TableHashGetInt_def hmap_def entries_map_def)
next
  case False
  have "TableHashGetInt t k = hash_lookup t (VarKeyHash (VInt k)) (int_key_is (IntKeyHash k) k)"
    using False by (simp add: TableHashGetInt_def hash_lookup_def Let_def)
  also have "\<dots> = (case hmap t (canon (VInt k)) of Some v \<Rightarrow> v | None \<Rightarrow> VNil)"
  proof (rule hash_lookup_ok [OF assms])
    show "int_key_is (IntKeyHash k) k e \<longleftrightarrow> canon (e_key e) = canon (VInt k)" if "entry_ok e" for e
      using int_key_is_canon [OF that, of k] by simp
    show "\<not> int_key_is (IntKeyHash k) k e" if "e_key e = VNil" for e using that by (simp add: int_key_is_def)
  qed
  finally show ?thesis by simp
qed

lemma TableHashGetInt_nil: "hash_ok t \<Longrightarrow> TableHashGetInt t k = VNil \<longleftrightarrow> hmap t (VInt k) = None"
  using hmap_val by (auto simp: TableHashGetInt_ok split: option.splits)

section \<open>The array part\<close>

lemma unat_Suc_index: "n < 2 ^ 64 \<Longrightarrow> unat ((word_of_nat n + 1 :: int64) - 1) = n"
  by (simp add: unat_of_nat)

lemma index_inj: "unat (i - 1 :: int64) = unat (j - 1) \<Longrightarrow> i = j"
  by (metis diff_add_cancel word_unat_eq_iff)

lemma index_word: "unat (i - 1 :: int64) = n \<Longrightarrow> i = word_of_nat n + 1"
proof -
  assume n: "unat (i - 1) = n"
  have "i = word_of_nat (unat (i - 1)) + 1" by simp
  then show ?thesis by (simp only: n)
qed

text \<open>Growing the array: fails only at the allocator's limit of 65536 elements.\<close>

lemma TableArrGrow_ok:
  assumes "arr_ok t" "arr_size t = arr_cap t"
  shows "if arr_cap t = 65536 then (\<exists>e. TableArrGrow t = (Inl e, t))
    else (\<exists>a c. TableArrGrow t = (Inr (), t\<lparr>arr := a, arr_cap := c\<rparr>) \<and> take (arr_size t) a = take (arr_size t) (arr t) \<and>
       arr_size t < c \<and> length a = c \<and> c \<le> 65536 \<and> (\<exists>k. c = 2 ^ k))"
proof (cases "arr_cap t = 65536")
  case True
  then show ?thesis by (simp add: TableArrGrow_def Let_def table_alloc_def sizeof_CVar_def BLOCK_SIZE_def)
next
  case False
  let ?c = "if arr_cap t \<noteq> 0 then arr_cap t * 2 else 4"
  have c: "?c \<le> 65536 \<and> (\<exists>k. ?c = 2 ^ k)"
  proof (cases "arr_cap t = 0")
    case True
    have "(4::nat) = 2 ^ 2" by simp
    with True show ?thesis by (intro conjI exI [of _ 2]) simp_all
  next
    case nz: False
    then obtain k where k: "arr_cap t = 2 ^ k" using assms(1) by (auto simp: arr_ok_def)
    have "(2::nat) ^ k < 2 ^ 16" using assms(1) False k by (auto simp: arr_ok_def)
    then have "k < 16" by (rule power_less_imp_less_exp [rotated]) simp
    then have "(2::nat) ^ (k + 1) \<le> 2 ^ 16" by (intro power_increasing) simp_all
    moreover have c: "?c = 2 ^ (k + 1)" using k nz by simp
    ultimately show ?thesis unfolding c by (intro conjI exI [of _ "k + 1"]) simp_all
  qed
  then have "\<not> BLOCK_SIZE < ?c * sizeof_CVar" by (simp add: sizeof_CVar_def BLOCK_SIZE_def)
  then have "TableArrGrow t = (Inr (), t\<lparr>arr := arr_resize t ?c, arr_cap := ?c\<rparr>)"
    by (simp add: TableArrGrow_def Let_def table_alloc_def)
  moreover have "take (arr_size t) (arr_resize t ?c) = take (arr_size t) (arr t)"
    using assms by (simp add: arr_resize_def arr_ok_def)
  moreover have "arr_size t < ?c" "length (arr_resize t ?c) = ?c"
    using assms by (auto simp: arr_resize_def arr_ok_def)
  ultimately show ?thesis using c False by (simp only: if_False) blast
qed

end
