(* ===== verification/TableWrites.thy ===== *)
theory TableWrites
imports TableRefine
begin

text \<open>
  Every write of a plain table is the update of its map at one key, whichever way the code takes:
  the array slot, the growth of the array and the migration of the keys that follow it, the
  resize of the array by the histogram of integer keys, the inline entries, or a rehash.
\<close>

section \<open>Updates of the two parts\<close>

text \<open>The key is not one of the array's slots.\<close>

definition off_array :: "VarTable \<Rightarrow> cvar \<Rightarrow> bool" where
  "off_array t k \<longleftrightarrow> (\<forall>i. k = VInt i \<longrightarrow> arr_size t \<le> unat (i - 1))"

lemma tmap_hash_upd:
  assumes "hash_frame t t'" "hmap t' = (hmap t)(k := x)" "off_array t k"
  shows "tmap t' = (tmap t)(k := x)"
proof
  fix c
  show "tmap t' c = ((tmap t)(k := x)) c"
    using assms by (cases c) (auto simp: tmap_def arr_val_frame off_array_def arr_val_def hash_frame_fields)
qed

lemma hash_above_upd:
  assumes "hash_above t n" "hmap t' = (hmap t)(k := x)" "\<And>i. k = VInt i \<Longrightarrow> x \<noteq> None \<Longrightarrow> n \<le> unat (i - 1)"
  shows "hash_above t' n"
  using assms by (auto simp: hash_above_def)

lemma hash_above_mono: "hash_above t n \<Longrightarrow> m \<le> n \<Longrightarrow> hash_above t m"
  unfolding hash_above_def using order_trans by blast

lemma hash_part_arr [simp]:
  "hash_ok (t\<lparr>arr := a\<rparr>) = hash_ok t" "hash_ok (t\<lparr>arr_size := n\<rparr>) = hash_ok t" "hash_ok (t\<lparr>arr_cap := n\<rparr>) = hash_ok t"
  "hmap (t\<lparr>arr := a\<rparr>) = hmap t" "hmap (t\<lparr>arr_size := n\<rparr>) = hmap t" "hmap (t\<lparr>arr_cap := n\<rparr>) = hmap t"
  by (rule hash_part_cong; simp)+

text \<open>The array slot of a key that the hash part does not hold.\<close>

lemma tmap_arr_upd:
  assumes "hmap t (VInt i) = None" "unat (i - 1) < arr_size t" "arr_size t \<le> length (arr t)"
  shows "tmap (t\<lparr>arr := (arr t)[unat (i - 1) := v]\<rparr>) = (tmap t)(VInt i := if v = VNil then None else Some v)"
proof
  fix c
  show "tmap (t\<lparr>arr := (arr t)[unat (i - 1) := v]\<rparr>) c = ((tmap t)(VInt i := if v = VNil then None else Some v)) c"
  proof (cases c)
    case (VInt j)
    show ?thesis
    proof (cases "j = i")
      case True
      then show ?thesis using VInt assms by (simp add: tmap_def arr_val_def)
    next
      case False
      then have "unat (j - 1) \<noteq> unat (i - 1)" using index_inj by blast
      then show ?thesis using VInt assms False by (simp add: tmap_def arr_val_def)
    qed
  qed (simp_all add: tmap_def)
qed

lemma core_arr_upd:
  assumes "core t"
  shows "core (t\<lparr>arr := (arr t)[p := v]\<rparr>)"
proof -
  show ?thesis using assms by (simp add: core_def arr_ok_def plain_def)
qed

lemma tbl_frame_arr [simp]: "tbl_frame t (t\<lparr>arr := a, arr_size := n\<rparr>)" "tbl_frame t (t\<lparr>arr := a\<rparr>)"
  "tbl_frame t (t\<lparr>arr := a, arr_cap := c\<rparr>)" "tbl_frame t (t\<lparr>arr := a, arr_size := n, arr_cap := c\<rparr>)"
  by (simp_all add: tbl_frame_def)

section \<open>Appending to the array\<close>

text \<open>Appending a value whose key the hash part does not hold.\<close>

lemma grow_push_ok:
  assumes c: "core t" and v: "v \<noteq> VNil" and absent: "hmap t (VInt (word_of_nat (arr_size t) + 1)) = None"
  shows "(\<exists>t'. grow_push v t = (Inr (), t') \<and> core t' \<and> tbl_frame t t' \<and> hmap t' = hmap t \<and>
       arr_size t' = arr_size t + 1 \<and> tbl_count t' = tbl_count t \<and> bucket_count t' = bucket_count t \<and>
       tmap t' = (tmap t)(VInt (word_of_nat (arr_size t) + 1) \<mapsto> v)) \<or>
    (\<exists>e. grow_push v t = (Inl e, t) \<and> arr_size t = 65536)"
proof -
  let ?i = "word_of_nat (arr_size t) + 1 :: int64"
  have a: "arr_ok t" and h: "hash_ok t" and p: "plain t" using c by (auto simp: core_def)
  have push: "core (arr_push v s) \<and> tbl_frame t (arr_push v s) \<and> hmap (arr_push v s) = hmap t \<and>
       arr_size (arr_push v s) = arr_size t + 1 \<and> tbl_count (arr_push v s) = tbl_count t \<and>
       bucket_count (arr_push v s) = bucket_count t \<and> tmap (arr_push v s) = (tmap t)(VInt ?i \<mapsto> v)"
    if s: "s = t\<lparr>arr := b, arr_cap := n\<rparr>" and b: "take (arr_size t) b = take (arr_size t) (arr t)"
      and n: "arr_size t < n" "length b = n" "n \<le> 65536" "\<exists>k. n = 2 ^ k" for s b n
  proof -
    have hm: "hmap (arr_push v s) = hmap t" "hash_ok (arr_push v s) = hash_ok t"
      by (simp_all add: s arr_push_def)
    have i: "unat (?i - 1) = arr_size t" using n by (intro unat_Suc_index) simp
    have nth: "b ! q = arr t ! q" if "q < arr_size t" for q
      using b that by (metis nth_take)
    have av: "arr_val (arr_push v s) j = (if j = ?i then v else arr_val t j)" for j
    proof (cases "j = ?i")
      case True
      then show ?thesis using i n by (simp add: arr_val_def arr_push_def s del: add_diff_cancel_right')
    next
      case False
      then have "unat (j - 1) \<noteq> arr_size t" using i index_inj by metis
      then show ?thesis using False n nth by (simp add: arr_val_def arr_push_def s less_Suc_eq)
    qed
    have "tmap (arr_push v s) c = ((tmap t)(VInt ?i \<mapsto> v)) c" for c
      using absent v by (cases c) (simp_all add: tmap_def av hm)
    then have "tmap (arr_push v s) = (tmap t)(VInt ?i \<mapsto> v)" by blast
    moreover have "core (arr_push v s)"
      using n h p hm by (auto simp: core_def arr_ok_def plain_def arr_push_def s)
    ultimately show ?thesis using hm by (simp add: arr_push_def s tbl_frame_def)
  qed
  show ?thesis
  proof (cases "arr_size t = arr_cap t")
    case False
    have same: "t = t\<lparr>arr := arr t, arr_cap := arr_cap t\<rparr>" by simp
    have "arr_size t < arr_cap t" "\<exists>k. arr_cap t = 2 ^ k" using a False by (auto simp: arr_ok_def)
    then have "core (arr_push v t) \<and> tbl_frame t (arr_push v t) \<and> hmap (arr_push v t) = hmap t \<and>
       arr_size (arr_push v t) = arr_size t + 1 \<and> tbl_count (arr_push v t) = tbl_count t \<and>
       bucket_count (arr_push v t) = bucket_count t \<and> tmap (arr_push v t) = (tmap t)(VInt ?i \<mapsto> v)"
      using a by (intro push [OF same refl]) (auto simp: arr_ok_def)
    then show ?thesis using False by (simp add: grow_push_def)
  next
    case True
    note g = TableArrGrow_ok [OF a True]
    show ?thesis
    proof (cases "arr_cap t = 65536")
      case True2: True
      then obtain e where "TableArrGrow t = (Inl e, t)" using g by auto
      then show ?thesis using True True2 by (simp add: grow_push_def)
    next
      case F2: False
      then obtain b n where gr: "TableArrGrow t = (Inr (), t\<lparr>arr := b, arr_cap := n\<rparr>)"
        and b: "take (arr_size t) b = take (arr_size t) (arr t)" and n: "arr_size t < n" "length b = n" "n \<le> 65536" "\<exists>k. n = 2 ^ k"
        using g by auto
      have "grow_push v t = (Inr (), arr_push v (t\<lparr>arr := b, arr_cap := n\<rparr>))" using True gr by (simp add: grow_push_def)
      then show ?thesis using push [OF refl b n] by blast
    qed
  qed
qed

section \<open>Moving keys from the hash part to the array\<close>

lemma hmap_empty: "hash_ok t \<Longrightarrow> tbl_count t = 0 \<Longrightarrow> hmap t = Map.empty"
  using live_length [of t] by (simp add: hmap_def entries_map_def)

lemma hmap_nonempty: "hash_ok t \<Longrightarrow> hmap t k \<noteq> None \<Longrightarrow> 0 < tbl_count t"
  using hmap_empty by fastforce

text \<open>Taking an integer key out of the hash part.\<close>

lemma take_out:
  assumes "core t" "hmap t (VInt i) = Some v"
  shows "\<exists>t'. TableDelete t (VInt i) (IntKeyHash i) = (Inr (), t') \<and> core t' \<and> hash_frame t t' \<and>
    bucket_count t' = bucket_count t \<and> hmap t' = (hmap t)(VInt i := None) \<and> tbl_count t' = tbl_count t - 1"
proof -
  have h: "hash_ok t" using assms(1) by (simp add: core_def)
  from TableDelete_ok [OF h, of "VInt i"] obtain t' where t': "TableDelete t (VInt i) (IntKeyHash i) = (Inr (), t')"
    "hash_ok t'" "hash_frame t t'" "bucket_count t' = bucket_count t" "hmap t' = (hmap t)(VInt i := None)"
    "tbl_count t' = tbl_count t - 1" using assms(2) by auto
  with core_hash_frame [OF assms(1) t'(2,3)] show ?thesis by blast
qed

lemma migrate_ok:
  assumes "core t" "hash_above t (arr_size t)" "tbl_count t < n"
  shows "(\<exists>t'. migrate n t = (Inr (), t') \<and> tinv t' \<and> tbl_frame t t' \<and> tmap t' = tmap t \<and>
       arr_size t' + tbl_count t' = arr_size t + tbl_count t \<and> tbl_count t' \<le> tbl_count t \<and>
       bucket_count t' = bucket_count t) \<or>
    (\<exists>e t'. migrate n t = (Inl e, t') \<and> core t' \<and> tbl_frame t t' \<and> arr_size t' = 65536 \<and>
       tmap t' = (tmap t)(VInt 65537 := None) \<and> 65536 < arr_size t + tbl_count t)"
  using assms
proof (induction n arbitrary: t)
  case 0
  then show ?case by simp
next
  case (Suc n)
  let ?i = "word_of_nat (arr_size t) + 1 :: int64"
  have h: "hash_ok t" and a: "arr_ok t" using Suc.prems(1) by (auto simp: core_def)
  have small: "arr_size t \<le> 65536" using a by (simp add: arr_ok_def)
  have i: "unat (?i - 1) = arr_size t" using small by (intro unat_Suc_index) simp
  show ?case
  proof (cases "hmap t (VInt ?i)")
    case None
    have "hash_above t (arr_size t + 1)" unfolding hash_above_def
    proof (intro allI impI)
      fix j
      assume j: "hmap t (VInt j) \<noteq> None"
      then have "arr_size t \<le> unat (j - 1)" using Suc.prems(2) by (simp add: hash_above_def)
      moreover have "j \<noteq> ?i" using j None by auto
      then have "unat (j - 1) \<noteq> arr_size t" using i index_inj by metis
      ultimately show "arr_size t + 1 \<le> unat (j - 1)" by simp
    qed
    moreover have "migrate (Suc n) t = (Inr (), t)"
      using None TableHashGetInt_nil [OF h, of ?i] by simp
    ultimately show ?thesis using Suc.prems(1) by (simp add: tinv_def)
  next
    case (Some v)
    have v: "v \<noteq> VNil" using hmap_val [OF h Some] .
    have pos: "0 < tbl_count t" using hmap_nonempty [OF h, of "VInt ?i"] Some by simp
    have get: "TableHashGetInt t ?i = v" using TableHashGetInt_ok [OF h] Some by simp
    from take_out [OF Suc.prems(1) Some] obtain s where s: "TableDelete t (VInt ?i) (IntKeyHash ?i) = (Inr (), s)"
      "core s" "hash_frame t s" "bucket_count s = bucket_count t" "hmap s = (hmap t)(VInt ?i := None)"
      "tbl_count s = tbl_count t - 1" by auto
    have fr: "arr_size s = arr_size t" using hash_frame_fields [OF s(3)] by simp
    have off: "off_array t (VInt ?i)" using i by (simp add: off_array_def del: add_diff_cancel_right')
    have tm: "tmap s = (tmap t)(VInt ?i := None)" by (rule tmap_hash_upd [OF s(3,5) off])
    have tv: "tmap t (VInt ?i) = Some v" using Some i by (simp add: tmap_def arr_val_def del: add_diff_cancel_right')
    have step: "migrate (Suc n) t = tbind (grow_push v s) (\<lambda>_ t. migrate n t)"
      using pos v by (simp add: get s(1))
    have "hmap s (VInt (word_of_nat (arr_size s) + 1)) = None" by (simp add: s(5) fr)
    from grow_push_ok [OF s(2) v this] show ?thesis
    proof (elim disjE exE conjE)
      fix u
      assume u: "grow_push v s = (Inr (), u)" "core u" "tbl_frame s u" "hmap u = hmap s" "arr_size u = arr_size s + 1"
        "tbl_count u = tbl_count s" "bucket_count u = bucket_count s" "tmap u = (tmap s)(VInt (word_of_nat (arr_size s) + 1) \<mapsto> v)"
      have tmu: "tmap u = tmap t" using tv by (auto simp: u(8) tm fr fun_eq_iff)
      have "hash_above u (arr_size u)" unfolding hash_above_def
      proof (intro allI impI)
        fix j
        assume j: "hmap u (VInt j) \<noteq> None"
        then have "hmap t (VInt j) \<noteq> None" "j \<noteq> ?i" by (auto simp: u(4) s(5) split: if_splits)
        then have "arr_size t \<le> unat (j - 1)" "unat (j - 1) \<noteq> arr_size t"
          using Suc.prems(2) i index_inj by (auto simp: hash_above_def)
        then show "arr_size u \<le> unat (j - 1)" by (simp add: u(5) fr)
      qed
      moreover have "tbl_count u < n" using Suc.prems(3) pos by (simp add: u(6) s(6))
      ultimately have "(\<exists>t'. migrate n u = (Inr (), t') \<and> tinv t' \<and> tbl_frame u t' \<and> tmap t' = tmap u \<and>
         arr_size t' + tbl_count t' = arr_size u + tbl_count u \<and> tbl_count t' \<le> tbl_count u \<and>
         bucket_count t' = bucket_count u) \<or>
        (\<exists>e t'. migrate n u = (Inl e, t') \<and> core t' \<and> tbl_frame u t' \<and> arr_size t' = 65536 \<and>
         tmap t' = (tmap u)(VInt 65537 := None) \<and> 65536 < arr_size u + tbl_count u)"
        using Suc.IH u(2) by blast
      moreover have tf: "tbl_frame u t' \<Longrightarrow> tbl_frame t t'" for t'
        using tbl_frame_trans [OF tbl_frame_trans [OF hash_frame_tbl [OF s(3)] u(3)]] .
      moreover have "migrate (Suc n) t = migrate n u" by (simp only: step u(1) tbind_simps)
      moreover have "arr_size u = arr_size t + 1" "tbl_count u = tbl_count t - 1" "bucket_count u = bucket_count t"
        by (simp_all add: u(5,6,7) fr s(4,6))
      ultimately show ?thesis
        using pos unfolding tmu by (elim disjE exE conjE) (fastforce simp del: migrate.simps)+
    next
      fix e
      assume e: "grow_push v s = (Inl e, s)" "arr_size s = 65536"
      then have "migrate (Suc n) t = (Inl e, s)" by (simp only: step tbind_simps)
      moreover have "tmap s = (tmap t)(VInt 65537 := None)" using e(2) fr by (simp add: tm)
      ultimately show ?thesis using e(2) fr s(2) pos hash_frame_tbl [OF s(3)] by (auto simp del: migrate.simps)
    qed
  qed
qed

section \<open>Setting an integer key in the array\<close>

text \<open>
  What a write leaves: the updated map and the invariant; or an exception, at a limit of the
  allocator, with a table that is still well formed.
\<close>

definition at_limit :: "VarTable \<Rightarrow> bool" where
  "at_limit t \<longleftrightarrow> 16384 \<le> arr_size t + tbl_count t \<or> bucket_count t = 8192"

definition writes :: "VarTable \<Rightarrow> (cvar \<rightharpoonup> cvar) \<Rightarrow> 'a tstep \<Rightarrow> bool" where
  "writes t m rt \<longleftrightarrow> (case rt of
     (Inr _, t') \<Rightarrow> tinv t' \<and> tbl_frame t t' \<and> tmap t' = m
   | (Inl _, t') \<Rightarrow> core t' \<and> tbl_frame t t' \<and> at_limit t)"

definition val_opt :: "cvar \<Rightarrow> cvar option" where
  "val_opt v = (if v = VNil then None else Some v)"

lemma tbl_count_bound:
  assumes "core t"
  shows "tbl_count t \<le> 8192"
  using assms by (auto simp: core_def hash_ok_def quick_inv_def bucket_inv_def hash_inv_def shape_ok_def QUICK_DATA_SIZE_def split: if_splits)

lemma TableArrSetInt_ok:
  assumes t: "tinv t"
  shows "TableArrSetInt t k v = (Inr False, t) \<and> arr_size t \<le> unat (k - 1) \<and> (unat (k - 1) = arr_size t \<longrightarrow> v = VNil) \<or>
    (\<exists>t'. TableArrSetInt t k v = (Inr True, t') \<and> tinv t' \<and> tbl_frame t t' \<and> tmap t' = (tmap t)(VInt k := val_opt v)) \<or>
    (\<exists>e t'. TableArrSetInt t k v = (Inl e, t') \<and> core t' \<and> tbl_frame t t' \<and> 65536 \<le> arr_size t + tbl_count t)"
proof -
  have c: "core t" and ab: "hash_above t (arr_size t + 1)" using t by (auto simp: tinv_def)
  have set0: "spec_set t = 0" using c by (simp add: core_def plain_def)
  show ?thesis
  proof (cases "unat (k - 1) < arr_size t")
    case True
    let ?t = "t\<lparr>arr := (arr t)[unat (k - 1) := v]\<rparr>"
    have no: "hmap t (VInt k) = None" using ab True by (force simp: hash_above_def)
    have le: "arr_size t \<le> length (arr t)" using c by (simp add: core_def arr_ok_def)
    have "TableArrSetInt t k v = (Inr True, ?t)" using True by (simp add: TableArrSetInt_def Let_def)
    moreover have "tinv ?t" using c ab core_arr_upd [OF c] by (simp add: tinv_def hash_above_def)
    moreover have "tmap ?t = (tmap t)(VInt k := val_opt v)"
      using tmap_arr_upd [OF no True le] by (simp add: val_opt_def)
    ultimately show ?thesis by (intro disjI2 disjI1 exI [of _ ?t]) simp
  next
    case out: False
    show ?thesis
    proof (cases "unat (k - 1) = arr_size t \<and> v \<noteq> VNil")
      case False
      then show ?thesis using out by (auto simp: TableArrSetInt_def Let_def)
    next
      case True
      then have k: "k = word_of_nat (arr_size t) + 1" and v: "v \<noteq> VNil" using index_word by blast+
      have no: "hmap t (VInt (word_of_nat (arr_size t) + 1)) = None"
        using ab True k by (force simp: hash_above_def)
      have set: "TableArrSetInt t k v = tbind (grow_push v t) (\<lambda>_ t. tbind (migrate (Suc (tbl_count t)) t) (\<lambda>_ t. (Inr True, t)))"
        using True set0 by (simp add: TableArrSetInt_def Let_def del: migrate.simps)
      from grow_push_ok [OF c v no] show ?thesis
      proof (elim disjE exE conjE)
        fix u
        assume u: "grow_push v t = (Inr (), u)" "core u" "tbl_frame t u" "hmap u = hmap t" "arr_size u = arr_size t + 1"
          "tbl_count u = tbl_count t" "tmap u = (tmap t)(VInt (word_of_nat (arr_size t) + 1) \<mapsto> v)"
        have ua: "hash_above u (arr_size u)" using ab by (simp add: hash_above_def u(4,5))
        have set2: "TableArrSetInt t k v = tbind (migrate (Suc (tbl_count u)) u) (\<lambda>_ t. (Inr True, t))"
          by (simp only: set u(1) tbind_simps)
        from migrate_ok [OF u(2) ua lessI] show ?thesis
        proof (elim disjE exE conjE)
          fix t'
          assume m: "migrate (Suc (tbl_count u)) u = (Inr (), t')" "tinv t'" "tbl_frame u t'" "tmap t' = tmap u"
          have "TableArrSetInt t k v = (Inr True, t')" by (simp only: set2 m(1) tbind_simps)
          then show ?thesis using m tbl_frame_trans [OF u(3) m(3)] u(7) k v by (simp add: val_opt_def)
        next
          fix e t'
          assume m: "migrate (Suc (tbl_count u)) u = (Inl e, t')" "core t'" "tbl_frame u t'" "65536 < arr_size u + tbl_count u"
          have "TableArrSetInt t k v = (Inl e, t')" by (simp only: set2 m(1) tbind_simps)
          then show ?thesis using m tbl_frame_trans [OF u(3) m(3)] u(5,6) by simp
        qed
      next
        fix e
        assume g: "grow_push v t = (Inl e, t)" "arr_size t = 65536"
        have "TableArrSetInt t k v = (Inl e, t)" by (simp only: set g(1) tbind_simps)
        then show ?thesis using g(2) c by simp
      qed
    qed
  qed
qed

section \<open>Resizing the array\<close>

lemma count_key_total: "snd (count_key k h) \<le> snd h + 1"
  by (cases h) (simp add: count_key_def Let_def)

lemma key_histogram_total:
  assumes "hash_ok t"
  shows "snd (key_histogram t k) \<le> arr_size t + tbl_count t + 1"
proof -
  have f: "snd (fold f xs h) \<le> snd h + length xs"
    if "\<And>x h. snd (f x h) \<le> snd h + 1" for f :: "'a \<Rightarrow> nat list \<times> nat \<Rightarrow> nat list \<times> nat" and xs h
  proof (induction xs arbitrary: h)
    case (Cons x xs)
    from Cons [of "f x h"] that [of x h] show ?case by simp
  qed simp
  let ?f = "\<lambda>i h. if arr t ! i \<noteq> VNil then count_key (word_of_nat i + 1) h else h"
  let ?g = "\<lambda>e h. case e_key e of VInt k \<Rightarrow> count_key k h | _ \<Rightarrow> h"
  have "snd (?f x h) \<le> snd h + 1" for x h using count_key_total le_SucI by auto
  from f [of ?f, OF this, of "[0..<arr_size t]" "(replicate 32 0, 0)"]
  have 1: "snd (fold ?f [0..<arr_size t] (replicate 32 0, 0)) \<le> arr_size t" by simp
  have "snd (?g e h) \<le> snd h + 1" for e h using count_key_total [of _ h] by (cases "e_key e") auto
  from f [of ?g, OF this, of "live_entries t"] 1
  have "snd (fold ?g (live_entries t) (fold ?f [0..<arr_size t] (replicate 32 0, 0))) \<le> arr_size t + tbl_count t"
    using live_length [OF assms] by (metis (no_types, lifting) add.commute add_le_cancel_left order_trans)
  with count_key_total [of k "fold ?g (live_entries t) (fold ?f [0..<arr_size t] (replicate 32 0, 0))"]
  show ?thesis by (simp add: key_histogram_def Let_def)
qed

lemma optimal_size_bound:
  assumes "two = 2 ^ i" "opt < 2 * tot \<or> opt = 0" "opt = 0 \<or> (\<exists>k. opt = 2 ^ k)"
  shows "let r = optimal_size i nums tot a opt two in (r < 2 * tot \<or> r = 0) \<and> (r = 0 \<or> (\<exists>k. r = 2 ^ k))"
  using assms
proof (induction nums arbitrary: i a opt two)
  case (Cons n nums)
  show ?case
  proof (cases "i < 31 \<and> tot > two div 2")
    case True
    then have "two < 2 * tot" by linarith
    with Cons.prems have "(if a + n > two div 2 then two else opt) < 2 * tot \<or> (if a + n > two div 2 then two else opt) = 0"
      "(if a + n > two div 2 then two else opt) = 0 \<or> (\<exists>k. (if a + n > two div 2 then two else opt) = 2 ^ k)"
      by auto
    moreover have "two * 2 = 2 ^ (i + 1)" using Cons.prems(1) by simp
    ultimately have "let r = optimal_size (i + 1) nums tot (a + n) (if a + n > two div 2 then two else opt) (two * 2) in
        (r < 2 * tot \<or> r = 0) \<and> (r = 0 \<or> (\<exists>k. r = 2 ^ k))"
      using Cons.IH by blast
    then show ?thesis using True by (simp only: optimal_size.simps Let_def if_True simp_thms)
  next
    case False
    then show ?thesis using Cons.prems(2,3) unfolding optimal_size.simps Let_def if_not_P [OF False] by blast
  qed
qed (simp add: Let_def)

text \<open>Moving the keys of the new slots out of the hash part.\<close>

lemma pull_keys_ok:
  assumes "core t" "hash_above t m" "m + n = arr_size t" "\<And>p. m \<le> p \<Longrightarrow> p < arr_size t \<Longrightarrow> arr t ! p = VNil"
  shows "\<exists>t'. pull_keys [m + 1..<arr_size t + 1] t = (Inr (), t') \<and> core t' \<and> hash_above t' (arr_size t) \<and>
    tmap t' = tmap t \<and> tbl_frame t t' \<and> arr_size t' = arr_size t \<and> tbl_count t' \<le> tbl_count t \<and>
    bucket_count t' = bucket_count t"
  using assms
proof (induction n arbitrary: t m)
  case 0
  then show ?case by simp
next
  case (Suc n)
  let ?i = "word_of_nat (m + 1) :: int64"
  have h: "hash_ok t" and a: "arr_ok t" using Suc.prems(1) by (auto simp: core_def)
  have small: "arr_size t \<le> 65536" using a by (simp add: arr_ok_def)
  have i: "unat (?i - 1) = m" "?i = word_of_nat m + 1" using small Suc.prems(3) by (simp_all add: unat_of_nat)
  have list: "[m + 1..<arr_size t + 1] = (m + 1) # [(m + 1) + 1..<arr_size t + 1]"
    using Suc.prems(3) by (simp add: upt_conv_Cons del: upt_Suc)
  show ?case
  proof (cases "tbl_count t = 0")
    case True
    then have "hash_above t (arr_size t)" using hmap_empty [OF h] by (simp add: hash_above_def)
    then show ?thesis using True Suc.prems(1) unfolding list by (simp del: upt_Suc)
  next
    case nz: False
    show ?thesis
    proof (cases "hmap t (VInt ?i)")
      case None
      have "hash_above t (m + 1)" unfolding hash_above_def
      proof (intro allI impI)
        fix j
        assume j: "hmap t (VInt j) \<noteq> None"
        then have "m \<le> unat (j - 1)" using Suc.prems(2) by (simp add: hash_above_def)
        moreover have "unat (j - 1) \<noteq> m" using j None i(1) index_inj by metis
        ultimately show "m + 1 \<le> unat (j - 1)" by simp
      qed
      moreover have "TableHashGetInt t ?i = VNil" using None TableHashGetInt_nil [OF h] by blast
      ultimately show ?thesis using nz Suc.IH [of t "m + 1"] Suc.prems unfolding list by (simp del: upt_Suc of_nat_add of_nat_Suc)
    next
      case (Some v)
      have v: "v \<noteq> VNil" using hmap_val [OF h Some] .
      have get: "TableHashGetInt t ?i = v" using TableHashGetInt_ok [OF h] Some by simp
      from take_out [OF Suc.prems(1) Some] obtain s where s: "TableDelete t (VInt ?i) (IntKeyHash ?i) = (Inr (), s)"
        "core s" "hash_frame t s" "bucket_count s = bucket_count t" "hmap s = (hmap t)(VInt ?i := None)"
        "tbl_count s = tbl_count t - 1" by auto
      note fr = hash_frame_fields [OF s(3)]
      let ?u = "s\<lparr>arr := (arr s)[unat (?i - 1) := v]\<rparr>"
      have av: "arr_val t ?i = VNil" using Suc.prems(3,4) i(1) by (simp add: arr_val_def del: of_nat_add of_nat_Suc)
      have "tmap ?u = (tmap s)(VInt ?i \<mapsto> v)"
        using tmap_arr_upd [of s ?i v] Suc.prems(3) i(1) v a by (simp add: s(5) fr arr_ok_def del: of_nat_add of_nat_Suc)
      moreover have "tmap s c = (if c = VInt ?i then None else tmap t c)" for c
        using av by (cases c) (auto simp: tmap_def arr_val_frame [OF s(3)] s(5) simp del: of_nat_add of_nat_Suc)
      moreover have "tmap t (VInt ?i) = Some v" using Some av by (simp add: tmap_def)
      ultimately have tm: "tmap ?u = tmap t" by (auto simp: fun_eq_iff)
      have "hash_above ?u (m + 1)" unfolding hash_above_def
      proof (intro allI impI)
        fix j
        assume "hmap ?u (VInt j) \<noteq> None"
        then have j: "hmap t (VInt j) \<noteq> None" "j \<noteq> ?i" by (auto simp: s(5) simp del: of_nat_add of_nat_Suc split: if_splits)
        then have "m \<le> unat (j - 1)" using Suc.prems(2) by (simp add: hash_above_def)
        moreover have "unat (j - 1) \<noteq> m" using j(2) i(1) index_inj by metis
        ultimately show "m + 1 \<le> unat (j - 1)" by simp
      qed
      moreover have "(m + 1) + n = arr_size ?u" using Suc.prems(3) fr by simp
      moreover have "arr ?u ! p = VNil" if "m + 1 \<le> p" "p < arr_size ?u" for p
        using Suc.prems(4) [of p] that fr i(1) by (simp del: of_nat_add of_nat_Suc)
      moreover have cu: "core ?u" by (rule core_arr_upd [OF s(2)])
      ultimately obtain t' where t': "pull_keys [(m + 1) + 1..<arr_size ?u + 1] ?u = (Inr (), t')" "core t'"
        "hash_above t' (arr_size ?u)" "tmap t' = tmap ?u" "tbl_frame ?u t'" "arr_size t' = arr_size ?u"
        "tbl_count t' \<le> tbl_count ?u" "bucket_count t' = bucket_count ?u"
        using Suc.IH [OF cu] by blast
      have "pull_keys [m + 1..<arr_size t + 1] t = pull_keys [(m + 1) + 1..<arr_size t + 1] ?u"
        unfolding list pull_keys.simps Let_def get if_not_P [OF nz] if_not_P [OF v] s(1) tbind_simps
        by (simp only: i(1) add_diff_cancel_right')
      then have "pull_keys [m + 1..<arr_size t + 1] t = (Inr (), t')" using t'(1) fr by (simp del: upt_Suc)
      moreover have "tbl_frame t t'"
        using tbl_frame_trans [OF tbl_frame_trans [OF hash_frame_tbl [OF s(3)] tbl_frame_arr(2)] t'(5)] .
      ultimately show ?thesis using t' tm fr s(4,6) by simp
    qed
  qed
qed

lemma TableArrTryResize_ok:
  assumes t: "tinv t"
  shows "TableArrTryResize t k = (Inr False, t) \<or>
    (\<exists>t'. TableArrTryResize t k = (Inr True, t') \<and> tinv t' \<and> tbl_frame t t' \<and> tmap t' = tmap t \<and>
       tbl_count t' \<le> tbl_count t \<and> bucket_count t' = bucket_count t \<and> arr_size t \<le> arr_size t' \<and>
       (\<not> at_limit t \<longrightarrow> arr_size t' + tbl_count t' < 65536)) \<or>
    (\<exists>e t'. TableArrTryResize t k = (Inl e, t') \<and> core t' \<and> tbl_frame t t' \<and> at_limit t)"
proof -
  have c: "core t" and ab: "hash_above t (arr_size t + 1)" using t by (auto simp: tinv_def)
  have h: "hash_ok t" and a: "arr_ok t" and p: "plain t" using c by (auto simp: core_def)
  obtain nums tot where kh: "key_histogram t k = (nums, tot)" by (cases "key_histogram t k")
  have tot: "tot \<le> arr_size t + tbl_count t + 1" using key_histogram_total [OF h, of k] kh by simp
  let ?o = "optimal_size 0 nums tot 0 0 1"
  have o: "?o < 2 * tot \<or> ?o = 0" "?o = 0 \<or> (\<exists>k. ?o = 2 ^ k)"
    using optimal_size_bound [of 1 0 0 tot nums 0] by (simp_all add: Let_def)
  show ?thesis
  proof (cases "?o \<le> arr_size t")
    case True
    then show ?thesis by (simp add: TableArrTryResize_def kh)
  next
    case big: False
    let ?t1 = "t\<lparr>arr := arr_resize t ?o, arr_cap := ?o, arr_size := ?o\<rparr>"
    have tr: "TableArrTryResize t k = tbind (table_alloc (?o * sizeof_CVar) t) (\<lambda>_ t.
        tbind (pull_keys [arr_size t + 1..<?o + 1] (t\<lparr>arr := arr_resize t ?o, arr_cap := ?o, arr_size := ?o\<rparr>)) (\<lambda>_ t.
          tbind (migrate (Suc (tbl_count t)) t) (\<lambda>_ t. (Inr True, t))))"
      using big by (simp add: TableArrTryResize_def kh Let_def del: upt_Suc migrate.simps)
    show ?thesis
    proof (cases "65536 < ?o")
      case True
      then have lim: "at_limit t" using o tot by (auto simp: at_limit_def)
      from True have "table_alloc (?o * sizeof_CVar) t = (Inl (alloc_size_error (?o * sizeof_CVar)), t)"
        by (simp add: table_alloc_def sizeof_CVar_def BLOCK_SIZE_def)
      then have "TableArrTryResize t k = (Inl (alloc_size_error (?o * sizeof_CVar)), t)" by (simp only: tr tbind_simps)
      then show ?thesis using c lim by simp
    next
      case fits: False
      then have "table_alloc (?o * sizeof_CVar) t = (Inr (), t)"
        by (simp add: table_alloc_def sizeof_CVar_def BLOCK_SIZE_def)
      then have tr2: "TableArrTryResize t k = tbind (pull_keys [arr_size t + 1..<arr_size ?t1 + 1] ?t1) (\<lambda>_ t.
          tbind (migrate (Suc (tbl_count t)) t) (\<lambda>_ t. (Inr True, t)))"
        by (simp add: tr del: upt_Suc migrate.simps)
      have len: "length (arr_resize t ?o) = ?o" using a big by (simp add: arr_resize_def arr_ok_def)
      have nth: "arr_resize t ?o ! q = (if q < arr_size t then arr t ! q else VNil)" if "q < ?o" for q
        using that a by (simp add: arr_resize_def arr_ok_def nth_append)
      have c1: "core ?t1" using c fits o len by (auto simp: core_def arr_ok_def plain_def)
      have av: "arr_val ?t1 j = arr_val t j" for j
        using nth big by (simp add: arr_val_def)
      have "tmap ?t1 c = tmap t c" for c unfolding tmap_def av by (cases c) simp_all
      then have tm1: "tmap ?t1 = tmap t" by blast
      have ab1: "hash_above ?t1 (arr_size t)" using ab by (force simp: hash_above_def)
      have "arr ?t1 ! q = VNil" if "arr_size t \<le> q" "q < arr_size ?t1" for q using that nth by simp
      then obtain u where u: "pull_keys [arr_size t + 1..<arr_size ?t1 + 1] ?t1 = (Inr (), u)" "core u"
        "hash_above u (arr_size ?t1)" "tmap u = tmap ?t1" "tbl_frame ?t1 u" "arr_size u = arr_size ?t1"
        "tbl_count u \<le> tbl_count ?t1" "bucket_count u = bucket_count ?t1"
        using pull_keys_ok [OF c1 ab1, of "?o - arr_size t"] big by auto
      have tf: "tbl_frame t u" by (rule tbl_frame_trans [OF _ u(5)]) (simp add: tbl_frame_def)
      have tr3: "TableArrTryResize t k = tbind (migrate (Suc (tbl_count u)) u) (\<lambda>_ t. (Inr True, t))"
        by (simp only: tr2 u(1) tbind_simps)
      have sum: "\<not> at_limit t \<Longrightarrow> arr_size u + tbl_count u < 65536"
        using o tot u(6,7) tbl_count_bound [OF c] by (auto simp: at_limit_def)
      have ua: "hash_above u (arr_size u)" using u(3,6) by simp
      from migrate_ok [OF u(2) ua lessI] show ?thesis
      proof (elim disjE exE conjE)
        fix t'
        assume m: "migrate (Suc (tbl_count u)) u = (Inr (), t')" "tinv t'" "tbl_frame u t'" "tmap t' = tmap u"
          "arr_size t' + tbl_count t' = arr_size u + tbl_count u" "tbl_count t' \<le> tbl_count u" "bucket_count t' = bucket_count u"
        have "TableArrTryResize t k = (Inr True, t')" by (simp only: tr3 m(1) tbind_simps)
        moreover have "arr_size t \<le> arr_size t'" using m(5,6) u(6) big by simp
        moreover have "tmap t' = tmap t" "tbl_count t' \<le> tbl_count t" "bucket_count t' = bucket_count t"
          using m(4,6,7) u(4,7,8) tm1 by simp_all
        ultimately show ?thesis using m(2,5) tbl_frame_trans [OF tf m(3)] sum by simp
      next
        fix e t'
        assume m: "migrate (Suc (tbl_count u)) u = (Inl e, t')" "core t'" "tbl_frame u t'" "65536 < arr_size u + tbl_count u"
        have "TableArrTryResize t k = (Inl e, t')" by (simp only: tr3 m(1) tbind_simps)
        then show ?thesis using m tbl_frame_trans [OF tf m(3)] sum by auto
      qed
    qed
  qed
qed

section \<open>Writes to the hash part\<close>

text \<open>The key is neither in the array nor next to it, where the array would take it.\<close>

definition beyond :: "VarTable \<Rightarrow> cvar \<Rightarrow> bool" where
  "beyond t k \<longleftrightarrow> (\<forall>i. k = VInt i \<longrightarrow> arr_size t < unat (i - 1))"

lemma beyond_off: "beyond t k \<Longrightarrow> off_array t k"
  by (auto simp: beyond_def off_array_def)

lemma hash_insert_tinv:
  assumes t: "tinv t" and s: "hash_ok t'" "hash_frame t t'" "hmap t' = (hmap t)(canon key \<mapsto> v)"
    and b: "beyond t key"
  shows "tinv t' \<and> tbl_frame t t' \<and> tmap t' = (tmap t)(canon key \<mapsto> v)"
proof -
  have off: "off_array t (canon key)" using b by (simp add: beyond_def off_array_def less_imp_le)
  have "hash_above t' (arr_size t + 1)"
    by (rule hash_above_upd [OF _ s(3)]) (use t b in \<open>auto simp: tinv_def beyond_def Suc_leI\<close>)
  moreover have "core t'" using core_hash_frame [OF _ s(1,2)] t by (simp add: tinv_def)
  ultimately show ?thesis
    using tmap_hash_upd [OF s(2,3) off] hash_frame_tbl [OF s(2)] hash_frame_fields [OF s(2)] by (simp add: tinv_def)
qed

lemma quick_push_ok:
  assumes "tinv t" "bucket_count t = 0" "tbl_count t < QUICK_DATA_SIZE" "key_ok key" "v \<noteq> VNil"
    "hmap t (canon key) = None" "beyond t key"
  defines "t' \<equiv> quick_push t key v (VarKeyHash key)"
  shows "tinv t' \<and> tbl_frame t t' \<and> tmap t' = (tmap t)(canon key \<mapsto> v)"
proof (rule hash_insert_tinv [OF assms(1)])
  let ?e = "\<lparr>e_key = key, e_val = v, e_hash = VarKeyHash key\<rparr>"
  have q: "quick_inv t" using assms(1,2) by (simp add: tinv_def core_def hash_ok_def)
  then have live: "live_entries t' = live_entries t @ [?e]"
    using assms(2,3) by (simp add: t'_def quick_push_def live_entries_def quick_inv_def take_Suc_conv_app_nth)
  have "\<forall>e \<in> set (live_entries t). canon (e_key e) \<noteq> canon key"
    using assms(6) by (simp add: hmap_def entries_map_None)
  then have d: "entries_distinct (live_entries t @ [?e])"
    using q by (auto simp: quick_inv_def entries_distinct_def)
  show "hmap t' = (hmap t)(canon key \<mapsto> v)" using entries_map_snoc [OF d] by (simp add: hmap_def live)
  show "hash_frame t t'" by (simp add: t'_def quick_push_def hash_frame_def)
  have "entry_ok ?e" using assms(4,5) by (simp add: entry_ok_def)
  moreover have "bucket_count t' = 0" "tbl_count t' = tbl_count t + 1" "length (quick_data t') = length (quick_data t)"
    using assms(2) by (simp_all add: t'_def quick_push_def)
  ultimately have "quick_inv t'" using q d assms(3) by (auto simp: quick_inv_def live)
  then show "hash_ok t'" by (simp add: hash_ok_def quick_inv_def)
  show "beyond t key" by fact
qed

text \<open>An insertion into the buckets with a free node, or right after a rehash.\<close>

lemma bucket_insert_ok:
  assumes t: "tinv t" and b: "bucket_inv t" and key: "key_ok key" "v \<noteq> VNil" "beyond t key"
    and room: "free_list_idx t \<noteq> INVALID_INDEX \<and> tbl_count t < bucket_count t \<or>
      tbl_count t \<le> bucket_count t div 2 \<and> 2 \<le> bucket_count t"
  shows "\<exists>t'. TableInsertRaw t key v (VarKeyHash key) = (Inr True, t') \<and> tinv t' \<and> tbl_frame t t' \<and>
    tmap t' = (tmap t)(canon key \<mapsto> v)"
proof -
  obtain ch fl where inv: "hash_inv t ch fl" using b by (auto simp: bucket_inv_def)
  have parts: "shape_ok t ch fl" "chains_ok t ch fl" "active_ok t ch" using inv by (auto simp: hash_inv_def)
  have lt: "tbl_count t < bucket_count t" using room by auto
  then have "tbl_count t < total_nodes t" by (simp add: total_nodes_def)
  from TableInsertRaw_ok [OF inv key(1,2) this] obtain ok t' where r: "TableInsertRaw t key v (VarKeyHash key) = (Inr ok, t')"
    "hash_frame t t'" "bucket_count t' = bucket_count t" "quick_data t' = quick_data t"
    "if ok then (\<exists>ch' fl'. hash_inv t' ch' fl') \<and> hmap t' = (hmap t)(canon key \<mapsto> v) \<and>
        tbl_count t' = tbl_count t + (if hmap t (canon key) = None then 1 else 0) \<and>
        (hmap t (canon key) = None \<longrightarrow> live_entries t' = live_entries t @ [\<lparr>e_key = key, e_val = v, e_hash = VarKeyHash key\<rparr>])
     else t' = t \<and> fl = [] \<and> hmap t (canon key) = None \<and> node_key t (bucket_of t (VarKeyHash key)) \<noteq> VNil"
    by blast
  have ok: "ok"
  proof (rule ccontr)
    assume "\<not> ok"
    then have e: "fl = []" "node_key t (bucket_of t (VarKeyHash key)) \<noteq> VNil" using r(5) by auto
    have "tbl_count t \<le> bucket_count t div 2" using room e(1) free_iff [OF parts(2)] by auto
    from free_when_half [OF parts(1,3) this bucket_of_less [OF parts(1)] e(2)] e(1) show False by simp
  qed
  have h: "hash_ok t'"
    using r(3,4,5) ok b lt by (auto simp: hash_ok_def bucket_inv_def)
  from hash_insert_tinv [OF t h r(2) _ key(3)] r(1,5) ok show ?thesis by auto
qed

lemma free_after_rehash:
  assumes "hash_inv t ch fl" "tbl_count t \<le> bucket_count t div 2" "2 \<le> bucket_count t"
  shows "free_list_idx t \<noteq> INVALID_INDEX"
proof
  have parts: "shape_ok t ch fl" "chains_ok t ch fl" "active_ok t ch" using assms(1) by (auto simp: hash_inv_def)
  assume "free_list_idx t = INVALID_INDEX"
  then have fl: "fl = []" using free_iff [OF parts(2)] by simp
  with overflow_count [OF parts(1)] have "length (concat ch) = bucket_count t div 2" by simp
  with assms(3) have "concat ch \<noteq> []" by (cases "concat ch") auto
  then obtain b where "b < length ch" "ch ! b \<noteq> []" by (auto simp: in_set_conv_nth)
  moreover have "length ch = bucket_count t" using parts(1) by (simp add: shape_ok_def)
  ultimately have b: "b < bucket_count t" "node_key t b \<noteq> VNil" using parts(2) by (auto simp: chains_ok_def)
  from free_when_half [OF parts(1,3) assms(2) b] fl show False by simp
qed

lemma TableArrResizeInsert_ok:
  assumes t: "tinv t" and v: "v \<noteq> VNil" and b: "beyond t (VInt k)"
    and new: "bucket_count t = 0 \<Longrightarrow> tmap t (VInt k) = None"
  shows "(\<exists>t'. TableArrResizeInsert t k v = (Inr False, t') \<and> tinv t' \<and> tbl_frame t t' \<and> tmap t' = tmap t \<and>
       tbl_count t' \<le> tbl_count t \<and> bucket_count t' = bucket_count t \<and> (hash_full t \<longrightarrow> hash_full t') \<and>
       beyond t' (VInt k)) \<or>
    (\<exists>t'. TableArrResizeInsert t k v = (Inr True, t') \<and> tinv t' \<and> tbl_frame t t' \<and>
       tmap t' = (tmap t)(VInt k \<mapsto> v)) \<or>
    (\<exists>e t'. TableArrResizeInsert t k v = (Inl e, t') \<and> core t' \<and> tbl_frame t t' \<and> at_limit t)"
  (is "?keep \<or> ?ins \<or> ?lim")
proof (cases "hash_full t")
  case False
  then have "TableArrResizeInsert t k v = (Inr False, t)" by (simp add: TableArrResizeInsert_def)
  then show ?thesis using t b False by simp
next
  case full: True
  have s0: "spec_set t = 0" using t by (simp add: tinv_def core_def plain_def)
  let ?rest = "\<lambda>ok t. if \<not> ok then (Inr False, t)
        else tbind (TableArrSetInt t k v) (\<lambda>ok t.
          if ok then (Inr True, t)
          else if bucket_count t = 0 then
              if tbl_count t < QUICK_DATA_SIZE then (Inr True, quick_push t (VInt k) v (IntKeyHash k)) else (Inr False, t)
            else if tbl_count t < bucket_count t \<and> free_list_idx t \<noteq> INVALID_INDEX then
              tbind (TableInsertRaw t (VInt k) v (IntKeyHash k)) (\<lambda>_ t. (Inr True, t))
            else (Inr False, t))"
  have def: "TableArrResizeInsert t k v = tbind (TableArrTryResize t k) ?rest"
    unfolding TableArrResizeInsert_def Let_def using full s0 by simp
  from TableArrTryResize_ok [OF t, of k] show ?thesis
  proof (elim disjE exE conjE)
    assume r: "TableArrTryResize t k = (Inr False, t)"
    have "TableArrResizeInsert t k v = (Inr False, t)" unfolding def r by simp
    then show ?thesis using t b full by simp
  next
    fix e t'
    assume r: "TableArrTryResize t k = (Inl e, t')" "core t'" "tbl_frame t t'" "at_limit t"
    have "TableArrResizeInsert t k v = (Inl e, t')" unfolding def r(1) by simp
    then show ?thesis using r by simp
  next
    fix u
    assume r: "TableArrTryResize t k = (Inr True, u)" and u: "tinv u" "tbl_frame t u" "tmap u = tmap t"
      "tbl_count u \<le> tbl_count t" "bucket_count u = bucket_count t" "arr_size t \<le> arr_size u"
      "\<not> at_limit t \<longrightarrow> arr_size u + tbl_count u < 65536"
    have def2: "TableArrResizeInsert t k v = ?rest True u" unfolding def r by simp
    from TableArrSetInt_ok [OF u(1), of k v] show ?thesis
    proof (elim disjE exE conjE)
      fix t'
      assume s: "TableArrSetInt u k v = (Inr True, t')" "tinv t'" "tbl_frame u t'" "tmap t' = (tmap u)(VInt k := val_opt v)"
      have "TableArrResizeInsert t k v = (Inr True, t')" unfolding def2 s(1) by simp
      then have ?ins using s(2,4) tbl_frame_trans [OF u(2) s(3)] u(3) v by (simp add: val_opt_def)
      then show ?thesis by blast
    next
      fix e t'
      assume s: "TableArrSetInt u k v = (Inl e, t')" "core t'" "tbl_frame u t'" "65536 \<le> arr_size u + tbl_count u"
      have "TableArrResizeInsert t k v = (Inl e, t')" unfolding def2 s(1) by simp
      then have ?lim using s(2,4) tbl_frame_trans [OF u(2) s(3)] u(7) by auto
      then show ?thesis by blast
    next
      assume s: "TableArrSetInt u k v = (Inr False, u)" "arr_size u \<le> unat (k - 1)" "unat (k - 1) = arr_size u \<longrightarrow> v = VNil"
      then have bu: "beyond u (VInt k)" using v by (auto simp: beyond_def)
      have no: "tmap u (VInt k) = hmap u (VInt k)" using s(2) by (simp add: tmap_def arr_val_def)
      show ?thesis
      proof (cases "hash_full u")
        case True
        then have "TableArrResizeInsert t k v = (Inr False, u)" unfolding def2 s(1)
          by (auto simp: hash_full_def split: if_splits)
        then have ?keep using u bu True by blast
        then show ?thesis by blast
      next
        case room: False
        show ?thesis
        proof (cases "bucket_count u = 0")
          case True
          then have lt: "tbl_count u < QUICK_DATA_SIZE" using room by (simp add: hash_full_def)
          have "hmap u (VInt k) = None" using new True u(3,5) no by simp
          from quick_push_ok [OF u(1) True lt _ v _ bu] this
          have i: "tinv (quick_push u (VInt k) v (IntKeyHash k))" "tbl_frame u (quick_push u (VInt k) v (IntKeyHash k))"
            "tmap (quick_push u (VInt k) v (IntKeyHash k)) = (tmap u)(VInt k \<mapsto> v)" by simp_all
          have "TableArrResizeInsert t k v = (Inr True, quick_push u (VInt k) v (IntKeyHash k))"
            unfolding def2 s(1) using True lt by simp
          then have ?ins using i(1,3) tbl_frame_trans [OF u(2) i(2)] u(3) by simp
          then show ?thesis by blast
        next
          case False
          then have bi: "bucket_inv u" using u(1) by (simp add: tinv_def core_def hash_ok_def)
          have fr: "free_list_idx u \<noteq> INVALID_INDEX \<and> tbl_count u < bucket_count u"
            using room False by (simp add: hash_full_def)
          from bucket_insert_ok [OF u(1) bi _ v bu] fr obtain t' where
            i: "TableInsertRaw u (VInt k) v (IntKeyHash k) = (Inr True, t')" "tinv t'" "tbl_frame u t'"
            "tmap t' = (tmap u)(VInt k \<mapsto> v)" by auto
          have "TableArrResizeInsert t k v = (Inr True, t')" unfolding def2 s(1) using False fr i(1) by simp
          then have ?ins using i tbl_frame_trans [OF u(2) i(3)] u(3) by simp
          then show ?thesis by blast
        qed
      qed
    qed
  qed
qed

text \<open>The rehash, which leaves room for one more key.\<close>

lemma TableRehash_tinv:
  assumes t: "tinv t" and full: "bucket_count t = 0 \<longrightarrow> tbl_count t = 8"
  shows "(\<exists>t'. TableRehash t = (Inr (), t') \<and> tinv t' \<and> tbl_frame t t' \<and> tmap t' = tmap t \<and> bucket_inv t' \<and>
       arr_size t' = arr_size t \<and> 2 \<le> bucket_count t' \<and> tbl_count t' \<le> bucket_count t' div 2 \<and>
       free_list_idx t' \<noteq> INVALID_INDEX) \<or>
    (\<exists>e. TableRehash t = (Inl e, t) \<and> bucket_count t = 8192)"
proof -
  have h: "hash_ok t" using t by (simp add: tinv_def core_def)
  from TableRehash_ok [OF h full] show ?thesis
  proof (elim disjE exE conjE)
    fix t'
    assume r: "TableRehash t = (Inr (), t')" "bucket_inv t'" "hash_frame t t'"
      "bucket_count t' = (if bucket_count t = 0 then 16 else 2 * bucket_count t)"
      "tbl_count t' = tbl_count t" "hmap t' = hmap t" "tbl_count t' \<le> bucket_count t' div 2"
    have two: "2 \<le> bucket_count t'" using r(4) by simp
    have h': "hash_ok t'" using r(2) two by (simp add: hash_ok_def)
    have "core t'" using core_hash_frame [OF _ h' r(3)] t by (simp add: tinv_def)
    moreover have "hash_above t' (arr_size t' + 1)"
      using t hash_frame_fields [OF r(3)] by (simp add: tinv_def hash_above_def r(6))
    moreover have "tmap t' = tmap t"
      unfolding tmap_def arr_val_frame [OF r(3)] r(6) ..
    moreover have "free_list_idx t' \<noteq> INVALID_INDEX"
      using free_after_rehash two r(2,7) by (auto simp: bucket_inv_def)
    ultimately show ?thesis
      using r(1,2,7) two hash_frame_tbl [OF r(3)] hash_frame_fields(2) [OF r(3)] by (simp add: tinv_def)
  qed simp_all
qed

lemma writes_trans:
  assumes "tbl_frame t u" "writes u m r" "at_limit u \<Longrightarrow> at_limit t"
  shows "writes t m r"
  using assms tbl_frame_trans by (auto simp: writes_def split: prod.splits sum.splits)

lemma beyond_eq: "arr_size t' = arr_size t \<Longrightarrow> beyond t' k = beyond t k"
  by (simp add: beyond_def)

lemma resize_insert_if_int_ok:
  assumes t: "tinv t" and v: "v \<noteq> VNil" and b: "beyond t key"
    and new: "bucket_count t = 0 \<longrightarrow> tmap t (canon key) = None"
  shows "(\<exists>t'. resize_insert_if_int t key v = (Inr False, t') \<and> tinv t' \<and> tbl_frame t t' \<and> tmap t' = tmap t \<and>
       tbl_count t' \<le> tbl_count t \<and> bucket_count t' = bucket_count t \<and> (hash_full t \<longrightarrow> hash_full t') \<and>
       beyond t' key) \<or>
    (\<exists>t'. resize_insert_if_int t key v = (Inr True, t') \<and> tinv t' \<and> tbl_frame t t' \<and>
       tmap t' = (tmap t)(canon key \<mapsto> v)) \<or>
    (\<exists>e t'. resize_insert_if_int t key v = (Inl e, t') \<and> core t' \<and> tbl_frame t t' \<and> at_limit t)"
proof (cases "\<exists>i. key = VInt i")
  case True
  then obtain i where i: "key = VInt i" ..
  then have rw: "resize_insert_if_int t key v = TableArrResizeInsert t i v" by (simp add: resize_insert_if_int_def)
  show ?thesis unfolding rw unfolding i canon.simps
    by (rule TableArrResizeInsert_ok [OF t v]) (use b new i in simp_all)
next
  case False
  then have "resize_insert_if_int t key v = (Inr False, t)" by (cases key) (simp_all add: resize_insert_if_int_def)
  then show ?thesis using t b by simp
qed

lemma set_buckets_ok:
  assumes t: "tinv t" and nz: "bucket_count t \<noteq> 0" and key: "key_ok key" "v \<noteq> VNil" "beyond t key"
  shows "writes t ((tmap t)(canon key \<mapsto> v)) (set_buckets t key v (VarKeyHash key))"
proof -
  let ?ins = "\<lambda>t. tbind (TableInsertRaw t key v (VarKeyHash key)) (\<lambda>_ t. (Inr (), t))"
  have bi: "bucket_inv t" using t nz by (simp add: tinv_def core_def hash_ok_def)
  have ins: "writes u ((tmap u)(canon key \<mapsto> v)) (?ins u)"
    if u: "tinv u" "bucket_inv u" "beyond u key" "free_list_idx u \<noteq> INVALID_INDEX" "tbl_count u < bucket_count u" for u
  proof -
    from bucket_insert_ok [OF u(1,2) key(1,2) u(3)] u(4,5) obtain t' where
      "TableInsertRaw u key v (VarKeyHash key) = (Inr True, t')" "tinv t'" "tbl_frame u t'" "tmap t' = (tmap u)(canon key \<mapsto> v)"
      by blast
    then show ?thesis by (simp add: writes_def)
  qed
  show ?thesis
  proof (cases "hash_full t")
    case False
    then have "set_buckets t key v (VarKeyHash key) = ?ins t" using nz by (auto simp: set_buckets_def hash_full_def)
    then show ?thesis using ins [OF t bi key(3)] False nz by (simp add: hash_full_def)
  next
    case True
    then have sb: "set_buckets t key v (VarKeyHash key) = tbind (resize_insert_if_int t key v) (\<lambda>ok t.
          if ok then (Inr (), t) else tbind (TableRehash t) (\<lambda>_ t. ?ins t))"
      unfolding set_buckets_def Let_def using nz by (simp add: hash_full_def)
    have nz': "bucket_count t = 0 \<longrightarrow> tmap t (canon key) = None" using nz by simp
    from resize_insert_if_int_ok [OF t key(2,3) nz'] show ?thesis
    proof (elim disjE exE conjE)
      fix u
      assume r: "resize_insert_if_int t key v = (Inr False, u)" and u: "tinv u" "tbl_frame t u" "tmap u = tmap t"
        "bucket_count u = bucket_count t" "beyond u key"
      have sb2: "set_buckets t key v (VarKeyHash key) = tbind (TableRehash u) (\<lambda>_ t. ?ins t)" unfolding sb r by simp
      have nz2: "bucket_count u = 0 \<longrightarrow> tbl_count u = 8" using nz u(4) by simp
      from TableRehash_tinv [OF u(1) nz2] show ?thesis
      proof (elim disjE exE conjE)
        fix w
        assume w: "TableRehash u = (Inr (), w)" "tinv w" "tbl_frame u w" "tmap w = tmap u" "bucket_inv w"
          "arr_size w = arr_size u" "2 \<le> bucket_count w" "tbl_count w \<le> bucket_count w div 2" "free_list_idx w \<noteq> INVALID_INDEX"
        have "writes w ((tmap t)(canon key \<mapsto> v)) (?ins w)"
          using ins [OF w(2,5) _ w(9)] w(4,6,7,8) u(3,5) beyond_eq [of w u key] by simp
        moreover obtain r' where "?ins w = r'" by blast
        moreover have "set_buckets t key v (VarKeyHash key) = ?ins w" unfolding sb2 w(1) by simp
        moreover have "\<exists>x. ?ins w = (Inr (), x)"
          using bucket_insert_ok [OF w(2,5) key(1,2)] w(6,7,8,9) u(5) beyond_eq [of w u key] by fastforce
        ultimately show ?thesis using tbl_frame_trans [OF tbl_frame_trans [OF u(2) w(3)]] by (auto simp: writes_def)
      next
        fix e
        assume w: "TableRehash u = (Inl e, u)" "bucket_count u = 8192"
        have "set_buckets t key v (VarKeyHash key) = (Inl e, u)" unfolding sb2 w(1) by simp
        then show ?thesis using u w(2) by (simp add: writes_def at_limit_def tinv_def)
      qed
    next
      fix u
      assume r: "resize_insert_if_int t key v = (Inr True, u)" and u: "tinv u" "tbl_frame t u" "tmap u = (tmap t)(canon key \<mapsto> v)"
      have "set_buckets t key v (VarKeyHash key) = (Inr (), u)" unfolding sb r by simp
      then show ?thesis using u by (simp add: writes_def)
    next
      fix e u
      assume r: "resize_insert_if_int t key v = (Inl e, u)" and u: "core u" "tbl_frame t u" "at_limit t"
      have "set_buckets t key v (VarKeyHash key) = (Inl e, u)" unfolding sb r by simp
      then show ?thesis using u by (simp add: writes_def)
    qed
  qed
qed

lemma tmap_off: "off_array t k \<Longrightarrow> tmap t k = hmap t k"
  by (cases k) (auto simp: tmap_def arr_val_def off_array_def)

text \<open>Overwriting an inline entry.\<close>

lemma quick_update_ok:
  assumes t: "tinv t" "bucket_count t = 0" "beyond t key" and key: "key_ok key" "v \<noteq> VNil"
    and f: "find_quick (take (tbl_count t) (quick_data t)) (key_is (VarKeyHash key) key) 0 = Some i"
  defines "t' \<equiv> t\<lparr>quick_data := (quick_data t)[i := (quick_data t ! i)\<lparr>e_val := v\<rparr>]\<rparr>"
  shows "tinv t' \<and> tbl_frame t t' \<and> tmap t' = (tmap t)(canon key \<mapsto> v)"
proof (rule hash_insert_tinv [OF t(1)])
  let ?es = "live_entries t" and ?e = "(quick_data t ! i)\<lparr>e_val := v\<rparr>"
  have q: "quick_inv t" using t(1,2) by (simp add: tinv_def core_def hash_ok_def)
  have es: "?es = take (tbl_count t) (quick_data t)" "length ?es = tbl_count t"
    using q by (auto simp: live_entries_def quick_inv_def)
  from find_quick_Some [OF f] es have i: "i < tbl_count t" "key_is (VarKeyHash key) key (quick_data t ! i)" by auto
  have mem: "quick_data t ! i \<in> set ?es" using i(1) es by (metis nth_mem nth_take)
  then have ok: "entry_ok (quick_data t ! i)" using q by (simp add: quick_inv_def)
  then have c: "canon (e_key (quick_data t ! i)) = canon key" using i(2) key_is_canon key(1) by blast
  have live: "live_entries t' = ?es[i := ?e]"
    using t(2) i(1) by (simp add: t'_def live_entries_def take_update_swap)
  have nth: "?es ! i = quick_data t ! i" using i(1) es by simp
  have d: "entries_distinct ?es" using q by (simp add: quick_inv_def)
  have up: "entries_distinct (?es[i := ?e])" "entries_map (?es[i := ?e]) = (entries_map ?es)(canon (e_key ?e) \<mapsto> e_val ?e)"
    using entries_map_update [OF d, of i ?e] i(1) es(2) nth by simp_all
  then show "hmap t' = (hmap t)(canon key \<mapsto> v)" by (simp add: hmap_def live c)
  show "hash_frame t t'" by (simp add: t'_def hash_frame_def)
  have "\<forall>e \<in> set (?es[i := ?e]). entry_ok e"
    using q ok key(2) set_update_subset_insert [of ?es i ?e] by (auto simp: quick_inv_def entry_ok_def)
  moreover have "bucket_count t' = 0" "tbl_count t' = tbl_count t" "length (quick_data t') = length (quick_data t)"
    using t(2) by (simp_all add: t'_def)
  ultimately have "quick_inv t'" using q up(1) by (simp add: quick_inv_def live)
  then show "hash_ok t'" by (simp add: hash_ok_def quick_inv_def)
  show "beyond t key" by fact
qed

lemma TableSetNonNil_ok:
  assumes t: "tinv t" and key: "key_ok key" "v \<noteq> VNil" "beyond t key"
  shows "writes t ((tmap t)(canon key \<mapsto> v)) (TableSetNonNil t key v (VarKeyHash key))"
proof (cases "bucket_count t = 0")
  case False
  then show ?thesis using set_buckets_ok [OF t False key] by (simp add: TableSetNonNil_def)
next
  case True
  let ?h = "VarKeyHash key"
  have q: "quick_inv t" using t True by (simp add: tinv_def core_def hash_ok_def)
  show ?thesis
  proof (cases "find_quick (take (tbl_count t) (quick_data t)) (key_is ?h key) 0")
    case (Some i)
    then show ?thesis
      using quick_update_ok [OF t True key(3,1,2) Some] True by (simp add: TableSetNonNil_def writes_def)
  next
    case None
    then have "hmap t (canon key) = None"
      using q key_is_canon [OF _ key(1)] True
      by (auto simp: find_quick_None hmap_def entries_map_None live_entries_def quick_inv_def)
    then have new: "tmap t (canon key) = None" "hmap t (canon key) = None"
      using tmap_off [of t "canon key"] key(3) by (simp_all add: beyond_def off_array_def less_imp_le)
    show ?thesis
    proof (cases "tbl_count t < QUICK_DATA_SIZE")
      case lt: True
      then show ?thesis
        using quick_push_ok [OF t True lt key(1,2) new(2) key(3)] None True by (simp add: TableSetNonNil_def writes_def)
    next
      case False
      then have full: "hash_full t" and c8: "tbl_count t = 8"
        using q True by (auto simp: hash_full_def quick_inv_def QUICK_DATA_SIZE_def)
      have sb: "TableSetNonNil t key v ?h = tbind (resize_insert_if_int t key v) (\<lambda>ok t.
          if ok then (Inr (), t) else tbind (TableRehash t) (\<lambda>_ t. set_buckets t key v ?h))"
        unfolding TableSetNonNil_def using None False True by simp
      from new(1) have new': "bucket_count t = 0 \<longrightarrow> tmap t (canon key) = None" by simp
      from resize_insert_if_int_ok [OF t key(2,3) new'] show ?thesis
      proof (elim disjE exE conjE)
        fix u
        assume r: "resize_insert_if_int t key v = (Inr False, u)" and u: "tinv u" "tbl_frame t u" "tmap u = tmap t"
          "tbl_count u \<le> tbl_count t" "bucket_count u = bucket_count t" "hash_full t \<longrightarrow> hash_full u" "beyond u key"
        have c: "bucket_count u = 0 \<longrightarrow> tbl_count u = 8"
          using u(4,5,6) full c8 True by (simp add: hash_full_def QUICK_DATA_SIZE_def)
        have sb2: "TableSetNonNil t key v ?h = tbind (TableRehash u) (\<lambda>_ t. set_buckets t key v ?h)" unfolding sb r by simp
        from TableRehash_tinv [OF u(1) c] show ?thesis
        proof (elim disjE exE conjE)
          fix w
          assume w: "TableRehash u = (Inr (), w)" "tinv w" "tbl_frame u w" "tmap w = tmap u" "bucket_inv w"
            "arr_size w = arr_size u" "2 \<le> bucket_count w" "tbl_count w \<le> bucket_count w div 2" "free_list_idx w \<noteq> INVALID_INDEX"
          have bw: "beyond w key" using u(7) w(6) beyond_eq by blast
          obtain x where x: "TableInsertRaw w key v ?h = (Inr True, x)" "tinv x" "tbl_frame w x" "tmap x = (tmap w)(canon key \<mapsto> v)"
            using bucket_insert_ok [OF w(2,5) key(1,2) bw] w(7,8) by blast
          have "set_buckets w key v ?h = tbind (TableInsertRaw w key v ?h) (\<lambda>_ t. (Inr (), t))"
            using w(7,8,9) by (auto simp: set_buckets_def)
          then have "TableSetNonNil t key v ?h = (Inr (), x)" unfolding sb2 w(1) by (simp add: x(1))
          then show ?thesis
            using x w(4) u(3) tbl_frame_trans [OF tbl_frame_trans [OF u(2) w(3)] x(3)] by (simp add: writes_def)
        next
          fix e
          assume w: "TableRehash u = (Inl e, u)" "bucket_count u = 8192"
          have "TableSetNonNil t key v ?h = (Inl e, u)" unfolding sb2 w(1) by simp
          then show ?thesis using u w(2) by (simp add: writes_def at_limit_def tinv_def)
        qed
      next
        fix u
        assume r: "resize_insert_if_int t key v = (Inr True, u)" and u: "tinv u" "tbl_frame t u" "tmap u = (tmap t)(canon key \<mapsto> v)"
        have "TableSetNonNil t key v ?h = (Inr (), u)" unfolding sb r by simp
        then show ?thesis using u by (simp add: writes_def)
      next
        fix e u
        assume r: "resize_insert_if_int t key v = (Inl e, u)" and u: "core u" "tbl_frame t u" "at_limit t"
        have "TableSetNonNil t key v ?h = (Inl e, u)" unfolding sb r by simp
        then show ?thesis using u by (simp add: writes_def)
      qed
    qed
  qed
qed

lemma hash_write_ok:
  assumes t: "tinv t" and key: "key_ok key" and b: "off_array t key" "v \<noteq> VNil \<Longrightarrow> beyond t key"
  shows "writes t ((tmap t)(canon key := val_opt v)) (hash_write t key v (VarKeyHash key))"
proof (cases "v = VNil")
  case False
  then show ?thesis using TableSetNonNil_ok [OF t key False b(2)] by (simp add: hash_write_def val_opt_def)
next
  case True
  have h: "hash_ok t" using t by (simp add: tinv_def core_def)
  from TableDelete_ok [OF h key] obtain u where u: "TableDelete t key (VarKeyHash key) = (Inr (), u)" "hash_ok u"
    "hash_frame t u" "hmap u = (hmap t)(canon key := None)" by blast
  have off: "off_array t (canon key)" using b(1) by (simp add: off_array_def)
  have "hash_above u (arr_size t + 1)"
    by (rule hash_above_upd [OF _ u(4)]) (use t in \<open>auto simp: tinv_def\<close>)
  then have "tinv u" using core_hash_frame [OF _ u(2,3)] t hash_frame_fields [OF u(3)] by (simp add: tinv_def)
  then show ?thesis
    using u(1) tmap_hash_upd [OF u(3,4) off] hash_frame_tbl [OF u(3)] True
    by (simp add: hash_write_def val_opt_def writes_def)
qed

end
