(* ===== verification/TableMap.thy ===== *)
theory TableMap
imports TableWrites
begin

text \<open>
  What the table operations promise, over the map of a plain table: reads return the map's value,
  writes update it, the cached length is the first border, enumeration lists the map. The interface
  that the library functions rely on is the locale \<open>table_interface\<close>.
\<close>

section \<open>Reads\<close>

lemma core_spec:
  assumes "core t"
  shows "spec_get_call env t k = None" "spec_set_call env t k v = None" "spec_lookup t P = None" "spec_index t P = None"
    "SeqCacheable t" "spec_pairs t = []"
  using assms by (auto simp: core_def plain_def spec_get_call_def spec_set_call_def spec_lookup_def
      spec_index_def SeqCacheable_def spec_pairs_def split: option.splits)

lemma tinv_core: "tinv t \<Longrightarrow> core t"
  by (simp add: tinv_def)

lemmas plain_spec = core_spec [OF tinv_core]

definition map_val :: "(cvar \<rightharpoonup> cvar) \<Rightarrow> cvar \<Rightarrow> cvar" where
  "map_val m k = (case m k of Some v \<Rightarrow> v | None \<Rightarrow> VNil)"

lemma map_val_upd: "map_val (m(k := val_opt v)) k' = (if k' = k then v else map_val m k')"
  by (simp add: map_val_def val_opt_def)

lemma tmap_in_array:
  assumes "tinv t" "unat (i - 1) < arr_size t"
  shows "map_val (tmap t) (VInt i) = arr t ! unat (i - 1)"
proof -
  have "hmap t (VInt i) = None" using assms by (force simp: tinv_def hash_above_def)
  then show ?thesis using assms(2) by (simp add: map_val_def tmap_def arr_val_def)
qed

lemma VarKeyEqualInt_eq: "VarKeyEqualInt k i \<longleftrightarrow> VarKeyEqual k (VInt i)"
  by (cases k) auto

lemma GetTableInt_off:
  assumes t: "core t" and off: "arr_size t \<le> unat (i - 1)"
  shows "GetTableInt env t i = map_val (hmap t) (VInt i)"
proof -
  have h: "hash_ok t" using t by (simp add: core_def)
  have "hash_lookup t (VarKeyHash (VInt i)) (key_is (VarKeyHash (VInt i)) (VInt i)) = map_val (hmap t) (VInt i)"
    unfolding map_val_def by (subst hash_lookup_ok [OF h, of _ "VInt i"]) (auto simp: key_is_iff simp del: VarKeyHash.simps)
  then show ?thesis using off
    by (simp add: GetTableInt_def core_spec [OF t] Let_def key_is_def [abs_def] VarKeyEqualInt_eq [abs_def])
qed

lemma GetTableInt_ok:
  assumes t: "tinv t"
  shows "GetTableInt env t i = map_val (tmap t) (VInt i)"
proof (cases "unat (i - 1) < arr_size t")
  case True
  then show ?thesis using tmap_in_array [OF t True] by (simp add: GetTableInt_def)
next
  case False
  then have "tmap t (VInt i) = hmap t (VInt i)" by (intro tmap_off) (simp add: off_array_def)
  then show ?thesis using GetTableInt_off [OF tinv_core [OF t]] False by (simp add: map_val_def)
qed

text \<open>The keys a program can use: not nil, not NaN.\<close>

definition usable :: "cvar \<Rightarrow> bool" where
  "usable k \<longleftrightarrow> k \<noteq> VNil \<and> \<not> is_nan_key k \<and> (\<forall>vs. k \<noteq> VMulti vs)"

lemma is_nan_normalized: "\<not> is_nan_key k \<Longrightarrow> \<not> is_nan_key (NormalizeTableKey k)"
  by (cases k) (auto simp: is_nan_key_def split: option.splits)

lemma usable_key_ok:
  assumes "usable k"
  shows "key_ok (NormalizeTableKey k)" "NormalizeTableKey k \<noteq> VNil" "\<not> is_nan_key (NormalizeTableKey k)"
proof -
  show "key_ok (NormalizeTableKey k)"
    using assms by (intro key_ok_normalized) (auto simp: usable_def is_nan_key_def)
  then show "NormalizeTableKey k \<noteq> VNil" by auto
  show "\<not> is_nan_key (NormalizeTableKey k)" using is_nan_normalized assms by (simp add: usable_def)
qed

text \<open>The key of the map.\<close>

definition tkey :: "cvar \<Rightarrow> cvar" where
  "tkey k = canon (NormalizeTableKey k)"

lemma tkey_VInt [simp]: "tkey (VInt i) = VInt i"
  by (simp add: tkey_def)

lemma GetTable_ok:
  assumes t: "tinv t" and k: "usable k"
  shows "GetTable env t k = Inr (map_val (tmap t) (tkey k))"
proof -
  let ?k = "NormalizeTableKey k"
  have h: "hash_ok t" using t by (simp add: tinv_def core_def)
  note ok = usable_key_ok [OF k]
  have look: "hash_lookup t (VarKeyHash ?k) (key_is (VarKeyHash ?k) ?k) = map_val (hmap t) (tkey k)"
    unfolding map_val_def tkey_def by (rule hash_lookup_ok [OF h key_is_iff [OF ok(1)]])
  have rest: "GetTable env t k = Inr (case ?k of VInt i \<Rightarrow> if unat (i - 1) < arr_size t then arr t ! unat (i - 1)
      else map_val (hmap t) (tkey k) | _ \<Rightarrow> map_val (hmap t) (tkey k))"
    using ok(3) by (simp add: GetTable_def plain_spec [OF t] Let_def look)
  show ?thesis
  proof (cases "off_array t ?k")
    case True
    then have "off_array t (tkey k)" by (simp add: tkey_def off_array_def)
    then have "map_val (hmap t) (tkey k) = map_val (tmap t) (tkey k)" using tmap_off [of t] by (simp add: map_val_def)
    then show ?thesis unfolding rest using True by (cases ?k) (auto simp: off_array_def)
  next
    case False
    then obtain i where i: "?k = VInt i" "unat (i - 1) < arr_size t" by (auto simp: off_array_def)
    have "tkey k = VInt i" using i(1) by (simp add: tkey_def)
    then show ?thesis unfolding rest using i tmap_in_array [OF t i(2)] by simp
  qed
qed

section \<open>The border\<close>

text \<open>The first border: every key up to it is in the map, the next is not.\<close>

definition first_border :: "(cvar \<rightharpoonup> cvar) \<Rightarrow> int64 \<Rightarrow> bool" where
  "first_border m n \<longleftrightarrow> 0 \<le> sint n \<and> (\<forall>i. 1 \<le> sint i \<and> sint i \<le> sint n \<longrightarrow> m (VInt i) \<noteq> None) \<and>
     (sint n = 2 ^ 63 - 1 \<or> m (VInt (n + 1)) = None)"

definition seq_ok :: "VarTable \<Rightarrow> bool" where
  "seq_ok t \<longleftrightarrow> (seq_len_valid t \<longrightarrow> first_border (tmap t) (seq_len t))"

lemma TableHasIntKey_ok:
  assumes t: "tinv t"
  shows "TableHasIntKey env t k \<longleftrightarrow> tmap t (VInt k) \<noteq> None"
proof (cases "unat (k - 1) < arr_size t")
  case True
  have "hmap t (VInt k) = None" using t True by (force simp: tinv_def hash_above_def)
  then show ?thesis using True by (simp add: TableHasIntKey_def plain_spec [OF t] tmap_def arr_val_def)
next
  case False
  then have off: "tmap t (VInt k) = hmap t (VInt k)" by (intro tmap_off) (simp add: off_array_def)
  have h: "hash_ok t" using t by (simp add: tinv_def core_def)
  let ?P = "\<lambda>e. e_key e = VInt k \<and> e_val e \<noteq> VNil"
  have P: "entry_ok e \<Longrightarrow> ?P e \<longleftrightarrow> canon (e_key e) = canon (VInt k)" "e_key e = VNil \<Longrightarrow> \<not> ?P e" for e
    by (auto simp: entry_ok_def)
  have sc: "spec_count t = 0" using t by (simp add: tinv_def core_def plain_def)
  show ?thesis
  proof (cases "bucket_count t = 0")
    case True
    then have q: "quick_inv t" using h by (simp add: hash_ok_def)
    have "list_ex ?P (take (tbl_count t) (quick_data t)) \<longleftrightarrow> hmap t (VInt k) \<noteq> None"
      using q True P(1) by (auto simp: hmap_def entries_map_None live_entries_def quick_inv_def list_ex_iff)
    then show ?thesis using False True by (simp add: TableHasIntKey_def plain_spec [OF t] sc Let_def off split: option.split)
  next
    case nz: False
    then obtain ch fl where inv: "hash_inv t ch fl" using h by (auto simp: hash_ok_def bucket_inv_def)
    from find_node_bucket [OF inv refl, of ?P "VInt k", OF P]
    have "(case find_node (length (nodes t)) (nodes t) ?P (bucket_of t (IntKeyHash k)) of Found _ \<Rightarrow> True | _ \<Rightarrow> False)
        \<longleftrightarrow> hmap t (VInt k) \<noteq> None" by auto
    then show ?thesis using False nz by (simp add: TableHasIntKey_def plain_spec [OF t] sc Let_def off split: option.split)
  qed
qed

lemma sint_succ: "sint n < 2 ^ 63 - 1 \<Longrightarrow> sint (n + 1 :: int64) = sint n + 1"
  using sint_word_of_int64 [of "sint n + 1"] sint64_bounds [of n] by simp

lemma SeqScanFrom_ok:
  assumes t: "tinv t" and n: "0 \<le> sint n" "\<And>i. 1 \<le> sint i \<Longrightarrow> sint i \<le> sint n \<Longrightarrow> tmap t (VInt i) \<noteq> None"
  shows "first_border (tmap t) (SeqScanFrom env t n)"
  using n
proof (induction env t' \<equiv> t n rule: SeqScanFrom.induct)
  case (1 env n)
  show ?case
  proof (cases "sint n < 2 ^ 63 - 1 \<and> TableHasIntKey env t (n + 1)")
    case True
    then have s: "sint (n + 1) = sint n + 1" by (simp add: sint_succ)
    have here: "tmap t (VInt (n + 1)) \<noteq> None" using True TableHasIntKey_ok [OF t] by simp
    have "tmap t (VInt i) \<noteq> None" if "1 \<le> sint i" "sint i \<le> sint (n + 1)" for i
    proof (cases "sint i = sint (n + 1)")
      case True
      then have "i = n + 1" by (rule signed_word_eqI)
      then show ?thesis using here by simp
    next
      case False
      then show ?thesis using that s 1(3) [of i] by simp
    qed
    then have "first_border (tmap t) (SeqScanFrom env t (n + 1))"
      using 1(1) [OF True] s 1(2) by simp
    then show ?thesis using True by (subst SeqScanFrom.simps) simp
  next
    case False
    then have "sint n = 2 ^ 63 - 1 \<or> tmap t (VInt (n + 1)) = None"
      using TableHasIntKey_ok [OF t, of env "n + 1"] sint64_bounds [of n] by auto
    moreover have "SeqScanFrom env t n = n"
      unfolding SeqScanFrom.simps [of env t n] if_not_P [OF False] ..
    ultimately show ?thesis using 1(2,3) by (simp add: first_border_def)
  qed
qed

lemma first_border_unique:
  assumes "first_border m a" "first_border m b"
  shows "a = b"
proof -
  have "\<not> sint x < sint y" if "first_border m x" "first_border m y" for x y
  proof
    assume lt: "sint x < sint y"
    then have s: "sint (x + 1) = sint x + 1" using sint64_bounds [of y] by (intro sint_succ) simp
    then have "m (VInt (x + 1)) \<noteq> None" using that lt by (simp add: first_border_def)
    moreover have "sint x \<noteq> 2 ^ 63 - 1" using lt sint64_bounds [of y] by simp
    ultimately show False using that(1) by (simp add: first_border_def)
  qed
  then have "sint a = sint b" using assms by (metis linorder_neqE)
  then show ?thesis by (rule signed_word_eqI)
qed

section \<open>Writes\<close>

definition table_inv :: "VarTable \<Rightarrow> bool" where
  "table_inv t \<longleftrightarrow> tinv t \<and> seq_ok t"

text \<open>The outcome of a write of a well-formed table.\<close>

definition stores :: "VarTable \<Rightarrow> (cvar \<rightharpoonup> cvar) \<Rightarrow> unit tstep \<Rightarrow> bool" where
  "stores t m rt \<longleftrightarrow> (case rt of
     (Inr _, t') \<Rightarrow> table_inv t' \<and> tmap t' = m
   | (Inl _, t') \<Rightarrow> core t' \<and> at_limit t)"

lemma seq_fields [simp]:
  "tmap (t\<lparr>seq_len := n\<rparr>) = tmap t" "tinv (t\<lparr>seq_len := n\<rparr>) = tinv t"
  "tmap (t\<lparr>seq_len_valid := b\<rparr>) = tmap t" "tinv (t\<lparr>seq_len_valid := b\<rparr>) = tinv t"
proof -
  have h: "hmap (t\<lparr>seq_len := n\<rparr>) = hmap t" "hash_ok (t\<lparr>seq_len := n\<rparr>) = hash_ok t"
    "hmap (t\<lparr>seq_len_valid := b\<rparr>) = hmap t" "hash_ok (t\<lparr>seq_len_valid := b\<rparr>) = hash_ok t"
    by (rule hash_part_cong; simp)+
  have "tmap (t\<lparr>seq_len := n\<rparr>) c = tmap t c" "tmap (t\<lparr>seq_len_valid := b\<rparr>) c = tmap t c" for c
    by (cases c; simp add: tmap_def arr_val_def h)+
  then show "tmap (t\<lparr>seq_len := n\<rparr>) = tmap t" "tmap (t\<lparr>seq_len_valid := b\<rparr>) = tmap t" by blast+
  show "tinv (t\<lparr>seq_len := n\<rparr>) = tinv t" "tinv (t\<lparr>seq_len_valid := b\<rparr>) = tinv t"
    by (simp_all add: tinv_def core_def arr_ok_def plain_def hash_above_def h)
qed

lemma SeqNoteIntSet_ok:
  fixes env :: spec_env
  assumes t: "tinv t" and m: "tmap t = m(VInt k := val_opt v)"
    and old: "seq_len_valid t \<Longrightarrow> first_border m (seq_len t)"
  defines "t' \<equiv> SeqNoteIntSet env t k (v = VNil)"
  shows "table_inv t' \<and> tmap t' = tmap t"
proof (cases "seq_len_valid t")
  case False
  then show ?thesis using t by (simp add: t'_def SeqNoteIntSet_def table_inv_def seq_ok_def)
next
  case True
  note b = old [OF True, unfolded first_border_def]
  have cacheable: "SeqCacheable t" using plain_spec [OF t] by simp
  have keep: "first_border (tmap t) (seq_len t)"
    if "\<not> (1 \<le> sint k \<and> sint k \<le> sint (seq_len t))" "v = VNil \<or> sint (seq_len t) = 2 ^ 63 - 1 \<or> k \<noteq> seq_len t + 1"
    using b that by (auto simp: first_border_def m val_opt_def)
  have keep2: "first_border (tmap t) (seq_len t)" if "1 \<le> sint k \<and> sint k \<le> sint (seq_len t)" "v \<noteq> VNil"
  proof -
    have "k \<noteq> seq_len t + 1 \<or> sint (seq_len t) = 2 ^ 63 - 1"
    proof (rule ccontr)
      assume no: "\<not> ?thesis"
      then have "sint k = sint (seq_len t) + 1" using sint64_bounds [of "seq_len t"] by (auto simp: sint_succ)
      then show False using that(1) by simp
    qed
    then show ?thesis using b that by (auto simp: first_border_def m val_opt_def)
  qed
  consider (shrink) "v = VNil" "1 \<le> sint k" "sint k \<le> sint (seq_len t)"
    | (extend) "v \<noteq> VNil" "sint (seq_len t) < 2 ^ 63 - 1" "k = seq_len t + 1"
    | (same) "t' = t" "first_border (tmap t) (seq_len t)"
  proof (cases "v = VNil")
    case True
    show ?thesis
    proof (cases "1 \<le> sint k \<and> sint k \<le> sint (seq_len t)")
      case False
      then have "t' = t" using True cacheable by (auto simp: t'_def SeqNoteIntSet_def)
      then show ?thesis using that(3) keep False True by blast
    qed (use that(1) True in blast)
  next
    case False
    then have "t' = t" if "\<not> (sint (seq_len t) < 2 ^ 63 - 1 \<and> k = seq_len t + 1)"
      using that cacheable \<open>seq_len_valid t\<close> by (auto simp: t'_def SeqNoteIntSet_def)
    moreover have "first_border (tmap t) (seq_len t)" if "\<not> (sint (seq_len t) < 2 ^ 63 - 1 \<and> k = seq_len t + 1)"
      using that keep keep2 False sint64_bounds [of "seq_len t"] by fastforce
    ultimately show ?thesis using that(2,3) False by blast
  qed
  then show ?thesis
  proof cases
    case shrink
    then have t': "t' = t\<lparr>seq_len := k - 1\<rparr>" using True cacheable by (simp add: t'_def SeqNoteIntSet_def)
    have s: "sint (k - 1) = sint k - 1" using shrink(2) sint_word_of_int64 [of "sint k - 1"] sint64_bounds [of k] by simp
    have "m (VInt i) \<noteq> None \<and> i \<noteq> k" if "1 \<le> sint i" "sint i \<le> sint k - 1" for i
      using b shrink(3) that by auto
    then have "first_border (tmap t) (k - 1)"
      using shrink(1,2) s by (simp add: first_border_def m val_opt_def)
    then show ?thesis using t by (simp add: t' table_inv_def seq_ok_def)
  next
    case extend
    then have t': "t' = t\<lparr>seq_len := SeqScanFrom env t k\<rparr>"
      using True cacheable by (simp add: t'_def SeqNoteIntSet_def)
    have s: "sint k = sint (seq_len t) + 1" using extend(2,3) sint_succ by simp
    have "tmap t (VInt i) \<noteq> None" if "1 \<le> sint i" "sint i \<le> sint k" for i
    proof (cases "i = k")
      case False
      then have "sint i \<noteq> sint k" using signed_word_eqI by blast
      then have "sint i \<le> sint (seq_len t)" using that(2) s by simp
      then show ?thesis using b that(1) False by (simp add: m)
    qed (simp add: m val_opt_def extend(1))
    then have "first_border (tmap t) (SeqScanFrom env t k)" using SeqScanFrom_ok [OF t] s b by simp
    then show ?thesis using t by (simp add: t' table_inv_def seq_ok_def)
  next
    case same
    then show ?thesis using t by (simp add: table_inv_def seq_ok_def)
  qed
qed

lemma limit_step:
  assumes "at_limit t \<or> 65536 \<le> arr_size t + tbl_count t"
  shows "at_limit t"
  using assms by (auto simp: at_limit_def)

lemma note_after:
  assumes "table_inv t" "tinv u" "tbl_frame t u" "tmap u = (tmap t)(VInt k := val_opt v)"
  shows "table_inv (SeqNoteIntSet env u k (v = VNil)) \<and>
    tmap (SeqNoteIntSet env u k (v = VNil)) = (tmap t)(VInt k := val_opt v)"
proof -
  have "seq_len_valid u \<Longrightarrow> first_border (tmap t) (seq_len u)"
    using assms(1) tbl_frame_fields [OF assms(3)] by (simp add: table_inv_def seq_ok_def)
  from SeqNoteIntSet_ok [OF assms(2,4) this] assms(4) show ?thesis by simp
qed

lemma SetTableInt_ok:
  assumes t: "table_inv t" and const: "flag \<longrightarrow> ca"
  shows "stores t ((tmap t)(VInt k := val_opt v)) (SetTableInt env ca flag t k v)"
proof -
  have ti: "tinv t" using t by (simp add: table_inv_def)
  have def: "SetTableInt env ca flag t k v = tbind (TableArrSetInt t k v) (\<lambda>ok t.
      if ok then (Inr (), SeqNoteIntSet env t k (v = VNil))
      else tbind (hash_write t (VInt k) v (IntKeyHash k)) (\<lambda>_ t. (Inr (), SeqNoteIntSet env t k (v = VNil))))"
    using const unfolding SetTableInt_def CheckConstTable_def by (auto simp: plain_spec [OF ti])
  from TableArrSetInt_ok [OF ti, of k v] show ?thesis
  proof (elim disjE exE conjE)
    assume a: "TableArrSetInt t k v = (Inr False, t)" "arr_size t \<le> unat (k - 1)" "unat (k - 1) = arr_size t \<longrightarrow> v = VNil"
    have w: "writes t ((tmap t)(canon (VInt k) := val_opt v)) (hash_write t (VInt k) v (VarKeyHash (VInt k)))"
      by (rule hash_write_ok [OF ti]) (use a in \<open>auto simp: off_array_def beyond_def\<close>)
    obtain r u where ru: "hash_write t (VInt k) v (IntKeyHash k) = (r, u)" by fastforce
    show ?thesis
    proof (cases r)
      case (Inl e)
      then show ?thesis using w unfolding def a(1) by (simp add: ru writes_def stores_def)
    next
      case (Inr x)
      then have "tinv u" "tbl_frame t u" "tmap u = (tmap t)(VInt k := val_opt v)" using w by (simp_all add: ru writes_def)
      from note_after [OF t this] show ?thesis unfolding def a(1) by (simp add: ru Inr stores_def)
    qed
  next
    fix u
    assume a: "TableArrSetInt t k v = (Inr True, u)" "tinv u" "tbl_frame t u" "tmap u = (tmap t)(VInt k := val_opt v)"
    from note_after [OF t a(2-4)] show ?thesis unfolding def a(1) by (simp add: stores_def)
  next
    fix e u
    assume a: "TableArrSetInt t k v = (Inl e, u)" "core u" "65536 \<le> arr_size t + tbl_count t"
    then show ?thesis using limit_step [of t] unfolding def a(1) by (simp add: stores_def)
  qed
qed

lemma tkey_not_int: "\<forall>i. NormalizeTableKey k \<noteq> VInt i \<Longrightarrow> \<forall>i. tkey k \<noteq> VInt i"
  by (simp add: tkey_def)

text \<open>Writing a key that is no integer does not move the border.\<close>

lemma other_key:
  assumes "table_inv t" "tinv u" "tbl_frame t u" "tmap u = (tmap t)(c := x)" "\<forall>i. c \<noteq> VInt i"
  shows "table_inv u"
  using assms tbl_frame_fields [OF assms(3)] by (auto simp: table_inv_def seq_ok_def first_border_def)

lemma SetTable_ok:
  assumes t: "table_inv t" and const: "flag \<longrightarrow> ca" and k: "usable k"
  shows "stores t ((tmap t)(tkey k := val_opt v)) (SetTable env ca flag t k v)"
proof (cases "\<exists>i. NormalizeTableKey k = VInt i")
  case True
  then obtain i where i: "NormalizeTableKey k = VInt i" ..
  have ti: "tinv t" using t by (simp add: table_inv_def)
  have "SetTable env ca flag t k v = SetTableInt env ca flag t i v"
    using const unfolding SetTable_def SetTableInt_def CheckConstTable_def i Let_def cvar.case VarKeyHash.simps
    by (auto simp: is_nan_key_def plain_spec [OF ti])
  moreover have "tkey k = VInt i" using i by (simp add: tkey_def)
  ultimately show ?thesis using SetTableInt_ok [OF t const] by simp
next
  case False
  let ?k = "NormalizeTableKey k"
  have ti: "tinv t" using t by (simp add: table_inv_def)
  note ok = usable_key_ok [OF k]
  have note_set: "(case ?k of VInt i \<Rightarrow> SeqNoteIntSet env u i (v = VNil) | _ \<Rightarrow> u) = u"
    "(case ?k of VInt i \<Rightarrow> TableArrSetInt u i v | _ \<Rightarrow> (Inr False, u)) = (Inr False, u)" for u
    using False by (cases ?k; simp)+
  have def: "SetTable env ca flag t k v = tbind (hash_write t ?k v (VarKeyHash ?k)) (\<lambda>_ t. (Inr (), t))"
    using const ok unfolding SetTable_def CheckConstTable_def Let_def note_set
    by (auto simp: plain_spec [OF ti])
  have w: "writes t ((tmap t)(canon ?k := val_opt v)) (hash_write t ?k v (VarKeyHash ?k))"
    using False by (intro hash_write_ok [OF ti ok(1)]) (auto simp: off_array_def beyond_def)
  obtain r u where ru: "hash_write t ?k v (VarKeyHash ?k) = (r, u)" by fastforce
  show ?thesis
  proof (cases r)
    case (Inl e)
    then show ?thesis using w unfolding def by (simp add: ru writes_def stores_def)
  next
    case (Inr x)
    then have u: "tinv u" "tbl_frame t u" "tmap u = (tmap t)(tkey k := val_opt v)"
      using w by (simp_all add: ru writes_def tkey_def)
    have "\<forall>i. tkey k \<noteq> VInt i" using False tkey_not_int by blast
    from other_key [OF t u this] u(3) show ?thesis unfolding def by (simp add: ru Inr stores_def)
  qed
qed

section \<open>Length and enumeration\<close>

lemma GetTableLen_ok:
  assumes t: "table_inv t"
  shows "first_border (tmap t) (fst (GetTableLen env t)) \<and> table_inv (snd (GetTableLen env t)) \<and>
    tmap (snd (GetTableLen env t)) = tmap t"
proof -
  have ti: "tinv t" using t by (simp add: table_inv_def)
  have scan: "first_border (tmap t) (SeqScanFrom env t 0)" by (rule SeqScanFrom_ok [OF ti]) simp_all
  then show ?thesis using t by (simp add: GetTableLen_def plain_spec [OF ti] Let_def table_inv_def seq_ok_def)
qed

lemma CreateTable_inv: "table_inv CreateTable \<and> tmap CreateTable = Map.empty"
proof -
  have live: "live_entries CreateTable = []" by (simp add: live_entries_def CreateTable_def)
  then have hm: "hmap CreateTable = Map.empty" by (simp add: hmap_def entries_map_def)
  have q: "quick_inv CreateTable" unfolding quick_inv_def live by (simp add: CreateTable_def entries_distinct_def)
  then have h: "hash_ok CreateTable" by (simp add: hash_ok_def quick_inv_def)
  have tm: "tmap CreateTable = Map.empty"
  proof
    fix c show "tmap CreateTable c = None" by (cases c) (simp_all add: tmap_def hm arr_val_def, simp add: CreateTable_def)
  qed
  have "core CreateTable" using h by (simp add: core_def arr_ok_def plain_def CreateTable_def)
  then show ?thesis
    by (simp add: table_inv_def tinv_def hash_above_def hm tm seq_ok_def first_border_def) (simp add: CreateTable_def)
qed

text \<open>Enumeration yields every key of the map once, with its value.\<close>

lemma CollectKVPairs_ok:
  assumes t: "tinv t"
  defines "ps \<equiv> map (\<lambda>(k, v). (canon k, v)) (CollectKVPairs (\<lambda>t. t) t)"
  shows "distinct (map fst ps)" "map_of ps = tmap t"
proof -
  let ?a = "filter (\<lambda>(k, v). v \<noteq> VNil) (map (\<lambda>i. (VInt (word_of_nat i + 1), arr t ! i)) [0..<arr_size t])"
  have h: "hash_ok t" and ab: "hash_above t (arr_size t)" and small: "arr_size t \<le> 65536"
    using t hash_above_mono [of t "arr_size t + 1"] by (auto simp: tinv_def core_def arr_ok_def)
  have ix: "unat ((word_of_nat i + 1 :: int64) - 1) = i" if "i < arr_size t" for i
    using that small by (intro unat_Suc_index) simp
  have eok: "\<forall>e \<in> set (live_entries t). entry_ok e" using live_entry_ok [OF h] by blast
  have hp: "hash_pairs t = map (\<lambda>e. (e_key e, e_val e)) (live_entries t)"
    unfolding hash_pairs_def using eok by (intro filter_True) (auto simp: entry_ok_def)
  have ps: "ps = ?a @ map entry_pair (live_entries t)"
    by (auto simp: ps_def CollectKVPairs_def plain_spec [OF t] arr_pairs_def hp entry_pair_def intro!: map_idI)
  have afst: "x \<in> fst ` set ?a \<Longrightarrow> \<exists>i. x = VInt i \<and> unat (i - 1) < arr_size t" for x
    using ix by (fastforce simp del: add_diff_cancel_right')
  have "inj_on (\<lambda>i. VInt (word_of_nat i + 1)) {0..<arr_size t}"
    using ix by (intro inj_onI) (metis atLeastLessThan_iff cvar.inject(2))
  then have "distinct (map fst (map (\<lambda>i. (VInt (word_of_nat i + 1), arr t ! i)) [0..<arr_size t]))"
    by (simp add: distinct_map comp_def)
  then have da: "distinct (map fst ?a)" by (rule distinct_map_filter)
  have dh: "distinct (map fst (map entry_pair (live_entries t)))"
    using live_distinct [OF h] by (simp add: entries_distinct_def)
  have disj: "fst ` set ?a \<inter> fst ` set (map entry_pair (live_entries t)) = {}"
  proof (rule ccontr)
    assume "\<not> ?thesis"
    then obtain x where x: "x \<in> fst ` set ?a" "x \<in> fst ` set (map entry_pair (live_entries t))" by blast
    from afst [OF x(1)] obtain i where i: "x = VInt i" "unat (i - 1) < arr_size t" by blast
    from x(2) have "hmap t x \<noteq> None" unfolding hmap_def entries_map_def by (simp add: map_of_eq_None_iff)
    then show False using i ab by (force simp: hash_above_def)
  qed
  show d: "distinct (map fst ps)" using da dh disj by (simp only: ps map_append distinct_append list.set_map simp_thms)
  have am: "map_of ?a k = (case k of VInt i \<Rightarrow> if arr_val t i \<noteq> VNil then Some (arr_val t i) else None | _ \<Rightarrow> None)" for k
  proof -
    have "(k, v) \<in> set ?a \<longleftrightarrow> (\<exists>i. k = VInt i \<and> arr_val t i = v \<and> v \<noteq> VNil)" for v
    proof
      assume "(k, v) \<in> set ?a"
      then show "\<exists>i. k = VInt i \<and> arr_val t i = v \<and> v \<noteq> VNil" using ix by (auto simp: arr_val_def simp del: add_diff_cancel_right')
    next
      assume "\<exists>i. k = VInt i \<and> arr_val t i = v \<and> v \<noteq> VNil"
      then obtain i where i: "k = VInt i" "arr_val t i = v" "v \<noteq> VNil" by blast
      then have lt: "unat (i - 1) < arr_size t" by (auto simp: arr_val_def split: if_splits)
      moreover have "word_of_nat (unat (i - 1)) + 1 = i" by simp
      ultimately show "(k, v) \<in> set ?a" using i by (force simp: arr_val_def)
    qed
    then have "map_of ?a k = Some v \<longleftrightarrow> (\<exists>i. k = VInt i \<and> arr_val t i = v \<and> v \<noteq> VNil)" for v
      using map_of_eq_Some_iff [OF da] by blast
    then show ?thesis by (cases k; cases "map_of ?a k") (auto split: if_splits)
  qed
  show "map_of ps = tmap t"
  proof
    fix k
    have none: "hmap t (VInt i) = None" if "arr_val t i \<noteq> VNil" for i
      using that ab by (force simp: hash_above_def arr_val_def split: if_splits)
    have "map_of ps k = (case map_of ?a k of None \<Rightarrow> hmap t k | Some v \<Rightarrow> Some v)"
      unfolding ps map_of_append map_add_def hmap_def entries_map_def by (simp split: option.split)
    also have "\<dots> = tmap t k"
      unfolding am by (cases k) (auto simp: tmap_def none split: option.split)
    finally show "map_of ps k = tmap t k" .
  qed
qed

section \<open>The interface\<close>

text \<open>
  What the library functions on arrays rely on: a table indexed by integers with a read and a
  write that may throw.
\<close>

locale table_interface =
  fixes inv :: "'t \<Rightarrow> bool" and lookup :: "'t \<Rightarrow> 'k \<Rightarrow> 'v" and store :: "'t \<Rightarrow> 'k \<Rightarrow> 'v \<Rightarrow> ('e + unit) \<times> 't"
  assumes store_inv: "inv t \<Longrightarrow> store t k v = (Inr u, t') \<Longrightarrow> inv t'"
    and lookup_store: "inv t \<Longrightarrow> store t k v = (Inr u, t') \<Longrightarrow> lookup t' j = (if j = k then v else lookup t j)"
begin

lemma lookup_same: "inv t \<Longrightarrow> store t k v = (Inr u, t') \<Longrightarrow> lookup t' k = v"
  by (simp add: lookup_store)

lemma lookup_other: "inv t \<Longrightarrow> store t k v = (Inr u, t') \<Longrightarrow> j \<noteq> k \<Longrightarrow> lookup t' j = lookup t j"
  by (simp add: lookup_store)

text \<open>The order of two writes to different keys does not show.\<close>

lemma stores_commute:
  assumes "inv t" "j \<noteq> k"
    and "store t j v = (Inr u1, t1)" "store t1 k w = (Inr u2, t2)"
    and "store t k w = (Inr u3, s1)" "store s1 j v = (Inr u4, s2)"
  shows "lookup t2 = lookup s2"
proof
  fix x
  show "lookup t2 x = lookup s2 x"
    using lookup_store [OF assms(1) assms(3)] lookup_store [OF store_inv [OF assms(1,3)] assms(4)]
      lookup_store [OF assms(1) assms(5)] lookup_store [OF store_inv [OF assms(1,5)] assms(6)] assms(2)
    by simp
qed

end

lemma stores_Inr: "stores t m (Inr u, t') \<longleftrightarrow> table_inv t' \<and> tmap t' = m"
  by (simp add: stores_def)

interpretation int_table: table_interface table_inv "GetTableInt env" "SetTableInt env ca False"
proof
  fix t t' :: VarTable and k j :: int64 and v :: cvar and u :: unit
  assume t: "table_inv t" and s: "SetTableInt env ca False t k v = (Inr u, t')"
  from SetTableInt_ok [OF t, of False ca k v env] s
  have ok: "table_inv t'" "tmap t' = (tmap t)(VInt k := val_opt v)" by (simp_all add: stores_Inr)
  show "table_inv t'" by fact
  show "GetTableInt env t' j = (if j = k then v else GetTableInt env t j)"
    using GetTableInt_ok [of t'] GetTableInt_ok [of t] t ok by (simp add: table_inv_def map_val_upd)
qed

section \<open>Properties\<close>

text \<open>
  C19. On a table below the allocator's limits, with any usable key, \<open>SetTable\<close> returns,
  keeps the table's invariant, and later reads with any key see exactly that one write, whether
  the value went to the array part, the inline entries or the buckets; integral float keys and
  both kinds of string keys name the same slot.
\<close>

theorem SetTable_then_GetTable:
  assumes "table_inv t" "\<not> at_limit t" "usable k" "flag \<longrightarrow> ca"
  shows "\<exists>t'. SetTable env ca flag t k v = (Inr (), t') \<and> table_inv t' \<and>
    (\<forall>k'. usable k' \<longrightarrow> GetTable env t' k' = (if tkey k' = tkey k then Inr v else GetTable env t k'))"
proof -
  obtain r t' where r: "SetTable env ca flag t k v = (r, t')" by fastforce
  have s: "stores t ((tmap t)(tkey k := val_opt v)) (r, t')" using SetTable_ok [OF assms(1,4,3)] r by metis
  then obtain u where "r = Inr u" using assms(2) by (cases r) (auto simp: stores_def)
  with s have t': "table_inv t'" "tmap t' = (tmap t)(tkey k := val_opt v)" "r = Inr ()" by (simp_all add: stores_Inr)
  have "GetTable env t' k' = (if tkey k' = tkey k then Inr v else GetTable env t k')" if "usable k'" for k'
    using GetTable_ok [OF _ that] t'(1,2) assms(1) by (simp add: table_inv_def map_val_upd)
  then show ?thesis using r t' by blast
qed

theorem SetTable_then_GetTable_witness:
  "\<exists>t'. SetTable \<lparr>call_get = \<lambda>_ _ _. None, call_set = \<lambda>_ _ _ _. None\<rparr> False False CreateTable (VFloat 0x3FF0000000000000) (VInt 7) = (Inr (), t') \<and>
    table_inv t' \<and>
    (\<forall>k'. usable k' \<longrightarrow> GetTable \<lparr>call_get = \<lambda>_ _ _. None, call_set = \<lambda>_ _ _ _. None\<rparr> t' k' =
       (if tkey k' = tkey (VFloat 0x3FF0000000000000) then Inr (VInt 7)
        else GetTable \<lparr>call_get = \<lambda>_ _ _. None, call_set = \<lambda>_ _ _ _. None\<rparr> CreateTable k'))"
proof (rule SetTable_then_GetTable)
  show "table_inv CreateTable" using CreateTable_inv by simp
  show "\<not> at_limit CreateTable" by (simp add: at_limit_def CreateTable_def)
  show "usable (VFloat 0x3FF0000000000000)"
    by (simp add: usable_def is_nan_key_def d_isnan_def d_expf_def d_frac_def)
qed simp



text \<open>
  C21. Enumeration: \<open>CollectKVPairs\<close> of a well-formed table lists each key of the map exactly once, with
  its value.
\<close>

theorem CollectKVPairs_lists_map:
  assumes "table_inv t"
  shows "distinct (map (canon \<circ> fst) (CollectKVPairs (\<lambda>t. t) t)) \<and>
    map_of (map (\<lambda>(k, v). (canon k, v)) (CollectKVPairs (\<lambda>t. t) t)) = tmap t"
proof -
  have t: "tinv t" using assms by (simp add: table_inv_def)
  have "map fst (map (\<lambda>(k, v). (canon k, v)) ps) = map (canon \<circ> fst) ps" for ps :: "(cvar \<times> cvar) list" by auto
  with CollectKVPairs_ok [OF t] show ?thesis by metis
qed

theorem CollectKVPairs_lists_map_witness:
  "distinct (map (canon \<circ> fst) (CollectKVPairs (\<lambda>t. t) CreateTable)) \<and>
    map_of (map (\<lambda>(k, v). (canon k, v)) (CollectKVPairs (\<lambda>t. t) CreateTable)) = tmap CreateTable"
  using CollectKVPairs_lists_map [of CreateTable] CreateTable_inv by blast

text \<open>
  C22. A write that throws can lose an unrelated key: with the array at 65535 of its maximal 65536
  slots and the key 65537 in the hash part, setting 65536 appends it, then takes 65537 out
  of the hash part before growing the array, which throws; the key is in neither part afterwards.
\<close>

theorem SetTableInt_may_lose_key:
  assumes t: "table_inv t" and a: "arr_size t = 65535" "arr_cap t = 65536"
    and w: "GetTableInt env t 65537 = w" "w \<noteq> VNil" and v: "v \<noteq> VNil"
  shows "\<exists>e t'. SetTableInt env ca False t 65536 v = (Inl e, t') \<and> GetTableInt env t' 65537 = VNil"
proof -
  have ti: "tinv t" and c: "core t" using t by (auto simp: table_inv_def tinv_def)
  have key: "word_of_nat (arr_size t) + 1 = (65536 :: int64)" by (simp add: a(1))
  have hm: "hmap t (VInt 65537) = Some w" using w GetTableInt_off [OF c, of 65537] a(1) by (auto simp: map_val_def split: option.splits)
  have "hmap t (VInt 65536) = None" using ti a(1) by (force simp: tinv_def hash_above_def)
  then have no: "hmap t (VInt (word_of_nat (arr_size t) + 1)) = None" by (simp only: key)
  obtain u where u: "grow_push v t = (Inr (), u)" "core u" "hmap u = hmap t" "arr_size u = 65536" "tbl_count u = tbl_count t"
    using grow_push_ok [OF c v no] a(1) by auto
  have ua: "hash_above u (arr_size u)" using ti by (simp add: tinv_def hash_above_def u(3,4) a(1))
  have def: "TableArrSetInt t 65536 v = tbind (migrate (Suc (tbl_count u)) u) (\<lambda>_ t. (Inr True, t))"
    using a(1) v c unfolding TableArrSetInt_def by (simp add: u(1,5) core_def plain_def Let_def del: migrate.simps)
  have tu: "tmap u (VInt 65537) = Some w" using hm by (simp add: tmap_def arr_val_def u(3,4))
  have no_slot: "arr_size x \<le> unat ((65537 :: int64) - 1)" if "core x" for x
    using that by (simp add: core_def arr_ok_def)
  from migrate_ok [OF u(2) ua lessI] show ?thesis
  proof (elim disjE exE conjE)
    fix t'
    assume m: "tinv t'" "tmap t' = tmap u" "arr_size t' + tbl_count t' = arr_size u + tbl_count u" "tbl_count t' \<le> tbl_count u"
    have "arr_size t' = 65536" using m no_slot [of t'] u(4) by (simp add: tinv_def)
    then have "hmap t' (VInt 65537) = None" using m(1) by (force simp: tinv_def hash_above_def)
    moreover have "tmap t' (VInt 65537) = hmap t' (VInt 65537)"
      using no_slot [of t'] m(1) by (intro tmap_off) (simp add: off_array_def tinv_def)
    ultimately show ?thesis using m(2) tu by simp
  next
    fix e t'
    assume m: "migrate (Suc (tbl_count u)) u = (Inl e, t')" "core t'" "arr_size t' = 65536" "tmap t' = (tmap u)(VInt 65537 := None)"
    have "tmap t' (VInt 65537) = hmap t' (VInt 65537)"
      using no_slot [of t'] m(2) by (intro tmap_off) (simp add: off_array_def)
    then have "GetTableInt env t' 65537 = VNil" using GetTableInt_off [OF m(2) no_slot [OF m(2)]] m(4) by (simp add: map_val_def)
    moreover have "SetTableInt env ca False t 65536 v = (Inl e, t')"
      unfolding SetTableInt_def CheckConstTable_def by (simp add: plain_spec [OF ti] def m(1) del: migrate.simps)
    ultimately show ?thesis by blast
  qed
qed

text \<open>A table one slot short of the limit, with the key 65537 in an inline entry.\<close>

definition brim :: VarTable where
  "brim = CreateTable\<lparr>tbl_count := 1,
     quick_data := \<lparr>e_key = VInt 65537, e_val = VInt 7, e_hash = IntKeyHash 65537\<rparr> # replicate 7 nil_entry,
     arr := replicate 65536 (VInt 0), arr_size := 65535, arr_cap := 65536, seq_len_valid := False\<rparr>"

lemma brim_inv: "table_inv brim" "GetTableInt env brim 65537 = VInt 7"
proof -
  let ?e = "\<lparr>e_key = VInt 65537, e_val = VInt 7, e_hash = IntKeyHash 65537\<rparr>"
  have f: "tbl_count brim = 1" "bucket_count brim = 0" "quick_data brim = ?e # replicate 7 nil_entry" "arr_size brim = 65535"
    "arr_cap brim = 65536" "length (arr brim) = 65536" "seq_len_valid brim = False" "plain brim"
    by (simp_all add: brim_def CreateTable_def plain_def)
  have live: "live_entries brim = [?e]" by (simp add: live_entries_def f)
  have hm: "hmap brim = [VInt 65537 \<mapsto> VInt 7]"
    by (simp add: hmap_def live entries_map_def entry_pair_def)
  have q: "quick_inv brim" unfolding quick_inv_def live
    by (simp add: f entries_distinct_def entry_ok_def QUICK_DATA_SIZE_def)
  then have "hash_ok brim" by (simp add: hash_ok_def f)
  moreover have "arr_ok brim" unfolding arr_ok_def by (simp add: f exI [of _ 16])
  ultimately have c: "core brim" using f by (simp add: core_def)
  show "table_inv brim"
    using c by (simp add: table_inv_def tinv_def hash_above_def hm f seq_ok_def)
  show "GetTableInt env brim 65537 = VInt 7"
    using GetTableInt_off [OF c, of 65537] by (simp add: f hm map_val_def)
qed

theorem SetTableInt_may_lose_key_witness:
  "\<exists>e t'. SetTableInt \<lparr>call_get = \<lambda>_ _ _. None, call_set = \<lambda>_ _ _ _. None\<rparr> False False brim 65536 (VInt 1) = (Inl e, t') \<and>
    GetTableInt \<lparr>call_get = \<lambda>_ _ _. None, call_set = \<lambda>_ _ _ _. None\<rparr> t' 65537 = VNil"
  by (rule SetTableInt_may_lose_key [OF brim_inv(1) _ _ brim_inv(2)]) (simp_all add: brim_def)

end
