(* ===== verification/NativeArgs.thy ===== *)
theory NativeArgs
imports Values
begin

text \<open>
  How native library functions see their arguments: \<open>GetNativeArg\<close> and the \<open>CVarTo...\<close>
  conversions of \<open>state/fakelua.cpp\<close>, the checks of \<open>native/native_common.h\<close>, and the
  monad of a native call, whose state holds the table objects. \<open>std::stoll\<close> and
  \<open>std::stod\<close> are modelled as ISO C defines \<open>strtoll\<close> and \<open>strtod\<close> in the C locale:
  the value with the number of characters consumed, or none where the C++ function throws.
\<close>

section \<open>Numbers in strings\<close>

definition is_space :: "char \<Rightarrow> bool" where
  "is_space c \<longleftrightarrow> (let n = (of_char c :: nat) in n = 32 \<or> 9 \<le> n \<and> n \<le> 13)"

definition char_digit :: "char \<Rightarrow> nat option" where
  "char_digit c = (let n = (of_char c :: nat) in
     if 48 \<le> n \<and> n \<le> 57 then Some (n - 48)
     else if 97 \<le> n \<and> n \<le> 122 then Some (n - 87)
     else if 65 \<le> n \<and> n \<le> 90 then Some (n - 55)
     else None)"

definition is_digit_in :: "nat \<Rightarrow> char \<Rightarrow> bool" where
  "is_digit_in b c \<longleftrightarrow> (case char_digit c of Some d \<Rightarrow> d < b | None \<Rightarrow> False)"

definition digit_of :: "char \<Rightarrow> nat" where
  "digit_of c = (case char_digit c of Some d \<Rightarrow> d | None \<Rightarrow> 0)"

definition digits_value :: "nat \<Rightarrow> string \<Rightarrow> nat" where
  "digits_value b ds = foldl (\<lambda>a c. a * b + digit_of c) 0 ds"

definition split_sign :: "string \<Rightarrow> bool \<times> string" where
  "split_sign s = (case s of c # r \<Rightarrow> if c = CHR ''-'' then (True, r) else if c = CHR ''+'' then (False, r) else (False, s)
     | [] \<Rightarrow> (False, s))"

definition has_hex_prefix :: "string \<Rightarrow> bool" where
  "has_hex_prefix s \<longleftrightarrow> (case s of a # x # d # _ \<Rightarrow> a = CHR ''0'' \<and> (x = CHR ''x'' \<or> x = CHR ''X'') \<and> is_digit_in 16 d | _ \<Rightarrow> False)"

text \<open>\<open>std::stoll(s, &pos, 0)\<close>: the base is taken from the prefix.\<close>

definition stoll0 :: "string \<Rightarrow> (int64 \<times> nat) option" where
  "stoll0 s =
     (let s1 = dropWhile is_space s;
          (neg, s2) = split_sign s1;
          (b, s3) = (if has_hex_prefix s2 then (16, drop 2 s2)
                     else if s2 \<noteq> [] \<and> hd s2 = CHR ''0'' then (8, s2) else (10, s2));
          ds = takeWhile (is_digit_in b) s3;
          v = (if neg then - int (digits_value b ds) else int (digits_value b ds))
      in if ds = [] then None
         else if v < - (2 ^ 63) \<or> 2 ^ 63 \<le> v then None
         else Some (word_of_int v, length s - length s3 + length ds))"

text \<open>
  The mantissa of a floating literal: the digits before and after the point, and what follows. The
  exponent part counts only when at least one digit follows its letter and sign.
\<close>

definition split_mantissa :: "nat \<Rightarrow> string \<Rightarrow> string \<times> string \<times> string" where
  "split_mantissa b s =
     (let ip = takeWhile (is_digit_in b) s; r = drop (length ip) s in
      case r of c # r' \<Rightarrow>
          if c = CHR ''.'' then
            let fp = takeWhile (is_digit_in b) r' in
            if ip = [] \<and> fp = [] then (ip, [], r) else (ip, fp, drop (length fp) r')
          else (ip, [], r)
      | [] \<Rightarrow> (ip, [], r))"

definition split_exponent :: "char list \<Rightarrow> string \<Rightarrow> int \<times> string" where
  "split_exponent marks r =
     (case r of c # r' \<Rightarrow>
         if c \<in> set marks then
           let (neg, r'') = split_sign r'; ds = takeWhile (is_digit_in 10) r'' in
           if ds = [] then (0, r)
           else ((if neg then - int (digits_value 10 ds) else int (digits_value 10 ds)), drop (length ds) r'')
         else (0, r)
     | [] \<Rightarrow> (0, r))"

definition lower_char :: "char \<Rightarrow> char" where
  "lower_char c = (let n = (of_char c :: nat) in if 65 \<le> n \<and> n \<le> 90 then char_of (n + 32) else c)"

definition starts_ci :: "string \<Rightarrow> string \<Rightarrow> bool" where
  "starts_ci p s \<longleftrightarrow> map lower_char (take (length p) s) = p"

text \<open>The nearest double to \<open>m * b ^ e\<close>; the flag says that \<open>strtod\<close> sets \<open>ERANGE\<close>.\<close>

definition scaled_double :: "bool \<Rightarrow> nat \<Rightarrow> nat \<Rightarrow> int \<Rightarrow> double \<times> bool" where
  "scaled_double neg m b e =
     (let num = (if 0 \<le> e then m * b ^ nat e else m) * 2 ^ 1074;
          den = (if 0 \<le> e then 1 else b ^ nat (- e));
          d = d_round neg num den
      in (d, d_isinf d \<or> d_expf d = 0 \<and> d_mag d * den \<noteq> num))"

definition stod :: "string \<Rightarrow> (double \<times> nat) option" where
  "stod s =
     (let s1 = dropWhile is_space s; (neg, s2) = split_sign s1; used = (\<lambda>r. length s - length r) in
      if starts_ci ''infinity'' s2 then Some (d_infinity neg, used (drop 8 s2))
      else if starts_ci ''inf'' s2 then Some (d_infinity neg, used (drop 3 s2))
      else if starts_ci ''nan'' s2 then Some (d_nan, used (drop 3 s2))
      else
        let hex = has_hex_prefix s2 \<or> starts_ci ''0x.'' s2 \<and> (case drop 3 s2 of c # _ \<Rightarrow> is_digit_in 16 c | [] \<Rightarrow> False);
            b = (if hex then 16 else 10);
            (ip, fp, r) = split_mantissa b (if hex then drop 2 s2 else s2);
            (e, r') = split_exponent (if hex then [CHR ''p'', CHR ''P''] else [CHR ''e'', CHR ''E'']) r;
            m = digits_value b (ip @ fp);
            (d, erange) = (if hex then scaled_double neg m 2 (e - 4 * int (length fp))
                           else scaled_double neg m 10 (e - int (length fp)))
        in if ip = [] \<and> fp = [] then None
           else if m = 0 then Some (d_zero neg, used r')
           else if erange then None
           else Some (d, used r'))"

section \<open>Conversions of a value\<close>

definition in_int64_range :: "double \<Rightarrow> bool" where
  "in_int64_range d \<longleftrightarrow> d_isfinite d \<and> \<not> d_lt d d_mtwo63 \<and> \<not> d_le d_two63 d"

definition string_to_integer :: "string \<Rightarrow> int64 \<Rightarrow> int64" where
  "string_to_integer s dflt =
     (let via_double = (case stod s of
            Some (d, pos) \<Rightarrow> if pos = length s \<and> in_int64_range d then d_to_int64 d else dflt
          | None \<Rightarrow> dflt)
      in if s = [] then dflt
         else case stoll0 s of Some (i, pos) \<Rightarrow> if pos = length s then i else via_double | None \<Rightarrow> via_double)"

definition string_to_number :: "string \<Rightarrow> double \<Rightarrow> double" where
  "string_to_number s dflt =
     (if s = [] then dflt
      else case stod s of Some (d, pos) \<Rightarrow> if pos = length s then d else dflt | None \<Rightarrow> dflt)"

fun CVarToInteger :: "cvar \<Rightarrow> int64 \<Rightarrow> int64" where
  "CVarToInteger (VInt i) dflt = i"
| "CVarToInteger (VBool b) dflt = (if b then 1 else 0)"
| "CVarToInteger (VFloat d) dflt = (if in_int64_range d then d_to_int64 d else dflt)"
| "CVarToInteger (VString s) dflt = string_to_integer s dflt"
| "CVarToInteger (VStringId s) dflt = string_to_integer s dflt"
| "CVarToInteger _ dflt = dflt"

fun CVarToNumber :: "cvar \<Rightarrow> double \<Rightarrow> double" where
  "CVarToNumber (VFloat d) dflt = d"
| "CVarToNumber (VInt i) dflt = i64_to_double i"
| "CVarToNumber (VString s) dflt = string_to_number s dflt"
| "CVarToNumber (VStringId s) dflt = string_to_number s dflt"
| "CVarToNumber _ dflt = dflt"

fun CVarToBool :: "cvar \<Rightarrow> bool \<Rightarrow> bool" where
  "CVarToBool VNil dflt = dflt"
| "CVarToBool (VBool b) dflt = b"
| "CVarToBool _ dflt = True"

fun CVarToString :: "cvar \<Rightarrow> string \<Rightarrow> string" where
  "CVarToString (VString s) dflt = s"
| "CVarToString (VStringId s) dflt = s"
| "CVarToString _ dflt = dflt"

section \<open>Arguments\<close>

text \<open>The first value of nested multi values.\<close>

fun first_value :: "cvar \<Rightarrow> cvar" where
  "first_value (VMulti []) = VNil"
| "first_value (VMulti (v # vs)) = first_value v"
| "first_value v = v"

definition GetNativeArg :: "cvar list \<Rightarrow> nat \<Rightarrow> cvar" where
  "GetNativeArg args idx =
     first_value (case args of
        VMulti vs # _ \<Rightarrow> if idx < length vs then vs ! idx else VNil
      | _ \<Rightarrow> if idx < length args then args ! idx else VNil)"

definition bad_argument :: "nat \<Rightarrow> string \<Rightarrow> string \<Rightarrow> exn" where
  "bad_argument argno fname expected =
     ''bad argument #'' @ dec_digits argno @ '' to '' @ [CHR 39] @ fname @ [CHR 39] @ '' ('' @ expected @ '')''"

definition CheckPortRange :: "int64 \<Rightarrow> string \<Rightarrow> int64 \<Rightarrow> int64 \<Rightarrow> 16 word result" where
  "CheckPortRange port what lo hi =
     (if sint port < sint lo \<or> sint hi < sint port
      then Inl (what @ '': port '' @ to_string_int (sint port) @ '' out of range ('' @ to_string_int (sint lo) @ ''-'' @
                to_string_int (sint hi) @ '')'')
      else Inr (ucast port))"

definition CheckInt32Range :: "int64 \<Rightarrow> string \<Rightarrow> string \<Rightarrow> int64 \<Rightarrow> int64 \<Rightarrow> 32 word result" where
  "CheckInt32Range v what fld lo hi =
     (if sint v < sint lo \<or> sint hi < sint v
      then Inl (what @ '': '' @ fld @ '' '' @ to_string_int (sint v) @ '' out of range'')
      else Inr (ucast v))"

fun CheckNumberArg :: "cvar \<Rightarrow> nat \<Rightarrow> string \<Rightarrow> unit result" where
  "CheckNumberArg (VBool _) argno fname = Inl (bad_argument argno fname ''number expected'')"
| "CheckNumberArg (VTable _ _) argno fname = Inl (bad_argument argno fname ''number expected'')"
| "CheckNumberArg VNil argno fname = Inl (bad_argument argno fname ''number expected'')"
| "CheckNumberArg _ argno fname = Inr ()"

definition no_integer :: string where "no_integer = ''number has no integer representation''"

text \<open>The tests of \<open>CheckIntegerArg\<close> on a double.\<close>

definition integral_arg :: "double \<Rightarrow> int64 option" where
  "integral_arg d =
     (if \<not> d_isfinite d \<or> d_modf_frac d \<noteq> 0 then None
      else if d_lt d d_mtwo63 \<or> d_le d_two63 d then None
      else Some (d_to_int64 d))"

definition string_integer_arg :: "string \<Rightarrow> nat \<Rightarrow> string \<Rightarrow> int64 result" where
  "string_integer_arg s argno fname =
     (let d = CVarToNumber (VString s) d_nan in
      if \<not> d_isfinite d then Inl (bad_argument argno fname ''number expected'')
      else case integral_arg d of Some i \<Rightarrow> Inr i | None \<Rightarrow> Inl (bad_argument argno fname no_integer))"

fun CheckIntegerArg :: "cvar \<Rightarrow> nat \<Rightarrow> string \<Rightarrow> int64 result" where
  "CheckIntegerArg (VInt i) argno fname = Inr i"
| "CheckIntegerArg (VFloat d) argno fname =
     (case integral_arg d of Some i \<Rightarrow> Inr i | None \<Rightarrow> Inl (bad_argument argno fname no_integer))"
| "CheckIntegerArg (VString s) argno fname = string_integer_arg s argno fname"
| "CheckIntegerArg (VStringId s) argno fname = string_integer_arg s argno fname"
| "CheckIntegerArg _ argno fname = Inl (bad_argument argno fname ''number expected'')"

definition LuaPosRelat :: "int64 \<Rightarrow> int64 \<Rightarrow> int64" where
  "LuaPosRelat pos len =
     (if 0 \<le> sint pos then pos
      else let mag = 0 - pos in
        if sint len < 0 \<or> unat len < unat mag then 0 else len + pos + 1)"

fun CheckStringArg :: "cvar \<Rightarrow> nat \<Rightarrow> string \<Rightarrow> unit result" where
  "CheckStringArg (VBool _) argno fname = Inl (bad_argument argno fname ''string expected'')"
| "CheckStringArg (VTable _ _) argno fname = Inl (bad_argument argno fname ''string expected'')"
| "CheckStringArg VNil argno fname = Inl (bad_argument argno fname ''string expected'')"
| "CheckStringArg _ argno fname = Inr ()"

fun GetStringArgView :: "cvar \<Rightarrow> string" where
  "GetStringArgView (VString s) = s"
| "GetStringArgView (VStringId s) = s"
| "GetStringArgView (VInt i) = ToString False False (VInt i)"
| "GetStringArgView (VFloat d) = ToString False False (VFloat d)"
| "GetStringArgView _ = []"

end
