(* ===== verification/TableLib.thy ===== *)
theory TableLib
imports TableMap NativeArgs
begin

text \<open>
  The \<open>table\<close> library (\<open>RegisterTableLibraryApi\<close> of \<open>native/table/native_table.cpp\<close>):
  \<open>insert\<close>, \<open>remove\<close>, \<open>concat\<close>, \<open>unpack\<close>, \<open>pack\<close>, \<open>move\<close>, \<open>sort\<close> and \<open>create\<close>. The state of a
  native call holds the table objects by address. The three functions that shift elements are one
  loop over (from, to) pairs of slots.
\<close>

section \<open>Native calls\<close>

record nstate =
  tables :: "ptr \<Rightarrow> VarTable"
  interp_const_alloc :: bool
  next_table :: ptr

type_synonym 'a nstep = "nstate \<Rightarrow> 'a result \<times> nstate"

definition nret :: "'a \<Rightarrow> 'a nstep" where
  "nret x s = (Inr x, s)"

definition nthrow :: "exn \<Rightarrow> 'a nstep" where
  "nthrow e s = (Inl e, s)"

definition nbind :: "'a nstep \<Rightarrow> ('a \<Rightarrow> 'b nstep) \<Rightarrow> 'b nstep" where
  "nbind m f s = (case m s of (Inl e, s') \<Rightarrow> (Inl e, s') | (Inr x, s') \<Rightarrow> f x s')"

definition nlift :: "'a result \<Rightarrow> 'a nstep" where
  "nlift r s = (r, s)"

definition on_table :: "ptr \<Rightarrow> (VarTable \<Rightarrow> 'a tstep) \<Rightarrow> 'a nstep" where
  "on_table p f s = (case f (tables s p) of (r, t) \<Rightarrow> (r, s\<lparr>tables := (tables s)(p := t)\<rparr>))"

section \<open>Table objects\<close>

fun is_table :: "cvar \<Rightarrow> bool" where
  "is_table (VTable _ p) = (p \<noteq> 0)"
| "is_table _ = False"

fun tbl_ptr :: "cvar \<Rightarrow> ptr" where
  "tbl_ptr (VTable _ p) = p"
| "tbl_ptr _ = 0"

fun tbl_flag :: "cvar \<Rightarrow> bool" where
  "tbl_flag (VTable f _) = f"
| "tbl_flag _ = False"

definition get_int :: "spec_env \<Rightarrow> cvar \<Rightarrow> int64 \<Rightarrow> cvar nstep" where
  "get_int env tbl i s = (Inr (GetTableInt env (tables s (tbl_ptr tbl)) i), s)"

text \<open>A slot is the address of a table with an index.\<close>

type_synonym slot = "ptr \<times> int64"

definition slot_read :: "spec_env \<Rightarrow> nstate \<Rightarrow> slot \<Rightarrow> cvar" where
  "slot_read env s sl = GetTableInt env (tables s (fst sl)) (snd sl)"

definition slot_write :: "spec_env \<Rightarrow> bool \<Rightarrow> nstate \<Rightarrow> slot \<Rightarrow> cvar \<Rightarrow> unit result \<times> nstate" where
  "slot_write env flag s sl v =
     on_table (fst sl) (\<lambda>t. SetTableInt env (interp_const_alloc s) flag t (snd sl) v) s"

definition set_int :: "spec_env \<Rightarrow> cvar \<Rightarrow> int64 \<Rightarrow> cvar \<Rightarrow> unit nstep" where
  "set_int env tbl i v s = slot_write env (tbl_flag tbl) s (tbl_ptr tbl, i) v"

definition get_len :: "spec_env \<Rightarrow> cvar \<Rightarrow> int64 nstep" where
  "get_len env tbl = on_table (tbl_ptr tbl) (\<lambda>t. case GetTableLen env t of (n, t') \<Rightarrow> (Inr n, t'))"

definition check_const :: "cvar \<Rightarrow> unit nstep" where
  "check_const tbl s = on_table (tbl_ptr tbl) (CheckConstTable (interp_const_alloc s) (tbl_flag tbl)) s"

text \<open>A new table: \<open>sizeof(VarTable)\<close> is 512 bytes here; only that addresses are fresh matters.\<close>

definition new_table :: "cvar nstep" where
  "new_table s = (Inr (VTable (interp_const_alloc s) (next_table s)),
     s\<lparr>tables := (tables s)(next_table s := CreateTable), next_table := next_table s + 512\<rparr>)"

section \<open>Moving slots\<close>

text \<open>Read one slot, write another, in the order of the list.\<close>

fun copy_loop :: "('s \<Rightarrow> 'k \<Rightarrow> 'v) \<Rightarrow> ('s \<Rightarrow> 'k \<Rightarrow> 'v \<Rightarrow> ('e + unit) \<times> 's) \<Rightarrow> ('k \<times> 'k) list \<Rightarrow> 's \<Rightarrow> ('e + unit) \<times> 's" where
  "copy_loop rd wr [] s = (Inr (), s)"
| "copy_loop rd wr ((from, dst) # ps) s =
     (case wr s dst (rd s from) of (Inl e, s') \<Rightarrow> (Inl e, s') | (Inr _, s') \<Rightarrow> copy_loop rd wr ps s')"

definition copy_slots :: "spec_env \<Rightarrow> bool \<Rightarrow> (slot \<times> slot) list \<Rightarrow> unit nstep" where
  "copy_slots env flag = copy_loop (slot_read env) (slot_write env flag)"

definition ix :: "int \<Rightarrow> int64" where "ix i = word_of_int i"

section \<open>insert and remove\<close>

text \<open>The loops \<open>for (i = len; i >= pos; --i) t[i + 1] = t[i]\<close> and \<open>for (i = pos; i < len; ++i) t[i] = t[i + 1]\<close>.\<close>

definition shift_up_slots :: "ptr \<Rightarrow> int \<Rightarrow> int \<Rightarrow> (slot \<times> slot) list" where
  "shift_up_slots p pos len = map (\<lambda>i. ((p, ix i), (p, ix (i + 1)))) (rev [pos..len])"

definition shift_down_slots :: "ptr \<Rightarrow> int \<Rightarrow> int \<Rightarrow> (slot \<times> slot) list" where
  "shift_down_slots p pos len = map (\<lambda>i. ((p, ix (i + 1)), (p, ix i))) [pos..len - 1]"

definition not_table :: "string \<Rightarrow> exn" where
  "not_table fname = bad_argument 1 fname ''table expected''"

definition table_insert :: "spec_env \<Rightarrow> cvar list \<Rightarrow> cvar nstep" where
  "table_insert env args =
     (let n = length args; tbl = GetNativeArg args 0 in
      if n < 1 then nthrow (not_table ''table.insert'')
      else if \<not> is_table tbl then nthrow (not_table ''table.insert'')
      else nbind (get_len env tbl) (\<lambda>len.
        if n \<noteq> 2 \<and> n \<noteq> 3 then nthrow (''wrong number of arguments to '' @ [CHR 39] @ ''insert'' @ [CHR 39])
        else if n = 2 then
          nbind (set_int env tbl (len + 1) (GetNativeArg args 1)) (\<lambda>_. nret VNil)
        else
          nbind (nlift (CheckIntegerArg (GetNativeArg args 1) 2 ''insert'')) (\<lambda>pos.
            if sint pos < 1 \<or> sint len + 1 < sint pos
            then nthrow (bad_argument 2 ''insert'' ''position out of bounds'')
            else
              nbind (copy_slots env (tbl_flag tbl) (shift_up_slots (tbl_ptr tbl) (sint pos) (sint len))) (\<lambda>_.
                nbind (set_int env tbl pos (GetNativeArg args 2)) (\<lambda>_. nret VNil)))))"

definition table_remove :: "spec_env \<Rightarrow> cvar list \<Rightarrow> cvar nstep" where
  "table_remove env args =
     (let n = length args; tbl = GetNativeArg args 0 in
      if n < 1 then nthrow (not_table ''table.remove'')
      else if \<not> is_table tbl then nthrow (not_table ''table.remove'')
      else nbind (check_const tbl) (\<lambda>_. nbind (get_len env tbl) (\<lambda>len.
        let pos_var = GetNativeArg args 1; explicit = (2 \<le> n \<and> pos_var \<noteq> VNil) in
        nbind (nlift (if explicit then CheckIntegerArg pos_var 2 ''table.remove'' else Inr len)) (\<lambda>pos.
          if explicit \<and> (sint pos < 1 \<or> sint len + 1 < sint pos)
          then nthrow (bad_argument 2 ''remove'' ''position out of bounds'')
          else
            nbind (get_int env tbl pos) (\<lambda>removed.
              nbind (copy_slots env (tbl_flag tbl) (shift_down_slots (tbl_ptr tbl) (sint pos) (sint len))) (\<lambda>_.
                nbind (set_int env tbl (if sint pos < sint len then len else pos) VNil) (\<lambda>_. nret removed)))))))"

section \<open>concat, unpack and pack\<close>

definition opt_int_arg :: "cvar list \<Rightarrow> nat \<Rightarrow> nat \<Rightarrow> string \<Rightarrow> int64 \<Rightarrow> int64 result" where
  "opt_int_arg args i argno fname dflt =
     (if i < length args \<and> GetNativeArg args i \<noteq> VNil then CheckIntegerArg (GetNativeArg args i) argno fname
      else Inr dflt)"

fun concat_piece :: "cvar \<Rightarrow> string option" where
  "concat_piece (VInt i) = Some (to_string_int (sint i))"
| "concat_piece (VFloat d) = Some (FormatLuaFloat d)"
| "concat_piece (VString s) = Some s"
| "concat_piece (VStringId s) = Some s"
| "concat_piece _ = None"

text \<open>The loop over the indices; the first piece has no separator before it.\<close>

fun concat_parts :: "(int64 \<Rightarrow> cvar) \<Rightarrow> string \<Rightarrow> bool \<Rightarrow> int64 list \<Rightarrow> string result" where
  "concat_parts get sep first [] = Inr []"
| "concat_parts get sep first (i # is) =
     (case concat_piece (get i) of
        None \<Rightarrow> Inl (''invalid value in table for '' @ [CHR 39] @ ''concat'' @ [CHR 39])
      | Some p \<Rightarrow> rbind (concat_parts get sep False is) (\<lambda>r. Inr ((if first then [] else sep) @ p @ r)))"

definition concat_sep :: "cvar list \<Rightarrow> string result" where
  "concat_sep args =
     (if 2 \<le> length args \<and> GetNativeArg args 1 \<noteq> VNil
      then rbind (CheckStringArg (GetNativeArg args 1) 2 ''table.concat'') (\<lambda>_. Inr (GetStringArgView (GetNativeArg args 1)))
      else Inr [])"

definition table_concat :: "spec_env \<Rightarrow> cvar list \<Rightarrow> cvar nstep" where
  "table_concat env args =
     (let n = length args; tbl = GetNativeArg args 0 in
      if n < 1 then nthrow (not_table ''table.concat'')
      else if \<not> is_table tbl then nthrow (not_table ''table.concat'')
      else nbind (nlift (concat_sep args)) (\<lambda>sep.
        nbind (nlift (opt_int_arg args 2 3 ''table.concat'' 1)) (\<lambda>start_i.
        nbind (get_len env tbl) (\<lambda>len.
        nbind (nlift (opt_int_arg args 3 4 ''table.concat'' len)) (\<lambda>end_j.
          if sint end_j < sint start_i then nret (VString [])
          else
            let nparts = unat (end_j - start_i + 1) in
            if nparts = 0 \<or> 10000000 < nparts then nthrow ''table.concat: too many items''
            else (\<lambda>s.
              let get = GetTableInt env (tables s (tbl_ptr tbl)) in
              nbind (nlift (concat_parts get sep True (map (\<lambda>i. start_i + word_of_nat i) [0..<nparts])))
                (\<lambda>r. nret (VString r)) s))))))"

text \<open>\<open>OffsetIndex\<close> and the limit of one block for the results, \<open>sizeof(VarMulti)\<close> being 8.\<close>

definition OffsetIndex :: "int64 \<Rightarrow> int64 \<Rightarrow> int64" where
  "OffsetIndex base delta = base + delta"

definition kMaxUnpackResults :: nat where
  "kMaxUnpackResults = (BLOCK_SIZE - 8) div sizeof_CVar"

definition table_unpack :: "spec_env \<Rightarrow> cvar list \<Rightarrow> cvar nstep" where
  "table_unpack env args =
     (let n = length args; tbl = GetNativeArg args 0 in
      if n < 1 then nthrow (not_table ''table.unpack'')
      else if \<not> is_table tbl then nthrow (not_table ''unpack'')
      else nbind (nlift (opt_int_arg args 1 2 ''table.unpack'' 1)) (\<lambda>start_i.
        nbind (get_len env tbl) (\<lambda>len.
        nbind (nlift (opt_int_arg args 2 3 ''table.unpack'' len)) (\<lambda>end_j.
          if sint end_j < sint start_i then nret (VMulti [])
          else
            let count64 = unat (end_j - start_i + 1) in
            if count64 = 0 \<or> 2147483647 < count64 \<or> kMaxUnpackResults < count64
            then nthrow ''too many results to unpack''
            else (\<lambda>s. nret (VMulti (map (\<lambda>i. GetTableInt env (tables s (tbl_ptr tbl)) (OffsetIndex start_i (word_of_nat i)))
                          [0..<count64])) s)))))"

fun set_each :: "spec_env \<Rightarrow> cvar \<Rightarrow> (int64 \<times> cvar) list \<Rightarrow> unit nstep" where
  "set_each env tbl [] = nret ()"
| "set_each env tbl ((i, v) # r) = nbind (set_int env tbl i v) (\<lambda>_. set_each env tbl r)"

definition set_str :: "cvar \<Rightarrow> string \<Rightarrow> cvar \<Rightarrow> unit nstep" where
  "set_str tbl k v s =
     on_table (tbl_ptr tbl) (\<lambda>t. SetTableStrId (interp_const_alloc s) (tbl_flag tbl) t k v) s"

definition table_pack :: "spec_env \<Rightarrow> cvar list \<Rightarrow> cvar nstep" where
  "table_pack env args =
     nbind new_table (\<lambda>tbl.
     nbind (set_each env tbl (map (\<lambda>i. (word_of_nat (i + 1), GetNativeArg args i)) [0..<length args])) (\<lambda>_.
     nbind (set_str tbl ''n'' (VInt (word_of_nat (length args)))) (\<lambda>_. nret tbl)))"

section \<open>move\<close>

definition MovePresizeFits :: "uint64 \<Rightarrow> bool" where
  "MovePresizeFits n =
     (if n = 0 \<or> 4294967295 < n then False
      else
        let min_buckets = (ucast n :: uint32); buckets = NextPowerOfTwo min_buckets in
        if buckets < min_buckets then False
        else
          let tot = unat buckets + unat (buckets div 2)
          in tot * sizeof_TableNode + tot * sizeof_uint32 \<le> BLOCK_SIZE)"

definition move_presize :: "cvar \<Rightarrow> bool \<Rightarrow> int64 \<Rightarrow> uint64 \<Rightarrow> unit nstep" where
  "move_presize a2 same_table t n s =
     (let tb = tables s (tbl_ptr a2) in
      if \<not> same_table \<and> \<not> tbl_flag a2 \<and> tbl_count tb = 0 \<and> 8 < unat n \<and>
         t \<noteq> word_of_nat (arr_size tb) + 1 \<and> MovePresizeFits n
      then on_table (tbl_ptr a2) (\<lambda>tb. TableRehashTo tb (unat n)) s
      else (Inr (), s))"

definition move_slots :: "ptr \<Rightarrow> ptr \<Rightarrow> int64 \<Rightarrow> int64 \<Rightarrow> int list \<Rightarrow> (slot \<times> slot) list" where
  "move_slots p q f t is = map (\<lambda>i. ((p, OffsetIndex f (ix i)), (q, OffsetIndex t (ix i)))) is"

definition too_many_to_move :: exn where
  "too_many_to_move = bad_argument 3 ''table.move'' ''too many elements to move''"

definition move_range :: "spec_env \<Rightarrow> cvar \<Rightarrow> cvar \<Rightarrow> int64 \<Rightarrow> int64 \<Rightarrow> int64 \<Rightarrow> unit nstep" where
  "move_range env a1 a2 f e t =
     (if sint e < sint f then nret ()
      else
        let n = e - f + 1 in
        if n = 0 \<or> 2 ^ 63 - 1 < unat n then nthrow too_many_to_move
        else if 0 < sint t \<and> 2 ^ 63 - 1 - (unat n - 1) < unat t
        then nthrow (bad_argument 4 ''table.move'' ''destination wrap around'')
        else
          let same_table = (tbl_ptr a1 = tbl_ptr a2) in
          nbind (move_presize a2 same_table t n) (\<lambda>_.
            if \<not> same_table \<or> sint t \<le> sint f \<or> sint e < sint t
            then copy_slots env (tbl_flag a2) (move_slots (tbl_ptr a1) (tbl_ptr a2) f t [0..sint n - 1])
            else copy_slots env (tbl_flag a2) (move_slots (tbl_ptr a1) (tbl_ptr a2) f t (rev [0..sint n - 1]))))"

definition table_move :: "spec_env \<Rightarrow> cvar list \<Rightarrow> cvar nstep" where
  "table_move env args =
     (let n = length args in
      if n < 1 then nthrow (bad_argument 1 ''table.move'' ''table expected'')
      else if n < 4 then nthrow (bad_argument (n + 1) ''table.move'' ''number expected'')
      else
        let a1 = GetNativeArg args 0;
            a2' = (if 5 \<le> n then GetNativeArg args 4 else a1);
            a2 = (if a2' = VNil then a1 else a2')
        in if \<not> is_table a1 \<or> \<not> is_table a2
           then nthrow (''bad argument to '' @ [CHR 39] @ ''table.move'' @ [CHR 39] @ '' (table expected)'')
           else
             nbind (nlift (CheckIntegerArg (GetNativeArg args 1) 2 ''table.move'')) (\<lambda>f.
             nbind (nlift (CheckIntegerArg (GetNativeArg args 2) 3 ''table.move'')) (\<lambda>e.
             nbind (nlift (CheckIntegerArg (GetNativeArg args 3) 4 ''table.move'')) (\<lambda>t.
             nbind (check_const a2) (\<lambda>_.
             nbind (move_range env a1 a2 f e t) (\<lambda>_. nret a2))))))"

section \<open>sort and create\<close>

text \<open>The default order: numbers among themselves, strings among themselves, mixed pairs as strings.\<close>

fun str_less :: "string \<Rightarrow> string \<Rightarrow> bool" where
  "str_less s [] = False"
| "str_less [] (c # r) = True"
| "str_less (a # s) (b # r) =
     (if (of_char a :: nat) < of_char b then True else if a = b then str_less s r else False)"

fun is_str :: "cvar \<Rightarrow> bool" where
  "is_str (VString _) = True"
| "is_str (VStringId _) = True"
| "is_str _ = False"

definition default_comp :: "cvar \<Rightarrow> cvar \<Rightarrow> bool result" where
  "default_comp a b =
     (if is_nan_key a \<or> is_nan_key b then Inl ''invalid order function for sorting''
      else case (a, b) of
        (VInt i, VInt j) \<Rightarrow> Inr (sint i < sint j)
      | (VFloat d, VFloat e) \<Rightarrow> Inr (d_lt d e)
      | (VInt i, VFloat e) \<Rightarrow> Inr (CompareInt64Double i e < 0)
      | (VFloat d, VInt j) \<Rightarrow> Inr (CompareInt64Double j d > 0)
      | _ \<Rightarrow>
          if (is_str a \<or> is_num a) \<and> (is_str b \<or> is_num b)
          then Inr (str_less (GetStringArgView a) (GetStringArgView b))
          else Inl ''attempt to compare two values'')"

text \<open>
  \<open>std::stable_sort\<close> with a comparator that may throw, by its specification: each element
  goes after those that are not greater. The order in which it calls the comparator is unspecified;
  it shows only in which exception a list with several incomparable elements throws.
\<close>

fun insert_stable :: "('a \<Rightarrow> 'a \<Rightarrow> bool result) \<Rightarrow> 'a \<Rightarrow> 'a list \<Rightarrow> 'a list result" where
  "insert_stable lt x [] = Inr [x]"
| "insert_stable lt x (y # ys) =
     rbind (lt y x) (\<lambda>b. if b then rbind (insert_stable lt x ys) (\<lambda>r. Inr (y # r)) else Inr (x # y # ys))"

fun stable_sort :: "('a \<Rightarrow> 'a \<Rightarrow> bool result) \<Rightarrow> 'a list \<Rightarrow> 'a list result" where
  "stable_sort lt [] = Inr []"
| "stable_sort lt (x # xs) = rbind (stable_sort lt xs) (insert_stable lt x)"

text \<open>
  The comparator of a closure is \<open>call\<close>, its result's truth the answer; a closure without
  code compares nothing less.
\<close>

definition closure_comp :: "(ptr \<Rightarrow> cvar list \<Rightarrow> cvar result) \<Rightarrow> ptr \<Rightarrow> cvar \<Rightarrow> cvar \<Rightarrow> bool result" where
  "closure_comp call cl a b = rbind (call cl [a, b]) (\<lambda>r. Inr (r \<noteq> VNil \<and> r \<noteq> VBool False))"

definition table_sort :: "spec_env \<Rightarrow> (ptr \<Rightarrow> cvar list \<Rightarrow> cvar result) \<Rightarrow> cvar list \<Rightarrow> cvar nstep" where
  "table_sort env call args =
     (let n = length args; tbl = GetNativeArg args 0 in
      if n < 1 then nthrow (not_table ''table.sort'')
      else if \<not> is_table tbl then nthrow (not_table ''table.sort'')
      else nbind (check_const tbl) (\<lambda>_. nbind (get_len env tbl) (\<lambda>len.
        if sint len \<le> 1 then nret VNil
        else (\<lambda>s.
          let vec = map (\<lambda>i. GetTableInt env (tables s (tbl_ptr tbl)) (ix i)) [1..sint len];
              comp = (if 2 \<le> n then GetNativeArg args 1 else VNil);
              sorted = (case comp of
                  VNil \<Rightarrow> stable_sort default_comp vec
                | VClosure p \<Rightarrow> if p \<noteq> 0 then stable_sort (closure_comp call p) vec else stable_sort default_comp vec
                | _ \<Rightarrow> Inl (bad_argument 2 ''table.sort'' ''function expected''))
          in nbind (nlift sorted) (\<lambda>vec'.
               nbind (set_each env tbl (zip (map ix [1..sint len]) vec')) (\<lambda>_. nret VNil)) s))))"

definition table_create :: "spec_env \<Rightarrow> cvar list \<Rightarrow> cvar nstep" where
  "table_create env args =
     (if length args < 1 then new_table
      else nbind (nlift (CheckIntegerArg (GetNativeArg args 0) 1 ''table.create'')) (\<lambda>count0.
        let count = (if sint count0 < 0 then 0 else count0);
            v = (if 2 \<le> length args then GetNativeArg args 1 else VNil)
        in nbind new_table (\<lambda>tbl.
          if v \<noteq> VNil then
            if 10000000 < unat count then nthrow ''table.create: too many items''
            else nbind (set_each env tbl (map (\<lambda>i. (ix i, v)) [1..sint count])) (\<lambda>_. nret tbl)
          else nret tbl)))"

end
