(* ===== verification/TableLibProps.thy ===== *)
theory TableLibProps
imports TableLib
begin

text \<open>
  The \<open>table\<close> library over the table interface: what the shifting loops do to every slot, and
  the properties of \<open>insert\<close>, \<open>remove\<close>, \<open>move\<close> and \<open>sort\<close>.
\<close>

section \<open>Copying slots\<close>

text \<open>No later step reads or writes a slot that an earlier one wrote.\<close>

fun copy_safe :: "('k \<times> 'k) list \<Rightarrow> bool" where
  "copy_safe [] = True"
| "copy_safe ((f, d) # ps) = (d \<notin> fst ` set ps \<and> d \<notin> snd ` set ps \<and> copy_safe ps)"

definition copied :: "('k \<times> 'k) list \<Rightarrow> ('k \<Rightarrow> 'v) \<Rightarrow> 'k \<Rightarrow> 'v" where
  "copied ps m x = (case map_of (map (\<lambda>(f, d). (d, f)) ps) x of Some f \<Rightarrow> m f | None \<Rightarrow> m x)"

context table_interface
begin

lemma copy_loop_ok:
  assumes "inv s" "copy_safe ps" "copy_loop lookup store ps s = (Inr u, s')"
  shows "inv s' \<and> lookup s' = copied ps (lookup s)"
  using assms
proof (induction ps arbitrary: s)
  case Nil
  then show ?case by (auto simp: copied_def)
next
  case (Cons p ps)
  obtain f d where p: "p = (f, d)" by (cases p)
  obtain w s1 where w: "store s d (lookup s f) = (Inr w, s1)" "copy_loop lookup store ps s1 = (Inr u, s')"
    using Cons.prems(3) by (auto simp: p split: prod.splits sum.splits)
  have s1: "inv s1" "\<And>x. lookup s1 x = (if x = d then lookup s f else lookup s x)"
    using store_inv [OF Cons.prems(1) w(1)] lookup_store [OF Cons.prems(1) w(1)] by auto
  have safe: "d \<notin> fst ` set ps" "d \<notin> snd ` set ps" "copy_safe ps" using Cons.prems(2) by (auto simp: p)
  have "copied (p # ps) (lookup s) x = copied ps (lookup s1) x" for x
  proof (cases "map_of (map (\<lambda>(f, d). (d, f)) ps) x")
    case None
    then show ?thesis by (simp add: copied_def p s1(2))
  next
    case (Some g)
    then have "(g, x) \<in> set ps" using map_of_SomeD [OF Some] by auto
    then have "g \<noteq> d" "x \<noteq> d" using safe by force+
    then show ?thesis using Some by (simp add: copied_def p s1(2))
  qed
  then show ?case using Cons.IH [OF s1(1) safe(3) w(2)] by auto
qed

end

text \<open>The slots of a store whose tables are well formed.\<close>

definition store_ok :: "nstate \<Rightarrow> bool" where
  "store_ok s \<longleftrightarrow> (\<forall>p. table_inv (tables s p))"

lemma slot_write_ok:
  assumes s: "store_ok s" and w: "slot_write env flag s sl v = (Inr u, s')"
  shows "store_ok s' \<and> slot_read env s' = (slot_read env s)(sl := v) \<and> (\<forall>q. q \<noteq> fst sl \<longrightarrow> tables s' q = tables s q) \<and>
    interp_const_alloc s' = interp_const_alloc s"
proof -
  obtain p i where sl: "sl = (p, i)" by (cases sl)
  obtain t' where t': "SetTableInt env (interp_const_alloc s) flag (tables s p) i v = (Inr u, t')"
    "s' = s\<lparr>tables := (tables s)(p := t')\<rparr>"
    using w by (auto simp: slot_write_def on_table_def sl split: prod.splits)
  have t: "table_inv (tables s p)" using s by (simp add: store_ok_def)
  have "flag \<longrightarrow> interp_const_alloc s"
    using t'(1) by (auto simp: SetTableInt_def CheckConstTable_def split: if_splits)
  from SetTableInt_ok [OF t this, of i v env] t'(1)
  have ok: "table_inv t'" "tmap t' = (tmap (tables s p))(VInt i := val_opt v)" by (simp_all add: stores_Inr)
  have rd: "GetTableInt env t' j = (if j = i then v else GetTableInt env (tables s p) j)" for j
    using GetTableInt_ok [of t'] GetTableInt_ok [of "tables s p"] t ok by (simp add: table_inv_def map_val_upd)
  have "slot_read env s' = (slot_read env s)(sl := v)"
    by (auto simp: slot_read_def t'(2) sl rd fun_eq_iff)
  then show ?thesis using s ok(1) by (auto simp: store_ok_def t'(2) sl)
qed

interpretation slots: table_interface store_ok "slot_read env" "slot_write env flag"
  by unfold_locales (use slot_write_ok in \<open>simp_all\<close>)

text \<open>What a copy leaves alone.\<close>

lemma copy_loop_frame:
  assumes "copy_loop (slot_read env) (slot_write env flag) ps s = (Inr u, s')" "store_ok s"
    "\<And>f d. (f, d) \<in> set ps \<Longrightarrow> fst d = p"
  shows "(\<forall>q. q \<noteq> p \<longrightarrow> tables s' q = tables s q)"
  using assms
proof (induction ps arbitrary: s)
  case (Cons x ps)
  obtain f d where x: "x = (f, d)" by (cases x)
  obtain w s1 where w: "slot_write env flag s d (slot_read env s f) = (Inr w, s1)"
    "copy_loop (slot_read env) (slot_write env flag) ps s1 = (Inr u, s')"
    using Cons.prems(1) by (auto simp: x split: prod.splits sum.splits)
  note wr = slot_write_ok [OF Cons.prems(2) w(1)]
  have d: "fst d = p" using Cons.prems(3) [of f d] by (simp add: x)
  have "tables s' q = tables s1 q" if "q \<noteq> p" for q
    using Cons.IH [OF w(2)] wr Cons.prems(3) that by (auto simp: x)
  then show ?case using wr d by simp
qed simp

lemma sint_ix: "- (2 ^ 63) \<le> i \<Longrightarrow> i < 2 ^ 63 \<Longrightarrow> sint (ix i) = i"
  unfolding ix_def by (rule sint_word_of_int64) auto

lemma ix_inj: "ix i = ix j \<Longrightarrow> - (2 ^ 63) \<le> i \<Longrightarrow> i < 2 ^ 63 \<Longrightarrow> - (2 ^ 63) \<le> j \<Longrightarrow> j < 2 ^ 63 \<Longrightarrow> i = j"
  using sint_ix by metis

lemma ix_sint [simp]: "ix (sint w) = w"
  by (simp add: ix_def)

section \<open>The border is small\<close>

lemma border_bound:
  assumes t: "tinv t" and b: "first_border (tmap t) n"
  shows "sint n \<le> 73728"
proof -
  let ?ps = "map (\<lambda>(k, v). (canon k, v)) (CollectKVPairs (\<lambda>t. t) t)"
  have c: "core t" using t by (simp add: tinv_def)
  have "length (arr_pairs t) \<le> arr_size t"
    unfolding arr_pairs_def by (rule order_trans [OF length_filter_le]) simp
  moreover have "length (hash_pairs t) \<le> length (live_entries t)"
    unfolding hash_pairs_def by (rule order_trans [OF length_filter_le]) simp
  moreover have "length (live_entries t) = tbl_count t" using live_length c by (simp add: core_def)
  ultimately have "length (CollectKVPairs (\<lambda>t. t) t) \<le> arr_size t + tbl_count t"
    by (simp add: CollectKVPairs_def plain_spec(6) [OF t])
  also have "\<dots> \<le> 73728" using tbl_count_bound [OF c] c by (simp add: core_def arr_ok_def)
  finally have len: "length ?ps \<le> 73728" by simp
  have "(\<lambda>i. VInt (ix i)) ` {1..sint n} \<subseteq> dom (map_of ?ps)"
  proof
    fix x
    assume "x \<in> (\<lambda>i. VInt (ix i)) ` {1..sint n}"
    then obtain i where i: "x = VInt (ix i)" "1 \<le> i" "i \<le> sint n" by auto
    have "sint (ix i) = i" by (rule sint_ix) (use i sint64_bounds [of n] in simp_all)
    then have "tmap t x \<noteq> None" using b i by (simp add: first_border_def)
    then show "x \<in> dom (map_of ?ps)" using CollectKVPairs_ok(2) [OF t] by auto
  qed
  then have "card ((\<lambda>i. VInt (ix i)) ` {1..sint n}) \<le> card (dom (map_of ?ps))"
    by (intro card_mono) (simp_all add: finite_dom_map_of)
  also have "\<dots> \<le> length ?ps" by (metis card_length dom_map_of_conv_image_fst length_map list.set_map)
  finally have small: "card ((\<lambda>i. VInt (ix i)) ` {1..sint n}) \<le> 73728" using len by (rule order_trans)
  have inj: "inj_on (\<lambda>i. VInt (ix i)) {1..sint n}"
  proof (rule inj_onI)
    fix i j
    assume ij: "i \<in> {1..sint n}" "j \<in> {1..sint n}" "VInt (ix i) = VInt (ix j)"
    then have "ix i = ix j" by simp
    then show "i = j" by (rule ix_inj) (use ij sint64_bounds [of n] in simp_all)
  qed
  have nat: "nat (b - 1 + 1) \<le> N \<Longrightarrow> b \<le> int N" for b N by simp
  have "sint n \<le> int 73728" by (rule nat) (use small in \<open>simp only: card_image [OF inj] card_atLeastAtMost_int\<close>)
  then show ?thesis by (simp only: of_nat_numeral)
qed

section \<open>Loops over a range\<close>

lemma copy_safe_map:
  "copy_safe (map (\<lambda>i. (F i, D i)) is) \<longleftrightarrow> sorted_wrt (\<lambda>i j. F j \<noteq> D i \<and> D j \<noteq> D i) is"
proof (induction "is")
  case (Cons a xs)
  have "D a \<notin> F ` set xs \<and> D a \<notin> D ` set xs \<longleftrightarrow> (\<forall>j \<in> set xs. F j \<noteq> D a \<and> D j \<noteq> D a)"
    by (metis imageE imageI)
  with Cons show ?case by (simp add: image_image) blast
qed simp

lemma copied_map_in:
  assumes "inj_on D (set is)" "i \<in> set is"
  shows "copied (map (\<lambda>i. (F i, D i)) is) m (D i) = m (F i)"
proof -
  have "map_of (map (\<lambda>i. (D i, F i)) is) (D i) = Some (F i)"
    using assms by (induction "is") (auto simp: inj_on_def)
  then show ?thesis by (simp add: copied_def comp_def)
qed

lemma copied_map_out:
  assumes "x \<notin> D ` set is"
  shows "copied (map (\<lambda>i. (F i, D i)) is) m x = m x"
proof -
  have "map_of (map (\<lambda>i. (D i, F i)) is) x = None" using assms by (auto simp: map_of_eq_None_iff)
  then show ?thesis by (simp add: copied_def comp_def)
qed

lemma ix_inj_on: "- (2 ^ 63) \<le> a \<Longrightarrow> b < 2 ^ 63 \<Longrightarrow> inj_on (\<lambda>i. (p, ix i)) {a..b}"
  by (rule inj_onI) (auto dest: ix_inj)

lemma shift_up_ok:
  assumes "0 < pos" "len < 2 ^ 62"
  shows "copy_safe (shift_up_slots p pos len)"
    and "copied (shift_up_slots p pos len) m (p, i) =
      (if pos < sint i \<and> sint i \<le> len + 1 then m (p, i - 1) else m (p, i))"
    and "q \<noteq> p \<Longrightarrow> copied (shift_up_slots p pos len) m (q, i) = m (q, i)"
proof -
  let ?F = "\<lambda>i. (p, ix i)" and ?D = "\<lambda>i. (p, ix (i + 1))"
  have range: "- (2 ^ 63) \<le> j" "j < 2 ^ 63" "- (2 ^ 63) \<le> j + 1" "j + 1 < 2 ^ 63" if "j \<in> {pos..len}" for j
    using that assms by auto
  have inj: "inj_on ?D (set (rev [pos..len]))"
  proof (rule inj_onI)
    fix a b assume "a \<in> set (rev [pos..len])" "b \<in> set (rev [pos..len])" "?D a = ?D b"
    then show "a = b" using range [of a] range [of b] ix_inj [of "a + 1" "b + 1"] by simp
  qed
  have "sorted_wrt (\<lambda>i j. ?F j \<noteq> ?D i \<and> ?D j \<noteq> ?D i) (rev [pos..len])"
    unfolding sorted_wrt_rev
  proof (rule sorted_wrt_mono_rel [OF _ sorted_wrt_upto])
    fix a b assume ab: "a \<in> set [pos..len]" "b \<in> set [pos..len]" "a < b"
    have "ix a \<noteq> ix (b + 1)" "ix (a + 1) \<noteq> ix (b + 1)"
      using range [of a] range [of b] ab ix_inj [of a "b + 1"] ix_inj [of "a + 1" "b + 1"] by auto
    then show "?F a \<noteq> ?D b \<and> ?D a \<noteq> ?D b" by simp
  qed
  then show "copy_safe (shift_up_slots p pos len)" unfolding shift_up_slots_def copy_safe_map .
  show "copied (shift_up_slots p pos len) m (p, i) = (if pos < sint i \<and> sint i \<le> len + 1 then m (p, i - 1) else m (p, i))"
  proof (cases "pos < sint i \<and> sint i \<le> len + 1")
    case True
    then have "sint i - 1 \<in> set (rev [pos..len])" by simp
    from copied_map_in [OF inj this, of ?F m] have "copied (shift_up_slots p pos len) m (p, i) = m (p, ix (sint i - 1))"
      by (simp add: shift_up_slots_def)
    moreover have "ix (sint i - 1) = i - 1" by (simp add: ix_def)
    ultimately show ?thesis using True by simp
  next
    case False
    have "(p, i) \<notin> ?D ` set (rev [pos..len])"
    proof
      assume "(p, i) \<in> ?D ` set (rev [pos..len])"
      then obtain j where j: "pos \<le> j" "j \<le> len" "i = ix (j + 1)" by auto
      then have "sint i = j + 1" using range [of j] sint_ix by simp
      then show False using False j by simp
    qed
    from copied_map_out [OF this, of ?F m] show ?thesis unfolding shift_up_slots_def if_not_P [OF False] .
  qed
  assume "q \<noteq> p"
  then show "copied (shift_up_slots p pos len) m (q, i) = m (q, i)"
    unfolding shift_up_slots_def by (intro copied_map_out) auto
qed

lemma shift_down_ok:
  assumes "0 \<le> pos" "len < 2 ^ 62"
  shows "copy_safe (shift_down_slots p pos len)"
    and "copied (shift_down_slots p pos len) m (p, i) =
      (if pos \<le> sint i \<and> sint i < len then m (p, i + 1) else m (p, i))"
    and "q \<noteq> p \<Longrightarrow> copied (shift_down_slots p pos len) m (q, i) = m (q, i)"
proof -
  let ?F = "\<lambda>i. (p, ix (i + 1))" and ?D = "\<lambda>i. (p, ix i)"
  have range: "- (2 ^ 63) \<le> j" "j < 2 ^ 63" "- (2 ^ 63) \<le> j + 1" "j + 1 < 2 ^ 63" if "j \<in> {pos..len - 1}" for j
    using that assms by auto
  have inj: "inj_on ?D (set [pos..len - 1])"
    using assms ix_inj_on [of pos "len - 1" p] by simp
  have "sorted_wrt (\<lambda>i j. ?F j \<noteq> ?D i \<and> ?D j \<noteq> ?D i) [pos..len - 1]"
  proof (rule sorted_wrt_mono_rel [OF _ sorted_wrt_upto])
    fix a b assume ab: "a \<in> set [pos..len - 1]" "b \<in> set [pos..len - 1]" "a < b"
    have "ix (b + 1) \<noteq> ix a" "ix b \<noteq> ix a"
      using range [of a] range [of b] ab ix_inj [of "b + 1" a] ix_inj [of b a] by auto
    then show "?F b \<noteq> ?D a \<and> ?D b \<noteq> ?D a" by simp
  qed
  then show "copy_safe (shift_down_slots p pos len)" unfolding shift_down_slots_def copy_safe_map .
  show "copied (shift_down_slots p pos len) m (p, i) = (if pos \<le> sint i \<and> sint i < len then m (p, i + 1) else m (p, i))"
  proof (cases "pos \<le> sint i \<and> sint i < len")
    case True
    then have "sint i \<in> set [pos..len - 1]" by simp
    from copied_map_in [OF inj this, of ?F m] have "copied (shift_down_slots p pos len) m (p, i) = m (p, ix (sint i + 1))"
      by (simp add: shift_down_slots_def)
    moreover have "ix (sint i + 1) = i + 1" by (simp add: ix_def)
    ultimately show ?thesis using True by simp
  next
    case False
    have "(p, i) \<notin> ?D ` set [pos..len - 1]"
    proof
      assume "(p, i) \<in> ?D ` set [pos..len - 1]"
      then obtain j where j: "pos \<le> j" "j \<le> len - 1" "i = ix j" by auto
      then have "sint i = j" using range [of j] sint_ix by simp
      then show False using False j by simp
    qed
    from copied_map_out [OF this, of ?F m] show ?thesis unfolding shift_down_slots_def if_not_P [OF False] .
  qed
  assume "q \<noteq> p"
  then show "copied (shift_down_slots p pos len) m (q, i) = m (q, i)"
    unfolding shift_down_slots_def by (intro copied_map_out) auto
qed

section \<open>insert and remove\<close>

lemma nbind_Inr: "nbind m f s = (Inr r, s') \<longleftrightarrow> (\<exists>x s1. m s = (Inr x, s1) \<and> f x s1 = (Inr r, s'))"
  by (auto simp: nbind_def split: prod.splits sum.splits)

lemma nret_eq: "nret x s = (r, s') \<longleftrightarrow> r = Inr x \<and> s' = s"
  by (auto simp: nret_def)

lemma nthrow_eq: "nthrow e s = (r, s') \<longleftrightarrow> r = Inl e \<and> s' = s"
  by (auto simp: nthrow_def)

lemma nlift_eq: "nlift x s = (r, s') \<longleftrightarrow> r = x \<and> s' = s"
  by (auto simp: nlift_def)

lemmas nstep_simps = nbind_Inr nret_eq nthrow_eq nlift_eq

lemma get_len_ok:
  assumes s: "store_ok s" and g: "get_len env tbl s = (Inr n, s')"
  shows "n = fst (GetTableLen env (tables s (tbl_ptr tbl))) \<and> store_ok s' \<and> slot_read env s' = slot_read env s \<and>
    interp_const_alloc s' = interp_const_alloc s \<and> (\<forall>q. q \<noteq> tbl_ptr tbl \<longrightarrow> tables s' q = tables s q) \<and>
    0 \<le> sint n \<and> sint n \<le> 73728"
proof -
  let ?t = "tables s (tbl_ptr tbl)" and ?t' = "snd (GetTableLen env (tables s (tbl_ptr tbl)))"
  have t: "table_inv ?t" using s by (simp add: store_ok_def)
  note len = GetTableLen_ok [OF t, of env]
  have n: "n = fst (GetTableLen env ?t)" "s' = s\<lparr>tables := (tables s)(tbl_ptr tbl := ?t')\<rparr>"
    using g by (auto simp: get_len_def on_table_def split: prod.splits)
  have "GetTableInt env ?t' i = GetTableInt env ?t i" for i
    using GetTableInt_ok [of ?t'] GetTableInt_ok [of ?t] t len by (simp add: table_inv_def)
  then have "slot_read env s' = slot_read env s" by (auto simp: slot_read_def n(2) fun_eq_iff)
  moreover have "0 \<le> sint n \<and> sint n \<le> 73728"
    using len border_bound [of ?t n] t n(1) by (auto simp: table_inv_def first_border_def)
  ultimately show ?thesis using s len n by (auto simp: store_ok_def)
qed

lemma check_const_ok: "check_const tbl s = (Inr x, s') \<Longrightarrow> s' = s"
  by (auto simp: check_const_def on_table_def CheckConstTable_def split: if_splits)

text \<open>
  C23. \<open>table.insert(t, pos, v)\<close>, when it returns: the position was between 1 and \<open>#t + 1\<close>, the value is
  at it, the elements from it up to the border have moved one up, every other index and
  every other table is as before.
\<close>

theorem table_insert_shifts:
  assumes s: "store_ok s" and r: "table_insert env [VTable fl p, VInt pos, v] s = (Inr r, s')"
  defines "n \<equiv> fst (GetTableLen env (tables s p))"
  shows "1 \<le> sint pos \<and> sint pos \<le> sint n + 1 \<and> store_ok s' \<and> (\<forall>q. q \<noteq> p \<longrightarrow> tables s' q = tables s q) \<and>
    (\<forall>i. GetTableInt env (tables s' p) i =
       (if i = pos then first_value v
        else if sint pos < sint i \<and> sint i \<le> sint n + 1 then GetTableInt env (tables s p) (i - 1)
        else GetTableInt env (tables s p) i))"
proof -
  let ?tbl = "VTable fl p" and ?ps = "shift_up_slots p (sint pos) (sint n)"
  have args: "GetNativeArg [?tbl, VInt pos, v] 0 = ?tbl" "GetNativeArg [?tbl, VInt pos, v] (Suc 0) = VInt pos"
    "GetNativeArg [?tbl, VInt pos, v] 2 = first_value v" by (simp_all add: GetNativeArg_def)
  from r have p: "p \<noteq> 0" by (auto simp: table_insert_def args Let_def nthrow_eq split: if_splits)
  from r p obtain m s1 where "get_len env ?tbl s = (Inr m, s1)"
    by (auto simp: table_insert_def args Let_def nstep_simps)
  with r p get_len_ok [OF s this] have n: "n = m" "get_len env ?tbl s = (Inr n, s1)"
    by (simp_all add: n_def)
  note g = get_len_ok [OF s n(2)]
  have "\<not> (sint pos < 1 \<or> sint n + 1 < sint pos) \<and>
      (\<exists>s2. copy_slots env fl ?ps s1 = (Inr (), s2) \<and> set_int env ?tbl pos (first_value v) s2 = (Inr (), s'))"
    using r p n(2) by (auto simp: table_insert_def args Let_def nstep_simps split: if_splits)
  then obtain s2 where range: "1 \<le> sint pos" "sint pos \<le> sint n + 1" and c: "copy_slots env fl ?ps s1 = (Inr (), s2)"
    and w: "slot_write env fl s2 (p, pos) (first_value v) = (Inr (), s')"
    by (auto simp: set_int_def)
  have lens: "0 < sint pos" "sint n < 2 ^ 62" using range g by auto
  note sh = shift_up_ok [OF lens]
  have ok1: "store_ok s1" and rd1: "slot_read env s1 = slot_read env s" using g by blast+
  have cp: "store_ok s2" "slot_read env s2 = copied ?ps (slot_read env s)"
    using slots.copy_loop_ok [OF ok1 sh(1) c [unfolded copy_slots_def]] rd1 by simp_all
  have fr: "\<forall>q. q \<noteq> p \<longrightarrow> tables s2 q = tables s1 q"
    by (rule copy_loop_frame [OF c [unfolded copy_slots_def] ok1]) (auto simp: shift_up_slots_def)
  note wr = slot_write_ok [OF cp(1) w]
  have "GetTableInt env (tables s' p) i = slot_read env s' (p, i)" for i by (simp add: slot_read_def)
  then have "GetTableInt env (tables s' p) i =
      (if i = pos then first_value v
       else if sint pos < sint i \<and> sint i \<le> sint n + 1 then GetTableInt env (tables s p) (i - 1)
       else GetTableInt env (tables s p) i)" for i
    using wr cp(2) sh(2) [of p "slot_read env s" i] by (simp add: slot_read_def)
  then show ?thesis using range wr fr g by simp
qed

text \<open>
  C24. \<open>table.remove(t, pos)\<close>, when it returns for a position up to the border: the result is
  the element that was there, the elements above it have moved one down, the last slot is
  nil, every other index and every other table is as before.
\<close>

theorem table_remove_shifts:
  assumes s: "store_ok s" and r: "table_remove env [VTable fl p, VInt pos] s = (Inr r, s')"
  defines "n \<equiv> fst (GetTableLen env (tables s p))"
  shows "1 \<le> sint pos \<and> sint pos \<le> sint n + 1 \<and> r = GetTableInt env (tables s p) pos \<and> store_ok s' \<and>
    (\<forall>q. q \<noteq> p \<longrightarrow> tables s' q = tables s q) \<and>
    (\<forall>i. GetTableInt env (tables s' p) i =
       (if i = (if sint pos < sint n then n else pos) then VNil
        else if sint pos \<le> sint i \<and> sint i < sint n then GetTableInt env (tables s p) (i + 1)
        else GetTableInt env (tables s p) i))"
proof -
  let ?tbl = "VTable fl p" and ?ps = "shift_down_slots p (sint pos) (sint n)"
  let ?last = "if sint pos < sint n then n else pos"
  have args: "GetNativeArg [?tbl, VInt pos] 0 = ?tbl" "GetNativeArg [?tbl, VInt pos] (Suc 0) = VInt pos"
    by (simp_all add: GetNativeArg_def)
  from r have p: "p \<noteq> 0" by (auto simp: table_remove_def args Let_def nthrow_eq split: if_splits)
  from r p obtain x s0 m s1 where "check_const ?tbl s = (Inr x, s0)" "get_len env ?tbl s0 = (Inr m, s1)"
    by (auto simp: table_remove_def args Let_def nstep_simps)
  then have c: "check_const ?tbl s = (Inr x, s)" and gl: "get_len env ?tbl s = (Inr m, s1)"
    using check_const_ok by blast+
  have n: "m = n" using get_len_ok [OF s gl] by (simp add: n_def)
  note g = get_len_ok [OF s gl [unfolded n]]
  have "\<not> (sint pos < 1 \<or> sint n + 1 < sint pos) \<and> r = GetTableInt env (tables s1 p) pos \<and>
      (\<exists>s2. copy_slots env fl ?ps s1 = (Inr (), s2) \<and> set_int env ?tbl ?last VNil s2 = (Inr (), s'))"
    using r p c gl n
    by (auto simp: table_remove_def args Let_def nstep_simps get_int_def split: if_splits)
  then obtain s2 where range: "1 \<le> sint pos" "sint pos \<le> sint n + 1" and res: "r = GetTableInt env (tables s1 p) pos"
    and cs: "copy_slots env fl ?ps s1 = (Inr (), s2)"
    and w: "slot_write env fl s2 (p, ?last) VNil = (Inr (), s')"
    by (auto simp: set_int_def)
  have lens: "0 \<le> sint pos" "sint n < 2 ^ 62" using range g by auto
  note sh = shift_down_ok [OF lens]
  have ok1: "store_ok s1" and rd1: "slot_read env s1 = slot_read env s" using g by blast+
  have cp: "store_ok s2" "slot_read env s2 = copied ?ps (slot_read env s)"
    using slots.copy_loop_ok [OF ok1 sh(1) cs [unfolded copy_slots_def]] rd1 by simp_all
  have fr: "\<forall>q. q \<noteq> p \<longrightarrow> tables s2 q = tables s1 q"
    by (rule copy_loop_frame [OF cs [unfolded copy_slots_def] ok1]) (auto simp: shift_down_slots_def)
  note wr = slot_write_ok [OF cp(1) w]
  have "slot_read env s1 (p, pos) = slot_read env s (p, pos)" using g by simp
  then have "r = GetTableInt env (tables s p) pos" using res by (simp add: slot_read_def)
  moreover have "GetTableInt env (tables s' p) i = slot_read env s' (p, i)" for i by (simp add: slot_read_def)
  then have "GetTableInt env (tables s' p) i =
      (if i = ?last then VNil
       else if sint pos \<le> sint i \<and> sint i < sint n then GetTableInt env (tables s p) (i + 1)
       else GetTableInt env (tables s p) i)" for i
    using wr cp(2) sh(2) [of p "slot_read env s" i] by (simp add: slot_read_def)
  ultimately show ?thesis using range wr fr g by simp
qed

section \<open>move\<close>

text \<open>The rehash of an empty table, which only makes room.\<close>

lemma TableRehashTo_empty:
  assumes h: "hash_ok t" and c: "tbl_count t = 0" and m: "m \<le> 2 ^ 31"
  shows "(\<exists>t'. TableRehashTo t m = (Inr (), t') \<and> hash_ok t' \<and> hash_frame t t' \<and> hmap t' = hmap t) \<or>
    (\<exists>e. TableRehashTo t m = (Inl e, t))"
proof -
  have n0: "unat (NextPowerOfTwo (word_of_nat (tbl_count t + 1))) = 1"
    using NextPowerOfTwo_nat [of 1] by (simp add: c floorlog_def)
  have bc: "bucket_count t = 0 \<or> (\<exists>k. bucket_count t = 2 ^ k)"
    using h by (auto simp: hash_ok_def bucket_inv_def hash_inv_def shape_ok_def split: if_splits)
  let ?n1 = "if 1 \<le> bucket_count t then bucket_count t * 2 else 1"
  have n1: "\<exists>k. ?n1 = 2 ^ k"
  proof (cases "bucket_count t = 0")
    case True
    then show ?thesis by (intro exI [of _ 0]) simp
  next
    case False
    then obtain k where "bucket_count t = 2 ^ k" using bc by auto
    then show ?thesis by (intro exI [of _ "k + 1"]) simp
  qed
  have "\<exists>k. rehash_start t m = 2 ^ k"
  proof (cases "?n1 < m")
    case True
    then have "unat (NextPowerOfTwo (word_of_nat m)) = 2 ^ floorlog 2 (m - 1)" using m by (intro NextPowerOfTwo_nat) auto
    then have "rehash_start t m = 2 ^ floorlog 2 (m - 1)"
      using True unfolding rehash_start_def n0 Let_def by (simp del: of_nat_add)
    then show ?thesis ..
  next
    case False
    then have "rehash_start t m = ?n1" unfolding rehash_start_def n0 Let_def by auto
    then show ?thesis using n1 by simp
  qed
  then obtain k where k: "rehash_start t m = 2 ^ k" ..
  have loop: "TableRehashTo t m = rehash_loop (Suc 31) t (2 ^ k)" by (simp add: TableRehashTo_def k numeral_eq_Suc)
  show ?thesis
  proof (cases "(2::nat) ^ k \<le> 8192")
    case True
    from rehash_loop_ok [OF h refl True, of 31] c obtain t' where
      t': "rehash_loop (Suc 31) t (2 ^ k) = (Inr (), t')" "bucket_inv t'" "hash_frame t t'" "bucket_count t' = 2 ^ k" "hmap t' = hmap t"
      by auto
    then have "hash_ok t'" by (simp add: hash_ok_def)
    then show ?thesis using t' loop by (intro disjI1 exI [of _ t']) simp
  next
    case False
    have "13 < k"
    proof (rule ccontr)
      assume "\<not> 13 < k"
      then have "(2::nat) ^ k \<le> 2 ^ 13" by (intro power_increasing) simp_all
      then show False using False by simp
    qed
    then have "(2::nat) ^ 14 \<le> 2 ^ k" by (intro power_increasing) simp_all
    then have "13792 \<le> (2::nat) ^ k" by simp
    from rehash_loop_too_big [OF this, of 31 t] show ?thesis unfolding loop by blast
  qed
qed

lemma move_presize_ok:
  assumes s: "store_ok s" and r: "move_presize a2 same t n s = (Inr u, s')"
  shows "store_ok s' \<and> slot_read env s' = slot_read env s \<and> (\<forall>q. q \<noteq> tbl_ptr a2 \<longrightarrow> tables s' q = tables s q)"
proof (cases "s' = s")
  case False
  let ?tb = "tables s (tbl_ptr a2)"
  have cond: "tbl_count ?tb = 0" "MovePresizeFits n"
    and rr: "on_table (tbl_ptr a2) (\<lambda>tb. TableRehashTo tb (unat n)) s = (Inr u, s')"
    using r False by (auto simp: move_presize_def Let_def split: if_splits)
  obtain t' where t': "TableRehashTo ?tb (unat n) = (Inr u, t')" "s' = s\<lparr>tables := (tables s)(tbl_ptr a2 := t')\<rparr>"
    using rr by (auto simp: on_table_def split: prod.splits)
  have t: "table_inv ?tb" and ti: "tinv ?tb" and h: "hash_ok ?tb"
    using s by (auto simp: store_ok_def table_inv_def tinv_def core_def)
  have small: "unat n \<le> 2 ^ 31"
  proof (rule ccontr)
    assume big: "\<not> unat n \<le> 2 ^ 31"
    have n: "n \<noteq> 0" "\<not> 4294967295 < n" using cond(2) by (auto simp: MovePresizeFits_def split: if_splits)
    then have "unat n < 2 ^ 32" by (simp add: word_less_nat_alt)
    then have un: "unat (ucast n :: uint32) = unat n" by (simp add: unsigned_ucast_eq take_bit_nat_eq_self)
    have "unat (ucast n :: uint32) \<le> unat (NextPowerOfTwo (ucast n))"
      using cond(2) n by (simp add: MovePresizeFits_def Let_def word_less_nat_alt not_less split: if_splits)
    moreover have "unat (NextPowerOfTwo (ucast n :: uint32)) * sizeof_TableNode \<le> BLOCK_SIZE"
      using cond(2) n by (auto simp: MovePresizeFits_def Let_def add_mult_distrib split: if_splits)
    ultimately show False using big un by (simp add: BLOCK_SIZE_def sizeof_TableNode_def)
  qed
  from TableRehashTo_empty [OF h cond(1) small] t'(1) have t1: "hash_ok t'" "hash_frame ?tb t'" "hmap t' = hmap ?tb" by auto
  have tm: "tmap t' = tmap ?tb" unfolding tmap_def arr_val_frame [OF t1(2)] t1(3) ..
  have "tinv t'" using ti core_hash_frame [OF _ t1(1,2)] hash_frame_fields [OF t1(2)]
    by (simp add: tinv_def hash_above_def t1(3))
  then have inv': "table_inv t'" using t hash_frame_fields [OF t1(2)] by (simp add: table_inv_def seq_ok_def tm)
  have "GetTableInt env t' i = GetTableInt env ?tb i" for i
    using GetTableInt_ok [OF \<open>tinv t'\<close>] GetTableInt_ok [OF ti] tm by simp
  then have "slot_read env s' = slot_read env s" by (auto simp: slot_read_def t'(2) fun_eq_iff)
  then show ?thesis using s inv' by (auto simp: store_ok_def t'(2))
qed (use s in simp)

lemma unat_sint_nonneg:
  assumes "0 \<le> sint (w :: int64)"
  shows "int (unat w) = sint w"
proof -
  have "uint w = uint (word_of_int (sint w) :: int64)" by simp
  also have "\<dots> = sint w mod 2 ^ 64" by (simp only: uint_word_of_int) simp
  also have "\<dots> = sint w" using assms sint64_bounds [of w] by simp
  finally show ?thesis by simp
qed

lemma offset_sint:
  assumes "0 \<le> i" "- (2 ^ 63) \<le> sint b + i" "sint b + i < 2 ^ 63"
  shows "sint (OffsetIndex b (ix i)) = sint b + i"
proof -
  have "OffsetIndex b (ix i) = word_of_int (sint b + i)" by (simp add: OffsetIndex_def ix_def)
  then show ?thesis using sint_word_of_int64 [of "sint b + i"] assms by simp
qed

lemma move_slots_ok:
  fixes f t :: int64 and k :: int
  assumes k: "sint f + k < 2 ^ 63" "sint t + k < 2 ^ 63"
    and dir: "is = [0..k] \<and> (p \<noteq> q \<or> sint t \<le> sint f \<or> sint f + k < sint t) \<or> is = rev [0..k] \<and> sint f < sint t"
  shows "copy_safe (move_slots p q f t is)"
    and "copied (move_slots p q f t is) m (q, x) =
      (if sint t \<le> sint x \<and> sint x \<le> sint t + k then m (p, f + (x - t)) else m (q, x))"
proof -
  let ?F = "\<lambda>i. (p, OffsetIndex f (ix i))" and ?D = "\<lambda>i. (q, OffsetIndex t (ix i))"
  have set: "set is = {0..k}" using dir by auto
  have sf: "sint (OffsetIndex f (ix i)) = sint f + i" if "i \<in> {0..k}" for i
    using that k sint64_bounds [of f] by (intro offset_sint) auto
  have st: "sint (OffsetIndex t (ix i)) = sint t + i" if "i \<in> {0..k}" for i
    using that k sint64_bounds [of t] by (intro offset_sint) auto
  have D: "?D a \<noteq> ?D b" if "a \<in> {0..k}" "b \<in> {0..k}" "a \<noteq> b" for a b
    using st [OF that(1)] st [OF that(2)] that(3) by auto
  have inj: "inj_on ?D (set is)" unfolding set using D by (intro inj_onI) blast
  have F: "?F a = ?D b \<Longrightarrow> p = q \<and> sint f + a = sint t + b" if "a \<in> {0..k}" "b \<in> {0..k}" for a b
    using sf [OF that(1)] st [OF that(2)] by auto
  have "sorted_wrt (\<lambda>i j. ?F j \<noteq> ?D i \<and> ?D j \<noteq> ?D i) is"
    using dir
  proof
    assume fw: "is = [0..k] \<and> (p \<noteq> q \<or> sint t \<le> sint f \<or> sint f + k < sint t)"
    have "sorted_wrt (\<lambda>i j. ?F j \<noteq> ?D i \<and> ?D j \<noteq> ?D i) [0..k]"
    proof (rule sorted_wrt_mono_rel [OF _ sorted_wrt_upto])
      fix a b assume ab: "a \<in> set [0..k]" "b \<in> set [0..k]" "a < b"
      then have "?F b \<noteq> ?D a" using F [of b a] fw by auto
      then show "?F b \<noteq> ?D a \<and> ?D b \<noteq> ?D a" using D [of b a] ab by simp
    qed
    then show ?thesis using fw by simp
  next
    assume bw: "is = rev [0..k] \<and> sint f < sint t"
    have "sorted_wrt (\<lambda>i j. ?F i \<noteq> ?D j \<and> ?D i \<noteq> ?D j) [0..k]"
    proof (rule sorted_wrt_mono_rel [OF _ sorted_wrt_upto])
      fix a b assume ab: "a \<in> set [0..k]" "b \<in> set [0..k]" "a < b"
      then have "?F a \<noteq> ?D b" using F [of a b] bw by auto
      then show "?F a \<noteq> ?D b \<and> ?D a \<noteq> ?D b" using D [of a b] ab by simp
    qed
    then show ?thesis using bw by (simp add: sorted_wrt_rev)
  qed
  then show "copy_safe (move_slots p q f t is)" unfolding move_slots_def copy_safe_map .
  show "copied (move_slots p q f t is) m (q, x) =
      (if sint t \<le> sint x \<and> sint x \<le> sint t + k then m (p, f + (x - t)) else m (q, x))"
  proof (cases "sint t \<le> sint x \<and> sint x \<le> sint t + k")
    case True
    then have i: "sint x - sint t \<in> set is" by (simp add: set)
    have "OffsetIndex t (ix (sint x - sint t)) = x" "OffsetIndex f (ix (sint x - sint t)) = f + (x - t)"
      by (simp_all add: OffsetIndex_def ix_def)
    then show ?thesis using copied_map_in [OF inj i, of ?F m] True by (simp add: move_slots_def)
  next
    case False
    have "(q, x) \<notin> ?D ` set is"
    proof
      assume "(q, x) \<in> ?D ` set is"
      then obtain i where i: "i \<in> {0..k}" "x = OffsetIndex t (ix i)" unfolding set by auto
      then show False using st [OF i(1)] False by auto
    qed
    from copied_map_out [OF this, of ?F m] show ?thesis unfolding move_slots_def if_not_P [OF False] .
  qed
qed

text \<open>
  C25. \<open>table.move(a1, f, e, t, a2)\<close> has the effect of \<open>memmove\<close>: when it returns, the
  slots from \<open>t\<close> on of the target hold what the slots from \<open>f\<close> to \<open>e\<close> of the source held before, also when
  the two ranges of one table overlap, and every other slot of the target is as before.
\<close>

theorem move_range_is_memmove:
  assumes s: "store_ok s" and fe: "sint f \<le> sint e"
    and r: "move_range env (VTable b1 p) (VTable b2 q) f e t s = (Inr (), s')"
  shows "store_ok s' \<and> (\<forall>x. GetTableInt env (tables s' q) x =
      (if sint t \<le> sint x \<and> sint x \<le> sint t + (sint e - sint f)
       then GetTableInt env (tables s p) (f + (x - t)) else GetTableInt env (tables s q) x))"
proof -
  let ?a2 = "VTable b2 q" and ?n = "e - f + 1"
  let ?fw = "p \<noteq> q \<or> sint t \<le> sint f \<or> sint e < sint t"
  define ls where "ls = (if ?fw then [0..sint ?n - 1] else rev [0..sint ?n - 1])"
  have ok: "?n \<noteq> 0" "\<not> 2 ^ 63 - 1 < unat ?n" "\<not> (0 < sint t \<and> 2 ^ 63 - 1 - (unat ?n - 1) < unat t)"
    and run: "nbind (move_presize ?a2 (p = q) t ?n) (\<lambda>_. copy_slots env b2 (move_slots p q f t ls)) s = (Inr (), s')"
    using r fe unfolding move_range_def Let_def ls_def
    by (auto simp: nthrow_eq split: if_splits simp del: word_neq_0_conv)
  have un: "uint ?n = (sint e - sint f + 1) mod 2 ^ 64"
  proof -
    have "?n = word_of_int (sint e - sint f + 1)" by simp
    then show ?thesis by (simp only: uint_word_of_int) simp
  qed
  have range: "0 < sint e - sint f + 1" "sint e - sint f + 1 \<le> 2 ^ 64"
    using fe sint64_bounds [of e] sint64_bounds [of f] by simp_all
  have "sint e - sint f + 1 \<noteq> 2 ^ 64"
  proof
    assume "sint e - sint f + 1 = 2 ^ 64"
    then have "uint ?n = 0" by (simp add: un)
    then show False using ok(1) by (simp add: uint_0_iff)
  qed
  then have un': "uint ?n = sint e - sint f + 1" using un range by simp
  then have unat_n: "int (unat ?n) = sint e - sint f + 1" by simp
  have "unat ?n < 9223372036854775808" using ok(2) by simp
  with unat_n have "sint e - sint f + 1 < 9223372036854775808" by linarith
  then have bound: "sint e - sint f + 1 < 2 ^ 63" by simp
  have n: "sint ?n = sint e - sint f + 1"
    using sint_word_of_int64 [of "sint e - sint f + 1"] bound range by simp
  obtain s1 where s1: "move_presize ?a2 (p = q) t ?n s = (Inr (), s1)"
    "copy_slots env b2 (move_slots p q f t ls) s1 = (Inr (), s')"
    using run by (auto simp: nbind_Inr)
  note pre = move_presize_ok [OF s s1(1), of env]
  have kf: "sint f + (sint ?n - 1) < 2 ^ 63" using n sint64_bounds [of e] by simp
  have kt: "sint t + (sint ?n - 1) < 2 ^ 63"
  proof (cases "0 < sint t")
    case True
    then have "int (unat t) = sint t" using unat_sint_nonneg [of t] by simp
    moreover have "unat t \<le> 9223372036854775807 - (unat ?n - 1)" "unat ?n < 9223372036854775808"
      using ok(2,3) True by simp_all
    ultimately have "sint t + (sint ?n - 1) < 9223372036854775808" using unat_n n range(1) by linarith
    then show ?thesis by simp
  qed (use n bound in simp)
  have dir: "ls = [0..sint ?n - 1] \<and> (p \<noteq> q \<or> sint t \<le> sint f \<or> sint f + (sint ?n - 1) < sint t) \<or>
      ls = rev [0..sint ?n - 1] \<and> sint f < sint t"
    using n by (auto simp: ls_def)
  note mv = move_slots_ok [OF kf kt dir]
  have st1: "store_ok s1" "slot_read env s1 = slot_read env s" using pre by blast+
  have "store_ok s' \<and> slot_read env s' = copied (move_slots p q f t ls) (slot_read env s)"
    using slots.copy_loop_ok [OF st1(1) mv(1) s1(2) [unfolded copy_slots_def]] st1(2) by simp
  moreover have "GetTableInt env (tables s' q) x = slot_read env s' (q, x)" for x by (simp add: slot_read_def)
  ultimately show ?thesis using n by (simp add: mv(2)) (simp add: slot_read_def)
qed

section \<open>sort\<close>

text \<open>
  What the sort relies on, for the elements of a list: a comparator that returns, asymmetric and
  negatively transitive (a strict weak order).
\<close>

locale strict_weak =
  fixes A :: "'a set" and lt :: "'a \<Rightarrow> 'a \<Rightarrow> bool result" and less_than :: "'a \<Rightarrow> 'a \<Rightarrow> bool"
  assumes returns: "a \<in> A \<Longrightarrow> b \<in> A \<Longrightarrow> lt a b = Inr (less_than a b)"
    and asym: "a \<in> A \<Longrightarrow> b \<in> A \<Longrightarrow> less_than a b \<Longrightarrow> \<not> less_than b a"
    and neg_trans: "a \<in> A \<Longrightarrow> b \<in> A \<Longrightarrow> c \<in> A \<Longrightarrow> less_than a c \<Longrightarrow> less_than a b \<or> less_than b c"
begin

definition equiv :: "'a \<Rightarrow> 'a \<Rightarrow> bool" where
  "equiv a b \<longleftrightarrow> \<not> less_than a b \<and> \<not> less_than b a"

definition in_order :: "'a list \<Rightarrow> bool" where
  "in_order xs \<longleftrightarrow> sorted_wrt (\<lambda>a b. \<not> less_than b a) xs"

lemma equiv_trans:
  assumes "a \<in> A" "b \<in> A" "c \<in> A" "equiv a b"
  shows "equiv a c \<longleftrightarrow> equiv b c"
proof -
  have "\<not> less_than x z" if "x \<in> A" "y \<in> A" "z \<in> A" "equiv x y" "equiv y z" for x y z
    using neg_trans [of x y z] that by (auto simp: equiv_def)
  then have "equiv x z" if "x \<in> A" "y \<in> A" "z \<in> A" "equiv x y" "equiv y z" for x y z
    using that unfolding equiv_def by blast
  moreover have "equiv b a" using assms(4) by (simp add: equiv_def)
  ultimately show ?thesis using assms by blast
qed

lemma insert_stable_ok:
  assumes "x \<in> A" "set ys \<subseteq> A" "in_order ys"
  shows "\<exists>r. insert_stable lt x ys = Inr r \<and> mset r = add_mset x (mset ys) \<and> in_order r \<and>
    (\<forall>a \<in> A. filter (equiv a) r = (if equiv a x then x # filter (equiv a) ys else filter (equiv a) ys))"
  using assms(2,3)
proof (induction ys)
  case Nil
  then show ?case by (simp add: in_order_def)
next
  case (Cons y ys)
  have y: "y \<in> A" "set ys \<subseteq> A" "in_order ys" "\<forall>z \<in> set ys. \<not> less_than z y"
    using Cons.prems by (auto simp: in_order_def)
  show ?case
  proof (cases "less_than y x")
    case False
    have "\<not> less_than z x" if "z \<in> set ys" for z
      using neg_trans [of z y x] that y False assms(1) by blast
    then have "in_order (x # y # ys)" using Cons.prems False by (simp add: in_order_def)
    moreover have "insert_stable lt x (y # ys) = Inr (x # y # ys)" using returns y assms(1) False by simp
    ultimately show ?thesis by auto
  next
    case True
    from Cons.IH [OF y(2,3)] obtain r where r: "insert_stable lt x ys = Inr r" "mset r = add_mset x (mset ys)" "in_order r"
      "\<forall>a \<in> A. filter (equiv a) r = (if equiv a x then x # filter (equiv a) ys else filter (equiv a) ys)" by blast
    have "set r = insert x (set ys)" using r(2) by (metis set_mset_add_mset_insert set_mset_mset)
    then have "in_order (y # r)" using r(3) y asym [OF y(1) assms(1) True] by (auto simp: in_order_def)
    moreover have "insert_stable lt x (y # ys) = Inr (y # r)" using returns y assms(1) True r(1) by simp
    moreover have "\<not> (equiv a x \<and> equiv a y)" if "a \<in> A" for a
    proof
      assume e: "equiv a x \<and> equiv a y"
      then have "equiv x a" by (simp add: equiv_def)
      then have "equiv x y" using e equiv_trans [OF assms(1) that y(1)] by blast
      then show False using True by (simp add: equiv_def)
    qed
    ultimately show ?thesis using r(2,4) by (intro exI [of _ "y # r"]) auto
  qed
qed

text \<open>The sort returns a permutation in order that keeps equivalent elements in their order.\<close>

lemma stable_sort_ok:
  assumes "set xs \<subseteq> A"
  shows "\<exists>r. stable_sort lt xs = Inr r \<and> mset r = mset xs \<and> in_order r \<and>
    (\<forall>a \<in> A. filter (equiv a) r = filter (equiv a) xs)"
  using assms
proof (induction xs)
  case Nil
  then show ?case by (simp add: in_order_def)
next
  case (Cons x xs)
  then obtain r where r: "stable_sort lt xs = Inr r" "mset r = mset xs" "in_order r"
    "\<forall>a \<in> A. filter (equiv a) r = filter (equiv a) xs" by auto
  have "set r \<subseteq> A" using Cons.prems r(2) by (metis mset_eq_setD set_subset_Cons subset_trans)
  from insert_stable_ok [OF _ this r(3), of x] Cons.prems obtain q where
    q: "insert_stable lt x r = Inr q" "mset q = add_mset x (mset r)" "in_order q"
    "\<forall>a \<in> A. filter (equiv a) q = (if equiv a x then x # filter (equiv a) r else filter (equiv a) r)" by auto
  then show ?case using r by auto
qed

end

text \<open>Numbers, by exact value, are such an order; NaN is refused.\<close>

definition plain_number :: "cvar \<Rightarrow> bool" where
  "plain_number v \<longleftrightarrow> is_num v \<and> \<not> num_nan v"

lemma default_comp_numbers:
  assumes "plain_number a" "plain_number b"
  shows "default_comp a b = Inr (num_scaled a < num_scaled b)"
proof -
  have lt: "sint i * d_unit < sint j * d_unit \<longleftrightarrow> sint i < sint j" for i j :: int64
    by (rule mult_less_cancel_right_pos) simp
  have c: "CompareInt64Double i d < 0 \<longleftrightarrow> sint i * d_unit < d_scaled d"
    "CompareInt64Double i d > 0 \<longleftrightarrow> d_scaled d < sint i * d_unit" if "\<not> d_isnan d" for i d
    using that by (simp_all add: CompareInt64Double_sgn)
  show ?thesis using assms
    by (cases a; cases b) (simp_all add: default_comp_def plain_number_def is_nan_key_def lt c d_lt_def)
qed

interpretation numbers: strict_weak "Collect plain_number" default_comp "\<lambda>a b. num_scaled a < num_scaled b"
  by unfold_locales (auto simp: default_comp_numbers)

lemma str_less_irrefl: "\<not> str_less s s"
  by (induction s) auto

lemma str_less_trans: "str_less s t \<Longrightarrow> str_less t u \<Longrightarrow> str_less s u"
proof (induction s t arbitrary: u rule: str_less.induct)
  case (2 c r)
  then show ?case by (cases u) simp_all
next
  case (3 a s b r)
  then show ?case by (cases u) (auto split: if_splits)
qed simp

lemma str_less_total: "str_less s t \<or> s = t \<or> str_less t s"
proof (induction s t rule: str_less.induct)
  case (1 s)
  then show ?case by (cases s) simp_all
qed (auto simp: not_less order_le_less)

interpretation strings: strict_weak "Collect is_str" default_comp
    "\<lambda>a b. str_less (GetStringArgView a) (GetStringArgView b)"
proof
  fix a b c
  assume a: "a \<in> Collect is_str" and b: "b \<in> Collect is_str"
  show "default_comp a b = Inr (str_less (GetStringArgView a) (GetStringArgView b))"
    using a b by (cases a; cases b) (simp_all add: default_comp_def is_nan_key_def)
  assume "str_less (GetStringArgView a) (GetStringArgView b)"
  then show "\<not> str_less (GetStringArgView b) (GetStringArgView a)"
    using str_less_trans str_less_irrefl by blast
next
  fix a b c
  assume "str_less (GetStringArgView a) (GetStringArgView c)"
  then show "str_less (GetStringArgView a) (GetStringArgView b) \<or> str_less (GetStringArgView b) (GetStringArgView c)"
    using str_less_total [of "GetStringArgView a" "GetStringArgView b"] str_less_trans by metis
qed

text \<open>Writing a list of values.\<close>

lemma set_each_ok:
  assumes "store_ok s" "set_each env tbl ws s = (Inr u, s')" "distinct (map fst ws)"
  shows "store_ok s' \<and> (\<forall>i. GetTableInt env (tables s' (tbl_ptr tbl)) i =
      (case map_of ws i of Some v \<Rightarrow> v | None \<Rightarrow> GetTableInt env (tables s (tbl_ptr tbl)) i))"
  using assms
proof (induction ws arbitrary: s)
  case Nil
  then show ?case by (simp add: nret_def)
next
  case (Cons w ws)
  obtain i v where w: "w = (i, v)" by (cases w)
  obtain s1 where s1: "slot_write env (tbl_flag tbl) s (tbl_ptr tbl, i) v = (Inr (), s1)" "set_each env tbl ws s1 = (Inr u, s')"
    using Cons.prems(2) by (auto simp: w nbind_Inr set_int_def)
  note wr = slot_write_ok [OF Cons.prems(1) s1(1)]
  have rd: "GetTableInt env (tables s1 (tbl_ptr tbl)) j =
      (if j = i then v else GetTableInt env (tables s (tbl_ptr tbl)) j)" for j
  proof -
    have "GetTableInt env (tables s1 (tbl_ptr tbl)) j = slot_read env s1 (tbl_ptr tbl, j)" by (simp add: slot_read_def)
    then show ?thesis using wr by (simp add: slot_read_def)
  qed
  have i: "map_of ws i = None" using Cons.prems(3) by (simp add: w map_of_eq_None_iff)
  have "store_ok s'" "GetTableInt env (tables s' (tbl_ptr tbl)) j =
      (case map_of ws j of Some v \<Rightarrow> v | None \<Rightarrow> GetTableInt env (tables s1 (tbl_ptr tbl)) j)" for j
    using Cons.IH [OF _ s1(2)] wr Cons.prems(3) by (simp_all add: w)
  then show ?case using i by (auto simp: rd w split: option.split)
qed

lemma distinct_ix:
  assumes "k < 2 ^ 63"
  shows "distinct (map ix [1..k])"
  using assms by (auto simp: distinct_map intro!: inj_onI dest: ix_inj)

lemma read_back:
  assumes "length vs = length is" "distinct (map f is)" "\<And>i. g (f i) = (case map_of (zip (map f is) vs) (f i) of Some v \<Rightarrow> v | None \<Rightarrow> h (f i))"
  shows "map (g \<circ> f) is = vs"
proof (rule nth_equalityI)
  fix q
  assume q: "q < length (map (g \<circ> f) is)"
  then have "map_of (zip (map f is) vs) (map f is ! q) = Some (vs ! q)"
    using assms(1,2) by (intro map_of_zip_nth) simp_all
  then show "map (g \<circ> f) is ! q = vs ! q" using q assms(3) [of "is ! q"] by simp
qed (simp add: assms(1))

text \<open>
  C26. \<open>table.sort\<close> with the default order on a sequence of numbers, when it returns: the
  elements are a permutation of the old ones, in ascending order of their exact values (integers and
  floats mixed), and numerically equal elements keep their order.
\<close>

theorem table_sort_numbers:
  assumes s: "store_ok s" and r: "table_sort env call [VTable fl p] s = (Inr r, s')"
  defines "n \<equiv> fst (GetTableLen env (tables s p))"
  defines "xs \<equiv> map (GetTableInt env (tables s p) \<circ> ix) [1..sint n]"
    and "ys \<equiv> map (GetTableInt env (tables s' p) \<circ> ix) [1..sint n]"
  assumes num: "\<forall>v \<in> set xs. plain_number v"
  shows "mset ys = mset xs \<and> sorted (map num_scaled ys) \<and>
    (\<forall>k. filter (\<lambda>v. num_scaled v = k) ys = filter (\<lambda>v. num_scaled v = k) xs)"
proof -
  let ?tbl = "VTable fl p"
  have args: "GetNativeArg [?tbl] 0 = ?tbl" by (simp add: GetNativeArg_def)
  from r have p: "p \<noteq> 0" by (auto simp: table_sort_def args Let_def nthrow_eq split: if_splits)
  from r p obtain x s0 m s1 where "check_const ?tbl s = (Inr x, s0)" "get_len env ?tbl s0 = (Inr m, s1)"
    by (auto simp: table_sort_def args Let_def nstep_simps)
  then have c: "check_const ?tbl s = (Inr x, s)" and gl: "get_len env ?tbl s = (Inr m, s1)"
    using check_const_ok by blast+
  have n: "m = n" using get_len_ok [OF s gl] by (simp add: n_def)
  note g = get_len_ok [OF s gl [unfolded n]]
  have n63: "sint n < 2 ^ 63" using sint64_bounds [of n] by simp
  have rd1: "GetTableInt env (tables s1 p) i = GetTableInt env (tables s p) i" for i
  proof -
    have "slot_read env s1 (p, i) = slot_read env s (p, i)" using g by simp
    then show ?thesis by (simp add: slot_read_def)
  qed
  then have vec: "map (\<lambda>i. GetTableInt env (tables s1 p) (ix i)) [1..sint n] = xs" by (simp add: xs_def)
  show ?thesis
  proof (cases "sint n \<le> 1")
    case True
    then have "s' = s1" using r p c gl n by (auto simp: table_sort_def args Let_def nstep_simps split: if_splits)
    then have "ys = xs" by (simp add: xs_def ys_def rd1)
    moreover have "length xs \<le> 1" using True by (simp add: xs_def)
    then have "sorted (map num_scaled xs)" by (cases xs) (simp_all)
    ultimately show ?thesis by simp
  next
    case False
    from numbers.stable_sort_ok [of xs] num obtain zs where zs: "stable_sort default_comp xs = Inr zs" "mset zs = mset xs"
      "numbers.in_order zs" "\<forall>a. plain_number a \<longrightarrow> filter (numbers.equiv a) zs = filter (numbers.equiv a) xs" by auto
    have "nbind (set_each env ?tbl (zip (map ix [1..sint n]) zs)) (\<lambda>_. nret VNil) s1 = (Inr r, s')"
      using r p c gl n False zs(1) vec
      by (auto simp: table_sort_def args Let_def nstep_simps split: if_splits)
    then have w: "set_each env ?tbl (zip (map ix [1..sint n]) zs) s1 = (Inr (), s')" by (auto simp: nstep_simps)
    have st1: "store_ok s1" using g by blast
    have len: "length zs = length [1..sint n]" using zs(2) by (metis length_map mset_eq_length xs_def)
    have "distinct (map fst (zip (map ix [1..sint n]) zs))" using distinct_ix [OF n63] len by simp
    note each = set_each_ok [OF st1 w this]
    have ys: "ys = zs" unfolding ys_def
      by (rule read_back [OF len distinct_ix [OF n63], where h = "GetTableInt env (tables s1 p)"]) (use each in \<open>simp only: tbl_ptr.simps\<close>)
    have equiv: "numbers.equiv a = (\<lambda>v. num_scaled v = num_scaled a)" for a
      by (auto simp: numbers.equiv_def fun_eq_iff)
    have "filter (\<lambda>v. num_scaled v = k) zs = filter (\<lambda>v. num_scaled v = k) xs" for k
    proof (cases "\<exists>a \<in> set xs. num_scaled a = k")
      case True
      then show ?thesis using zs(4) num by (auto simp: equiv)
    next
      case F: False
      moreover have "set zs = set xs" using zs(2) by (metis mset_eq_setD)
      ultimately show ?thesis by (simp add: filter_False)
    qed
    moreover have "sorted (map num_scaled zs)"
      using zs(3) by (simp add: numbers.in_order_def sorted_wrt_map not_less)
    ultimately show ?thesis using zs(2) ys by simp
  qed
qed

text \<open>
  Across numbers and strings the default order of \<open>table.sort\<close> is not a strict weak
  order, which \<open>std::stable_sort\<close> requires: 9 is equivalent to the string 9, which 10 precedes, but 10 does not
  precede 9.
\<close>

theorem default_comp_not_weak_order:
  "default_comp (VInt 9) (VString ''9'') = Inr False \<and> default_comp (VString ''9'') (VInt 9) = Inr False \<and>
   default_comp (VInt 10) (VString ''9'') = Inr True \<and> default_comp (VInt 10) (VInt 9) = Inr False"
proof -
  have "dec_digits 9 = ''9''" "dec_digits 10 = ''10''" 
    by (simp_all add: dec_digits.simps char_of_def bit_Suc_0_iff)
  then show ?thesis
    by (simp add: default_comp_def is_nan_key_def to_string_int_def)
qed

section \<open>Concrete runs\<close>

text \<open>Writes to slots of the array part of a plain table with nothing in the hash part do not throw.\<close>

definition roomy :: "nat \<Rightarrow> VarTable \<Rightarrow> bool" where
  "roomy n t \<longleftrightarrow> plain t \<and> arr_size t = n"

lemma roomy_write:
  assumes "roomy n t" "unat (k - 1) < n"
  shows "\<exists>t'. SetTableInt env ca False t k v = (Inr (), t') \<and> roomy n t'"
proof -
  let ?t = "t\<lparr>arr := (arr t)[unat (k - 1) := v]\<rparr>"
  have sp: "spec_set_call env t (VInt k) v = None" "spec_index t P = None" for P
    using assms(1) by (auto simp: roomy_def plain_def spec_set_call_def spec_index_def split: option.splits)
  have "SetTableInt env ca False t k v = (Inr (), SeqNoteIntSet env ?t k (v = VNil))"
    using assms by (simp add: SetTableInt_def CheckConstTable_def sp TableArrSetInt_def roomy_def Let_def)
  moreover have "roomy n (SeqNoteIntSet env ?t k b)" for b
    using assms(1) by (simp add: SeqNoteIntSet_def roomy_def plain_def)
  ultimately show ?thesis by blast
qed

definition all_roomy :: "nat \<Rightarrow> nstate \<Rightarrow> bool" where
  "all_roomy n s \<longleftrightarrow> (\<forall>p. roomy n (tables s p))"

lemma slot_write_total:
  assumes "all_roomy n s" "unat (snd sl - 1) < n"
  shows "\<exists>s'. slot_write env False s sl v = (Inr (), s') \<and> all_roomy n s'"
proof -
  have "roomy n (tables s (fst sl))" using assms(1) by (simp add: all_roomy_def)
  from roomy_write [OF this assms(2), of env "interp_const_alloc s" v] obtain t' where
    "SetTableInt env (interp_const_alloc s) False (tables s (fst sl)) (snd sl) v = (Inr (), t')" "roomy n t'" by blast
  then show ?thesis using assms(1) by (simp add: slot_write_def on_table_def all_roomy_def)
qed

lemma copy_slots_total:
  assumes "all_roomy n s" "\<forall>x \<in> set ps. unat (snd (snd x) - 1) < n"
  shows "\<exists>s'. copy_slots env False ps s = (Inr (), s') \<and> all_roomy n s'"
  using assms
proof (induction ps arbitrary: s)
  case Nil
  then show ?case by (simp add: copy_slots_def)
next
  case (Cons x ps)
  obtain f d where x: "x = (f, d)" by (cases x)
  have d: "unat (snd d - 1) < n" using Cons.prems(2) by (simp add: x)
  obtain s1 where s1: "slot_write env False s d (slot_read env s f) = (Inr (), s1)" "all_roomy n s1"
    using slot_write_total [OF Cons.prems(1) d] by blast
  from Cons.IH [OF s1(2)] Cons.prems(2) obtain s' where "copy_slots env False ps s1 = (Inr (), s')" "all_roomy n s'" by auto
  then show ?case using s1(1) by (simp add: copy_slots_def x)
qed

lemma set_each_total:
  assumes "all_roomy n s" "\<forall>w \<in> set ws. unat (fst w - 1) < n"
  shows "\<exists>s'. set_each env (VTable False p) ws s = (Inr (), s') \<and> all_roomy n s'"
  using assms
proof (induction ws arbitrary: s)
  case Nil
  then show ?case by (simp add: nret_def)
next
  case (Cons w ws)
  obtain i v where w: "w = (i, v)" by (cases w)
  obtain s1 where s1: "slot_write env False s (p, i) v = (Inr (), s1)" "all_roomy n s1"
    using slot_write_total [OF Cons.prems(1), of "(p, i)" env v] Cons.prems(2) by (auto simp: w)
  from Cons.IH [OF s1(2)] Cons.prems(2) show ?case using s1(1) by (simp add: w nbind_def set_int_def)
qed

text \<open>Every address holds a table with two elements in three slots.\<close>

definition pair_table :: VarTable where
  "pair_table = CreateTable\<lparr>arr := [VInt 6, VInt 5, VNil, VNil], arr_size := 3, arr_cap := 4, seq_len := 2\<rparr>"

definition demo_env :: spec_env where
  "demo_env = \<lparr>call_get = \<lambda>_ _ _. None, call_set = \<lambda>_ _ _ _. None\<rparr>"

definition demo_state :: nstate where
  "demo_state = \<lparr>tables = \<lambda>_. pair_table, interp_const_alloc = False, next_table = 4096\<rparr>"

lemma pair_table_fields:
  "arr pair_table = [VInt 6, VInt 5, VNil, VNil]" "arr_size pair_table = 3" "arr_cap pair_table = 4" "seq_len pair_table = 2"
  "seq_len_valid pair_table" "plain pair_table"
  by (simp_all add: pair_table_def CreateTable_def plain_def)

lemma pair_table_slot: "GetTableInt env pair_table i = (if i = 1 then VInt 6 else if i = 2 then VInt 5 else VNil)"
  and pair_table_inv: "table_inv pair_table"
proof -
  have h: "hash_ok pair_table = hash_ok CreateTable" "hmap pair_table = hmap CreateTable" "live_entries pair_table = []"
    using hash_part_cong [of pair_table CreateTable] by (simp_all add: pair_table_def live_entries_def CreateTable_def)
  have hm: "hmap pair_table = Map.empty" by (simp add: hmap_def h(3) entries_map_def)
  have c: "core pair_table" using CreateTable_inv h(1) pair_table_fields
    by (simp add: core_def table_inv_def tinv_def arr_ok_def exI [of _ 2])
  then have ti: "tinv pair_table" by (simp add: tinv_def hash_above_def hm)
  have av: "arr_val pair_table i = (if i = 1 then VInt 6 else if i = 2 then VInt 5 else VNil)" for i
  proof -
    have nth: "[VInt 6, VInt 5, VNil, VNil] ! k = (if k = 0 then VInt 6 else if k = 1 then VInt 5 else VNil)" if "k < 3" for k
      using that by (auto simp: numeral_3_eq_3 less_Suc_eq)
    have "unat (i - 1) = 0 \<longleftrightarrow> i = 1" by (metis right_minus_eq unat_eq_0)
    moreover have "unat (i - 1) = 1 \<longleftrightarrow> i = 2" using index_inj [of i 2] by auto
    ultimately show ?thesis unfolding arr_val_def pair_table_fields using nth [of "unat (i - 1)"] by auto
  qed
  have tm: "tmap pair_table (VInt i) = (if i = 1 then Some (VInt 6) else if i = 2 then Some (VInt 5) else None)" for i
    by (simp add: tmap_def av hm)
  then show "GetTableInt env pair_table i = (if i = 1 then VInt 6 else if i = 2 then VInt 5 else VNil)"
    using GetTableInt_ok [OF ti] by (simp add: map_val_def)
  have "1 \<le> sint i \<Longrightarrow> sint i \<le> 2 \<Longrightarrow> i = 1 \<or> i = (2 :: int64)" for i
    using signed_word_eqI [of i 1] signed_word_eqI [of i 2] by (auto simp: order_le_less)
  then have "first_border (tmap pair_table) 2" by (auto simp: first_border_def tm)
  then show "table_inv pair_table" using ti by (simp add: table_inv_def seq_ok_def pair_table_fields)
qed

lemma demo_ok: "store_ok demo_state" "all_roomy 3 demo_state" "get_len demo_env (VTable fl p) demo_state = (Inr 2, demo_state)"
  "tables demo_state p = pair_table" "GetTableLen demo_env pair_table = (2, pair_table)"
proof -
  show len: "GetTableLen demo_env pair_table = (2, pair_table)"
    using pair_table_fields by (simp add: GetTableLen_def SeqCacheable_def plain_def)
  show "store_ok demo_state" "all_roomy 3 demo_state" "tables demo_state p = pair_table"
    by (simp_all add: store_ok_def demo_state_def pair_table_inv all_roomy_def roomy_def pair_table_fields)
  show "get_len demo_env (VTable fl p) demo_state = (Inr 2, demo_state)"
    by (simp add: get_len_def on_table_def demo_state_def len fun_upd_idem)
qed

lemma args_simps: "GetNativeArg [VTable a p, x] 0 = VTable a p" "GetNativeArg [VTable a p, VInt i] (Suc 0) = VInt i"
  "GetNativeArg [VTable a p, VInt i, x] 0 = VTable a p" "GetNativeArg [VTable a p, VInt i, x] (Suc 0) = VInt i"
  "GetNativeArg [VTable a p] 0 = VTable a p"
  by (simp_all add: GetNativeArg_def)

lemma upto_1_2: "[1..2] = [1, 2 :: int]"
  by (simp add: upto_rec1)

lemma demo_insert: "\<exists>s'. table_insert demo_env [VTable False 8, VInt 1, VInt 7] demo_state = (Inr VNil, s')"
proof -
  have "\<forall>x \<in> set (shift_up_slots 8 1 2). unat (snd (snd x) - 1) < 3"
    by (simp add: shift_up_slots_def upto_1_2 ix_def)
  from copy_slots_total [OF demo_ok(2) this, of demo_env]
  obtain s1 where s1: "copy_slots demo_env False (shift_up_slots 8 1 2) demo_state = (Inr (), s1)" "all_roomy 3 s1"
    by blast
  obtain s2 where s2: "slot_write demo_env False s1 (8, 1) (GetNativeArg [VTable False 8, VInt 1, VInt 7] 2) = (Inr (), s2)"
    using slot_write_total [OF s1(2), of "(8, 1)"] by auto
  then show ?thesis
    using s1 by (simp add: table_insert_def args_simps nbind_def demo_ok(3) nlift_def set_int_def nret_def Let_def)
qed

lemma demo_remove: "\<exists>s'. table_remove demo_env [VTable False 8, VInt 1] demo_state = (Inr (VInt 6), s')"
proof -
  have "\<forall>x \<in> set (shift_down_slots 8 1 2). unat (snd (snd x) - 1) < 3"
    by (simp add: shift_down_slots_def ix_def)
  from copy_slots_total [OF demo_ok(2) this, of demo_env]
  obtain s1 where s1: "copy_slots demo_env False (shift_down_slots 8 1 2) demo_state = (Inr (), s1)" "all_roomy 3 s1"
    by blast
  obtain s2 where s2: "slot_write demo_env False s1 (8, 2) VNil = (Inr (), s2)"
    using slot_write_total [OF s1(2), of "(8, 2)"] by auto
  have "check_const (VTable False 8) demo_state = (Inr (), demo_state)"
    by (simp add: check_const_def on_table_def CheckConstTable_def demo_state_def fun_upd_idem)
  then show ?thesis
    using s1 s2
    by (simp add: table_remove_def args_simps nbind_def demo_ok nlift_def set_int_def nret_def get_int_def
        pair_table_slot Let_def)
qed

lemma demo_move: "\<exists>s'. move_range demo_env (VTable False 8) (VTable False 8) 1 2 2 demo_state = (Inr (), s')"
proof -
  have up: "rev [0..1] = [1, 0 :: int]" by (simp add: upto_rec1)
  have "\<forall>x \<in> set (move_slots 8 8 1 2 (rev [0..1])). unat (snd (snd x) - 1) < 3"
    unfolding up by (simp add: move_slots_def OffsetIndex_def ix_def)
  from copy_slots_total [OF demo_ok(2) this, of demo_env]
  obtain s1 where s1: "copy_slots demo_env False (move_slots 8 8 1 2 (rev [0..1])) demo_state = (Inr (), s1)" by blast
  then show ?thesis by (simp add: move_range_def move_presize_def nbind_def)
qed

lemma demo_sort: "\<exists>s'. table_sort demo_env (\<lambda>_ _. Inl []) [VTable False 8] demo_state = (Inr VNil, s')"
proof -
  have "check_const (VTable False 8) demo_state = (Inr (), demo_state)"
    by (simp add: check_const_def on_table_def CheckConstTable_def demo_state_def fun_upd_idem)
  moreover have "stable_sort default_comp [VInt 6, VInt 5] = Inr [VInt 5, VInt 6]"
    by (simp add: default_comp_def is_nan_key_def)
  moreover have "\<forall>w \<in> set (zip (map ix [1..2]) [VInt 5, VInt 6]). unat (fst w - 1) < 3"
    by (simp add: upto_1_2 ix_def)
  from set_each_total [OF demo_ok(2) this, of demo_env 8]
  obtain s1 where "set_each demo_env (VTable False 8) (zip (map ix [1..2]) [VInt 5, VInt 6]) demo_state = (Inr (), s1)" by blast
  moreover have "map (\<lambda>i. GetTableInt demo_env (tables demo_state 8) (ix i)) [1..2] = [VInt 6, VInt 5]"
    by (simp add: upto_1_2 ix_def demo_ok(4) pair_table_slot)
  ultimately show ?thesis
    by (simp add: table_sort_def args_simps nbind_def demo_ok(3) nlift_def nret_def Let_def)
qed

text \<open>The properties on these runs.\<close>

theorem table_insert_shifts_witness:
  "\<exists>s'. table_insert demo_env [VTable False 8, VInt 1, VInt 7] demo_state = (Inr VNil, s') \<and>
    map (GetTableInt demo_env (tables s' 8)) [1, 2, 3] = [VInt 7, VInt 6, VInt 5]"
proof -
  obtain s' where r: "table_insert demo_env [VTable False 8, VInt 1, VInt 7] demo_state = (Inr VNil, s')"
    using demo_insert by blast
  from table_insert_shifts [OF demo_ok(1) r] r show ?thesis
    by (intro exI [of _ s']) (simp add: demo_ok pair_table_slot)
qed

theorem table_remove_shifts_witness:
  "\<exists>s'. table_remove demo_env [VTable False 8, VInt 1] demo_state = (Inr (VInt 6), s') \<and>
    map (GetTableInt demo_env (tables s' 8)) [1, 2] = [VInt 5, VNil]"
proof -
  obtain s' where r: "table_remove demo_env [VTable False 8, VInt 1] demo_state = (Inr (VInt 6), s')"
    using demo_remove by blast
  from table_remove_shifts [OF demo_ok(1) r] r show ?thesis
    by (intro exI [of _ s']) (simp add: demo_ok pair_table_slot)
qed

theorem move_range_is_memmove_witness:
  "\<exists>s'. move_range demo_env (VTable False 8) (VTable False 8) 1 2 2 demo_state = (Inr (), s') \<and>
    map (GetTableInt demo_env (tables s' 8)) [1, 2, 3] = [VInt 6, VInt 6, VInt 5]"
proof -
  obtain s' where r: "move_range demo_env (VTable False 8) (VTable False 8) 1 2 2 demo_state = (Inr (), s')"
    using demo_move by blast
  from move_range_is_memmove [OF demo_ok(1) _ r] r show ?thesis
    by (intro exI [of _ s']) (simp add: demo_ok pair_table_slot)
qed

theorem table_sort_numbers_witness:
  "\<exists>s'. table_sort demo_env (\<lambda>_ _. Inl []) [VTable False 8] demo_state = (Inr VNil, s') \<and>
    mset (map (GetTableInt demo_env (tables s' 8)) [1, 2]) = {#VInt 5, VInt 6#} \<and>
    sorted (map (num_scaled \<circ> GetTableInt demo_env (tables s' 8)) [1, 2])"
proof -
  obtain s' where r: "table_sort demo_env (\<lambda>_ _. Inl []) [VTable False 8] demo_state = (Inr VNil, s')"
    using demo_sort by blast
  from table_sort_numbers [OF demo_ok(1) r] r show ?thesis
    by (intro exI [of _ s']) (simp add: demo_ok pair_table_slot upto_1_2 ix_def plain_number_def)
qed

end
