(* ===== verification/HeapTimer.thy ===== *)
theory HeapTimer
imports Prelude
begin

text \<open>
  The 4-ary min-heap of \<open>native/timer/heap_timer.h\<close>. A \<open>TimerNode\<close> is an object shared by
  the heap and the id map, so nodes live in a store and the two hold addresses; \<open>nullptr\<close> in the
  vector is \<open>None\<close>. A time point is an integer. The clock is a parameter (\<open>now\<close>). The
  arithmetic on positions is in natural numbers: \<open>4 * i + 1\<close> fits \<open>int32_t\<close> while the heap holds fewer
  than \<open>2 ^ 29\<close> timers.
\<close>

section \<open>State\<close>

record TimerNode =
  tm_when :: int
  tm_id :: uint64
  tm_i :: int

record HeapTimer =
  timer_id :: uint64
  hvec :: "nat option list"
  heap_size :: nat
  timer_map :: "uint64 \<rightharpoonup> nat"
  tnodes :: "nat \<Rightarrow> TimerNode"
  next_node :: nat

definition HeapTimer_new :: HeapTimer where
  "HeapTimer_new = \<lparr>timer_id = 0, hvec = [], heap_size = 0, timer_map = Map.empty,
     tnodes = (\<lambda>_. \<lparr>tm_when = 0, tm_id = 0, tm_i = 0\<rparr>), next_node = 0\<rparr>"

definition at_pos :: "HeapTimer \<Rightarrow> nat \<Rightarrow> nat" where
  "at_pos h k = the (hvec h ! k)"

definition when_at :: "HeapTimer \<Rightarrow> nat \<Rightarrow> int" where
  "when_at h k = tm_when (tnodes h (at_pos h k))"

definition set_i :: "HeapTimer \<Rightarrow> nat \<Rightarrow> int \<Rightarrow> HeapTimer" where
  "set_i h p i = h\<lparr>tnodes := (tnodes h)(p := (tnodes h p)\<lparr>tm_i := i\<rparr>)\<rparr>"

section \<open>Sifting\<close>

text \<open>
  The body of both loops, with the moving node (\<open>tmp\<close>) at position \<open>i\<close>:
  \<open>heap_[i] = heap_[j]; heap_[i]->i = i; heap_[j] = tmp; tmp->i = j\<close>.
\<close>

definition swap_slots :: "HeapTimer \<Rightarrow> nat \<Rightarrow> nat \<Rightarrow> HeapTimer" where
  "swap_slots h i j =
     (let tmp = hvec h ! i;
          h1 = h\<lparr>hvec := (hvec h)[i := hvec h ! j]\<rparr>;
          h2 = set_i h1 (the (hvec h1 ! i)) (int i);
          h3 = h2\<lparr>hvec := (hvec h2)[j := tmp]\<rparr>
      in set_i h3 (the tmp) (int j))"

lemma swap_slots_size [simp]: "heap_size (swap_slots h i j) = heap_size h"
  by (simp add: swap_slots_def set_i_def Let_def)

function SiftUp :: "HeapTimer \<Rightarrow> nat \<Rightarrow> HeapTimer" where
  "SiftUp h i =
     (if i = 0 then h
      else let p = (i - 1) div 4 in
        if when_at h p \<le> when_at h i then h else SiftUp (swap_slots h i p) p)"
  by auto
termination by (relation "measure snd") auto

declare SiftUp.simps [simp del]

text \<open>The smallest of up to four children, in the order of the code's comparisons.\<close>

definition min_child :: "HeapTimer \<Rightarrow> nat \<Rightarrow> nat option" where
  "min_child h i =
     (let c = i * 4 + 1; c3 = c + 2 in
      if heap_size h \<le> c then None
      else
        let c = (if c + 1 < heap_size h \<and> when_at h (c + 1) < when_at h c then c + 1 else c) in
        if c3 < heap_size h then
          let c3 = (if c3 + 1 < heap_size h \<and> when_at h (c3 + 1) < when_at h c3 then c3 + 1 else c3) in
          Some (if when_at h c3 < when_at h c then c3 else c)
        else Some c)"

lemma min_child_range: "min_child h i = Some c \<Longrightarrow> i < c \<and> c < heap_size h"
  by (auto simp: min_child_def Let_def split: if_splits)

function SiftDown :: "HeapTimer \<Rightarrow> nat \<Rightarrow> HeapTimer" where
  "SiftDown h i =
     (case min_child h i of
        None \<Rightarrow> h
      | Some c \<Rightarrow> if when_at h i \<le> when_at h c then h else SiftDown (swap_slots h i c) c)"
  by auto
termination
  by (relation "measure (\<lambda>(h, i). heap_size h - i)") (auto dest: min_child_range)

declare SiftDown.simps [simp del]

section \<open>Operations\<close>

definition resize_vec :: "nat option list \<Rightarrow> nat \<Rightarrow> nat option list" where
  "resize_vec v n = take n v @ replicate (n - length v) None"

definition AddAt :: "HeapTimer \<Rightarrow> int \<Rightarrow> uint64 \<times> HeapTimer" where
  "AddAt h when =
     (if 2 ^ 31 - 1 \<le> heap_size h then (0, h)
      else
        let v = (if length (hvec h) \<le> heap_size h
                 then let n = (if 16 \<le> length (hvec h) then length (hvec h) * 3 div 2 else 16) in resize_vec (hvec h) n
                 else hvec h);
            t = next_node h; i = heap_size h; id' = timer_id h + 1;
            h1 = h\<lparr>hvec := v[i := Some t], heap_size := i + 1, timer_id := id',
                   tnodes := (tnodes h)(t := \<lparr>tm_when = when, tm_id = id', tm_i = int i\<rparr>), next_node := t + 1\<rparr>;
            h2 = SiftUp h1 i
        in (id', h2\<lparr>timer_map := (timer_map h2)(id' \<mapsto> t)\<rparr>))"

definition Add :: "HeapTimer \<Rightarrow> int \<Rightarrow> uint32 \<Rightarrow> uint64 \<times> HeapTimer" where
  "Add h now delay_ms = AddAt h (now + int (unat delay_ms) * 1000000)"

text \<open>
  Taking the last element into position \<open>i\<close> (or just dropping it). With \<open>heap_size\<close> already
  decremented.
\<close>

definition fill_hole :: "HeapTimer \<Rightarrow> nat \<Rightarrow> HeapTimer" where
  "fill_hole h i =
     (let n = heap_size h in
      if i = n then h\<lparr>hvec := (hvec h)[i := None]\<rparr>
      else
        let h1 = h\<lparr>hvec := (hvec h)[i := hvec h ! n]\<rparr>;
            h2 = h1\<lparr>hvec := (hvec h1)[n := None]\<rparr>
        in set_i h2 (at_pos h2 i) (int i))"

definition Del :: "HeapTimer \<Rightarrow> uint64 \<Rightarrow> bool \<times> HeapTimer" where
  "Del h id' =
     (case timer_map h id' of
        None \<Rightarrow> (False, h)
      | Some t \<Rightarrow>
          let i = tm_i (tnodes h t) in
          if i < 0 \<or> int (heap_size h) \<le> i \<or> hvec h ! nat i \<noteq> Some t then (False, h)
          else
            let k = nat i;
                h1 = set_i (h\<lparr>timer_map := (timer_map h)(id' := None)\<rparr>) t (-1);
                h2 = h1\<lparr>heap_size := heap_size h1 - 1\<rparr>;
                h3 = fill_hole h2 k
            in (True, if k = heap_size h2 then h3 else SiftDown (SiftUp h3 k) k))"

text \<open>One round of the loop of \<open>Update\<close>: the removal of the root.\<close>

definition pop_root :: "HeapTimer \<Rightarrow> uint64 \<times> HeapTimer" where
  "pop_root h =
     (let t = at_pos h 0;
          h1 = h\<lparr>heap_size := heap_size h - 1\<rparr>;
          h2 = (if heap_size h1 = 0 then h1\<lparr>hvec := (hvec h1)[0 := None]\<rparr> else SiftDown (fill_hole h1 0) 0);
          h3 = set_i h2 t (-1);
          tid = tm_id (tnodes h3 t)
      in (tid, h3\<lparr>timer_map := (timer_map h3)(tid := None)\<rparr>))"

lemma SiftDown_size [simp]: "heap_size (SiftDown h i) = heap_size h"
proof (induction h i rule: SiftDown.induct)
  case (1 h i)
  then show ?case by (subst SiftDown.simps) (simp split: option.split)
qed

lemma SiftUp_size [simp]: "heap_size (SiftUp h i) = heap_size h"
proof (induction h i rule: SiftUp.induct)
  case (1 h i)
  then show ?case by (subst SiftUp.simps) (simp add: Let_def)
qed

lemma pop_root_size [simp]: "heap_size (snd (pop_root h)) = heap_size h - 1"
  by (simp add: pop_root_def set_i_def fill_hole_def Let_def)

function Update :: "HeapTimer \<Rightarrow> int \<Rightarrow> uint64 list \<times> HeapTimer" where
  "Update h now =
     (if heap_size h = 0 then ([], h)
      else if now < when_at h 0 then ([], h)
      else let (tid, h1) = pop_root h; (ids, h2) = Update h1 now in (tid # ids, h2))"
  by auto
termination
  by (relation "measure (\<lambda>(h, now). heap_size h)") (auto dest: arg_cong [where f = "\<lambda>r. heap_size (snd r)"])

declare Update.simps [simp del]

definition TimerCount :: "HeapTimer \<Rightarrow> nat" where
  "TimerCount h = heap_size h"

end
