(* ===== verification/HeapTimerProps.thy ===== *)
theory HeapTimerProps
imports HeapTimer
begin

text \<open>
  The timer heap keeps its invariant (positions, id map and 4-ary heap order agree) and implements
  a finite map from timer ids to deadlines: \<open>AddAt\<close> inserts at a fresh id, \<open>Del\<close> removes and
  reports presence, \<open>Update\<close> takes out exactly the ids that are due, earliest deadline first.
  The client laws of such a queue are proved once in the locale \<open>timer_queue\<close>.
\<close>

section \<open>Invariant and abstraction\<close>

definition placed :: "HeapTimer \<Rightarrow> bool" where
  "placed h \<longleftrightarrow> heap_size h \<le> length (hvec h) \<and>
     (\<forall>k < heap_size h. hvec h ! k = Some (at_pos h k) \<and> tm_i (tnodes h (at_pos h k)) = int k)"

definition mapped :: "HeapTimer \<Rightarrow> bool" where
  "mapped h \<longleftrightarrow>
     (\<forall>x p. timer_map h x = Some p \<longleftrightarrow> (\<exists>k < heap_size h. at_pos h k = p \<and> tm_id (tnodes h p) = x)) \<and>
     (\<forall>k < heap_size h. at_pos h k < next_node h) \<and>
     (\<forall>k < heap_size h. unat (tm_id (tnodes h (at_pos h k))) \<le> unat (timer_id h))"

definition ordered_at :: "HeapTimer \<Rightarrow> nat \<Rightarrow> bool" where
  "ordered_at h k \<longleftrightarrow> when_at h ((k - 1) div 4) \<le> when_at h k"

definition heap_ordered :: "HeapTimer \<Rightarrow> bool" where
  "heap_ordered h \<longleftrightarrow> (\<forall>k < heap_size h. 0 < k \<longrightarrow> ordered_at h k)"

definition timer_inv :: "HeapTimer \<Rightarrow> bool" where
  "timer_inv h \<longleftrightarrow> placed h \<and> mapped h \<and> heap_ordered h"

definition deadline :: "HeapTimer \<Rightarrow> uint64 \<rightharpoonup> int" where
  "deadline h x = map_option (\<lambda>p. tm_when (tnodes h p)) (timer_map h x)"

lemma placedD:
  "placed h \<Longrightarrow> k < heap_size h \<Longrightarrow> hvec h ! k = Some (at_pos h k)"
  "placed h \<Longrightarrow> k < heap_size h \<Longrightarrow> tm_i (tnodes h (at_pos h k)) = int k"
  "placed h \<Longrightarrow> heap_size h \<le> length (hvec h)"
  by (auto simp: placed_def)

lemma at_pos_inj:
  "placed h \<Longrightarrow> j < heap_size h \<Longrightarrow> k < heap_size h \<Longrightarrow> at_pos h j = at_pos h k \<Longrightarrow> j = k"
  by (metis of_nat_eq_iff placedD(2))

section \<open>Exchanging two slots\<close>

text \<open>What sifting never changes: the nodes in the heap, their ids and deadlines, and the id map.\<close>

definition rearranged :: "HeapTimer \<Rightarrow> HeapTimer \<Rightarrow> bool" where
  "rearranged h h' \<longleftrightarrow> placed h' \<and> heap_size h' = heap_size h \<and> timer_map h' = timer_map h \<and>
     timer_id h' = timer_id h \<and> next_node h' = next_node h \<and>
     (\<forall>p. tm_when (tnodes h' p) = tm_when (tnodes h p) \<and> tm_id (tnodes h' p) = tm_id (tnodes h p)) \<and>
     at_pos h' ` {..<heap_size h} = at_pos h ` {..<heap_size h}"

lemma rearranged_refl: "placed h \<Longrightarrow> rearranged h h"
  by (simp add: rearranged_def)

lemma rearranged_trans: "rearranged h1 h2 \<Longrightarrow> rearranged h2 h3 \<Longrightarrow> rearranged h1 h3"
  by (simp add: rearranged_def)

lemma rearranged_deadline: "rearranged h h' \<Longrightarrow> deadline h' = deadline h"
  by (auto simp: rearranged_def deadline_def fun_eq_iff)

lemma rearranged_mapped:
  assumes "rearranged h h'" "mapped h"
  shows "mapped h'"
proof -
  have img: "(\<exists>k < heap_size h. at_pos h' k = p) \<longleftrightarrow> (\<exists>k < heap_size h. at_pos h k = p)" for p
  proof -
    have "p \<in> at_pos h' ` {..<heap_size h} \<longleftrightarrow> p \<in> at_pos h ` {..<heap_size h}"
      using assms(1) by (simp add: rearranged_def)
    then show ?thesis by (auto simp: image_iff)
  qed
  have mem: "\<exists>j < heap_size h. at_pos h j = at_pos h' k" if "k < heap_size h" for k
    using img that by blast
  have eqs: "heap_size h' = heap_size h" "timer_map h' = timer_map h" "timer_id h' = timer_id h"
    "next_node h' = next_node h" "\<And>p. tm_id (tnodes h' p) = tm_id (tnodes h p)"
    using assms(1) by (simp_all add: rearranged_def)
  show ?thesis
    unfolding mapped_def eqs
  proof (intro conjI allI impI)
    fix x p
    show "timer_map h x = Some p \<longleftrightarrow> (\<exists>k < heap_size h. at_pos h' k = p \<and> tm_id (tnodes h p) = x)"
      using assms(2) img [of p] unfolding mapped_def by metis
  next
    fix k assume "k < heap_size h"
    then obtain j where "j < heap_size h" "at_pos h j = at_pos h' k" using mem by blast
    then show "at_pos h' k < next_node h" "unat (tm_id (tnodes h (at_pos h' k))) \<le> unat (timer_id h)"
      using assms(2) unfolding mapped_def by metis+
  qed
qed

lemma swap_slots_at:
  assumes "placed h" "i < heap_size h" "j < heap_size h" "i \<noteq> j"
  shows "at_pos (swap_slots h i j) k =
           (if k = i then at_pos h j else if k = j then at_pos h i else at_pos h k)"
  using assms placedD(3) [OF assms(1)]
  by (simp add: swap_slots_def set_i_def Let_def at_pos_def nth_list_update)

lemma swap_slots_rearranged:
  assumes "placed h" "i < heap_size h" "j < heap_size h" "i \<noteq> j"
  shows "rearranged h (swap_slots h i j)"
proof -
  note at = swap_slots_at [OF assms]
  have pl: "hvec h ! i = Some (at_pos h i)" "hvec h ! j = Some (at_pos h j)"
    using assms placedD(1) by auto
  have ne: "at_pos h i \<noteq> at_pos h j" using at_pos_inj assms by blast
  have len: "i < length (hvec h)" "j < length (hvec h)"
    using assms placedD(3) [OF assms(1)] by auto
  have vec: "hvec (swap_slots h i j) = (hvec h)[i := Some (at_pos h j), j := Some (at_pos h i)]"
    by (simp add: swap_slots_def set_i_def Let_def pl)
  have nd: "tnodes (swap_slots h i j) =
      (tnodes h)(at_pos h j := (tnodes h (at_pos h j))\<lparr>tm_i := int i\<rparr>,
                 at_pos h i := (tnodes h (at_pos h i))\<lparr>tm_i := int j\<rparr>)"
    using ne len by (simp add: swap_slots_def set_i_def Let_def pl)
  have "placed (swap_slots h i j)"
    unfolding placed_def swap_slots_size
  proof (intro conjI allI impI)
    show "heap_size h \<le> length (hvec (swap_slots h i j))" using placedD(3) [OF assms(1)] by (simp add: vec)
    fix k assume k: "k < heap_size h"
    show "hvec (swap_slots h i j) ! k = Some (at_pos (swap_slots h i j) k)"
      using len placedD(1) [OF assms(1) k] assms(4) by (simp add: vec at nth_list_update)
    have "at_pos h k = at_pos h i \<longleftrightarrow> k = i" "at_pos h k = at_pos h j \<longleftrightarrow> k = j"
      using at_pos_inj assms k by blast+
    then show "tm_i (tnodes (swap_slots h i j) (at_pos (swap_slots h i j) k)) = int k"
      using ne placedD(2) [OF assms(1) k] assms(4) by (auto simp: nd at)
  qed
  moreover have "at_pos (swap_slots h i j) ` {..<heap_size h} = at_pos h ` {..<heap_size h}"
    using assms by (auto simp: at image_iff split: if_splits)
  ultimately show ?thesis
    unfolding rearranged_def nd by (simp add: swap_slots_def set_i_def Let_def)
qed

lemma swap_slots_when:
  assumes "placed h" "i < heap_size h" "j < heap_size h" "i \<noteq> j"
  shows "when_at (swap_slots h i j) k =
           (if k = i then when_at h j else if k = j then when_at h i else when_at h k)"
  using swap_slots_rearranged [OF assms]
  by (auto simp: when_at_def rearranged_def swap_slots_at [OF assms])

lemma rearranged_inv:
  assumes "rearranged h h'" "mapped h" "heap_ordered h'"
  shows "timer_inv h'" "deadline h' = deadline h" "timer_id h' = timer_id h" "heap_size h' = heap_size h"
  using assms rearranged_mapped [OF assms(1,2)] rearranged_deadline [OF assms(1)]
  by (auto simp: timer_inv_def rearranged_def)

section \<open>Sifting restores the order\<close>

text \<open>
  The order may fail only at one position: towards its parent (\<open>up_defect\<close>) or towards its
  children (\<open>down_defect\<close>); its parent and its children are in order with each other.
\<close>

definition skip_ok :: "HeapTimer \<Rightarrow> nat \<Rightarrow> bool" where
  "skip_ok h i \<longleftrightarrow>
     (\<forall>c < heap_size h. 0 < i \<and> 0 < c \<and> (c - 1) div 4 = i \<longrightarrow> when_at h ((i - 1) div 4) \<le> when_at h c)"

definition up_defect :: "HeapTimer \<Rightarrow> nat \<Rightarrow> bool" where
  "up_defect h i \<longleftrightarrow> (\<forall>k < heap_size h. 0 < k \<and> k \<noteq> i \<longrightarrow> ordered_at h k) \<and> skip_ok h i"

definition down_defect :: "HeapTimer \<Rightarrow> nat \<Rightarrow> bool" where
  "down_defect h i \<longleftrightarrow> (\<forall>k < heap_size h. 0 < k \<and> (k - 1) div 4 \<noteq> i \<longrightarrow> ordered_at h k) \<and> skip_ok h i"

lemma up_step:
  assumes pl: "placed h" and i: "i < heap_size h" "0 < i" and d: "up_defect h i"
    and lt: "when_at h i < when_at h ((i - 1) div 4)"
  shows "up_defect (swap_slots h i ((i - 1) div 4)) ((i - 1) div 4)"
proof -
  define p where "p = (i - 1) div 4"
  have p: "p < heap_size h" "i \<noteq> p" "p < i" using i by (auto simp: p_def)
  have pd: "(i - Suc 0) div 4 = p" by (simp add: p_def)
  note w = swap_slots_when [OF pl i(1) p(1,2)]
  have ok: "ordered_at h k" if "k < heap_size h" "0 < k" "k \<noteq> i" for k
    using d that by (auto simp: up_defect_def)
  have "ordered_at (swap_slots h i p) k" if k: "k < heap_size h" "0 < k" "k \<noteq> p" for k
  proof -
    consider "k = i" | "k \<noteq> i" "(k - 1) div 4 = i" | "k \<noteq> i" "(k - 1) div 4 = p"
      | "k \<noteq> i" "(k - 1) div 4 \<noteq> i" "(k - 1) div 4 \<noteq> p" by blast
    then show ?thesis
    proof cases
      case 1 then show ?thesis using lt p by (simp add: ordered_at_def w pd)
    next
      case 2
      then have "when_at h p \<le> when_at h k" using d k i by (auto simp: up_defect_def skip_ok_def p_def)
      then show ?thesis using 2 k by (simp add: ordered_at_def w)
    next
      case 3
      then have "when_at h p \<le> when_at h k" using ok [OF k(1,2)] by (simp add: ordered_at_def)
      then show ?thesis using 3 k p lt by (simp add: ordered_at_def w pd)
    next
      case 4 then show ?thesis using ok [OF k(1,2)] k by (simp add: ordered_at_def w)
    qed
  qed
  moreover have "skip_ok (swap_slots h i p) p"
    unfolding skip_ok_def swap_slots_size
  proof (intro allI impI, elim conjE)
    fix c assume c: "c < heap_size h" "0 < p" "0 < c" "(c - 1) div 4 = p"
    have pp: "(p - 1) div 4 \<noteq> p" "(p - 1) div 4 \<noteq> i" "c \<noteq> p" using c p by auto
    have "when_at h ((p - 1) div 4) \<le> when_at h p"
      using ok [OF p(1) c(2)] p by (simp add: ordered_at_def)
    moreover have "c \<noteq> i \<Longrightarrow> when_at h p \<le> when_at h c"
      using ok [OF c(1,3)] c(4) by (simp add: ordered_at_def)
    ultimately show "when_at (swap_slots h i p) ((p - 1) div 4) \<le> when_at (swap_slots h i p) c"
      using pp by (auto simp: w)
  qed
  ultimately show ?thesis by (simp add: up_defect_def p_def)
qed

lemma SiftUp_ok:
  "placed h \<Longrightarrow> i < heap_size h \<Longrightarrow> up_defect h i \<Longrightarrow>
   rearranged h (SiftUp h i) \<and> heap_ordered (SiftUp h i)"
proof (induction h i rule: SiftUp.induct)
  case (1 h i)
  show ?case
  proof (cases "i = 0 \<or> when_at h ((i - 1) div 4) \<le> when_at h i")
    case True
    then have "SiftUp h i = h" by (subst SiftUp.simps) auto
    moreover have "heap_ordered h"
      using True 1(4) by (auto simp: heap_ordered_def up_defect_def ordered_at_def)
    ultimately show ?thesis using rearranged_refl [OF 1(2)] by simp
  next
    case False
    define p where "p = (i - 1) div 4"
    have p: "p < heap_size h" "i \<noteq> p" using False 1(3) by (auto simp: p_def)
    have eq: "SiftUp h i = SiftUp (swap_slots h i p) p"
      using False by (subst SiftUp.simps) (simp add: p_def Let_def)
    have r: "rearranged h (swap_slots h i p)" by (rule swap_slots_rearranged [OF 1(2,3) p])
    have "up_defect (swap_slots h i p) p"
      unfolding p_def using up_step [OF 1(2,3) _ 1(4)] False by simp
    then have "rearranged (swap_slots h i p) (SiftUp (swap_slots h i p) p) \<and> heap_ordered (SiftUp (swap_slots h i p) p)"
      using "1.IH" [of p] False r p by (simp add: p_def rearranged_def)
    then show ?thesis unfolding eq using r rearranged_trans by blast
  qed
qed

lemma child_range: "0 < c \<and> (c - 1) div 4 = i \<longleftrightarrow> i * 4 + 1 \<le> c \<and> c \<le> i * 4 + (4::nat)"
  by auto

lemma min_child_None: "min_child h i = None \<longleftrightarrow> heap_size h \<le> i * 4 + 1"
  by (simp add: min_child_def Let_def)

lemma min_child_Some:
  assumes "min_child h i = Some c"
  shows "0 < c" "(c - 1) div 4 = i" "c < heap_size h"
    "\<And>k. k < heap_size h \<Longrightarrow> 0 < k \<Longrightarrow> (k - 1) div 4 = i \<Longrightarrow> when_at h c \<le> when_at h k"
proof -
  have "0 < c \<and> (c - 1) div 4 = i"
    unfolding child_range using assms by (auto simp: min_child_def Let_def split: if_splits)
  then show "0 < c" "(c - 1) div 4 = i" by auto
  show "c < heap_size h" using min_child_range [OF assms] by simp
  fix k assume k: "k < heap_size h" "0 < k" "(k - 1) div 4 = i"
  then have "i * 4 + 1 \<le> k \<and> k \<le> i * 4 + 4" using child_range by blast
  then have "k = i * 4 + 1 \<or> k = i * 4 + 2 \<or> k = i * 4 + 3 \<or> k = i * 4 + 4" by linarith
  then show "when_at h c \<le> when_at h k"
    using assms k(1) unfolding min_child_def Let_def
    by (elim disjE) (auto simp: numeral_eq_Suc split: if_splits)
qed

lemma down_step:
  assumes pl: "placed h" and i: "i < heap_size h" and d: "down_defect h i"
    and c: "min_child h i = Some c" and lt: "when_at h c < when_at h i"
  shows "down_defect (swap_slots h i c) c"
proof -
  note mc = min_child_Some [OF c]
  have ic: "i < c" using min_child_range [OF c] by simp
  note w = swap_slots_when [OF pl i mc(3) less_imp_neq [OF ic]]
  have ok: "ordered_at h k" if "k < heap_size h" "0 < k" "(k - 1) div 4 \<noteq> i" for k
    using d that by (auto simp: down_defect_def)
  have "ordered_at (swap_slots h i c) k" if k: "k < heap_size h" "0 < k" "(k - 1) div 4 \<noteq> c" for k
  proof -
    consider "k = c" | "k \<noteq> c" "(k - 1) div 4 = i" | "k = i" "k \<noteq> c"
      | "k \<noteq> c" "(k - 1) div 4 \<noteq> i" "k \<noteq> i" by blast
    then show ?thesis
    proof cases
      case 1 then show ?thesis using lt mc ic by (simp add: ordered_at_def w)
    next
      case 2
      then have "k \<noteq> i" using k by auto
      then show ?thesis using mc(4) [OF k(1,2)] 2 by (simp add: ordered_at_def w)
    next
      case 3
      have "(i - 1) div 4 \<noteq> i" "(i - 1) div 4 \<noteq> c" using 3 k by auto
      moreover have "when_at h ((i - 1) div 4) \<le> when_at h c"
        using d mc k 3 by (auto simp: down_defect_def skip_ok_def)
      ultimately show ?thesis using 3 by (simp add: ordered_at_def w)
    next
      case 4 then show ?thesis using ok [OF k(1,2)] k by (simp add: ordered_at_def w)
    qed
  qed
  moreover have "skip_ok (swap_slots h i c) c"
    unfolding skip_ok_def swap_slots_size
  proof (intro allI impI, elim conjE)
    fix k assume k: "k < heap_size h" "0 < c" "0 < k" "(k - 1) div 4 = c"
    have "k \<noteq> c" "k \<noteq> i" "(k - 1) div 4 \<noteq> i" using k ic by auto
    then show "when_at (swap_slots h i c) ((c - 1) div 4) \<le> when_at (swap_slots h i c) k"
      using ok [OF k(1,3)] k(4) mc(2) ic by (simp add: w ordered_at_def)
  qed
  ultimately show ?thesis by (simp add: down_defect_def)
qed

lemma SiftDown_ok:
  "placed h \<Longrightarrow> i < heap_size h \<Longrightarrow> down_defect h i \<Longrightarrow>
   rearranged h (SiftDown h i) \<and> heap_ordered (SiftDown h i)"
proof (induction h i rule: SiftDown.induct)
  case (1 h i)
  show ?case
  proof (cases "min_child h i")
    case None
    then have "SiftDown h i = h" by (subst SiftDown.simps) simp
    moreover have "heap_ordered h"
      using 1(4) None child_range [of _ i] unfolding heap_ordered_def down_defect_def min_child_None
      by (metis le_trans not_less)
    ultimately show ?thesis using rearranged_refl [OF 1(2)] by simp
  next
    case (Some c)
    note mc = min_child_Some [OF Some]
    have ic: "i < c" using min_child_range [OF Some] by simp
    show ?thesis
    proof (cases "when_at h i \<le> when_at h c")
      case True
      then have "SiftDown h i = h" using Some by (subst SiftDown.simps) simp
      moreover have "heap_ordered h"
        using 1(4) mc(4) True by (auto simp: heap_ordered_def down_defect_def ordered_at_def) (metis order.trans)
      ultimately show ?thesis using rearranged_refl [OF 1(2)] by simp
    next
      case False
      have eq: "SiftDown h i = SiftDown (swap_slots h i c) c"
        using Some False by (subst SiftDown.simps) simp
      have r: "rearranged h (swap_slots h i c)"
        by (rule swap_slots_rearranged [OF 1(2,3) mc(3) less_imp_neq [OF ic]])
      have "down_defect (swap_slots h i c) c" using down_step [OF 1(2-4) Some] False by simp
      then have "rearranged (swap_slots h i c) (SiftDown (swap_slots h i c) c) \<and> heap_ordered (SiftDown (swap_slots h i c) c)"
        using "1.IH" [OF Some False] r mc(3) by (simp add: rearranged_def)
      then show ?thesis unfolding eq using r rearranged_trans by blast
    qed
  qed
qed

section \<open>The operations keep the invariant and implement the map\<close>

lemma skip_defect_cases:
  assumes pl: "placed h" and i: "i < heap_size h"
    and away: "\<And>k. k < heap_size h \<Longrightarrow> 0 < k \<Longrightarrow> k \<noteq> i \<Longrightarrow> (k - 1) div 4 \<noteq> i \<Longrightarrow> ordered_at h k"
    and skip: "skip_ok h i"
  shows "rearranged h (SiftDown (SiftUp h i) i) \<and> heap_ordered (SiftDown (SiftUp h i) i)"
proof (cases "0 < i \<and> when_at h i < when_at h ((i - 1) div 4)")
  case True
  have "ordered_at h k" if k: "k < heap_size h" "0 < k" "k \<noteq> i" for k
  proof (cases "(k - 1) div 4 = i")
    case True2: True
    then have "when_at h ((i - 1) div 4) \<le> when_at h k" using skip True k by (auto simp: skip_ok_def)
    then show ?thesis using True True2 by (simp add: ordered_at_def)
  qed (use away k in auto)
  then have "up_defect h i" using skip by (simp add: up_defect_def)
  then have up: "rearranged h (SiftUp h i)" "heap_ordered (SiftUp h i)"
    using SiftUp_ok [OF pl i] by auto
  have "down_defect (SiftUp h i) i"
    unfolding down_defect_def skip_ok_def
  proof (intro conjI allI impI, goal_cases)
    case (1 k) then show ?case using up(2) by (auto simp: heap_ordered_def)
  next
    case (2 c)
    then have "ordered_at (SiftUp h i) c" "ordered_at (SiftUp h i) i"
      using up(2) i by (auto simp: heap_ordered_def)
    then show ?case using 2 by (simp add: ordered_at_def)
  qed
  then show ?thesis
    using SiftDown_ok [of "SiftUp h i" i] up(1) i rearranged_trans by (auto simp: rearranged_def)
next
  case False
  then have eq: "SiftUp h i = h" by (subst SiftUp.simps) (auto simp: Let_def)
  have "ordered_at h i" if "0 < i" using False that by (simp add: ordered_at_def)
  then have "down_defect h i" using away skip unfolding down_defect_def by metis
  then show ?thesis unfolding eq by (rule SiftDown_ok [OF pl i])
qed

lemma timer_inv_new: "timer_inv HeapTimer_new" "deadline HeapTimer_new = Map.empty"
  by (auto simp: timer_inv_def placed_def mapped_def heap_ordered_def HeapTimer_new_def deadline_def fun_eq_iff)

lemma map_Some_iff:
  "mapped h \<Longrightarrow> timer_map h x = Some p \<longleftrightarrow> (\<exists>k < heap_size h. at_pos h k = p \<and> tm_id (tnodes h p) = x)"
  by (simp add: mapped_def)

lemma deadline_at:
  "placed h \<Longrightarrow> mapped h \<Longrightarrow> k < heap_size h \<Longrightarrow>
   timer_map h (tm_id (tnodes h (at_pos h k))) = Some (at_pos h k)"
  using map_Some_iff by blast

lemma deadline_Some:
  assumes "placed h" "mapped h"
  shows "deadline h x = Some w \<longleftrightarrow>
    (\<exists>k < heap_size h. tm_id (tnodes h (at_pos h k)) = x \<and> when_at h k = w)"
  unfolding deadline_def when_at_def using map_Some_iff [OF assms(2)] by auto

text \<open>Growing the vector before an insertion.\<close>

lemma resize_vec_nth: "k < length v \<Longrightarrow> length v \<le> n \<Longrightarrow> resize_vec v n ! k = v ! k"
  by (simp add: resize_vec_def nth_append)

lemma resize_vec_length: "length v \<le> n \<Longrightarrow> length (resize_vec v n) = n"
  by (simp add: resize_vec_def)

definition grown_vec :: "HeapTimer \<Rightarrow> nat option list" where
  "grown_vec h = (if length (hvec h) \<le> heap_size h
     then resize_vec (hvec h) (if 16 \<le> length (hvec h) then length (hvec h) * 3 div 2 else 16) else hvec h)"

lemma grown_vec:
  assumes "placed h"
  shows "heap_size h < length (grown_vec h)" "\<And>k. k < heap_size h \<Longrightarrow> grown_vec h ! k = hvec h ! k"
  using placedD(3) [OF assms] by (auto simp: grown_vec_def resize_vec_length resize_vec_nth)

definition inserted :: "HeapTimer \<Rightarrow> int \<Rightarrow> HeapTimer" where
  "inserted h when = h\<lparr>hvec := (grown_vec h)[heap_size h := Some (next_node h)], heap_size := heap_size h + 1,
     timer_id := timer_id h + 1,
     tnodes := (tnodes h)(next_node h := \<lparr>tm_when = when, tm_id = timer_id h + 1, tm_i = int (heap_size h)\<rparr>),
     next_node := next_node h + 1\<rparr>"

lemma AddAt_unfold:
  "AddAt h when =
     (if 2 ^ 31 - 1 \<le> heap_size h then (0, h)
      else (timer_id h + 1, let h2 = SiftUp (inserted h when) (heap_size h) in
              h2\<lparr>timer_map := (timer_map h2)(timer_id h + 1 \<mapsto> next_node h)\<rparr>))"
  by (simp add: AddAt_def inserted_def grown_vec_def Let_def)

lemma AddAt_ok:
  assumes inv: "timer_inv h" and room: "heap_size h < 2 ^ 31 - 1" and ids: "unat (timer_id h) < 2 ^ 64 - 1"
  shows "timer_inv (snd (AddAt h when)) \<and> fst (AddAt h when) = timer_id h + 1 \<and>
    deadline h (timer_id h + 1) = None \<and>
    deadline (snd (AddAt h when)) = (deadline h)(timer_id h + 1 \<mapsto> when) \<and>
    timer_id (snd (AddAt h when)) = timer_id h + 1 \<and> heap_size (snd (AddAt h when)) = heap_size h + 1"
proof -
  have pl: "placed h" and mp: "mapped h" and ho: "heap_ordered h" using inv by (auto simp: timer_inv_def)
  define h1 where "h1 = inserted h when"
  define n where "n = heap_size h"
  define t where "t = next_node h"
  define x where "x = timer_id h + 1"
  have ux: "unat x = unat (timer_id h) + 1" using ids by (simp add: x_def unat_word_ariths)
  have g: "n < length (grown_vec h)" "\<And>k. k < n \<Longrightarrow> grown_vec h ! k = Some (at_pos h k)"
    using grown_vec [OF pl] placedD(1) [OF pl] by (auto simp: n_def)
  have at: "at_pos h1 n = t" "\<And>k. k < n \<Longrightarrow> at_pos h1 k = at_pos h k"
    using g by (simp_all add: h1_def inserted_def at_pos_def n_def t_def)
  have fresh: "\<And>k. k < n \<Longrightarrow> at_pos h k < t" using mp by (simp add: mapped_def n_def t_def)
  have nd: "tnodes h1 t = \<lparr>tm_when = when, tm_id = x, tm_i = int n\<rparr>"
    "\<And>k. k < n \<Longrightarrow> tnodes h1 (at_pos h k) = tnodes h (at_pos h k)"
    using fresh by (fastforce simp: h1_def inserted_def t_def x_def n_def)+
  have f1: "heap_size h1 = n + 1" "timer_map h1 = timer_map h" "timer_id h1 = x" "next_node h1 = t + 1"
    by (simp_all add: h1_def inserted_def n_def t_def x_def)
  have pl1: "placed h1"
    unfolding placed_def f1
  proof (intro conjI allI impI)
    show "n + 1 \<le> length (hvec h1)" using g by (simp add: h1_def inserted_def n_def)
    fix k assume k: "k < n + 1"
    show "hvec h1 ! k = Some (at_pos h1 k)"
      using k g by (cases "k = n") (auto simp: h1_def inserted_def n_def at_pos_def)
    show "tm_i (tnodes h1 (at_pos h1 k)) = int k"
      using k at nd placedD(2) [OF pl] by (cases "k = n") (auto simp: n_def)
  qed
  have w1: "\<And>k. k < n \<Longrightarrow> when_at h1 k = when_at h k" "when_at h1 n = when"
    by (simp_all add: when_at_def at nd)
  have "up_defect h1 n"
    unfolding up_defect_def skip_ok_def f1
  proof (intro conjI allI impI, goal_cases)
    case (1 k)
    then have "(k - 1) div 4 < n" "k < n" by auto
    then show ?case using ho 1 by (simp add: heap_ordered_def ordered_at_def w1 n_def)
  qed auto
  then have r: "rearranged h1 (SiftUp h1 n)" and o: "heap_ordered (SiftUp h1 n)"
    using SiftUp_ok [OF pl1, of n] by (auto simp: f1)
  define h3 where "h3 = (SiftUp h1 n)\<lparr>timer_map := (timer_map h)(x \<mapsto> t)\<rparr>"
  have add: "AddAt h when = (x, h3)"
    using room r by (simp add: AddAt_unfold h1_def n_def x_def t_def h3_def Let_def rearranged_def inserted_def)
  define h4 where "h4 = h1\<lparr>timer_map := (timer_map h)(x \<mapsto> t)\<rparr>"
  have same: "at_pos h4 = at_pos h1" "at_pos h3 = at_pos (SiftUp h1 n)" "when_at h3 = when_at (SiftUp h1 n)"
    by (simp_all add: h4_def h3_def at_pos_def when_at_def fun_eq_iff)
  have f4: "heap_size h4 = n + 1" "timer_id h4 = x" "next_node h4 = t + 1" "tnodes h4 = tnodes h1"
    "timer_map h4 = (timer_map h)(x \<mapsto> t)" by (simp_all add: h4_def f1)
  have r4: "rearranged h4 h3"
    using r by (simp add: rearranged_def h3_def h4_def placed_def at_pos_def)
  have old: "timer_map h y = Some p \<longleftrightarrow> (\<exists>k < n. at_pos h k = p \<and> tm_id (tnodes h p) = y)" for y p
    using map_Some_iff [OF mp] by (simp add: n_def)
  have idlt: "unat (tm_id (tnodes h (at_pos h k))) < unat x" if "k < n" for k
    using mp that unfolding mapped_def n_def ux by (metis Suc_eq_plus1 le_imp_less_Suc)
  have none: "timer_map h x = None" using old [of x] idlt by (metis less_irrefl option.exhaust)
  have mp4: "mapped h4"
    unfolding mapped_def f4 same
  proof (intro conjI allI impI)
    fix y p
    show "((timer_map h)(x \<mapsto> t)) y = Some p \<longleftrightarrow> (\<exists>k < n + 1. at_pos h1 k = p \<and> tm_id (tnodes h1 p) = y)"
    proof
      assume a: "((timer_map h)(x \<mapsto> t)) y = Some p"
      show "\<exists>k < n + 1. at_pos h1 k = p \<and> tm_id (tnodes h1 p) = y"
      proof (cases "y = x")
        case True then show ?thesis using a at nd by (intro exI [of _ n]) auto
      next
        case False
        then obtain k where "k < n" "at_pos h k = p" "tm_id (tnodes h p) = y" using a old by auto
        then show ?thesis using at nd by (intro exI [of _ k]) auto
      qed
    next
      assume "\<exists>k < n + 1. at_pos h1 k = p \<and> tm_id (tnodes h1 p) = y"
      then obtain k where k: "k < n + 1" "at_pos h1 k = p" "tm_id (tnodes h1 p) = y" by blast
      show "((timer_map h)(x \<mapsto> t)) y = Some p"
      proof (cases "k = n")
        case True then show ?thesis using k at nd by auto
      next
        case False
        then have kn: "k < n" using k by simp
        then have "p = at_pos h k" "tm_id (tnodes h p) = y" using k at nd by auto
        moreover have "y \<noteq> x" using idlt [OF kn] calculation by auto
        ultimately show ?thesis using old kn by auto
      qed
    qed
  next
    fix k assume k: "k < n + 1"
    have "at_pos h1 k < t + 1 \<and> unat (tm_id (tnodes h1 (at_pos h1 k))) \<le> unat x"
      using k fresh [of k] idlt [of k] at nd by (cases "k = n") (simp_all add: less_imp_le less_SucI)
    then show "at_pos h1 k < t + 1" "unat (tm_id (tnodes h1 (at_pos h1 k))) \<le> unat x" by auto
  qed
  have d4: "deadline h4 = (deadline h)(x \<mapsto> when)"
  proof
    fix y
    show "deadline h4 y = ((deadline h)(x \<mapsto> when)) y"
    proof (cases "y = x")
      case True then show ?thesis by (simp add: deadline_def f4 nd)
    next
      case False
      show ?thesis
      proof (cases "timer_map h y")
        case None then show ?thesis using False by (simp add: deadline_def f4)
      next
        case (Some p)
        then obtain k where "k < n" "at_pos h k = p" using old by blast
        then show ?thesis using False Some nd by (auto simp: deadline_def f4)
      qed
    qed
  qed
  have "timer_inv h3"
    using rearranged_mapped [OF r4 mp4] r4 o same
    by (auto simp: timer_inv_def rearranged_def heap_ordered_def ordered_at_def h3_def)
  moreover have "deadline h3 = (deadline h)(x \<mapsto> when)" using rearranged_deadline [OF r4] d4 by simp
  moreover have "deadline h x = None" by (simp add: deadline_def none)
  moreover have "timer_id h3 = x" "heap_size h3 = n + 1" using r4 f4 by (simp_all add: rearranged_def)
  ultimately show ?thesis unfolding add by (simp add: x_def n_def)
qed

subsection \<open>Removal\<close>

definition shrink :: "HeapTimer \<Rightarrow> HeapTimer" where
  "shrink h = h\<lparr>heap_size := heap_size h - 1\<rparr>"

text \<open>The node \<open>t\<close> marked as gone and its id taken out of the map.\<close>

definition forget :: "nat \<Rightarrow> HeapTimer \<Rightarrow> HeapTimer" where
  "forget t h = (set_i h t (-1))\<lparr>timer_map := (timer_map h)(tm_id (tnodes h t) := None)\<rparr>"

lemma forget_simps [simp]:
  "heap_size (forget t h) = heap_size h" "at_pos (forget t h) k = at_pos h k"
  "when_at (forget t h) k = when_at h k" "timer_id (forget t h) = timer_id h"
  "hvec (forget t h) = hvec h" "next_node (forget t h) = next_node h"
  by (simp_all add: forget_def set_i_def at_pos_def when_at_def)

lemma forget_ordered [simp]: "heap_ordered (forget t h) = heap_ordered h"
  by (simp add: heap_ordered_def ordered_at_def)

lemma forget_placed:
  "placed h \<Longrightarrow> t \<notin> at_pos h ` {..<heap_size h} \<Longrightarrow> placed (forget t h)"
  by (auto simp: placed_def) (auto simp: forget_def set_i_def)

lemma forget_rearranged:
  assumes "rearranged a b" "t \<notin> at_pos a ` {..<heap_size a}"
  shows "rearranged (forget t a) (forget t b)"
proof -
  have "t \<notin> at_pos b ` {..<heap_size b}" using assms by (simp add: rearranged_def)
  moreover have "placed b" using assms(1) by (simp add: rearranged_def)
  ultimately have "placed (forget t b)" by (rule forget_placed [rotated])
  moreover have "at_pos (forget t h) = at_pos h" for h by (simp add: fun_eq_iff)
  moreover have "timer_map (forget t b) = timer_map (forget t a)"
    using assms(1) by (simp add: rearranged_def forget_def)
  moreover have "tm_when (tnodes (forget t h) p) = tm_when (tnodes h p)"
    "tm_id (tnodes (forget t h) p) = tm_id (tnodes h p)" for h p
    by (simp_all add: forget_def set_i_def)
  ultimately show ?thesis using assms(1) by (simp add: rearranged_def)
qed

lemma filled_ok:
  assumes pl: "placed h" and i: "i < heap_size h"
  defines "g \<equiv> fill_hole (shrink h) i"
  shows "heap_size g = heap_size h - 1" "timer_map g = timer_map h" "timer_id g = timer_id h"
    "next_node g = next_node h"
    "\<And>p. tm_when (tnodes g p) = tm_when (tnodes h p) \<and> tm_id (tnodes g p) = tm_id (tnodes h p)"
    "\<And>k. k < heap_size h - 1 \<Longrightarrow> at_pos g k = (if k = i then at_pos h (heap_size h - 1) else at_pos h k)"
    "placed g" "at_pos h i \<notin> at_pos g ` {..<heap_size g}"
proof -
  define m where "m = heap_size h - 1"
  have m: "m < heap_size h" "i \<le> m" "m < length (hvec h)" using i placedD(3) [OF pl] by (auto simp: m_def)
  have g: "g = (if i = m then (shrink h)\<lparr>hvec := (hvec h)[i := None]\<rparr>
      else set_i ((shrink h)\<lparr>hvec := (hvec h)[i := hvec h ! m, m := None]\<rparr>) (at_pos h m) (int i))"
    using m i by (auto simp: g_def fill_hole_def shrink_def m_def Let_def at_pos_def nth_list_update)
  show "heap_size g = heap_size h - 1" "timer_map g = timer_map h" "timer_id g = timer_id h" "next_node g = next_node h"
    "\<And>p. tm_when (tnodes g p) = tm_when (tnodes h p) \<and> tm_id (tnodes g p) = tm_id (tnodes h p)"
    by (auto simp: g shrink_def set_i_def)
  have sz: "heap_size g = m" by (simp add: g shrink_def set_i_def m_def)
  have vec: "hvec g ! k = (if k = i then hvec h ! m else hvec h ! k)" if "k < m" for k
    using that m by (auto simp: g shrink_def set_i_def nth_list_update)
  have at: "at_pos g k = (if k = i then at_pos h m else at_pos h k)" if "k < m" for k
    using vec [OF that] by (simp add: at_pos_def)
  then show "\<And>k. k < heap_size h - 1 \<Longrightarrow> at_pos g k = (if k = i then at_pos h (heap_size h - 1) else at_pos h k)"
    by (simp add: m_def)
  have inj: "at_pos h j = at_pos h k \<longleftrightarrow> j = k" if "j < heap_size h" "k < heap_size h" for j k
    using at_pos_inj [OF pl that] by blast
  show "placed g"
    unfolding placed_def sz
  proof (intro conjI allI impI)
    show "m \<le> length (hvec g)" using m by (simp add: g shrink_def set_i_def)
    fix k assume k: "k < m"
    then have kh: "k < heap_size h" using m by simp
    show "hvec g ! k = Some (at_pos g k)"
      using vec [OF k] at [OF k] placedD(1) [OF pl m(1)] placedD(1) [OF pl kh] by simp
    have ti: "tm_i (tnodes g p) = (if i \<noteq> m \<and> p = at_pos h m then int i else tm_i (tnodes h p))" for p
      by (simp add: g shrink_def set_i_def)
    show "tm_i (tnodes g (at_pos g k)) = int k"
      using at [OF k] k inj [OF kh m(1)] placedD(2) [OF pl kh] by (auto simp: ti)
  qed
  show "at_pos h i \<notin> at_pos g ` {..<heap_size g}"
  proof
    assume "at_pos h i \<in> at_pos g ` {..<heap_size g}"
    then obtain k where k: "k < m" "at_pos g k = at_pos h i" by (auto simp: sz)
    then show False using at [OF k(1)] inj [OF m(1) i] inj [of k i] i m by (auto split: if_splits)
  qed
qed

definition removed :: "HeapTimer \<Rightarrow> nat \<Rightarrow> HeapTimer" where
  "removed h i = forget (at_pos h i) (fill_hole (shrink h) i)"

lemma removed_ok:
  assumes pl: "placed h" and mp: "mapped h" and i: "i < heap_size h"
  defines "x \<equiv> tm_id (tnodes h (at_pos h i))"
  shows "placed (removed h i)" "mapped (removed h i)" "heap_size (removed h i) = heap_size h - 1"
    "timer_id (removed h i) = timer_id h" "deadline (removed h i) = (deadline h)(x := None)"
proof -
  define g where "g = fill_hole (shrink h) i"
  define m where "m = heap_size h - 1"
  note f = filled_ok [OF pl i, folded g_def m_def]
  have r: "removed h i = forget (at_pos h i) g" by (simp add: removed_def g_def)
  show pr: "placed (removed h i)" unfolding r by (rule forget_placed [OF f(7,8)])
  show "heap_size (removed h i) = heap_size h - 1" "timer_id (removed h i) = timer_id h"
    by (simp_all add: r f m_def)
  have ids: "tm_id (tnodes (removed h i) p) = tm_id (tnodes h p)" "tm_when (tnodes (removed h i) p) = tm_when (tnodes h p)" for p
    using f(5) by (simp_all add: r forget_def set_i_def)
  have tmap: "timer_map (removed h i) = (timer_map h)(x := None)"
    by (simp add: r forget_def set_i_def f x_def)
  have img: "(\<exists>k < m. at_pos g k = p) \<longleftrightarrow> (\<exists>k < heap_size h. k \<noteq> i \<and> at_pos h k = p)" for p
  proof
    assume "\<exists>k < m. at_pos g k = p"
    then obtain k where "k < m" "at_pos g k = p" by blast
    then show "\<exists>k < heap_size h. k \<noteq> i \<and> at_pos h k = p"
      using f(6) [of k] i by (intro exI [of _ "if k = i then m else k"]) (auto simp: m_def)
  next
    assume "\<exists>k < heap_size h. k \<noteq> i \<and> at_pos h k = p"
    then obtain k where "k < heap_size h" "k \<noteq> i" "at_pos h k = p" by blast
    then show "\<exists>k < m. at_pos g k = p"
      using f(6) [of "if k = m then i else k"] i by (intro exI [of _ "if k = m then i else k"]) (auto simp: m_def)
  qed
  have key: "x = tm_id (tnodes h p) \<longleftrightarrow> p = at_pos h i" if "k < heap_size h" "at_pos h k = p" for k p
    using deadline_at [OF pl mp that(1)] deadline_at [OF pl mp i] that(2) by (auto simp: x_def)
  show "mapped (removed h i)"
    unfolding mapped_def tmap ids
  proof (intro conjI allI impI)
    fix y p
    have "(\<exists>k < heap_size (removed h i). at_pos (removed h i) k = p \<and> tm_id (tnodes h p) = y) \<longleftrightarrow>
          (\<exists>k < heap_size h. k \<noteq> i \<and> at_pos h k = p) \<and> tm_id (tnodes h p) = y"
      using img [of p] by (simp add: r f) blast
    also have "\<dots> \<longleftrightarrow> ((timer_map h)(x := None)) y = Some p"
    proof (cases "y = x")
      case True then show ?thesis using key at_pos_inj [OF pl _ i] by auto
    next
      case False
      then have "(\<exists>k < heap_size h. k \<noteq> i \<and> at_pos h k = p) \<and> tm_id (tnodes h p) = y \<longleftrightarrow>
          (\<exists>k < heap_size h. at_pos h k = p \<and> tm_id (tnodes h p) = y)" by (auto simp: x_def)
      then show ?thesis using False map_Some_iff [OF mp, of y p] by simp
    qed
    finally show "((timer_map h)(x := None)) y = Some p \<longleftrightarrow>
       (\<exists>k < heap_size (removed h i). at_pos (removed h i) k = p \<and> tm_id (tnodes h p) = y)" by simp
  next
    fix k assume "k < heap_size (removed h i)"
    then have "k < m" by (simp add: r f)
    then obtain j where "j < heap_size h" "at_pos h j = at_pos g k" using img [of "at_pos g k"] by blast
    then show "at_pos (removed h i) k < next_node (removed h i)"
      "unat (tm_id (tnodes h (at_pos (removed h i) k))) \<le> unat (timer_id (removed h i))"
      using mp unfolding mapped_def by (auto simp: r f)
  qed
  show "deadline (removed h i) = (deadline h)(x := None)"
    by (auto simp: deadline_def tmap ids fun_eq_iff)
qed

lemma filled_when:
  assumes pl: "placed h" and i: "i < heap_size h" and k: "k < heap_size h - 1"
  shows "when_at (fill_hole (shrink h) i) k = (if k = i then when_at h (heap_size h - 1) else when_at h k)"
  using filled_ok(5,6) [OF pl i] k by (simp add: when_at_def)

lemma filled_defect:
  assumes pl: "placed h" and ho: "heap_ordered h" and i: "i < heap_size h"
  defines "g \<equiv> fill_hole (shrink h) i"
  shows "\<And>k. k < heap_size g \<Longrightarrow> 0 < k \<Longrightarrow> k \<noteq> i \<Longrightarrow> (k - 1) div 4 \<noteq> i \<Longrightarrow> ordered_at g k" "skip_ok g i"
proof -
  define m where "m = heap_size h - 1"
  note w = filled_when [OF pl i, folded g_def m_def]
  have sz: "heap_size g = m" using filled_ok(1) [OF pl i] by (simp add: g_def m_def)
  have up: "when_at h ((k - 1) div 4) \<le> when_at h k" if "k < m" "0 < k" for k
    using ho that by (simp add: heap_ordered_def ordered_at_def m_def)
  show "ordered_at g k" if k: "k < heap_size g" "0 < k" "k \<noteq> i" "(k - 1) div 4 \<noteq> i" for k
  proof -
    have "(k - 1) div 4 < m" "k < m" using k sz by auto
    then show ?thesis using w up k by (simp add: ordered_at_def)
  qed
  show "skip_ok g i"
    unfolding skip_ok_def sz
  proof (intro allI impI, elim conjE)
    fix c assume c: "c < m" "0 < i" "0 < c" "(c - 1) div 4 = i"
    have lt: "i < m" "(i - 1) div 4 < m" "(i - 1) div 4 \<noteq> i" "c \<noteq> i" using c by auto
    have "when_at h ((i - 1) div 4) \<le> when_at h i" using up lt c by blast
    also have "\<dots> \<le> when_at h c" using up [of c] c by simp
    finally show "when_at g ((i - 1) div 4) \<le> when_at g c" using w lt c by simp
  qed
qed

lemma Del_ok:
  assumes inv: "timer_inv h"
  shows "timer_inv (snd (Del h x))" "fst (Del h x) \<longleftrightarrow> x \<in> dom (deadline h)"
    "deadline (snd (Del h x)) = (deadline h)(x := None)" "timer_id (snd (Del h x)) = timer_id h"
    "heap_size (snd (Del h x)) \<le> heap_size h"
proof -
  have pl: "placed h" and mp: "mapped h" and ho: "heap_ordered h" using inv by (auto simp: timer_inv_def)
  have "timer_inv (snd (Del h x)) \<and> (fst (Del h x) \<longleftrightarrow> x \<in> dom (deadline h)) \<and>
    deadline (snd (Del h x)) = (deadline h)(x := None) \<and> timer_id (snd (Del h x)) = timer_id h \<and>
    heap_size (snd (Del h x)) \<le> heap_size h"
  proof (cases "timer_map h x")
    case None
    then show ?thesis using inv by (auto simp: Del_def deadline_def fun_eq_iff)
  next
    case (Some t)
    then obtain k where k: "k < heap_size h" "at_pos h k = t" "tm_id (tnodes h t) = x"
      using map_Some_iff [OF mp] by blast
    have ti: "tm_i (tnodes h t) = int k" "hvec h ! k = Some t" using placedD [OF pl] k by auto
    note rm = removed_ok [OF pl mp k(1), unfolded k(2,3)]
    have eq: "fill_hole ((set_i (h\<lparr>timer_map := (timer_map h)(x := None)\<rparr>) t (-1))\<lparr>heap_size := heap_size h - 1\<rparr>) k = removed h k"
    proof (cases "k = heap_size h - 1")
      case True
      then show ?thesis
        using k by (simp add: removed_def forget_def fill_hole_def shrink_def set_i_def at_pos_def Let_def)
    next
      case False
      have "at_pos h (heap_size h - 1) \<noteq> t" using at_pos_inj [OF pl _ k(1)] k False by (metis Suc_diff_1 diff_less lessI less_nat_zero_code linorder_neqE_nat zero_less_one)
      then show ?thesis
        using k False placedD(3) [OF pl]
        by (simp add: removed_def forget_def fill_hole_def shrink_def set_i_def at_pos_def fun_upd_twist Let_def)
    qed
    have "Del h x = (True, if k = heap_size h - 1 then removed h k else SiftDown (SiftUp (removed h k) k) k)"
      using Some ti k(1) eq by (simp add: Del_def Let_def set_i_def cong: if_cong) (metis One_nat_def)
    moreover have "timer_inv (removed h k)" if "k = heap_size h - 1"
    proof -
      have "when_at (removed h k) j = when_at h j" if "j < heap_size h - 1" for j
        using filled_when [OF pl k(1) that] \<open>k = heap_size h - 1\<close> that by (simp add: removed_def)
      moreover have "(j - 1) div 4 < heap_size h - 1" if "j < heap_size h - 1" for j using that by auto
      ultimately have "heap_ordered (removed h k)"
        using ho rm(3) by (simp add: heap_ordered_def ordered_at_def)
      then show ?thesis using rm by (simp add: timer_inv_def)
    qed
    moreover have "rearranged (removed h k) (SiftDown (SiftUp (removed h k) k) k) \<and>
        heap_ordered (SiftDown (SiftUp (removed h k) k) k)" if "k \<noteq> heap_size h - 1"
    proof (rule skip_defect_cases [OF rm(1)])
      show "k < heap_size (removed h k)" using that k rm(3) by simp
      show "skip_ok (removed h k) k"
        using filled_defect(2) [OF pl ho k(1)] by (simp add: skip_ok_def removed_def)
      show "ordered_at (removed h k) j"
        if "j < heap_size (removed h k)" "0 < j" "j \<noteq> k" "(j - 1) div 4 \<noteq> k" for j
        using filled_defect(1) [OF pl ho k(1), of j] that by (simp add: ordered_at_def removed_def)
    qed
    moreover have "x \<in> dom (deadline h)" using Some by (simp add: deadline_def dom_def)
    ultimately have eqD: "Del h x = (True, if k = heap_size h - 1 then removed h k else SiftDown (SiftUp (removed h k) k) k)"
      and last: "k = heap_size h - 1 \<Longrightarrow> timer_inv (removed h k)"
      and mid: "k \<noteq> heap_size h - 1 \<Longrightarrow> rearranged (removed h k) (SiftDown (SiftUp (removed h k) k) k) \<and>
        heap_ordered (SiftDown (SiftUp (removed h k) k) k)"
      and inD: "x \<in> dom (deadline h)" by blast+
    show ?thesis
    proof (cases "k = heap_size h - 1")
      case True
      have "Del h x = (True, removed h k)" using eqD True by simp
      then show ?thesis using last [OF True] rm inD by simp
    next
      case False
      have D: "Del h x = (True, SiftDown (SiftUp (removed h k) k) k)" using eqD False by simp
      note r = rearranged_inv [OF conjunct1 [OF mid [OF False]] rm(2) conjunct2 [OF mid [OF False]]]
      show ?thesis unfolding D using r(1-3) inD rm(3-5) by simp
    qed
  qed
  then show "timer_inv (snd (Del h x))" "fst (Del h x) \<longleftrightarrow> x \<in> dom (deadline h)"
    "deadline (snd (Del h x)) = (deadline h)(x := None)" "timer_id (snd (Del h x)) = timer_id h"
    "heap_size (snd (Del h x)) \<le> heap_size h" by auto
qed

lemma root_minimal:
  assumes "heap_ordered h" "k < heap_size h"
  shows "when_at h 0 \<le> when_at h k"
  using assms(2)
proof (induction k rule: less_induct)
  case (less k)
  show ?case
  proof (cases "k = 0")
    case False
    then have "when_at h 0 \<le> when_at h ((k - 1) div 4)" using less by (intro less.IH) auto
    also have "\<dots> \<le> when_at h k" using assms(1) less False by (simp add: heap_ordered_def ordered_at_def)
    finally show ?thesis .
  qed simp
qed

lemma pop_root_ok:
  assumes inv: "timer_inv h" and ne: "0 < heap_size h"
  shows "timer_inv (snd (pop_root h))" "deadline h (fst (pop_root h)) = Some (when_at h 0)"
    "deadline (snd (pop_root h)) = (deadline h)(fst (pop_root h) := None)"
    "timer_id (snd (pop_root h)) = timer_id h"
proof -
  have pl: "placed h" and mp: "mapped h" and ho: "heap_ordered h" using inv by (auto simp: timer_inv_def)
  define t where "t = at_pos h 0"
  define x where "x = tm_id (tnodes h t)"
  define g where "g = fill_hole (shrink h) 0"
  note f = filled_ok [OF pl ne, folded g_def]
  note rm = removed_ok [OF pl mp ne, folded t_def, folded x_def]
  have rem: "removed h 0 = forget t g" by (simp add: removed_def g_def t_def)
  have dx: "deadline h x = Some (when_at h 0)"
    using deadline_Some [OF pl mp] ne by (auto simp: x_def t_def)
  have pop: "pop_root h = (x, forget t (if heap_size h - 1 = 0 then g else SiftDown g 0))"
  proof (cases "heap_size h - 1 = 0")
    case True
    then show ?thesis
      by (simp add: pop_root_def forget_def g_def fill_hole_def shrink_def set_i_def Let_def t_def x_def at_pos_def)
  next
    case False
    have "rearranged g (SiftDown g 0)"
    proof -
      have "down_defect g 0"
        using filled_defect [OF pl ho ne, folded g_def] by (auto simp: down_defect_def)
      then show ?thesis using SiftDown_ok [OF f(7)] f(1) False by simp
    qed
    then have "tm_id (tnodes (SiftDown g 0) t) = x" using f(5) by (simp add: rearranged_def x_def)
    then show ?thesis
      using False by (simp add: pop_root_def forget_def g_def shrink_def set_i_def Let_def t_def)
  qed
  have "timer_inv (forget t (if heap_size h - 1 = 0 then g else SiftDown g 0)) \<and>
     deadline (forget t (if heap_size h - 1 = 0 then g else SiftDown g 0)) = (deadline h)(x := None) \<and>
     timer_id (forget t (if heap_size h - 1 = 0 then g else SiftDown g 0)) = timer_id h"
  proof (cases "heap_size h - 1 = 0")
    case True
    then have "heap_ordered (removed h 0)" using rm(3) by (simp add: heap_ordered_def)
    then show ?thesis using True rm by (simp add: timer_inv_def rem)
  next
    case False
    have "down_defect g 0"
      using filled_defect [OF pl ho ne, folded g_def] by (auto simp: down_defect_def)
    then have r: "rearranged g (SiftDown g 0)" "heap_ordered (SiftDown g 0)"
      using SiftDown_ok [OF f(7)] f(1) False by auto
    have "rearranged (removed h 0) (forget t (SiftDown g 0))"
      unfolding rem by (rule forget_rearranged [OF r(1)]) (use f(8) in \<open>simp add: t_def\<close>)
    then show ?thesis using rearranged_inv [OF _ rm(2), of "forget t (SiftDown g 0)"] r(2) rm False
      by (simp del: forget_simps(4))
  qed
  then show "timer_inv (snd (pop_root h))" "deadline h (fst (pop_root h)) = Some (when_at h 0)"
    "deadline (snd (pop_root h)) = (deadline h)(fst (pop_root h) := None)"
    "timer_id (snd (pop_root h)) = timer_id h"
    unfolding pop by (simp_all add: dx)
qed

definition due :: "(uint64 \<rightharpoonup> int) \<Rightarrow> int \<Rightarrow> uint64 set" where
  "due d now = {x. \<exists>w. d x = Some w \<and> w \<le> now}"

definition not_due :: "(uint64 \<rightharpoonup> int) \<Rightarrow> int \<Rightarrow> uint64 \<rightharpoonup> int" where
  "not_due d now = d |` (- due d now)"

lemma due_upd: "d x = Some w \<Longrightarrow> w \<le> now \<Longrightarrow> due d now = insert x (due (d(x := None)) now)"
  by (auto simp: due_def)

lemma not_due_upd: "d x = Some w \<Longrightarrow> w \<le> now \<Longrightarrow> not_due (d(x := None)) now = not_due d now"
  by (auto simp: not_due_def due_def restrict_map_def fun_eq_iff)

lemma Update_ok:
  "timer_inv h \<Longrightarrow>
   timer_inv (snd (Update h now)) \<and> set (fst (Update h now)) = due (deadline h) now \<and>
   distinct (fst (Update h now)) \<and> sorted (map (\<lambda>x. the (deadline h x)) (fst (Update h now))) \<and>
   deadline (snd (Update h now)) = not_due (deadline h) now \<and> timer_id (snd (Update h now)) = timer_id h"
proof (induction h now rule: Update.induct)
  case (1 h now)
  have pl: "placed h" and mp: "mapped h" and ho: "heap_ordered h" using 1(2) by (auto simp: timer_inv_def)
  show ?case
  proof (cases "heap_size h = 0 \<or> now < when_at h 0")
    case True
    then have "Update h now = ([], h)" by (subst Update.simps) auto
    moreover have none: "due (deadline h) now = {}"
      using True root_minimal [OF ho] by (auto simp: due_def deadline_Some [OF pl mp]) (metis leD order_trans)
    moreover have "not_due (deadline h) now = deadline h" using none by (simp add: not_due_def restrict_map_def)
    ultimately show ?thesis using 1(2) by simp
  next
    case False
    define x where "x = fst (pop_root h)"
    define h1 where "h1 = snd (pop_root h)"
    have pop: "pop_root h = (x, h1)" by (simp add: x_def h1_def)
    have ne: "0 < heap_size h" using False by simp
    note p = pop_root_ok [OF 1(2) ne, folded x_def h1_def]
    note ih = "1.IH" [OF _ _ pop [symmetric] refl p(1)]
    have eq: "Update h now = (x # fst (Update h1 now), snd (Update h1 now))"
      using False by (subst Update.simps) (simp add: pop split: prod.split)
    have ih: "timer_inv (snd (Update h1 now))" "set (fst (Update h1 now)) = due (deadline h1) now"
      "distinct (fst (Update h1 now))" "sorted (map (\<lambda>x. the (deadline h1 x)) (fst (Update h1 now)))"
      "deadline (snd (Update h1 now)) = not_due (deadline h1) now" "timer_id (snd (Update h1 now)) = timer_id h1"
      using ih False by auto
    have w: "when_at h 0 \<le> now" using False by simp
    have notin: "x \<notin> set (fst (Update h1 now))" by (simp add: ih p(3) due_def)
    have same: "map (\<lambda>x. the (deadline h1 x)) (fst (Update h1 now)) = map (\<lambda>x. the (deadline h x)) (fst (Update h1 now))"
      using notin by (intro map_cong refl) (auto simp: p(3))
    have least: "\<forall>y \<in> set (fst (Update h1 now)). the (deadline h x) \<le> the (deadline h y)"
    proof
      fix y assume "y \<in> set (fst (Update h1 now))"
      then obtain v where "deadline h y = Some v" using notin by (auto simp: ih p(3) due_def split: if_splits)
      then show "the (deadline h x) \<le> the (deadline h y)"
        using deadline_Some [OF pl mp, of y v] root_minimal [OF ho] p(2) by auto
    qed
    have srt: "sorted (map (\<lambda>x. the (deadline h x)) (fst (Update h1 now)))" using ih(4) unfolding same .
    show ?thesis
      unfolding eq using ih(1-3,5,6) notin least srt p
      by (simp add: due_upd [of "deadline h" x, OF p(2) w] not_due_upd [of "deadline h" x, OF p(2) w])
  qed
qed

section \<open>The interface of a timer queue\<close>

text \<open>
  What a client of the queue relies on. \<open>room q\<close> is the precondition of an insertion (a free
  position and a fresh id).
\<close>

locale timer_queue =
  fixes inv :: "'q \<Rightarrow> bool"
    and dl :: "'q \<Rightarrow> uint64 \<rightharpoonup> int"
    and room :: "'q \<Rightarrow> bool"
    and add :: "'q \<Rightarrow> int \<Rightarrow> uint64 \<times> 'q"
    and del :: "'q \<Rightarrow> uint64 \<Rightarrow> bool \<times> 'q"
    and update :: "'q \<Rightarrow> int \<Rightarrow> uint64 list \<times> 'q"
  assumes add_law: "inv q \<Longrightarrow> room q \<Longrightarrow>
      inv (snd (add q w)) \<and> dl q (fst (add q w)) = None \<and> dl (snd (add q w)) = (dl q)(fst (add q w) \<mapsto> w)"
    and del_law: "inv q \<Longrightarrow>
      inv (snd (del q x)) \<and> (fst (del q x) \<longleftrightarrow> x \<in> dom (dl q)) \<and> dl (snd (del q x)) = (dl q)(x := None)"
    and update_law: "inv q \<Longrightarrow>
      inv (snd (update q now)) \<and> set (fst (update q now)) = due (dl q) now \<and> distinct (fst (update q now)) \<and>
      sorted (map (\<lambda>x. the (dl q x)) (fst (update q now))) \<and> dl (snd (update q now)) = not_due (dl q) now"
begin

lemma deleted_never_fires:
  "inv q \<Longrightarrow> x \<notin> set (fst (update (snd (del q x)) now))"
  using del_law [of q x] update_law [of "snd (del q x)" now] by (simp add: due_def)

lemma fires_once:
  assumes "inv q" "now' \<le> now"
  shows "fst (update (snd (update q now)) now') = []"
proof -
  have "due (not_due (dl q) now) now' = {}"
    using assms(2) by (auto simp: due_def not_due_def restrict_map_def)
  then show ?thesis
    using update_law [OF assms(1), of now] update_law [of "snd (update q now)" now'] by simp
qed

lemma fires_when_due:
  assumes "inv q" "room q"
  shows "fst (add q w) \<in> set (fst (update (snd (add q w)) now)) \<longleftrightarrow> w \<le> now"
  using add_law [OF assms, of w] update_law [of "snd (add q w)" now] by (simp add: due_def)

lemma two_updates:
  assumes "inv q" "now \<le> now'"
  shows "set (fst (update q now)) \<union> set (fst (update (snd (update q now)) now')) = set (fst (update q now'))"
    "set (fst (update q now)) \<inter> set (fst (update (snd (update q now)) now')) = {}"
  using assms(2) update_law [OF assms(1), of now] update_law [OF assms(1), of now']
    update_law [of "snd (update q now)" now']
  by (auto simp: due_def not_due_def restrict_map_def split: if_splits)

end

definition heap_room :: "HeapTimer \<Rightarrow> bool" where
  "heap_room h \<longleftrightarrow> heap_size h < 2 ^ 31 - 1 \<and> unat (timer_id h) < 2 ^ 64 - 1"

interpretation ht: timer_queue timer_inv deadline heap_room AddAt Del Update
proof
  fix q :: HeapTimer and w x now
  assume q: "timer_inv q"
  show "timer_inv (snd (AddAt q w)) \<and> deadline q (fst (AddAt q w)) = None \<and>
    deadline (snd (AddAt q w)) = (deadline q)(fst (AddAt q w) \<mapsto> w)" if "heap_room q"
    using AddAt_ok [OF q, of w] that by (simp add: heap_room_def)
  show "timer_inv (snd (Del q x)) \<and> (fst (Del q x) \<longleftrightarrow> x \<in> dom (deadline q)) \<and>
    deadline (snd (Del q x)) = (deadline q)(x := None)"
    using Del_ok [OF q, of x] by simp
  show "timer_inv (snd (Update q now)) \<and> set (fst (Update q now)) = due (deadline q) now \<and>
    distinct (fst (Update q now)) \<and> sorted (map (\<lambda>x. the (deadline q x)) (fst (Update q now))) \<and>
    deadline (snd (Update q now)) = not_due (deadline q) now"
    using Update_ok [OF q, of now] by simp
qed

section \<open>Histories\<close>

datatype timer_op = OAdd int | ODel uint64 | OUpdate int
datatype timer_out = Added uint64 | Deleted bool | Fired "uint64 list"

fun exec :: "HeapTimer \<Rightarrow> timer_op \<Rightarrow> timer_out \<times> HeapTimer" where
  "exec h (OAdd w) = (let (x, h') = AddAt h w in (Added x, h'))"
| "exec h (ODel x) = (let (b, h') = Del h x in (Deleted b, h'))"
| "exec h (OUpdate now) = (let (xs, h') = Update h now in (Fired xs, h'))"

fun run_ops :: "HeapTimer \<Rightarrow> timer_op list \<Rightarrow> timer_out list \<times> HeapTimer" where
  "run_ops h [] = ([], h)"
| "run_ops h (q # qs) = (let (r, h1) = exec h q; (rs, h2) = run_ops h1 qs in (r # rs, h2))"

text \<open>The specification: a finite map from ids to deadlines and the last id handed out.\<close>

type_synonym timer_spec = "nat \<times> (uint64 \<rightharpoonup> int)"

fun spec_step :: "timer_spec \<Rightarrow> timer_op \<Rightarrow> timer_out \<Rightarrow> timer_spec \<Rightarrow> bool" where
  "spec_step (n, d) (OAdd w) (Added x) (n', d') \<longleftrightarrow>
     unat x = n + 1 \<and> n' = n + 1 \<and> d x = None \<and> d' = d(x \<mapsto> w)"
| "spec_step (n, d) (ODel x) (Deleted b) (n', d') \<longleftrightarrow> n' = n \<and> (b \<longleftrightarrow> x \<in> dom d) \<and> d' = d(x := None)"
| "spec_step (n, d) (OUpdate now) (Fired xs) (n', d') \<longleftrightarrow>
     n' = n \<and> set xs = due d now \<and> distinct xs \<and> sorted (map (\<lambda>x. the (d x)) xs) \<and> d' = not_due d now"
| "spec_step _ _ _ _ \<longleftrightarrow> False"

inductive spec_trace :: "timer_spec \<Rightarrow> timer_op list \<Rightarrow> timer_out list \<Rightarrow> timer_spec \<Rightarrow> bool" where
  spec_nil: "spec_trace s [] [] s"
| spec_cons: "spec_step s q r s1 \<Longrightarrow> spec_trace s1 qs rs s2 \<Longrightarrow> spec_trace s (q # qs) (r # rs) s2"

definition spec_of :: "HeapTimer \<Rightarrow> timer_spec" where
  "spec_of h = (unat (timer_id h), deadline h)"

lemma Update_size: "heap_size (snd (Update h now)) \<le> heap_size h"
proof (induction h now rule: Update.induct)
  case (1 h now)
  show ?case
  proof (cases "heap_size h = 0 \<or> now < when_at h 0")
    case True then show ?thesis by (subst Update.simps) auto
  next
    case False
    obtain x h1 where pop: "pop_root h = (x, h1)" by force
    have "heap_size h1 = heap_size h - 1" using pop_root_size [of h] pop by simp
    moreover have "heap_size (snd (Update h1 now)) \<le> heap_size h1"
      using 1 False pop by simp
    moreover have "snd (Update h now) = snd (Update h1 now)"
      using False by (subst Update.simps) (simp add: pop split: prod.split)
    ultimately show ?thesis by simp
  qed
qed

lemma exec_step:
  assumes inv: "timer_inv h" and room: "heap_room h" and ex: "exec h q = (r, h')"
  shows "timer_inv h'" "spec_step (spec_of h) q r (spec_of h')"
    "heap_size h' \<le> heap_size h + 1" "unat (timer_id h') \<le> unat (timer_id h) + 1"
proof -
  have "timer_inv h' \<and> spec_step (spec_of h) q r (spec_of h') \<and>
    heap_size h' \<le> heap_size h + 1 \<and> unat (timer_id h') \<le> unat (timer_id h) + 1"
  proof (cases q)
    case (OAdd w)
    have u: "unat (timer_id h + 1) = unat (timer_id h) + 1"
      using room by (simp add: heap_room_def unat_word_ariths)
    show ?thesis using AddAt_ok [OF inv, of w] room ex
      by (auto simp: OAdd heap_room_def spec_of_def u split: prod.splits)
  next
    case (ODel x)
    then show ?thesis using Del_ok [OF inv, of x] ex
      by (auto simp: spec_of_def split: prod.splits)
  next
    case (OUpdate now)
    then show ?thesis using Update_ok [OF inv, of now] Update_size [of h now] ex
      by (auto simp: spec_of_def split: prod.splits)
  qed
  then show "timer_inv h'" "spec_step (spec_of h) q r (spec_of h')"
    "heap_size h' \<le> heap_size h + 1" "unat (timer_id h') \<le> unat (timer_id h) + 1" by auto
qed

lemma run_refines:
  "timer_inv h \<Longrightarrow> heap_size h + length qs < 2 ^ 31 \<Longrightarrow> unat (timer_id h) + length qs < 2 ^ 64 \<Longrightarrow>
   run_ops h qs = (rs, h') \<Longrightarrow> timer_inv h' \<and> spec_trace (spec_of h) qs rs (spec_of h')"
proof (induction qs arbitrary: h rs h')
  case Nil then show ?case by (auto intro: spec_nil)
next
  case (Cons q qs)
  obtain r h1 where e: "exec h q = (r, h1)" by force
  obtain rs' h2 where r: "run_ops h1 qs = (rs', h2)" by force
  have rs: "rs = r # rs'" "h' = h2" using Cons.prems(4) e r by auto
  have "heap_room h" using Cons.prems by (simp add: heap_room_def)
  note st = exec_step [OF Cons.prems(1) this e]
  have "timer_inv h2 \<and> spec_trace (spec_of h1) qs rs' (spec_of h2)"
    using Cons.IH [OF st(1) _ _ r] st(3,4) Cons.prems(2,3) by simp
  then show ?case using st(2) by (auto simp: rs intro: spec_cons)
qed

section \<open>Properties\<close>

text \<open>
  C27. Every history of insertions, deletions and updates on a fresh timer heap is a history of the
  finite map from ids to deadlines: \<open>AddAt\<close> hands out a fresh id, \<open>Del\<close> reports whether
  the id was pending, \<open>Update\<close> returns exactly the ids due, each once and earliest deadline first; and
  the heap's invariant (positions, id map, 4-ary order) holds at the end.
\<close>
theorem timer_history_refines_map:
  assumes "length qs < 2 ^ 31" and "run_ops HeapTimer_new qs = (rs, h')"
  shows "timer_inv h' \<and> spec_trace (0, Map.empty) qs rs (unat (timer_id h'), deadline h')"
proof -
  have "spec_of HeapTimer_new = (0, Map.empty)"
    using timer_inv_new(2) by (simp add: spec_of_def HeapTimer_new_def)
  then show ?thesis
    using run_refines [OF timer_inv_new(1) _ _ assms(2)] assms(1)
    by (simp add: spec_of_def HeapTimer_new_def)
qed

definition demo_ops :: "timer_op list" where
  "demo_ops = [OAdd 30, OAdd 10, OAdd 20, ODel 2, OUpdate 25]"

theorem timer_history_refines_map_witness:
  "timer_inv (snd (run_ops HeapTimer_new demo_ops)) \<and>
   spec_trace (0, Map.empty) demo_ops (fst (run_ops HeapTimer_new demo_ops))
     (unat (timer_id (snd (run_ops HeapTimer_new demo_ops))), deadline (snd (run_ops HeapTimer_new demo_ops)))"
  by (rule timer_history_refines_map) (simp_all add: demo_ops_def)



end
