(* ===== verification/Conversions.thy ===== *)
theory Conversions
imports NativeArgs
begin

text \<open>
  The conversions between C++ values and runtime values of \<open>state/fakelua.cpp\<close>: one function per
  C++ type in each direction. The integer conversions go through \<open>int64_t\<close>: widening into a value,
  truncation out of it. \<open>char\<close> is signed, \<open>short\<close>, \<open>int\<close> and \<open>long\<close> have 16, 32 and 64 bits
  (x86-64 Linux). A value whose tag does not fit is a thrown exception that names the tag.
\<close>

section \<open>From C++ to the runtime\<close>

definition NativeToFakeluaNil :: cvar where "NativeToFakeluaNil = VNil"

definition NativeToFakeluaBool :: "bool \<Rightarrow> cvar" where "NativeToFakeluaBool val = VBool val"

definition NativeToFakeluaIntHelper :: "int64 \<Rightarrow> cvar" where "NativeToFakeluaIntHelper val = VInt val"

definition NativeToFakeluaChar :: "8 word \<Rightarrow> cvar" where
  "NativeToFakeluaChar val = NativeToFakeluaIntHelper (scast val)"

definition NativeToFakeluaUchar :: "8 word \<Rightarrow> cvar" where
  "NativeToFakeluaUchar val = NativeToFakeluaIntHelper (ucast val)"

definition NativeToFakeluaShort :: "16 word \<Rightarrow> cvar" where
  "NativeToFakeluaShort val = NativeToFakeluaIntHelper (scast val)"

definition NativeToFakeluaUshort :: "16 word \<Rightarrow> cvar" where
  "NativeToFakeluaUshort val = NativeToFakeluaIntHelper (ucast val)"

definition NativeToFakeluaInt :: "int64 \<Rightarrow> cvar" where
  "NativeToFakeluaInt val = NativeToFakeluaIntHelper val"

definition NativeToFakeluaUint :: "32 word \<Rightarrow> cvar" where
  "NativeToFakeluaUint val = NativeToFakeluaIntHelper (ucast val)"

definition NativeToFakeluaLong :: "int64 \<Rightarrow> cvar" where
  "NativeToFakeluaLong val = NativeToFakeluaIntHelper val"

definition NativeToFakeluaUlong :: "uint64 \<Rightarrow> cvar" where
  "NativeToFakeluaUlong val = NativeToFakeluaIntHelper val"

definition NativeToFakeluaLonglong :: "int64 \<Rightarrow> cvar" where
  "NativeToFakeluaLonglong val = NativeToFakeluaIntHelper val"

definition NativeToFakeluaUlonglong :: "uint64 \<Rightarrow> cvar" where
  "NativeToFakeluaUlonglong val = NativeToFakeluaIntHelper val"

definition NativeToFakeluaFloat :: "double \<Rightarrow> cvar" where "NativeToFakeluaFloat val = VFloat val"

definition NativeToFakeluaDouble :: "double \<Rightarrow> cvar" where "NativeToFakeluaDouble val = VFloat val"

text \<open>A null \<open>const char *\<close> is \<open>None\<close>.\<close>

definition NativeToFakeluaCstr :: "string option \<Rightarrow> cvar" where
  "NativeToFakeluaCstr val = VString (case val of Some s \<Rightarrow> s | None \<Rightarrow> [])"

definition NativeToFakeluaStr :: "string option \<Rightarrow> cvar" where
  "NativeToFakeluaStr val = NativeToFakeluaCstr val"

definition NativeToFakeluaString :: "string \<Rightarrow> cvar" where "NativeToFakeluaString val = VString val"

definition NativeToFakeluaStringView :: "string \<Rightarrow> cvar" where "NativeToFakeluaStringView val = VString val"

section \<open>From the runtime to C++\<close>

definition conversion_failed :: "string \<Rightarrow> cvar \<Rightarrow> exn" where
  "conversion_failed func_name v = func_name @ '' failed, type is '' @ VarTypeToString (Type v)"

fun FakeluaToNativeBool :: "cvar \<Rightarrow> bool result" where
  "FakeluaToNativeBool (VBool b) = Inr b"
| "FakeluaToNativeBool v = Inl (conversion_failed ''FakeluaToNativeBool'' v)"

fun FakeluaToNativeIntHelper :: "string \<Rightarrow> cvar \<Rightarrow> int64 result" where
  "FakeluaToNativeIntHelper func_name (VInt i) = Inr i"
| "FakeluaToNativeIntHelper func_name v = Inl (conversion_failed func_name v)"

text \<open>The \<open>static_cast<T>\<close> of the helper: truncation to the width of \<open>T\<close>.\<close>

definition narrowed :: "int64 result \<Rightarrow> 'a::len word result" where
  "narrowed r = rbind r (\<lambda>i. Inr (ucast i))"

definition FakeluaToNativeChar :: "cvar \<Rightarrow> 8 word result" where
  "FakeluaToNativeChar val = narrowed (FakeluaToNativeIntHelper ''FakeluaToNativeChar'' val)"

definition FakeluaToNativeUchar :: "cvar \<Rightarrow> 8 word result" where
  "FakeluaToNativeUchar val = narrowed (FakeluaToNativeIntHelper ''FakeluaToNativeUchar'' val)"

definition FakeluaToNativeShort :: "cvar \<Rightarrow> 16 word result" where
  "FakeluaToNativeShort val = narrowed (FakeluaToNativeIntHelper ''FakeluaToNativeShort'' val)"

definition FakeluaToNativeUshort :: "cvar \<Rightarrow> 16 word result" where
  "FakeluaToNativeUshort val = narrowed (FakeluaToNativeIntHelper ''FakeluaToNativeUshort'' val)"

definition FakeluaToNativeInt :: "cvar \<Rightarrow> 32 word result" where
  "FakeluaToNativeInt val = narrowed (FakeluaToNativeIntHelper ''FakeluaToNativeInt'' val)"

definition FakeluaToNativeUint :: "cvar \<Rightarrow> 32 word result" where
  "FakeluaToNativeUint val = narrowed (FakeluaToNativeIntHelper ''FakeluaToNativeUint'' val)"

definition FakeluaToNativeLong :: "cvar \<Rightarrow> int64 result" where
  "FakeluaToNativeLong val = FakeluaToNativeIntHelper ''FakeluaToNativeLong'' val"

definition FakeluaToNativeUlong :: "cvar \<Rightarrow> uint64 result" where
  "FakeluaToNativeUlong val = FakeluaToNativeIntHelper ''FakeluaToNativeUlong'' val"

definition FakeluaToNativeLonglong :: "cvar \<Rightarrow> int64 result" where
  "FakeluaToNativeLonglong val = FakeluaToNativeIntHelper ''FakeluaToNativeLonglong'' val"

definition FakeluaToNativeUlonglong :: "cvar \<Rightarrow> uint64 result" where
  "FakeluaToNativeUlonglong val = FakeluaToNativeIntHelper ''FakeluaToNativeUlonglong'' val"

fun FakeluaToNativeDouble :: "cvar \<Rightarrow> double result" where
  "FakeluaToNativeDouble (VFloat d) = Inr d"
| "FakeluaToNativeDouble (VInt i) = Inr (i64_to_double i)"
| "FakeluaToNativeDouble v = Inl (conversion_failed ''FakeluaToNativeDouble'' v)"

fun FakeluaToNativeString :: "cvar \<Rightarrow> string result" where
  "FakeluaToNativeString (VString s) = Inr s"
| "FakeluaToNativeString (VStringId s) = Inr s"
| "FakeluaToNativeString v = Inl (conversion_failed ''FakeluaToNativeString'' v)"

fun FakeluaToNativeStringView :: "cvar \<Rightarrow> string result" where
  "FakeluaToNativeStringView (VString s) = Inr s"
| "FakeluaToNativeStringView (VStringId s) = Inr s"
| "FakeluaToNativeStringView v = Inl (conversion_failed ''FakeluaToNativeStringview'' v)"

section \<open>Multi values\<close>

definition AllocMultiCVar :: "nat \<Rightarrow> cvar" where
  "AllocMultiCVar n = VMulti (replicate n VNil)"

definition SetMultiCVarElement :: "cvar \<Rightarrow> int \<Rightarrow> cvar \<Rightarrow> cvar result" where
  "SetMultiCVarElement multi idx val =
     (case multi of
        VMulti vs \<Rightarrow>
          if idx < 0 \<or> int (length vs) \<le> idx
          then Inl (''SetMultiCVarElement: idx '' @ to_string_int idx @ '' out of range'')
          else Inr (VMulti (vs[nat idx := val]))
      | _ \<Rightarrow> Inl ''SetMultiCVarElement: CVar is not Multi'')"

definition GetMultiCVarElement :: "cvar \<Rightarrow> int \<Rightarrow> cvar result" where
  "GetMultiCVarElement multi idx =
     (case multi of
        VMulti vs \<Rightarrow>
          if idx < 0 \<or> int (length vs) \<le> idx
          then Inl (''GetMultiCVarElement: idx '' @ to_string_int idx @ '' out of range'')
          else Inr (vs ! nat idx)
      | _ \<Rightarrow> Inl ''GetMultiCVarElement: CVar is not Multi'')"

definition GetMultiCVarCount :: "cvar \<Rightarrow> int result" where
  "GetMultiCVarCount multi =
     (case multi of VMulti vs \<Rightarrow> Inr (int (length vs)) | _ \<Rightarrow> Inl ''GetMultiCVarCount: CVar is not Multi'')"

section \<open>Arguments of native functions\<close>

definition GetNativeIntArg :: "cvar list \<Rightarrow> nat \<Rightarrow> int64 \<Rightarrow> int64" where
  "GetNativeIntArg args idx dflt = CVarToInteger (GetNativeArg args idx) dflt"

definition GetNativeFloatArg :: "cvar list \<Rightarrow> nat \<Rightarrow> double \<Rightarrow> double" where
  "GetNativeFloatArg args idx dflt = CVarToNumber (GetNativeArg args idx) dflt"

definition GetNativeBoolArg :: "cvar list \<Rightarrow> nat \<Rightarrow> bool \<Rightarrow> bool" where
  "GetNativeBoolArg args idx dflt = CVarToBool (GetNativeArg args idx) dflt"

definition GetNativeStringArg :: "cvar list \<Rightarrow> nat \<Rightarrow> string \<Rightarrow> string" where
  "GetNativeStringArg args idx dflt = CVarToString (GetNativeArg args idx) dflt"

section \<open>Closure calls\<close>

text \<open>
  The arguments \<open>DispatchCallClosure\<close> passes on: missing ones are \<open>Nil\<close>, surplus ones are dropped, or
  packed into a multi value in the last slot of a vararg function. \<open>kMaxFunctionInputParams\<close> is 32.
  The result is the padded argument list, or the exception.
\<close>

definition pad_arg :: "cvar list \<Rightarrow> nat \<Rightarrow> cvar" where
  "pad_arg args i = (if i < length args then args ! i else VNil)"

definition kMaxFunctionInputParams :: int where "kMaxFunctionInputParams = 32"

definition closure_args :: "bool \<Rightarrow> int \<Rightarrow> cvar list \<Rightarrow> cvar list result" where
  "closure_args is_vararg expected args =
     (if expected < 0 \<or> kMaxFunctionInputParams < expected then Inl ''too many arguments''
      else if is_vararg then
        let fixed = (if 0 < expected then nat expected - 1 else 0) in
        Inr (map (pad_arg args) [0..<fixed] @ [VMulti (drop fixed args)])
      else Inr (map (pad_arg args) [0..<nat expected]))"

section \<open>Properties\<close>

lemma ucast_scast_narrow:
  "LENGTH('a::len) \<le> LENGTH('b::len) \<Longrightarrow> (ucast (scast (w :: 'a word) :: 'b word) :: 'a word) = w"
  by (rule bit_word_eqI) (simp add: bit_unsigned_iff bit_signed_iff)

lemma ucast_ucast_narrow:
  "LENGTH('a::len) \<le> LENGTH('b::len) \<Longrightarrow> (ucast (ucast (w :: 'a word) :: 'b word) :: 'a word) = w"
  by (rule bit_word_eqI) (auto simp: bit_unsigned_iff dest: bit_imp_le_length)

text \<open>
  Every C++ integer, boolean, double and string survives the trip into the runtime and back, at
  every width, signed or not.
\<close>
theorem native_conversions_roundtrip:
  "FakeluaToNativeBool (NativeToFakeluaBool b) = Inr b \<and>
   FakeluaToNativeChar (NativeToFakeluaChar c) = Inr c \<and>
   FakeluaToNativeUchar (NativeToFakeluaUchar c) = Inr c \<and>
   FakeluaToNativeShort (NativeToFakeluaShort h) = Inr h \<and>
   FakeluaToNativeUshort (NativeToFakeluaUshort h) = Inr h \<and>
   FakeluaToNativeInt (NativeToFakeluaInt (scast i)) = Inr i \<and>
   FakeluaToNativeUint (NativeToFakeluaUint i) = Inr i \<and>
   FakeluaToNativeLong (NativeToFakeluaLong l) = Inr l \<and>
   FakeluaToNativeUlong (NativeToFakeluaUlong l) = Inr l \<and>
   FakeluaToNativeLonglong (NativeToFakeluaLonglong l) = Inr l \<and>
   FakeluaToNativeUlonglong (NativeToFakeluaUlonglong l) = Inr l \<and>
   FakeluaToNativeDouble (NativeToFakeluaDouble d) = Inr d \<and>
   FakeluaToNativeString (NativeToFakeluaString s) = Inr s \<and>
   FakeluaToNativeStringView (NativeToFakeluaStringView s) = Inr s"
  by (simp add: FakeluaToNativeChar_def NativeToFakeluaChar_def FakeluaToNativeUchar_def NativeToFakeluaUchar_def
      FakeluaToNativeShort_def NativeToFakeluaShort_def FakeluaToNativeUshort_def NativeToFakeluaUshort_def
      FakeluaToNativeInt_def NativeToFakeluaInt_def FakeluaToNativeUint_def NativeToFakeluaUint_def
      FakeluaToNativeLong_def NativeToFakeluaLong_def FakeluaToNativeUlong_def NativeToFakeluaUlong_def
      FakeluaToNativeLonglong_def NativeToFakeluaLonglong_def FakeluaToNativeUlonglong_def NativeToFakeluaUlonglong_def
      NativeToFakeluaBool_def NativeToFakeluaDouble_def NativeToFakeluaString_def NativeToFakeluaStringView_def
      NativeToFakeluaIntHelper_def narrowed_def ucast_scast_narrow ucast_ucast_narrow)

text \<open>
  A closure call never fails for the number of its arguments: a function that declares up to 32
  parameters is entered with exactly its declared number, missing ones as \<open>Nil\<close>, surplus ones dropped
  or, for a vararg function, collected in order in the last slot.
\<close>
theorem closure_call_arity:
  assumes "0 \<le> expected" and "expected \<le> kMaxFunctionInputParams"
  shows "\<exists>out. closure_args is_vararg expected args = Inr out \<and>
    length out = (if is_vararg then max 1 (nat expected) else nat expected) \<and>
    (\<forall>i < (if is_vararg then nat expected - 1 else nat expected).
       out ! i = (if i < length args then args ! i else VNil)) \<and>
    (is_vararg \<longrightarrow> last out = VMulti (drop (nat expected - 1) args))"
  using assms by (cases "0 < expected")
    (auto simp: closure_args_def Let_def pad_arg_def nth_append)

theorem closure_call_arity_witness:
  "\<exists>out. closure_args True 2 [VInt 1, VInt 2, VInt 3] = Inr out \<and>
    length out = (if True then max 1 (nat 2) else nat 2) \<and>
    (\<forall>i < (if True then nat 2 - 1 else nat 2).
       out ! i = (if i < length [VInt 1, VInt 2, VInt 3] then [VInt 1, VInt 2, VInt 3] ! i else VNil)) \<and>
    (True \<longrightarrow> last out = VMulti (drop (nat 2 - 1) [VInt 1, VInt 2, VInt 3]))"
  by (rule closure_call_arity) (simp_all add: kMaxFunctionInputParams_def)

end
