(* ===== verification/Timer.thy ===== *)
theory Timer
imports HeapTimerProps Conversions
begin

text \<open>
  The timer library of \<open>native/timer/native_timer.cpp\<close>: the per-state \<open>TimerState\<close>, \<open>timer.set\<close>,
  \<open>timer.del\<close>, \<open>timer.set_heartbeat\<close>, and \<open>TickAll\<close>, which fires what is due. A callback may
  run any Lua code: it can set and delete timers, call \<open>runtime.tick\<close> again, or throw. The world is
  the timer state (\<open>None\<close> until the first timer call creates it) together with the rest \<open>'w\<close> of
  the VM; the VM's function tables and the execution of a function are parameters. Every reading of the
  clock is an argument, in nanoseconds.
\<close>

section \<open>State\<close>

record TimerState =
  theap :: HeapTimer
  callbacks :: "uint64 \<rightharpoonup> string"
  heartbeat_cb :: string
  heartbeat_next :: int
  heartbeat_interval_ms :: uint32
  heartbeat_active :: bool
  in_tick :: bool
  cancelled_this_tick :: "uint64 set"

definition TimerState_new :: TimerState where
  "TimerState_new = \<lparr>theap = HeapTimer_new, callbacks = Map.empty, heartbeat_cb = [], heartbeat_next = 0,
     heartbeat_interval_ms = 0, heartbeat_active = False, in_tick = False, cancelled_this_tick = {}\<rparr>"

type_synonym 'w tworld = "TimerState option \<times> 'w"
type_synonym ('a, 'w) tstep = "'w tworld \<Rightarrow> 'a result \<times> 'w tworld"

definition GetTimerState :: "'w tworld \<Rightarrow> TimerState" where
  "GetTimerState w = (case fst w of Some ts \<Rightarrow> ts | None \<Rightarrow> TimerState_new)"

lemma GetTimerState_simps [simp]: "GetTimerState (Some ts, r) = ts" "GetTimerState (None, r) = TimerState_new"
  by (simp_all add: GetTimerState_def)

datatype JITType = JIT_TCC | JIT_GCC | JIT_INTERP

text \<open>
  The VM: \<open>GetFunction\<close> with its TCC and GCC addresses (0 for null; \<open>None\<close> when the function is
  empty), whether a native function with a callback exists, and the two ways to run code.
\<close>

record 'w tick_env =
  te_function :: "'w \<Rightarrow> string \<Rightarrow> (ptr \<times> ptr) option"
  te_native :: "'w \<Rightarrow> string \<Rightarrow> bool"
  te_dispatch :: "ptr \<Rightarrow> JITType \<Rightarrow> cvar list \<Rightarrow> (cvar, 'w) tstep"
  te_native_call :: "string \<Rightarrow> cvar list \<Rightarrow> (cvar, 'w) tstep"

section \<open>Firing\<close>

definition timer_args :: "uint64 \<Rightarrow> cvar list" where
  "timer_args tid = [NativeToFakeluaString ''timer'', NativeToFakeluaInt tid]"

definition CallLuaTimerEvent :: "'w tick_env \<Rightarrow> string \<Rightarrow> uint64 \<Rightarrow> (cvar, 'w) tstep" where
  "CallLuaTimerEvent env func_name tid w =
     (if func_name = [] then (Inr VNil, w)
      else
        let (addr, jit) = (case te_function env (snd w) func_name of
               Some (tcc, gcc) \<Rightarrow> if tcc \<noteq> 0 then (tcc, JIT_TCC) else (gcc, JIT_GCC)
             | None \<Rightarrow> (0, JIT_TCC))
        in if addr \<noteq> 0 then te_dispatch env addr jit (timer_args tid) w
           else if te_native env (snd w) func_name then te_native_call env func_name (timer_args tid) w
           else (Inr VNil, w))"

text \<open>The callbacks of the expired ids, taken out of the map before any of them runs.\<close>

fun take_callbacks :: "uint64 list \<Rightarrow> (uint64 \<rightharpoonup> string) \<Rightarrow> (uint64 \<times> string) list \<times> (uint64 \<rightharpoonup> string)" where
  "take_callbacks [] m = ([], m)"
| "take_callbacks (x # xs) m =
     (case m x of
        Some cb \<Rightarrow> let (fire, m') = take_callbacks xs (m(x := None)) in ((x, cb) # fire, m')
      | None \<Rightarrow> take_callbacks xs m)"

fun fire_all :: "'w tick_env \<Rightarrow> (uint64 \<times> string) list \<Rightarrow> (unit, 'w) tstep" where
  "fire_all env [] w = (Inr (), w)"
| "fire_all env ((x, cb) # rest) w =
     (if x \<in> cancelled_this_tick (GetTimerState w) then fire_all env rest w
      else case CallLuaTimerEvent env cb x w of
          (Inl e, w') \<Rightarrow> (Inl e, w')
        | (Inr _, w') \<Rightarrow> fire_all env rest w')"

definition ms :: "uint32 \<Rightarrow> int" where "ms d = int (unat d) * 1000000"

text \<open>The next deadline is advanced before the callback runs.\<close>

definition heartbeat :: "'w tick_env \<Rightarrow> int \<Rightarrow> (unit, 'w) tstep" where
  "heartbeat env now w =
     (let ts = GetTimerState w in
      if heartbeat_active ts \<and> heartbeat_next ts \<le> now then
        let nxt = heartbeat_next ts + ms (heartbeat_interval_ms ts);
            nxt = (if nxt < now then now + ms (heartbeat_interval_ms ts) else nxt)
        in case CallLuaTimerEvent env (heartbeat_cb ts) 0 (Some (ts\<lparr>heartbeat_next := nxt\<rparr>), snd w) of
             (Inl e, w') \<Rightarrow> (Inl e, w')
           | (Inr _, w') \<Rightarrow> (Inr (), w')
      else (Inr (), w))"

definition end_tick :: "'w tworld \<Rightarrow> 'w tworld" where
  "end_tick w = (Some ((GetTimerState w)\<lparr>in_tick := False, cancelled_this_tick := {}\<rparr>), snd w)"

text \<open>\<open>now\<close> is the clock at entry, \<open>now_u\<close> the later reading inside \<open>HeapTimer::Update\<close>.\<close>

definition TickAll :: "'w tick_env \<Rightarrow> int \<Rightarrow> int \<Rightarrow> (unit, 'w) tstep" where
  "TickAll env now now_u w =
     (case fst w of
        None \<Rightarrow> (Inr (), w)
      | Some ts \<Rightarrow>
          if in_tick ts then (Inr (), w)
          else
            let (expired, h) = Update (theap ts) now_u;
                (to_fire, cbs) = take_callbacks expired (callbacks ts);
                ts1 = ts\<lparr>in_tick := True, cancelled_this_tick := {}, theap := h, callbacks := cbs\<rparr>;
                (r, w') = (case fire_all env to_fire (Some ts1, snd w) of
                             (Inl e, w') \<Rightarrow> (Inl e, w')
                           | (Inr _, w') \<Rightarrow> heartbeat env now w')
            in (r, end_tick w'))"

section \<open>The Lua functions\<close>

definition string_arg :: "nat \<Rightarrow> string \<Rightarrow> cvar \<Rightarrow> string result" where
  "string_arg argno fname v =
     (case v of
        VString s \<Rightarrow> Inr s
      | VStringId s \<Rightarrow> Inr s
      | _ \<Rightarrow> Inl (bad_argument argno fname ''func_name must be a string''))"

definition TimerSet :: "cvar list \<Rightarrow> int \<Rightarrow> (cvar, 'w) tstep" where
  "TimerSet args now w =
     (if length args < 2 then (Inl (bad_argument 1 ''timer.set'' ''delay_ms and func_name expected''), w)
      else
        let delay_val = CVarToInteger (GetNativeArg args 0) (-1) in
        if sint delay_val < 0 then (Inl (bad_argument 1 ''timer.set'' ''delay_ms must be a non-negative integer''), w)
        else if 2 ^ 32 - 1 < sint delay_val then (Inl (bad_argument 1 ''timer.set'' ''delay_ms too large''), w)
        else case string_arg 2 ''timer.set'' (GetNativeArg args 1) of
            Inl e \<Rightarrow> (Inl e, w)
          | Inr fname \<Rightarrow>
              let ts = GetTimerState w; (tid, h) = Add (theap ts) now (ucast delay_val) in
              if tid = 0 then (Inr NativeToFakeluaNil, (Some (ts\<lparr>theap := h\<rparr>), snd w))
              else (Inr (NativeToFakeluaInt tid),
                    (Some (ts\<lparr>theap := h, callbacks := (callbacks ts)(tid \<mapsto> fname)\<rparr>), snd w)))"

definition TimerDel :: "cvar list \<Rightarrow> (cvar, 'w) tstep" where
  "TimerDel args w =
     (if length args < 1 then (Inl (bad_argument 1 ''timer.del'' ''timer id expected''), w)
      else
        let id_val = CVarToInteger (GetNativeArg args 0) (-1) in
        if sint id_val < 0 then (Inl (bad_argument 1 ''timer.del'' ''timer id must be a non-negative integer''), w)
        else
          let ts = GetTimerState w; (ok, h) = Del (theap ts) id_val;
              ok = (ok \<or> callbacks ts id_val \<noteq> None);
              ts = ts\<lparr>theap := h, callbacks := (callbacks ts)(id_val := None)\<rparr>;
              ts = (if in_tick ts then ts\<lparr>cancelled_this_tick := insert id_val (cancelled_this_tick ts)\<rparr> else ts)
          in (Inr (NativeToFakeluaBool ok), (Some ts, snd w)))"

definition TimerSetHeartbeat :: "cvar list \<Rightarrow> int \<Rightarrow> (cvar, 'w) tstep" where
  "TimerSetHeartbeat args now w =
     (if length args < 2 then (Inl (bad_argument 1 ''timer.set_heartbeat'' ''interval_ms and func_name expected''), w)
      else
        let interval_val = CVarToInteger (GetNativeArg args 0) (-1) in
        if sint interval_val \<le> 0 then
          (Inl (bad_argument 1 ''timer.set_heartbeat'' ''interval_ms must be a positive integer''), w)
        else if 2 ^ 32 - 1 < sint interval_val then
          (Inl (bad_argument 1 ''timer.set_heartbeat'' ''interval_ms too large''), w)
        else case string_arg 2 ''timer.set_heartbeat'' (GetNativeArg args 1) of
            Inl e \<Rightarrow> (Inl e, w)
          | Inr fname \<Rightarrow>
              let ts = GetTimerState w; iv = ucast interval_val in
              (Inr NativeToFakeluaNil,
               (Some (ts\<lparr>heartbeat_cb := fname, heartbeat_interval_ms := iv, heartbeat_next := now + ms iv,
                         heartbeat_active := True\<rparr>), snd w)))"

section \<open>The invariant of the timer state\<close>

text \<open>Heap and callback map hold the same ids.\<close>

definition timer_wf :: "TimerState \<Rightarrow> bool" where
  "timer_wf ts \<longleftrightarrow> timer_inv (theap ts) \<and> dom (callbacks ts) = dom (deadline (theap ts))"

definition world_wf :: "'w tworld \<Rightarrow> bool" where
  "world_wf w \<longleftrightarrow> timer_wf (GetTimerState w)"

lemma timer_wf_new: "timer_wf TimerState_new"
  using timer_inv_new by (simp add: timer_wf_def TimerState_new_def)

text \<open>What a callback is assumed to do to the timers: call the library.\<close>

definition callbacks_keep :: "'w tick_env \<Rightarrow> bool" where
  "callbacks_keep env \<longleftrightarrow>
     (\<forall>a j args w. world_wf w \<longrightarrow> world_wf (snd (te_dispatch env a j args w))) \<and>
     (\<forall>f args w. world_wf w \<longrightarrow> world_wf (snd (te_native_call env f args w)))"

lemma TimerSet_wf:
  assumes "world_wf w" "heap_room (theap (GetTimerState w))"
  shows "world_wf (snd (TimerSet args now w))"
proof (cases "\<exists>tid h fname d. Add (theap (GetTimerState w)) now d = (tid, h) \<and>
    snd (TimerSet args now w) = (Some (if tid = 0 then (GetTimerState w)\<lparr>theap := h\<rparr>
       else (GetTimerState w)\<lparr>theap := h, callbacks := (callbacks (GetTimerState w))(tid \<mapsto> fname)\<rparr>), snd w)")
  case True
  then obtain tid h fname d where a: "Add (theap (GetTimerState w)) now d = (tid, h)"
    and s: "snd (TimerSet args now w) = (Some (if tid = 0 then (GetTimerState w)\<lparr>theap := h\<rparr>
       else (GetTimerState w)\<lparr>theap := h, callbacks := (callbacks (GetTimerState w))(tid \<mapsto> fname)\<rparr>), snd w)"
    by blast
  have wf: "timer_inv (theap (GetTimerState w))" "dom (callbacks (GetTimerState w)) = dom (deadline (theap (GetTimerState w)))"
    using assms(1) by (auto simp: world_wf_def timer_wf_def)
  have r: "heap_size (theap (GetTimerState w)) < 2 ^ 31 - 1" "unat (timer_id (theap (GetTimerState w))) < 2 ^ 64 - 1"
    using assms(2) by (auto simp: heap_room_def)
  have tid: "tid = timer_id (theap (GetTimerState w)) + 1"
    and ok: "timer_inv h" "dom (deadline h) = insert tid (dom (deadline (theap (GetTimerState w))))"
    using AddAt_ok [OF wf(1) r, of "now + int (unat d) * 1000000"] a by (auto simp: Add_def)
  have "unat tid = unat (timer_id (theap (GetTimerState w))) + 1"
    using r(2) by (simp add: tid unat_word_ariths)
  then have "tid \<noteq> 0" by auto
  then show ?thesis using s ok wf(2) by (simp add: world_wf_def timer_wf_def)
next
  case False
  then have "snd (TimerSet args now w) = w"
    unfolding TimerSet_def Let_def by (auto split: sum.splits prod.splits if_splits)
  then show ?thesis using assms(1) by simp
qed

lemma TimerDel_wf:
  assumes "world_wf w"
  shows "world_wf (snd (TimerDel args w))"
proof -
  have wf: "timer_inv (theap (GetTimerState w))" "dom (callbacks (GetTimerState w)) = dom (deadline (theap (GetTimerState w)))"
    using assms(1) by (auto simp: world_wf_def timer_wf_def)
  define x where "x = CVarToInteger (GetNativeArg args 0) (-1)"
  obtain ok h where d: "Del (theap (GetTimerState w)) x = (ok, h)" by force
  have "timer_inv h" "deadline h = (deadline (theap (GetTimerState w)))(x := None)"
    using Del_ok(1,3) [OF wf(1), of x] d by auto
  then show ?thesis
    using assms wf(2) by (auto simp: TimerDel_def Let_def world_wf_def timer_wf_def d x_def [symmetric])
qed

lemma TimerSetHeartbeat_wf: "world_wf w \<Longrightarrow> world_wf (snd (TimerSetHeartbeat args now w))"
  by (auto simp: TimerSetHeartbeat_def Let_def world_wf_def timer_wf_def split: sum.splits)

lemma CallLuaTimerEvent_wf:
  "callbacks_keep env \<Longrightarrow> world_wf w \<Longrightarrow> world_wf (snd (CallLuaTimerEvent env f x w))"
  unfolding callbacks_keep_def CallLuaTimerEvent_def Let_def
  by (simp split: option.split prod.split del: split_paired_All split_paired_Ex)

lemma fire_all_wf:
  "callbacks_keep env \<Longrightarrow> world_wf w \<Longrightarrow> world_wf (snd (fire_all env xs w))"
proof (induction env xs w rule: fire_all.induct)
  case (2 env x cb rest w)
  have "world_wf (snd (CallLuaTimerEvent env cb x w))" using CallLuaTimerEvent_wf 2(3,4) .
  then show ?case using 2 by (auto split: prod.splits sum.splits)
qed simp

lemma heartbeat_wf:
  assumes "callbacks_keep env" "world_wf w"
  shows "world_wf (snd (heartbeat env now w))"
proof -
  have "world_wf (Some ((GetTimerState w)\<lparr>heartbeat_next := n\<rparr>), snd w)" for n
    using assms(2) by (simp add: world_wf_def timer_wf_def)
  then have "world_wf (snd (CallLuaTimerEvent env f x (Some ((GetTimerState w)\<lparr>heartbeat_next := n\<rparr>), snd w)))" for f x n
    using CallLuaTimerEvent_wf [OF assms(1)] by blast
  then show ?thesis using assms(2)
    unfolding heartbeat_def Let_def by (auto split: prod.splits sum.splits) (metis snd_conv)+
qed

lemma take_callbacks_spec:
  "distinct xs \<Longrightarrow> set xs \<subseteq> dom m \<Longrightarrow>
   take_callbacks xs m = (map (\<lambda>x. (x, the (m x))) xs, m |` (- set xs))"
proof (induction xs arbitrary: m)
  case Nil then show ?case by (simp add: restrict_map_def)
next
  case (Cons x xs)
  then obtain cb where cb: "m x = Some cb" by auto
  have "take_callbacks xs (m(x := None)) = (map (\<lambda>y. (y, the ((m(x := None)) y))) xs, (m(x := None)) |` (- set xs))"
    using Cons.prems by (intro Cons.IH) auto
  moreover have "map (\<lambda>y. (y, the ((m(x := None)) y))) xs = map (\<lambda>y. (y, the (m y))) xs"
    using Cons.prems by (intro map_cong) auto
  moreover have "(m(x := None)) |` (- set xs) = m |` (- set (x # xs))"
    by (auto simp: restrict_map_def fun_eq_iff)
  ultimately show ?case using cb by simp
qed

text \<open>What the batch of a tick is, and the state in which it starts to run.\<close>

lemma tick_batch:
  assumes wf: "timer_wf ts" and u: "Update (theap ts) now_u = (expired, h)"
    and t: "take_callbacks expired (callbacks ts) = (to_fire, cbs)"
  shows "to_fire = map (\<lambda>x. (x, the (callbacks ts x))) expired"
    "timer_wf (ts\<lparr>in_tick := b, cancelled_this_tick := c, theap := h, callbacks := cbs\<rparr>)"
    "set expired = due (deadline (theap ts)) now_u" "distinct expired"
    "sorted (map (\<lambda>x. the (deadline (theap ts) x)) expired)"
    "deadline h = not_due (deadline (theap ts)) now_u"
proof -
  have inv: "timer_inv (theap ts)" and d: "dom (callbacks ts) = dom (deadline (theap ts))"
    using wf by (auto simp: timer_wf_def)
  have up: "timer_inv h" "set expired = due (deadline (theap ts)) now_u" "distinct expired"
    "sorted (map (\<lambda>x. the (deadline (theap ts) x)) expired)" "deadline h = not_due (deadline (theap ts)) now_u"
    using Update_ok [OF inv, of now_u] u by auto
  then show "set expired = due (deadline (theap ts)) now_u" "distinct expired"
    "sorted (map (\<lambda>x. the (deadline (theap ts) x)) expired)" "deadline h = not_due (deadline (theap ts)) now_u" by auto
  have "set expired \<subseteq> dom (callbacks ts)" unfolding d up(2) by (auto simp: due_def)
  from take_callbacks_spec [OF up(3) this] t
  have f: "to_fire = map (\<lambda>x. (x, the (callbacks ts x))) expired" and c: "cbs = callbacks ts |` (- set expired)" by auto
  show "to_fire = map (\<lambda>x. (x, the (callbacks ts x))) expired" by (rule f)
  have "dom cbs = dom (deadline h)" unfolding c up(5) not_due_def up(2) using d by auto
  then show "timer_wf (ts\<lparr>in_tick := b, cancelled_this_tick := c, theap := h, callbacks := cbs\<rparr>)"
    using up(1) by (simp add: timer_wf_def)
qed

section \<open>Properties\<close>

lemma TickAll_unfold:
  assumes "\<not> in_tick ts" "Update (theap ts) now_u = (expired, h)" "take_callbacks expired (callbacks ts) = (to_fire, cbs)"
  shows "TickAll env now now_u (Some ts, r) =
    (let w1 = (Some (ts\<lparr>in_tick := True, cancelled_this_tick := {}, theap := h, callbacks := cbs\<rparr>), r);
         p = (case fire_all env to_fire w1 of (Inl e, w') \<Rightarrow> (Inl e, w') | (Inr _, w') \<Rightarrow> heartbeat env now w')
     in (fst p, end_tick (snd p)))"
  using assms by (simp add: TickAll_def Let_def split: prod.split)

lemma end_tick_wf: "world_wf w \<Longrightarrow> world_wf (end_tick w)"
  by (simp add: end_tick_def world_wf_def timer_wf_def)

text \<open>
  C29. A tick leaves the timer state well formed (heap invariant, heap and callback map with the same ids)
  and ready for the next tick, on normal return and when a callback throws, whatever the callbacks do
  through the timer functions; a tick started by a callback of a running tick does nothing.
\<close>
theorem tick_keeps_timers:
  assumes "callbacks_keep env" and "world_wf w"
  shows "world_wf (snd (TickAll env now now_u w)) \<and>
    (\<forall>ts. fst w = Some ts \<longrightarrow>
       (if in_tick ts then TickAll env now now_u w = (Inr (), w)
        else in_tick (GetTimerState (snd (TickAll env now now_u w))) = False \<and>
             cancelled_this_tick (GetTimerState (snd (TickAll env now now_u w))) = {}))"
proof (cases "fst w")
  case None
  then show ?thesis using assms by (simp add: TickAll_def)
next
  case (Some ts)
  then obtain r where w: "w = (Some ts, r)" by (cases w) auto
  show ?thesis
  proof (cases "in_tick ts")
    case True
    then show ?thesis using assms by (simp add: w TickAll_def)
  next
    case False
    obtain expired h where u: "Update (theap ts) now_u = (expired, h)" by force
    obtain to_fire cbs where t: "take_callbacks expired (callbacks ts) = (to_fire, cbs)" by force
    have "timer_wf ts" using assms(2) by (simp add: w world_wf_def)
    from tick_batch(2) [OF this u t]
    have w1: "world_wf (Some (ts\<lparr>in_tick := True, cancelled_this_tick := {}, theap := h, callbacks := cbs\<rparr>), r)"
      by (simp add: world_wf_def)
    have "world_wf (snd (case fire_all env to_fire w1 of (Inl e, w') \<Rightarrow> (Inl e, w') | (Inr _, w') \<Rightarrow> heartbeat env now w'))"
      if "world_wf w1" for w1
      using fire_all_wf [OF assms(1) that, of to_fire] heartbeat_wf [OF assms(1)]
      by (auto split: prod.splits sum.splits)
    then show ?thesis
      using False w1 end_tick_wf unfolding w TickAll_unfold [OF False u t] Let_def
      by (simp add: end_tick_def world_wf_def timer_wf_def)
  qed
qed

definition demo_env :: "(cvar list list) tick_env" where
  "demo_env = \<lparr>te_function = (\<lambda>w f. Some (1, 0)), te_native = (\<lambda>w f. False),
     te_dispatch = (\<lambda>a j args w. if snd w = [] then (Inr VNil, (snd (TimerDel [VInt 2] (fst w, [args]))))
                                else (Inr VNil, (fst w, snd w @ [args]))),
     te_native_call = (\<lambda>f args w. (Inr VNil, w))\<rparr>"

theorem tick_keeps_timers_witness:
  "world_wf (snd (TickAll demo_env 7 8 (Some TimerState_new, []))) \<and>
    in_tick (GetTimerState (snd (TickAll demo_env 7 8 (Some TimerState_new, [])))) = False \<and>
    cancelled_this_tick (GetTimerState (snd (TickAll demo_env 7 8 (Some TimerState_new, [])))) = {}"
proof -
  have "world_wf (snd (te_dispatch demo_env a j args w))" if "world_wf w" for a j args w
  proof -
    have wf: "world_wf (fst w, r)" for r :: "cvar list list"
      using that by (simp add: world_wf_def GetTimerState_def)
    then show ?thesis using TimerDel_wf [OF wf, of "[VInt 2]"] by (simp add: demo_env_def)
  qed
  moreover have "world_wf (snd (te_native_call demo_env f args w))" if "world_wf w" for f args w
    using that by (simp add: demo_env_def)
  ultimately have "callbacks_keep demo_env" unfolding callbacks_keep_def by blast
  moreover have "world_wf (Some TimerState_new, [] :: cvar list list)" by (simp add: world_wf_def timer_wf_new)
  ultimately show ?thesis
    using tick_keeps_timers [of demo_env "(Some TimerState_new, [])" 7 8] by (simp add: TimerState_new_def)
qed

text \<open>Callbacks that leave the timers alone and do not throw act on the rest of the world only.\<close>

definition quiet :: "'w tick_env \<Rightarrow> (string \<Rightarrow> uint64 \<Rightarrow> 'w \<Rightarrow> 'w) \<Rightarrow> bool" where
  "quiet env f \<longleftrightarrow> (\<forall>cb x t r. CallLuaTimerEvent env cb x (t, r) = (Inr VNil, (t, f cb x r)))"

lemma fire_all_quiet:
  assumes "quiet env f" "cancelled_this_tick ts = {}"
  shows "fire_all env xs (Some ts, r) = (Inr (), (Some ts, fold (\<lambda>(x, cb). f cb x) xs r))"
proof (induction xs arbitrary: r)
  case (Cons a xs)
  obtain x cb where "a = (x, cb)" by force
  then show ?case using assms Cons by (simp add: quiet_def)
qed simp

text \<open>
  C30. With callbacks that leave the timers alone, a tick calls exactly the callbacks of the timers whose
  deadline has passed, each once, earliest deadline first, then the heartbeat if it is due; the other
  timers stay.
\<close>
theorem tick_fires_due_timers:
  assumes "timer_wf ts" and "\<not> in_tick ts" and "quiet env f"
  shows "\<exists>ids. set ids = due (deadline (theap ts)) now_u \<and> distinct ids \<and>
    sorted (map (\<lambda>x. the (deadline (theap ts) x)) ids) \<and>
    fst (TickAll env now now_u (Some ts, r)) = Inr () \<and>
    snd (snd (TickAll env now now_u (Some ts, r))) =
      (let r1 = fold (\<lambda>x. f (the (callbacks ts x)) x) ids r in
       if heartbeat_active ts \<and> heartbeat_next ts \<le> now then f (heartbeat_cb ts) 0 r1 else r1) \<and>
    deadline (theap (GetTimerState (snd (TickAll env now now_u (Some ts, r))))) = not_due (deadline (theap ts)) now_u"
proof -
  obtain expired h where u: "Update (theap ts) now_u = (expired, h)" by force
  obtain to_fire cbs where t: "take_callbacks expired (callbacks ts) = (to_fire, cbs)" by force
  note b = tick_batch [OF assms(1) u t]
  define ts1 where "ts1 = ts\<lparr>in_tick := True, cancelled_this_tick := {}, theap := h, callbacks := cbs\<rparr>"
  define r1 where "r1 = fold (\<lambda>x. f (the (callbacks ts x)) x) expired r"
  have "fold (\<lambda>(x, cb). f cb x) to_fire r = r1"
    unfolding b(1) r1_def by (simp add: fold_map comp_def)
  then have fire: "fire_all env to_fire (Some ts1, r) = (Inr (), (Some ts1, r1))"
    using fire_all_quiet [OF assms(3), of ts1 to_fire r] by (simp add: ts1_def)
  have hb: "heartbeat env now (Some ts1, r1) =
    (Inr (), if heartbeat_active ts \<and> heartbeat_next ts \<le> now
       then (Some (ts1\<lparr>heartbeat_next := (let n = heartbeat_next ts + ms (heartbeat_interval_ms ts) in
           if n < now then now + ms (heartbeat_interval_ms ts) else n)\<rparr>), f (heartbeat_cb ts) 0 r1) else (Some ts1, r1))"
    using assms(3) by (simp add: heartbeat_def quiet_def ts1_def Let_def)
  have "TickAll env now now_u (Some ts, r) = (Inr (), end_tick (snd (heartbeat env now (Some ts1, r1))))"
    unfolding TickAll_unfold [OF assms(2) u t] ts1_def [symmetric] Let_def fire by (simp add: hb)
  then have T: "fst (TickAll env now now_u (Some ts, r)) = Inr ()"
    "snd (snd (TickAll env now now_u (Some ts, r))) =
       (if heartbeat_active ts \<and> heartbeat_next ts \<le> now then f (heartbeat_cb ts) 0 r1 else r1)"
    "theap (GetTimerState (snd (TickAll env now now_u (Some ts, r)))) = h"
    unfolding hb by (simp_all add: end_tick_def ts1_def)
  show ?thesis
    unfolding T using b(3-6) by (intro exI [of _ expired]) (auto simp: r1_def Let_def)
qed

definition log_env :: "(cvar list list) tick_env" where
  "log_env = \<lparr>te_function = (\<lambda>w f. Some (1, 0)), te_native = (\<lambda>w f. False),
     te_dispatch = (\<lambda>a j args w. (Inr VNil, (fst w, snd w @ [args]))),
     te_native_call = (\<lambda>f args w. (Inr VNil, w))\<rparr>"

definition log_call :: "string \<Rightarrow> uint64 \<Rightarrow> cvar list list \<Rightarrow> cvar list list" where
  "log_call cb x r = (if cb = [] then r else r @ [timer_args x])"

definition demo_timers :: TimerState where
  "demo_timers = TimerState_new\<lparr>theap := snd (AddAt HeapTimer_new 5), callbacks := [1 \<mapsto> ''f'']\<rparr>"

lemma demo_timers: "timer_wf demo_timers" "\<not> in_tick demo_timers" "deadline (theap demo_timers) = [1 \<mapsto> 5]"
  using AddAt_ok [OF timer_inv_new(1), of 5] timer_inv_new(2)
  by (auto simp: demo_timers_def timer_wf_def TimerState_new_def HeapTimer_new_def)

theorem tick_fires_due_timers_witness:
  "\<exists>ids. set ids = due (deadline (theap demo_timers)) 8 \<and> distinct ids \<and>
    sorted (map (\<lambda>x. the (deadline (theap demo_timers) x)) ids) \<and>
    fst (TickAll log_env 7 8 (Some demo_timers, [])) = Inr () \<and>
    snd (snd (TickAll log_env 7 8 (Some demo_timers, []))) =
      (let r1 = fold (\<lambda>x. log_call (the (callbacks demo_timers x)) x) ids [] in
       if heartbeat_active demo_timers \<and> heartbeat_next demo_timers \<le> 7 then log_call (heartbeat_cb demo_timers) 0 r1 else r1) \<and>
    deadline (theap (GetTimerState (snd (TickAll log_env 7 8 (Some demo_timers, []))))) =
      not_due (deadline (theap demo_timers)) 8"
  by (rule tick_fires_due_timers [OF demo_timers(1,2)])
    (simp add: quiet_def log_env_def log_call_def CallLuaTimerEvent_def)


definition throw_env :: "unit tick_env" where
  "throw_env = \<lparr>te_function = (\<lambda>w f. None), te_native = (\<lambda>w f. True),
     te_dispatch = (\<lambda>a j args w. (Inl ''error'', w)), te_native_call = (\<lambda>f args w. (Inl ''error'', w))\<rparr>"


end
