(* ===== verification/NetBuffer.thy ===== *)
theory NetBuffer
imports Prelude
begin

text \<open>
  The circular byte buffer of \<open>native/net/net_buffer.h\<close> and \<open>net_buffer.cpp\<close>, and the
  proof that it is a bounded byte queue. \<open>memcpy\<close> into the storage is \<open>overwrite\<close>; a region handed
  out as pointer and length is an offset into the storage with its length, \<open>None\<close> for \<open>nullptr\<close>. The
  scratch vectors only give a parsed payload an address, so they are not state of the model.
\<close>

section \<open>The buffer\<close>

record CircularBuffer =
  buf :: "byte list"
  head :: nat
  tail :: nat
  bsize :: nat

definition CircularBuffer_new :: "nat \<Rightarrow> CircularBuffer" where
  "CircularBuffer_new capacity = \<lparr>buf = replicate capacity 0, head = 0, tail = 0, bsize = 0\<rparr>"

definition Size :: "CircularBuffer \<Rightarrow> nat" where "Size b = bsize b"
definition Empty :: "CircularBuffer \<Rightarrow> bool" where "Empty b \<longleftrightarrow> bsize b = 0"
definition Full :: "CircularBuffer \<Rightarrow> bool" where "Full b \<longleftrightarrow> length (buf b) \<le> bsize b"
definition Capacity :: "CircularBuffer \<Rightarrow> nat" where "Capacity b = length (buf b)"

definition Clear :: "CircularBuffer \<Rightarrow> CircularBuffer" where
  "Clear b = b\<lparr>head := 0, tail := 0, bsize := 0\<rparr>"

definition overwrite :: "byte list \<Rightarrow> nat \<Rightarrow> byte list \<Rightarrow> byte list" where
  "overwrite xs p d = take p xs @ d @ drop (p + length d) xs"

definition Write :: "CircularBuffer \<Rightarrow> byte list \<Rightarrow> nat \<times> CircularBuffer" where
  "Write b data =
     (let cap = length (buf b); avail = cap - bsize b; n = min (length data) avail in
      if n = 0 then (0, b)
      else
        let first = min n (cap - tail b);
            b1 = b\<lparr>buf := overwrite (buf b) (tail b) (take first data)\<rparr>;
            second = n - first;
            b2 = (if 0 < second then b1\<lparr>buf := overwrite (buf b1) 0 (take second (drop first data))\<rparr> else b1)
        in (n, b2\<lparr>tail := (tail b + n) mod cap, bsize := bsize b + n\<rparr>))"

text \<open>The two \<open>memcpy\<close> calls out of the storage.\<close>

definition copy_out :: "CircularBuffer \<Rightarrow> nat \<Rightarrow> byte list" where
  "copy_out b n =
     (let cap = length (buf b); first = min n (cap - head b); second = n - first in
      take first (drop (head b) (buf b)) @ (if 0 < second then take second (buf b) else []))"

definition Read :: "CircularBuffer \<Rightarrow> nat \<Rightarrow> byte list \<times> CircularBuffer" where
  "Read b len =
     (let n = min len (bsize b) in
      if n = 0 then ([], b)
      else (copy_out b n, b\<lparr>head := (head b + n) mod length (buf b), bsize := bsize b - n\<rparr>))"

definition Peek :: "CircularBuffer \<Rightarrow> nat \<Rightarrow> byte list" where
  "Peek b len = (let n = min len (bsize b) in if n = 0 then [] else copy_out b n)"

definition Skip :: "CircularBuffer \<Rightarrow> nat \<Rightarrow> nat \<times> CircularBuffer" where
  "Skip b len =
     (let n = min len (bsize b) in
      (n, b\<lparr>head := (head b + n) mod length (buf b), bsize := bsize b - n\<rparr>))"

definition WritableRegion :: "CircularBuffer \<Rightarrow> (nat \<times> nat) option" where
  "WritableRegion b =
     (let cap = length (buf b) in
      if cap \<le> bsize b then None
      else let e = (if tail b < head b then head b else cap) in Some (tail b, e - tail b))"

definition CommitWrite :: "CircularBuffer \<Rightarrow> nat \<Rightarrow> CircularBuffer" where
  "CommitWrite b bytes = b\<lparr>tail := (tail b + bytes) mod length (buf b), bsize := bsize b + bytes\<rparr>"

definition ReadableRegion :: "CircularBuffer \<Rightarrow> (nat \<times> nat) option" where
  "ReadableRegion b =
     (let cap = length (buf b) in
      if bsize b = 0 then None
      else let e = (if head b < tail b then tail b else cap) in Some (head b, e - head b))"

definition CommitRead :: "CircularBuffer \<Rightarrow> nat \<Rightarrow> CircularBuffer" where
  "CommitRead b bytes = b\<lparr>head := (head b + bytes) mod length (buf b), bsize := bsize b - bytes\<rparr>"

section \<open>Invariant and content\<close>

definition ring_ok :: "CircularBuffer \<Rightarrow> bool" where
  "ring_ok b \<longleftrightarrow> 0 < length (buf b) \<and> head b < length (buf b) \<and> bsize b \<le> length (buf b) \<and>
     tail b = (head b + bsize b) mod length (buf b)"

text \<open>The bytes in the buffer, oldest first.\<close>

definition content :: "CircularBuffer \<Rightarrow> byte list" where
  "content b = map (\<lambda>i. buf b ! ((head b + i) mod length (buf b))) [0..<bsize b]"

lemma content_length [simp]: "length (content b) = bsize b"
  by (simp add: content_def)

lemma content_nth: "i < bsize b \<Longrightarrow> content b ! i = buf b ! ((head b + i) mod length (buf b))"
  by (simp add: content_def)

lemma content_take:
  "take n (content b) = map (\<lambda>i. buf b ! ((head b + i) mod length (buf b))) [0..<min n (bsize b)]"
  by (simp add: content_def take_map min_def)

lemma mod_wrap: "(x :: nat) < 2 * c \<Longrightarrow> x mod c = (if x < c then x else x - c)"
  by (simp add: mod_if)

lemma ring_inj:
  assumes "(h + i) mod c = (h + j) mod c" "h < c" "i < c" "j < (c :: nat)"
  shows "i = j"
proof -
  have "h + i < 2 * c" "h + j < 2 * c" using assms by auto
  then have "(if h + i < c then h + i else h + i - c) = (if h + j < c then h + j else h + j - c)"
    using assms(1) by (simp add: mod_wrap)
  then show ?thesis using assms(2-4) by (simp split: if_splits)
qed

lemma overwrite_length [simp]: "p + length d \<le> length xs \<Longrightarrow> length (overwrite xs p d) = length xs"
  by (simp add: overwrite_def)

lemma overwrite_nth:
  "p + length d \<le> length xs \<Longrightarrow> i < length xs \<Longrightarrow>
   overwrite xs p d ! i = (if p \<le> i \<and> i < p + length d then d ! (i - p) else xs ! i)"
  by (auto simp: overwrite_def nth_append not_less le_diff_conv)

text \<open>Writing \<open>n\<close> bytes around the ring from position \<open>t\<close>, in at most two pieces.\<close>

definition ring_put :: "byte list \<Rightarrow> nat \<Rightarrow> byte list \<Rightarrow> byte list" where
  "ring_put xs t d =
     (let first = min (length d) (length xs - t); ys = overwrite xs t (take first d)
      in if first < length d then overwrite ys 0 (drop first d) else ys)"

lemma ring_put_length [simp]: "t < length xs \<Longrightarrow> length d \<le> length xs \<Longrightarrow> length (ring_put xs t d) = length xs"
  by (auto simp: ring_put_def Let_def min_def)

lemma ring_put_new:
  assumes "t < length xs" "length d \<le> length xs" "k < length d"
  shows "ring_put xs t d ! ((t + k) mod length xs) = d ! k"
proof (cases "t + k < length xs")
  case True
  then show ?thesis using assms
    by (auto simp: ring_put_def Let_def overwrite_nth min_def)
next
  case False
  then have m: "(t + k) mod length xs = t + k - length xs" using assms by (simp add: mod_wrap)
  have f: "min (length d) (length xs - t) = length xs - t" "length xs - t < length d" using False assms by linarith+
  have j: "t + k - length xs < length d - (length xs - t)" "t + k - length xs < length xs" "length xs - t + (t + k - length xs) = k"
    using False assms by linarith+
  show ?thesis using assms(1,2) f j
    unfolding m by (simp add: ring_put_def Let_def overwrite_nth)
qed

lemma ring_put_old:
  assumes "t < length xs" "length d \<le> length xs" "j < length xs" "\<And>k. k < length d \<Longrightarrow> j \<noteq> (t + k) mod length xs"
  shows "ring_put xs t d ! j = xs ! j"
proof -
  have "\<not> (t \<le> j \<and> j < t + length d)"
  proof
    assume "t \<le> j \<and> j < t + length d"
    then have "j - t < length d" "t + (j - t) = j" by auto
    then show False using assms(4) [of "j - t"] assms(3) by simp
  qed
  moreover have "\<not> j + length xs < t + length d"
  proof
    assume a: "j + length xs < t + length d"
    then have "j + length xs - t < length d" "t + (j + length xs - t) = j + length xs" using assms by auto
    then show False using assms(3) assms(4) [of "j + length xs - t"] by simp
  qed
  ultimately show ?thesis using assms(1-3)
    by (auto simp: ring_put_def Let_def overwrite_nth min_def)
qed

lemma Write_eq:
  assumes "ring_ok b"
  shows "Write b data =
    (let n = min (length data) (length (buf b) - bsize b) in
     if n = 0 then (0, b)
     else (n, b\<lparr>buf := ring_put (buf b) (tail b) (take n data), tail := (tail b + n) mod length (buf b), bsize := bsize b + n\<rparr>))"
proof -
  define n where "n = min (length data) (length (buf b) - bsize b)"
  have n: "n \<le> length data" by (simp add: n_def)
  define first where "first = min n (length (buf b) - tail b)"
  have f: "first \<le> n" by (simp add: first_def)
  have "take first (take n data) = take first data" using f by (simp add: min_def)
  moreover have "drop first (take n data) = take (n - first) (drop first data)" by (simp add: drop_take)
  ultimately show ?thesis
    using n f unfolding Write_def ring_put_def Let_def n_def [symmetric] first_def [symmetric]
    by (auto simp: first_def [symmetric] min_absorb2)
qed

lemma Write_ok:
  fixes data :: "byte list"
  assumes ok: "ring_ok b"
  defines "n \<equiv> min (length data) (length (buf b) - bsize b)"
  shows "fst (Write b data) = n" "ring_ok (snd (Write b data))"
    "content (snd (Write b data)) = content b @ take n data" "Capacity (snd (Write b data)) = Capacity b"
proof -
  have "fst (Write b data) = n \<and> ring_ok (snd (Write b data)) \<and>
    content (snd (Write b data)) = content b @ take n data \<and> Capacity (snd (Write b data)) = Capacity b"
  proof (cases "n = 0")
    case True
    then show ?thesis using ok by (simp add: Write_eq [OF ok] n_def [symmetric])
  next
    case False
    define cap where "cap = length (buf b)"
    define xs where "xs = ring_put (buf b) (tail b) (take n data)"
    define b' where "b' = b\<lparr>buf := xs, tail := (tail b + n) mod cap, bsize := bsize b + n\<rparr>"
    have w: "Write b data = (n, b')" using False by (simp add: Write_eq [OF ok] n_def [symmetric] b'_def xs_def cap_def)
    have r: "0 < cap" "head b < cap" "bsize b \<le> cap" "tail b = (head b + bsize b) mod cap" "tail b < cap"
      using ok by (auto simp: ring_ok_def cap_def)
    have n: "n \<le> length data" "bsize b + n \<le> cap" using r by (auto simp: n_def cap_def)
    have len: "length xs = cap" using r n by (simp add: xs_def cap_def)
    have ok': "ring_ok b'" using r n by (simp add: ring_ok_def b'_def len mod_add_left_eq add.assoc)
    have "content b' = content b @ take n data"
    proof (rule nth_equalityI)
      show "length (content b') = length (content b @ take n data)" using n by (simp add: b'_def)
      fix i assume "i < length (content b')"
      then have i: "i < bsize b + n" by (simp add: b'_def)
      have ci: "content b' ! i = xs ! ((head b + i) mod cap)" using i by (simp add: content_nth b'_def len)
      show "content b' ! i = (content b @ take n data) ! i"
      proof (cases "i < bsize b")
        case True
        have "(head b + i) mod cap \<noteq> (tail b + k) mod cap" if "k < n" for k
        proof
          assume "(head b + i) mod cap = (tail b + k) mod cap"
          also have "\<dots> = (head b + (bsize b + k)) mod cap" unfolding r(4) by (simp add: mod_add_left_eq add.assoc)
          finally have eq: "(head b + i) mod cap = (head b + (bsize b + k)) mod cap" .
          have "i < cap" "bsize b + k < cap" using True that n(2) by linarith+
          with eq r(2) have "i = bsize b + k" by (rule ring_inj)
          then show False using True by simp
        qed
        then have "xs ! ((head b + i) mod cap) = buf b ! ((head b + i) mod cap)"
          unfolding xs_def using r n by (intro ring_put_old) (auto simp: cap_def)
        then show ?thesis using True ci by (simp add: nth_append content_nth cap_def)
      next
        case False
        define k where "k = i - bsize b"
        have k: "k < n" "i = bsize b + k" using False i by (auto simp: k_def)
        have "(head b + i) mod cap = (tail b + k) mod cap" unfolding r(4) k(2) by (simp add: mod_add_left_eq add.assoc)
        then have "content b' ! i = take n data ! k"
          using ring_put_new [of "tail b" "buf b" "take n data" k] r n k ci by (simp add: xs_def cap_def)
        then show ?thesis using k by (simp add: nth_append)
      qed
    qed
    then show ?thesis using ok' by (simp add: w Capacity_def b'_def len) (simp add: cap_def)
  qed
  then show "fst (Write b data) = n" "ring_ok (snd (Write b data))"
    "content (snd (Write b data)) = content b @ take n data" "Capacity (snd (Write b data)) = Capacity b" by auto
qed

lemma copy_out_ok:
  assumes ok: "ring_ok b" and n: "n \<le> bsize b"
  shows "copy_out b n = take n (content b)"
proof (rule nth_equalityI)
  have r: "head b < length (buf b)" "bsize b \<le> length (buf b)" using ok by (auto simp: ring_ok_def)
  show len: "length (copy_out b n) = length (take n (content b))"
    using r n by (simp add: copy_out_def Let_def min_def) linarith
  fix i assume "i < length (copy_out b n)"
  then have i: "i < n" using len n by simp
  have "copy_out b n ! i = buf b ! ((head b + i) mod length (buf b))"
    using r n i by (auto simp: copy_out_def Let_def nth_append mod_wrap min_def)
      (metis add.commute diff_diff_eq2 less_imp_le_nat)+
  then show "copy_out b n ! i = take n (content b) ! i" using i n by (simp add: content_nth)
qed

lemma advance_ok:
  assumes ok: "ring_ok b" and n: "n \<le> bsize b"
  defines "b' \<equiv> b\<lparr>head := (head b + n) mod length (buf b), bsize := bsize b - n\<rparr>"
  shows "ring_ok b'" "content b' = drop n (content b)"
proof -
  have r: "0 < length (buf b)" "tail b = (head b + bsize b) mod length (buf b)" "bsize b \<le> length (buf b)"
    using ok by (auto simp: ring_ok_def)
  have "((head b + n) mod length (buf b) + (bsize b - n)) mod length (buf b) = tail b"
  proof -
    have "((head b + n) mod length (buf b) + (bsize b - n)) mod length (buf b) = (head b + n + (bsize b - n)) mod length (buf b)"
      by (rule mod_add_left_eq)
    then show ?thesis using n by (simp add: r(2))
  qed
  then show "ring_ok b'" using r n by (simp add: ring_ok_def b'_def)
  show "content b' = drop n (content b)"
    by (rule nth_equalityI) (use n in \<open>simp_all add: content_nth b'_def mod_add_left_eq add.assoc\<close>)
qed

lemma Read_ok:
  assumes ok: "ring_ok b"
  shows "fst (Read b n) = take n (content b)" "ring_ok (snd (Read b n))"
    "content (snd (Read b n)) = drop n (content b)" "Capacity (snd (Read b n)) = Capacity b"
proof -
  define m where "m = min n (bsize b)"
  have m: "m \<le> bsize b" "take m (content b) = take n (content b)" "drop m (content b) = drop n (content b)"
    by (simp_all add: m_def min_def)
  have "fst (Read b n) = take n (content b) \<and> ring_ok (snd (Read b n)) \<and>
    content (snd (Read b n)) = drop n (content b) \<and> Capacity (snd (Read b n)) = Capacity b"
  proof (cases "m = 0")
    case True
    then have "Read b n = ([], b)" by (simp add: Read_def m_def [symmetric])
    then show ?thesis using m ok True by (metis drop0 fst_conv snd_conv take0)
  next
    case False
    then show ?thesis
      using copy_out_ok [OF ok m(1)] advance_ok [OF ok m(1)] m(2,3)
      by (simp add: Read_def m_def [symmetric] Capacity_def)
  qed
  then show "fst (Read b n) = take n (content b)" "ring_ok (snd (Read b n))"
    "content (snd (Read b n)) = drop n (content b)" "Capacity (snd (Read b n)) = Capacity b" by auto
qed

lemma Peek_ok:
  assumes ok: "ring_ok b"
  shows "Peek b n = take n (content b)"
proof -
  have "take (min n (bsize b)) (content b) = take n (content b)" by (simp add: min_def)
  then show ?thesis
    using copy_out_ok [OF ok, of "min n (bsize b)"] by (auto simp: Peek_def Let_def)
qed

lemma Skip_ok:
  assumes ok: "ring_ok b"
  shows "fst (Skip b n) = min n (length (content b))" "ring_ok (snd (Skip b n))"
    "content (snd (Skip b n)) = drop n (content b)" "Capacity (snd (Skip b n)) = Capacity b"
  using advance_ok [OF ok, of "min n (bsize b)"] by (auto simp: Skip_def Let_def Capacity_def min_def)

lemma CircularBuffer_new_ok:
  "0 < c \<Longrightarrow> ring_ok (CircularBuffer_new c) \<and> content (CircularBuffer_new c) = [] \<and> Capacity (CircularBuffer_new c) = c"
  by (simp add: ring_ok_def CircularBuffer_new_def content_def Capacity_def)

lemma Clear_ok: "ring_ok b \<Longrightarrow> ring_ok (Clear b) \<and> content (Clear b) = []"
  by (auto simp: ring_ok_def Clear_def content_def)

lemma Size_content: "Size b = length (content b)"
  by (simp add: Size_def)

section \<open>The interface of a bounded byte queue\<close>

locale byte_queue =
  fixes inv :: "'q \<Rightarrow> bool"
    and bytes :: "'q \<Rightarrow> byte list"
    and cap :: "'q \<Rightarrow> nat"
    and wr :: "'q \<Rightarrow> byte list \<Rightarrow> nat \<times> 'q"
    and rd :: "'q \<Rightarrow> nat \<Rightarrow> byte list \<times> 'q"
  assumes bounded: "inv q \<Longrightarrow> length (bytes q) \<le> cap q"
    and wr_law: "inv q \<Longrightarrow> inv (snd (wr q d)) \<and> cap (snd (wr q d)) = cap q \<and>
        fst (wr q d) = min (length d) (cap q - length (bytes q)) \<and>
        bytes (snd (wr q d)) = bytes q @ take (cap q - length (bytes q)) d"
    and rd_law: "inv q \<Longrightarrow> inv (snd (rd q n)) \<and> cap (snd (rd q n)) = cap q \<and>
        fst (rd q n) = take n (bytes q) \<and> bytes (snd (rd q n)) = drop n (bytes q)"
begin

definition wr_all :: "'q \<Rightarrow> byte list list \<Rightarrow> 'q" where
  "wr_all q ds = fold (\<lambda>d q. snd (wr q d)) ds q"

lemma wr_fits:
  assumes "inv q" "length (bytes q) + length d \<le> cap q"
  shows "inv (snd (wr q d))" "bytes (snd (wr q d)) = bytes q @ d" "fst (wr q d) = length d"
    "cap (snd (wr q d)) = cap q"
  using wr_law [OF assms(1), of d] assms(2) by auto

lemma wr_all_fits:
  "inv q \<Longrightarrow> length (bytes q) + length (concat ds) \<le> cap q \<Longrightarrow>
   inv (wr_all q ds) \<and> bytes (wr_all q ds) = bytes q @ concat ds \<and> cap (wr_all q ds) = cap q"
proof (induction ds arbitrary: q)
  case (Cons d ds)
  have w: "inv (snd (wr q d))" "bytes (snd (wr q d)) = bytes q @ d" "cap (snd (wr q d)) = cap q"
    using wr_fits [OF Cons.prems(1), of d] Cons.prems(2) by auto
  show ?case using Cons.IH [OF w(1)] Cons.prems(2) w by (simp add: wr_all_def)
qed (simp add: wr_all_def)

text \<open>Whatever is written in pieces is read back in any other pieces, in order.\<close>

lemma fifo:
  assumes "inv q" "bytes q = []" "length (concat ds) \<le> cap q" "n \<le> length (concat ds)"
  shows "fst (rd (wr_all q ds) n) = take n (concat ds)"
    "fst (rd (snd (rd (wr_all q ds) n)) m) = take m (drop n (concat ds))"
  using wr_all_fits [OF assms(1), of ds] assms(2,3) rd_law [of "wr_all q ds" n] rd_law [of "snd (rd (wr_all q ds) n)" m]
  by auto

end

interpretation ring: byte_queue ring_ok content Capacity Write Read
proof
  fix q :: CircularBuffer and d n
  assume q: "ring_ok q"
  show "length (content q) \<le> Capacity q" using q by (simp add: ring_ok_def Capacity_def)
  show "ring_ok (snd (Write q d)) \<and> Capacity (snd (Write q d)) = Capacity q \<and>
        fst (Write q d) = min (length d) (Capacity q - length (content q)) \<and>
        content (snd (Write q d)) = content q @ take (Capacity q - length (content q)) d"
    using Write_ok [OF q, of d] by (auto simp: Capacity_def min_def)
  show "ring_ok (snd (Read q n)) \<and> Capacity (snd (Read q n)) = Capacity q \<and>
        fst (Read q n) = take n (content q) \<and> content (snd (Read q n)) = drop n (content q)"
    using Read_ok [OF q, of n] by simp
qed

section \<open>Direct access to the storage\<close>

text \<open>What \<open>recv\<close> into the writable region does: \<open>d\<close> lands at the offset handed out.\<close>

definition recv_into :: "CircularBuffer \<Rightarrow> byte list \<Rightarrow> CircularBuffer" where
  "recv_into b d = CommitWrite (b\<lparr>buf := overwrite (buf b) (tail b) d\<rparr>) (length d)"

lemma WritableRegion_ok:
  assumes ok: "ring_ok b" and r: "WritableRegion b = Some (off, len)" and d: "length d \<le> len"
  shows "off = tail b" "0 < len" "off + len \<le> length (buf b)" "bsize b + len \<le> length (buf b)"
    "ring_ok (recv_into b d)" "content (recv_into b d) = content b @ d"
proof -
  have k: "0 < length (buf b)" "head b < length (buf b)" "bsize b \<le> length (buf b)"
    "tail b = (head b + bsize b) mod length (buf b)" "tail b < length (buf b)"
    using ok by (auto simp: ring_ok_def)
  have w: "bsize b < length (buf b)" "off = tail b" "len = (if tail b < head b then head b else length (buf b)) - tail b"
    using r by (auto simp: WritableRegion_def Let_def split: if_splits)
  have m: "tail b = (if head b + bsize b < length (buf b) then head b + bsize b else head b + bsize b - length (buf b))"
    using k by (simp add: mod_wrap)
  show off: "off = tail b" by (rule w)
  show "0 < len" using w(1,3) m k by (auto split: if_splits)
  show le: "off + len \<le> length (buf b)" using w k by auto
  show room: "bsize b + len \<le> length (buf b)" using w m k by (auto split: if_splits)
  have "snd (Write b d) = recv_into b d"
  proof (cases "d = []")
    case True
    then show ?thesis using k by (simp add: Write_def recv_into_def CommitWrite_def overwrite_def)
  next
    case False
    have "min (length d) (length (buf b) - bsize b) = length d" "min (length d) (length (buf b) - tail b) = length d"
      using d le room off by linarith+
    then show ?thesis using False le d off
      by (simp add: Write_def Let_def recv_into_def CommitWrite_def)
  qed
  moreover have "min (length d) (length (buf b) - bsize b) = length d" using d room by linarith
  ultimately show "ring_ok (recv_into b d)" "content (recv_into b d) = content b @ d"
    using Write_ok [OF ok, of d] by auto
qed

lemma ReadableRegion_ok:
  assumes ok: "ring_ok b" and r: "ReadableRegion b = Some (off, len)" and n: "n \<le> len"
  shows "0 < len" "off + len \<le> length (buf b)" "take n (drop off (buf b)) = take n (content b)"
    "ring_ok (CommitRead b n)" "content (CommitRead b n) = drop n (content b)"
proof -
  have k: "0 < length (buf b)" "head b < length (buf b)" "bsize b \<le> length (buf b)"
    "tail b = (head b + bsize b) mod length (buf b)"
    using ok by (auto simp: ring_ok_def)
  have w: "0 < bsize b" "off = head b" "len = (if head b < tail b then tail b else length (buf b)) - head b"
    using r by (auto simp: ReadableRegion_def Let_def split: if_splits)
  have m: "tail b = (if head b + bsize b < length (buf b) then head b + bsize b else head b + bsize b - length (buf b))"
    using k by (simp add: mod_wrap)
  show "0 < len" using w m k by (auto split: if_splits)
  show le: "off + len \<le> length (buf b)" using w k m by (auto split: if_splits)
  have sz: "len \<le> bsize b" using w m k by (auto split: if_splits)
  show "take n (drop off (buf b)) = take n (content b)"
    by (rule nth_equalityI) (use n le sz k w(2) in \<open>auto simp: content_nth mod_wrap\<close>)
  have ns: "n \<le> bsize b" using n sz by simp
  show "ring_ok (CommitRead b n)" "content (CommitRead b n) = drop n (content b)"
    using advance_ok [OF ok ns] by (simp_all add: CommitRead_def)
qed

section \<open>Properties\<close>

text \<open>
  C32. The circular buffer is a bounded queue of bytes: \<open>Write\<close> appends what fits and says how much,
  \<open>Read\<close> takes from the front, \<open>Peek\<close> sees the same bytes without taking them, \<open>Skip\<close> drops them,
  wherever the data wraps around.
\<close>
theorem circular_buffer_is_queue:
  assumes "ring_ok b"
  shows "content (snd (Write b d)) = content b @ take (Capacity b - Size b) d \<and>
    fst (Write b d) = min (length d) (Capacity b - Size b) \<and>
    fst (Read b n) = take n (content b) \<and> content (snd (Read b n)) = drop n (content b) \<and>
    Peek b n = take n (content b) \<and> content (snd (Skip b n)) = drop n (content b) \<and>
    ring_ok (snd (Write b d)) \<and> ring_ok (snd (Read b n)) \<and> ring_ok (snd (Skip b n))"
  using ring.wr_law [OF assms, of d] ring.rd_law [OF assms, of n] Peek_ok [OF assms] Skip_ok [OF assms]
  by (simp add: Size_content)

definition demo_ring :: CircularBuffer where
  "demo_ring = \<lparr>buf = [5, 6, 7, 8], head = 3, tail = 1, bsize = 2\<rparr>"

theorem circular_buffer_is_queue_witness:
  "content (snd (Write demo_ring [1, 2, 3])) = content demo_ring @ take (Capacity demo_ring - Size demo_ring) [1, 2, 3] \<and>
    fst (Write demo_ring [1, 2, 3]) = min (length [1 :: byte, 2, 3]) (Capacity demo_ring - Size demo_ring) \<and>
    fst (Read demo_ring 1) = take 1 (content demo_ring) \<and> content (snd (Read demo_ring 1)) = drop 1 (content demo_ring) \<and>
    Peek demo_ring 1 = take 1 (content demo_ring) \<and> content (snd (Skip demo_ring 1)) = drop 1 (content demo_ring) \<and>
    ring_ok (snd (Write demo_ring [1, 2, 3])) \<and> ring_ok (snd (Read demo_ring 1)) \<and> ring_ok (snd (Skip demo_ring 1))"
  by (rule circular_buffer_is_queue) (simp add: ring_ok_def demo_ring_def)

text \<open>
  C33. The regions handed to \<open>recv\<close> and \<open>send\<close> stay inside the storage, the writable one holds no byte
  of the content, and committing what was received or sent is an append or a removal at the front.
\<close>
theorem regions_are_safe:
  assumes "ring_ok b"
  shows "(\<forall>off len d. WritableRegion b = Some (off, len) \<and> length d \<le> len \<longrightarrow>
      off + len \<le> Capacity b \<and> ring_ok (recv_into b d) \<and> content (recv_into b d) = content b @ d) \<and>
    (\<forall>off len n. ReadableRegion b = Some (off, len) \<and> n \<le> len \<longrightarrow>
      off + len \<le> Capacity b \<and> take n (drop off (buf b)) = take n (content b) \<and>
      ring_ok (CommitRead b n) \<and> content (CommitRead b n) = drop n (content b))"
proof (intro conjI allI impI; elim conjE)
  fix off len and d :: "byte list"
  assume "WritableRegion b = Some (off, len)" "length d \<le> len"
  note w = WritableRegion_ok [OF assms this]
  show "off + len \<le> Capacity b" "ring_ok (recv_into b d)" "content (recv_into b d) = content b @ d"
    using w by (simp_all add: Capacity_def)
next
  fix off len n
  assume "ReadableRegion b = Some (off, len)" "n \<le> len"
  note r = ReadableRegion_ok [OF assms this]
  show "off + len \<le> Capacity b" "take n (drop off (buf b)) = take n (content b)" "ring_ok (CommitRead b n)"
    "content (CommitRead b n) = drop n (content b)"
    using r by (simp_all add: Capacity_def)
qed

theorem regions_are_safe_witness:
  "content (recv_into demo_ring [9]) = content demo_ring @ [9] \<and> ring_ok (recv_into demo_ring [9]) \<and>
    content (CommitRead demo_ring 1) = drop 1 (content demo_ring) \<and> ring_ok (CommitRead demo_ring 1)"
proof -
  have ok: "ring_ok demo_ring" by (simp add: ring_ok_def demo_ring_def)
  obtain o1 n1 o2 n2 where "WritableRegion demo_ring = Some (o1, n1)" "1 \<le> n1"
    "ReadableRegion demo_ring = Some (o2, n2)" "1 \<le> n2"
    by (simp add: WritableRegion_def ReadableRegion_def demo_ring_def)
  then show ?thesis using regions_are_safe [OF ok] by auto
qed

end
