(* ===== verification/NetPackets.thy ===== *)
theory NetPackets
imports NetBuffer
begin

text \<open>
  Packet framing over the circular buffer, from \<open>native/net/net_buffer.cpp\<close>: \<open>WritePacket\<close> and
  \<open>TryParsePacket\<close> for every \<open>FramerType\<close> of \<open>native/net/net_common.h\<close>. The custom parser and encoder
  are functions the embedding program installs, so they are fields of the configuration. \<open>int\<close> fields are
  integers in the range of \<open>int32_t\<close>; \<open>static_cast<size_t>\<close> of one is \<open>size_of_int\<close>.
\<close>

section \<open>Configuration\<close>

datatype FramerType = Header4BigEndian | Header4LittleEndian | Header2BigEndian | Header2LittleEndian
  | LineDelimiter | FixedLength | RawStream | Custom | WebSocket

record NetConfig =
  framer :: FramerType
  max_packet_len :: int
  fixed_packet_len :: int
  custom_parser_fn :: "(CircularBuffer \<Rightarrow> byte list option \<times> CircularBuffer) option"
  custom_encoder_fn :: "(CircularBuffer \<Rightarrow> byte list \<Rightarrow> CircularBuffer) option"

definition size_of_int :: "int \<Rightarrow> nat" where "size_of_int i = nat (i mod 2 ^ 64)"

section \<open>Writing\<close>

definition put :: "CircularBuffer \<Rightarrow> byte list \<Rightarrow> CircularBuffer" where
  "put b d = snd (Write b d)"

definition byte_at :: "nat \<Rightarrow> 'a::len word \<Rightarrow> byte" where
  "byte_at k w = ucast (drop_bit k w AND 0xFF)"

definition be4 :: "uint32 \<Rightarrow> byte list" where
  "be4 l = [byte_at 24 l, byte_at 16 l, byte_at 8 l, byte_at 0 l]"

definition le4 :: "uint32 \<Rightarrow> byte list" where
  "le4 l = [byte_at 0 l, byte_at 8 l, byte_at 16 l, byte_at 24 l]"

definition be2 :: "16 word \<Rightarrow> byte list" where "be2 l = [byte_at 8 l, byte_at 0 l]"
definition le2 :: "16 word \<Rightarrow> byte list" where "le2 l = [byte_at 0 l, byte_at 8 l]"

definition WritePacketHeader :: "CircularBuffer \<Rightarrow> uint32 \<Rightarrow> CircularBuffer" where
  "WritePacketHeader b payload_len = put b (be4 payload_len)"

definition EncodedPacketSize :: "NetConfig \<Rightarrow> nat \<Rightarrow> nat" where
  "EncodedPacketSize cfg len =
     (case framer cfg of
        Header4BigEndian \<Rightarrow> 4 + len
      | Header4LittleEndian \<Rightarrow> 4 + len
      | Header2BigEndian \<Rightarrow> 2 + len
      | Header2LittleEndian \<Rightarrow> 2 + len
      | LineDelimiter \<Rightarrow> len + 1
      | FixedLength \<Rightarrow> if 0 < fixed_packet_len cfg then size_of_int (fixed_packet_len cfg) else len
      | _ \<Rightarrow> len)"

definition WritePacket :: "CircularBuffer \<Rightarrow> NetConfig \<Rightarrow> byte list \<Rightarrow> bool \<times> CircularBuffer" where
  "WritePacket b cfg data =
     (case custom_encoder_fn cfg of
        Some encoder \<Rightarrow>
          let room = Capacity b - Size b; tmp = encoder (CircularBuffer_new (room + 1)) data in
          if room < Size tmp then (False, b)
          else (True, if 0 < Size tmp then put b (fst (Read tmp (Size tmp))) else b)
      | None \<Rightarrow>
          let len = length data in
          if Capacity b - Size b < EncodedPacketSize cfg len then (False, b)
          else (case framer cfg of
              Header4BigEndian \<Rightarrow> (True, put (WritePacketHeader b (word_of_nat len)) data)
            | Header4LittleEndian \<Rightarrow> (True, put (put b (le4 (word_of_nat len))) data)
            | Header2BigEndian \<Rightarrow>
                if 0xFFFF < len then (False, b) else (True, put (put b (be2 (word_of_nat len))) data)
            | Header2LittleEndian \<Rightarrow>
                if 0xFFFF < len then (False, b) else (True, put (put b (le2 (word_of_nat len))) data)
            | LineDelimiter \<Rightarrow> (True, put (put b data) [10])
            | FixedLength \<Rightarrow>
                let target_len = (if 0 < fixed_packet_len cfg then size_of_int (fixed_packet_len cfg) else len) in
                if target_len \<le> len then (True, put b (take target_len data))
                else (True, put (put b data) (replicate (target_len - len) 0))
            | _ \<Rightarrow> (True, put b data)))"

section \<open>Parsing\<close>

text \<open>The result and the flag \<open>out_error\<close>.\<close>

definition ValidatePayloadLen :: "NetConfig \<Rightarrow> nat \<Rightarrow> nat \<Rightarrow> nat \<Rightarrow> nat \<Rightarrow> bool \<times> bool" where
  "ValidatePayloadLen cfg payload_len header_size buf_size buf_capacity =
     (let total = header_size + payload_len in
      if size_of_int (max_packet_len cfg) < payload_len then (False, True)
      else if buf_capacity < total then (False, True)
      else if buf_size < total then (False, False)
      else (True, False))"

text \<open>\<open>true\<close> with its payload; \<open>false\<close> without and with \<open>out_error\<close>.\<close>

datatype parse = Packet "byte list" | NeedMore | Violation

definition header_packet :: "CircularBuffer \<Rightarrow> NetConfig \<Rightarrow> nat \<Rightarrow> nat \<Rightarrow> parse \<times> CircularBuffer" where
  "header_packet b cfg hs payload_len =
     (let (ok, err) = ValidatePayloadLen cfg payload_len hs (Size b) (Capacity b) in
      if \<not> ok then (if err then Violation else NeedMore, b)
      else let (p, b') = Read (snd (Skip b hs)) payload_len in (Packet p, b'))"

text \<open>The shifts and ors of the length header, in \<open>size_t\<close>.\<close>

definition shifted :: "nat \<Rightarrow> byte \<Rightarrow> uint64" where "shifted k c = push_bit k (ucast c)"

fun len_be4 :: "byte list \<Rightarrow> nat" where
  "len_be4 [a, b, c, d] = unat (shifted 24 a OR shifted 16 b OR shifted 8 c OR ucast d)"
| "len_be4 _ = 0"

fun len_le4 :: "byte list \<Rightarrow> nat" where
  "len_le4 [a, b, c, d] = unat (ucast a OR shifted 8 b OR shifted 16 c OR shifted 24 d)"
| "len_le4 _ = 0"

fun len_be2 :: "byte list \<Rightarrow> nat" where
  "len_be2 [a, b] = unat (shifted 8 a OR ucast b)"
| "len_be2 _ = 0"

fun len_le2 :: "byte list \<Rightarrow> nat" where
  "len_le2 [a, b] = unat (ucast a OR shifted 8 b)"
| "len_le2 _ = 0"

text \<open>The scan for a newline in the bytes peeked, and what follows.\<close>

fun find_newline :: "byte list \<Rightarrow> nat option" where
  "find_newline [] = None"
| "find_newline (c # cs) = (if c = 10 then Some 0 else map_option Suc (find_newline cs))"

definition line_packet :: "CircularBuffer \<Rightarrow> NetConfig \<Rightarrow> parse \<times> CircularBuffer" where
  "line_packet b cfg =
     (if Empty b then (NeedMore, b)
      else
        let total = Size b; mx = size_of_int (max_packet_len cfg);
            scan = (if 0 < max_packet_len cfg then min total (mx + 1) else total)
        in case find_newline (Peek b scan) of
             None \<Rightarrow> (if 0 < max_packet_len cfg \<and> mx < total then Violation else NeedMore, b)
           | Some line_end \<Rightarrow>
               if 0 < max_packet_len cfg \<and> mx < line_end then (Violation, b)
               else
                 let (tmp, b') = Read b (line_end + 1);
                     payload_len = (if 0 < line_end \<and> tmp ! (line_end - 1) = 13 then line_end - 1 else line_end)
                 in (Packet (take payload_len tmp), b'))"

definition fixed_packet :: "CircularBuffer \<Rightarrow> NetConfig \<Rightarrow> parse \<times> CircularBuffer" where
  "fixed_packet b cfg =
     (if fixed_packet_len cfg \<le> 0 then (NeedMore, b)
      else
        let fixed_len = nat (fixed_packet_len cfg mod 2 ^ 32) in
        if Capacity b < fixed_len \<or> 0 < max_packet_len cfg \<and> nat (max_packet_len cfg mod 2 ^ 32) < fixed_len
        then (Violation, b)
        else if Size b < fixed_len then (NeedMore, b)
        else let (p, b') = Read b fixed_len in (Packet p, b'))"

definition raw_packet :: "CircularBuffer \<Rightarrow> NetConfig \<Rightarrow> parse \<times> CircularBuffer" where
  "raw_packet b cfg =
     (if Empty b then (NeedMore, b)
      else let (p, b') = Read b (min (Size b) (size_of_int (max_packet_len cfg))) in (Packet p, b'))"

definition TryParsePacket :: "CircularBuffer \<Rightarrow> NetConfig \<Rightarrow> parse \<times> CircularBuffer" where
  "TryParsePacket b cfg =
     (case custom_parser_fn cfg of
        Some parser \<Rightarrow>
          (case parser b of
             (Some p, b') \<Rightarrow> if Size b \<le> Size b' then (Violation, b') else (Packet p, b')
           | (None, b') \<Rightarrow> (NeedMore, b'))
      | None \<Rightarrow>
          (case framer cfg of
             Header4BigEndian \<Rightarrow> if Size b < 4 then (NeedMore, b) else header_packet b cfg 4 (len_be4 (Peek b 4))
           | Header4LittleEndian \<Rightarrow> if Size b < 4 then (NeedMore, b) else header_packet b cfg 4 (len_le4 (Peek b 4))
           | Header2BigEndian \<Rightarrow> if Size b < 2 then (NeedMore, b) else header_packet b cfg 2 (len_be2 (Peek b 2))
           | Header2LittleEndian \<Rightarrow> if Size b < 2 then (NeedMore, b) else header_packet b cfg 2 (len_le2 (Peek b 2))
           | LineDelimiter \<Rightarrow> line_packet b cfg
           | FixedLength \<Rightarrow> fixed_packet b cfg
           | RawStream \<Rightarrow> raw_packet b cfg
           | _ \<Rightarrow> (NeedMore, b)))"

section \<open>Headers\<close>

lemma bit_byte_at: "bit (byte_at k w) n \<longleftrightarrow> n < 8 \<and> bit w (k + n)"
proof -
  have "byte_at k w = ucast (drop_bit k w AND mask 8)" by (simp add: byte_at_def mask_eq_exp_minus_1)
  then show ?thesis by (auto simp: bit_simps dest: bit_imp_le_length)
qed

lemma bit_shifted: "bit (shifted k c) n \<longleftrightarrow> n < 64 \<and> k \<le> n \<and> bit c (n - k)"
  by (auto simp: shifted_def bit_simps dest: bit_imp_le_length)

lemma bit_byte_bound: "bit (c :: byte) n \<Longrightarrow> n < 8"
  by (drule bit_imp_le_length) simp

lemma join4:
  "ucast (byte_at 0 l) OR shifted 8 (byte_at 8 l) OR shifted 16 (byte_at 16 l) OR shifted 24 (byte_at 24 l) = ucast (l :: uint32)"
proof (rule bit_word_eqI)
  fix n assume n: "n < LENGTH(64)"
  have out: "n < 32" if "bit l n" using bit_imp_le_length [OF that] by simp
  have "bit (ucast (byte_at 0 l) OR shifted 8 (byte_at 8 l) OR shifted 16 (byte_at 16 l) OR shifted 24 (byte_at 24 l) :: uint64) n \<longleftrightarrow>
    (n < 8 \<or> 8 \<le> n \<and> n - 8 < 8 \<or> 16 \<le> n \<and> n - 16 < 8 \<or> 24 \<le> n \<and> n - 24 < 8) \<and> bit l n"
    using n by (auto simp: bit_or_iff bit_shifted bit_byte_at bit_unsigned_iff)
  also have "\<dots> \<longleftrightarrow> bit l n" using out by (cases "bit l n") (simp, linarith, simp)
  finally show "bit (ucast (byte_at 0 l) OR shifted 8 (byte_at 8 l) OR shifted 16 (byte_at 16 l) OR shifted 24 (byte_at 24 l) :: uint64) n
    = bit (ucast l :: uint64) n" using n by (simp add: bit_unsigned_iff)
qed

lemma join2: "ucast (byte_at 0 l) OR shifted 8 (byte_at 8 l) = ucast (l :: 16 word)"
proof (rule bit_word_eqI)
  fix n assume n: "n < LENGTH(64)"
  have out: "n < 16" if "bit l n" using bit_imp_le_length [OF that] by simp
  have "bit (ucast (byte_at 0 l) OR shifted 8 (byte_at 8 l) :: uint64) n \<longleftrightarrow> (n < 8 \<or> 8 \<le> n \<and> n - 8 < 8) \<and> bit l n"
    using n by (auto simp: bit_or_iff bit_shifted bit_byte_at bit_unsigned_iff)
  also have "\<dots> \<longleftrightarrow> bit l n" using out by (cases "bit l n") (simp, linarith, simp)
  finally show "bit (ucast (byte_at 0 l) OR shifted 8 (byte_at 8 l) :: uint64) n = bit (ucast l :: uint64) n"
    using n by (simp add: bit_unsigned_iff)
qed

lemma header_roundtrips:
  "len_be4 (be4 l) = unat l" "len_le4 (le4 l) = unat l" "len_be2 (be2 h) = unat h" "len_le2 (le2 h) = unat h"
proof -
  have u: "unat (ucast l :: uint64) = unat l" "unat (ucast h :: uint64) = unat h"
    by (simp_all add: unsigned_ucast_eq take_bit_nat_eq_self_iff order.strict_trans [OF unsigned_less])
  show "len_be4 (be4 l) = unat l" "len_le4 (le4 l) = unat l"
    using join4 [of l] u by (simp_all add: be4_def le4_def or.commute or.left_commute)
  show "len_be2 (be2 h) = unat h" "len_le2 (le2 h) = unat h"
    using join2 [of h] u by (simp_all add: be2_def le2_def or.commute)
qed

section \<open>What is written\<close>

text \<open>The bytes a packet becomes on the wire.\<close>

definition fixed_size :: "NetConfig \<Rightarrow> nat \<Rightarrow> nat" where
  "fixed_size cfg len = (if 0 < fixed_packet_len cfg then size_of_int (fixed_packet_len cfg) else len)"

definition encoded :: "NetConfig \<Rightarrow> byte list \<Rightarrow> byte list" where
  "encoded cfg data =
     (let len = length data in
      case framer cfg of
        Header4BigEndian \<Rightarrow> be4 (word_of_nat len) @ data
      | Header4LittleEndian \<Rightarrow> le4 (word_of_nat len) @ data
      | Header2BigEndian \<Rightarrow> be2 (word_of_nat len) @ data
      | Header2LittleEndian \<Rightarrow> le2 (word_of_nat len) @ data
      | LineDelimiter \<Rightarrow> data @ [10]
      | FixedLength \<Rightarrow> take (fixed_size cfg len) data @ replicate (fixed_size cfg len - len) 0
      | _ \<Rightarrow> data)"

lemma encoded_length: "length (encoded cfg data) = EncodedPacketSize cfg (length data)"
  by (simp add: encoded_def EncodedPacketSize_def fixed_size_def be4_def le4_def be2_def le2_def Let_def min_def
      split: FramerType.split)

lemma put_fits:
  assumes "ring_ok b" "length (content b) + length d \<le> Capacity b"
  shows "ring_ok (put b d)" "content (put b d) = content b @ d" "Capacity (put b d) = Capacity b"
  using ring.wr_fits [OF assms] by (simp_all add: put_def)

lemma put_put:
  assumes "ring_ok b" "length (content b) + length (d @ e) \<le> Capacity b"
  shows "ring_ok (put (put b d) e)" "content (put (put b d) e) = content b @ d @ e"
    "Capacity (put (put b d) e) = Capacity b"
proof -
  have 1: "length (content b) + length d \<le> Capacity b" using assms(2) by simp
  note p = put_fits [OF assms(1) 1]
  have "length (content (put b d)) + length e \<le> Capacity (put b d)" using p(2,3) assms(2) by simp
  from put_fits [OF p(1) this] show "ring_ok (put (put b d) e)" "content (put (put b d) e) = content b @ d @ e"
    "Capacity (put (put b d) e) = Capacity b" using p by simp_all
qed

lemma WritePacket_eq:
  assumes "custom_encoder_fn cfg = None"
  shows "WritePacket b cfg data =
    (if Capacity b - Size b < length (encoded cfg data) \<or>
        framer cfg \<in> {Header2BigEndian, Header2LittleEndian} \<and> 0xFFFF < length data then (False, b)
     else (True, case framer cfg of
          Header4BigEndian \<Rightarrow> put (put b (be4 (word_of_nat (length data)))) data
        | Header4LittleEndian \<Rightarrow> put (put b (le4 (word_of_nat (length data)))) data
        | Header2BigEndian \<Rightarrow> put (put b (be2 (word_of_nat (length data)))) data
        | Header2LittleEndian \<Rightarrow> put (put b (le2 (word_of_nat (length data)))) data
        | LineDelimiter \<Rightarrow> put (put b data) [10]
        | FixedLength \<Rightarrow> if fixed_size cfg (length data) \<le> length data then put b (take (fixed_size cfg (length data)) data)
                         else put (put b data) (replicate (fixed_size cfg (length data) - length data) 0)
        | _ \<Rightarrow> put b data))"
  using assms unfolding encoded_length
  by (simp add: WritePacket_def WritePacketHeader_def fixed_size_def Let_def split: FramerType.split)

lemma WritePacket_ok:
  assumes ok: "ring_ok b" and enc: "custom_encoder_fn cfg = None"
  shows "ring_ok (snd (WritePacket b cfg data))" "Capacity (snd (WritePacket b cfg data)) = Capacity b"
    "content (snd (WritePacket b cfg data)) =
       (if fst (WritePacket b cfg data) then content b @ encoded cfg data else content b)"
    "fst (WritePacket b cfg data) \<longleftrightarrow> length (content b) + length (encoded cfg data) \<le> Capacity b \<and>
       (framer cfg \<in> {Header2BigEndian, Header2LittleEndian} \<longrightarrow> length data \<le> 0xFFFF)"
proof -
  have sz: "Size b \<le> Capacity b" using ring.bounded [OF ok] by (simp add: Size_content)
  then have fits: "\<not> Capacity b - Size b < length (encoded cfg data) \<longleftrightarrow> length (content b) + length (encoded cfg data) \<le> Capacity b"
    by (auto simp: Size_content)
  show "fst (WritePacket b cfg data) \<longleftrightarrow> length (content b) + length (encoded cfg data) \<le> Capacity b \<and>
       (framer cfg \<in> {Header2BigEndian, Header2LittleEndian} \<longrightarrow> length data \<le> 0xFFFF)"
    unfolding WritePacket_eq [OF enc] using fits by auto
  have "ring_ok (snd (WritePacket b cfg data)) \<and> Capacity (snd (WritePacket b cfg data)) = Capacity b \<and>
    content (snd (WritePacket b cfg data)) = (if fst (WritePacket b cfg data) then content b @ encoded cfg data else content b)"
  proof (cases "fst (WritePacket b cfg data)")
    case False
    then have "WritePacket b cfg data = (False, b)" unfolding WritePacket_eq [OF enc] by (auto split: if_splits)
    then show ?thesis using ok by simp
  next
    case True
    then have f: "length (content b) + length (encoded cfg data) \<le> Capacity b"
      unfolding WritePacket_eq [OF enc] using fits by (auto split: if_splits)
    have one: "ring_ok (put b d) \<and> Capacity (put b d) = Capacity b \<and> content (put b d) = content b @ encoded cfg data"
      if "encoded cfg data = d" for d
      using put_fits [OF ok, of d] f that by simp
    have two: "ring_ok (put (put b d) e) \<and> Capacity (put (put b d) e) = Capacity b \<and>
        content (put (put b d) e) = content b @ encoded cfg data" if "encoded cfg data = d @ e" for d e
      using put_put [OF ok, of d e] f that by simp
    show ?thesis
    proof (cases "framer cfg")
      case FixedLength
      then show ?thesis
        using True one two unfolding WritePacket_eq [OF enc]
        by (auto simp: encoded_def Let_def split: if_splits)
    qed (use True one two in \<open>unfold WritePacket_eq [OF enc]; auto simp: encoded_def Let_def split: if_splits\<close>)+
  qed
  then show "ring_ok (snd (WritePacket b cfg data))" "Capacity (snd (WritePacket b cfg data)) = Capacity b"
    "content (snd (WritePacket b cfg data)) =
       (if fst (WritePacket b cfg data) then content b @ encoded cfg data else content b)" by auto
qed

section \<open>What is parsed\<close>

text \<open>
  The packets a configuration can carry: the length fits the header and the limit; a line has no newline
  and does not end in a carriage return; a fixed-length packet has exactly that length.
\<close>

definition frameable :: "NetConfig \<Rightarrow> byte list \<Rightarrow> bool" where
  "frameable cfg data \<longleftrightarrow>
     0 < max_packet_len cfg \<and> max_packet_len cfg < 2 ^ 31 \<and> int (length data) \<le> max_packet_len cfg \<and>
     (case framer cfg of
        Header4BigEndian \<Rightarrow> True
      | Header4LittleEndian \<Rightarrow> True
      | Header2BigEndian \<Rightarrow> length data \<le> 0xFFFF
      | Header2LittleEndian \<Rightarrow> length data \<le> 0xFFFF
      | LineDelimiter \<Rightarrow> 10 \<notin> set data \<and> (data \<noteq> [] \<longrightarrow> last data \<noteq> 13)
      | FixedLength \<Rightarrow> 0 < fixed_packet_len cfg \<and> int (length data) = fixed_packet_len cfg
      | _ \<Rightarrow> False)"

lemma size_of_int_small: "0 \<le> i \<Longrightarrow> i < 2 ^ 31 \<Longrightarrow> size_of_int i = nat i"
proof -
  assume a: "0 \<le> i" "i < 2 ^ 31"
  then have "i mod 2 ^ 64 = i" by (intro mod_pos_pos_trivial) auto
  then show ?thesis by (simp add: size_of_int_def)
qed

lemma Skip_Read:
  assumes "ring_ok b"
  shows "Read (snd (Skip b m)) n = (take n (drop m (content b)), snd (Read (snd (Skip b m)) n))"
    "ring_ok (snd (Read (snd (Skip b m)) n))" "content (snd (Read (snd (Skip b m)) n)) = drop (m + n) (content b)"
  using Skip_ok [OF assms, of m] Read_ok [of "snd (Skip b m)" n] by (auto simp: prod_eq_iff add.commute)

text \<open>One length-header packet at the front of the buffer, complete or not.\<close>

lemma header_packet_ok:
  assumes ok: "ring_ok b" and mx: "0 < max_packet_len cfg" "max_packet_len cfg < 2 ^ 31" "int n \<le> max_packet_len cfg"
    and cap: "hs + n \<le> Capacity b"
  shows "hs + n \<le> length (content b) \<Longrightarrow>
      header_packet b cfg hs n = (Packet (take n (drop hs (content b))), snd (Read (snd (Skip b hs)) n))"
    "length (content b) < hs + n \<Longrightarrow> header_packet b cfg hs n = (NeedMore, b)"
proof -
  have "\<not> size_of_int (max_packet_len cfg) < n" using mx by (simp add: size_of_int_small)
  then have v: "ValidatePayloadLen cfg n hs (Size b) (Capacity b) = (hs + n \<le> length (content b), False)"
    using cap by (auto simp: ValidatePayloadLen_def Let_def Size_content)
  show "header_packet b cfg hs n = (Packet (take n (drop hs (content b))), snd (Read (snd (Skip b hs)) n))"
    if "hs + n \<le> length (content b)"
    using that arg_cong [OF Skip_Read(1) [OF ok, of hs n], of fst] unfolding header_packet_def v
    by (simp add: split_beta)
  show "header_packet b cfg hs n = (NeedMore, b)" if "length (content b) < hs + n"
    using that unfolding header_packet_def v by simp
qed

lemma find_newline_app: "10 \<notin> set xs \<Longrightarrow> find_newline (xs @ 10 # ys) = Some (length xs)"
  by (induction xs) auto

lemma find_newline_none: "find_newline xs = None \<longleftrightarrow> 10 \<notin> set xs"
  by (induction xs) auto

lemma line_packet_ok:
  assumes ok: "ring_ok b" and mx: "0 < max_packet_len cfg" "max_packet_len cfg < 2 ^ 31" "int (length d) \<le> max_packet_len cfg"
    and d: "10 \<notin> set d" "d \<noteq> [] \<longrightarrow> last d \<noteq> 13"
  shows "content b = d @ [10] @ rest \<Longrightarrow> line_packet b cfg = (Packet d, snd (Read b (length d + 1)))"
    "content b = take k d \<Longrightarrow> line_packet b cfg = (NeedMore, b)"
proof -
  define m where "m = nat (max_packet_len cfg)"
  have m: "size_of_int (max_packet_len cfg) = m" "length d \<le> m"
    using mx by (auto simp: m_def size_of_int_small)
  show "line_packet b cfg = (Packet d, snd (Read b (length d + 1)))" if c: "content b = d @ [10] @ rest"
  proof -
    have sz: "Size b = length d + 1 + length rest" "\<not> Empty b" using c by (auto simp: Size_content Empty_def simp flip: content_length)
    have "Peek b (min (Size b) (m + 1)) = d @ 10 # take (min (Size b) (m + 1) - length d - 1) rest"
      using m(2) sz by (simp add: Peek_ok [OF ok] c take_Cons')
    then have f: "find_newline (Peek b (min (Size b) (m + 1))) = Some (length d)" using find_newline_app [OF d(1)] by simp
    have "Read b (length d + 1) = (d @ [10], snd (Read b (length d + 1)))"
      using Read_ok(1) [OF ok, of "length d + 1"] c by (simp add: prod_eq_iff)
    moreover have "\<not> (0 < length d \<and> (d @ [10]) ! (length d - 1) = 13)"
      using d(2) by (auto simp: nth_append last_conv_nth)
    ultimately show ?thesis using sz(2) f m mx(1) unfolding line_packet_def by (auto split: prod.split)
  qed
  show "line_packet b cfg = (NeedMore, b)" if c: "content b = take k d"
  proof (cases "Empty b")
    case False
    have "10 \<notin> set (content b)" using d(1) in_set_takeD unfolding c by fast
    then have "10 \<notin> set (Peek b n)" for n using in_set_takeD unfolding Peek_ok [OF ok] by fast
    then have "find_newline (Peek b n) = None" for n by (simp add: find_newline_none)
    moreover have "Size b \<le> m" using m(2) by (simp add: Size_content c)
    ultimately show ?thesis using m False by (simp add: line_packet_def Let_def)
  qed (simp add: line_packet_def)
qed

lemma fixed_packet_ok:
  assumes ok: "ring_ok b" and mx: "0 < max_packet_len cfg" "max_packet_len cfg < 2 ^ 31" "int (length d) \<le> max_packet_len cfg"
    and d: "0 < fixed_packet_len cfg" "int (length d) = fixed_packet_len cfg" and cap: "length d \<le> Capacity b"
  shows "content b = d @ rest \<Longrightarrow> fixed_packet b cfg = (Packet d, snd (Read b (length d)))"
    "content b = take k d \<Longrightarrow> k < length d \<Longrightarrow> fixed_packet b cfg = (NeedMore, b)"
proof -
  have m: "nat (fixed_packet_len cfg mod 2 ^ 32) = length d" "nat (max_packet_len cfg mod 2 ^ 32) = nat (max_packet_len cfg)"
    using mx d by (subst mod_pos_pos_trivial; simp)+
  have nv: "\<not> (Capacity b < length d \<or> 0 < max_packet_len cfg \<and> nat (max_packet_len cfg) < length d)"
    using cap mx by auto
  show "fixed_packet b cfg = (Packet d, snd (Read b (length d)))" if c: "content b = d @ rest"
  proof -
    have "Read b (length d) = (d, snd (Read b (length d)))"
      using Read_ok(1) [OF ok, of "length d"] c by (simp add: prod_eq_iff)
    moreover have "\<not> Size b < length d" by (simp add: Size_content c)
    ultimately show ?thesis using d(1) nv unfolding fixed_packet_def m Let_def by (auto split: prod.split)
  qed
  show "fixed_packet b cfg = (NeedMore, b)" if c: "content b = take k d" "k < length d"
  proof -
    have "Size b < length d" using c(2) by (simp add: Size_content c(1))
    then show ?thesis using d(1) nv unfolding fixed_packet_def m Let_def by auto
  qed
qed

lemma header_take:
  assumes "content b = take k (h @ d) @ rest" "length h \<le> k"
  shows "take (length h) (content b) = h"
  using assms by simp

lemma word_of_nat_len4: "n < 2 ^ 32 \<Longrightarrow> unat (word_of_nat n :: uint32) = n"
  by (simp add: unat_of_nat)

lemma word_of_nat_len2: "n \<le> 0xFFFF \<Longrightarrow> unat (word_of_nat n :: 16 word) = n"
  by (simp add: unat_of_nat)

text \<open>Framers with a length header are all of this shape.\<close>

definition header_of :: "NetConfig \<Rightarrow> nat \<Rightarrow> byte list" where
  "header_of cfg len = (case framer cfg of
      Header4BigEndian \<Rightarrow> be4 (word_of_nat len)
    | Header4LittleEndian \<Rightarrow> le4 (word_of_nat len)
    | Header2BigEndian \<Rightarrow> be2 (word_of_nat len)
    | Header2LittleEndian \<Rightarrow> le2 (word_of_nat len)
    | _ \<Rightarrow> [])"

definition has_header :: "NetConfig \<Rightarrow> bool" where
  "has_header cfg \<longleftrightarrow> framer cfg \<in> {Header4BigEndian, Header4LittleEndian, Header2BigEndian, Header2LittleEndian}"

lemma parse_header:
  assumes ok: "ring_ok b" and p: "custom_parser_fn cfg = None" and h: "has_header cfg" and fr: "frameable cfg d"
    and c: "content b = take k (header_of cfg (length d) @ d) @ rest" and k: "length (content b) < length (header_of cfg (length d)) \<or> length (header_of cfg (length d)) \<le> k"
  shows "TryParsePacket b cfg =
    (if length (content b) < length (header_of cfg (length d)) then (NeedMore, b)
     else header_packet b cfg (length (header_of cfg (length d))) (length d))"
proof -
  define hd where "hd = header_of cfg (length d)"
  have n: "length d < 2 ^ 32" using fr by (auto simp: frameable_def)
  have pk: "Peek b (length hd) = hd" if "\<not> length (content b) < length hd"
    using that header_take [OF c] k by (simp add: Peek_ok [OF ok] hd_def)
  have two: "length d \<le> 0xFFFF" if "framer cfg \<in> {Header2BigEndian, Header2LittleEndian}"
    using fr that by (auto simp: frameable_def)
  have hdl: "length hd = (if framer cfg \<in> {Header2BigEndian, Header2LittleEndian} then 2 else 4)"
    using h by (auto simp: hd_def header_of_def has_header_def be4_def le4_def be2_def le2_def)
  have l: "len_be4 (be4 (word_of_nat (length d))) = length d" "len_le4 (le4 (word_of_nat (length d))) = length d"
    by (simp_all add: header_roundtrips word_of_nat_len4 [OF n])
  have l2: "len_be2 (be2 (word_of_nat (length d))) = length d" "len_le2 (le2 (word_of_nat (length d))) = length d"
    if "length d \<le> 0xFFFF"
    by (simp_all add: header_roundtrips word_of_nat_len2 [OF that])
  show ?thesis
  proof (cases "length (content b) < length hd")
    case True
    then show ?thesis using h hdl p unfolding hd_def [symmetric]
      by (auto simp: TryParsePacket_def has_header_def Size_content simp del: content_length)
  next
    case False
    then have "TryParsePacket b cfg = header_packet b cfg (length hd) (length d)"
      using h hdl p pk [OF False] l l2 two unfolding has_header_def
      by (auto simp: TryParsePacket_def Size_content hd_def header_of_def simp del: content_length)
    then show ?thesis using False by (simp add: hd_def)
  qed
qed

lemma encoded_header: "has_header cfg \<Longrightarrow> encoded cfg d = header_of cfg (length d) @ d"
  by (auto simp: has_header_def encoded_def header_of_def Let_def)

lemma frameable_cases:
  assumes "frameable cfg d"
  obtains (header) "has_header cfg" | (line) "framer cfg = LineDelimiter" | (fixed) "framer cfg = FixedLength"
  using assms by (cases "framer cfg") (auto simp: frameable_def has_header_def)

lemma parse_complete:
  assumes ok: "ring_ok b" and p: "custom_parser_fn cfg = None" and fr: "frameable cfg d"
    and c: "content b = encoded cfg d @ rest"
  shows "\<exists>b'. TryParsePacket b cfg = (Packet d, b') \<and> ring_ok b' \<and> content b' = rest \<and> Capacity b' = Capacity b"
  using fr
proof (cases rule: frameable_cases)
  case header
  define hs where "hs = header_of cfg (length d)"
  have c': "content b = take (length hs + length d) (hs @ d) @ rest" using c by (simp add: encoded_header [OF header] hs_def)
  have len: "\<not> length (content b) < length hs" "length hs + length d \<le> length (content b)" by (simp_all add: c')
  have "TryParsePacket b cfg = header_packet b cfg (length hs) (length d)"
    using parse_header [OF ok p header fr c' [unfolded hs_def]] len(1) by (simp add: hs_def)
  moreover have "length (content b) \<le> Capacity b" by (rule ring.bounded [OF ok])
  ultimately have "TryParsePacket b cfg = (Packet d, snd (Read (snd (Skip b (length hs))) (length d)))"
    using header_packet_ok(1) [OF ok, of cfg "length d" "length hs"] fr len(2) c' by (auto simp: frameable_def)
  moreover have "Capacity (snd (Read (snd (Skip b (length hs))) (length d))) = Capacity b"
    using Read_ok(4) [OF Skip_ok(2) [OF ok]] Skip_ok(4) [OF ok] by simp
  ultimately show ?thesis using Skip_Read(2,3) [OF ok, of "length hs" "length d"] c' by simp
next
  case line
  then have "TryParsePacket b cfg = (Packet d, snd (Read b (length d + 1)))"
    using line_packet_ok(1) [OF ok, of cfg d rest] fr c p
    by (simp add: TryParsePacket_def frameable_def encoded_def Let_def)
  then show ?thesis
    using Read_ok(2-4) [OF ok, of "length d + 1"] c line by (simp add: encoded_def Let_def)
next
  case fixed
  have f: "int (length d) = fixed_packet_len cfg" "0 < fixed_packet_len cfg" "fixed_packet_len cfg < 2 ^ 31"
    using fr fixed by (auto simp: frameable_def)
  then have "fixed_size cfg (length d) = length d" by (simp add: fixed_size_def size_of_int_small)
  then have e: "encoded cfg d = d" using fixed by (simp add: encoded_def Let_def)
  have "length d \<le> Capacity b" using ring.bounded [OF ok] c e by simp
  then have "TryParsePacket b cfg = (Packet d, snd (Read b (length d)))"
    using fixed_packet_ok(1) [OF ok, of cfg d rest] fr c p fixed e f
    by (simp add: TryParsePacket_def frameable_def)
  then show ?thesis using Read_ok(2-4) [OF ok, of "length d"] c e by simp
qed

lemma parse_partial:
  assumes ok: "ring_ok b" and p: "custom_parser_fn cfg = None" and fr: "frameable cfg d"
    and c: "content b = take k (encoded cfg d)" and k: "k < length (encoded cfg d)"
    and cap: "length (encoded cfg d) \<le> Capacity b"
  shows "TryParsePacket b cfg = (NeedMore, b)"
  using fr
proof (cases rule: frameable_cases)
  case header
  define hs where "hs = header_of cfg (length d)"
  have c': "content b = take k (hs @ d) @ []" using c by (simp add: encoded_header [OF header] hs_def)
  have len: "length (content b) = k" using k by (simp add: c)
  have "TryParsePacket b cfg = (if k < length hs then (NeedMore, b) else header_packet b cfg (length hs) (length d))"
    using parse_header [OF ok p header fr c' [unfolded hs_def]] unfolding len hs_def by fastforce
  moreover have "header_packet b cfg (length hs) (length d) = (NeedMore, b)"
    using header_packet_ok(2) [OF ok, of cfg "length d" "length hs"] fr len k cap
    by (simp add: frameable_def encoded_header [OF header] hs_def)
  ultimately show ?thesis by simp
next
  case line
  have "content b = take k d" using c k line by (simp add: encoded_def Let_def)
  then show ?thesis
    using line_packet_ok(2) [OF ok, of cfg d k] fr p line by (simp add: TryParsePacket_def frameable_def)
next
  case fixed
  have f: "int (length d) = fixed_packet_len cfg" "0 < fixed_packet_len cfg" "fixed_packet_len cfg < 2 ^ 31"
    using fr fixed by (auto simp: frameable_def)
  then have "fixed_size cfg (length d) = length d" by (simp add: fixed_size_def size_of_int_small)
  then have e: "encoded cfg d = d" using fixed by (simp add: encoded_def Let_def)
  show ?thesis
    using fixed_packet_ok(2) [OF ok, of cfg d k] fr c p fixed e f k cap
    by (simp add: TryParsePacket_def frameable_def)
qed

section \<open>Properties\<close>

text \<open>
  C34. Packets survive the wire: what \<open>WritePacket\<close> put into the send buffer, arriving in the receive
  buffer in front of anything else, is parsed back to the same payload, and exactly its bytes are
  consumed; while only a proper prefix of it has arrived, the parser waits, without an error and without
  consuming anything.
\<close>
theorem packet_roundtrip:
  assumes "ring_ok s" and "ring_ok r" and "frameable cfg d"
    and "custom_encoder_fn cfg = None" and "custom_parser_fn cfg = None"
    and "WritePacket s cfg d = (True, s')" and "length (content s') - length (content s) \<le> Capacity r"
  shows "(content r = drop (length (content s)) (content s') @ rest \<longrightarrow>
      (\<exists>r'. TryParsePacket r cfg = (Packet d, r') \<and> ring_ok r' \<and> content r' = rest)) \<and>
    (content r = take k (drop (length (content s)) (content s')) \<and> k < length (content s') - length (content s) \<longrightarrow>
      TryParsePacket r cfg = (NeedMore, r))"
proof -
  have "content s' = content s @ encoded cfg d"
    using WritePacket_ok(3) [OF assms(1,4), of d] assms(6) by simp
  then have e: "drop (length (content s)) (content s') = encoded cfg d"
    "length (content s') - length (content s) = length (encoded cfg d)" by simp_all
  show ?thesis
    unfolding e using parse_complete [OF assms(2,5,3)] parse_partial [OF assms(2,5,3)] assms(7) e(2) by metis
qed

definition demo_cfg :: NetConfig where
  "demo_cfg = \<lparr>framer = Header2BigEndian, max_packet_len = 8, fixed_packet_len = 0,
     custom_parser_fn = None, custom_encoder_fn = None\<rparr>"

definition demo_sent :: CircularBuffer where
  "demo_sent = \<lparr>buf = [7, 1, 0, 2, 9], head = 2, tail = 1, bsize = 4\<rparr>"

lemma demo_sent_written:
  "WritePacket (CircularBuffer_new 5) demo_cfg [9, 7] = (True, snd (WritePacket (CircularBuffer_new 5) demo_cfg [9, 7]))"
  "content (snd (WritePacket (CircularBuffer_new 5) demo_cfg [9, 7])) = [0, 2, 9, 7]"
  "content demo_sent = [0, 2, 9, 7]" "content (CircularBuffer_new 5) = []"
proof -
  show w: "WritePacket (CircularBuffer_new 5) demo_cfg [9, 7] =
      (True, snd (WritePacket (CircularBuffer_new 5) demo_cfg [9, 7]))"
    by (simp add: WritePacket_def demo_cfg_def EncodedPacketSize_def Capacity_def Size_def CircularBuffer_new_def Let_def)
  show c: "content (CircularBuffer_new 5) = []" using CircularBuffer_new_ok [of 5] by simp
  have "fst (WritePacket (CircularBuffer_new 5) demo_cfg [9, 7])" using w by (metis fst_conv)
  moreover have "custom_encoder_fn demo_cfg = None" "ring_ok (CircularBuffer_new 5)"
    using CircularBuffer_new_ok [of 5] by (simp_all add: demo_cfg_def)
  ultimately have "content (snd (WritePacket (CircularBuffer_new 5) demo_cfg [9, 7])) = encoded demo_cfg [9, 7]"
    using WritePacket_ok(3) [of "CircularBuffer_new 5" demo_cfg "[9, 7]"] c by simp
  then show "content (snd (WritePacket (CircularBuffer_new 5) demo_cfg [9, 7])) = [0, 2, 9, 7]"
    by (simp add: encoded_def demo_cfg_def be2_def byte_at_def drop_bit_eq_div)
  show "content demo_sent = [0, 2, 9, 7]" by (simp add: content_def demo_sent_def upt_rec)
qed

theorem packet_roundtrip_witness:
  "\<exists>r'. TryParsePacket demo_sent demo_cfg = (Packet [9, 7], r') \<and> ring_ok r' \<and> content r' = []"
proof -
  have r: "ring_ok (CircularBuffer_new 5)" using CircularBuffer_new_ok [of 5] by simp
  have s: "ring_ok demo_sent" "frameable demo_cfg [9, 7]"
    by (simp_all add: ring_ok_def demo_sent_def frameable_def demo_cfg_def)
  have "custom_encoder_fn demo_cfg = None" "custom_parser_fn demo_cfg = None" by (simp_all add: demo_cfg_def)
  moreover have "length (content (snd (WritePacket (CircularBuffer_new 5) demo_cfg [9, 7]))) -
      length (content (CircularBuffer_new 5)) \<le> Capacity demo_sent"
    by (simp add: demo_sent_written(2,4) Capacity_def demo_sent_def)
  ultimately show ?thesis
    using packet_roundtrip [OF r s _ _ demo_sent_written(1), of "[]"] demo_sent_written(2-4) by simp
qed

text \<open>
  C35. \<open>WritePacket\<close> is all or nothing: it either appends the whole encoding of the packet, which needs to
  fit and, for a two-byte header, at most 65535 bytes of payload, or it leaves the buffer's content alone
  and says so.
\<close>
theorem write_packet_all_or_nothing:
  assumes "ring_ok b" and "custom_encoder_fn cfg = None"
  shows "ring_ok (snd (WritePacket b cfg d)) \<and>
    (fst (WritePacket b cfg d) \<longleftrightarrow> length (content b) + length (encoded cfg d) \<le> Capacity b \<and>
       (framer cfg \<in> {Header2BigEndian, Header2LittleEndian} \<longrightarrow> length d \<le> 0xFFFF)) \<and>
    content (snd (WritePacket b cfg d)) = (if fst (WritePacket b cfg d) then content b @ encoded cfg d else content b)"
  using WritePacket_ok [OF assms] by blast

theorem write_packet_all_or_nothing_witness:
  "ring_ok (snd (WritePacket demo_ring demo_cfg [1])) \<and>
    (fst (WritePacket demo_ring demo_cfg [1]) \<longleftrightarrow> length (content demo_ring) + length (encoded demo_cfg [1]) \<le> Capacity demo_ring \<and>
       (framer demo_cfg \<in> {Header2BigEndian, Header2LittleEndian} \<longrightarrow> length [1 :: byte] \<le> 0xFFFF)) \<and>
    content (snd (WritePacket demo_ring demo_cfg [1])) =
      (if fst (WritePacket demo_ring demo_cfg [1]) then content demo_ring @ encoded demo_cfg [1] else content demo_ring)"
  by (rule write_packet_all_or_nothing) (simp_all add: ring_ok_def demo_ring_def demo_cfg_def)

end
