(* ===== verification/WireCodec.thy ===== *)
theory WireCodec
imports TableLib
begin

text \<open>
  The binary wire format of \<open>native/serialize/wire_codec.cpp\<close>: one tag byte and a payload per value,
  integers zigzagged into LEB128 varints, strings written once and referred to by number afterwards,
  tables as the list of their pairs. The input cursor \<open>(in, pos)\<close> is the string that is left. The
  pairs of a table come from \<open>TableHelper::ForEachKV\<close>, so encoding has the enumeration of each table
  address as argument; decoding creates and fills tables in the state of a native call. Recursion is
  bounded by the depth limit of 64, which is also the termination measure.
\<close>

section \<open>Primitive encodings\<close>

definition byte_chr :: "uint64 \<Rightarrow> char" where "byte_chr w = char_of (unat w)"

lemma unat_drop_bit7: "unat (drop_bit 7 (v :: uint64)) = unat v div 128"
  unfolding unat_drop_bit_eq by (simp add: drop_bit_eq_div)

function WriteVarint :: "uint64 \<Rightarrow> string" where
  "WriteVarint v =
     (if 0x80 \<le> v then byte_chr ((v AND 0x7F) OR 0x80) # WriteVarint (drop_bit 7 v) else [byte_chr v])"
  by auto

termination
proof (relation "measure unat", simp)
  fix v :: uint64 assume "0x80 \<le> v"
  then have "128 \<le> unat v" by (simp add: word_le_nat_alt)
  then show "(drop_bit 7 v, v) \<in> measure unat" by (simp add: unat_drop_bit7)
qed

declare WriteVarint.simps [simp del]

fun read_varint :: "uint64 \<Rightarrow> nat \<Rightarrow> string \<Rightarrow> (uint64 \<times> string) result" where
  "read_varint res shift [] = Inl ''wire.decode: truncated varint''"
| "read_varint res shift (c # cs) =
     (let b = of_char c :: uint64; res' = res OR push_bit shift (b AND 0x7F) in
      if b AND 0x80 = 0 then Inr (res', cs)
      else if 64 \<le> shift + 7 then Inl ''wire.decode: varint too long''
      else read_varint res' (shift + 7) cs)"

definition ReadVarint :: "string \<Rightarrow> (uint64 \<times> string) result" where
  "ReadVarint = read_varint 0 0"

definition ZigzagEncode :: "int64 \<Rightarrow> uint64" where
  "ZigzagEncode n = push_bit 1 n XOR signed_drop_bit 63 n"

definition ZigzagDecode :: "uint64 \<Rightarrow> int64" where
  "ZigzagDecode u = drop_bit 1 u XOR (- (u AND 1))"

text \<open>\<open>memcpy\<close> of a double, little endian.\<close>

definition WriteDouble :: "double \<Rightarrow> string" where
  "WriteDouble v = map (\<lambda>i. byte_chr (drop_bit (8 * i) v AND 0xFF)) [0..<8]"

definition ReadDouble :: "string \<Rightarrow> (double \<times> string) result" where
  "ReadDouble s =
     (if length s < 8 then Inl ''wire.decode: truncated double''
      else Inr (foldr (\<lambda>c acc. push_bit 8 acc OR of_char c) (take 8 s) 0, drop 8 s))"

section \<open>Encoding\<close>

definition TAG_NIL :: char where "TAG_NIL = char_of (0 :: nat)"
definition TAG_FALSE :: char where "TAG_FALSE = char_of (1 :: nat)"
definition TAG_TRUE :: char where "TAG_TRUE = char_of (2 :: nat)"
definition TAG_INT :: char where "TAG_INT = char_of (3 :: nat)"
definition TAG_DOUBLE :: char where "TAG_DOUBLE = char_of (4 :: nat)"
definition TAG_STR_NEW :: char where "TAG_STR_NEW = char_of (5 :: nat)"
definition TAG_STR_REF :: char where "TAG_STR_REF = char_of (6 :: nat)"
definition TAG_TABLE :: char where "TAG_TABLE = char_of (7 :: nat)"

lemmas tag_defs = TAG_NIL_def TAG_FALSE_def TAG_TRUE_def TAG_INT_def TAG_DOUBLE_def TAG_STR_NEW_def TAG_STR_REF_def TAG_TABLE_def

definition kWireMaxDepth :: nat where "kWireMaxDepth = 64"

fun IsSupported :: "cvar \<Rightarrow> bool" where
  "IsSupported (VMulti _) = False"
| "IsSupported (VClosure _) = False"
| "IsSupported _ = True"

text \<open>The dictionary of the encoder: strings with their ids, oldest first.\<close>

type_synonym enc_dict = "(string \<times> uint32) list"
type_synonym pair_enum = "ptr \<Rightarrow> (cvar \<times> cvar) list"

definition encode_string :: "enc_dict \<Rightarrow> string \<Rightarrow> string \<times> enc_dict" where
  "encode_string dict sv =
     (case map_of dict sv of
        Some i \<Rightarrow> (TAG_STR_REF # WriteVarint (ucast i), dict)
      | None \<Rightarrow> (TAG_STR_NEW # WriteVarint (word_of_nat (length sv)) @ sv, dict @ [(sv, word_of_nat (length dict))]))"

text \<open>Keys and values one after the other.\<close>

fun encode_seq :: "(enc_dict \<Rightarrow> cvar \<Rightarrow> (string \<times> enc_dict) result) \<Rightarrow> enc_dict \<Rightarrow> cvar list \<Rightarrow> (string \<times> enc_dict) result" where
  "encode_seq f dict [] = Inr ([], dict)"
| "encode_seq f dict (v # vs) =
     rbind (f dict v) (\<lambda>(b, d). rbind (encode_seq f d vs) (\<lambda>(b', d'). Inr (b @ b', d')))"

definition flat_pairs :: "(cvar \<times> cvar) list \<Rightarrow> cvar list" where
  "flat_pairs ps = concat (map (\<lambda>(k, v). [k, v]) ps)"

definition supported_pairs :: "(cvar \<times> cvar) list \<Rightarrow> (cvar \<times> cvar) list" where
  "supported_pairs ps = filter (\<lambda>(k, v). IsSupported k \<and> IsSupported v) ps"

function EncodeValue :: "pair_enum \<Rightarrow> nat \<Rightarrow> ptr set \<Rightarrow> enc_dict \<Rightarrow> cvar \<Rightarrow> (string \<times> enc_dict) result" where
  "EncodeValue kvs depth visited dict v =
     (case v of
        VNil \<Rightarrow> Inr ([TAG_NIL], dict)
      | VBool b \<Rightarrow> Inr ([if b then TAG_TRUE else TAG_FALSE], dict)
      | VInt i \<Rightarrow> Inr (TAG_INT # WriteVarint (ZigzagEncode i), dict)
      | VFloat d \<Rightarrow> Inr (TAG_DOUBLE # WriteDouble d, dict)
      | VString sv \<Rightarrow> Inr (encode_string dict sv)
      | VStringId sv \<Rightarrow> Inr (encode_string dict sv)
      | VTable _ t \<Rightarrow>
          if t = 0 then Inr (TAG_TABLE # WriteVarint 0, dict)
          else if kWireMaxDepth \<le> depth then Inl ''wire.encode: nesting too deep''
          else if t \<in> visited then Inl ''wire.encode: cyclic table''
          else
            let ps = supported_pairs (kvs t) in
            rbind (encode_seq (EncodeValue kvs (depth + 1) (insert t visited)) dict (flat_pairs ps)) (\<lambda>(b, d).
              Inr (TAG_TABLE # WriteVarint (word_of_nat (length ps)) @ b, d))
      | _ \<Rightarrow> Inl (''wire.encode: unsupported type: '' @ VarTypeToString (Type v)))"
  by pat_completeness auto
termination by (relation "measure (\<lambda>(kvs, depth, visited, dict, v). kWireMaxDepth - depth)") auto

declare EncodeValue.simps [simp del]

section \<open>Decoding\<close>

type_synonym decoder = "string list \<Rightarrow> string \<Rightarrow> (cvar \<times> string \<times> string list) nstep"

definition set_pair :: "spec_env \<Rightarrow> cvar \<Rightarrow> cvar \<Rightarrow> cvar \<Rightarrow> unit nstep" where
  "set_pair env tbl k v s = on_table (tbl_ptr tbl) (\<lambda>t. SetTable env (interp_const_alloc s) (tbl_flag tbl) t k v) s"

fun decode_pairs :: "decoder \<Rightarrow> spec_env \<Rightarrow> cvar \<Rightarrow> nat \<Rightarrow> string list \<Rightarrow> string \<Rightarrow> (string \<times> string list) nstep" where
  "decode_pairs f env tbl 0 dict inp = nret (inp, dict)"
| "decode_pairs f env tbl (Suc n) dict inp =
     nbind (f dict inp) (\<lambda>(k, inp1, dict1).
     nbind (f dict1 inp1) (\<lambda>(v, inp2, dict2).
     nbind (set_pair env tbl k v) (\<lambda>_. decode_pairs f env tbl n dict2 inp2)))"

definition decode_string :: "string list \<Rightarrow> string \<Rightarrow> (cvar \<times> string \<times> string list) result" where
  "decode_string dict inp =
     rbind (ReadVarint inp) (\<lambda>(n, inp1).
       if length inp1 < unat n then Inl ''wire.decode: truncated string''
       else Inr (VString (take (unat n) inp1), drop (unat n) inp1, dict @ [take (unat n) inp1]))"

definition decode_ref :: "string list \<Rightarrow> string \<Rightarrow> (cvar \<times> string \<times> string list) result" where
  "decode_ref dict inp =
     rbind (ReadVarint inp) (\<lambda>(i, inp1).
       if length dict \<le> unat i then Inl ''wire.decode: bad string ref id''
       else Inr (VString (dict ! unat i), inp1, dict))"

function DecodeValue :: "spec_env \<Rightarrow> nat \<Rightarrow> decoder" where
  "DecodeValue env depth dict inp =
     (case inp of
        [] \<Rightarrow> nthrow ''wire.decode: unexpected end of input''
      | tag # rest \<Rightarrow>
          if tag = TAG_NIL then nret (VNil, rest, dict)
          else if tag = TAG_FALSE then nret (VBool False, rest, dict)
          else if tag = TAG_TRUE then nret (VBool True, rest, dict)
          else if tag = TAG_INT then nlift (rbind (ReadVarint rest) (\<lambda>(u, r). Inr (VInt (ZigzagDecode u), r, dict)))
          else if tag = TAG_DOUBLE then nlift (rbind (ReadDouble rest) (\<lambda>(d, r). Inr (VFloat d, r, dict)))
          else if tag = TAG_STR_NEW then nlift (decode_string dict rest)
          else if tag = TAG_STR_REF then nlift (decode_ref dict rest)
          else if tag = TAG_TABLE then
            if kWireMaxDepth \<le> depth then nthrow ''wire.decode: nesting too deep''
            else (case ReadVarint rest of
                Inl e \<Rightarrow> nthrow e
              | Inr (n, r) \<Rightarrow>
                  if length r div 2 < unat n then nthrow ''wire.decode: table too large''
                  else nbind new_table (\<lambda>tbl.
                    nbind (decode_pairs (DecodeValue env (depth + 1)) env tbl (unat n) dict r) (\<lambda>(r', dict').
                      nret (tbl, r', dict'))))
          else nthrow (''wire.decode: unknown tag: '' @ dec_digits (of_char tag)))"
  by pat_completeness auto
termination by (relation "measure (\<lambda>(env, depth, dict, inp). kWireMaxDepth - depth)") auto

declare DecodeValue.simps [simp del]

section \<open>The interface\<close>

definition WireIsSerializable :: "cvar \<Rightarrow> bool" where "WireIsSerializable v = IsSupported v"

definition WireEncode :: "pair_enum \<Rightarrow> cvar \<Rightarrow> string result" where
  "WireEncode kvs v = rbind (EncodeValue kvs 0 {} [] v) (\<lambda>(out, _). Inr out)"

definition WireDecode :: "spec_env \<Rightarrow> string \<Rightarrow> cvar nstep" where
  "WireDecode env inp =
     nbind (DecodeValue env 0 [] inp) (\<lambda>(v, rest, _).
       if rest \<noteq> [] then nthrow ''wire.decode: trailing bytes'' else nret v)"

definition unserialisable :: exn where
  "unserialisable = ''callback args must be nil, boolean, number, string or a table thereof (closures and native objects are not allowed)''"

fun validate_seq :: "(cvar \<Rightarrow> unit result) \<Rightarrow> cvar list \<Rightarrow> unit result" where
  "validate_seq f [] = Inr ()"
| "validate_seq f (v # vs) = rbind (f v) (\<lambda>_. validate_seq f vs)"

function ValidateStrict :: "pair_enum \<Rightarrow> string \<Rightarrow> nat \<Rightarrow> nat \<Rightarrow> ptr set \<Rightarrow> cvar \<Rightarrow> unit result" where
  "ValidateStrict kvs fname argno depth visited v =
     (if \<not> IsSupported v then Inl (bad_argument argno fname unserialisable)
      else case v of
          VTable _ t \<Rightarrow>
            if t = 0 then Inr ()
            else if kWireMaxDepth \<le> depth then Inl ''callback args: nesting too deep''
            else if t \<in> visited then Inl ''callback args: cyclic table''
            else validate_seq (ValidateStrict kvs fname argno (depth + 1) (insert t visited)) (flat_pairs (kvs t))
        | _ \<Rightarrow> Inr ())"
  by pat_completeness auto
termination by (relation "measure (\<lambda>(kvs, fname, argno, depth, visited, v). kWireMaxDepth - depth)") auto

declare ValidateStrict.simps [simp del]

fun validate_args :: "pair_enum \<Rightarrow> string \<Rightarrow> nat \<Rightarrow> cvar list \<Rightarrow> unit result" where
  "validate_args kvs fname argno [] = Inr ()"
| "validate_args kvs fname argno (v # vs) =
     rbind (ValidateStrict kvs fname argno 0 {} v) (\<lambda>_. validate_args kvs fname (argno + 1) vs)"

definition WireEncodeCallbackArgs :: "pair_enum \<Rightarrow> cvar list \<Rightarrow> nat \<Rightarrow> string \<Rightarrow> nat \<Rightarrow> string result" where
  "WireEncodeCallbackArgs kvs args first fname argno_base =
     (let vs = drop first args in
      if vs = [] then Inr (WriteVarint 0)
      else rbind (validate_args kvs fname argno_base vs) (\<lambda>_.
        rbind (encode_seq (EncodeValue kvs 0 {}) [] vs) (\<lambda>(b, _). Inr (WriteVarint (word_of_nat (length vs)) @ b))))"

fun decode_seq :: "decoder \<Rightarrow> nat \<Rightarrow> string list \<Rightarrow> string \<Rightarrow> (cvar list \<times> string \<times> string list) nstep" where
  "decode_seq f 0 dict inp = nret ([], inp, dict)"
| "decode_seq f (Suc n) dict inp =
     nbind (f dict inp) (\<lambda>(v, inp1, dict1). nbind (decode_seq f n dict1 inp1) (\<lambda>(vs, inp2, dict2). nret (v # vs, inp2, dict2)))"

text \<open>The \<open>reserve\<close> of the announced number of values is not modelled.\<close>

definition WireDecodeCallbackArgs :: "spec_env \<Rightarrow> string \<Rightarrow> (cvar list \<times> string list) nstep" where
  "WireDecodeCallbackArgs env blob =
     (if blob = [] then nret ([], [])
      else case ReadVarint blob of
          Inl e \<Rightarrow> nthrow e
        | Inr (n, r) \<Rightarrow>
            nbind (decode_seq (DecodeValue env 0) (unat n) [] r) (\<lambda>(vs, rest, dict).
              if rest \<noteq> [] then nthrow ''wire.decode: trailing bytes in callback args'' else nret (vs, dict)))"

section \<open>The primitive encodings are inverse\<close>

lemma of_char_byte_chr:
  assumes "unat w < 256"
  shows "(of_char (byte_chr w) :: uint64) = w"
proof -
  have "(of_char (byte_chr w) :: nat) = unat w" using assms by (simp add: byte_chr_def take_bit_eq_mod)
  then have "(of_nat (of_char (byte_chr w)) :: uint64) = of_nat (unat w)" by simp
  then show ?thesis by (simp add: of_nat_of_char)
qed

lemma bit_7f [simp]: "bit (127 :: int) n \<longleftrightarrow> n < 7"
proof -
  have "bit (mask 7 :: int) n \<longleftrightarrow> n < 7" by (simp only: bit_mask_iff) simp
  then show ?thesis by (simp add: mask_eq_exp_minus_1)
qed

lemma bit_80 [simp]: "bit (128 :: int) n \<longleftrightarrow> n = 7"
proof -
  have "bit (2 ^ 7 :: int) n \<longleftrightarrow> n = 7" unfolding bit_exp_iff by auto
  then show ?thesis by simp
qed

lemma and_80: "(w :: uint64) AND 0x80 = 0 \<longleftrightarrow> \<not> bit w 7"
proof -
  have "w AND 0x80 = (if bit w 7 then 0x80 else 0)"
    by (rule bit_word_eqI) (auto simp: bit_and_iff)
  then show ?thesis by simp
qed

lemma small_word: "(\<And>n. bit (w :: uint64) n \<Longrightarrow> n < 8) \<Longrightarrow> unat w < 256"
proof -
  assume "\<And>n. bit w n \<Longrightarrow> n < 8"
  then have "w = take_bit 8 w" by (intro bit_word_eqI) (auto simp: bit_take_bit_iff)
  then have "unat w = take_bit 8 (unat w)" by (metis unsigned_take_bit_eq)
  moreover have "take_bit 8 (unat w) < 2 ^ 8" by (rule take_bit_nat_less_exp)
  ultimately show ?thesis by simp
qed

lemma varint_more:
  fixes v :: uint64
  defines "w \<equiv> (v AND 0x7F) OR 0x80"
  shows "unat w < 256" "w AND 0x80 \<noteq> 0" "w AND 0x7F = v AND 0x7F"
proof -
  have bits: "bit w n \<longleftrightarrow> n < 7 \<and> bit v n \<or> n = 7" for n
    unfolding w_def by (auto simp: bit_or_iff bit_and_iff)
  show "unat w < 256" by (rule small_word) (auto simp: bits)
  show "w AND 0x80 \<noteq> 0" by (simp add: and_80 bits)
  show "w AND 0x7F = v AND 0x7F" by (rule bit_word_eqI) (auto simp: bit_and_iff bits)
qed

lemma bit_bound: "unat (v :: uint64) < 2 ^ k \<Longrightarrow> bit v n \<Longrightarrow> n < k"
proof (rule ccontr)
  assume a: "unat v < 2 ^ k" "bit v n" "\<not> n < k"
  have "bit (unat v) n" using a(2) by (simp add: bit_unsigned_iff)
  then have "2 ^ n \<le> unat v" by (metis bit_iff_odd div_less not_less even_zero)
  moreover have "(2 :: nat) ^ k \<le> 2 ^ n" using a(3) by simp
  ultimately show False using a(1) by linarith
qed

lemma varint_last:
  fixes v :: uint64
  assumes "\<not> 0x80 \<le> v"
  shows "unat v < 256" "v AND 0x80 = 0" "v AND 0x7F = v"
proof -
  have u: "unat v < 2 ^ 7" using assms by (simp add: word_le_nat_alt not_le)
  then show "unat v < 256" by simp
  have b: "bit v n \<Longrightarrow> n < 7" for n by (rule bit_bound [OF u])
  show "v AND 0x80 = 0" using b by (auto simp: and_80)
  show "v AND 0x7F = v" by (rule bit_word_eqI) (auto simp: bit_and_iff dest: b)
qed

lemma varint_split:
  "acc OR push_bit k (v :: uint64) = (acc OR push_bit k (v AND 0x7F)) OR push_bit (k + 7) (drop_bit 7 v)"
proof (rule bit_word_eqI)
  fix n
  have "k + 7 \<le> n \<Longrightarrow> 7 + (n - (k + 7)) = n - k" by simp
  then show "bit (acc OR push_bit k v) n = bit ((acc OR push_bit k (v AND 0x7F)) OR push_bit (k + 7) (drop_bit 7 v)) n"
    by (cases "k + 7 \<le> n") (auto simp: bit_or_iff bit_push_bit_iff bit_and_iff bit_drop_bit_eq)
qed

lemma read_write_varint:
  "k < 64 \<Longrightarrow> unat v < 2 ^ (64 - k) \<Longrightarrow> read_varint acc k (WriteVarint v @ rest) = Inr (acc OR push_bit k v, rest)"
proof (induction v arbitrary: acc k rule: WriteVarint.induct)
  case (1 v)
  show ?case
  proof (cases "0x80 \<le> v")
    case True
    then have ge: "128 \<le> unat v" by (simp add: word_le_nat_alt)
    have e: "(2 :: nat) ^ 7 = 128" by simp
    have "(2 :: nat) ^ 7 < 2 ^ (64 - k)" unfolding e by (rule order.strict_trans1 [OF ge 1(3)])
    then have "7 < 64 - k" by (rule power_less_imp_less_exp [rotated]) simp
    then have k: "k + 7 < 64" by simp
    have "64 - k = 7 + (64 - (k + 7))" using k by simp
    then have "(2 :: nat) ^ (64 - k) = 2 ^ 7 * 2 ^ (64 - (k + 7))" by (metis power_add)
    then have "unat v < 2 ^ 7 * 2 ^ (64 - (k + 7))" using 1(3) by metis
    then have "unat (drop_bit 7 v) < 2 ^ (64 - (k + 7))" by (simp add: unat_drop_bit7 less_mult_imp_div_less mult.commute)
    then have "read_varint (acc OR push_bit k (v AND 0x7F)) (k + 7) (WriteVarint (drop_bit 7 v) @ rest) =
        Inr ((acc OR push_bit k (v AND 0x7F)) OR push_bit (k + 7) (drop_bit 7 v), rest)"
      using 1(1) True k by blast
    then have ih: "read_varint (acc OR push_bit k (v AND 0x7F)) (k + 7) (WriteVarint (drop_bit 7 v) @ rest) =
        Inr (acc OR push_bit k v, rest)" by (simp only: varint_split [symmetric])
    define w where "w = (v AND 0x7F) OR 0x80"
    note w = varint_more [of v, folded w_def]
    have "WriteVarint v = byte_chr w # WriteVarint (drop_bit 7 v)"
      using True by (subst WriteVarint.simps) (simp add: w_def)
    then show ?thesis
      using k w(2) by (simp add: Let_def of_char_byte_chr [OF w(1)] w(3) ih del: push_bit_and)
  next
    case False
    then show ?thesis
      using varint_last [OF False] by (subst WriteVarint.simps) (simp add: of_char_byte_chr Let_def del: push_bit_and)
  qed
qed

lemma ReadVarint_Write: "ReadVarint (WriteVarint v @ rest) = Inr (v, rest)"
  using read_write_varint [of 0 v 0 rest] unsigned_less [of v] by (simp add: ReadVarint_def)

lemma zigzag_roundtrip: "ZigzagDecode (ZigzagEncode n) = n"
proof -
  have sb: "bit (signed_drop_bit 63 n) i \<longleftrightarrow> bit n 63" if "i < 64" for i
    using that by (cases "i = 0") (auto simp: bit_signed_drop_bit_iff)
  define u where "u = ZigzagEncode n"
  have bu: "bit u i \<longleftrightarrow> (0 < i \<and> bit n (i - 1)) \<noteq> bit n 63" if "i < 64" for i
    unfolding u_def ZigzagEncode_def bit_xor_iff bit_push_bit_iff sb [OF that] using that by auto
  have "u AND 1 = (if bit n 63 then 1 else 0)"
    using bu [of 0] by (auto simp: and_one_eq bit_0 odd_iff_mod_2_eq_one)
  then have m: "bit (- (u AND 1)) i \<longleftrightarrow> bit n 63" if "i < 64" for i using that by simp
  show ?thesis
    unfolding ZigzagDecode_def u_def [symmetric]
  proof (rule bit_word_eqI)
    fix i assume "i < LENGTH(64)"
    then have i: "i < 64" by simp
    show "bit (drop_bit 1 u XOR (- (u AND 1))) i = bit n i"
    proof (cases "i = 63")
      case True
      have "\<not> bit u 64" using bit_imp_le_length [of u 64] by auto
      then show ?thesis using m [OF i] True by (simp add: bit_xor_iff bit_drop_bit_eq)
    next
      case False
      then have "bit u (Suc i) \<longleftrightarrow> bit n i \<noteq> bit n 63" using bu [of "Suc i"] i by simp
      then show ?thesis using m [OF i] by (auto simp: bit_xor_iff bit_drop_bit_eq)
    qed
  qed
qed

definition double_byte :: "double \<Rightarrow> nat \<Rightarrow> char" where
  "double_byte v i = byte_chr (drop_bit (8 * i) v AND 0xFF)"

lemma double_byte: "(of_char (double_byte v i) :: uint64) = take_bit 8 (drop_bit (8 * i) v)"
proof -
  have "drop_bit (8 * i) v AND 0xFF = take_bit 8 (drop_bit (8 * i) v)"
    by (simp add: take_bit_eq_mask mask_eq_exp_minus_1)
  moreover have "unat (take_bit 8 (drop_bit (8 * i) v)) < 256"
    by (rule small_word) (simp add: bit_take_bit_iff)
  ultimately show ?thesis unfolding double_byte_def using of_char_byte_chr by simp
qed

lemma join_double_bytes:
  "j \<le> n \<Longrightarrow> foldr (\<lambda>c acc. push_bit 8 acc OR of_char c) (map (double_byte v) [j..<n]) 0 =
     take_bit (8 * (n - j)) (drop_bit (8 * j) v)"
proof (induction "n - j" arbitrary: j)
  case 0
  then show ?case by simp
next
  case (Suc m)
  then have j: "j < n" "m = n - Suc j" by auto
  have "foldr (\<lambda>c acc. push_bit 8 acc OR of_char c) (map (double_byte v) [Suc j..<n]) 0 =
      take_bit (8 * (n - Suc j)) (drop_bit (8 * Suc j) v)"
    using Suc.hyps(1) [OF j(2)] j(1) by simp
  moreover have "[j..<n] = j # [Suc j..<n]" using j(1) by (rule upt_conv_Cons)
  ultimately have "foldr (\<lambda>c acc. push_bit 8 acc OR of_char c) (map (double_byte v) [j..<n]) 0 =
      push_bit 8 (take_bit (8 * (n - Suc j)) (drop_bit (8 * Suc j) v)) OR take_bit 8 (drop_bit (8 * j) v)"
    by (simp only: list.map foldr.simps comp_apply double_byte)
  also have "\<dots> = take_bit (8 * (n - j)) (drop_bit (8 * j) v)"
  proof (rule bit_word_eqI)
    fix i assume "i < LENGTH(64)"
    have s: "8 * Suc j + (i - 8) = 8 * j + i" "i - 8 < 8 * (n - Suc j) \<longleftrightarrow> i < 8 * (n - j)" if "8 \<le> i"
      using that j(1) by auto
    have "i < 8 * (n - j)" if "i < 8" using that j(1) by linarith
    then show "bit (push_bit 8 (take_bit (8 * (n - Suc j)) (drop_bit (8 * Suc j) v)) OR take_bit 8 (drop_bit (8 * j) v)) i =
        bit (take_bit (8 * (n - j)) (drop_bit (8 * j) v)) i"
      using s \<open>i < LENGTH(64)\<close>
      by (cases "8 \<le> i") (simp_all only: bit_or_iff bit_push_bit_iff bit_take_bit_iff bit_drop_bit_eq comp_apply, auto)
  qed
  finally show ?case .
qed

lemma double_roundtrip: "ReadDouble (WriteDouble v @ rest) = Inr (v, rest)"
proof -
  have w: "WriteDouble v = map (double_byte v) [0..<8]" unfolding WriteDouble_def double_byte_def [abs_def] ..
  have "foldr (\<lambda>c acc. push_bit 8 acc OR of_char c) (map (double_byte v) [0..<8]) 0 = v"
    using join_double_bytes [of 0 8 v] by (simp add: take_bit_word_eq_self)
  moreover have "take 8 (WriteDouble v @ rest) = WriteDouble v" "drop 8 (WriteDouble v @ rest) = rest"
    "\<not> length (WriteDouble v @ rest) < 8" by (simp_all add: w)
  ultimately show ?thesis unfolding ReadDouble_def by (simp add: w)
qed

section \<open>Decoding undoes encoding\<close>

text \<open>
  What decoding is expected to do: build new tables and set the pairs, value by value, without any
  bytes. A string arrives as a temporary string. The second case of the depth test is only reached by a
  null table address.
\<close>

fun rebuild_pairs :: "(cvar \<Rightarrow> cvar nstep) \<Rightarrow> spec_env \<Rightarrow> cvar \<Rightarrow> (cvar \<times> cvar) list \<Rightarrow> unit nstep" where
  "rebuild_pairs f env tbl [] = nret ()"
| "rebuild_pairs f env tbl ((k, v) # ps) =
     nbind (f k) (\<lambda>k'. nbind (f v) (\<lambda>v'. nbind (set_pair env tbl k' v') (\<lambda>_. rebuild_pairs f env tbl ps)))"

function rebuild :: "pair_enum \<Rightarrow> spec_env \<Rightarrow> nat \<Rightarrow> cvar \<Rightarrow> cvar nstep" where
  "rebuild kvs env depth v =
     (case v of
        VStringId s \<Rightarrow> nret (VString s)
      | VTable _ t \<Rightarrow>
          if kWireMaxDepth \<le> depth then nthrow ''wire.decode: nesting too deep''
          else nbind new_table (\<lambda>tbl.
            nbind (rebuild_pairs (rebuild kvs env (depth + 1)) env tbl (if t = 0 then [] else kvs t)) (\<lambda>_.
              nret tbl))
      | _ \<Rightarrow> nret v)"
  by pat_completeness auto
termination by (relation "measure (\<lambda>(kvs, env, depth, v). kWireMaxDepth - depth)") auto

declare rebuild.simps [simp del]

text \<open>The pairs an encoder does not skip.\<close>

definition kept :: "pair_enum \<Rightarrow> pair_enum" where
  "kept kvs = (\<lambda>t. supported_pairs (kvs t))"

lemma kept_at: "kept kvs t = supported_pairs (kvs t)"
  by (simp add: kept_def)

text \<open>The two dictionaries agree.\<close>

definition same_dict :: "enc_dict \<Rightarrow> string list \<Rightarrow> bool" where
  "same_dict d ds \<longleftrightarrow> map fst d = ds \<and> (\<forall>i < length d. snd (d ! i) = word_of_nat i) \<and> length d \<le> 2 ^ 32"

lemma nbind_simps [simp]:
  "nbind (nret x) f = f x" "nbind (nthrow e) f = nthrow e" "nbind m nret = m"
  by (auto simp: nbind_def nret_def nthrow_def fun_eq_iff split: sum.splits prod.splits)

lemma nbind_assoc: "nbind (nbind m f) g = nbind m (\<lambda>x. nbind (f x) g)"
  by (auto simp: nbind_def fun_eq_iff split: sum.splits prod.splits)

lemma encode_string_ok:
  assumes e: "encode_string d sv = (b, d')" and dd: "same_dict d ds" and small: "length b < 2 ^ 32" "length d' \<le> 2 ^ 32"
  shows "\<exists>c cs. b = c # cs \<and> DecodeValue env depth ds (b @ rest) = nret (VString sv, rest, map fst d')"
    "same_dict d' (map fst d')" "\<exists>new. d' = d @ new \<and> length new \<le> length b"
proof -
  have ds: "ds = map fst d" and ids: "\<forall>i < length d. snd (d ! i) = word_of_nat i" and len: "length d \<le> 2 ^ 32"
    using dd by (auto simp: same_dict_def)
  have "(\<exists>c cs. b = c # cs \<and> DecodeValue env depth ds (b @ rest) = nret (VString sv, rest, map fst d')) \<and>
    same_dict d' (map fst d') \<and> (\<exists>new. d' = d @ new \<and> length new \<le> length b)"
  proof (cases "map_of d sv")
    case (Some i)
    then obtain k where k: "k < length d" "d ! k = (sv, i)" by (metis map_of_SomeD in_set_conv_nth)
    have b: "b = TAG_STR_REF # WriteVarint (ucast i)" "d' = d" using e Some by (auto simp: encode_string_def)
    have "i = word_of_nat k" using ids k by fastforce
    moreover have "k < 2 ^ 32" using k(1) len by simp
    ultimately have ui: "unat (ucast i :: uint64) = k"
      by (simp add: unsigned_ucast_eq unat_of_nat take_bit_nat_eq_self)
    have "ds ! k = sv" "k < length ds" using k by (simp_all add: ds)
    then have "decode_ref ds (WriteVarint (ucast i) @ rest) = Inr (VString sv, rest, ds)"
      by (simp add: decode_ref_def ReadVarint_Write ui)
    then have "DecodeValue env depth ds (b @ rest) = nret (VString sv, rest, ds)"
      by (subst DecodeValue.simps) (simp add: b tag_defs nlift_def nret_def fun_eq_iff)
    then show ?thesis using b dd by (auto simp: ds)
  next
    case None
    then have b: "b = TAG_STR_NEW # WriteVarint (word_of_nat (length sv)) @ sv" "d' = d @ [(sv, word_of_nat (length d))]"
      using e by (auto simp: encode_string_def)
    have "length sv < 2 ^ 64" using small by (simp add: b)
    then have us: "unat (word_of_nat (length sv) :: uint64) = length sv" by (simp add: unat_of_nat)
    have "decode_string ds ((WriteVarint (word_of_nat (length sv)) @ sv) @ rest) = Inr (VString sv, rest, ds @ [sv])"
      by (simp add: decode_string_def ReadVarint_Write us)
    then have "DecodeValue env depth ds (b @ rest) = nret (VString sv, rest, ds @ [sv])"
      by (subst DecodeValue.simps) (simp add: b tag_defs nlift_def nret_def fun_eq_iff)
    moreover have "same_dict d' (map fst d')"
      using ids small(2) by (auto simp: same_dict_def b nth_append less_Suc_eq)
    ultimately show ?thesis by (auto simp: b ds)
  qed
  then show "\<exists>c cs. b = c # cs \<and> DecodeValue env depth ds (b @ rest) = nret (VString sv, rest, map fst d')"
    "same_dict d' (map fst d')" "\<exists>new. d' = d @ new \<and> length new \<le> length b" by auto
qed

lemma WriteVarint_nonempty [simp]: "WriteVarint v \<noteq> []"
  by (subst WriteVarint.simps) simp

lemma encode_seq_grows:
  assumes "\<And>d v b d'. f d v = Inr (b, d') \<Longrightarrow> v \<in> set vs \<Longrightarrow> b \<noteq> [] \<and> (\<exists>new. d' = d @ new \<and> length new \<le> length b)"
  shows "encode_seq f d vs = Inr (b, d') \<Longrightarrow> length vs \<le> length b \<and> (\<exists>new. d' = d @ new \<and> length new \<le> length b)"
  using assms
proof (induction vs arbitrary: d b)
  case (Cons v vs)
  from Cons.prems(1) obtain b1 d1 b2 where 1: "f d v = Inr (b1, d1)" "encode_seq f d1 vs = Inr (b2, d')" "b = b1 @ b2"
    by (auto simp: rbind_Inr_iff)
  obtain n1 where n1: "b1 \<noteq> []" "d1 = d @ n1" "length n1 \<le> length b1" using Cons.prems(2) [OF 1(1)] by auto
  have "length vs \<le> length b2 \<and> (\<exists>new. d' = d1 @ new \<and> length new \<le> length b2)"
    using Cons.IH [OF 1(2)] Cons.prems(2) by simp
  then obtain n2 where n2: "d' = d1 @ n2" "length n2 \<le> length b2" "length vs \<le> length b2" by blast
  have "1 \<le> length b1" using n1(1) by (cases b1) auto
  then show ?case using n1 n2 1(3) by auto
qed auto

lemma encode_string_grows:
  "encode_string d sv = (b, d') \<Longrightarrow> b \<noteq> [] \<and> (\<exists>new. d' = d @ new \<and> length new \<le> length b)"
  by (auto simp: encode_string_def split: option.splits)

lemma EncodeValue_grows:
  "EncodeValue kvs depth vis d v = Inr (b, d') \<Longrightarrow> b \<noteq> [] \<and> (\<exists>new. d' = d @ new \<and> length new \<le> length b)"
proof (induction kvs depth vis d v arbitrary: b d' rule: EncodeValue.induct)
  case (1 kvs depth vis d v)
  note E = 1(2) [unfolded EncodeValue.simps [of kvs depth vis d v]]
  show ?case
  proof (cases v)
    case (VString sv)
    then show ?thesis using E encode_string_grows [of d sv b d'] by simp
  next
    case (VStringId sv)
    then show ?thesis using E encode_string_grows [of d sv b d'] by simp
  next
    case (VTable fl t)
    show ?thesis
    proof (cases "t = 0")
      case True then show ?thesis using E VTable by auto
    next
      case False
      then have ok: "\<not> kWireMaxDepth \<le> depth" "t \<notin> vis"
        using E VTable by (auto split: if_splits)
      obtain bs where bs: "encode_seq (EncodeValue kvs (depth + 1) (insert t vis)) d (flat_pairs (supported_pairs (kvs t))) = Inr (bs, d')"
        "b = TAG_TABLE # WriteVarint (word_of_nat (length (supported_pairs (kvs t)))) @ bs"
        using E VTable False ok by (auto simp: Let_def rbind_Inr_iff)
      have "\<exists>new. d' = d @ new \<and> length new \<le> length bs"
        using encode_seq_grows [OF _ bs(1)] 1(1) [OF VTable False ok refl] by blast
      then show ?thesis using bs(2) by auto
    qed
  qed (use E in auto)
qed

lemma decode_pairs_ok:
  assumes elem: "\<And>d ds v b d' rest. f d v = Inr (b, d') \<Longrightarrow> v \<in> set (flat_pairs ps) \<Longrightarrow> same_dict d ds \<Longrightarrow> length b < 2 ^ 32 \<Longrightarrow>
      length d' \<le> 2 ^ 32 \<Longrightarrow> same_dict d' (map fst d') \<and> g ds (b @ rest) = nbind (reb v) (\<lambda>c. nret (c, rest, map fst d'))"
    and grow: "\<And>d v b d'. f d v = Inr (b, d') \<Longrightarrow> b \<noteq> [] \<and> (\<exists>new. d' = d @ new \<and> length new \<le> length b)"
  shows "encode_seq f d (flat_pairs ps) = Inr (b, d') \<Longrightarrow> same_dict d ds \<Longrightarrow> length b < 2 ^ 32 \<Longrightarrow> length d' \<le> 2 ^ 32 \<Longrightarrow>
    same_dict d' (map fst d') \<and>
    decode_pairs g env tbl (length ps) ds (b @ rest) = nbind (rebuild_pairs reb env tbl ps) (\<lambda>_. nret (rest, map fst d'))"
  using elem
proof (induction ps arbitrary: d ds b rest)
  case Nil
  then have "b = []" "d' = d" "ds = map fst d" by (auto simp: flat_pairs_def same_dict_def)
  then show ?case using Nil by simp
next
  case (Cons p ps)
  obtain k v where p: "p = (k, v)" by force
  from Cons.prems(1) obtain b1 d1 b2 d2 b3 where 1: "f d k = Inr (b1, d1)" "f d1 v = Inr (b2, d2)"
    "encode_seq f d2 (flat_pairs ps) = Inr (b3, d')" "b = b1 @ b2 @ b3"
    by (auto simp: rbind_Inr_iff flat_pairs_def p)
  have "\<exists>new. d' = d2 @ new \<and> length new \<le> length b3" using encode_seq_grows [OF _ 1(3)] grow by blast
  then have l2: "length d2 \<le> 2 ^ 32" using Cons.prems(4) by auto
  have "\<exists>new. d2 = d1 @ new \<and> length new \<le> length b2" using grow [OF 1(2)] by blast
  then have l1: "length d1 \<le> 2 ^ 32" using l2 by auto
  have s: "length b1 < 2 ^ 32" "length b2 < 2 ^ 32" "length b3 < 2 ^ 32" using Cons.prems(3) 1(4) by auto
  have in_k: "k \<in> set (flat_pairs (p # ps))" "v \<in> set (flat_pairs (p # ps))" by (simp_all add: flat_pairs_def p)
  have e1: "same_dict d1 (map fst d1)" "\<And>rest. g ds (b1 @ rest) = nbind (reb k) (\<lambda>c. nret (c, rest, map fst d1))"
    using Cons.prems(5) [OF 1(1) in_k(1) Cons.prems(2) s(1) l1] by auto
  have e2: "same_dict d2 (map fst d2)" "\<And>rest. g (map fst d1) (b2 @ rest) = nbind (reb v) (\<lambda>c. nret (c, rest, map fst d2))"
    using Cons.prems(5) [OF 1(2) in_k(2) e1(1) s(2) l2] by auto
  have e3: "same_dict d' (map fst d') \<and>
    decode_pairs g env tbl (length ps) (map fst d2) (b3 @ rest) = nbind (rebuild_pairs reb env tbl ps) (\<lambda>_. nret (rest, map fst d'))"
  proof (rule Cons.IH [OF 1(3) e2(1) s(3) Cons.prems(4)])
    fix da dsa va ba d'a resta
    assume "f da va = Inr (ba, d'a)" "va \<in> set (flat_pairs ps)" "same_dict da dsa" "length ba < 2 ^ 32" "length d'a \<le> 2 ^ 32"
    then show "same_dict d'a (map fst d'a) \<and> g dsa (ba @ resta) = nbind (reb va) (\<lambda>c. nret (c, resta, map fst d'a))"
      using Cons.prems(5) by (simp add: flat_pairs_def)
  qed
  show ?case using e3 by (simp add: p 1(4) e1(2) e2(2) nbind_assoc)
qed

lemma flat_pairs_length [simp]: "length (flat_pairs ps) = 2 * length ps"
  by (induction ps) (auto simp: flat_pairs_def)

lemma decode_scalar:
  "DecodeValue env depth ds (TAG_NIL # rest) = nret (VNil, rest, ds)"
  "DecodeValue env depth ds ((if x then TAG_TRUE else TAG_FALSE) # rest) = nret (VBool x, rest, ds)"
  "DecodeValue env depth ds (TAG_INT # WriteVarint (ZigzagEncode i) @ rest) = nret (VInt i, rest, ds)"
  "DecodeValue env depth ds (TAG_DOUBLE # WriteDouble d @ rest) = nret (VFloat d, rest, ds)"
  by (subst DecodeValue.simps, simp add: tag_defs nlift_def nret_def fun_eq_iff ReadVarint_Write zigzag_roundtrip double_roundtrip)+

lemma decode_table:
  assumes "\<not> kWireMaxDepth \<le> depth" "n < 2 ^ 64" "2 * n \<le> length (bs @ rest)"
  shows "DecodeValue env depth ds (TAG_TABLE # WriteVarint (word_of_nat n) @ bs @ rest) =
    nbind new_table (\<lambda>tbl. nbind (decode_pairs (DecodeValue env (depth + 1)) env tbl n ds (bs @ rest)) (\<lambda>(r', d'). nret (tbl, r', d')))"
proof -
  have u: "unat (word_of_nat n :: uint64) = n" using assms(2) by (simp add: unat_of_nat)
  have "\<not> length (bs @ rest) div 2 < n" using assms(3) by simp
  then show ?thesis
    using assms(1) by (subst DecodeValue.simps) (simp add: tag_defs ReadVarint_Write u)
qed

lemma EncodeValue_decodes:
  "EncodeValue kvs depth vis d v = Inr (b, d') \<Longrightarrow> same_dict d ds \<Longrightarrow> length b < 2 ^ 32 \<Longrightarrow> length d' \<le> 2 ^ 32 \<Longrightarrow>
   same_dict d' (map fst d') \<and>
   DecodeValue env depth ds (b @ rest) = nbind (rebuild (kept kvs) env depth v) (\<lambda>c. nret (c, rest, map fst d'))"
proof (induction kvs depth vis d v arbitrary: b d' ds rest rule: EncodeValue.induct)
  case (1 kvs depth vis d v)
  note E = 1(2) [unfolded EncodeValue.simps [of kvs depth vis d v]]
  note R = rebuild.simps [of "kept kvs" env depth v]
  have ds: "ds = map fst d" using 1(3) by (simp add: same_dict_def)
  have str: "same_dict d' (map fst d') \<and> DecodeValue env depth ds (b @ rest) = nret (VString sv, rest, map fst d')"
    if "encode_string d sv = (b, d')" for sv
    using encode_string_ok [OF that 1(3-5)] by blast
  show ?case
  proof (cases v)
    case (VString sv)
    then show ?thesis using E str [of sv] unfolding R by simp
  next
    case (VStringId sv)
    then show ?thesis using E str [of sv] unfolding R by simp
  next
    case (VTable fl t)
    show ?thesis
    proof (cases "t = 0")
      case True
      then have b: "b = TAG_TABLE # WriteVarint (word_of_nat 0) @ []" "d' = d"
        using E VTable by auto
      show ?thesis
      proof (cases "kWireMaxDepth \<le> depth")
        case deep: True
        then show ?thesis
          using 1(3) b VTable unfolding R by (subst DecodeValue.simps) (simp add: tag_defs ds)
      next
        case False
        have "DecodeValue env depth ds (b @ rest) = nbind new_table (\<lambda>tbl. nret (tbl, rest, ds))"
          using decode_table [OF False, of 0 "[]" rest env ds] by (simp add: b)
        moreover have "rebuild (kept kvs) env depth v = new_table"
          using False VTable True unfolding R by simp
        ultimately show ?thesis using 1(3) b by (simp add: ds)
      qed
    next
      case False
      define ps where "ps = supported_pairs (kvs t)"
      have ok: "\<not> kWireMaxDepth \<le> depth" "t \<notin> vis"
        using E VTable False by (auto split: if_splits)
      obtain bs where bs: "encode_seq (EncodeValue kvs (depth + 1) (insert t vis)) d (flat_pairs ps) = Inr (bs, d')"
        "b = TAG_TABLE # WriteVarint (word_of_nat (length ps)) @ bs"
        using E VTable False ok by (auto simp: Let_def rbind_Inr_iff ps_def)
      have len: "2 * length ps \<le> length bs"
        using encode_seq_grows [OF _ bs(1)] EncodeValue_grows by fastforce
      have lb: "length bs < 2 ^ 32" using 1(4) bs(2) by simp
      have main: "same_dict d' (map fst d') \<and>
        decode_pairs (DecodeValue env (depth + 1)) env tbl (length ps) ds (bs @ rest) =
          nbind (rebuild_pairs (rebuild (kept kvs) env (depth + 1)) env tbl ps) (\<lambda>_. nret (rest, map fst d'))" for tbl
      proof (rule decode_pairs_ok [OF _ _ bs(1) 1(3) lb 1(5)])
        fix d ds v b d' rest
        assume "EncodeValue kvs (depth + 1) (insert t vis) d v = Inr (b, d')" "v \<in> set (flat_pairs ps)"
          "same_dict d ds" "length b < 2 ^ 32" "length d' \<le> 2 ^ 32"
        then show "same_dict d' (map fst d') \<and>
            DecodeValue env (depth + 1) ds (b @ rest) = nbind (rebuild (kept kvs) env (depth + 1) v) (\<lambda>c. nret (c, rest, map fst d'))"
          using 1(1) [OF VTable False ok refl] by (simp add: ps_def)
      qed (rule EncodeValue_grows)
      have "length ps < 2 ^ 64" "2 * length ps \<le> length (bs @ rest)" using len lb by simp_all
      from decode_table [OF ok(1) this]
      have "DecodeValue env depth ds (b @ rest) =
        nbind new_table (\<lambda>tbl. nbind (decode_pairs (DecodeValue env (depth + 1)) env tbl (length ps) ds (bs @ rest))
          (\<lambda>(r', d'). nret (tbl, r', d')))" by (simp add: bs(2))
      moreover have "rebuild (kept kvs) env depth v =
        nbind new_table (\<lambda>tbl. nbind (rebuild_pairs (rebuild (kept kvs) env (depth + 1)) env tbl ps) (\<lambda>_. nret tbl))"
        using ok(1) VTable False unfolding R by (simp add: ps_def kept_at)
      ultimately show ?thesis using main by (simp add: nbind_assoc)
    qed
  next
    case (VBool x)
    then have "b = [if x then TAG_TRUE else TAG_FALSE]" "d' = d" using E by auto
    then show ?thesis using 1(3) decode_scalar(2) [of env depth ds x rest] VBool unfolding R by (simp add: ds)
  next
    case (VInt i)
    then have "b = TAG_INT # WriteVarint (ZigzagEncode i)" "d' = d" using E by auto
    then show ?thesis using 1(3) decode_scalar(3) [of env depth ds i rest] VInt unfolding R by (simp add: ds)
  next
    case (VFloat x)
    then have "b = TAG_DOUBLE # WriteDouble x" "d' = d" using E by auto
    then show ?thesis using 1(3) decode_scalar(4) [of env depth ds x rest] VFloat unfolding R by (simp add: ds)
  next
    case VNil
    then have "b = [TAG_NIL]" "d' = d" using E by auto
    then show ?thesis using 1(3) decode_scalar(1) [of env depth ds rest] VNil unfolding R by (simp add: ds)
  qed (use E in auto)
qed

section \<open>Properties\<close>

text \<open>
  C36. Decoding an encoded value rebuilds it: \<open>WireDecode\<close> on the output of \<open>WireEncode\<close> performs exactly
  the construction of the value, a new table for every table and one \<open>SetTable\<close> per serialisable pair in
  enumeration order, with the same result, the same final state and the same exception if a table write
  throws; no byte is left over.
\<close>
theorem wire_roundtrip:
  assumes "WireEncode kvs v = Inr out" and "length out < 2 ^ 32"
  shows "WireDecode env out = rebuild (kept kvs) env 0 v"
proof -
  obtain d' where e: "EncodeValue kvs 0 {} [] v = Inr (out, d')"
    using assms(1) by (auto simp: WireEncode_def rbind_Inr_iff)
  have "length d' \<le> length out" using EncodeValue_grows [OF e] by auto
  then have "DecodeValue env 0 [] (out @ []) = nbind (rebuild (kept kvs) env 0 v) (\<lambda>c. nret (c, [], map fst d'))"
    using EncodeValue_decodes [OF e, where ds = "[]" and rest = "[]" and env = env] assms(2) by (simp add: same_dict_def)
  then show ?thesis by (simp add: WireDecode_def nbind_assoc)
qed

definition demo_kvs :: pair_enum where
  "demo_kvs p = (if p = 512 then [(VStringId ''k'', VInt 7), (VInt 1, VString ''k'')] else [])"

theorem wire_roundtrip_witness:
  "\<forall>env. WireDecode env (TAG_TABLE # WriteVarint 2 @ (TAG_STR_NEW # WriteVarint 1 @ ''k'') @ (TAG_INT # WriteVarint (ZigzagEncode 7)) @
     (TAG_INT # WriteVarint (ZigzagEncode 1)) @ (TAG_STR_REF # WriteVarint 0)) = rebuild (kept demo_kvs) env 0 (VTable False 512)"
proof (intro allI, rule wire_roundtrip)
  show "WireEncode demo_kvs (VTable False 512) = Inr (TAG_TABLE # WriteVarint 2 @ (TAG_STR_NEW # WriteVarint 1 @ ''k'') @
     (TAG_INT # WriteVarint (ZigzagEncode 7)) @ (TAG_INT # WriteVarint (ZigzagEncode 1)) @ (TAG_STR_REF # WriteVarint 0))"
    by (simp add: WireEncode_def EncodeValue.simps [of _ _ _ _ "VTable _ _"] EncodeValue.simps [of _ _ _ _ "VInt _"]
        EncodeValue.simps [of _ _ _ _ "VString _"] EncodeValue.simps [of _ _ _ _ "VStringId _"] demo_kvs_def
        supported_pairs_def flat_pairs_def encode_string_def kWireMaxDepth_def Let_def)
  show "length (TAG_TABLE # WriteVarint 2 @ (TAG_STR_NEW # WriteVarint 1 @ ''k'') @ (TAG_INT # WriteVarint (ZigzagEncode 7)) @
     (TAG_INT # WriteVarint (ZigzagEncode 1)) @ (TAG_STR_REF # WriteVarint 0)) < 2 ^ 32"
    by (simp add: WriteVarint.simps ZigzagEncode_def)
qed

text \<open>Validation leaves nothing for the encoder to skip.\<close>

lemma validate_seq_all: "validate_seq f vs = Inr () \<Longrightarrow> v \<in> set vs \<Longrightarrow> f v = Inr ()"
  by (induction vs) (auto simp: rbind_Inr_iff)

lemma ValidateStrict_supported: "ValidateStrict kvs fname argno depth visited v = Inr () \<Longrightarrow> IsSupported v"
  by (subst (asm) ValidateStrict.simps) (simp split: if_splits)

lemma flat_pairs_set: "(k, v) \<in> set ps \<Longrightarrow> k \<in> set (flat_pairs ps) \<and> v \<in> set (flat_pairs ps)"
  by (auto simp: flat_pairs_def)

lemma rebuild_pairs_cong:
  "(\<And>v. v \<in> set (flat_pairs ps) \<Longrightarrow> f v = g v) \<Longrightarrow> rebuild_pairs f env tbl ps = rebuild_pairs g env tbl ps"
  by (induction ps) (auto simp: flat_pairs_def)

lemma ValidateStrict_rebuild:
  "ValidateStrict kvs fname argno depth visited v = Inr () \<Longrightarrow>
   rebuild (kept kvs) env depth v = rebuild kvs env depth v"
proof (induction kvs fname argno depth visited v rule: ValidateStrict.induct)
  case (1 kvs fname argno depth visited v)
  show ?case
  proof (cases "\<exists>fl t. v = VTable fl t \<and> t \<noteq> 0")
    case False
    then show ?thesis by (simp add: rebuild.simps split: cvar.split)
  next
    case True
    then obtain fl t where v: "v = VTable fl t" "t \<noteq> 0" by blast
    have sup: "IsSupported v" by (simp add: v)
    have ok: "\<not> kWireMaxDepth \<le> depth" "t \<notin> visited"
      "validate_seq (ValidateStrict kvs fname argno (depth + 1) (insert t visited)) (flat_pairs (kvs t)) = Inr ()"
      using 1(2) [unfolded ValidateStrict.simps [of kvs fname argno depth visited v]] v by (simp_all split: if_splits)
    have each: "ValidateStrict kvs fname argno (depth + 1) (insert t visited) w = Inr ()" if "w \<in> set (flat_pairs (kvs t))" for w
      using validate_seq_all [OF ok(3) that] .
    have "supported_pairs (kvs t) = kvs t"
      unfolding supported_pairs_def
      by (rule filter_True) (use each ValidateStrict_supported flat_pairs_set in fastforce)
    moreover have "rebuild_pairs (rebuild (kept kvs) env (depth + 1)) env tbl (kvs t) =
        rebuild_pairs (rebuild kvs env (depth + 1)) env tbl (kvs t)" for tbl
      by (rule rebuild_pairs_cong) (use 1(1) [OF _ v(1,2) ok(1,2)] sup each in simp)
    ultimately show ?thesis
      using v ok(1) unfolding rebuild.simps [of "kept kvs" env depth v] rebuild.simps [of kvs env depth v]
      by (simp add: kept_at)
  qed
qed

fun rebuild_list :: "(cvar \<Rightarrow> cvar nstep) \<Rightarrow> cvar list \<Rightarrow> cvar list nstep" where
  "rebuild_list f [] = nret []"
| "rebuild_list f (v # vs) = nbind (f v) (\<lambda>c. nbind (rebuild_list f vs) (\<lambda>cs. nret (c # cs)))"

lemma decode_seq_ok:
  "encode_seq (EncodeValue kvs 0 {}) d vs = Inr (b, d') \<Longrightarrow> same_dict d ds \<Longrightarrow> length b < 2 ^ 32 \<Longrightarrow> length d' \<le> 2 ^ 32 \<Longrightarrow>
   (\<forall>v \<in> set vs. rebuild (kept kvs) env 0 v = rebuild kvs env 0 v) \<Longrightarrow>
   decode_seq (DecodeValue env 0) (length vs) ds b =
     nbind (rebuild_list (rebuild kvs env 0) vs) (\<lambda>cs. nret (cs, [], map fst d'))"
proof (induction vs arbitrary: d ds b)
  case Nil
  then show ?case by (simp add: same_dict_def)
next
  case (Cons v vs)
  from Cons.prems(1) obtain b1 d1 b2 where 1: "EncodeValue kvs 0 {} d v = Inr (b1, d1)"
    "encode_seq (EncodeValue kvs 0 {}) d1 vs = Inr (b2, d')" "b = b1 @ b2"
    by (auto simp: rbind_Inr_iff)
  have "\<exists>new. d' = d1 @ new \<and> length new \<le> length b2" using encode_seq_grows [OF _ 1(2)] EncodeValue_grows by blast
  then have l1: "length d1 \<le> 2 ^ 32" using Cons.prems(4) by auto
  have s: "length b1 < 2 ^ 32" "length b2 < 2 ^ 32" using Cons.prems(3) 1(3) by auto
  have h: "same_dict d1 (map fst d1)" "DecodeValue env 0 ds (b1 @ b2) = nbind (rebuild kvs env 0 v) (\<lambda>c. nret (c, b2, map fst d1))"
    using EncodeValue_decodes [OF 1(1) Cons.prems(2) s(1) l1, where env = env and rest = b2] Cons.prems(5) by auto
  have "decode_seq (DecodeValue env 0) (length vs) (map fst d1) b2 =
     nbind (rebuild_list (rebuild kvs env 0) vs) (\<lambda>cs. nret (cs, [], map fst d'))"
    using Cons.IH [OF 1(2) h(1) s(2) Cons.prems(4)] Cons.prems(5) by simp
  then show ?case by (simp add: 1(3) h(2) nbind_assoc)
qed

lemma validate_args_all:
  "validate_args kvs fname n vs = Inr () \<Longrightarrow> v \<in> set vs \<Longrightarrow> \<exists>k. ValidateStrict kvs fname k 0 {} v = Inr ()"
  by (induction vs arbitrary: n) (auto simp: rbind_Inr_iff)

text \<open>
  C37. Bound callback arguments lose nothing: if \<open>WireEncodeCallbackArgs\<close> accepts them, decoding the blob
  rebuilds every argument with every pair of every nested table, none skipped, in order.
\<close>
theorem callback_args_lossless:
  assumes "WireEncodeCallbackArgs kvs args first fname base = Inr out" and "length out < 2 ^ 32"
  shows "\<exists>ds. WireDecodeCallbackArgs env out =
    nbind (rebuild_list (rebuild kvs env 0) (drop first args)) (\<lambda>cs. nret (cs, ds))"
proof (cases "drop first args = []")
  case True
  then have "out = WriteVarint 0 @ []" using assms(1) by (simp add: WireEncodeCallbackArgs_def)
  then have "WireDecodeCallbackArgs env out = nret ([], [])"
    by (simp only: WireDecodeCallbackArgs_def ReadVarint_Write) simp
  then show ?thesis by (intro exI [of _ "[]"]) (simp add: True)
next
  case False
  define vs where "vs = drop first args"
  obtain b d' where e: "validate_args kvs fname base vs = Inr ()" "encode_seq (EncodeValue kvs 0 {}) [] vs = Inr (b, d')"
    "out = WriteVarint (word_of_nat (length vs)) @ b"
    using assms(1) False by (auto simp: WireEncodeCallbackArgs_def rbind_Inr_iff vs_def Let_def)
  have g: "length vs \<le> length b" "length d' \<le> length b"
    using encode_seq_grows [OF _ e(2)] EncodeValue_grows by fastforce+
  have lb: "length b < 2 ^ 32" using assms(2) e(3) by simp
  have all: "\<forall>v \<in> set vs. rebuild (kept kvs) env 0 v = rebuild kvs env 0 v"
    using validate_args_all [OF e(1)] ValidateStrict_rebuild by blast
  have u: "unat (word_of_nat (length vs) :: uint64) = length vs" using g(1) lb by (simp add: unat_of_nat)
  have "decode_seq (DecodeValue env 0) (length vs) [] b =
      nbind (rebuild_list (rebuild kvs env 0) vs) (\<lambda>cs. nret (cs, [], map fst d'))"
    using decode_seq_ok [OF e(2) _ lb _ all] g lb by (simp add: same_dict_def)
  then have "WireDecodeCallbackArgs env out = nbind (rebuild_list (rebuild kvs env 0) vs) (\<lambda>cs. nret (cs, map fst d'))"
    using e(3) by (simp add: WireDecodeCallbackArgs_def ReadVarint_Write u nbind_assoc)
  then show ?thesis by (auto simp: vs_def)
qed

theorem callback_args_lossless_witness:
  "\<forall>env. \<exists>ds. WireDecodeCallbackArgs env (WriteVarint 2 @ (TAG_INT # WriteVarint (ZigzagEncode 7)) @ [TAG_TRUE]) =
    nbind (rebuild_list (rebuild demo_kvs env 0) (drop 1 [VNil, VInt 7, VBool True])) (\<lambda>cs. nret (cs, ds))"
proof (intro allI, rule callback_args_lossless)
  show "WireEncodeCallbackArgs demo_kvs [VNil, VInt 7, VBool True] 1 ''f'' 2 =
    Inr (WriteVarint 2 @ (TAG_INT # WriteVarint (ZigzagEncode 7)) @ [TAG_TRUE])"
    by (simp add: WireEncodeCallbackArgs_def ValidateStrict.simps EncodeValue.simps)
  show "length (WriteVarint 2 @ (TAG_INT # WriteVarint (ZigzagEncode 7)) @ [TAG_TRUE]) < 2 ^ 32"
    by (simp add: WriteVarint.simps ZigzagEncode_def)
qed

end
