(* ===== verification/Utf8.thy ===== *)
theory Utf8
imports Conversions
begin

text \<open>
  The \<open>utf8\<close> library (\<open>native/utf8/native_utf8.cpp\<close>): encoding and decoding of one code point, and
  \<open>utf8.char\<close>, \<open>utf8.codepoint\<close>, \<open>utf8.codes\<close>, \<open>utf8.len\<close> and \<open>utf8.offset\<close>. A code point or the -1 of
  a failed decoding is an integer; byte positions are natural numbers, 0-based as in the code. The state
  of the iterator that \<open>utf8.codes\<close> returns is its record; allocating its closure is not modelled.
\<close>

section \<open>One code point\<close>

definition EncodeUtf8 :: "int \<Rightarrow> string option" where
  "EncodeUtf8 cp =
     (let c = nat cp in
      if cp < 0 \<or> 0x10FFFF < cp then None
      else if 0xD800 \<le> cp \<and> cp \<le> 0xDFFF then None
      else if cp \<le> 0x7F then Some [char_of c]
      else if cp \<le> 0x7FF then Some [char_of (0xC0 OR drop_bit 6 c), char_of (0x80 OR (c AND 0x3F))]
      else if cp \<le> 0xFFFF then
        Some [char_of (0xE0 OR drop_bit 12 c), char_of (0x80 OR (drop_bit 6 c AND 0x3F)), char_of (0x80 OR (c AND 0x3F))]
      else
        Some [char_of (0xF0 OR drop_bit 18 c), char_of (0x80 OR (drop_bit 12 c AND 0x3F)),
              char_of (0x80 OR (drop_bit 6 c AND 0x3F)), char_of (0x80 OR (c AND 0x3F))])"

definition byte_val :: "string \<Rightarrow> nat \<Rightarrow> nat" where
  "byte_val sv p = of_char (sv ! p)"

text \<open>The leading byte: the first bits of the code point and the length.\<close>

definition lead_byte :: "nat \<Rightarrow> (nat \<times> nat) option" where
  "lead_byte c =
     (if drop_bit 5 c = 0x06 then Some (c AND 0x1F, 2)
      else if drop_bit 4 c = 0x0E then Some (c AND 0x0F, 3)
      else if drop_bit 3 c = 0x1E then Some (c AND 0x07, 4)
      else None)"

fun cont_bytes :: "nat \<Rightarrow> nat list \<Rightarrow> nat option" where
  "cont_bytes cp [] = Some cp"
| "cont_bytes cp (b # bs) = (if drop_bit 6 b \<noteq> 0x02 then None else cont_bytes (push_bit 6 cp OR (b AND 0x3F)) bs)"

definition cp_invalid :: "nat \<Rightarrow> nat \<Rightarrow> bool" where
  "cp_invalid cp len \<longleftrightarrow> 0x10FFFF < cp \<or> 0xD800 \<le> cp \<and> cp \<le> 0xDFFF \<or>
     len = 2 \<and> cp < 0x80 \<or> len = 3 \<and> cp < 0x800 \<or> len = 4 \<and> cp < 0x10000"

definition DecodeUtf8 :: "string \<Rightarrow> nat \<Rightarrow> int \<times> nat" where
  "DecodeUtf8 sv pos =
     (if length sv \<le> pos then (-1, pos)
      else let c = byte_val sv pos in
        if c \<le> 0x7F then (int c, pos + 1)
        else case lead_byte c of
            None \<Rightarrow> (-1, pos + 1)
          | Some (cp0, len) \<Rightarrow>
              if length sv < pos + len then (-1, length sv)
              else (case cont_bytes cp0 (map (byte_val sv) [pos + 1..<pos + len]) of
                  None \<Rightarrow> (-1, pos + 1)
                | Some cp \<Rightarrow> if cp_invalid cp len then (-1, pos + 1) else (int cp, pos + len)))"

lemma lead_byte_len: "lead_byte c = Some (cp, len) \<Longrightarrow> 2 \<le> len"
  by (auto simp: lead_byte_def split: if_splits)

lemma DecodeUtf8_advances: "DecodeUtf8 sv pos = (cp, pos') \<Longrightarrow> 0 \<le> cp \<Longrightarrow> pos < pos' \<and> pos' \<le> length sv"
  by (auto simp: DecodeUtf8_def Let_def dest: lead_byte_len split: if_splits option.splits)

section \<open>char and codepoint\<close>

fun char_loop :: "nat \<Rightarrow> cvar list \<Rightarrow> cvar list \<Rightarrow> string \<Rightarrow> string result" where
  "char_loop i [] args out = Inr out"
| "char_loop i (_ # rest) args out =
     (let a = GetNativeArg args i in
      rbind (CheckNumberArg a (i + 1) ''utf8.char'') (\<lambda>_.
      rbind (CheckIntegerArg a (i + 1) ''utf8.char'') (\<lambda>cp.
      case EncodeUtf8 (sint cp) of
        None \<Rightarrow> Inl ''bad argument to 'utf8.char' (value out of range)''
      | Some s \<Rightarrow> char_loop (i + 1) rest args (out @ s))))"

definition Utf8Char :: "cvar list \<Rightarrow> cvar result" where
  "Utf8Char args = rbind (char_loop 0 args args []) (\<lambda>out. Inr (NativeToFakeluaString out))"

text \<open>An optional integer argument: an explicit nil is as good as none.\<close>

definition opt_int :: "cvar list \<Rightarrow> nat \<Rightarrow> nat \<Rightarrow> string \<Rightarrow> int64 \<Rightarrow> int64 result" where
  "opt_int args idx argno fname dflt =
     (let v = (if idx < length args then GetNativeArg args idx else VNil) in
      if v = VNil then Inr dflt else CheckIntegerArg v argno fname)"

function codepoint_loop :: "string \<Rightarrow> nat \<Rightarrow> nat \<Rightarrow> int list result" where
  "codepoint_loop sv pos limit =
     (if pos < limit then
        let (cp, pos') = DecodeUtf8 sv pos in
        if cp < 0 then Inl ''invalid UTF-8 code''
        else rbind (codepoint_loop sv pos' limit) (\<lambda>cps. Inr (cp # cps))
      else Inr [])"
  by auto
termination
  by (relation "measure (\<lambda>(sv, pos, limit). limit - pos)")
    (auto simp: not_less dest!: DecodeUtf8_advances [OF sym] intro!: diff_less_mono2)

declare codepoint_loop.simps [simp del]

definition codepoints_value :: "int list \<Rightarrow> cvar" where
  "codepoints_value cps =
     (case cps of [] \<Rightarrow> VNil | [cp] \<Rightarrow> VInt (word_of_int cp) | _ \<Rightarrow> VMulti (map (\<lambda>cp. VInt (word_of_int cp)) cps))"

definition Utf8Codepoint :: "cvar list \<Rightarrow> cvar result" where
  "Utf8Codepoint args =
     (if length args < 1 then Inl (bad_argument 1 ''utf8.codepoint'' ''string expected'')
      else let a0 = GetNativeArg args 0 in
        rbind (CheckStringArg a0 1 ''utf8.codepoint'') (\<lambda>_.
        let sv = GetStringArgView a0; len = word_of_nat (length sv) :: int64 in
        rbind (opt_int args 1 2 ''utf8.codepoint'' 1) (\<lambda>i0.
        rbind (opt_int args 2 3 ''utf8.codepoint'' i0) (\<lambda>j0.
        let i = sint (LuaPosRelat i0 len); j = sint (LuaPosRelat j0 len) in
        if i < 1 then Inl ''bad argument #2 to 'utf8.codepoint' (out of bounds)''
        else if sint len < j then Inl ''bad argument #3 to 'utf8.codepoint' (out of bounds)''
        else if j < i then Inr (AllocMultiCVar 0)
        else rbind (codepoint_loop sv (nat (i - 1)) (nat j)) (\<lambda>cps. Inr (codepoints_value cps))))))"

section \<open>codes\<close>

record Utf8CodesState =
  cs_text :: string
  cs_pos :: nat

definition Utf8Codes :: "cvar list \<Rightarrow> Utf8CodesState result" where
  "Utf8Codes args =
     (if length args < 1 then Inl (bad_argument 1 ''utf8.codes'' ''string expected'')
      else let a0 = GetNativeArg args 0 in
        rbind (CheckStringArg a0 1 ''utf8.codes'') (\<lambda>_. Inr \<lparr>cs_text = GetStringArgView a0, cs_pos = 0\<rparr>))"

definition Utf8CodesIterator :: "Utf8CodesState \<Rightarrow> cvar result \<times> Utf8CodesState" where
  "Utf8CodesIterator gs =
     (if length (cs_text gs) \<le> cs_pos gs then (Inr VNil, gs)
      else let (cp, p) = DecodeUtf8 (cs_text gs) (cs_pos gs) in
        if cp < 0 then (Inl ''invalid UTF-8 code'', gs\<lparr>cs_pos := p\<rparr>)
        else (Inr (VMulti [VInt (word_of_nat (cs_pos gs + 1)), VInt (word_of_int cp)]), gs\<lparr>cs_pos := p\<rparr>))"

section \<open>len and offset\<close>

text \<open>The count, or the position of the first invalid byte.\<close>

function len_loop :: "string \<Rightarrow> int \<Rightarrow> nat \<Rightarrow> nat \<Rightarrow> nat \<Rightarrow> nat + nat" where
  "len_loop sv i p end_pos n =
     (if p < end_pos then
        let (cp, p') = DecodeUtf8 sv p in
        if cp < 0 then Inl p
        else len_loop sv i p' end_pos (if i \<le> int p + 1 then n + 1 else n)
      else Inr n)"
  by auto
termination
  by (relation "measure (\<lambda>(sv, i, p, end_pos, n). end_pos - p)")
    (auto simp: not_less dest!: DecodeUtf8_advances [OF sym] intro!: diff_less_mono2)

declare len_loop.simps [simp del]

definition Utf8Len :: "cvar list \<Rightarrow> cvar result" where
  "Utf8Len args =
     (if length args < 1 then Inl (bad_argument 1 ''utf8.len'' ''string expected'')
      else let a0 = GetNativeArg args 0 in
        rbind (CheckStringArg a0 1 ''utf8.len'') (\<lambda>_.
        let sv = GetStringArgView a0; byte_len = word_of_nat (length sv) :: int64 in
        rbind (opt_int args 1 2 ''utf8.len'' 1) (\<lambda>i0.
        rbind (opt_int args 2 3 ''utf8.len'' (-1)) (\<lambda>j0.
        let i = sint (LuaPosRelat i0 byte_len); j = sint (LuaPosRelat j0 byte_len) in
        if i < 1 \<or> sint byte_len + 1 < i then Inl ''bad argument #2 to 'utf8.len' (initial position out of bounds)''
        else if sint byte_len < j then Inl ''bad argument #3 to 'utf8.len' (final position out of bounds)''
        else if j < i then Inr (VInt 0)
        else case len_loop sv i (nat (i - 1)) (nat j) 0 of
            Inl start \<Rightarrow> Inr (VMulti [VNil, VInt (word_of_nat (start + 1))])
          | Inr n \<Rightarrow> Inr (VInt (word_of_nat n))))))"

definition iscont :: "string \<Rightarrow> nat \<Rightarrow> bool" where
  "iscont sv p \<longleftrightarrow> p < length sv \<and> byte_val sv p AND 0xC0 = 0x80"

text \<open>The inner \<open>do ... while\<close> loops.\<close>

function skip_fwd :: "string \<Rightarrow> nat \<Rightarrow> nat" where
  "skip_fwd sv p = (if p + 1 < length sv \<and> iscont sv (p + 1) then skip_fwd sv (p + 1) else p + 1)"
  by auto
termination by (relation "measure (\<lambda>(sv, p). length sv - p)") auto

declare skip_fwd.simps [simp del]

fun skip_back :: "string \<Rightarrow> nat \<Rightarrow> nat" where
  "skip_back sv 0 = 0"
| "skip_back sv (Suc p) = (if 0 < p \<and> iscont sv p then skip_back sv p else p)"

fun move_fwd :: "string \<Rightarrow> nat \<Rightarrow> nat \<Rightarrow> nat \<times> nat" where
  "move_fwd sv 0 p = (0, p)"
| "move_fwd sv (Suc n) p = (if p < length sv then move_fwd sv n (skip_fwd sv p) else (Suc n, p))"

fun move_back :: "string \<Rightarrow> nat \<Rightarrow> nat \<Rightarrow> nat \<times> nat" where
  "move_back sv 0 p = (0, p)"
| "move_back sv (Suc n) p = (if 0 < p then move_back sv n (skip_back sv p) else (Suc n, p))"

fun to_start :: "string \<Rightarrow> nat \<Rightarrow> nat" where
  "to_start sv 0 = 0"
| "to_start sv (Suc p) = (if iscont sv (Suc p) then to_start sv p else Suc p)"

definition Utf8Offset :: "cvar list \<Rightarrow> cvar result" where
  "Utf8Offset args =
     (if length args < 1 then Inl (bad_argument 1 ''utf8.offset'' ''string expected'')
      else if length args < 2 then Inl (bad_argument 2 ''utf8.offset'' ''number expected'')
      else let a0 = GetNativeArg args 0 in
        rbind (CheckStringArg a0 1 ''utf8.offset'') (\<lambda>_.
        let sv = GetStringArgView a0; byte_len = word_of_nat (length sv) :: int64 in
        rbind (CheckIntegerArg (GetNativeArg args 1) 2 ''utf8.offset'') (\<lambda>target_n.
        rbind (opt_int args 2 3 ''utf8.offset'' (if 0 \<le> sint target_n then 1 else byte_len + 1)) (\<lambda>i0.
        let start_i = sint (LuaPosRelat i0 byte_len) in
        if start_i < 1 \<or> sint byte_len + 1 < start_i
        then Inl ''bad argument #3 to 'utf8.offset' (position out of range)''
        else
          let posi = nat (start_i - 1) in
          if target_n = 0 then Inr (VInt (word_of_nat (to_start sv posi + 1)))
          else if iscont sv posi then Inl ''initial position is a continuation byte''
          else
            let (left, p) = (if 0 < sint target_n then move_fwd sv (nat (sint target_n - 1)) posi
                             else move_back sv (nat (- sint target_n)) posi)
            in if left = 0 then Inr (VInt (word_of_nat (p + 1))) else Inr VNil))))"

section \<open>Bits as arithmetic\<close>

lemma or_disjoint: "(x :: nat) < 2 ^ k \<Longrightarrow> 2 ^ k dvd z \<Longrightarrow> z OR x = z + x"
proof -
  assume x: "x < 2 ^ k" and z: "2 ^ k dvd z"
  from z obtain y where y: "z = push_bit k y" by (auto simp: push_bit_eq_mult elim: dvdE)
  have "\<not> bit z n \<or> \<not> bit x n" for n
  proof (cases "n < k")
    case True then show ?thesis by (simp add: y bit_push_bit_iff)
  next
    case False
    then have "x < 2 ^ n" using x by (meson leI le_less_trans less_imp_le_nat not_less one_le_numeral power_increasing order.strict_trans2)
    then show ?thesis by (simp add: bit_iff_odd)
  qed
  then show ?thesis using disjunctive_add [of z x] by simp
qed

lemma or_lead:
  "x < 64 \<Longrightarrow> 0xC0 OR x = 0xC0 + (x :: nat)" "x < 16 \<Longrightarrow> 0xE0 OR x = 0xE0 + x"
  "x < 8 \<Longrightarrow> 0xF0 OR x = 0xF0 + x" "x < 64 \<Longrightarrow> 0x80 OR x = 0x80 + x"
  using or_disjoint [of x 6 "0xC0"] or_disjoint [of x 4 "0xE0"] or_disjoint [of x 3 "0xF0"] or_disjoint [of x 6 "0x80"]
  by simp_all

lemma and_low:
  "(c :: nat) AND 0x3F = c mod 64" "c AND 0x1F = c mod 32" "c AND 0x0F = c mod 16" "c AND 0x07 = c mod 8"
proof -
  have "c AND mask n = c mod 2 ^ n" for n by (simp flip: take_bit_eq_mask add: take_bit_eq_mod)
  from this [of 6] this [of 5] this [of 4] this [of 3]
  show "c AND 0x3F = c mod 64" "c AND 0x1F = c mod 32" "c AND 0x0F = c mod 16" "c AND 0x07 = c mod 8"
    by (simp_all add: mask_eq_exp_minus_1)
qed

lemma push6: "push_bit 6 cp OR (b mod 64) = cp * 64 + b mod (64 :: nat)"
  using or_disjoint [of "b mod 64" 6 "push_bit 6 cp"] by (simp add: push_bit_eq_mult)

lemma drop_bits:
  "drop_bit 3 c = c div (8 :: nat)" "drop_bit 4 c = c div 16" "drop_bit 5 c = c div 32" "drop_bit 6 c = c div 64"
  "drop_bit 12 c = c div 4096" "drop_bit 18 c = c div 262144"
  by (simp_all add: drop_bit_eq_div)

lemmas utf8_bits = and_low push6 drop_bits

lemma cont_bytes_arith: "cont_bytes cp (b # bs) = (if b div 64 \<noteq> 2 then None else cont_bytes (cp * 64 + b mod 64) bs)"
  by (simp add: utf8_bits)

lemma lead_byte_arith:
  "lead_byte c = (if c div 32 = 6 then Some (c mod 32, 2) else if c div 16 = 14 then Some (c mod 16, 3)
     else if c div 8 = 30 then Some (c mod 8, 4) else None)"
  by (simp add: lead_byte_def utf8_bits)

lemma div_range: "q * d \<le> c \<Longrightarrow> c < (q + 1) * d \<Longrightarrow> c div d = (q :: nat)"
  by (rule div_nat_eqI) (simp_all add: algebra_simps)

lemma lead_bytes:
  "x < 32 \<Longrightarrow> lead_byte (0xC0 + x) = Some (x, 2)"
  "x < 16 \<Longrightarrow> lead_byte (0xE0 + x) = Some (x, 3)"
  "x < 8 \<Longrightarrow> lead_byte (0xF0 + x) = Some (x, 4)"
proof -
  have m: "(0xC0 + x) mod 32 = x mod 32" "(0xE0 + x) mod 16 = x mod 16" "(0xF0 + x) mod 8 = x mod 8"
    using mod_mult_self2 [of x 32 6] mod_mult_self2 [of x 16 14] mod_mult_self2 [of x 8 30] by (simp_all add: add.commute)
  show "lead_byte (0xC0 + x) = Some (x, 2)" if "x < 32"
    using that div_range [of 6 32 "0xC0 + x"] by (simp add: lead_byte_arith m)
  show "lead_byte (0xE0 + x) = Some (x, 3)" if "x < 16"
    using that div_range [of 7 32 "0xE0 + x"] div_range [of 14 16 "0xE0 + x"] by (simp add: lead_byte_arith m)
  show "lead_byte (0xF0 + x) = Some (x, 4)" if "x < 8"
    using that div_range [of 7 32 "0xF0 + x"] div_range [of 15 16 "0xF0 + x"] div_range [of 30 8 "0xF0 + x"]
    by (simp add: lead_byte_arith m)
qed

lemma cont_byte: "x < 64 \<Longrightarrow> cont_bytes cp ((0x80 + x) # bs) = cont_bytes (cp * 64 + x) bs"
proof -
  assume x: "x < 64"
  have "(0x80 + x) mod 64 = x mod 64" using mod_mult_self2 [of x 64 2] by (simp add: add.commute)
  then show ?thesis using x div_range [of 2 64 "0x80 + x"] unfolding cont_bytes_arith by simp
qed

lemma rejoin: "(c :: nat) div 64 * 64 + c mod 64 = c" "c div 4096 * 64 + c div 64 mod 64 = c div 64"
  "c div 262144 * 64 + c div 4096 mod 64 = c div 4096"
proof -
  show "c div 64 * 64 + c mod 64 = c" by (rule div_mult_mod_eq)
  have "c div 4096 = c div 64 div 64" "c div 262144 = c div 4096 div 64" by (simp_all flip: div_mult2_eq)
  then show "c div 4096 * 64 + c div 64 mod 64 = c div 64" "c div 262144 * 64 + c div 4096 mod 64 = c div 4096"
    by (simp_all only: div_mult_mod_eq)
qed

text \<open>The encoding in arithmetic.\<close>

definition utf8_bytes :: "nat \<Rightarrow> nat list" where
  "utf8_bytes c =
     (if c < 0x80 then [c]
      else if c < 0x800 then [0xC0 + c div 64, 0x80 + c mod 64]
      else if c < 0x10000 then [0xE0 + c div 4096, 0x80 + c div 64 mod 64, 0x80 + c mod 64]
      else [0xF0 + c div 262144, 0x80 + c div 4096 mod 64, 0x80 + c div 64 mod 64, 0x80 + c mod 64])"

definition scalar_value :: "int \<Rightarrow> bool" where
  "scalar_value cp \<longleftrightarrow> 0 \<le> cp \<and> cp \<le> 0x10FFFF \<and> \<not> (0xD800 \<le> cp \<and> cp \<le> 0xDFFF)"

lemma EncodeUtf8_eq:
  "EncodeUtf8 cp = (if scalar_value cp then Some (map char_of (utf8_bytes (nat cp))) else None)"
proof (cases "scalar_value cp")
  case False
  then show ?thesis by (auto simp: EncodeUtf8_def scalar_value_def Let_def)
next
  case True
  define c where "c = nat cp"
  have cp: "cp = int c" "c \<le> 0x10FFFF" "\<not> (0xD800 \<le> c \<and> c \<le> 0xDFFF)" using True by (auto simp: scalar_value_def c_def)
  have lt: "c div 262144 < 8" "c \<le> 0xFFFF \<Longrightarrow> c div 4096 < 16" "c \<le> 0x7FF \<Longrightarrow> c div 64 < 64"
    using cp(2) by auto
  have m: "n mod 64 < 64" for n :: nat by simp
  have "EncodeUtf8 cp = Some (map char_of (utf8_bytes c))"
    unfolding EncodeUtf8_def Let_def cp(1) nat_int utf8_bits
    using cp(2,3) lt by (auto simp: utf8_bytes_def or_lead(1) or_lead(2) or_lead(3) or_lead(4) [OF m])
  then show ?thesis using True by (simp add: c_def)
qed

lemma utf8_bytes_lt: "c \<le> 0x10FFFF \<Longrightarrow> b \<in> set (utf8_bytes c) \<Longrightarrow> b < 256"
proof -
  have m: "n mod 64 < 64" for n :: nat by simp
  assume "c \<le> 0x10FFFF" "b \<in> set (utf8_bytes c)"
  then show "b < 256" using m [of c] m [of "c div 64"] m [of "c div 4096"]
    by (auto simp: utf8_bytes_def split: if_splits)
qed

lemma decode_bytes:
  assumes c: "scalar_value (int c)" and sv: "map (byte_val sv) [p..<p + length (utf8_bytes c)] = utf8_bytes c"
    and len: "p + length (utf8_bytes c) \<le> length sv"
  shows "DecodeUtf8 sv p = (int c, p + length (utf8_bytes c))"
proof -
  have r: "c \<le> 0x10FFFF" "\<not> (0xD800 \<le> c \<and> c \<le> 0xDFFF)" using c by (auto simp: scalar_value_def)
  consider "c < 0x80" | "0x80 \<le> c" "c < 0x800" | "0x800 \<le> c" "c < 0x10000" | "0x10000 \<le> c" by linarith
  then show ?thesis
  proof cases
    case 1
    then show ?thesis using sv len by (simp add: DecodeUtf8_def utf8_bytes_def)
  next
    case 2
    have u: "utf8_bytes c = [0xC0 + c div 64, 0x80 + c mod 64]" using 2 by (simp add: utf8_bytes_def)
    have b: "byte_val sv p = 0xC0 + c div 64" "map (byte_val sv) [p + 1..<p + 2] = [0x80 + c mod 64]"
      using sv by (simp_all add: u upt_rec)
    have "lead_byte (0xC0 + c div 64) = Some (c div 64, 2)" using 2 by (intro lead_bytes) auto
    moreover have "cont_bytes (c div 64) [0x80 + c mod 64] = Some c"
      by (simp add: cont_byte rejoin del: cont_bytes.simps(2))
    moreover have "\<not> 0xC0 + c div 64 \<le> 0x7F" "\<not> length sv < p + 2" "\<not> cp_invalid c 2" "p < length sv"
      using 2 len r by (auto simp: u cp_invalid_def)
    ultimately show ?thesis using len b by (simp add: DecodeUtf8_def u)
  next
    case 3
    have u: "utf8_bytes c = [0xE0 + c div 4096, 0x80 + c div 64 mod 64, 0x80 + c mod 64]" using 3 by (simp add: utf8_bytes_def)
    have b: "byte_val sv p = 0xE0 + c div 4096" "map (byte_val sv) [p + 1..<p + 3] = [0x80 + c div 64 mod 64, 0x80 + c mod 64]"
      using sv by (simp_all add: u upt_rec)
    have "lead_byte (0xE0 + c div 4096) = Some (c div 4096, 3)" using 3 by (intro lead_bytes) auto
    moreover have "cont_bytes (c div 4096) [0x80 + c div 64 mod 64, 0x80 + c mod 64] = Some c"
      by (simp add: cont_byte rejoin del: cont_bytes.simps(2))
    moreover have "\<not> 0xE0 + c div 4096 \<le> 0x7F" "\<not> length sv < p + 3" "\<not> cp_invalid c 3" "p < length sv"
      using 3 len r by (auto simp: u cp_invalid_def)
    ultimately show ?thesis using len b by (simp add: DecodeUtf8_def u)
  next
    case 4
    have u: "utf8_bytes c = [0xF0 + c div 262144, 0x80 + c div 4096 mod 64, 0x80 + c div 64 mod 64, 0x80 + c mod 64]"
      using 4 by (simp add: utf8_bytes_def)
    have b: "byte_val sv p = 0xF0 + c div 262144"
      "map (byte_val sv) [p + 1..<p + 4] = [0x80 + c div 4096 mod 64, 0x80 + c div 64 mod 64, 0x80 + c mod 64]"
      using sv by (simp_all add: u upt_rec)
    have "lead_byte (0xF0 + c div 262144) = Some (c div 262144, 4)" using 4 r by (intro lead_bytes) auto
    moreover have "cont_bytes (c div 262144) [0x80 + c div 4096 mod 64, 0x80 + c div 64 mod 64, 0x80 + c mod 64] = Some c"
      by (simp add: cont_byte rejoin del: cont_bytes.simps(2))
    moreover have "\<not> 0xF0 + c div 262144 \<le> 0x7F" "\<not> length sv < p + 4" "\<not> cp_invalid c 4" "p < length sv"
      using 4 len r by (auto simp: u cp_invalid_def)
    ultimately show ?thesis using len b by (simp add: DecodeUtf8_def u)
  qed
qed

lemma EncodeUtf8_length: "EncodeUtf8 cp = Some s \<Longrightarrow> 1 \<le> length s \<and> length s \<le> 4"
  by (auto simp: EncodeUtf8_eq utf8_bytes_def split: if_splits)

lemma DecodeUtf8_encoded:
  assumes "EncodeUtf8 cp = Some s"
  shows "DecodeUtf8 (pre @ s @ rest) (length pre) = (cp, length pre + length s)"
proof -
  define c where "c = nat cp"
  have sc: "scalar_value (int c)" "cp = int c" "s = map char_of (utf8_bytes c)" "c \<le> 0x10FFFF"
    using assms by (auto simp: EncodeUtf8_eq scalar_value_def c_def split: if_splits)
  have "of_char (char_of b :: char) = b" if "b \<in> set (utf8_bytes c)" for b :: nat
    using utf8_bytes_lt [OF sc(4) that] by (simp add: take_bit_eq_mod)
  then have s: "map of_char s = utf8_bytes c" "length s = length (utf8_bytes c)"
    unfolding sc(3) by (simp_all add: map_idI)
  have "map (byte_val (pre @ s @ rest)) [length pre..<length pre + length s] = map of_char s"
    by (rule nth_equalityI) (simp_all add: byte_val_def nth_append)
  then show ?thesis using decode_bytes [OF sc(1), of "pre @ s @ rest" "length pre"] s sc(2) by simp
qed

lemma byte_val_lt: "byte_val sv p < 256"
proof -
  have "(of_char (sv ! p) :: nat) mod 256 = of_char (sv ! p)" by (rule of_char_mod_256)
  then show ?thesis unfolding byte_val_def by (metis mod_less_divisor zero_less_numeral)
qed

lemma join64: "(z :: nat) < 64 \<Longrightarrow> (k * 64 + z) div 64 = k" "z < 64 \<Longrightarrow> (k * 64 + z) mod 64 = z"
  by simp_all

lemma canonical2: "x < 32 \<Longrightarrow> y < 64 \<Longrightarrow> 0x80 \<le> x * 64 + y \<Longrightarrow> utf8_bytes (x * 64 + y) = [0xC0 + x, 0x80 + y]"
  by (simp add: utf8_bytes_def)

lemma canonical3: "x < 16 \<Longrightarrow> y < 64 \<Longrightarrow> z < 64 \<Longrightarrow> 0x800 \<le> (x * 64 + y) * 64 + z \<Longrightarrow>
    utf8_bytes ((x * 64 + y) * 64 + z) = [0xE0 + x, 0x80 + y, 0x80 + z]"
proof -
  assume a: "x < 16" "y < 64" "z < 64" "0x800 \<le> (x * 64 + y) * 64 + z"
  have "((x * 64 + y) * 64 + z) div 64 = x * 64 + y" "((x * 64 + y) * 64 + z) mod 64 = z" using join64 [OF a(3)] by blast+
  moreover have "((x * 64 + y) * 64 + z) div 4096 = x" by (rule div_range) (use a in auto)
  moreover have "(x * 64 + y) mod 64 = y" using a by simp
  moreover have "x \<le> 15" "y \<le> 63" "z \<le> 63" using a(1-3) by simp_all
  then have "(x * 64 + y) * 64 + z < 0x10000" by simp
  ultimately show ?thesis using a(4) unfolding utf8_bytes_def by (simp only:) auto
qed

lemma canonical4: "x < 8 \<Longrightarrow> y < 64 \<Longrightarrow> z < 64 \<Longrightarrow> w < 64 \<Longrightarrow> 0x10000 \<le> ((x * 64 + y) * 64 + z) * 64 + w \<Longrightarrow>
    utf8_bytes (((x * 64 + y) * 64 + z) * 64 + w) = [0xF0 + x, 0x80 + y, 0x80 + z, 0x80 + w]"
proof -
  assume a: "x < 8" "y < 64" "z < 64" "w < 64" "0x10000 \<le> ((x * 64 + y) * 64 + z) * 64 + w"
  define c where "c = ((x * 64 + y) * 64 + z) * 64 + w"
  have "c div 64 = (x * 64 + y) * 64 + z" "c mod 64 = w" unfolding c_def using join64 [OF a(4)] by blast+
  moreover have "c div 4096 = x * 64 + y" unfolding c_def by (rule div_range) (use a in auto)
  moreover have "c div 262144 = x" unfolding c_def by (rule div_range) (use a in auto)
  moreover have "(x * 64 + y) mod 64 = y" "((x * 64 + y) * 64 + z) mod 64 = z" using join64 [OF a(2)] join64 [OF a(3)] by blast+
  ultimately show ?thesis using a(5) unfolding c_def [symmetric] utf8_bytes_def by auto
qed

lemma DecodeUtf8_bytes:
  assumes d: "DecodeUtf8 sv p = (int c, p')"
  shows "map (byte_val sv) [p..<p'] = utf8_bytes c \<and> scalar_value (int c) \<and> p < p' \<and> p' \<le> length sv"
proof -
  have adv: "p < p'" "p' \<le> length sv" using DecodeUtf8_advances [OF d] by auto
  have p: "p < length sv" using adv by simp
  define b0 where "b0 = byte_val sv p"
  have b0: "b0 < 256" by (simp add: b0_def byte_val_lt)
  show ?thesis
  proof (cases "b0 \<le> 0x7F")
    case True
    then have "c = b0" "p' = p + 1" using d p by (auto simp: DecodeUtf8_def b0_def)
    then show ?thesis using True adv by (simp add: utf8_bytes_def b0_def scalar_value_def)
  next
    case False
    then obtain cp0 len where l: "lead_byte b0 = Some (cp0, len)" "\<not> length sv < p + len"
      and cb: "cont_bytes cp0 (map (byte_val sv) [p + 1..<p + len]) = Some c" "\<not> cp_invalid c len" "p' = p + len"
      using d p by (auto simp: DecodeUtf8_def Let_def b0_def split: if_splits option.splits)
    have sc: "scalar_value (int c)" using cb(2) by (auto simp: scalar_value_def cp_invalid_def)
    have x: "x div 64 = 2 \<Longrightarrow> x = 0x80 + x mod 64" for x :: nat using div_mult_mod_eq [of x 64] by simp
    have lt: "x mod 64 < 64" for x :: nat by simp
    consider "len = 2" "b0 div 32 = 6" "cp0 = b0 mod 32" | "len = 3" "b0 div 16 = 14" "cp0 = b0 mod 16"
      | "len = 4" "b0 div 8 = 30" "cp0 = b0 mod 8"
      using l(1) by (auto simp: lead_byte_arith split: if_splits)
    then have "map (byte_val sv) [p..<p + len] = utf8_bytes c"
    proof cases
      case 1
      have r: "[p + 1..<p + len] = [p + 1]" "[p..<p + len] = [p, p + 1]" by (simp_all add: 1 upt_rec)
      define b1 where "b1 = byte_val sv (p + 1)"
      have e: "b1 div 64 = 2" "c = cp0 * 64 + b1 mod 64"
        using cb(1) unfolding r list.map cont_bytes_arith cont_bytes.simps(1) b1_def [symmetric] by (auto split: if_splits)
      have "b0 = 0xC0 + cp0" using 1 div_mult_mod_eq [of b0 32] by simp
      moreover have "utf8_bytes c = [0xC0 + cp0, 0x80 + b1 mod 64]"
        unfolding e(2) by (rule canonical2) (use 1 cb(2) e(2) in \<open>auto simp: cp_invalid_def\<close>)
      ultimately show ?thesis using x [OF e(1)] by (simp add: r b0_def b1_def)
    next
      case 2
      have r: "[p + 1..<p + len] = [p + 1, p + 2]" "[p..<p + len] = [p, p + 1, p + 2]" by (simp_all add: 2 upt_rec)
      define b1 where "b1 = byte_val sv (p + 1)"
      define b2 where "b2 = byte_val sv (p + 2)"
      have e: "b1 div 64 = 2" "b2 div 64 = 2" "c = (cp0 * 64 + b1 mod 64) * 64 + b2 mod 64"
        using cb(1) unfolding r list.map cont_bytes_arith cont_bytes.simps(1) b1_def [symmetric] b2_def [symmetric] by (auto split: if_splits)
      have "b0 = 0xE0 + cp0" using 2 div_mult_mod_eq [of b0 16] by simp
      moreover have "utf8_bytes c = [0xE0 + cp0, 0x80 + b1 mod 64, 0x80 + b2 mod 64]"
        unfolding e(3) by (rule canonical3) (use 2 cb(2) e(3) in \<open>auto simp: cp_invalid_def\<close>)
      ultimately show ?thesis using x [OF e(1)] x [OF e(2)] by (simp add: r b0_def b1_def b2_def)
    next
      case 3
      have r: "[p + 1..<p + len] = [p + 1, p + 2, p + 3]" "[p..<p + len] = [p, p + 1, p + 2, p + 3]" by (simp_all add: 3 upt_rec)
      define b1 where "b1 = byte_val sv (p + 1)"
      define b2 where "b2 = byte_val sv (p + 2)"
      define b3 where "b3 = byte_val sv (p + 3)"
      have e: "b1 div 64 = 2" "b2 div 64 = 2" "b3 div 64 = 2"
        "c = ((cp0 * 64 + b1 mod 64) * 64 + b2 mod 64) * 64 + b3 mod 64"
        using cb(1) unfolding r list.map cont_bytes_arith cont_bytes.simps(1) b1_def [symmetric] b2_def [symmetric] b3_def [symmetric] by (auto split: if_splits)
      have "b0 = 0xF0 + cp0" using 3 div_mult_mod_eq [of b0 8] by simp
      moreover have "utf8_bytes c = [0xF0 + cp0, 0x80 + b1 mod 64, 0x80 + b2 mod 64, 0x80 + b3 mod 64]"
        unfolding e(4) by (rule canonical4) (use 3 cb(2) e(4) in \<open>auto simp: cp_invalid_def\<close>)
      ultimately show ?thesis using x [OF e(1)] x [OF e(2)] x [OF e(3)] by (simp add: r b0_def b1_def b2_def b3_def)
    qed
    then show ?thesis using sc cb(3) adv by simp
  qed
qed

lemma EncodeUtf8_decoded:
  assumes "DecodeUtf8 sv p = (cp, p')" "0 \<le> cp"
  shows "EncodeUtf8 cp = Some (take (p' - p) (drop p sv))"
proof -
  obtain c where c: "cp = int c" using assms(2) by (metis nat_0_le)
  note b = DecodeUtf8_bytes [OF assms(1) [unfolded c]]
  have "map char_of (map (byte_val sv) [p..<p']) = take (p' - p) (drop p sv)"
    by (rule nth_equalityI) (use conjunct2 [OF b] in \<open>auto simp: byte_val_def\<close>)
  then have "map char_of (utf8_bytes c) = take (p' - p) (drop p sv)" using b by metis
  then show ?thesis using b by (simp add: EncodeUtf8_eq c)
qed

section \<open>Texts\<close>

definition enc :: "int \<Rightarrow> string" where "enc cp = map char_of (utf8_bytes (nat cp))"

definition text_of :: "int list \<Rightarrow> string" where "text_of cps = concat (map enc cps)"

lemma text_of_simps [simp]: "text_of [] = []" "text_of (cp # cps) = enc cp @ text_of cps"
  "text_of (xs @ ys) = text_of xs @ text_of ys"
  by (simp_all add: text_of_def)

lemma EncodeUtf8_enc: "scalar_value cp \<Longrightarrow> EncodeUtf8 cp = Some (enc cp)"
  by (simp add: EncodeUtf8_eq enc_def)

lemma enc_nonempty: "0 < length (enc cp)"
  by (simp add: enc_def utf8_bytes_def)

lemma DecodeUtf8_enc:
  "scalar_value cp \<Longrightarrow> DecodeUtf8 (pre @ enc cp @ rest) (length pre) = (cp, length pre + length (enc cp))"
  by (rule DecodeUtf8_encoded [OF EncodeUtf8_enc])

lemma codepoint_loop_text:
  "list_all scalar_value cps \<Longrightarrow>
   codepoint_loop (pre @ text_of cps) (length pre) (length pre + length (text_of cps)) = Inr cps"
proof (induction cps arbitrary: pre)
  case Nil
  then show ?case by (subst codepoint_loop.simps) simp
next
  case (Cons cp cps)
  have cp: "scalar_value cp" "0 \<le> cp" using Cons.prems by (auto simp: scalar_value_def)
  have "codepoint_loop ((pre @ enc cp) @ text_of cps) (length (pre @ enc cp)) (length (pre @ enc cp) + length (text_of cps)) = Inr cps"
    using Cons.IH [of "pre @ enc cp"] Cons.prems by simp
  then show ?case
    using cp DecodeUtf8_enc [OF cp(1), of pre "text_of cps"] enc_nonempty [of cp]
    by (subst codepoint_loop.simps) (simp add: add.assoc)
qed

lemma len_loop_text:
  "list_all scalar_value cps \<Longrightarrow> i \<le> 1 \<Longrightarrow>
   len_loop (pre @ text_of cps) i (length pre) (length pre + length (text_of cps)) n = Inr (n + length cps)"
proof (induction cps arbitrary: pre n)
  case Nil
  then show ?case by (subst len_loop.simps) simp
next
  case (Cons cp cps)
  have cp: "scalar_value cp" "0 \<le> cp" using Cons.prems by (auto simp: scalar_value_def)
  have "len_loop ((pre @ enc cp) @ text_of cps) i (length (pre @ enc cp)) (length (pre @ enc cp) + length (text_of cps)) (n + 1) =
      Inr (n + 1 + length cps)" using Cons by (intro Cons.IH) auto
  then show ?case
    using cp DecodeUtf8_enc [OF cp(1), of pre "text_of cps"] enc_nonempty [of cp] Cons.prems(2)
    by (subst len_loop.simps) (simp add: add.assoc)
qed

definition int_args :: "int list \<Rightarrow> cvar list" where
  "int_args cps = map (\<lambda>cp. VInt (word_of_int cp)) cps"

lemma GetNativeArg_int: "i < length cps \<Longrightarrow> GetNativeArg (int_args cps) i = VInt (word_of_int (cps ! i))"
  by (cases cps) (auto simp: GetNativeArg_def int_args_def nth_Cons split: nat.splits)

lemma sint_cp: "scalar_value cp \<Longrightarrow> sint (word_of_int cp :: int64) = cp"
  by (rule sint_word_of_int64) (auto simp: scalar_value_def)

lemma char_loop_text:
  "list_all scalar_value cps \<Longrightarrow> i + length rest = length cps \<Longrightarrow>
   char_loop i rest (int_args cps) out = Inr (out @ text_of (drop i cps))"
proof (induction rest arbitrary: i out)
  case Nil
  then show ?case by simp
next
  case (Cons a rest)
  have i: "i < length cps" using Cons.prems by simp
  have sc: "scalar_value (cps ! i)" using Cons.prems(1) i by (simp add: list_all_length)
  have "char_loop (Suc i) rest (int_args cps) (out @ enc (cps ! i)) = Inr ((out @ enc (cps ! i)) @ text_of (drop (Suc i) cps))"
    using Cons.prems by (intro Cons.IH) auto
  then show ?case
    using i by (simp add: GetNativeArg_int sint_cp [OF sc] EncodeUtf8_enc [OF sc] Let_def Cons_nth_drop_Suc [OF i, symmetric] del: Cons_nth_drop_Suc)
qed

lemma LuaPosRelat_one: "LuaPosRelat 1 len = 1"
  by (simp add: LuaPosRelat_def)

lemma LuaPosRelat_last:
  assumes "0 < n" "n < 2 ^ 63"
  shows "LuaPosRelat (-1) (word_of_nat n :: int64) = word_of_nat n"
proof -
  have "sint (word_of_nat n :: int64) = int n" using sint_word_of_int64 [of "int n"] assms by simp
  moreover have "unat (word_of_nat n :: int64) = n" using assms by (simp add: unat_of_nat)
  ultimately show ?thesis using assms by (simp add: LuaPosRelat_def Let_def)
qed

lemma sint_len: "n < 2 ^ 63 \<Longrightarrow> sint (word_of_nat n :: int64) = int n"
  using sint_word_of_int64 [of "int n"] by simp

section \<open>Character boundaries\<close>

lemma and_C0: "(b :: nat) < 256 \<Longrightarrow> b AND 0xC0 = 0x80 \<longleftrightarrow> b div 64 = 2"
proof -
  assume b: "b < 256"
  have "b AND push_bit 6 (mask 2) = push_bit 6 (drop_bit 6 b AND mask 2)"
    by (rule bit_eqI) (auto simp: bit_and_iff bit_push_bit_iff bit_drop_bit_eq)
  also have "drop_bit 6 b AND mask 2 = b div 64"
  proof -
    have "drop_bit 6 b AND mask 2 = take_bit 2 (b div 64)" by (simp add: take_bit_eq_mask drop_bit_eq_div)
    then show ?thesis using b by (simp add: take_bit_nat_eq_self)
  qed
  finally have "b AND 0xC0 = b div 64 * 64" by (simp add: mask_eq_exp_minus_1 push_bit_eq_mult)
  then show ?thesis by auto
qed

lemma iscont_arith: "iscont sv p \<longleftrightarrow> p < length sv \<and> byte_val sv p div 64 = 2"
  using and_C0 [OF byte_val_lt, of sv p] by (simp add: iscont_def)

lemma utf8_bytes_head: "utf8_bytes c ! 0 div 64 \<noteq> 2 \<or> 0x110000 \<le> c"
proof -
  have "(0xC0 + x) div 64 = 3" if "x < 64" for x :: nat using that by (intro div_range) auto
  moreover have "(0xE0 + x) div 64 = 3" if "x < 16" for x :: nat using that by (intro div_range) auto
  moreover have "(0xF0 + x) div 64 = 3" if "x < 8" for x :: nat using that by (intro div_range) auto
  ultimately show ?thesis by (auto simp: utf8_bytes_def)
qed

lemma utf8_bytes_tl: "b \<in> set (tl (utf8_bytes c)) \<Longrightarrow> b div 64 = 2"
proof -
  have "(0x80 + x mod 64) div 64 = 2" for x :: nat by (intro div_range) auto
  then show "b \<in> set (tl (utf8_bytes c)) \<Longrightarrow> b div 64 = 2" by (auto simp: utf8_bytes_def split: if_splits)
qed

lemma utf8_bytes_tail: "0 < i \<Longrightarrow> i < length (utf8_bytes c) \<Longrightarrow> utf8_bytes c ! i div 64 = 2"
proof (rule utf8_bytes_tl)
  assume i: "0 < i" "i < length (utf8_bytes c)"
  then have "tl (utf8_bytes c) ! (i - 1) = utf8_bytes c ! i" by (simp add: nth_tl)
  then show "utf8_bytes c ! i \<in> set (tl (utf8_bytes c))" using i by (metis One_nat_def Suc_pred diff_less_mono length_tl less_one linorder_not_less nth_mem less_Suc_eq_le)
qed

lemma iscont_enc:
  assumes "scalar_value cp" "i < length (enc cp)"
  shows "iscont (pre @ enc cp @ rest) (length pre + i) \<longleftrightarrow> 0 < i"
proof -
  have c: "nat cp \<le> 0x10FFFF" using assms(1) by (auto simp: scalar_value_def)
  have i: "i < length (utf8_bytes (nat cp))" using assms(2) by (simp add: enc_def)
  have "utf8_bytes (nat cp) ! i < 256" using utf8_bytes_lt [OF c] i by simp
  then have "byte_val (pre @ enc cp @ rest) (length pre + i) = utf8_bytes (nat cp) ! i"
    using i by (simp add: byte_val_def nth_append enc_def)
  then show ?thesis
    using utf8_bytes_head [of "nat cp"] utf8_bytes_tail [of i "nat cp"] i c assms(2)
    by (cases "i = 0") (auto simp: iscont_arith)
qed

lemma iscont_text: "list_all scalar_value cps \<Longrightarrow> \<not> iscont (pre @ text_of cps) (length pre)"
proof (cases cps)
  case (Cons cp cps')
  assume "list_all scalar_value cps"
  then show ?thesis using iscont_enc [of cp 0 pre "text_of cps'"] enc_nonempty [of cp] Cons by simp
qed (simp add: iscont_def)

lemma skip_fwd_enc:
  assumes "scalar_value cp" "list_all scalar_value cps" "i < length (enc cp)"
  shows "skip_fwd (pre @ enc cp @ text_of cps) (length pre + i) = length pre + length (enc cp)"
  using assms(3)
proof (induction "length (enc cp) - i" arbitrary: i)
  case 0
  then show ?case by simp
next
  case (Suc n)
  show ?case
  proof (cases "i + 1 < length (enc cp)")
    case True
    then have "iscont (pre @ enc cp @ text_of cps) (length pre + i + 1)"
      using iscont_enc [OF assms(1) True, of pre "text_of cps"] by (simp add: add.assoc)
    moreover have "skip_fwd (pre @ enc cp @ text_of cps) (length pre + (i + 1)) = length pre + length (enc cp)"
      using Suc True by (intro Suc.hyps(1)) auto
    ultimately show ?thesis using True by (subst skip_fwd.simps) (simp add: add.assoc)
  next
    case False
    then have e: "length pre + i + 1 = length (pre @ enc cp)" using Suc.prems by simp
    have "\<not> iscont ((pre @ enc cp) @ text_of cps) (length (pre @ enc cp))" by (rule iscont_text [OF assms(2)])
    then have "\<not> iscont (pre @ enc cp @ text_of cps) (length pre + i + 1)" unfolding e by simp
    then show ?thesis using e by (subst skip_fwd.simps) simp
  qed
qed

lemma move_fwd_text:
  "list_all scalar_value cps \<Longrightarrow>
   move_fwd (pre @ text_of cps) n (length pre) = (n - length cps, length pre + length (text_of (take n cps)))"
proof (induction n arbitrary: pre cps)
  case (Suc n)
  show ?case
  proof (cases cps)
    case (Cons cp cps')
    have cp: "scalar_value cp" "list_all scalar_value cps'" using Suc.prems Cons by auto
    have "move_fwd ((pre @ enc cp) @ text_of cps') n (length (pre @ enc cp)) =
        (n - length cps', length (pre @ enc cp) + length (text_of (take n cps')))"
      by (rule Suc.IH [OF cp(2)])
    moreover have "skip_fwd (pre @ enc cp @ text_of cps') (length pre) = length pre + length (enc cp)"
      using skip_fwd_enc [OF cp, of 0 pre] enc_nonempty by simp
    ultimately show ?thesis using Cons enc_nonempty [of cp] by (simp add: add.assoc)
  qed simp
qed simp

section \<open>Properties\<close>

text \<open>
  C38. Decoding inverts encoding wherever the encoding stands in a string, and everything decoding
  accepts is the one encoding of its code point: overlong forms, surrogates and values above U+10FFFF are
  rejected.
\<close>
theorem utf8_roundtrip:
  "(EncodeUtf8 cp = Some s \<longrightarrow> DecodeUtf8 (pre @ s @ rest) (length pre) = (cp, length pre + length s)) \<and>
   (DecodeUtf8 sv p = (c, p') \<and> 0 \<le> c \<longrightarrow> EncodeUtf8 c = Some (take (p' - p) (drop p sv)))"
  using DecodeUtf8_encoded EncodeUtf8_decoded by blast

theorem utf8_roundtrip_witness:
  "DecodeUtf8 (''a'' @ enc 0x20AC @ ''b'') 1 = (0x20AC, 1 + length (enc 0x20AC))"
proof -
  have "EncodeUtf8 0x20AC = Some (enc 0x20AC)" by (simp add: EncodeUtf8_eq scalar_value_def enc_def)
  then show ?thesis
    using utf8_roundtrip [of "0x20AC" "enc 0x20AC" "''a''" "''b''" "[]" 0 "-1" 0] by simp
qed



text \<open>
  C40. On a text of Unicode scalar values, \<open>utf8.offset(s, k)\<close> for positive \<open>k\<close> is the byte position where
  the \<open>k\<close>-th character starts, one past the end for the one after the last, and nil beyond.
\<close>
theorem utf8_offset_on_text:
  assumes "list_all scalar_value cps" and "length (text_of cps) < 2 ^ 63 - 1" and "0 < k" and "k < 2 ^ 63"
  shows "Utf8Offset [VString (text_of cps), VInt (word_of_nat k)] =
    Inr (if k \<le> length cps + 1 then VInt (word_of_nat (length (text_of (take (k - 1) cps)) + 1)) else VNil)"
proof -
  define sv where "sv = text_of cps"
  have len: "length sv < 2 ^ 63" using assms(2) by (simp add: sv_def)
  have k: "sint (word_of_nat k :: int64) = int k" by (rule sint_len [OF assms(4)])
  then have k0: "(word_of_nat k :: int64) \<noteq> 0" using assms(3) by (metis of_nat_0_less_iff less_irrefl signed_0)
  have "move_fwd sv (k - 1) 0 = (k - 1 - length cps, length (text_of (take (k - 1) cps)))"
    using move_fwd_text [OF assms(1), of "[]" "k - 1"] by (simp add: sv_def)
  moreover have "\<not> iscont sv 0" using iscont_text [OF assms(1), of "[]"] by (simp add: sv_def)
  moreover have "nat (int k - 1) = k - 1" by simp
  ultimately have "Utf8Offset [VString sv, VInt (word_of_nat k)] =
      Inr (if k - 1 - length cps = 0 then VInt (word_of_nat (length (text_of (take (k - 1) cps)) + 1)) else VNil)"
    using assms(3) k0 by (simp add: Utf8Offset_def GetNativeArg_def opt_int_def Let_def k LuaPosRelat_one sint_len [OF len])
  then show ?thesis using assms(3) by (auto simp: sv_def)
qed

theorem utf8_offset_on_text_witness:
  "Utf8Offset [VString (text_of [0x41, 0x20AC]), VInt (word_of_nat 3)] =
    Inr (if (3 :: nat) \<le> length [0x41 :: int, 0x20AC] + 1
         then VInt (word_of_nat (length (text_of (take (3 - 1) [0x41, 0x20AC])) + 1)) else VNil)"
  by (rule utf8_offset_on_text) (simp_all add: scalar_value_def enc_def utf8_bytes_def)

end
