(* ===== verification/Bytecode.thy ===== *)
theory Bytecode
imports VmOps
begin

text \<open>
  The bytecode shared by generator and interpreter: the opcodes and instructions of \<open>interp/opcode.h\<close> and
  the function prototypes of \<open>interp/func_proto.h\<close>. The three register operands are \<open>uint8_t\<close> and \<open>sbx\<close> is
  \<open>int32_t\<close> in the code; they are a natural number and an integer here, and \<open>inst_ok\<close> states the ranges
  that make the two agree. \<open>NOT\<close> is \<open>OP_NOT\<close> here, as the former is syntax for bits. Prototypes refer to each other by address; a unit is a number.
\<close>

section \<open>Instructions\<close>

datatype Op =
    MOVE | LOADK | LOADNIL | LOADBOOL | GETGLOBAL | SETGLOBAL | GETUPVAL | SETUPVAL
  | GETTABLE | SETTABLE | NEWTABLE | NEWBOX
  | ADD | SUB | MUL | DIV | IDIV | MOD | POW | BAND | BXOR | BOR | SHL | SHR | CONCAT
  | UNM | OP_NOT | LEN | BNOT | EQ | LT | LE
  | TESTJMP | JMP | CALL | CALLNAME | RETURN | CLOSURE | SETLIST | TABENT | TABCOUNT
  | UNBOX | MAKEMULTI | COMBINE | THROW | FORPREP | FORLOOP

record Inst =
  opc :: Op
  ia :: nat
  ib :: nat
  ic :: nat
  sbx :: int

record UpvalDesc =
  in_stack :: bool
  uv_idx :: nat

record FuncProto =
  proto_name :: string
  proto_unit :: nat
  param_count :: nat
  proto_vararg :: bool
  max_stack :: nat
  uses_boxes :: bool
  code :: "Inst list"
  constants :: "cvar list"
  upvalues :: "UpvalDesc list"
  child_protos :: "ptr list"
  lineinfo :: "nat list"

section \<open>Well-formed code\<close>

text \<open>
  What the interpreter's hot path takes for granted: every register an instruction touches lies in the
  frame, constants and child prototypes exist, and jumps land on an instruction. \<open>regs_of\<close> lists the
  registers as \<open>VM_R\<close> and \<open>VM_W\<close> use them; a call reads its callee and arguments.
\<close>

definition regs_of :: "Inst \<Rightarrow> nat list" where
  "regs_of i =
     (case opc i of
        MOVE \<Rightarrow> [ia i, ib i]
      | GETTABLE \<Rightarrow> [ia i, ib i, ic i]
      | SETTABLE \<Rightarrow> [ia i, ib i, ic i]
      | UNM \<Rightarrow> [ia i, ib i] | OP_NOT \<Rightarrow> [ia i, ib i] | LEN \<Rightarrow> [ia i, ib i] | BNOT \<Rightarrow> [ia i, ib i]
      | ADD \<Rightarrow> [ia i, ib i, ic i] | SUB \<Rightarrow> [ia i, ib i, ic i] | MUL \<Rightarrow> [ia i, ib i, ic i]
      | DIV \<Rightarrow> [ia i, ib i, ic i] | IDIV \<Rightarrow> [ia i, ib i, ic i] | MOD \<Rightarrow> [ia i, ib i, ic i]
      | POW \<Rightarrow> [ia i, ib i, ic i] | BAND \<Rightarrow> [ia i, ib i, ic i] | BXOR \<Rightarrow> [ia i, ib i, ic i]
      | BOR \<Rightarrow> [ia i, ib i, ic i] | SHL \<Rightarrow> [ia i, ib i, ic i] | SHR \<Rightarrow> [ia i, ib i, ic i]
      | CONCAT \<Rightarrow> [ia i, ib i, ic i] | EQ \<Rightarrow> [ia i, ib i, ic i] | LT \<Rightarrow> [ia i, ib i, ic i]
      | LE \<Rightarrow> [ia i, ib i, ic i]
      | CALL \<Rightarrow> [ia i..<ia i + 1 + ib i]
      | CALLNAME \<Rightarrow> ia i # [ia i..<ia i + ib i]
      | SETLIST \<Rightarrow> [ia i, ic i]
      | TABENT \<Rightarrow> [ia i, ib i, ic i, nat (sbx i)]
      | TABCOUNT \<Rightarrow> [ia i, ib i]
      | UNBOX \<Rightarrow> [ia i, ib i]
      | MAKEMULTI \<Rightarrow> ia i # [ia i..<ia i + ib i]
      | COMBINE \<Rightarrow> [ia i..<ia i + ib i + 1]
      | FORPREP \<Rightarrow> [ia i..<ia i + 4]
      | FORLOOP \<Rightarrow> [ia i..<ia i + 4]
      | JMP \<Rightarrow> []
      | THROW \<Rightarrow> []
      | _ \<Rightarrow> [ia i])"

definition is_jump :: "Op \<Rightarrow> bool" where
  "is_jump k \<longleftrightarrow> k = JMP \<or> k = TESTJMP \<or> k = FORPREP \<or> k = FORLOOP"

definition uses_const :: "Op \<Rightarrow> bool" where
  "uses_const k \<longleftrightarrow> k = LOADK \<or> k = GETGLOBAL \<or> k = SETGLOBAL \<or> k = CALLNAME \<or> k = THROW"

definition inst_ok :: "nat \<Rightarrow> nat \<Rightarrow> nat \<Rightarrow> Inst \<Rightarrow> bool" where
  "inst_ok nregs nconsts nchildren i \<longleftrightarrow>
     ia i \<le> 255 \<and> ib i \<le> 255 \<and> ic i \<le> 255 \<and>
     (\<forall>r \<in> set (regs_of i). r < nregs) \<and>
     (uses_const (opc i) \<longrightarrow> 0 \<le> sbx i \<and> nat (sbx i) < nconsts) \<and>
     (opc i = CLOSURE \<longrightarrow> 0 \<le> sbx i \<and> nat (sbx i) < nchildren) \<and>
     (opc i = TABENT \<longrightarrow> 0 \<le> sbx i)"

definition jump_ok :: "nat \<Rightarrow> nat \<Rightarrow> Inst \<Rightarrow> bool" where
  "jump_ok len k i \<longleftrightarrow> (is_jump (opc i) \<longrightarrow> 0 \<le> int k + 1 + sbx i \<and> int k + 1 + sbx i < int len)"

definition frame_size :: "FuncProto \<Rightarrow> nat" where
  "frame_size p = max (max_stack p) (param_count p) + 8"

definition proto_ok :: "FuncProto \<Rightarrow> bool" where
  "proto_ok p \<longleftrightarrow>
     code p \<noteq> [] \<and> opc (last (code p)) = RETURN \<and>
     (\<forall>k < length (code p).
        inst_ok (frame_size p) (length (constants p)) (length (child_protos p)) (code p ! k) \<and>
        jump_ok (length (code p)) k (code p ! k))"

end
