(* ===== verification/InterpRuntime.thy ===== *)
theory InterpRuntime
imports Bytecode TableLib Conversions
begin

text \<open>
  The state of the bytecode interpreter and its runtime helpers (\<open>interp/runtime.cpp\<close>, the slot access of
  \<open>interp/vm_ops.h\<close>, exceptions of \<open>util/exception.cpp\<close>). Captured locals live in heap cells; closures and
  cells have addresses, 0 is the null pointer. Global variables are per compilation unit. The four counters at
  the end are the interpreter's thread-local stack bookkeeping. Strings are shorter than \<open>2 ^ 31\<close> bytes, as
  \<open>VarString\<close> stores their length in an \<open>int\<close>. Memory does not run out below the allocator's block limit.
\<close>

section \<open>State and steps\<close>

record VarClosure =
  func_ptr :: ptr
  expected_arg_count :: int
  is_vararg :: bool
  interp_magic :: bool
  cl_upvalues :: "ptr list"

record vmstate =
  nst :: nstate
  cells :: "ptr \<Rightarrow> cvar"
  closures :: "ptr \<Rightarrow> VarClosure option"
  vm_globals :: "nat \<Rightarrow> string \<Rightarrow> cvar option"
  next_cell :: ptr
  interp_top :: nat
  stack_cap :: nat
  boxes_cap :: nat
  boxed_frames :: nat

text \<open>An exception in flight: \<open>FakeluaException::Parts\<close> without the C++ stack.\<close>

record fl_exn =
  ex_msg :: string
  ex_loc :: string

definition HasLoc :: "fl_exn \<Rightarrow> bool" where "HasLoc e \<longleftrightarrow> ex_loc e \<noteq> []"

definition SetLoc :: "string \<Rightarrow> fl_exn \<Rightarrow> fl_exn" where
  "SetLoc loc e = (if loc = [] \<or> HasLoc e then e else e\<lparr>ex_loc := loc\<rparr>)"

type_synonym 'a vres = "fl_exn + 'a"
type_synonym 'a vstep = "vmstate \<Rightarrow> 'a vres \<times> vmstate"

definition vret :: "'a \<Rightarrow> 'a vstep" where "vret x s = (Inr x, s)"

definition vthrow :: "string \<Rightarrow> 'a vstep" where "vthrow msg s = (Inl \<lparr>ex_msg = msg, ex_loc = []\<rparr>, s)"

definition vbind :: "'a vstep \<Rightarrow> ('a \<Rightarrow> 'b vstep) \<Rightarrow> 'b vstep" where
  "vbind m f s = (case m s of (Inl e, s') \<Rightarrow> (Inl e, s') | (Inr x, s') \<Rightarrow> f x s')"

text \<open>Operations of the other theories as steps: pure ones, those on the tables, those on one table.\<close>

definition vlift :: "'a result \<Rightarrow> 'a vstep" where
  "vlift r = (case r of Inl msg \<Rightarrow> vthrow msg | Inr x \<Rightarrow> vret x)"

definition vnative :: "'a nstep \<Rightarrow> 'a vstep" where
  "vnative m s = (case m (nst s) of
     (Inl msg, n) \<Rightarrow> (Inl \<lparr>ex_msg = msg, ex_loc = []\<rparr>, s\<lparr>nst := n\<rparr>)
   | (Inr x, n) \<Rightarrow> (Inr x, s\<lparr>nst := n\<rparr>))"

lemma vbind_simps [simp]: "vbind (vret x) f = f x" "vbind (vthrow msg) f = vthrow msg"
  by (auto simp: vbind_def vret_def vthrow_def fun_eq_iff)

lemma vbind_Inr: "vbind m f s = (Inr y, s') \<longleftrightarrow> (\<exists>x t. m s = (Inr x, t) \<and> f x t = (Inr y, s'))"
  by (auto simp: vbind_def split: prod.splits sum.splits)

text \<open>Parameters: the code of other back ends, calls by name, and what the table snapshots look like.\<close>

record vm_env =
  ve_spec :: spec_env
  ve_snapshot :: "VarTable \<Rightarrow> VarTable"
  ve_pow :: "double \<Rightarrow> double \<Rightarrow> double"
  ve_version :: string
  ve_closure :: "ptr \<Rightarrow> cvar list \<Rightarrow> cvar vstep"
  ve_by_name :: "string \<Rightarrow> cvar list \<Rightarrow> cvar vstep"

section \<open>Registers\<close>

text \<open>The frame of one activation; \<open>boxp\<close> holds 0 where a register has no box.\<close>

record frame =
  stk :: "cvar list"
  boxp :: "ptr list"
  ip :: int

definition VmSlot :: "bool \<Rightarrow> vmstate \<Rightarrow> frame \<Rightarrow> nat \<Rightarrow> cvar" where
  "VmSlot has_boxes s fr r =
     (if has_boxes \<and> boxp fr ! r \<noteq> 0 then cells s (boxp fr ! r) else stk fr ! r)"

definition VmWrite :: "bool \<Rightarrow> nat \<Rightarrow> cvar \<Rightarrow> frame \<Rightarrow> frame vstep" where
  "VmWrite has_boxes r v fr s =
     (Inr (fr\<lparr>stk := (stk fr)[r := v]\<rparr>),
      if has_boxes \<and> boxp fr ! r \<noteq> 0 then s\<lparr>cells := (cells s)(boxp fr ! r := v)\<rparr> else s)"

definition VmClearBox :: "bool \<Rightarrow> nat \<Rightarrow> frame \<Rightarrow> frame" where
  "VmClearBox has_boxes r fr = (if has_boxes then fr\<lparr>boxp := (boxp fr)[r := 0]\<rparr> else fr)"

definition new_cell :: "cvar \<Rightarrow> ptr vstep" where
  "new_cell v s = (Inr (next_cell s),
     s\<lparr>cells := (cells s)(next_cell s := v), next_cell := next_cell s + 16\<rparr>)"

section \<open>Runtime helpers\<close>

definition as_text :: "cvar \<Rightarrow> string result" where
  "as_text v = (case v of
     VString t \<Rightarrow> Inr t
   | VStringId t \<Rightarrow> Inr t
   | VInt i \<Rightarrow> Inr (to_string_int (sint i))
   | VFloat d \<Rightarrow> Inr (FormatLuaFloat d)
   | _ \<Rightarrow> Inl ''attempt to concatenate a non-string value'')"

definition alloc_check :: "nat \<Rightarrow> unit result" where
  "alloc_check n = (if BLOCK_SIZE < n then Inl (alloc_size_error n) else Inr ())"

definition sizeof_VarString :: nat where "sizeof_VarString = 8"
definition sizeof_VarMulti :: nat where "sizeof_VarMulti = 8"

text \<open>The \<open>int\<close> sum of the two lengths overflows exactly from \<open>2 ^ 31\<close> on.\<close>

definition BinConcat :: "cvar \<Rightarrow> cvar \<Rightarrow> cvar result" where
  "BinConcat a b =
     rbind (as_text a) (\<lambda>sa. rbind (as_text b) (\<lambda>sb.
       let total = length sa + length sb in
       if 2 ^ 31 \<le> total then Inl ''string concatenation result too long''
       else rbind (alloc_check (sizeof_VarString + total)) (\<lambda>_. Inr (VString (sa @ sb)))))"

definition UnLen :: "vm_env \<Rightarrow> cvar \<Rightarrow> cvar vstep" where
  "UnLen env a = (case a of
     VString t \<Rightarrow> vret (VInt (word_of_nat (length t)))
   | VStringId t \<Rightarrow> vret (VInt (word_of_nat (length t)))
   | VTable _ _ \<Rightarrow> vbind (vnative (get_len (ve_spec env) a)) (\<lambda>n. vret (VInt n))
   | _ \<Rightarrow> vthrow ''attempt to get length of a non-string/table value'')"

definition index_error :: string where "index_error = ''attempt to index a non-table value''"
definition nil_index :: string where "nil_index = ''table index is nil''"

definition vget_table :: "vm_env \<Rightarrow> cvar \<Rightarrow> cvar \<Rightarrow> cvar vstep" where
  "vget_table env t k s = vlift (GetTable (ve_spec env) (tables (nst s) (tbl_ptr t)) k) s"

definition RtSetTable :: "vm_env \<Rightarrow> cvar \<Rightarrow> cvar \<Rightarrow> cvar \<Rightarrow> unit vstep" where
  "RtSetTable env t k v s =
     (case t of
        VTable flag p \<Rightarrow>
          if k = VNil then vthrow nil_index s
          else if is_nan_key k then vthrow nan_index s
          else if flag \<and> \<not> interp_const_alloc (nst s) then vthrow const_error s
          else vnative (on_table p (\<lambda>tb. SetTable (ve_spec env) (interp_const_alloc (nst s)) flag tb k v)) s
      | _ \<Rightarrow> vthrow index_error s)"

definition NewTable :: "cvar vstep" where "NewTable = vnative new_table"

fun expand_from :: "vm_env \<Rightarrow> cvar \<Rightarrow> int \<Rightarrow> cvar list \<Rightarrow> unit vstep" where
  "expand_from env t i [] = vret ()"
| "expand_from env t i (v # vs) =
     vbind (RtSetTable env t (VInt (word_of_int i)) v) (\<lambda>_. expand_from env t (i + 1) vs)"

definition TableExpandMulti :: "vm_env \<Rightarrow> cvar \<Rightarrow> int \<Rightarrow> cvar \<Rightarrow> unit vstep" where
  "TableExpandMulti env t start v =
     (case v of
        VMulti vs \<Rightarrow> expand_from env t start vs
      | _ \<Rightarrow> RtSetTable env t (VInt (word_of_int start)) v)"

text \<open>The \<open>idx\<close>-th pair: specialised fields, then the array part, then the hash part.\<close>

definition entry_at :: "VarTable \<Rightarrow> nat \<Rightarrow> (cvar \<times> cvar) option" where
  "entry_at t idx =
     (if idx < spec_count t then Some (the (spec_keys t) ! idx, the (spec_vals t) ! idx)
      else let h = idx - spec_count t in
        if h < arr_size t then Some (VInt (word_of_nat h + 1), arr t ! h)
        else let h = h - arr_size t in
          if bucket_count t = 0 then
            (if tbl_count t \<le> h then None else Some (e_key (quick_data t ! h), e_val (quick_data t ! h)))
          else if active_list t = [] \<or> tbl_count t \<le> h then None
          else let n = entry (nodes t ! (active_list t ! h)) in Some (e_key n, e_val n))"

definition TableEntry :: "vm_env \<Rightarrow> cvar \<Rightarrow> nat \<Rightarrow> (cvar \<times> cvar) option vstep" where
  "TableEntry env t idx s =
     (case t of
        VTable _ p \<Rightarrow>
          if p = 0 then vret None s
          else vnative (on_table p (\<lambda>tb. let tb = ve_snapshot env tb in (Inr (entry_at tb idx), tb))) s
      | _ \<Rightarrow> vret None s)"

definition TableEntryCount :: "vm_env \<Rightarrow> cvar \<Rightarrow> nat vstep" where
  "TableEntryCount env t =
     (case t of
        VTable _ p \<Rightarrow>
          if p = 0 then vthrow ''for in: not a table''
          else vnative (on_table p (\<lambda>tb. let tb = ve_snapshot env tb in
            (Inr (tbl_count tb + spec_count tb + arr_size tb), tb)))
      | _ \<Rightarrow> vthrow ''for in: not a table'')"

fun multi_first :: "cvar \<Rightarrow> cvar" where
  "multi_first (VMulti vs) = (if vs = [] then VNil else hd vs)"
| "multi_first v = v"

definition alloc_multi :: "cvar list \<Rightarrow> cvar result" where
  "alloc_multi vs = rbind (alloc_check (sizeof_VarMulti + length vs * sizeof_CVar)) (\<lambda>_. Inr (VMulti vs))"

definition MakeMulti :: "cvar list \<Rightarrow> cvar result" where
  "MakeMulti vals = alloc_multi (map multi_first vals)"

definition CombineMulti :: "cvar list \<Rightarrow> cvar \<Rightarrow> cvar result" where
  "CombineMulti prefix lst =
     alloc_multi (map multi_first prefix @ (case lst of VMulti vs \<Rightarrow> vs | _ \<Rightarrow> [lst]))"

definition MakeClosure :: "ptr \<Rightarrow> FuncProto \<Rightarrow> ptr list \<Rightarrow> cvar vstep" where
  "MakeClosure fp child ups s =
     (let p = next_cell s in
      (Inr (VClosure p),
       s\<lparr>closures := (closures s)(p \<mapsto> \<lparr>func_ptr = fp, expected_arg_count = int (param_count child),
           is_vararg = proto_vararg child, interp_magic = True, cl_upvalues = ups\<rparr>),
         next_cell := p + 32 + 8 * word_of_nat (length ups)\<rparr>))"

definition IsInterpClosure :: "VarClosure \<Rightarrow> bool" where
  "IsInterpClosure c \<longleftrightarrow> interp_magic c \<and> func_ptr c \<noteq> 0"

end
