(* ===== verification/Interp.thy ===== *)
theory Interp
imports InterpRuntime
begin

text \<open>
  The bytecode interpreter (\<open>interp/interpreter.cpp\<close>). \<open>exec_inst\<close> is one instruction, after the fetch that
  advances \<open>ip\<close>; it continues with a frame or returns a value. \<open>has_boxes\<close> is the template parameter. Calls
  of closures go through an argument, which \<open>InterpreterExecute\<close> ties to itself with fuel: one unit per
  instruction and per nested activation. Running out is the exception \<open>diverges\<close>. A fetch outside the code is
  undefined behaviour in the source and the exception \<open>bad_pc\<close> here; \<open>InterpSafety\<close> shows that well-formed code
  never gets there.
\<close>

section \<open>Names and globals\<close>

fun ConstToName :: "cvar \<Rightarrow> string" where
  "ConstToName (VStringId t) = t"
| "ConstToName (VString t) = t"
| "ConstToName _ = []"

definition LookupGlobal :: "vm_env \<Rightarrow> nat \<Rightarrow> string \<Rightarrow> vmstate \<Rightarrow> cvar" where
  "LookupGlobal env u name s =
     (if name = ''_VERSION'' then VStringId (''Fakelua '' @ ve_version env)
      else case vm_globals s u name of None \<Rightarrow> VNil | Some v \<Rightarrow> v)"

definition SetGlobal :: "nat \<Rightarrow> string \<Rightarrow> cvar \<Rightarrow> unit vstep" where
  "SetGlobal u name v s =
     (Inr (), s\<lparr>vm_globals := (vm_globals s)(u := (vm_globals s u)(name \<mapsto> v))\<rparr>)"

section \<open>One instruction\<close>

datatype outcome = Next frame | Return cvar

text \<open>Write a register and go on.\<close>

definition put_reg :: "bool \<Rightarrow> nat \<Rightarrow> frame \<Rightarrow> cvar \<Rightarrow> outcome vstep" where
  "put_reg hb r fr v = vbind (VmWrite hb r v fr) (\<lambda>fr'. vret (Next fr'))"

definition jump :: "int \<Rightarrow> frame \<Rightarrow> outcome vstep" where
  "jump d fr = vret (Next (fr\<lparr>ip := ip fr + d\<rparr>))"

text \<open>Addition, subtraction, multiplication and equality have a fast path for two integers.\<close>

definition int_fast :: "(int64 \<Rightarrow> int64 \<Rightarrow> cvar) \<Rightarrow> cvar result \<Rightarrow> cvar \<Rightarrow> cvar \<Rightarrow> cvar result" where
  "int_fast f slow a b = (case (a, b) of (VInt x, VInt y) \<Rightarrow> Inr (f x y) | _ \<Rightarrow> slow)"

definition binop_fun :: "vm_env \<Rightarrow> Op \<Rightarrow> cvar \<Rightarrow> cvar \<Rightarrow> cvar result" where
  "binop_fun env k a b =
     (case k of
        ADD \<Rightarrow> int_fast (\<lambda>x y. VInt (x + y)) (BinAdd a b) a b
      | SUB \<Rightarrow> int_fast (\<lambda>x y. VInt (x - y)) (BinSub a b) a b
      | MUL \<Rightarrow> int_fast (\<lambda>x y. VInt (x * y)) (BinMul a b) a b
      | EQ \<Rightarrow> int_fast (\<lambda>x y. VBool (x = y)) (Inr (VBool (Equal a b))) a b
      | DIV \<Rightarrow> BinDiv a b | IDIV \<Rightarrow> BinIdiv a b | MOD \<Rightarrow> BinMod a b | POW \<Rightarrow> BinPow (ve_pow env) a b
      | BAND \<Rightarrow> BinBand a b | BXOR \<Rightarrow> BinBxor a b | BOR \<Rightarrow> BinBor a b | SHL \<Rightarrow> BinShl a b | SHR \<Rightarrow> BinShr a b
      | CONCAT \<Rightarrow> BinConcat a b | LT \<Rightarrow> CmpLt a b | _ \<Rightarrow> CmpLe a b)"

definition unop_fun :: "vm_env \<Rightarrow> Op \<Rightarrow> cvar \<Rightarrow> cvar vstep" where
  "unop_fun env k a =
     (case k of
        UNM \<Rightarrow> vlift (UnMinus a)
      | OP_NOT \<Rightarrow> vret (UnNot a)
      | LEN \<Rightarrow> UnLen env a
      | _ \<Rightarrow> vlift (UnBnot a))"

definition exec_binop :: "vm_env \<Rightarrow> bool \<Rightarrow> Inst \<Rightarrow> frame \<Rightarrow> outcome vstep" where
  "exec_binop env hb i fr s =
     vbind (vlift (binop_fun env (opc i) (VmSlot hb s fr (ib i)) (VmSlot hb s fr (ic i)))) (put_reg hb (ia i) fr) s"

definition exec_unop :: "vm_env \<Rightarrow> bool \<Rightarrow> Inst \<Rightarrow> frame \<Rightarrow> outcome vstep" where
  "exec_unop env hb i fr s =
     vbind (unop_fun env (opc i) (VmSlot hb s fr (ib i))) (put_reg hb (ia i) fr) s"

definition exec_gettable :: "vm_env \<Rightarrow> bool \<Rightarrow> Inst \<Rightarrow> frame \<Rightarrow> outcome vstep" where
  "exec_gettable env hb i fr s =
     (let t = VmSlot hb s fr (ib i); k = VmSlot hb s fr (ic i) in
      if Type t \<noteq> TTable then vthrow index_error s
      else if k = VNil then vthrow nil_index s
      else case k of
          VInt n \<Rightarrow> put_reg hb (ia i) fr (GetTableInt (ve_spec env) (tables (nst s) (tbl_ptr t)) n) s
        | _ \<Rightarrow> vbind (vget_table env t k) (put_reg hb (ia i) fr) s)"

text \<open>Upvalues are pointers to cells; a missing one reads as nil and swallows writes.\<close>

definition upval_ptr :: "VarClosure option \<Rightarrow> nat \<Rightarrow> ptr" where
  "upval_ptr cl k = (case cl of None \<Rightarrow> 0 | Some c \<Rightarrow> if k < length (cl_upvalues c) then cl_upvalues c ! k else 0)"

definition exec_newbox :: "bool \<Rightarrow> Inst \<Rightarrow> frame \<Rightarrow> outcome vstep" where
  "exec_newbox hb i fr s =
     (if \<not> hb then vthrow ''interpreter: NEWBOX without boxes'' s
      else vbind (new_cell (VmSlot hb s fr (ia i))) (\<lambda>p. vret (Next (fr\<lparr>boxp := (boxp fr)[ia i := p]\<rparr>))) s)"

text \<open>The upvalues of a new closure; a captured register without a box gets one here.\<close>

definition bind_upval :: "bool \<Rightarrow> VarClosure option \<Rightarrow> UpvalDesc \<Rightarrow> frame \<Rightarrow> (ptr \<times> frame) vstep" where
  "bind_upval hb cl uv fr s =
     (let r = uv_idx uv in
      if \<not> in_stack uv then (Inr (upval_ptr cl r, fr), s)
      else if \<not> hb then vthrow ''interpreter: captured local without boxes'' s
      else if boxp fr ! r \<noteq> 0 then (Inr (boxp fr ! r, fr), s)
      else vbind (new_cell (VmSlot hb s fr r)) (\<lambda>p. vret (p, fr\<lparr>boxp := (boxp fr)[r := p]\<rparr>)) s)"

fun bind_upvals :: "bool \<Rightarrow> VarClosure option \<Rightarrow> UpvalDesc list \<Rightarrow> frame \<Rightarrow> (ptr list \<times> frame) vstep" where
  "bind_upvals hb cl [] fr = vret ([], fr)"
| "bind_upvals hb cl (uv # uvs) fr =
     vbind (bind_upval hb cl uv fr) (\<lambda>(p, fr'). vbind (bind_upvals hb cl uvs fr') (\<lambda>(ps, fr''). vret (p # ps, fr'')))"

definition exec_closure :: "(ptr \<Rightarrow> FuncProto) \<Rightarrow> bool \<Rightarrow> FuncProto \<Rightarrow> VarClosure option \<Rightarrow> Inst \<Rightarrow> frame \<Rightarrow> outcome vstep" where
  "exec_closure protos hb p cl i fr =
     (let fp = child_protos p ! nat (sbx i); child = protos fp in
      vbind (bind_upvals hb cl (upvalues child) fr) (\<lambda>(ups, fr').
        vbind (MakeClosure fp child ups) (put_reg hb (ia i) fr')))"

definition too_many_args :: "nat \<Rightarrow> string" where
  "too_many_args n = ''interpreter: too many arguments ('' @ dec_digits n @ ''), max is 32''"

text \<open>Arguments of \<open>CALL\<close>: a multi value in the last place is spread out, the others give their first value.\<close>

fun flat_args :: "nat \<Rightarrow> cvar list \<Rightarrow> cvar list vres" where
  "flat_args n [] = Inr []"
| "flat_args n [VMulti vs] =
     (if 32 < n + length vs then Inl \<lparr>ex_msg = too_many_args (n + length vs), ex_loc = []\<rparr> else Inr vs)"
| "flat_args n (v # vs) =
     (case flat_args (Suc n) vs of Inl e \<Rightarrow> Inl e | Inr ws \<Rightarrow> Inr (UnboxMulti v 0 # ws))"

definition call_result :: "nat \<Rightarrow> cvar \<Rightarrow> cvar" where
  "call_result c v = (if c = 0 then v else UnboxMulti v 0)"

definition exec_call :: "(ptr \<Rightarrow> cvar list \<Rightarrow> cvar vstep) \<Rightarrow> bool \<Rightarrow> Inst \<Rightarrow> frame \<Rightarrow> outcome vstep" where
  "exec_call call hb i fr s =
     (case VmSlot hb s fr (ia i) of
        VClosure cp \<Rightarrow>
          if cp = 0 then vthrow ''attempt to call a non-function value'' s
          else if 32 < ib i then vthrow (too_many_args (ib i)) s
          else (case flat_args 0 (map (VmSlot hb s fr) [ia i + 1..<ia i + 1 + ib i]) of
                  Inl e \<Rightarrow> (Inl e, s)
                | Inr args \<Rightarrow> vbind (call cp args) (\<lambda>v. put_reg hb (ia i) fr (call_result (ic i) v)) s)
      | _ \<Rightarrow> vthrow ''attempt to call a non-function value'' s)"

definition too_many_for :: "nat \<Rightarrow> string \<Rightarrow> string" where
  "too_many_for n name = ''interpreter: too many arguments ('' @ dec_digits n @ '') passed for function '' @ [CHR 39] @
     name @ [CHR 39] @ '', max is 32''"

definition exec_callname :: "vm_env \<Rightarrow> bool \<Rightarrow> FuncProto \<Rightarrow> Inst \<Rightarrow> frame \<Rightarrow> outcome vstep" where
  "exec_callname env hb p i fr s =
     (let name = ConstToName (constants p ! nat (sbx i)) in
      if 32 < ib i then vthrow (too_many_for (ib i) name) s
      else vbind (ve_by_name env name (map (VmSlot hb s fr) [ia i..<ia i + ib i]))
             (\<lambda>v. put_reg hb (ia i) fr (call_result (ic i) v)) s)"

definition exec_tabent :: "vm_env \<Rightarrow> bool \<Rightarrow> Inst \<Rightarrow> frame \<Rightarrow> outcome vstep" where
  "exec_tabent env hb i fr s =
     (let idx = (case VmSlot hb s fr (nat (sbx i)) of
                   VInt n \<Rightarrow> if 0 \<le> sint n then unat (ucast n :: uint32) else 0
                 | _ \<Rightarrow> 0)
      in vbind (TableEntry env (VmSlot hb s fr (ia i)) idx) (\<lambda>r.
           let (k, v) = (case r of Some kv \<Rightarrow> kv | None \<Rightarrow> (VNil, VNil)) in
           vbind (VmWrite hb (ib i) k fr) (\<lambda>fr'. put_reg hb (ic i) fr' v)) s)"

text \<open>The loop variable is written past its box, which is dropped: the next iteration gets a new one.\<close>

definition set_loop_var :: "bool \<Rightarrow> nat \<Rightarrow> cvar \<Rightarrow> frame \<Rightarrow> frame" where
  "set_loop_var hb r v fr = VmClearBox hb r (fr\<lparr>stk := (stk fr)[r := v]\<rparr>)"

definition exec_forprep :: "bool \<Rightarrow> Inst \<Rightarrow> frame \<Rightarrow> outcome vstep" where
  "exec_forprep hb i fr s =
     (let base = ia i in
      vbind (vlift (ForPrep (VmSlot hb s fr base) (VmSlot hb s fr (base + 1)) (VmSlot hb s fr (base + 2))))
        (\<lambda>(skip, ctrl, limit, step, loopv).
           if skip then jump (sbx i) (set_loop_var hb (base + 3) loopv fr)
           else vbind (VmWrite hb base ctrl fr) (\<lambda>fr. vbind (VmWrite hb (base + 1) limit fr) (\<lambda>fr.
                vbind (VmWrite hb (base + 2) step fr) (\<lambda>fr. vret (Next (set_loop_var hb (base + 3) loopv fr)))))) s)"

definition exec_forloop :: "bool \<Rightarrow> Inst \<Rightarrow> frame \<Rightarrow> outcome vstep" where
  "exec_forloop hb i fr s =
     (let base = ia i; step = VmSlot hb s fr (base + 2) in
      case step of
        VInt st \<Rightarrow>
          let count = data_i (VmSlot hb s fr (base + 1)) in
          if 0 < count then
            vbind (VmWrite hb (base + 1) (VInt (count - 1)) fr) (\<lambda>fr s.
              vbind (VmWrite hb base (VInt (data_i (VmSlot hb s fr base) + st)) fr) (\<lambda>fr.
                jump (sbx i) (set_loop_var hb (base + 3) (stk fr ! base) fr)) s) s
          else vret (Next fr) s
      | _ \<Rightarrow>
          vbind (vlift (BinAdd (VmSlot hb s fr base) step)) (\<lambda>c.
            vbind (VmWrite hb base c fr) (\<lambda>fr s.
              vbind (vlift (ForLoopInRange (VmSlot hb s fr base) (VmSlot hb s fr (base + 1)) (VmSlot hb s fr (base + 2))))
                (\<lambda>again. if again then jump (sbx i) (set_loop_var hb (base + 3) (VmSlot hb s fr base) fr)
                        else vret (Next fr)) s)) s)"

definition exec_inst ::
  "vm_env \<Rightarrow> (ptr \<Rightarrow> FuncProto) \<Rightarrow> (ptr \<Rightarrow> cvar list \<Rightarrow> cvar vstep) \<Rightarrow> bool \<Rightarrow> FuncProto \<Rightarrow> VarClosure option \<Rightarrow>
   Inst \<Rightarrow> frame \<Rightarrow> outcome vstep" where
  "exec_inst env protos call hb p cl i fr s =
     (let R = VmSlot hb s fr; W = put_reg hb (ia i) fr; u = proto_unit p; K = constants p ! nat (sbx i) in
      case opc i of
        MOVE \<Rightarrow> W (R (ib i)) s
      | LOADK \<Rightarrow> W K s
      | LOADNIL \<Rightarrow> W VNil s
      | LOADBOOL \<Rightarrow> W (VBool (ib i \<noteq> 0)) s
      | GETGLOBAL \<Rightarrow> W (LookupGlobal env u (ConstToName K) s) s
      | SETGLOBAL \<Rightarrow> vbind (SetGlobal u (ConstToName K) (R (ia i))) (\<lambda>_. vret (Next fr)) s
      | GETUPVAL \<Rightarrow> W (let q = upval_ptr cl (ib i) in if q = 0 then VNil else cells s q) s
      | SETUPVAL \<Rightarrow> (let q = upval_ptr cl (ib i) in
          (Inr (Next fr), if q = 0 then s else s\<lparr>cells := (cells s)(q := R (ia i))\<rparr>))
      | GETTABLE \<Rightarrow> exec_gettable env hb i fr s
      | SETTABLE \<Rightarrow> vbind (RtSetTable env (R (ia i)) (R (ib i)) (R (ic i))) (\<lambda>_. vret (Next fr)) s
      | NEWTABLE \<Rightarrow> vbind NewTable W s
      | NEWBOX \<Rightarrow> exec_newbox hb i fr s
      | UNM \<Rightarrow> exec_unop env hb i fr s | OP_NOT \<Rightarrow> exec_unop env hb i fr s
      | LEN \<Rightarrow> exec_unop env hb i fr s | BNOT \<Rightarrow> exec_unop env hb i fr s
      | TESTJMP \<Rightarrow> (if IsTrue (R (ia i)) = (ib i \<noteq> 0) then jump (sbx i) fr s else vret (Next fr) s)
      | JMP \<Rightarrow> jump (sbx i) fr s
      | CALL \<Rightarrow> exec_call call hb i fr s
      | CALLNAME \<Rightarrow> exec_callname env hb p i fr s
      | RETURN \<Rightarrow> vret (Return (call_result (ib i) (R (ia i)))) s
      | CLOSURE \<Rightarrow> exec_closure protos hb p cl i fr s
      | SETLIST \<Rightarrow> vbind (TableExpandMulti env (R (ia i)) (sbx i) (R (ic i))) (\<lambda>_. vret (Next fr)) s
      | TABENT \<Rightarrow> exec_tabent env hb i fr s
      | TABCOUNT \<Rightarrow> vbind (TableEntryCount env (R (ib i))) (\<lambda>n. W (VInt (word_of_nat n))) s
      | UNBOX \<Rightarrow> W (UnboxMulti (R (ib i)) (ic i)) s
      | MAKEMULTI \<Rightarrow> vbind (vlift (MakeMulti (map R [ia i..<ia i + ib i]))) W s
      | COMBINE \<Rightarrow> vbind (vlift (CombineMulti (map R [ia i..<ia i + ib i]) (R (ia i + ib i)))) W s
      | THROW \<Rightarrow> vthrow (ConstToName K) s
      | FORPREP \<Rightarrow> exec_forprep hb i fr s
      | FORLOOP \<Rightarrow> exec_forloop hb i fr s
      | _ \<Rightarrow> exec_binop env hb i fr s)"

section \<open>Activations\<close>

definition kInterpStackReserve :: nat where "kInterpStackReserve = 262144"

definition stack_overflow :: string where "stack_overflow = ''interpreter stack overflow''"

text \<open>The constructor of \<open>InterpFrame\<close>; a fresh stack grows, one that parent frames point into does not.\<close>

definition enter_frame :: "nat \<Rightarrow> bool \<Rightarrow> frame vstep" where
  "enter_frame nslots want_boxes s =
     (let need = interp_top s + nslots;
          s1 = s\<lparr>stack_cap := max (stack_cap s) kInterpStackReserve\<rparr>
      in if stack_cap s1 < need \<and> interp_top s \<noteq> 0 then vthrow stack_overflow s1
         else let s2 = s1\<lparr>stack_cap := max (stack_cap s1) need\<rparr> in
           if want_boxes \<and> boxes_cap s2 < need \<and> boxed_frames s2 \<noteq> 0 then vthrow stack_overflow s2
           else
             let s3 = (if want_boxes \<and> boxes_cap s2 < need
                       then s2\<lparr>boxes_cap := max need kInterpStackReserve\<rparr> else s2);
                 s4 = (if want_boxes then s3\<lparr>boxed_frames := boxed_frames s3 + 1\<rparr> else s3)
             in (Inr \<lparr>stk = replicate nslots VNil, boxp = (if want_boxes then replicate nslots 0 else []), ip = 0\<rparr>,
                 s4\<lparr>interp_top := need\<rparr>))"

definition leave_frame :: "nat \<Rightarrow> bool \<Rightarrow> vmstate \<Rightarrow> vmstate" where
  "leave_frame saved want_boxes s =
     (if want_boxes then s\<lparr>boxed_frames := boxed_frames s - 1\<rparr> else s)\<lparr>interp_top := saved\<rparr>"

definition AnnotateInterpLocation :: "(nat \<Rightarrow> string) \<Rightarrow> FuncProto \<Rightarrow> int \<Rightarrow> fl_exn \<Rightarrow> fl_exn" where
  "AnnotateInterpLocation unit_file p off e =
     (if HasLoc e \<or> code p = [] \<or> off \<le> 0 \<or> int (length (lineinfo p)) < off then e
      else let line = lineinfo p ! nat (off - 1) in
        if line = 0 then e else SetLoc (unit_file (proto_unit p) @ '':'' @ to_string_nat line) e)"

definition bad_pc :: string where "bad_pc = ''<pc outside the code>''"

fun run :: "(frame \<Rightarrow> Inst \<Rightarrow> outcome vstep) \<Rightarrow> (int \<Rightarrow> fl_exn \<Rightarrow> fl_exn) \<Rightarrow> Inst list \<Rightarrow> nat \<Rightarrow> frame \<Rightarrow> cvar vstep" where
  "run exec annot is 0 fr s = vthrow diverges s"
| "run exec annot is (Suc n) fr s =
     (if ip fr < 0 \<or> int (length is) \<le> ip fr then vthrow bad_pc s
      else let fr1 = fr\<lparr>ip := ip fr + 1\<rparr> in
        case exec fr1 (is ! nat (ip fr)) s of
          (Inl e, s') \<Rightarrow> (Inl (annot (ip fr1) e), s')
        | (Inr (Return v), s') \<Rightarrow> (Inr v, s')
        | (Inr (Next fr2), s') \<Rightarrow> run exec annot is n fr2 s')"

text \<open>The code an activation runs, the image of all prototypes.\<close>

record vm_image =
  proto_at :: "ptr \<Rightarrow> FuncProto"
  unit_file :: "nat \<Rightarrow> string"

definition InterpreterExecuteT ::
  "vm_env \<Rightarrow> vm_image \<Rightarrow> (ptr \<Rightarrow> cvar list \<Rightarrow> cvar vstep) \<Rightarrow> nat \<Rightarrow> bool \<Rightarrow> FuncProto \<Rightarrow> cvar list \<Rightarrow> VarClosure option \<Rightarrow> cvar vstep" where
  "InterpreterExecuteT env im call n hb p args cl s =
     (case enter_frame (frame_size p) hb s of
        (Inl e, s1) \<Rightarrow> (Inl e, s1)
      | (Inr fr, s1) \<Rightarrow>
          let fr1 = fr\<lparr>stk := map (pad_arg args) [0..<param_count p] @ drop (param_count p) (stk fr)\<rparr>;
              (r, s2) = (if code p = [] then vret VNil s1
                         else run (\<lambda>fr i. exec_inst env (proto_at im) call hb p cl i fr)
                                (AnnotateInterpLocation (unit_file im) p) (code p) n fr1 s1)
          in (r, leave_frame (interp_top s) hb s2))"

text \<open>\<open>DispatchCallClosure\<close> and \<open>DispatchCall\<close>: arguments are fitted to the callee before it runs.\<close>

definition dispatch_closure ::
  "vm_env \<Rightarrow> vm_image \<Rightarrow> (FuncProto \<Rightarrow> cvar list \<Rightarrow> VarClosure option \<Rightarrow> cvar vstep) \<Rightarrow> ptr \<Rightarrow> cvar list \<Rightarrow> cvar vstep" where
  "dispatch_closure env im exec cp args s =
     (case closures s cp of
        Some c \<Rightarrow>
          if IsInterpClosure c then
            vbind (vlift (closure_args (is_vararg c) (expected_arg_count c) args))
              (\<lambda>as. exec (proto_at im (func_ptr c)) as (Some c)) s
          else ve_closure env cp args s
      | None \<Rightarrow> ve_closure env cp args s)"

fun InterpreterExecute :: "vm_env \<Rightarrow> vm_image \<Rightarrow> nat \<Rightarrow> FuncProto \<Rightarrow> cvar list \<Rightarrow> VarClosure option \<Rightarrow> cvar vstep" where
  "InterpreterExecute env im 0 p args cl s = vthrow diverges s"
| "InterpreterExecute env im (Suc n) p args cl s =
     InterpreterExecuteT env im (dispatch_closure env im (InterpreterExecute env im n)) (Suc n) (uses_boxes p) p args cl s"

end
