(* ===== verification/InterpSafety.thy ===== *)
theory InterpSafety
imports Interp
begin

text \<open>
  The interpreter on well-formed code. An instruction keeps the size of its frame and moves the instruction
  pointer to the next instruction or along its own jump, so execution of a \<open>proto_ok\<close> function never leaves the
  code and never touches a register outside the frame: the checks that the dispatch loop omits are redundant.
\<close>

section \<open>One instruction\<close>

definition same_shape :: "frame \<Rightarrow> frame \<Rightarrow> bool" where
  "same_shape fr fr' \<longleftrightarrow> length (stk fr') = length (stk fr) \<and> length (boxp fr') = length (boxp fr)"

text \<open>A result that continues does so with a frame of the same shape, at the next instruction or the target.\<close>

definition goes :: "frame \<Rightarrow> Inst \<Rightarrow> outcome vres \<times> vmstate \<Rightarrow> bool" where
  "goes fr i r \<longleftrightarrow>
     (\<forall>fr' s'. r = (Inr (Next fr'), s') \<longrightarrow>
        same_shape fr fr' \<and> (ip fr' = ip fr \<or> is_jump (opc i) \<and> ip fr' = ip fr + sbx i))"

named_theorems goes_rules

lemma goes_vbind [goes_rules]: "(\<And>x s'. goes fr i (f x s')) \<Longrightarrow> goes fr i (vbind m f s)"
  by (auto simp: goes_def vbind_def split: prod.splits sum.splits)

lemma goes_write [goes_rules]:
  "(\<And>s'. goes fr i (f (fr1\<lparr>stk := (stk fr1)[r := v]\<rparr>) s')) \<Longrightarrow> goes fr i (vbind (VmWrite hb r v fr1) f s)"
  by (auto simp: vbind_def VmWrite_def)

lemma goes_simps [goes_rules]:
  "goes fr i (vthrow e s)" "goes fr i (Inl x, s)" "goes fr i (vret (Return v) s)"
  by (simp_all add: goes_def vthrow_def vret_def)

lemma goes_next [goes_rules]: "same_shape fr fr' \<Longrightarrow> ip fr' = ip fr \<Longrightarrow> goes fr i (vret (Next fr') s)"
  by (simp add: goes_def vret_def)

lemma goes_next' [goes_rules]: "same_shape fr fr' \<Longrightarrow> ip fr' = ip fr \<Longrightarrow> goes fr i (Inr (Next fr'), s)"
  by (simp add: goes_def)

lemma goes_jump [goes_rules]:
  "same_shape fr fr' \<Longrightarrow> ip fr' = ip fr \<Longrightarrow> is_jump (opc i) \<Longrightarrow> goes fr i (jump (sbx i) fr' s)"
  by (simp add: goes_def vret_def jump_def same_shape_def)

lemma goes_put_reg [goes_rules]: "same_shape fr fr' \<Longrightarrow> ip fr' = ip fr \<Longrightarrow> goes fr i (put_reg hb r fr' v s)"
  by (simp add: put_reg_def goes_def vbind_def VmWrite_def vret_def same_shape_def)

lemma shape_simps [simp]:
  "same_shape fr fr"
  "same_shape fr (fr1\<lparr>stk := vs\<rparr>) \<longleftrightarrow> length vs = length (stk fr) \<and> length (boxp fr1) = length (boxp fr)"
  "same_shape fr (fr1\<lparr>boxp := ps\<rparr>) \<longleftrightarrow> length (stk fr1) = length (stk fr) \<and> length ps = length (boxp fr)"
  "same_shape fr (set_loop_var hb r v fr1) = same_shape fr fr1" "ip (set_loop_var hb r v fr1) = ip fr1"
  by (auto simp: same_shape_def set_loop_var_def VmClearBox_def)

lemma bind_upval_shape:
  "bind_upval hb cl uv fr s = (Inr (p, fr'), s') \<Longrightarrow> same_shape fr fr' \<and> ip fr' = ip fr"
  by (auto simp: bind_upval_def Let_def vbind_def new_cell_def vret_def vthrow_def split: if_splits)

lemma bind_upvals_shape:
  "bind_upvals hb cl uvs fr s = (Inr (ps, fr'), s') \<Longrightarrow> same_shape fr fr' \<and> ip fr' = ip fr \<and> length ps = length uvs"
proof (induction uvs arbitrary: fr s ps)
  case Nil
  then show ?case by (simp add: vret_def)
next
  case (Cons uv uvs)
  then obtain q fr1 t qs t' where "bind_upval hb cl uv fr s = (Inr (q, fr1), t)"
    and 2: "bind_upvals hb cl uvs fr1 t = (Inr (qs, fr'), t')" "ps = q # qs" "s' = t'"
    by (auto simp: vbind_Inr vret_def)
  then show ?case using bind_upval_shape Cons.IH [OF 2(1) [folded 2(3)]] by (fastforce simp: same_shape_def)
qed

lemma goes_closure: "goes fr i (exec_closure protos hb p cl i fr s)"
proof -
  have "goes fr i (vbind (bind_upvals hb cl uvs fr) (\<lambda>(ups, fr'). vbind (MakeClosure fp c ups) (put_reg hb r fr')) s)" for uvs fp c r
    by (cases "bind_upvals hb cl uvs fr s" rule: prod.exhaust)
      (auto simp: vbind_def [of "bind_upvals _ _ _ _"] split: sum.split dest!: bind_upvals_shape intro!: goes_rules)
  then show ?thesis by (simp add: exec_closure_def Let_def)
qed

lemma goes_forprep: "opc i = FORPREP \<Longrightarrow> goes fr i (exec_forprep hb i fr s)"
  unfolding exec_forprep_def Let_def
  by (rule goes_vbind) (auto simp: is_jump_def split: prod.split intro!: goes_rules)

lemma goes_forloop: "opc i = FORLOOP \<Longrightarrow> goes fr i (exec_forloop hb i fr s)"
  unfolding exec_forloop_def Let_def
  by (auto simp: is_jump_def split: cvar.split intro!: goes_rules)

lemma goes_handlers [goes_rules]:
  "goes fr i (exec_binop env hb i fr s)" "goes fr i (exec_unop env hb i fr s)"
  "goes fr i (exec_gettable env hb i fr s)" "goes fr i (exec_newbox hb i fr s)"
  "goes fr i (exec_call call hb i fr s)" "goes fr i (exec_callname env hb p i fr s)"
  "goes fr i (exec_tabent env hb i fr s)"
  by (auto simp: exec_binop_def exec_unop_def exec_gettable_def exec_newbox_def exec_call_def exec_callname_def
      exec_tabent_def Let_def split: cvar.split sum.split option.split prod.split intro!: goes_rules)

lemma exec_inst_goes: "goes fr i (exec_inst env protos call hb p cl i fr s)"
  by (cases "opc i")
    (auto simp: exec_inst_def Let_def is_jump_def intro!: goes_rules goes_closure goes_forprep goes_forloop)

lemma return_returns: "opc i = RETURN \<Longrightarrow> exec_inst env protos call hb p cl i fr s \<noteq> (Inr (Next fr'), s')"
  by (simp add: exec_inst_def Let_def vret_def)

section \<open>Executions\<close>

inductive vm_step ::
  "vm_env \<Rightarrow> (ptr \<Rightarrow> FuncProto) \<Rightarrow> (ptr \<Rightarrow> cvar list \<Rightarrow> cvar vstep) \<Rightarrow> bool \<Rightarrow> FuncProto \<Rightarrow> VarClosure option \<Rightarrow>
   frame \<times> vmstate \<Rightarrow> frame \<times> vmstate \<Rightarrow> bool"
  for env protos call hb p cl where
  vm_next: "exec_inst env protos call hb p cl (code p ! nat (ip fr)) (fr\<lparr>ip := ip fr + 1\<rparr>) s = (Inr (Next fr'), s') \<Longrightarrow>
    vm_step env protos call hb p cl (fr, s) (fr', s')"

inductive_cases vm_stepE: "vm_step env protos call hb p cl (fr, s) (fr', s')"

definition in_code :: "FuncProto \<Rightarrow> frame \<Rightarrow> bool" where
  "in_code p fr \<longleftrightarrow> 0 \<le> ip fr \<and> ip fr < int (length (code p)) \<and> length (stk fr) = frame_size p"

lemma vm_step_in_code:
  assumes ok: "proto_ok p" and inv: "in_code p fr" and st: "vm_step env protos call hb p cl (fr, s) (fr', s')"
  shows "in_code p fr'"
proof -
  define i where "i = code p ! nat (ip fr)"
  have ex: "exec_inst env protos call hb p cl i (fr\<lparr>ip := ip fr + 1\<rparr>) s = (Inr (Next fr'), s')"
    using st by (auto simp: i_def elim: vm_stepE)
  have k: "nat (ip fr) < length (code p)" using inv by (auto simp: in_code_def)
  have "goes (fr\<lparr>ip := ip fr + 1\<rparr>) i (exec_inst env protos call hb p cl i (fr\<lparr>ip := ip fr + 1\<rparr>) s)"
    by (rule exec_inst_goes)
  then have g: "length (stk fr') = length (stk fr)"
    "ip fr' = ip fr + 1 \<or> is_jump (opc i) \<and> ip fr' = ip fr + 1 + sbx i"
    using ex by (auto simp: goes_def same_shape_def)
  have "opc i \<noteq> RETURN" using return_returns ex by blast
  then have "nat (ip fr) \<noteq> length (code p) - 1"
    using ok k by (auto simp: proto_ok_def i_def last_conv_nth)
  then have nxt: "ip fr + 1 < int (length (code p))" using k inv by (auto simp: in_code_def)
  have "is_jump (opc i) \<Longrightarrow> 0 \<le> ip fr + 1 + sbx i \<and> ip fr + 1 + sbx i < int (length (code p))"
    using ok k inv by (auto simp: proto_ok_def jump_ok_def i_def in_code_def)
  then show ?thesis using g nxt inv by (auto simp: in_code_def)
qed

lemma reachable_in_code:
  assumes "proto_ok p" and "(vm_step env protos call hb p cl)\<^sup>*\<^sup>* c c'" and "in_code p (fst c)"
  shows "in_code p (fst c')"
  using assms(2,3)
proof (induction rule: rtranclp_induct)
  case (step y z)
  then show ?case using vm_step_in_code [OF assms(1)] by (cases y; cases z) auto
qed

end
