(* ===== verification/InterpBoxes.thy ===== *)
theory InterpBoxes
imports InterpSafety
begin

text \<open>
  The two instances of the interpreter template. \<open>InterpreterExecuteT<true>\<close> looks for a box at every register
  access, \<open>InterpreterExecuteT<false>\<close> does not. On a function that captures none of its registers both do the same:
  same result, same exception, same final state.
\<close>

definition strip :: "frame \<Rightarrow> frame" where "strip fr = fr\<lparr>boxp := []\<rparr>"

text \<open>Results of the two instances that agree, the boxed one still without any box.\<close>

definition sim :: "nat \<Rightarrow> outcome vres \<times> vmstate \<Rightarrow> outcome vres \<times> vmstate \<Rightarrow> bool" where
  "sim n R R0 \<longleftrightarrow>
     (case R of
        (Inl e, s) \<Rightarrow> R0 = (Inl e, s)
      | (Inr (Return v), s) \<Rightarrow> R0 = (Inr (Return v), s)
      | (Inr (Next fr), s) \<Rightarrow> boxp fr = replicate n 0 \<and> R0 = (Inr (Next (strip fr)), s))"

named_theorems sim_rules

lemma sim_vbind [sim_rules]: "(\<And>x t. sim n (f x t) (g x t)) \<Longrightarrow> sim n (vbind m f s) (vbind m g s)"
  by (cases "m s") (auto simp: vbind_def sim_def split: sum.split)

lemma sim_basic [sim_rules]:
  "sim n (vthrow e s) (vthrow e s)" "sim n (Inl x, s) (Inl x, s)" "sim n (vret (Return v) s) (vret (Return v) s)"
  by (simp_all add: sim_def vthrow_def vret_def)

lemma sim_next [sim_rules]:
  "boxp fr = replicate n 0 \<Longrightarrow> fr0 = strip fr \<Longrightarrow> sim n (vret (Next fr) s) (vret (Next fr0) s)"
  "boxp fr = replicate n 0 \<Longrightarrow> fr0 = strip fr \<Longrightarrow> sim n (Inr (Next fr), s) (Inr (Next fr0), s)"
  by (simp_all add: sim_def vret_def)

lemma sim_jump [sim_rules]: "boxp fr = replicate n 0 \<Longrightarrow> fr0 = strip fr \<Longrightarrow> sim n (jump d fr s) (jump d fr0 s)"
  by (simp add: sim_def vret_def jump_def strip_def)

lemma slot_simps [simp]:
  "boxp fr = replicate n 0 \<Longrightarrow> r < n \<Longrightarrow> VmSlot True s fr r = stk fr ! r"
  "VmSlot False s fr r = stk fr ! r"
  by (simp_all add: VmSlot_def)

lemma strip_simps [simp]:
  "stk (strip fr) = stk fr" "ip (strip fr) = ip fr"
  "(strip fr)\<lparr>stk := vs\<rparr> = strip (fr\<lparr>stk := vs\<rparr>)" "(strip fr)\<lparr>ip := k\<rparr> = strip (fr\<lparr>ip := k\<rparr>)"
  by (simp_all add: strip_def)

lemma sim_write [sim_rules]:
  assumes "boxp fr = replicate n 0" and "r < n"
    and "\<And>t. sim n (f (fr\<lparr>stk := (stk fr)[r := v]\<rparr>) t) (g (strip (fr\<lparr>stk := (stk fr)[r := v]\<rparr>)) t)"
  shows "sim n (vbind (VmWrite True r v fr) f s) (vbind (VmWrite False r v (strip fr)) g s)"
  using assms by (simp add: vbind_def VmWrite_def)

lemma sim_put [sim_rules]:
  "boxp fr = replicate n 0 \<Longrightarrow> r < n \<Longrightarrow> sim n (put_reg True r fr v s) (put_reg False r (strip fr) v s)"
  unfolding put_reg_def by (rule sim_write) (auto intro: sim_next)

lemma loop_var_simps [simp]:
  "boxp fr = replicate n 0 \<Longrightarrow> r < n \<Longrightarrow> boxp (set_loop_var True r v fr) = replicate n 0"
  "boxp fr = replicate n 0 \<Longrightarrow> r < n \<Longrightarrow> set_loop_var False r v (strip fr) = strip (set_loop_var True r v fr)"
  by (auto simp: set_loop_var_def VmClearBox_def strip_def list_update_same_conv)

lemma map_slots:
  "boxp fr = replicate n 0 \<Longrightarrow> b \<le> n \<Longrightarrow> map (VmSlot True s fr) [a..<b] = map ((!) (stk fr)) [a..<b]"
  "map (VmSlot False s fr') [a..<b] = map ((!) (stk fr')) [a..<b]"
  by simp_all

definition captures_nothing :: "(ptr \<Rightarrow> FuncProto) \<Rightarrow> FuncProto \<Rightarrow> bool" where
  "captures_nothing protos p \<longleftrightarrow>
     (\<forall>i \<in> set (code p). opc i \<noteq> NEWBOX) \<and>
     (\<forall>fp \<in> set (child_protos p). \<forall>uv \<in> set (upvalues (protos fp)). \<not> in_stack uv)"

lemma bind_upvals_free:
  "(\<forall>uv \<in> set uvs. \<not> in_stack uv) \<Longrightarrow>
   bind_upvals hb cl uvs fr = vret (map (\<lambda>uv. upval_ptr cl (uv_idx uv)) uvs, fr)"
proof (induction uvs)
  case (Cons uv uvs)
  then have "bind_upval hb cl uv fr = vret (upval_ptr cl (uv_idx uv), fr)"
    by (simp add: bind_upval_def vret_def fun_eq_iff)
  then show ?case using Cons by simp
qed simp

lemma sim_forprep:
  assumes b: "boxp fr = replicate n 0" and r: "ia i + 3 < n"
  shows "sim n (exec_forprep True i fr s) (exec_forprep False i (strip fr) s)"
proof -
  have s: "VmSlot True s fr r' = stk fr ! r'" if "r' < n" for r' using b that by simp
  show ?thesis
    unfolding exec_forprep_def Let_def using r
    by (simp only: s slot_simps strip_simps trans_less_add1)
      (auto split: prod.split intro!: sim_rules simp: b)
qed

lemma sim_forloop:
  assumes b: "boxp fr = replicate n 0" and r: "ia i + 3 < n"
  shows "sim n (exec_forloop True i fr s) (exec_forloop False i (strip fr) s)"
  unfolding exec_forloop_def Let_def using r b
  by (auto split: cvar.split intro!: sim_rules)

lemma sim_call:
  assumes b: "boxp fr = replicate n 0" and r: "ia i + ib i < n"
  shows "sim n (exec_call call True i fr s) (exec_call call False i (strip fr) s)"
proof -
  have m: "map (VmSlot True s fr) [ia i + 1..<ia i + 1 + ib i] = map ((!) (stk fr)) [ia i + 1..<ia i + 1 + ib i]"
    using b r by (intro map_slots) auto
  show ?thesis
    unfolding exec_call_def m map_slots(2) strip_simps using r b
    by (auto split: cvar.split sum.split intro!: sim_rules)
qed

lemma sim_callname:
  assumes b: "boxp fr = replicate n 0" and r: "ia i < n" "ia i + ib i \<le> n"
  shows "sim n (exec_callname env True p i fr s) (exec_callname env False p i (strip fr) s)"
proof -
  have m: "map (VmSlot True s fr) [ia i..<ia i + ib i] = map ((!) (stk fr)) [ia i..<ia i + ib i]"
    using b r by (intro map_slots) auto
  show ?thesis
    unfolding exec_callname_def m map_slots(2) strip_simps using r b
    by (auto simp: Let_def intro!: sim_rules)
qed

lemma sim_closure:
  assumes b: "boxp fr = replicate n 0" and r: "ia i < n"
    and u: "\<forall>uv \<in> set (upvalues (protos (child_protos p ! nat (sbx i)))). \<not> in_stack uv"
  shows "sim n (exec_closure protos True p cl i fr s) (exec_closure protos False p cl i (strip fr) s)"
  unfolding exec_closure_def Let_def bind_upvals_free [OF u] vbind_simps using r b
  by (auto intro!: sim_rules)

lemma sim_binop:
  "boxp fr = replicate n 0 \<Longrightarrow> ia i < n \<Longrightarrow> ib i < n \<Longrightarrow> ic i < n \<Longrightarrow>
   sim n (exec_binop env True i fr s) (exec_binop env False i (strip fr) s)"
  unfolding exec_binop_def by (auto intro!: sim_rules)

lemma sim_unop:
  "boxp fr = replicate n 0 \<Longrightarrow> ia i < n \<Longrightarrow> ib i < n \<Longrightarrow>
   sim n (exec_unop env True i fr s) (exec_unop env False i (strip fr) s)"
  unfolding exec_unop_def by (auto intro!: sim_rules)

lemma sim_gettable:
  "boxp fr = replicate n 0 \<Longrightarrow> ia i < n \<Longrightarrow> ib i < n \<Longrightarrow> ic i < n \<Longrightarrow>
   sim n (exec_gettable env True i fr s) (exec_gettable env False i (strip fr) s)"
  unfolding exec_gettable_def Let_def by (auto split: cvar.split intro!: sim_rules)

lemma sim_tabent:
  "boxp fr = replicate n 0 \<Longrightarrow> ia i < n \<Longrightarrow> ib i < n \<Longrightarrow> ic i < n \<Longrightarrow> nat (sbx i) < n \<Longrightarrow>
   sim n (exec_tabent env True i fr s) (exec_tabent env False i (strip fr) s)"
  unfolding exec_tabent_def Let_def by (auto split: cvar.split prod.split option.split intro!: sim_rules)

lemma sim_multi:
  assumes b: "boxp fr = replicate n 0" and r: "ia i < n" "ia i + ib i \<le> n"
  shows "sim n (vbind (vlift (MakeMulti (map (VmSlot True s fr) [ia i..<ia i + ib i]))) (put_reg True (ia i) fr) s)
     (vbind (vlift (MakeMulti (map (VmSlot False s (strip fr)) [ia i..<ia i + ib i]))) (put_reg False (ia i) (strip fr)) s)"
  unfolding map_slots(1) [OF b r(2)] map_slots(2) strip_simps using b r by (auto intro!: sim_rules)

lemma sim_combine:
  assumes b: "boxp fr = replicate n 0" and r: "ia i + ib i < n"
  shows "sim n (vbind (vlift (CombineMulti (map (VmSlot True s fr) [ia i..<ia i + ib i]) (VmSlot True s fr (ia i + ib i))))
       (put_reg True (ia i) fr) s)
     (vbind (vlift (CombineMulti (map (VmSlot False s (strip fr)) [ia i..<ia i + ib i]) (VmSlot False s (strip fr) (ia i + ib i))))
       (put_reg False (ia i) (strip fr)) s)"
  unfolding map_slots(1) [OF b less_imp_le [OF r]] map_slots(2) strip_simps using b r by (auto intro!: sim_rules)

lemmas sim_handlers = sim_binop sim_unop sim_gettable sim_tabent sim_multi sim_combine sim_forprep sim_forloop sim_call
  sim_callname

lemma sim_inst:
  assumes b: "boxp fr = replicate n 0" and ok: "inst_ok n nc nch i" and nb: "opc i \<noteq> NEWBOX"
    and u: "opc i = CLOSURE \<Longrightarrow> \<forall>uv \<in> set (upvalues (protos (child_protos p ! nat (sbx i)))). \<not> in_stack uv"
  shows "sim n (exec_inst env protos call True p cl i fr s) (exec_inst env protos call False p cl i (strip fr) s)"
proof -
  have regs: "\<And>r. r \<in> set (regs_of i) \<Longrightarrow> r < n" using ok by (simp add: inst_ok_def)
  have run: "ia i + ib i < n" if "opc i = CALL \<or> opc i = COMBINE" using that regs by (auto simp: regs_of_def)
  have loop: "ia i + 3 < n" if "opc i = FORPREP \<or> opc i = FORLOOP" using that regs by (auto simp: regs_of_def)
  have seg: "ia i < n \<and> ia i + ib i \<le> n" if "opc i = CALLNAME \<or> opc i = MAKEMULTI"
  proof -
    have "ia i < n" using that regs by (auto simp: regs_of_def)
    moreover have "ia i + ib i - 1 < n" if "ib i \<noteq> 0"
    proof -
      have "ia i + ib i - 1 \<in> set [ia i..<ia i + ib i]" using that by simp
      then have "ia i + ib i - 1 \<in> set (regs_of i)"
        using \<open>opc i = CALLNAME \<or> opc i = MAKEMULTI\<close> by (auto simp: regs_of_def)
      then show ?thesis by (rule regs)
    qed
    ultimately show ?thesis by (cases "ib i = 0") auto
  qed
  show ?thesis
  proof (cases "opc i \<in> {CALL, COMBINE, FORPREP, FORLOOP, CALLNAME, MAKEMULTI, CLOSURE}")
    case True
    then consider "opc i = CALL" | "opc i = COMBINE" | "opc i = FORPREP" | "opc i = FORLOOP"
      | "opc i = CALLNAME" | "opc i = MAKEMULTI" | "opc i = CLOSURE" by blast
    then show ?thesis
    proof cases
      case 1 then show ?thesis using sim_call [OF b run] by (simp add: exec_inst_def)
    next
      case 2
      then have "ia i + ib i < n" using run by simp
      from sim_combine [OF b this] 2 show ?thesis by (simp only: exec_inst_def Let_def Op.case)
    next
      case 3 then show ?thesis using sim_forprep [OF b loop] by (simp add: exec_inst_def)
    next
      case 4 then show ?thesis using sim_forloop [OF b loop] by (simp add: exec_inst_def)
    next
      case 5 then show ?thesis using sim_callname [OF b] seg by (simp add: exec_inst_def)
    next
      case 6
      then have "ia i < n" "ia i + ib i \<le> n" using seg by simp_all
      from sim_multi [OF b this] 6 show ?thesis by (simp only: exec_inst_def Let_def Op.case)
    next
      case 7 then show ?thesis using sim_closure [OF b] u regs [of "ia i"] by (simp add: exec_inst_def regs_of_def)
    qed
  next
    case False
    then show ?thesis
      using b nb regs
      by (cases "opc i") (auto simp: exec_inst_def Let_def regs_of_def intro!: sim_rules sim_handlers)
  qed
qed

section \<open>Executions\<close>

text \<open>Lock step: as long as the code is well formed, the two loops stay in step, for any number of instructions.\<close>

lemma run_unboxed:
  assumes ok: "proto_ok p" and nc: "captures_nothing protos p"
    and fr: "in_code p fr" "boxp fr = replicate (frame_size p) 0"
  shows "run (\<lambda>fr i. exec_inst env protos call True p cl i fr) annot (code p) k fr s =
    run (\<lambda>fr i. exec_inst env protos call False p cl i fr) annot (code p) k (strip fr) s"
  using fr
proof (induction k arbitrary: fr s)
  case (Suc k)
  define i where "i = code p ! nat (ip fr)"
  define fr1 where "fr1 = fr\<lparr>ip := ip fr + 1\<rparr>"
  have k: "nat (ip fr) < length (code p)" using Suc.prems by (auto simp: in_code_def)
  then have i: "i \<in> set (code p)" by (simp add: i_def)
  have b1: "boxp fr1 = replicate (frame_size p) 0" using Suc.prems by (simp add: fr1_def)
  have iok: "inst_ok (frame_size p) (length (constants p)) (length (child_protos p)) i"
    using ok k by (simp add: proto_ok_def i_def)
  have u: "\<forall>uv \<in> set (upvalues (protos (child_protos p ! nat (sbx i)))). \<not> in_stack uv" if "opc i = CLOSURE"
    using that iok nc by (auto simp: inst_ok_def captures_nothing_def)
  have nb: "opc i \<noteq> NEWBOX" using nc i by (auto simp: captures_nothing_def)
  have S: "sim (frame_size p) (exec_inst env protos call True p cl i fr1 s)
      (exec_inst env protos call False p cl i (strip fr1) s)"
    using u by (intro sim_inst [OF b1 iok nb])
  obtain r t where R: "exec_inst env protos call True p cl i fr1 s = (r, t)" by fastforce
  have st: "in_code p fr'" if "r = Inr (Next fr')" for fr'
    using vm_step_in_code [OF ok Suc.prems(1)] vm_next [OF R [unfolded i_def fr1_def that]] by blast
  show ?case
    using Suc.prems(1) S R st Suc.IH [of _ t]
    by (auto simp: in_code_def sim_def i_def [symmetric] fr1_def [symmetric] Let_def
        split: sum.splits outcome.splits)
qed simp

end
