(* ===== verification/Ast.thy ===== *)
theory Ast
imports NativeArgs VmOps
begin

text \<open>
  The syntax tree as the bytecode generator sees it, after preprocessing (\<open>compile/syntax_tree.h\<close>), and the
  classification of constant number expressions (\<open>compile/compile_common.h\<close>, \<open>util/string_util.cpp\<close>). Nodes the
  generator looks up by address carry a number: variable uses, calls, and the statements and functions that
  define variables. \<open>std::stoll\<close> and \<open>std::stod\<close> are those of \<open>NativeArgs\<close>.
\<close>

section \<open>Trees\<close>

datatype BinOpKind =
    kPlus | kMinus | kStar | kSlash | kDoubleSlash | kPow | kMod | kBitAnd | kXor | kBitOr
  | kRightShift | kLeftShift | kConcat | kLess | kLessEqual | kMore | kMoreEqual | kEqual | kNotEqual
  | kAnd | kOr

datatype UnOpKind = kNeg | kNot | kNumberSign | kBitNot

type_synonym node = nat

datatype exp =
    ENil | ETrue | EFalse | ENumber string | EString string | EVarParams
  | EFunctionDef node
  | EPrefix pexp
  | ETable "field list"
  | EBinop BinOpKind exp exp
  | EUnop UnOpKind exp
and pexp = PVar var | PCall call | PExp exp
and var = SimpleVar node string | SquareVar pexp exp | DotVar pexp string
and call = Call node pexp string args
and args = ArgsExpList "exp list" | ArgsEmpty | ArgsTable "field list" | ArgsString exp
and field = FObject string exp | FKey exp exp | FArray exp

datatype stmt =
    SReturn "exp list"
  | SLocalVar node "string list" "exp list"
  | SAssign var exp
  | SCall call
  | SBlock "stmt list"
  | SWhile exp "stmt list"
  | SRepeat "stmt list" exp
  | SIf exp "stmt list" "(exp \<times> stmt list) list" "stmt list option"
  | SBreak | SContinue
  | SForLoop node string exp exp "exp option" "stmt list"
  | SForIn node "string list" "exp list" "stmt list"
  | SLocalFunction node string
  | SFunction node
  | SEmpty
  | SGoto string
  | SLabel string

section \<open>Number literals\<close>

definition is_dec :: "char \<Rightarrow> bool" where "is_dec = is_digit_in 10"

text \<open>\<open>IsInteger\<close> matches \<open>[+-]?[0-9]+\<close> or \<open>[+-]?0[xX][0-9a-fA-F]+\<close>.\<close>

definition IsInteger :: "string \<Rightarrow> bool" where
  "IsInteger s =
     (let t = snd (split_sign s) in
      (t \<noteq> [] \<and> list_all is_dec t) \<or>
      (case t of z # x # ds \<Rightarrow> z = CHR ''0'' \<and> (x = CHR ''x'' \<or> x = CHR ''X'') \<and> ds \<noteq> [] \<and> list_all (is_digit_in 16) ds
       | _ \<Rightarrow> False))"

datatype TableKeyKind = KInt | KFloat

text \<open>Kind, integer value and float value; none where the function returns false.\<close>

type_synonym number_class = "TableKeyKind \<times> int64 \<times> double"

definition ClassifyLuaNumberKey :: "string \<Rightarrow> number_class option" where
  "ClassifyLuaNumberKey s =
     (if s = [] then None
      else
        let by_double = (case stod s of
              None \<Rightarrow> None
            | Some (d, pos) \<Rightarrow>
                if pos \<noteq> length s \<or> \<not> d_isfinite d then None
                else if d_modf_frac d = 0 \<and> d_le d_mtwo63 d \<and> d_lt d d_two63 then Some (KInt, d_to_int64 d, 0)
                else Some (KFloat, 0, d))
        in case stoll0 s of
             Some (i, pos) \<Rightarrow> if pos = length s then Some (KInt, i, 0) else by_double
           | None \<Rightarrow> by_double)"

fun negate_class :: "number_class \<Rightarrow> number_class" where
  "negate_class (KInt, i, f) =
     (if i = int64_min then (KFloat, 0, d_neg (i64_to_double i)) else (KInt, - i, f))"
| "negate_class (KFloat, i, f) =
     (if d_eq (d_neg f) d_mtwo63 then (KInt, int64_min, 0) else (KFloat, i, d_neg f))"

fun ClassifyConstNumberExp :: "exp \<Rightarrow> number_class option" where
  "ClassifyConstNumberExp (ENumber s) = ClassifyLuaNumberKey s"
| "ClassifyConstNumberExp (EUnop kNeg e) = map_option negate_class (ClassifyConstNumberExp e)"
| "ClassifyConstNumberExp _ = None"

fun ConstNumberExpHasFloatSyntax :: "exp \<Rightarrow> bool" where
  "ConstNumberExpHasFloatSyntax (ENumber s) = (\<not> IsInteger s)"
| "ConstNumberExpHasFloatSyntax (EUnop kNeg e) = ConstNumberExpHasFloatSyntax e"
| "ConstNumberExpHasFloatSyntax _ = False"

definition ConstNumberExpIsIntValue :: "TableKeyKind \<Rightarrow> exp \<Rightarrow> bool" where
  "ConstNumberExpIsIntValue kind e \<longleftrightarrow> kind = KInt \<and> \<not> ConstNumberExpHasFloatSyntax e"

fun leading_minuses :: "exp \<Rightarrow> nat" where
  "leading_minuses (EUnop kNeg e) = Suc (leading_minuses e)"
| "leading_minuses _ = 0"

definition ConstNumberExpToDouble :: "number_class \<Rightarrow> exp \<Rightarrow> double" where
  "ConstNumberExpToDouble c e =
     (case c of (kind, i, f) \<Rightarrow>
        let d = (if kind = KInt then i64_to_double i else f) in
        if d_eq d 0 \<and> ConstNumberExpHasFloatSyntax e then d_zero (leading_minuses e mod 2 \<noteq> 0) else d)"

text \<open>The value that \<open>CompileExp\<close> and \<open>LiteralFromExp\<close> load for a constant number expression.\<close>

definition const_number :: "exp \<Rightarrow> cvar option" where
  "const_number e =
     (case ClassifyConstNumberExp e of
        None \<Rightarrow> None
      | Some (kind, i, f) \<Rightarrow>
          Some (if ConstNumberExpIsIntValue kind e then VInt i else VFloat (ConstNumberExpToDouble (kind, i, f) e)))"

text \<open>
  \<open>boost::charconv::from_chars\<close> on an integer: an optional minus, then digits up to the end of the input;
  the two failures are an invalid argument and a result out of range.
\<close>

definition from_chars_int :: "nat \<Rightarrow> int \<Rightarrow> int \<Rightarrow> string \<Rightarrow> int option option" where
  "from_chars_int base lo hi s =
     (let (neg, ds) = (case s of c # r \<Rightarrow> if c = CHR ''-'' \<and> lo < 0 then (True, r) else (False, s) | [] \<Rightarrow> (False, []));
          used = takeWhile (is_digit_in base) ds;
          v = (if neg then - int (digits_value base used) else int (digits_value base used))
      in if used = [] \<or> length used \<noteq> length ds then None
         else if lo \<le> v \<and> v \<le> hi then Some (Some v) else Some None)"

definition number_error :: "string \<Rightarrow> string \<Rightarrow> string \<Rightarrow> exn" where
  "number_error fn what s = fn @ '' failed, '' @ what @ '': '' @ s"

definition hex_at :: "string \<Rightarrow> bool" where
  "hex_at s \<longleftrightarrow> (case s of z # x # _ \<Rightarrow> z = CHR ''0'' \<and> (x = CHR ''x'' \<or> x = CHR ''X'') | _ \<Rightarrow> False)"

definition ToInteger :: "string \<Rightarrow> int64 result" where
  "ToInteger s =
     (let n = length s;
          (rest, base, negative) =
            (if 1 < n \<and> hd s = CHR ''+'' then (if 3 < n \<and> hex_at (tl s) then (drop 3 s, 16, False) else (tl s, 10, False))
             else if 2 < n \<and> hex_at s then (drop 2 s, 16, False)
             else if 3 < n \<and> hd s = CHR ''-'' \<and> hex_at (tl s) then (drop 3 s, 16, True)
             else (s, 10, False));
          done' = (\<lambda>r. case r of None \<Rightarrow> Inl (number_error ''ToInteger'' ''invalid argument'' s)
                     | Some None \<Rightarrow> Inl (number_error ''ToInteger'' ''result out of range'' s)
                     | Some (Some v) \<Rightarrow> Inr (word_of_int v))
      in if rest = [] then Inl (number_error ''ToInteger'' ''invalid argument'' s)
         else if negative then
           (case from_chars_int base 0 (2 ^ 64 - 1) rest of
              Some (Some u) \<Rightarrow> done' (if 2 ^ 63 < u then Some None else Some (Some (- u)))
            | r \<Rightarrow> done' r)
         else done' (from_chars_int base (- (2 ^ 63)) (2 ^ 63 - 1) rest))"

text \<open>
  \<open>ToFloat\<close>: hexadecimal floats by \<open>strtod\<close>, hexadecimal integers as an unsigned 64-bit number, decimals by the
  correctly rounding \<open>from_chars\<close>, which accepts what \<open>strtod\<close> does but for a leading plus and blanks.
\<close>

definition ToFloat :: "string \<Rightarrow> double result" where
  "ToFloat s =
     (let n = length s;
          (hex, negative, prefix_len) =
            (if 2 < n \<and> hex_at s then (True, False, 2)
             else if 3 < n \<and> hd s = CHR ''+'' \<and> hex_at (tl s) then (True, False, 3)
             else if 3 < n \<and> hd s = CHR ''-'' \<and> hex_at (tl s) then (True, True, 3)
             else (False, False, 0 :: nat));
          invalid = Inl (number_error ''ToFloat'' ''invalid argument'' s);
          range = Inl (number_error ''ToFloat'' ''result out of range'' s)
      in if hex then
           if CHR ''.'' \<in> set s \<or> CHR ''p'' \<in> set s \<or> CHR ''P'' \<in> set s then
             (case stod s of Some (d, pos) \<Rightarrow> if pos = n then Inr d else invalid | None \<Rightarrow> range)
           else
             (case from_chars_int 16 0 (2 ^ 64 - 1) (drop prefix_len s) of
                None \<Rightarrow> invalid
              | Some None \<Rightarrow> range
              | Some (Some u) \<Rightarrow> (let d = d_of_int u in Inr (if negative then d_neg d else d)))
         else
           (let t = (if s \<noteq> [] \<and> hd s = CHR ''+'' then tl s else s) in
            if t = [] \<or> is_space (hd t) \<or> hd t = CHR ''+'' then invalid
            else case stod t of Some (d, pos) \<Rightarrow> if pos = length t then Inr d else invalid | None \<Rightarrow> range))"

section \<open>Shapes of expressions\<close>

definition vararg_prefix :: string where "vararg_prefix = ''__fakelua_vararg_''"

definition is_vararg_name :: "string \<Rightarrow> bool" where
  "is_vararg_name s \<longleftrightarrow> take (length vararg_prefix) s = vararg_prefix"

fun IsVarargExp :: "exp \<Rightarrow> bool" where
  "IsVarargExp (EPrefix (PVar (SimpleVar _ name))) = is_vararg_name name"
| "IsVarargExp _ = False"

fun StripLuaStringQuotes :: "string \<Rightarrow> string" where
  "StripLuaStringQuotes s =
     (if 2 \<le> length s \<and> (hd s = CHR 34 \<or> hd s = CHR 39) then butlast (tl s) else s)"

fun var_name :: "var \<Rightarrow> string" where
  "var_name (SimpleVar _ n) = n"
| "var_name (DotVar _ n) = n"
| "var_name (SquareVar _ _) = []"

fun string_value :: "exp \<Rightarrow> string option" where
  "string_value (EString s) = Some s"
| "string_value _ = None"

fun ExtractPackageName :: "stmt \<Rightarrow> string option" where
  "ExtractPackageName (SCall (Call _ (PVar v) _ (ArgsString e))) =
     (if var_name v = ''package'' then map_option StripLuaStringQuotes (string_value e) else None)"
| "ExtractPackageName (SCall (Call _ (PVar v) _ (ArgsExpList (e # _)))) =
     (if var_name v = ''package'' then map_option StripLuaStringQuotes (string_value e) else None)"
| "ExtractPackageName (SAssign v e) =
     (if var_name v = ''package'' then map_option StripLuaStringQuotes (string_value e) else None)"
| "ExtractPackageName _ = None"

text \<open>\<open>TryMatchPairsIpairs\<close>: a single call of the unshadowed \<open>pairs\<close> or \<open>ipairs\<close> with one argument.\<close>

datatype PairsIpairsKind = kPairs | kIpairs

fun TryMatchPairsIpairs :: "(node \<Rightarrow> bool) \<Rightarrow> exp list \<Rightarrow> (PairsIpairsKind \<times> exp) option" where
  "TryMatchPairsIpairs bound [EPrefix (PCall (Call _ (PVar v) m (ArgsExpList [a])))] =
     (if m = [] \<and> (var_name v = ''pairs'' \<or> var_name v = ''ipairs'') \<and>
         (case v of SimpleVar x _ \<Rightarrow> \<not> bound x | _ \<Rightarrow> True)
      then Some (if var_name v = ''pairs'' then kPairs else kIpairs, a) else None)"
| "TryMatchPairsIpairs bound _ = None"

section \<open>A literal the classification misreads\<close>

lemma stoll0_octal: "stoll0 ''010'' = Some (8, 3)" and IsInteger_octal: "IsInteger ''010''"
  and ToInteger_octal: "ToInteger ''010'' = Inr 10"
  by code_simp+

lemma octal_misread: "const_number (ENumber ''010'') = Some (VInt 8)"
  by (simp add: const_number_def ClassifyLuaNumberKey_def stoll0_octal ConstNumberExpIsIntValue_def IsInteger_octal Let_def)

end
