(* ===== verification/Codegen.thy ===== *)
theory Codegen
imports Bytecode Ast Conversions
begin

text \<open>
  The bytecode generator (\<open>interp/codegen.h\<close>, \<open>interp/codegen.cpp\<close>): registers, emission and patching, expressions
  and statements, one function at a time. What \<open>ResolveScopes\<close> and the semantic analysis find out is the environment
  \<open>cg_env\<close>; the children of a function are compiled on their own (\<open>CompileFunction\<close> saves and restores the
  generator's state around them), so their prototypes are addresses here. A register number is an integer, -1 for
  none. Line numbers and the location suffix of error messages are not modelled. A compile-time error is \<open>Inl\<close>.
\<close>

section \<open>Environment and state\<close>

record VarDef =
  def_name :: string
  defining_func :: "node option"
  is_captured :: bool
  def_local_function :: bool

record cg_env =
  var_def :: "node \<Rightarrow> nat option"
  stmt_def :: "node \<Rightarrow> string \<Rightarrow> nat option"
  def_info :: "nat \<Rightarrow> VarDef"
  captured_vars :: "node \<Rightarrow> nat list"
  child_proto :: "node \<Rightarrow> ptr"
  named_protos :: "string \<Rightarrow> ptr option"
  file_func_sigs :: "string \<Rightarrow> (nat \<times> bool) option"
  cur_package_name :: string
  call_exps :: "node \<Rightarrow> bool"
  callee_names :: "node \<Rightarrow> string option"
  max_returns :: "string \<Rightarrow> int option"
  version_text :: string
  cur_func :: node

record LoopInfo =
  continue_ip :: int
  break_jmps :: "nat list"
  continue_jmps :: "nat list"

record LabelScope =
  label_defs :: "string \<Rightarrow> nat option"
  pending :: "(string \<times> nat list) list"

record cgstate =
  c_code :: "Inst list"
  c_consts :: "cvar list"
  c_children :: "ptr list"
  c_max :: nat
  c_boxes :: bool
  stack_top :: nat
  local_top :: nat
  reg_of :: "nat \<Rightarrow> int"
  loops :: "LoopInfo list"
  label_scopes :: "LabelScope list"

type_synonym 'a cg = "cgstate \<Rightarrow> ('a \<times> cgstate) result"

definition cret :: "'a \<Rightarrow> 'a cg" where "cret x st = Inr (x, st)"
definition cthrow :: "string \<Rightarrow> 'a cg" where "cthrow msg st = Inl msg"
definition cbind :: "'a cg \<Rightarrow> ('a \<Rightarrow> 'b cg) \<Rightarrow> 'b cg" where
  "cbind m f st = (case m st of Inl e \<Rightarrow> Inl e | Inr (x, st') \<Rightarrow> f x st')"
definition cseq :: "'a cg \<Rightarrow> 'b cg \<Rightarrow> 'b cg" where "cseq m k = cbind m (\<lambda>_. k)"
definition cget :: "(cgstate \<Rightarrow> 'a) \<Rightarrow> 'a cg" where "cget f st = Inr (f st, st)"
definition cmodify :: "(cgstate \<Rightarrow> cgstate) \<Rightarrow> unit cg" where "cmodify f st = Inr ((), f st)"

definition cg_error :: "string \<Rightarrow> string" where "cg_error msg = ''Code generate failed, '' @ msg"

section \<open>Registers and emission\<close>

definition too_many_regs :: string where "too_many_regs = ''interpreter: function uses too many registers''"

definition note_max :: "cgstate \<Rightarrow> cgstate" where
  "note_max st = st\<lparr>c_max := max (c_max st) (stack_top st)\<rparr>"

definition AllocReg :: "int cg" where
  "AllocReg st =
     (let r = max (stack_top st) (local_top st) in
      if 255 < r then Inl too_many_regs
      else Inr (int r, note_max (st\<lparr>stack_top := r + 1\<rparr>)))"

definition AllocLocal :: "int cg" where
  "AllocLocal st =
     (let r = max (local_top st) (stack_top st) in
      if 255 < r then Inl too_many_regs
      else Inr (int r, note_max (st\<lparr>local_top := r + 1, stack_top := r + 1\<rparr>)))"

definition FreeTo :: "nat \<Rightarrow> unit cg" where
  "FreeTo n = cmodify (\<lambda>st. st\<lparr>stack_top := max n (local_top st)\<rparr>)"

definition EnsureStack :: "nat \<Rightarrow> unit cg" where
  "EnsureStack n = cmodify (\<lambda>st. note_max (st\<lparr>stack_top := max (stack_top st) n\<rparr>))"

definition AddConst :: "cvar \<Rightarrow> int cg" where
  "AddConst v st = Inr (int (length (c_consts st)), st\<lparr>c_consts := c_consts st @ [v]\<rparr>)"

definition AddStringConst :: "string \<Rightarrow> int cg" where "AddStringConst s = AddConst (VStringId s)"

definition operand_range :: string where "operand_range = ''interpreter: instruction operand out of range''"

definition byte_operand :: "int \<Rightarrow> bool" where "byte_operand x \<longleftrightarrow> 0 \<le> x \<and> x \<le> 255"

definition Emit :: "Op \<Rightarrow> int \<Rightarrow> int \<Rightarrow> int \<Rightarrow> int \<Rightarrow> nat cg" where
  "Emit k a b c x st =
     (if byte_operand a \<and> byte_operand b \<and> byte_operand c then
        Inr (length (c_code st),
          st\<lparr>c_code := c_code st @ [\<lparr>opc = k, ia = nat a, ib = nat b, ic = nat c, sbx = x\<rparr>],
             c_boxes := c_boxes st \<or> k = NEWBOX\<rparr>)
      else Inl operand_range)"

definition emit :: "Op \<Rightarrow> int \<Rightarrow> int \<Rightarrow> int \<Rightarrow> int \<Rightarrow> unit cg" where
  "emit k a b c x = cseq (Emit k a b c x) (cret ())"

definition here :: "nat cg" where "here = cget (\<lambda>st. length (c_code st))"

definition PatchSbx :: "nat \<Rightarrow> nat \<Rightarrow> unit cg" where
  "PatchSbx k dest = cmodify (\<lambda>st. st\<lparr>c_code := (c_code st)[k := (c_code st ! k)\<lparr>sbx := int dest - int k - 1\<rparr>]\<rparr>)"

fun patch_all :: "nat list \<Rightarrow> nat \<Rightarrow> unit cg" where
  "patch_all [] dest = cret ()"
| "patch_all (k # ks) dest = cseq (PatchSbx k dest) (patch_all ks dest)"

definition LoadConstTo :: "int \<Rightarrow> cvar \<Rightarrow> int cg" where
  "LoadConstTo dest v =
     (case v of
        VNil \<Rightarrow> cseq (emit LOADNIL dest 0 0 0) (cret dest)
      | VBool b \<Rightarrow> cseq (emit LOADBOOL dest (if b then 1 else 0) 0 0) (cret dest)
      | _ \<Rightarrow> cbind (AddConst v) (\<lambda>k. cseq (emit LOADK dest 0 0 k) (cret dest)))"

definition MoveTo :: "int \<Rightarrow> int \<Rightarrow> int cg" where
  "MoveTo dest src = (if dest \<noteq> src then cseq (emit MOVE dest src 0 0) (cret dest) else cret dest)"

definition CommitDest :: "int \<Rightarrow> int \<Rightarrow> int cg" where
  "CommitDest dest src = (if 0 \<le> dest then MoveTo dest src else cret src)"

definition pick :: "int \<Rightarrow> int cg" where "pick dest = (if 0 \<le> dest then cret dest else AllocReg)"

definition load_const :: "int \<Rightarrow> cvar \<Rightarrow> int cg" where
  "load_const dest v = cbind (pick dest) (\<lambda>r. LoadConstTo r v)"

fun move_block :: "int \<Rightarrow> int list \<Rightarrow> unit cg" where
  "move_block base [] = cret ()"
| "move_block base (r # rs) = cseq (MoveTo base r) (move_block (base + 1) rs)"

section \<open>Names\<close>

definition upval_index :: "cg_env \<Rightarrow> nat \<Rightarrow> int" where
  "upval_index env d =
     (let cs = captured_vars env (cur_func env) in
      if d \<in> set cs then int (length (takeWhile (\<lambda>x. x \<noteq> d) cs)) else 0)"

definition load_global :: "string \<Rightarrow> int cg" where
  "load_global name = cbind AllocReg (\<lambda>r. cbind (AddStringConst name) (\<lambda>k. cseq (emit GETGLOBAL r 0 0 k) (cret r)))"

definition LoadLocal :: "cg_env \<Rightarrow> nat \<Rightarrow> int cg" where
  "LoadLocal env d =
     (case defining_func (def_info env d) of
        Some f \<Rightarrow>
          if f = cur_func env then cget (\<lambda>st. reg_of st d)
          else cbind AllocReg (\<lambda>r. cseq (emit GETUPVAL r (upval_index env d) 0 0) (cret r))
      | None \<Rightarrow> load_global (def_name (def_info env d)))"

definition push_child :: "ptr \<Rightarrow> int cg" where
  "push_child p st = Inr (int (length (c_children st)), st\<lparr>c_children := c_children st @ [p]\<rparr>)"

definition ResolveSimpleName :: "cg_env \<Rightarrow> node \<Rightarrow> string \<Rightarrow> int cg" where
  "ResolveSimpleName env v name =
     (let other =
        (case named_protos env name of
           Some p \<Rightarrow> cbind AllocReg (\<lambda>r. cbind (push_child p) (\<lambda>k. cseq (emit CLOSURE r 0 0 k) (cret r)))
         | None \<Rightarrow>
             if name = ''_VERSION'' then cbind AllocReg (\<lambda>r. LoadConstTo r (VStringId (''Fakelua '' @ version_text env)))
             else load_global name)
      in case var_def env v of
           Some d \<Rightarrow> if defining_func (def_info env d) \<noteq> None then LoadLocal env d else other
         | None \<Rightarrow> other)"

definition LocalAssignDest :: "cg_env \<Rightarrow> var \<Rightarrow> int cg" where
  "LocalAssignDest env v =
     (case v of
        SimpleVar x _ \<Rightarrow>
          (case var_def env x of
             Some d \<Rightarrow> cget (\<lambda>st. if defining_func (def_info env d) = Some (cur_func env) \<and> 0 \<le> reg_of st d
                               then reg_of st d else -1)
           | None \<Rightarrow> cret (-1))
      | _ \<Rightarrow> cret (-1))"

definition set_global :: "int \<Rightarrow> string \<Rightarrow> unit cg" where
  "set_global src name = cbind (AddStringConst name) (\<lambda>k. emit SETGLOBAL src 0 0 k)"

definition StoreLocal :: "int \<Rightarrow> int \<Rightarrow> unit cg" where "StoreLocal dest src = cseq (MoveTo dest src) (cret ())"

definition AssignToVar :: "cg_env \<Rightarrow> var \<Rightarrow> int \<Rightarrow> unit cg" where
  "AssignToVar env v src =
     (case (case v of SimpleVar x _ \<Rightarrow> var_def env x | _ \<Rightarrow> None) of
        Some d \<Rightarrow>
          (case defining_func (def_info env d) of
             Some f \<Rightarrow>
               if f = cur_func env then cbind (cget (\<lambda>st. reg_of st d)) (\<lambda>r. StoreLocal r src)
               else emit SETUPVAL src (upval_index env d) 0 0
           | None \<Rightarrow> set_global src (def_name (def_info env d)))
      | None \<Rightarrow> set_global src (var_name v))"

definition EmitThrow :: "string \<Rightarrow> nat cg" where
  "EmitThrow msg = cbind (AddStringConst msg) (\<lambda>k. Emit THROW 0 0 0 k)"

definition EmitClosure :: "cg_env \<Rightarrow> node \<Rightarrow> int cg" where
  "EmitClosure env child =
     cseq (cmodify (\<lambda>st. st\<lparr>c_boxes := c_boxes st \<or>
         (\<exists>d \<in> set (captured_vars env child). defining_func (def_info env d) = Some (cur_func env))\<rparr>))
       (cbind (push_child (child_proto env child)) (\<lambda>k.
          cbind AllocReg (\<lambda>r. cseq (emit CLOSURE r 0 0 k) (cret r))))"

text \<open>The upvalue descriptors of a child, given the registers of the enclosing function at this point.\<close>

definition upval_descs :: "cg_env \<Rightarrow> (nat \<Rightarrow> int) \<Rightarrow> node \<Rightarrow> UpvalDesc list" where
  "upval_descs env regs child =
     map (\<lambda>d. if defining_func (def_info env d) = Some (cur_func env) then \<lparr>in_stack = True, uv_idx = nat (regs d mod 65536)\<rparr>
              else \<lparr>in_stack = False, uv_idx = nat (upval_index env d mod 65536)\<rparr>) (captured_vars env child)"

fun exp_call :: "exp \<Rightarrow> node option" where
  "exp_call (EPrefix (PCall (Call n _ _ _))) = Some n"
| "exp_call _ = None"

definition LastPreservesMulti :: "cg_env \<Rightarrow> exp \<Rightarrow> bool" where
  "LastPreservesMulti env e =
     (IsVarargExp e \<or>
      (case exp_call e of
         Some n \<Rightarrow> call_exps env n \<and>
           (case callee_names env n of
              Some f \<Rightarrow> f = [] \<or> max_returns env f \<noteq> Some 1
            | None \<Rightarrow> True)
       | None \<Rightarrow> False))"

definition IsPackageHeaderStmt :: "cg_env \<Rightarrow> stmt \<Rightarrow> bool" where
  "IsPackageHeaderStmt env s \<longleftrightarrow> cur_package_name env \<noteq> [] \<and> ExtractPackageName s \<noteq> None"

end
