(* ===== verification/CodegenExp.thy ===== *)
theory CodegenExp
imports Codegen
begin

text \<open>
  Generation of expressions (\<open>CompileExp\<close>, \<open>CompilePrefixexp\<close>, \<open>CompileVar\<close>, \<open>EmitCallArgs\<close>,
  \<open>CompileFunctioncall\<close>, \<open>CompileTableconstructor\<close>, \<open>CompileBinop\<close> and \<open>CompileUnop\<close> of \<open>interp/codegen.cpp\<close>).
  Each returns the register that holds the value.
\<close>

section \<open>Helpers\<close>

definition binop_op :: "BinOpKind \<Rightarrow> Op" where
  "binop_op k =
     (case k of
        kPlus \<Rightarrow> ADD | kMinus \<Rightarrow> SUB | kStar \<Rightarrow> MUL | kSlash \<Rightarrow> DIV | kDoubleSlash \<Rightarrow> IDIV | kPow \<Rightarrow> POW
      | kMod \<Rightarrow> MOD | kBitAnd \<Rightarrow> BAND | kXor \<Rightarrow> BXOR | kBitOr \<Rightarrow> BOR | kLeftShift \<Rightarrow> SHL | kRightShift \<Rightarrow> SHR
      | kConcat \<Rightarrow> CONCAT | kLess \<Rightarrow> LT | kLessEqual \<Rightarrow> LE | kMore \<Rightarrow> LT | kMoreEqual \<Rightarrow> LE
      | kEqual \<Rightarrow> EQ | kNotEqual \<Rightarrow> EQ | _ \<Rightarrow> EQ)"

text \<open>The instruction of a strict binary operator: \<open>>\<close> and \<open>>=\<close> swap, \<open>~=\<close> negates.\<close>

definition emit_binop :: "BinOpKind \<Rightarrow> int \<Rightarrow> int \<Rightarrow> int \<Rightarrow> unit cg" where
  "emit_binop k r left right =
     (if k = kMore \<or> k = kMoreEqual then emit (binop_op k) r right left 0
      else if k = kNotEqual then cseq (emit EQ r left right 0) (emit OP_NOT r r 0 0)
      else emit (binop_op k) r left right 0)"

definition unop_op :: "UnOpKind \<Rightarrow> Op" where
  "unop_op k = (case k of kNot \<Rightarrow> OP_NOT | kNeg \<Rightarrow> UNM | kBitNot \<Rightarrow> BNOT | kNumberSign \<Rightarrow> LEN)"

definition d_pi :: double where "d_pi = 0x400921FB54442D18"

definition char_pattern :: string where
  "char_pattern = [CHR 0x5B, CHR 0x00, CHR 0x2D, CHR 0xFF, CHR 0x5D]"

definition utf8_pattern :: string where
  "utf8_pattern = [CHR 0x5B, CHR 0x00, CHR 0x2D, CHR 0x7F, CHR 0xC2, CHR 0x2D, CHR 0xF4, CHR 0x5D,
     CHR 0x5B, CHR 0x80, CHR 0x2D, CHR 0xBF, CHR 0x5D, CHR 0x2A]"

text \<open>Fields of unshadowed library tables that are constants.\<close>

definition library_const :: "string \<Rightarrow> string \<Rightarrow> cvar option" where
  "library_const base name =
     (if base = ''math'' then
        (if name = ''pi'' then Some (VFloat d_pi)
         else if name = ''huge'' then Some (VFloat (d_infinity False))
         else if name = ''maxinteger'' then Some (VInt int64_max)
         else if name = ''mininteger'' then Some (VInt int64_min)
         else None)
      else if base = ''string'' \<and> name = ''charpattern'' then Some (VStringId char_pattern)
      else if base = ''utf8'' \<and> name = ''charpattern'' then Some (VStringId utf8_pattern)
      else None)"

fun free_base :: "cg_env \<Rightarrow> pexp \<Rightarrow> string option" where
  "free_base env (PVar (SimpleVar v b)) = (if var_def env v = None then Some b else None)"
| "free_base env _ = None"

text \<open>For any field of \<open>math\<close> a register is taken before the name is looked at; one that is no constant wastes it.\<close>

definition math_slot :: "cg_env \<Rightarrow> pexp \<Rightarrow> unit cg" where
  "math_slot env pe = (if free_base env pe = Some ''math'' then cbind AllocReg (\<lambda>_. cret ()) else cret ())"

definition kStringLibraryMethods :: "string list" where
  "kStringLibraryMethods = [''len'', ''sub'', ''rep'', ''reverse'', ''lower'', ''upper'', ''byte'', ''char'',
     ''format'', ''dump'', ''find'', ''match'', ''gmatch'', ''gsub'']"

definition arity_error :: "string \<Rightarrow> nat \<Rightarrow> nat \<Rightarrow> string" where
  "arity_error name expected n = cg_error (''wrong number of arguments to '' @ [CHR 39] @ name @ [CHR 39] @
     '': expected '' @ dec_digits expected @ '', got '' @ dec_digits n)"

definition check_arity :: "cg_env \<Rightarrow> string \<Rightarrow> nat \<Rightarrow> bool \<Rightarrow> unit cg" where
  "check_arity env name n last_expand =
     (if last_expand then cret ()
      else case file_func_sigs env name of
        Some (expected, vararg) \<Rightarrow> if \<not> vararg \<and> expected \<noteq> n then cthrow (arity_error name expected n) else cret ()
      | None \<Rightarrow> cret ())"

definition set_top :: "nat \<Rightarrow> unit cg" where "set_top n = cmodify (\<lambda>st. st\<lparr>stack_top := n\<rparr>)"

definition unbox_flag :: "bool \<Rightarrow> int" where "unbox_flag preserve_multi = (if preserve_multi then 0 else 1)"

definition place_callname :: "cg_env \<Rightarrow> bool \<Rightarrow> bool \<Rightarrow> string \<Rightarrow> int list \<Rightarrow> int cg" where
  "place_callname env preserve_multi last_expand name args =
     (let n = length args in
      cseq (check_arity env name n last_expand)
        (cbind
           (if n = 0 then AllocReg
            else cbind (cget stack_top) (\<lambda>base.
              cseq (EnsureStack (base + n)) (cseq (move_block (int base) args)
                (cseq (set_top (base + n)) (cret (int base))))))
           (\<lambda>base. cbind (AddStringConst name) (\<lambda>k.
              cseq (emit CALLNAME base (int n) (unbox_flag preserve_multi) k)
                (cseq (set_top (nat base + 1)) (cret base))))))"

definition place_call :: "bool \<Rightarrow> int \<Rightarrow> int list \<Rightarrow> int cg" where
  "place_call preserve_multi fn args =
     (let n = length args in
      cbind (cget stack_top) (\<lambda>base.
        cseq (EnsureStack (base + 1 + n)) (cseq (MoveTo (int base) fn) (cseq (move_block (int base + 1) args)
          (cseq (set_top (base + 1 + n)) (cseq (emit CALL (int base) (int n) (unbox_flag preserve_multi) 0)
            (cseq (set_top (base + 1)) (cret (int base)))))))))"

text \<open>
  A named callee of \<open>CALLNAME\<close>: a global or a file-level function by its name, or \<open>lib.f\<close> of an unshadowed
  base. A local variable, a parameter or an upvalue is called as a closure instead.
\<close>

fun call_by_name :: "cg_env \<Rightarrow> pexp \<Rightarrow> string option" where
  "call_by_name env (PVar (SimpleVar v name)) =
     (case var_def env v of
        None \<Rightarrow> Some name
      | Some d \<Rightarrow> if defining_func (def_info env d) = None \<and> def_local_function (def_info env d) then Some name else None)"
| "call_by_name env (PVar (DotVar pe name)) =
     (case free_base env pe of Some b \<Rightarrow> Some (b @ ''.'' @ name) | None \<Rightarrow> None)"
| "call_by_name env _ = None"

fun is_array_field :: "field \<Rightarrow> bool" where
  "is_array_field (FArray _) = True"
| "is_array_field _ = False"

fun is_set_table :: "pexp \<Rightarrow> bool" where
  "is_set_table (PVar (SimpleVar _ name)) = (name = ''FAKELUA_SET_TABLE'')"
| "is_set_table _ = False"

definition bad_tree :: string where "bad_tree = ''<malformed tree>''"

section \<open>Expressions\<close>

function (sequential)
  CompileExp :: "cg_env \<Rightarrow> exp \<Rightarrow> bool \<Rightarrow> int \<Rightarrow> int cg" and
  CompilePrefixexp :: "cg_env \<Rightarrow> pexp \<Rightarrow> bool \<Rightarrow> int \<Rightarrow> int cg" and
  CompileVar :: "cg_env \<Rightarrow> var \<Rightarrow> int cg" and
  CompileFunctioncall :: "cg_env \<Rightarrow> call \<Rightarrow> bool \<Rightarrow> int cg" and
  EmitCallArgs :: "cg_env \<Rightarrow> args \<Rightarrow> (int list \<times> bool) cg" and
  compile_args :: "cg_env \<Rightarrow> exp list \<Rightarrow> bool \<Rightarrow> int list cg" and
  compile_fields :: "cg_env \<Rightarrow> int \<Rightarrow> nat \<Rightarrow> field list \<Rightarrow> unit cg"
where
  "CompileExp env ENil pm dest = load_const dest VNil"
| "CompileExp env ETrue pm dest = load_const dest (VBool True)"
| "CompileExp env EFalse pm dest = load_const dest (VBool False)"
| "CompileExp env (ENumber s) pm dest =
     (case const_number (ENumber s) of
        Some v \<Rightarrow> load_const dest v
      | None \<Rightarrow> cbind (pick dest) (\<lambda>r.
          if IsInteger s then (case ToInteger s of Inl e \<Rightarrow> cthrow e | Inr i \<Rightarrow> LoadConstTo r (VInt i))
          else (case ToFloat s of Inl e \<Rightarrow> cthrow e | Inr d \<Rightarrow> LoadConstTo r (VFloat d))))"
| "CompileExp env (EString s) pm dest = load_const dest (VStringId s)"
| "CompileExp env EVarParams pm dest = cthrow (cg_error ''unsupported expression kind'')"
| "CompileExp env (EFunctionDef f) pm dest = cbind (EmitClosure env f) (CommitDest dest)"
| "CompileExp env (EPrefix pe) pm dest = CompilePrefixexp env pe pm dest"
| "CompileExp env (ETable fs) pm dest =
     cbind (cbind AllocReg (\<lambda>tbl. cseq (emit NEWTABLE tbl 0 0 0) (cseq (compile_fields env tbl 1 fs) (cret tbl))))
       (CommitDest dest)"
| "CompileExp env (EBinop k l r) pm dest =
     (if k = kAnd \<or> k = kOr then
        cbind (pick dest) (\<lambda>result.
        cbind (CompileExp env l False (-1)) (\<lambda>left.
        cbind (Emit TESTJMP left (if k = kAnd then 0 else 1) 0 0) (\<lambda>jmp.
        cbind (CompileExp env r False (-1)) (\<lambda>right.
        cseq (MoveTo result right) (
        cbind (Emit JMP 0 0 0 0) (\<lambda>jmp_end.
        cbind here (\<lambda>h. cseq (PatchSbx jmp h) (
        cseq (MoveTo result left) (
        cbind here (\<lambda>h. cseq (PatchSbx jmp_end h) (cret result)))))))))))
      else
        cbind (CompileExp env l False (-1)) (\<lambda>left.
        cbind (CompileExp env r False (-1)) (\<lambda>right.
        cbind (pick dest) (\<lambda>res. cseq (emit_binop k res left right) (cret res)))))"
| "CompileExp env (EUnop k e) pm dest =
     (case const_number (EUnop k e) of
        Some v \<Rightarrow> load_const dest v
      | None \<Rightarrow>
          cbind (CompileExp env e False (-1)) (\<lambda>x.
          cbind (pick dest) (\<lambda>r. cseq (emit (unop_op k) r x 0 0) (cret r))))"
| "CompilePrefixexp env (PVar v) pm dest =
     cbind (CompileVar env v) (\<lambda>r.
       if \<not> pm \<and> (case v of SimpleVar _ n \<Rightarrow> is_vararg_name n | _ \<Rightarrow> False) then
         cbind (pick dest) (\<lambda>out. cseq (emit UNBOX out r 0 0) (cret out))
       else CommitDest dest r)"
| "CompilePrefixexp env (PCall c) pm dest = cbind (CompileFunctioncall env c pm) (CommitDest dest)"
| "CompilePrefixexp env (PExp e) pm dest = CompileExp env e pm dest"
| "CompileVar env (SimpleVar v name) = ResolveSimpleName env v name"
| "CompileVar env (SquareVar pe e) =
     cbind (CompilePrefixexp env pe False (-1)) (\<lambda>t.
     cbind (CompileExp env e False (-1)) (\<lambda>k.
     cbind AllocReg (\<lambda>r. cseq (emit GETTABLE r t k 0) (cret r))))"
| "CompileVar env (DotVar pe name) =
     (case (case free_base env pe of Some b \<Rightarrow> library_const b name | None \<Rightarrow> None) of
        Some v \<Rightarrow> cbind AllocReg (\<lambda>r. LoadConstTo r v)
      | None \<Rightarrow>
          cseq (math_slot env pe) (cbind (CompilePrefixexp env pe False (-1)) (\<lambda>t.
          cbind AllocReg (\<lambda>k. cseq (LoadConstTo k (VStringId name)) (
          cbind AllocReg (\<lambda>r. cseq (emit GETTABLE r t k 0) (cret r)))))))"
| "EmitCallArgs env (ArgsExpList es) =
     (let expand = es \<noteq> [] \<and> LastPreservesMulti env (last es) in
      cbind (compile_args env es expand) (\<lambda>rs. cret (rs, expand)))"
| "EmitCallArgs env ArgsEmpty = cret ([], False)"
| "EmitCallArgs env (ArgsTable fs) =
     cbind AllocReg (\<lambda>tbl. cseq (emit NEWTABLE tbl 0 0 0) (cseq (compile_fields env tbl 1 fs) (cret ([tbl], False))))"
| "EmitCallArgs env (ArgsString e) = cbind (CompileExp env e False (-1)) (\<lambda>r. cret ([r], False))"
| "compile_args env [] expand = cret []"
| "compile_args env (e # es) expand =
     cbind (CompileExp env e (expand \<and> es = []) (-1)) (\<lambda>r.
     cbind (compile_args env es expand) (\<lambda>rs. cret (r # rs)))"
| "compile_fields env tbl idx [] = cret ()"
| "compile_fields env tbl idx (FObject name v # fs) =
     cbind (cget stack_top) (\<lambda>saved.
     cbind (CompileExp env v False (-1)) (\<lambda>val.
     cbind AllocReg (\<lambda>k. cseq (LoadConstTo k (VStringId name)) (cseq (emit SETTABLE tbl k val 0) (
     cseq (FreeTo saved) (compile_fields env tbl idx fs))))))"
| "compile_fields env tbl idx (FKey key v # fs) =
     cbind (cget stack_top) (\<lambda>saved.
     cbind (CompileExp env v False (-1)) (\<lambda>val.
     cbind (CompileExp env key False (-1)) (\<lambda>k. cseq (emit SETTABLE tbl k val 0) (
     cseq (FreeTo saved) (compile_fields env tbl idx fs)))))"
| "compile_fields env tbl idx (FArray v # fs) =
     (let expand = \<not> list_ex is_array_field fs \<and> LastPreservesMulti env v in
      cbind (cget stack_top) (\<lambda>saved.
      cbind (CompileExp env v expand (-1)) (\<lambda>val.
      if expand then
        cseq (emit SETLIST tbl 0 val (int idx)) (cseq (FreeTo saved) (compile_fields env tbl idx fs))
      else
        cbind AllocReg (\<lambda>k. cseq (LoadConstTo k (VInt (word_of_nat idx))) (cseq (emit SETTABLE tbl k val 0) (
        cseq (FreeTo saved) (compile_fields env tbl (idx + 1) fs)))))))"
| "CompileFunctioncall env (Call n pe m args) pm =
     (if is_set_table pe then
        (case args of
           ArgsExpList (et # ek # ev # _) \<Rightarrow>
             cbind (CompileExp env et False (-1)) (\<lambda>t.
             cbind (CompileExp env ek False (-1)) (\<lambda>k.
             cbind (CompileExp env ev False (-1)) (\<lambda>v.
             cseq (emit SETTABLE t k v 0) (cbind AllocReg (\<lambda>r. cseq (emit LOADNIL r 0 0 0) (cret r))))))
         | _ \<Rightarrow> cthrow bad_tree)
      else if m \<noteq> [] then
        cbind (case pe of PVar v \<Rightarrow> CompileVar env v | _ \<Rightarrow> CompilePrefixexp env pe False (-1)) (\<lambda>obj.
        cbind (EmitCallArgs env args) (\<lambda>(regs, expand).
          if m \<in> set kStringLibraryMethods then place_callname env pm expand (''string.'' @ m) (obj # regs)
          else
            cbind AllocReg (\<lambda>k. cseq (LoadConstTo k (VStringId m)) (
            cbind AllocReg (\<lambda>fn. cseq (emit GETTABLE fn obj k 0) (place_call pm fn (obj # regs)))))))
      else
        cbind (EmitCallArgs env args) (\<lambda>(regs, expand).
          case call_by_name env pe of
            Some name \<Rightarrow> place_callname env pm expand name regs
          | None \<Rightarrow>
              cbind (case pe of PVar (SimpleVar v name) \<Rightarrow> ResolveSimpleName env v name
                     | _ \<Rightarrow> CompilePrefixexp env pe False (-1)) (\<lambda>fn. place_call pm fn regs)))"

  by pat_completeness auto

termination
  by (relation "measure (case_sum (case_sum
        (\<lambda>(_, e, _). size e) (case_sum (\<lambda>(_, p, _). size p) (\<lambda>(_, v). size v)))
        (case_sum (case_sum (\<lambda>(_, c, _). size c) (\<lambda>(_, a). size a)) 
           (case_sum (\<lambda>(_, es, _). size_list size es) (\<lambda>(_, _, _, fs). size_list size fs))))")
    auto

end
