(* ===== verification/CodegenStmt.thy ===== *)
theory CodegenStmt
imports CodegenExp
begin

text \<open>
  Generation of statements and functions (\<open>CompileStmtBlock\<close>, the \<open>CompileStmt...\<close> family and \<open>CompileFunction\<close> of
  \<open>interp/codegen.cpp\<close>). The stacks of loops and label scopes have their innermost element first.
\<close>

section \<open>Loops and labels\<close>

definition push_loop :: "int \<Rightarrow> unit cg" where
  "push_loop cont = cmodify (\<lambda>st. st\<lparr>loops := \<lparr>continue_ip = cont, break_jmps = [], continue_jmps = []\<rparr> # loops st\<rparr>)"

definition pop_loop :: "unit cg" where "pop_loop = cmodify (\<lambda>st. st\<lparr>loops := tl (loops st)\<rparr>)"

text \<open>Set the target of \<open>continue\<close> and patch the jumps that waited for it.\<close>

definition set_continue :: "unit cg" where
  "set_continue =
     cbind here (\<lambda>h. cseq (cmodify (\<lambda>st. st\<lparr>loops := (hd (loops st))\<lparr>continue_ip := int h\<rparr> # tl (loops st)\<rparr>))
       (cbind (cget (\<lambda>st. continue_jmps (hd (loops st)))) (\<lambda>ks. patch_all ks h)))"

definition jump_back :: "int \<Rightarrow> unit cg" where
  "jump_back target = cbind here (\<lambda>h. emit JMP 0 0 0 (target - int h - 1))"

definition patch_breaks :: "nat \<Rightarrow> unit cg" where
  "patch_breaks dest = cseq (cbind (cget (\<lambda>st. break_jmps (hd (loops st)))) (\<lambda>ks. patch_all ks dest)) pop_loop"

definition CompileStmtBreak :: "unit cg" where
  "CompileStmtBreak =
     cbind (cget loops) (\<lambda>ls.
       case ls of
         [] \<Rightarrow> cthrow ''break not inside loop''
       | l # rest \<Rightarrow> cbind (Emit JMP 0 0 0 0) (\<lambda>k.
           cmodify (\<lambda>st. st\<lparr>loops := l\<lparr>break_jmps := break_jmps l @ [k]\<rparr> # rest\<rparr>)))"

definition CompileStmtContinue :: "unit cg" where
  "CompileStmtContinue =
     cbind (cget loops) (\<lambda>ls.
       case ls of
         [] \<Rightarrow> cthrow ''continue not inside loop''
       | l # rest \<Rightarrow> cbind (Emit JMP 0 0 0 0) (\<lambda>k.
           if 0 \<le> continue_ip l then PatchSbx k (nat (continue_ip l))
           else cmodify (\<lambda>st. st\<lparr>loops := l\<lparr>continue_jmps := continue_jmps l @ [k]\<rparr> # rest\<rparr>)))"

fun find_label :: "LabelScope list \<Rightarrow> string \<Rightarrow> nat option" where
  "find_label [] name = None"
| "find_label (sc # scs) name = (case label_defs sc name of Some k \<Rightarrow> Some k | None \<Rightarrow> find_label scs name)"

fun add_pending :: "string \<Rightarrow> nat list \<Rightarrow> (string \<times> nat list) list \<Rightarrow> (string \<times> nat list) list" where
  "add_pending name ks [] = [(name, ks)]"
| "add_pending name ks ((m, js) # ps) = (if m = name then (m, js @ ks) # ps else (m, js) # add_pending name ks ps)"

definition no_label :: "string \<Rightarrow> string" where
  "no_label name = cg_error (''no visible label '' @ [CHR 39] @ name @ [CHR 39] @ '' for goto'')"

definition set_scopes :: "LabelScope list \<Rightarrow> unit cg" where
  "set_scopes scs = cmodify (\<lambda>st. st\<lparr>label_scopes := scs\<rparr>)"

definition CompileStmtGoto :: "string \<Rightarrow> unit cg" where
  "CompileStmtGoto name =
     cbind (Emit JMP 0 0 0 0) (\<lambda>k. cbind (cget label_scopes) (\<lambda>scs.
       case find_label scs name of
         Some dest \<Rightarrow> PatchSbx k dest
       | None \<Rightarrow>
           (case scs of
              [] \<Rightarrow> cthrow (no_label name)
            | sc # rest \<Rightarrow> set_scopes (sc\<lparr>pending := add_pending name [k] (pending sc)\<rparr> # rest))))"

definition CompileStmtLabel :: "string \<Rightarrow> unit cg" where
  "CompileStmtLabel name =
     cbind (cget label_scopes) (\<lambda>scs.
       case scs of
         [] \<Rightarrow> cthrow (cg_error (''label '' @ [CHR 39] @ name @ [CHR 39] @ '' outside a block''))
       | sc # rest \<Rightarrow>
           if label_defs sc name \<noteq> None
           then cthrow (cg_error (''label '' @ [CHR 39] @ name @ [CHR 39] @ '' already defined''))
           else cbind here (\<lambda>h.
             cseq (case map_of (pending sc) name of Some ks \<Rightarrow> patch_all ks h | None \<Rightarrow> cret ())
               (set_scopes (sc\<lparr>label_defs := (label_defs sc)(name \<mapsto> h),
                              pending := filter (\<lambda>p. fst p \<noteq> name) (pending sc)\<rparr> # rest))))"

definition open_scope :: "unit cg" where
  "open_scope = cmodify (\<lambda>st. st\<lparr>label_scopes := \<lparr>label_defs = Map.empty, pending = []\<rparr> # label_scopes st\<rparr>)"

text \<open>The end of a block: gotos still open are resolved outwards, handed to the parent, or an error.\<close>

fun resolve_root :: "(string \<Rightarrow> nat option) \<Rightarrow> (string \<times> nat list) list \<Rightarrow> unit cg" where
  "resolve_root defs [] = cret ()"
| "resolve_root defs ((name, ks) # ps) =
     (case defs name of None \<Rightarrow> cthrow (no_label name) | Some dest \<Rightarrow> cseq (patch_all ks dest) (resolve_root defs ps))"

fun resolve_outer :: "(string \<times> nat list) list \<Rightarrow> LabelScope list \<Rightarrow> LabelScope list cg" where
  "resolve_outer [] outer = cret outer"
| "resolve_outer ((name, ks) # ps) outer =
     (case find_label outer name of
        Some dest \<Rightarrow> cseq (patch_all ks dest) (resolve_outer ps outer)
      | None \<Rightarrow> resolve_outer ps ((hd outer)\<lparr>pending := add_pending name ks (pending (hd outer))\<rparr> # tl outer))"

definition close_scope :: "unit cg" where
  "close_scope =
     cbind (cget label_scopes) (\<lambda>scs.
       case scs of
         [] \<Rightarrow> cret ()
       | [sc] \<Rightarrow> cseq (resolve_root (label_defs sc) (pending sc)) (set_scopes [])
       | sc # outer \<Rightarrow> cbind (resolve_outer (pending sc) outer) set_scopes)"

section \<open>Simple statements\<close>

definition load_nil :: "unit cg" where
  "load_nil = cbind AllocReg (\<lambda>r. cseq (emit LOADNIL r 0 0 0) (emit RETURN r 1 0 0))"

definition CompileStmtReturn :: "cg_env \<Rightarrow> exp list \<Rightarrow> unit cg" where
  "CompileStmtReturn env es =
     (case es of
        [] \<Rightarrow> load_nil
      | [e] \<Rightarrow> cbind (CompileExp env e True (-1)) (\<lambda>r. emit RETURN r 0 0 0)
      | _ \<Rightarrow>
          let last_multi = LastPreservesMulti env (last es); n = length es in
          cbind (compile_args env es last_multi) (\<lambda>regs.
          cbind (cget stack_top) (\<lambda>base.
          cseq (EnsureStack (base + n)) (cseq (move_block (int base) regs) (
          cseq (if last_multi then emit COMBINE (int base) (int n - 1) 0 0 else emit MAKEMULTI (int base) (int n) 0 0)
            (emit RETURN (int base) 0 0 0))))))"

definition set_reg :: "nat \<Rightarrow> int \<Rightarrow> unit cg" where
  "set_reg d r = cmodify (\<lambda>st. st\<lparr>reg_of := (reg_of st)(d := r)\<rparr>)"

definition new_box :: "cg_env \<Rightarrow> nat \<Rightarrow> unit cg" where
  "new_box env d = (if is_captured (def_info env d) then cbind (cget (\<lambda>st. reg_of st d)) (\<lambda>r. emit NEWBOX r 0 0 0)
     else cret ())"

text \<open>\<open>stmt_var_to_def_.at\<close>, which throws for an unknown name, and the slot of the definition.\<close>

definition def_at :: "cg_env \<Rightarrow> node \<Rightarrow> string \<Rightarrow> nat cg" where
  "def_at env s name = (case stmt_def env s name of None \<Rightarrow> cthrow ''out_of_range'' | Some d \<Rightarrow> cret d)"

definition local_slot :: "nat \<Rightarrow> unit cg" where
  "local_slot d = cbind (cget (\<lambda>st. reg_of st d)) (\<lambda>r. if r < 0 then cbind AllocLocal (set_reg d) else cret ())"

definition file_level :: "cg_env \<Rightarrow> nat \<Rightarrow> bool" where
  "file_level env d \<longleftrightarrow> defining_func (def_info env d) = None"

fun declare_locals :: "cg_env \<Rightarrow> node \<Rightarrow> string list \<Rightarrow> nat list cg" where
  "declare_locals env s [] = cret []"
| "declare_locals env s (name # names) =
     cbind (def_at env s name) (\<lambda>d.
     cseq (if file_level env d then set_reg d (-1)
           else cbind (cget (\<lambda>st. reg_of st d)) (\<lambda>r.
             if r < 0 then cseq (local_slot d) (new_box env d) else cret ()))
       (cbind (declare_locals env s names) (\<lambda>ds. cret (d # ds))))"

definition store_def :: "cg_env \<Rightarrow> nat \<Rightarrow> string \<Rightarrow> int \<Rightarrow> unit cg" where
  "store_def env d name r =
     (if file_level env d then set_global r name else cbind (cget (\<lambda>st. reg_of st d)) (\<lambda>x. StoreLocal x r))"

text \<open>All but the last expression, when the last one is spread over the remaining names.\<close>

fun store_first :: "cg_env \<Rightarrow> (string \<times> nat) list \<Rightarrow> exp list \<Rightarrow> (string \<times> nat) list cg" where
  "store_first env ((name, d) # nds) (e # e' # es) =
     cbind (CompileExp env e False (-1)) (\<lambda>r. cseq (store_def env d name r) (store_first env nds (e' # es)))"
| "store_first env nds es = cret nds"

fun store_unboxed :: "cg_env \<Rightarrow> int \<Rightarrow> int \<Rightarrow> (string \<times> nat) list \<Rightarrow> unit cg" where
  "store_unboxed env callr k [] = cret ()"
| "store_unboxed env callr k ((name, d) # nds) =
     cbind AllocReg (\<lambda>r. cseq (emit UNBOX r callr k 0) (cseq (store_def env d name r) (store_unboxed env callr (k + 1) nds)))"

fun store_each :: "cg_env \<Rightarrow> (string \<times> nat) list \<Rightarrow> exp list \<Rightarrow> unit cg" where
  "store_each env [] [] = cret ()"
| "store_each env [] (e # es) = cbind (CompileExp env e False (-1)) (\<lambda>_. store_each env [] es)"
| "store_each env ((name, d) # nds) es =
     cbind (cget (\<lambda>st. if file_level env d then -1 else reg_of st d)) (\<lambda>dest.
     cbind (case es of
              [] \<Rightarrow> cbind (pick dest) (\<lambda>r. cseq (emit LOADNIL r 0 0 0) (cret r))
            | e # _ \<Rightarrow> CompileExp env e False dest) (\<lambda>r.
     cseq (if file_level env d then set_global r name
           else if r \<noteq> dest then cbind (cget (\<lambda>st. reg_of st d)) (\<lambda>x. StoreLocal x r) else cret ())
       (store_each env nds (tl es))))"

definition CompileStmtLocalVar :: "cg_env \<Rightarrow> node \<Rightarrow> string list \<Rightarrow> exp list \<Rightarrow> unit cg" where
  "CompileStmtLocalVar env s names es =
     cbind (declare_locals env s names) (\<lambda>ds.
       let nds = zip names ds in
       if es \<noteq> [] \<and> LastPreservesMulti env (last es) \<and> length es < length names then
         cbind (store_first env nds es) (\<lambda>rest.
         cbind (CompileExp env (last es) True (-1)) (\<lambda>callr. store_unboxed env callr 0 rest))
       else store_each env nds es)"

definition CompileStmtAssign :: "cg_env \<Rightarrow> var \<Rightarrow> exp \<Rightarrow> unit cg" where
  "CompileStmtAssign env v e =
     cbind (LocalAssignDest env v) (\<lambda>dest.
     cbind (CompileExp env e False dest) (\<lambda>r.
       if dest < 0 then AssignToVar env v r
       else if r \<noteq> dest then StoreLocal dest r else cret ()))"

definition CompileStmtLocalFunction :: "cg_env \<Rightarrow> node \<Rightarrow> string \<Rightarrow> unit cg" where
  "CompileStmtLocalFunction env s name =
     cbind (def_at env s name) (\<lambda>d.
       if file_level env d then cbind (EmitClosure env s) (\<lambda>r. set_global r name)
       else cseq (local_slot d) (cseq (new_box env d) (cbind (EmitClosure env s) (\<lambda>r.
         cbind (cget (\<lambda>st. reg_of st d)) (\<lambda>x. StoreLocal x r)))))"

section \<open>Control flow\<close>

text \<open>The head of a \<open>for ... in\<close> loop binds its first two names from two registers.\<close>

definition bind_name :: "cg_env \<Rightarrow> int \<Rightarrow> nat \<Rightarrow> unit cg" where
  "bind_name env r d = cseq (new_box env d) (cbind (cget (\<lambda>st. reg_of st d)) (\<lambda>x. StoreLocal x r))"

definition bind_loop_vars :: "cg_env \<Rightarrow> nat list \<Rightarrow> int \<Rightarrow> int \<Rightarrow> unit cg" where
  "bind_loop_vars env ds kreg vreg =
     (case ds of
        [] \<Rightarrow> cthrow bad_tree
      | [d] \<Rightarrow> bind_name env kreg d
      | d # d' # _ \<Rightarrow> cseq (bind_name env kreg d) (bind_name env vreg d'))"

fun loop_slots :: "cg_env \<Rightarrow> node \<Rightarrow> string list \<Rightarrow> nat list cg" where
  "loop_slots env s [] = cret []"
| "loop_slots env s (name # names) =
     cbind (def_at env s name) (\<lambda>d. cseq (local_slot d) (cbind (loop_slots env s names) (\<lambda>ds. cret (d # ds))))"

definition add_one :: "int \<Rightarrow> unit cg" where
  "add_one idx = cbind AllocReg (\<lambda>one. cseq (LoadConstTo one (VInt 1)) (emit ADD idx idx one 0))"

definition ipairs_loop :: "cg_env \<Rightarrow> nat list \<Rightarrow> exp \<Rightarrow> unit cg \<Rightarrow> unit cg" where
  "ipairs_loop env ds e body =
     cbind (CompileExp env e False (-1)) (\<lambda>tbl.
     cbind AllocReg (\<lambda>idx. cseq (LoadConstTo idx (VInt 1)) (
     cbind here (\<lambda>head.
     cbind AllocReg (\<lambda>vreg. cseq (emit GETTABLE vreg tbl idx 0) (
     cbind AllocReg (\<lambda>nlit. cseq (emit LOADNIL nlit 0 0 0) (
     cbind AllocReg (\<lambda>vnil. cseq (emit EQ vnil vreg nlit 0) (
     cbind (Emit TESTJMP vnil 1 0 0) (\<lambda>jmp_exit.
     cseq (bind_loop_vars env ds idx vreg) (cseq (push_loop (-1)) (cseq body (cseq set_continue (
     cseq (add_one idx) (cseq (jump_back (int head)) (
     cbind here (\<lambda>h. cseq (PatchSbx jmp_exit h) (patch_breaks h)))))))))))))))))))"

definition pairs_loop :: "cg_env \<Rightarrow> nat list \<Rightarrow> exp \<Rightarrow> unit cg \<Rightarrow> unit cg" where
  "pairs_loop env ds e body =
     cbind (CompileExp env e False (-1)) (\<lambda>tbl.
     cbind AllocReg (\<lambda>sz. cseq (emit TABCOUNT sz tbl 0 0) (
     cbind AllocReg (\<lambda>idx. cseq (LoadConstTo idx (VInt 0)) (
     cbind here (\<lambda>head.
     cbind AllocReg (\<lambda>cmp. cseq (emit LT cmp idx sz 0) (
     cbind (Emit TESTJMP cmp 0 0 0) (\<lambda>jmp_exit.
     cbind AllocReg (\<lambda>kreg. cbind AllocReg (\<lambda>vreg. cseq (emit TABENT tbl kreg vreg idx) (
     cbind AllocReg (\<lambda>vnil. cbind AllocReg (\<lambda>nlit. cseq (emit LOADNIL nlit 0 0 0) (
     cseq (emit EQ vnil vreg nlit 0) (
     cbind (Emit TESTJMP vnil 1 0 0) (\<lambda>skip_body.
     cseq (bind_loop_vars env ds kreg vreg) (cseq (push_loop (-1)) (cseq body (cseq set_continue (
     cbind (cget (\<lambda>st. continue_ip (hd (loops st)))) (\<lambda>cont. cseq (PatchSbx skip_body (nat cont)) (
     cseq (add_one idx) (cseq (jump_back (int head)) (
     cbind here (\<lambda>h. cseq (PatchSbx jmp_exit h) (patch_breaks h)))))))))))))))))))))))))))"

text \<open>The iterator triple, by the number of expressions.\<close>

definition iterator_triple :: "cg_env \<Rightarrow> exp list \<Rightarrow> int \<Rightarrow> int \<Rightarrow> int \<Rightarrow> unit cg" where
  "iterator_triple env es f s v =
     (case es of
        [] \<Rightarrow> cthrow bad_tree
      | [e0] \<Rightarrow>
          cbind (CompileExp env e0 True (-1)) (\<lambda>r.
          cseq (emit UNBOX f r 0 0) (cseq (emit UNBOX s r 1 0) (emit UNBOX v r 2 0)))
      | [e0, e1] \<Rightarrow>
          cbind (CompileExp env e0 False (-1)) (\<lambda>r0. cseq (MoveTo f r0) (
          cbind (CompileExp env e1 True (-1)) (\<lambda>r1.
          cseq (emit UNBOX f f 0 0) (cseq (emit UNBOX s r1 0 0) (emit UNBOX v r1 1 0)))))
      | e0 # e1 # e2 # rest \<Rightarrow>
          cbind (CompileExp env e0 False (-1)) (\<lambda>r0. cseq (MoveTo f r0) (
          cbind (CompileExp env e1 False (-1)) (\<lambda>r1. cseq (MoveTo s r1) (
          cbind (CompileExp env e2 (rest = []) (-1)) (\<lambda>r2.
          cseq (emit UNBOX f f 0 0) (cseq (emit UNBOX s s 0 0) (cseq (emit UNBOX v r2 0 0) (
          cseq (compile_args env rest True) (cret ()))))))))))"

fun bind_results :: "cg_env \<Rightarrow> int \<Rightarrow> int \<Rightarrow> nat list \<Rightarrow> unit cg" where
  "bind_results env res k [] = cret ()"
| "bind_results env res k (d # ds) =
     cbind AllocReg (\<lambda>r. cseq (emit UNBOX r res k 0) (cseq (bind_name env r d) (bind_results env res (k + 1) ds)))"

definition generic_loop :: "cg_env \<Rightarrow> nat list \<Rightarrow> exp list \<Rightarrow> unit cg \<Rightarrow> unit cg" where
  "generic_loop env ds es body =
     cbind AllocLocal (\<lambda>f. cbind AllocLocal (\<lambda>s. cbind AllocLocal (\<lambda>v.
     cseq (iterator_triple env es f s v) (
     cbind here (\<lambda>head. cbind (cget stack_top) (\<lambda>base.
     cseq (EnsureStack (base + 3)) (cseq (move_block (int base) [f, s, v]) (
     cseq (emit CALL (int base) 2 0 0) (cseq (set_top (base + 1)) (
     cseq (bind_results env (int base) 0 ds) (
     case ds of
       [] \<Rightarrow> cthrow bad_tree
     | d # _ \<Rightarrow>
         cbind (cget (\<lambda>st. reg_of st d)) (\<lambda>first.
         cbind AllocReg (\<lambda>nlit. cseq (emit LOADNIL nlit 0 0 0) (
         cbind AllocReg (\<lambda>isnil. cseq (emit EQ isnil first nlit 0) (
         cbind (Emit TESTJMP isnil 1 0 0) (\<lambda>jmp_exit. cseq (MoveTo v first) (
         cseq (push_loop (int head)) (cseq body (cseq set_continue (cseq (jump_back (int head)) (
         cbind here (\<lambda>h. cseq (PatchSbx jmp_exit h) (patch_breaks h))))))))))))))))))))))))"

definition for_loop :: "cg_env \<Rightarrow> node \<Rightarrow> string \<Rightarrow> exp \<Rightarrow> exp \<Rightarrow> exp option \<Rightarrow> unit cg \<Rightarrow> unit cg" where
  "for_loop env s name eb ee es body =
     cbind (cget stack_top) (\<lambda>saved.
     cbind AllocReg (\<lambda>ctrl. cbind AllocReg (\<lambda>endv. cbind AllocReg (\<lambda>step.
     cbind (def_at env s name) (\<lambda>d. cseq (local_slot d) (
     cbind (cget (\<lambda>st. reg_of st d)) (\<lambda>r.
     if r \<noteq> ctrl + 3 then cthrow (cg_error ''numeric for: loop variable is not R(A+3)'')
     else
       cbind (CompileExp env eb False ctrl) (\<lambda>_. cbind (CompileExp env ee False endv) (\<lambda>_.
       cbind (case es of Some e \<Rightarrow> CompileExp env e False step | None \<Rightarrow> LoadConstTo step (VInt 1)) (\<lambda>_.
       cbind (Emit FORPREP ctrl 0 0 0) (\<lambda>prep. cbind here (\<lambda>loop_head.
       cseq (new_box env d) (cseq (push_loop (-1)) (cseq body (cseq set_continue (
       cbind (Emit FORLOOP ctrl 0 0 0) (\<lambda>loop_op. cseq (PatchSbx loop_op loop_head) (
       cbind here (\<lambda>h. cseq (PatchSbx prep h) (cseq (patch_breaks h) (FreeTo saved)))))))))))))))))))))"

definition while_loop :: "cg_env \<Rightarrow> exp \<Rightarrow> unit cg \<Rightarrow> unit cg" where
  "while_loop env e body =
     cbind here (\<lambda>head. cbind (cget stack_top) (\<lambda>saved.
     cbind (CompileExp env e False (-1)) (\<lambda>cond.
     cbind (Emit TESTJMP cond 0 0 0) (\<lambda>jmpf. cseq (FreeTo saved) (cseq (push_loop (int head)) (cseq body (
     cseq (jump_back (int head)) (cbind here (\<lambda>h. cseq (PatchSbx jmpf h) (patch_breaks h))))))))))"

definition repeat_loop :: "cg_env \<Rightarrow> exp \<Rightarrow> unit cg \<Rightarrow> unit cg" where
  "repeat_loop env e body =
     cbind here (\<lambda>start. cseq (push_loop (-1)) (cseq body (
     cbind here (\<lambda>cont.
     cseq (cmodify (\<lambda>st. st\<lparr>loops := (hd (loops st))\<lparr>continue_ip := int cont\<rparr> # tl (loops st)\<rparr>)) (
     cbind (cget stack_top) (\<lambda>saved.
     cbind (CompileExp env e False (-1)) (\<lambda>cond.
     cbind (Emit TESTJMP cond 1 0 0) (\<lambda>jmp_true. cseq (jump_back (int start)) (
     cbind here (\<lambda>h. cseq (PatchSbx jmp_true h) (
     cbind (cget (\<lambda>st. hd (loops st))) (\<lambda>l.
     cseq (patch_all (break_jmps l) h) (cseq (patch_all (continue_jmps l) cont) (
     cseq (FreeTo saved) pop_loop))))))))))))))"

text \<open>One branch of an \<open>if\<close>, which gives the jump to its end.\<close>

definition if_branch :: "cg_env \<Rightarrow> exp \<Rightarrow> unit cg \<Rightarrow> nat cg" where
  "if_branch env e body =
     cbind (cget stack_top) (\<lambda>saved.
     cbind (CompileExp env e False (-1)) (\<lambda>cond.
     cbind (Emit TESTJMP cond 0 0 0) (\<lambda>jmpf. cseq (FreeTo saved) (cseq body (
     cbind (Emit JMP 0 0 0 0) (\<lambda>k. cbind here (\<lambda>h. cseq (PatchSbx jmpf h) (cret k))))))))"

function (sequential)
  CompileStmt :: "cg_env \<Rightarrow> stmt \<Rightarrow> unit cg" and
  CompileStmtBlock :: "cg_env \<Rightarrow> stmt list \<Rightarrow> unit cg" and
  compile_stmts :: "cg_env \<Rightarrow> stmt list \<Rightarrow> unit cg" and
  compile_elseifs :: "cg_env \<Rightarrow> (exp \<times> stmt list) list \<Rightarrow> nat list cg"
where
  "CompileStmtBlock env ss = cseq open_scope (cseq (compile_stmts env ss) close_scope)"
| "compile_stmts env [] = cret ()"
| "compile_stmts env (s # ss) = cseq (CompileStmt env s) (compile_stmts env ss)"
| "compile_elseifs env [] = cret []"
| "compile_elseifs env ((e, b) # bs) =
     cbind (if_branch env e (CompileStmtBlock env b)) (\<lambda>k. cbind (compile_elseifs env bs) (\<lambda>ks. cret (k # ks)))"
| "CompileStmt env s =
     (if IsPackageHeaderStmt env s then cret ()
      else case s of
        SReturn es \<Rightarrow> CompileStmtReturn env es
      | SLocalVar n names es \<Rightarrow> CompileStmtLocalVar env n names es
      | SAssign v e \<Rightarrow> CompileStmtAssign env v e
      | SCall c \<Rightarrow> cbind (cget stack_top) (\<lambda>saved. cbind (CompileFunctioncall env c False) (\<lambda>_. FreeTo saved))
      | SBlock ss \<Rightarrow> CompileStmtBlock env ss
      | SWhile e b \<Rightarrow> while_loop env e (CompileStmtBlock env b)
      | SRepeat b e \<Rightarrow> repeat_loop env e (CompileStmtBlock env b)
      | SIf e b bs eb \<Rightarrow>
          cbind (if_branch env e (CompileStmtBlock env b)) (\<lambda>k.
          cbind (compile_elseifs env bs) (\<lambda>ks.
          cseq (case eb of Some ss \<Rightarrow> CompileStmtBlock env ss | None \<Rightarrow> cret ())
            (cbind here (\<lambda>h. patch_all (k # ks) h))))
      | SBreak \<Rightarrow> CompileStmtBreak
      | SContinue \<Rightarrow> CompileStmtContinue
      | SForLoop n name eb ee es b \<Rightarrow> for_loop env n name eb ee es (CompileStmtBlock env b)
      | SForIn n names es b \<Rightarrow>
          cbind (loop_slots env n names) (\<lambda>ds.
            case TryMatchPairsIpairs (\<lambda>v. var_def env v \<noteq> None) es of
              Some (kIpairs, e) \<Rightarrow> ipairs_loop env ds e (CompileStmtBlock env b)
            | Some (kPairs, e) \<Rightarrow> pairs_loop env ds e (CompileStmtBlock env b)
            | None \<Rightarrow> generic_loop env ds es (CompileStmtBlock env b))
      | SLocalFunction n name \<Rightarrow> CompileStmtLocalFunction env n name
      | SFunction _ \<Rightarrow> cthrow (cg_error ''not support stmt type: Function'')
      | SEmpty \<Rightarrow> cret ()
      | SGoto name \<Rightarrow> CompileStmtGoto name
      | SLabel name \<Rightarrow> CompileStmtLabel name)"
  by pat_completeness auto

termination
  by (relation "measure (case_sum (case_sum (\<lambda>(_, s). 3 * size s + 1) (\<lambda>(_, ss). 3 * size_list size ss + 2))
       (case_sum (\<lambda>(_, ss). 3 * size_list size ss + 1) (\<lambda>(_, bs). 3 * size_list (size_prod (\<lambda>x. 0) (size_list size)) bs + 3)))") auto

section \<open>Functions\<close>

record FuncInfo =
  fi_name :: string
  fi_node :: node
  fi_unit :: nat
  fi_params :: "nat option list"
  fi_vararg :: bool
  fi_body :: "stmt list option"

fun compile_params :: "cg_env \<Rightarrow> nat \<Rightarrow> nat option list \<Rightarrow> unit cg" where
  "compile_params env i [] = cret ()"
| "compile_params env i (p # ps) =
     cseq (case p of Some d \<Rightarrow> cseq (set_reg d (int i)) (new_box env d) | None \<Rightarrow> cret ()) (compile_params env (i + 1) ps)"

fun ends_ret :: "stmt list \<Rightarrow> bool" where
  "ends_ret ss = (ss \<noteq> [] \<and> (case last ss of SReturn _ \<Rightarrow> True | _ \<Rightarrow> False))"

definition compile_body :: "cg_env \<Rightarrow> FuncInfo \<Rightarrow> unit cg" where
  "compile_body env fi =
     (case fi_body fi of
        Some ss \<Rightarrow> cseq (compile_params env 0 (fi_params fi)) (cseq (CompileStmtBlock env ss)
          (if ends_ret ss then cret () else load_nil))
      | None \<Rightarrow> load_nil)"

definition start_state :: "nat \<Rightarrow> (nat \<Rightarrow> int) \<Rightarrow> cgstate" where
  "start_state n regs = \<lparr>c_code = [], c_consts = [], c_children = [], c_max = n, c_boxes = False,
     stack_top = n, local_top = n, reg_of = regs, loops = [], label_scopes = []\<rparr>"

text \<open>The prototype of a function, with the upvalues its parent gives it, and where its variables live.\<close>

definition CompileFunction :: "cg_env \<Rightarrow> FuncInfo \<Rightarrow> UpvalDesc list \<Rightarrow> (FuncProto \<times> (nat \<Rightarrow> int)) result" where
  "CompileFunction env fi ups =
     (case compile_body (env\<lparr>cur_func := fi_node fi\<rparr>) fi (start_state (length (fi_params fi)) (\<lambda>_. -1)) of
        Inl e \<Rightarrow> Inl e
      | Inr (_, st) \<Rightarrow>
          Inr (\<lparr>proto_name = fi_name fi, proto_unit = fi_unit fi, param_count = length (fi_params fi),
                proto_vararg = fi_vararg fi, max_stack = c_max st, uses_boxes = c_boxes st, code = c_code st,
                constants = c_consts st, upvalues = ups, child_protos = c_children st,
                lineinfo = replicate (length (c_code st)) 0\<rparr>, reg_of st))"

end
