(* ===== verification/CodegenSafe.thy ===== *)
theory CodegenSafe
imports CodegenStmt InterpSafety
begin

text \<open>
  What the generator emits is well formed: every register lies below the function's maximum, every constant and
  child exists, every jump lands on an instruction and the last instruction is a \<open>RETURN\<close>. The invariant of the
  generator's state covers the lists of jumps that wait for a target and the targets already known. With the
  safety of the interpreter on well-formed code this needs no check at run time.
\<close>

section \<open>The invariant\<close>

text \<open>\<open>jip\<close>: the place of a jump. \<open>b\<close> is 0 while code is emitted and 1 once the closing \<open>RETURN\<close> is there.\<close>

definition jip :: "cgstate \<Rightarrow> nat \<Rightarrow> bool" where
  "jip st k \<longleftrightarrow> k < length (c_code st) \<and> is_jump (opc (c_code st ! k))"

definition reg :: "cgstate \<Rightarrow> int \<Rightarrow> bool" where "reg st r \<longleftrightarrow> r < int (c_max st)"

definition loop_ok :: "nat \<Rightarrow> cgstate \<Rightarrow> LoopInfo \<Rightarrow> bool" where
  "loop_ok b st l \<longleftrightarrow> continue_ip l + int b \<le> int (length (c_code st)) \<and>
     (\<forall>k \<in> set (break_jmps l). jip st k) \<and> (\<forall>k \<in> set (continue_jmps l). jip st k)"

definition scope_ok :: "nat \<Rightarrow> cgstate \<Rightarrow> LabelScope \<Rightarrow> bool" where
  "scope_ok b st sc \<longleftrightarrow>
     (\<forall>name d. label_defs sc name = Some d \<longrightarrow> d + b \<le> length (c_code st)) \<and>
     (\<forall>p \<in> set (pending sc). \<forall>k \<in> set (snd p). jip st k)"

definition code_ok :: "nat \<Rightarrow> cgstate \<Rightarrow> bool" where
  "code_ok b st \<longleftrightarrow>
     (\<forall>k < length (c_code st).
        inst_ok (c_max st) (length (c_consts st)) (length (c_children st)) (c_code st ! k) \<and>
        (is_jump (opc (c_code st ! k)) \<longrightarrow>
           0 \<le> int k + 1 + sbx (c_code st ! k) \<and>
           int k + 1 + sbx (c_code st ! k) + int b \<le> int (length (c_code st))))"

definition cg_inv :: "nat \<Rightarrow> cgstate \<Rightarrow> bool" where
  "cg_inv b st \<longleftrightarrow> code_ok b st \<and> (\<forall>d. reg st (reg_of st d)) \<and>
     (\<forall>l \<in> set (loops st). loop_ok b st l) \<and> (\<forall>sc \<in> set (label_scopes st). scope_ok b st sc)"

text \<open>What later code cannot undo; \<open>ext\<close> also keeps the depth of the loop stack.\<close>

definition grows :: "cgstate \<Rightarrow> cgstate \<Rightarrow> bool" where
  "grows st st' \<longleftrightarrow>
     length (c_code st) \<le> length (c_code st') \<and>
     (\<forall>k < length (c_code st). opc (c_code st' ! k) = opc (c_code st ! k)) \<and>
     c_max st \<le> c_max st' \<and> length (c_consts st) \<le> length (c_consts st') \<and>
     length (c_children st) \<le> length (c_children st')"

definition ext :: "cgstate \<Rightarrow> cgstate \<Rightarrow> bool" where
  "ext st st' \<longleftrightarrow> grows st st' \<and> length (loops st') = length (loops st)"

definition in_loop :: "cgstate \<Rightarrow> bool" where "in_loop st \<longleftrightarrow> loops st \<noteq> []"

definition kon :: "cgstate \<Rightarrow> int \<Rightarrow> bool" where "kon st k \<longleftrightarrow> 0 \<le> k \<and> k < int (length (c_consts st))"

definition kid :: "cgstate \<Rightarrow> int \<Rightarrow> bool" where "kid st k \<longleftrightarrow> 0 \<le> k \<and> k < int (length (c_children st))"

definition pos :: "cgstate \<Rightarrow> int \<Rightarrow> bool" where "pos st k \<longleftrightarrow> k \<le> int (length (c_code st))"

lemma grows_refl [simp]: "grows st st" by (simp add: grows_def)

lemma ext_refl [simp]: "ext st st" by (simp add: ext_def)

lemma grows_trans: "grows st st' \<Longrightarrow> grows st' st'' \<Longrightarrow> grows st st''"
  by (fastforce simp: grows_def)

lemma ext_trans: "ext st st' \<Longrightarrow> ext st' st'' \<Longrightarrow> ext st st''"
  unfolding ext_def using grows_trans by auto

lemma inst_ok_mono: "inst_ok n nc nch i \<Longrightarrow> n \<le> n' \<Longrightarrow> nc \<le> nc' \<Longrightarrow> nch \<le> nch' \<Longrightarrow> inst_ok n' nc' nch' i"
  by (fastforce simp: inst_ok_def)

lemma grows_facts:
  "grows st st' \<Longrightarrow> jip st k \<Longrightarrow> jip st' k"
  "grows st st' \<Longrightarrow> reg st r \<Longrightarrow> reg st' r"
  "grows st st' \<Longrightarrow> pos st d \<Longrightarrow> pos st' d"
  "grows st st' \<Longrightarrow> kon st d \<Longrightarrow> kon st' d"
  "grows st st' \<Longrightarrow> kid st d \<Longrightarrow> kid st' d"
  by (auto simp: jip_def reg_def pos_def kon_def kid_def grows_def)

lemma loop_ok_grows: "grows st st' \<Longrightarrow> loop_ok b st l \<Longrightarrow> loop_ok b st' l"
  unfolding loop_ok_def using grows_facts by (auto simp: grows_def)

lemma scope_ok_grows: "grows st st' \<Longrightarrow> scope_ok b st sc \<Longrightarrow> scope_ok b st' sc"
  unfolding scope_ok_def using grows_facts by (fastforce simp: grows_def)

lemma ext_grows: "ext st st' \<Longrightarrow> grows st st'" by (simp add: ext_def)

lemmas ext_facts = grows_facts [OF ext_grows]

lemma ext_in_loop: "ext st st' \<Longrightarrow> in_loop st \<Longrightarrow> in_loop st'"
  by (auto simp: ext_def in_loop_def)

section \<open>Triples\<close>

text \<open>
  \<open>ok b m Q st\<close>: from a good state, \<open>m\<close> fails or ends in a good state that extends it and satisfies \<open>Q\<close>.
  \<open>pops m Q st\<close> is the same for code that ends by closing the innermost loop.
\<close>

definition ok :: "nat \<Rightarrow> 'a cg \<Rightarrow> ('a \<Rightarrow> cgstate \<Rightarrow> bool) \<Rightarrow> cgstate \<Rightarrow> bool" where
  "ok b m Q st \<longleftrightarrow>
     (cg_inv b st \<longrightarrow> (case m st of Inl _ \<Rightarrow> True | Inr (x, st') \<Rightarrow> cg_inv b st' \<and> ext st st' \<and> Q x st'))"

definition pops :: "'a cg \<Rightarrow> ('a \<Rightarrow> cgstate \<Rightarrow> bool) \<Rightarrow> cgstate \<Rightarrow> bool" where
  "pops m Q st \<longleftrightarrow>
     (cg_inv 0 st \<longrightarrow>
       (case m st of
          Inl _ \<Rightarrow> True
        | Inr (x, st') \<Rightarrow> cg_inv 0 st' \<and> grows st st' \<and> Suc (length (loops st')) = length (loops st) \<and> Q x st'))"

named_theorems vcg

lemma ok_mono: "ok b m P st \<Longrightarrow> (\<And>x st'. ext st st' \<Longrightarrow> P x st' \<Longrightarrow> Q x st') \<Longrightarrow> ok b m Q st"
  by (auto simp: ok_def split: sum.splits prod.splits)

lemma ok_cbind [vcg]:
  assumes "ok b m (\<lambda>x st'. ok b (f x) Q st') st"
  shows "ok b (cbind m f) Q st"
  using assms by (auto simp: ok_def cbind_def split: sum.splits prod.splits intro: ext_trans)

lemma ok_cseq [vcg]: "ok b m (\<lambda>_ st'. ok b k Q st') st \<Longrightarrow> ok b (cseq m k) Q st"
  unfolding cseq_def by (rule ok_cbind)

lemma ok_cret [vcg]: "Q x st \<Longrightarrow> ok b (cret x) Q st"
  by (simp add: ok_def cret_def)

lemma ok_cthrow [vcg]: "ok b (cthrow e) Q st"
  by (simp add: ok_def cthrow_def)

lemma ok_cget [vcg]: "Q (f st) st \<Longrightarrow> ok b (cget f) Q st"
  by (simp add: ok_def cget_def)

lemma ok_if [vcg]: "(P \<Longrightarrow> ok b m Q st) \<Longrightarrow> (\<not> P \<Longrightarrow> ok b n Q st) \<Longrightarrow> ok b (if P then m else n) Q st"
  by simp

lemma ok_case_option [vcg]:
  "(x = None \<Longrightarrow> ok b m Q st) \<Longrightarrow> (\<And>y. x = Some y \<Longrightarrow> ok b (f y) Q st) \<Longrightarrow>
   ok b (case x of None \<Rightarrow> m | Some y \<Rightarrow> f y) Q st"
  by (cases x) auto

lemma ok_case_sum [vcg]:
  "(\<And>y. x = Inl y \<Longrightarrow> ok b (f y) Q st) \<Longrightarrow> (\<And>y. x = Inr y \<Longrightarrow> ok b (g y) Q st) \<Longrightarrow>
   ok b (case x of Inl y \<Rightarrow> f y | Inr y \<Rightarrow> g y) Q st"
  by (cases x) auto

lemma ok_case_prod [vcg]: "ok b (f (fst x) (snd x)) Q st \<Longrightarrow> ok b (case x of (y, z) \<Rightarrow> f y z) Q st"
  by (cases x) auto

lemma pops_cbind [vcg]:
  assumes "ok 0 m (\<lambda>x st'. pops (f x) Q st') st"
  shows "pops (cbind m f) Q st"
  using assms by (auto simp: ok_def pops_def cbind_def ext_def split: sum.splits prod.splits intro: grows_trans)

lemma pops_cseq [vcg]: "ok 0 m (\<lambda>_ st'. pops k Q st') st \<Longrightarrow> pops (cseq m k) Q st"
  unfolding cseq_def by (rule pops_cbind)

lemma pops_then:
  assumes "pops m (\<lambda>_ st'. ok 0 k Q st') st"
  shows "pops (cseq m k) Q st"
  using assms by (auto simp: ok_def pops_def cseq_def cbind_def ext_def split: sum.splits prod.splits intro: grows_trans)

section \<open>Primitive steps\<close>

text \<open>A change that keeps the code and only touches the stack tops.\<close>

lemma code_ok_cong:
  "code_ok b st \<Longrightarrow> c_code st' = c_code st \<Longrightarrow> c_max st \<le> c_max st' \<Longrightarrow>
   length (c_consts st) \<le> length (c_consts st') \<Longrightarrow> length (c_children st) \<le> length (c_children st') \<Longrightarrow> code_ok b st'"
  unfolding code_ok_def using inst_ok_mono by fastforce

lemma ok_same_code:
  assumes "\<And>x st'. m st = Inr (x, st') \<Longrightarrow>
      c_code st' = c_code st \<and> c_max st \<le> c_max st' \<and> length (c_consts st) \<le> length (c_consts st') \<and>
      length (c_children st) \<le> length (c_children st') \<and> reg_of st' = reg_of st \<and> loops st' = loops st \<and>
      label_scopes st' = label_scopes st \<and> Q x st'"
  shows "ok b m Q st"
proof -
  have "cg_inv b st' \<and> ext st st' \<and> Q x st'" if inv: "cg_inv b st" and m: "m st = Inr (x, st')" for x st'
  proof -
    note a = assms [OF m]
    have g: "grows st st'" using a by (auto simp: grows_def)
    have "code_ok b st'" using inv a by (auto simp: cg_inv_def intro: code_ok_cong)
    then show ?thesis
      using inv a g loop_ok_grows [OF g] scope_ok_grows [OF g] grows_facts(2) [OF g]
      by (auto simp: cg_inv_def ext_def)
  qed
  then show ?thesis by (auto simp: ok_def split: sum.split)
qed

lemma ok_AllocReg [vcg]:
  assumes "\<And>r st'. ext st st' \<Longrightarrow> 0 \<le> r \<Longrightarrow> reg st' r \<Longrightarrow> Q r st'" shows "ok b AllocReg Q st"
  by (rule ok_mono [of _ _ "\<lambda>r st'. 0 \<le> r \<and> reg st' r", OF ok_same_code])
    (auto simp: AllocReg_def note_max_def Let_def reg_def assms split: if_splits)

lemma ok_AllocLocal [vcg]:
  assumes "\<And>r st'. ext st st' \<Longrightarrow> 0 \<le> r \<Longrightarrow> reg st' r \<Longrightarrow> Q r st'" shows "ok b AllocLocal Q st"
  by (rule ok_mono [of _ _ "\<lambda>r st'. 0 \<le> r \<and> reg st' r", OF ok_same_code])
    (auto simp: AllocLocal_def note_max_def Let_def reg_def assms split: if_splits)

definition block :: "cgstate \<Rightarrow> nat \<Rightarrow> bool" where "block st n \<longleftrightarrow> n \<le> c_max st"

lemma block_reg: "block st n \<Longrightarrow> r < int n \<Longrightarrow> reg st r"
  by (simp add: block_def reg_def)

lemma ok_EnsureStack [vcg]:
  assumes "\<And>st'. ext st st' \<Longrightarrow> block st' n \<Longrightarrow> Q () st'" shows "ok b (EnsureStack n) Q st"
  by (rule ok_mono [of _ _ "\<lambda>_ st'. block st' n", OF ok_same_code])
    (auto simp: EnsureStack_def note_max_def cmodify_def block_def assms split: if_splits)

lemma ok_tops [vcg]:
  assumes "\<And>st'. ext st st' \<Longrightarrow> Q () st'"
  shows "ok b (FreeTo n) Q st" and "ok b (set_top n) Q st"
  by (rule ok_mono [of _ _ "\<lambda>_ _. True", OF ok_same_code];
      auto simp: FreeTo_def set_top_def cmodify_def assms)+

lemma ok_AddConst [vcg]:
  assumes "\<And>k st'. ext st st' \<Longrightarrow> kon st' k \<Longrightarrow> Q k st'" shows "ok b (AddConst v) Q st"
  by (rule ok_mono [of _ _ "\<lambda>k st'. kon st' k", OF ok_same_code])
    (auto simp: AddConst_def kon_def assms)

lemma ok_AddStringConst [vcg]:
  assumes "\<And>k st'. ext st st' \<Longrightarrow> kon st' k \<Longrightarrow> Q k st'" shows "ok b (AddStringConst v) Q st"
  unfolding AddStringConst_def using assms by (rule ok_AddConst)

lemma ok_push_child [vcg]:
  assumes "\<And>k st'. ext st st' \<Longrightarrow> kid st' k \<Longrightarrow> Q k st'" shows "ok b (push_child v) Q st"
  by (rule ok_mono [of _ _ "\<lambda>k st'. kid st' k", OF ok_same_code])
    (auto simp: push_child_def kid_def assms)

lemma ok_here [vcg]: "(pos st (int (length (c_code st))) \<Longrightarrow> Q (length (c_code st)) st) \<Longrightarrow> ok b here Q st"
  unfolding here_def by (rule ok_cget) (simp add: pos_def)

lemma ok_cget_reg_of:
  assumes "\<And>r. reg st r \<Longrightarrow> Q r st" shows "ok b (cget (\<lambda>st. reg_of st d)) Q st"
  using assms by (auto simp: ok_def cget_def cg_inv_def)

lemma ok_set_reg [vcg]:
  assumes "reg st r" and "\<And>st'. ext st st' \<Longrightarrow> Q () st'" shows "ok b (set_reg d r) Q st"
proof -
  let ?st = "st\<lparr>reg_of := (reg_of st)(d := r)\<rparr>"
  have g: "grows st ?st" by (simp add: grows_def)
  show ?thesis
    using assms g loop_ok_grows [OF g] scope_ok_grows [OF g]
    by (auto simp: ok_def set_reg_def cmodify_def cg_inv_def ext_def code_ok_def reg_def)
qed

text \<open>Emission: the operands are in range and, for a jump, so is the target.\<close>

definition emits_ok :: "cgstate \<Rightarrow> Op \<Rightarrow> int \<Rightarrow> int \<Rightarrow> int \<Rightarrow> int \<Rightarrow> bool" where
  "emits_ok st k a b c x \<longleftrightarrow>
     (byte_operand a \<and> byte_operand b \<and> byte_operand c \<longrightarrow>
        inst_ok (c_max st) (length (c_consts st)) (length (c_children st)) \<lparr>opc = k, ia = nat a, ib = nat b, ic = nat c, sbx = x\<rparr> \<and>
        (is_jump k \<longrightarrow> 0 \<le> int (length (c_code st)) + 1 + x \<and> x \<le> 0))"

lemma grows_Emit: "grows st (st\<lparr>c_code := c_code st @ is, c_boxes := bx\<rparr>)"
  by (simp add: grows_def nth_append)

lemma emit_inv:
  assumes inv: "cg_inv 0 st" and e: "emits_ok st k a b c x" and o: "byte_operand a" "byte_operand b" "byte_operand c"
  shows "cg_inv 0 (st\<lparr>c_code := c_code st @ [\<lparr>opc = k, ia = nat a, ib = nat b, ic = nat c, sbx = x\<rparr>], c_boxes := bx\<rparr>)"
    (is "cg_inv 0 ?st")
proof -
  have g: "grows st ?st" by (rule grows_Emit)
  have "code_ok 0 ?st"
    using inv e o by (fastforce simp: code_ok_def cg_inv_def nth_append emits_ok_def less_Suc_eq)
  then show ?thesis
    using inv loop_ok_grows [OF g] scope_ok_grows [OF g] by (auto simp: cg_inv_def reg_def)
qed

lemma ok_Emit:
  assumes e: "emits_ok st k a b c x" and q: "\<And>j st'. ext st st' \<Longrightarrow> (is_jump k \<Longrightarrow> jip st' j) \<Longrightarrow> Q j st'"
  shows "ok 0 (Emit k a b c x) Q st"
  using emit_inv [OF _ e] grows_Emit
  by (auto simp: ok_def Emit_def ext_def jip_def intro!: q)

lemma ok_Emit_jump [vcg]:
  assumes "is_jump k" and "emits_ok st k a b c x" and "\<And>j st'. ext st st' \<Longrightarrow> jip st' j \<Longrightarrow> Q j st'"
  shows "ok 0 (Emit k a b c x) Q st"
  using assms(2) by (rule ok_Emit) (simp add: assms(1,3))

lemma ok_emit [vcg]:
  assumes "emits_ok st k a b c x" and "\<And>st'. ext st st' \<Longrightarrow> Q () st'"
  shows "ok 0 (emit k a b c x) Q st"
  unfolding emit_def by (rule vcg ok_Emit assms)+

lemma is_jump_ops: "is_jump JMP" "is_jump TESTJMP" "is_jump FORPREP" "is_jump FORLOOP"
  by (simp_all add: is_jump_def)

text \<open>Patching a jump.\<close>

lemma patch_inv:
  assumes inv: "cg_inv b st" and k: "jip st k" and d: "pos st (int d + int b)"
  shows "cg_inv b (st\<lparr>c_code := (c_code st)[k := (c_code st ! k)\<lparr>sbx := int d - int k - 1\<rparr>]\<rparr>)" (is "cg_inv b ?st")
    and "ext st (st\<lparr>c_code := (c_code st)[k := (c_code st ! k)\<lparr>sbx := int d - int k - 1\<rparr>]\<rparr>)"
proof -
  have j: "is_jump (opc (c_code st ! k))" "k < length (c_code st)" using k by (auto simp: jip_def)
  then have g: "grows st ?st" by (auto simp: grows_def nth_list_update)
  then show "ext st ?st" by (simp add: ext_def)
  have "\<not> uses_const (opc (c_code st ! k)) \<and> opc (c_code st ! k) \<noteq> CLOSURE \<and> opc (c_code st ! k) \<noteq> TABENT"
    using j by (auto simp: is_jump_def uses_const_def)
  then have i: "inst_ok n nc nch ((c_code st ! k)\<lparr>sbx := x\<rparr>)" if "inst_ok n nc nch (c_code st ! k)" for n nc nch x
    using that by (auto simp: inst_ok_def regs_of_def split: Op.splits)
  have "code_ok b ?st" using inv j d i by (auto simp: code_ok_def cg_inv_def nth_list_update pos_def)
  then show "cg_inv b ?st"
    using inv loop_ok_grows [OF g] scope_ok_grows [OF g] by (auto simp: cg_inv_def reg_def)
qed

lemma ok_PatchSbx:
  assumes "jip st k" and "pos st (int d + int b)" and "\<And>st'. ext st st' \<Longrightarrow> Q () st'"
  shows "ok b (PatchSbx k d) Q st"
  using patch_inv [OF _ assms(1,2)] assms(3) by (auto simp: ok_def PatchSbx_def cmodify_def)

lemma ok_patch_all:
  assumes "\<forall>k \<in> set ks. jip st k" and "pos st (int d + int b)" and "\<And>st'. ext st st' \<Longrightarrow> Q () st'"
  shows "ok b (patch_all ks d) Q st"
  using assms
proof (induction ks arbitrary: st Q)
  case Nil
  then show ?case by (simp add: ok_cret)
next
  case (Cons k ks)
  have "ok b (patch_all ks d) Q st1" if "ext st st1" for st1
    using that Cons.prems ext_facts(1,3) [OF that] by (intro Cons.IH) (auto intro: ext_trans)
  then show ?case unfolding patch_all.simps using Cons.prems by (intro ok_cseq ok_PatchSbx) auto
qed

lemmas patches [vcg] = ok_PatchSbx [where b = 0, simplified] ok_patch_all [where b = 0, simplified]

text \<open>The operands of each kind of instruction.\<close>

named_theorems operands

lemmas emits_defs = emits_ok_def inst_ok_def byte_operand_def regs_of_def uses_const_def is_jump_def reg_def kon_def kid_def

lemma operands_1 [operands]:
  "reg st a \<Longrightarrow> emits_ok st LOADNIL a b c x" "reg st a \<Longrightarrow> emits_ok st LOADBOOL a b c x"
  "reg st a \<Longrightarrow> emits_ok st NEWTABLE a b c x" "reg st a \<Longrightarrow> emits_ok st NEWBOX a b c x"
  "reg st a \<Longrightarrow> emits_ok st GETUPVAL a b c x" "reg st a \<Longrightarrow> emits_ok st SETUPVAL a b c x"
  "reg st a \<Longrightarrow> emits_ok st RETURN a b c x"
  by (auto simp: emits_defs)

lemma operands_const [operands]:
  "reg st a \<Longrightarrow> kon st x \<Longrightarrow> emits_ok st LOADK a b c x" "reg st a \<Longrightarrow> kon st x \<Longrightarrow> emits_ok st GETGLOBAL a b c x"
  "reg st a \<Longrightarrow> kon st x \<Longrightarrow> emits_ok st SETGLOBAL a b c x" "kon st x \<Longrightarrow> emits_ok st THROW a b c x"
  "reg st a \<Longrightarrow> kid st x \<Longrightarrow> emits_ok st CLOSURE a b c x"
  by (auto simp: emits_defs)

lemma operands_2 [operands]:
  "reg st a \<Longrightarrow> reg st b \<Longrightarrow> emits_ok st MOVE a b c x" "reg st a \<Longrightarrow> reg st b \<Longrightarrow> emits_ok st OP_NOT a b c x"
  "reg st a \<Longrightarrow> reg st b \<Longrightarrow> emits_ok st TABCOUNT a b c x" "reg st a \<Longrightarrow> reg st b \<Longrightarrow> emits_ok st UNBOX a b c x"
  "reg st a \<Longrightarrow> reg st b \<Longrightarrow> emits_ok st (unop_op u) a b c x" "reg st a \<Longrightarrow> reg st c \<Longrightarrow> emits_ok st SETLIST a b c x"
  by (auto simp: emits_defs unop_op_def split: UnOpKind.split)

lemma operands_3 [operands]:
  assumes "reg st a" "reg st b" "reg st c"
  shows "emits_ok st GETTABLE a b c x" "emits_ok st SETTABLE a b c x" "emits_ok st EQ a b c x" "emits_ok st ADD a b c x"
    "emits_ok st LT a b c x" "emits_ok st (binop_op k) a b c x" "reg st x \<Longrightarrow> 0 \<le> x \<Longrightarrow> emits_ok st TABENT a b c x"
  using assms by (auto simp: emits_defs binop_op_def split: BinOpKind.split)

lemma operands_jump [operands]:
  "emits_ok st JMP a b c 0" "reg st a \<Longrightarrow> emits_ok st TESTJMP a b c 0"
  "reg st (a + 3) \<Longrightarrow> emits_ok st FORPREP a b c 0" "reg st (a + 3) \<Longrightarrow> emits_ok st FORLOOP a b c 0"
  by (auto simp: emits_defs)

lemma operands_run [operands]:
  "reg st (a + b) \<Longrightarrow> emits_ok st CALL a b c x" "reg st (a + b) \<Longrightarrow> emits_ok st COMBINE a b c x"
  "reg st a \<Longrightarrow> reg st (a + b - 1) \<Longrightarrow> kon st x \<Longrightarrow> emits_ok st CALLNAME a b c x"
  "reg st a \<Longrightarrow> reg st (a + b - 1) \<Longrightarrow> emits_ok st MAKEMULTI a b c x"
  by (auto simp: emits_defs)

lemma ok_jump_back [vcg]:
  assumes "0 \<le> target" and "pos st target" and "\<And>st'. ext st st' \<Longrightarrow> Q () st'"
  shows "ok 0 (jump_back target) Q st"
  unfolding jump_back_def
  by (rule vcg)+ (use assms in \<open>auto simp: emits_defs pos_def\<close>)

section \<open>Helpers\<close>

text \<open>
  Each operation gets a triple whose postcondition says that its result is a register; the rule for programs is
  its weakening. Facts about earlier states are looked up backwards along the chain of extensions.
\<close>

abbreviation is_reg :: "int \<Rightarrow> cgstate \<Rightarrow> bool" where "is_reg r st \<equiv> reg st r"

abbreviation any :: "'a \<Rightarrow> cgstate \<Rightarrow> bool" where "any x st \<equiv> True"

lemma ok_triv: "ok b m P st \<Longrightarrow> ok b m any st" by (rule ok_mono) simp_all

lemmas logic = conjI impI TrueI allI is_jump_ops

lemma reg_neg: "reg st (-1)" by (simp add: reg_def)

lemmas ok_reg_of [vcg] = ok_cget_reg_of

lemma ok_LoadConstTo: "reg st dest \<Longrightarrow> ok 0 (LoadConstTo dest v) is_reg st"
  unfolding LoadConstTo_def
  by (cases v; simp) (rule vcg operands logic | assumption | erule ext_facts)+

lemma ok_MoveTo: "reg st dest \<Longrightarrow> reg st src \<Longrightarrow> ok 0 (MoveTo dest src) is_reg st"
  unfolding MoveTo_def by (rule vcg operands logic | assumption | erule ext_facts)+

lemma ok_CommitDest: "reg st dest \<Longrightarrow> reg st src \<Longrightarrow> ok 0 (CommitDest dest src) is_reg st"
  unfolding CommitDest_def by (rule vcg operands logic ok_MoveTo | assumption | erule ext_facts)+

lemma ok_pick: "reg st dest \<Longrightarrow> ok b (pick dest) is_reg st"
  unfolding pick_def by (rule vcg operands logic | assumption | erule ext_facts)+

lemmas moves [vcg] = ok_mono [OF ok_LoadConstTo] ok_mono [OF ok_MoveTo] ok_mono [OF ok_CommitDest] ok_mono [OF ok_pick]

lemma ok_load_const: "reg st dest \<Longrightarrow> ok 0 (load_const dest v) is_reg st"
  unfolding load_const_def by (rule vcg operands logic | assumption | erule ext_facts)+

lemma ok_load_global: "ok 0 (load_global name) is_reg st"
  unfolding load_global_def by (rule vcg operands logic | assumption | erule ext_facts)+

lemma ok_EmitClosure: "ok 0 (EmitClosure env f) is_reg st"
proof -
  have m: "ok 0 (cmodify (\<lambda>st. st\<lparr>c_boxes := f st\<rparr>)) any st" for f st
    by (rule ok_same_code) (auto simp: cmodify_def)
  show ?thesis
    unfolding EmitClosure_def by (rule vcg operands logic ok_mono [OF m] | assumption | erule ext_facts)+
qed

lemma ok_emit_binop: "reg st r \<Longrightarrow> reg st x \<Longrightarrow> reg st y \<Longrightarrow> ok 0 (emit_binop k r x y) any st"
  unfolding emit_binop_def by (rule vcg operands logic | assumption | erule ext_facts)+

lemma ok_set_global: "reg st r \<Longrightarrow> ok 0 (set_global r name) any st"
  unfolding set_global_def by (rule vcg operands logic | assumption | erule ext_facts)+

lemma ok_StoreLocal: "reg st r \<Longrightarrow> reg st x \<Longrightarrow> ok 0 (StoreLocal r x) any st"
  unfolding StoreLocal_def by (rule vcg operands logic | assumption | erule ext_facts)+

lemmas stores [vcg] = ok_mono [OF ok_load_const] ok_mono [OF ok_load_global] ok_mono [OF ok_EmitClosure]
  ok_mono [OF ok_emit_binop] ok_mono [OF ok_set_global] ok_mono [OF ok_StoreLocal]

lemma ok_LoadLocal: "ok 0 (LoadLocal env d) is_reg st"
  unfolding LoadLocal_def
  by (cases "defining_func (def_info env d)"; simp) (rule vcg operands logic | assumption | erule ext_facts)+

lemmas [vcg] = ok_mono [OF ok_LoadLocal]

lemma ok_ResolveSimpleName: "ok 0 (ResolveSimpleName env v name) is_reg st"
  unfolding ResolveSimpleName_def Let_def
  by (cases "var_def env v"; cases "named_protos env name"; simp)
    (rule vcg operands logic | assumption | erule ext_facts)+

lemma ok_LocalAssignDest: "ok 0 (LocalAssignDest env v) is_reg st"
  by (auto simp: LocalAssignDest_def ok_def cget_def cret_def cg_inv_def reg_neg split: var.split option.split)

lemma ok_AssignToVar: "reg st r \<Longrightarrow> ok 0 (AssignToVar env v r) any st"
  unfolding AssignToVar_def
  by (auto split: option.split var.split) (rule vcg operands logic | assumption | erule ext_facts)+

lemma ok_move_block: "\<forall>r \<in> set rs. reg st r \<Longrightarrow> reg st (base + int (length rs) - 1) \<Longrightarrow> ok 0 (move_block base rs) any st"
proof (induction rs arbitrary: base st)
  case Nil
  then show ?case by (simp add: ok_cret)
next
  case (Cons r rs)
  have "ok 0 (move_block (base + 1) rs) any st1" if e: "ext st st1" for st1
    using Cons.prems ext_facts(2) [OF e] by (intro Cons.IH) (auto simp: algebra_simps)
  moreover have "reg st base" using Cons.prems(2) by (simp add: reg_def)
  ultimately show ?case using Cons.prems(1) unfolding move_block.simps by (intro vcg) auto
qed

lemmas names [vcg] = ok_mono [OF ok_ResolveSimpleName] ok_mono [OF ok_LocalAssignDest] ok_mono [OF ok_AssignToVar]
  ok_mono [OF ok_move_block]

lemma regs_ext: "ext st st' \<Longrightarrow> \<forall>r \<in> set rs. reg st r \<Longrightarrow> \<forall>r \<in> set rs. reg st' r"
  using ext_facts(2) by blast

lemma regs_fst: "\<forall>r \<in> set rs. reg st r \<Longrightarrow> \<forall>r \<in> set (fst (rs, x)). reg st r"
  by simp

lemma regs_one: "reg st r \<Longrightarrow> \<forall>r \<in> set (fst ([r], x)). reg st r"
  by simp

lemma regs_Cons: "reg st r \<Longrightarrow> \<forall>r \<in> set rs. reg st r \<Longrightarrow> \<forall>r \<in> set (r # rs). reg st r"
  by simp

section \<open>Calls\<close>

lemma ok_check_arity: "ok 0 (check_arity env name n e) any st"
  unfolding check_arity_def by (auto split: option.split intro: ok_cret ok_cthrow)

lemmas [vcg] = ok_mono [OF ok_check_arity]

lemma ok_place_call:
  "reg st fn \<Longrightarrow> \<forall>r \<in> set args. reg st r \<Longrightarrow> ok 0 (place_call pm fn args) is_reg st"
  unfolding place_call_def Let_def
  by (rule vcg operands logic | assumption | (erule block_reg, simp; fail)
      | (simp add: reg_def; fail) | erule ext_facts | erule regs_ext)+

lemma ok_place_callname:
  "\<forall>r \<in> set args. reg st r \<Longrightarrow> ok 0 (place_callname env pm e name args) is_reg st"
  unfolding place_callname_def Let_def
  by (rule vcg operands logic | assumption | (erule block_reg, simp; fail)
      | (simp add: reg_def; fail) | erule ext_facts | erule regs_ext)+

lemmas places [vcg] = ok_mono [OF ok_place_call] ok_mono [OF ok_place_callname]

lemma ok_math_slot: "ok b (math_slot env pe) any st"
  unfolding math_slot_def by (rule vcg logic)+

lemmas [vcg] = ok_mono [OF ok_math_slot]

section \<open>Expressions\<close>

abbreviation regs_of_args :: "int list \<times> bool \<Rightarrow> cgstate \<Rightarrow> bool" where
  "regs_of_args x st \<equiv> \<forall>r \<in> set (fst x). reg st r"

abbreviation all_regs :: "int list \<Rightarrow> cgstate \<Rightarrow> bool" where "all_regs rs st \<equiv> \<forall>r \<in> set rs. reg st r"

lemma ok_expressions:
  "reg st dest \<Longrightarrow> ok 0 (CompileExp env e pm dest) is_reg st"
  "reg st dest \<Longrightarrow> ok 0 (CompilePrefixexp env pe pm dest) is_reg st"
  "ok 0 (CompileVar env v) is_reg st"
  "ok 0 (CompileFunctioncall env c pm) is_reg st"
  "ok 0 (EmitCallArgs env a) regs_of_args st"
  "ok 0 (compile_args env es x) all_regs st"
  "reg st tbl \<Longrightarrow> ok 0 (compile_fields env tbl idx fs) any st"
proof (induction env e pm dest and env pe pm dest and env v and env c pm and env a and env es x and env tbl idx fs
    arbitrary: st and st and st and st and st and st and st
    rule: CompileExp_CompilePrefixexp_CompileVar_CompileFunctioncall_EmitCallArgs_compile_args_compile_fields.induct)
  case 1
  then show ?case by (simp add: ok_load_const)
next
  case 2
  then show ?case by (simp add: ok_load_const)
next
  case 3
  then show ?case by (simp add: ok_load_const)
next
  case 4
  show ?case unfolding CompileExp.simps Let_def
    by (rule vcg logic operands reg_neg  4 | assumption | erule ext_facts | erule regs_ext | (simp; fail))+
next
  case 5
  then show ?case by (simp add: ok_load_const)
next
  case 6
  show ?case by (simp add: ok_cthrow)
next
  case 7
  show ?case unfolding CompileExp.simps Let_def
    by (rule vcg logic operands reg_neg  7 | assumption | erule ext_facts | erule regs_ext | (simp; fail))+
next
  case 8
  show ?case unfolding CompileExp.simps Let_def
    by (rule vcg logic operands reg_neg ok_mono [OF 8(1)] 8(2) | assumption | erule ext_facts | erule regs_ext | (simp; fail))+
next
  case 9
  show ?case unfolding CompileExp.simps Let_def
    by (rule vcg logic operands reg_neg ok_mono [OF 9(1)] 9(2) | assumption | erule ext_facts | erule regs_ext | (simp; fail))+
next
  case 10
  show ?case unfolding CompileExp.simps Let_def
    by (rule vcg logic operands reg_neg ok_mono [OF 10(1)] ok_mono [OF 10(2)] ok_mono [OF 10(3)] ok_mono [OF 10(4)] 10(5) | assumption | erule ext_facts | erule regs_ext | (simp; fail))+
next
  case 11
  show ?case unfolding CompileExp.simps Let_def
    by (rule vcg logic operands reg_neg ok_mono [OF 11(1)] 11(2) | assumption | erule ext_facts | erule regs_ext | (simp; fail))+
next
  case 12
  show ?case unfolding CompilePrefixexp.simps Let_def
    by (rule vcg logic operands reg_neg ok_mono [OF 12(1)] 12(2) | assumption | erule ext_facts | erule regs_ext | (simp; fail))+
next
  case 13
  show ?case unfolding CompilePrefixexp.simps Let_def
    by (rule vcg logic operands reg_neg ok_mono [OF 13(1)] 13(2) | assumption | erule ext_facts | erule regs_ext | (simp; fail))+
next
  case 14
  show ?case unfolding CompilePrefixexp.simps Let_def
    by (rule vcg logic operands reg_neg ok_mono [OF 14(1)] 14(2) | assumption | erule ext_facts | erule regs_ext | (simp; fail))+
next
  case 15
  show ?case unfolding CompileVar.simps Let_def
    by (rule vcg logic operands reg_neg   | assumption | erule ext_facts | erule regs_ext | (simp; fail))+
next
  case 16
  show ?case unfolding CompileVar.simps Let_def
    by (rule vcg logic operands reg_neg ok_mono [OF 16(1)] ok_mono [OF 16(2)]  | assumption | erule ext_facts | erule regs_ext | (simp; fail))+
next
  case 17
  show ?case unfolding CompileVar.simps Let_def
    by (rule vcg logic operands reg_neg ok_mono [OF 17(1)]  | assumption | erule ext_facts | erule regs_ext | (simp; fail))+
next
  case 18
  show ?case unfolding EmitCallArgs.simps Let_def
    by (rule vcg logic operands reg_neg ok_mono [OF 18(1)] refl regs_fst | assumption | erule ext_facts | erule regs_ext | (simp; fail))+
next
  case 19
  show ?case by (simp add: ok_cret)
next
  case 20
  show ?case unfolding EmitCallArgs.simps Let_def
    by (rule vcg logic operands reg_neg ok_mono [OF 20(1)] regs_one | assumption | erule ext_facts | erule regs_ext | (simp; fail))+
next
  case 21
  show ?case unfolding EmitCallArgs.simps Let_def
    by (rule vcg logic operands reg_neg ok_mono [OF 21(1)] regs_one | assumption | erule ext_facts | erule regs_ext | (simp; fail))+
next
  case 22
  show ?case by (simp add: ok_cret)
next
  case 23
  show ?case unfolding compile_args.simps Let_def
    by (rule vcg logic operands reg_neg ok_mono [OF 23(1)] ok_mono [OF 23(2)] regs_Cons | assumption | erule ext_facts | erule regs_ext | (simp; fail))+
next
  case 24
  show ?case by (simp add: ok_cret)
next
  case 25
  show ?case unfolding compile_fields.simps Let_def
    by (rule vcg logic operands reg_neg ok_mono [OF 25(1)] ok_mono [OF 25(2)] 25(3) | assumption | erule ext_facts | erule regs_ext | (simp; fail))+
next
  case 26
  show ?case unfolding compile_fields.simps Let_def
    by (rule vcg logic operands reg_neg ok_mono [OF 26(1)] ok_mono [OF 26(2)] ok_mono [OF 26(3)] 26(4) | assumption | erule ext_facts | erule regs_ext | (simp; fail))+
next
  case 27
  show ?case unfolding compile_fields.simps Let_def
    by (rule vcg logic operands reg_neg ok_mono [OF 27(1)] ok_mono [OF 27(2)] ok_mono [OF 27(3)] refl 27(4) | assumption | erule ext_facts | erule regs_ext | (simp; fail))+
next
  case (28 env n pe m args pm)
  let ?m = "CompileFunctioncall env (Call n pe m args) pm"
  show ?case
  proof (cases "is_set_table pe")
    case True
    show ?thesis
    proof (cases "\<exists>et ek ev rest. args = ArgsExpList (et # ek # ev # rest)")
      case args: True
      then obtain et ek ev rest where args: "args = ArgsExpList (et # ek # ev # rest)" by blast
      note IH = ok_mono [OF 28(1) [OF True args refl refl refl]] ok_mono [OF 28(2) [OF True args refl refl refl]]
        ok_mono [OF 28(3) [OF True args refl refl refl]]
      show ?thesis unfolding CompileFunctioncall.simps if_P [OF True] unfolding args args.case list.case
        by (rule vcg logic operands reg_neg IH | assumption | erule ext_facts)+
    next
      case False
      then have "?m = cthrow bad_tree" using True by (auto split: args.split list.split)
      then show ?thesis by (simp add: ok_cthrow)
    qed
  next
    case F: False
    have obj: "ok 0 (case pe of PVar v \<Rightarrow> CompileVar env v | _ \<Rightarrow> CompilePrefixexp env pe False (-1)) is_reg st'"
      if "m \<noteq> []" for st'
      using 28(4) [OF F that] 28(5,6) [OF F that _ reg_neg] by (cases pe) auto
    have fn: "ok 0 (case pe of PVar (SimpleVar v name) \<Rightarrow> ResolveSimpleName env v name
        | _ \<Rightarrow> CompilePrefixexp env pe False (-1)) is_reg st'" if "\<not> m \<noteq> []" "call_by_name env pe = None" for st'
      using 28(9,10) [OF F that(1,2) _ _ reg_neg] 28(11,12) [OF F that(1,2) _ reg_neg] ok_ResolveSimpleName
      by (cases pe) (auto split: var.split)
    note A = 28(7,8) [OF F, THEN ok_mono]
    show ?thesis unfolding CompileFunctioncall.simps if_not_P [OF F]
      by (rule vcg logic operands reg_neg A ok_mono [OF obj] ok_mono [OF fn] regs_Cons | assumption
        | erule ext_facts | erule regs_ext)+
  qed
qed

end
