(* ===== verification/CodegenSafeStmt.thy ===== *)
theory CodegenSafeStmt
imports CodegenSafe
begin

text \<open>
  The invariant of the generator's state through statements and whole functions, and what follows for execution:
  a function that \<open>CompileFunction\<close> returns is \<open>proto_ok\<close>, so the interpreter stays inside its code and its frame.
\<close>

section \<open>Simple statements\<close>

lemmas exps [vcg] = ok_expressions(1-2) [THEN ok_mono] ok_expressions(3-6) [THEN ok_mono]

lemma ok_load_nil: "ok 0 load_nil any st"
  unfolding load_nil_def by (rule vcg logic operands | assumption | erule ext_facts)+

lemma length_compile_args: "compile_args env es x st = Inr (rs, st') \<Longrightarrow> length rs = length es"
proof (induction es arbitrary: rs st st')
  case (Cons e es)
  then show ?case by (fastforce simp: cbind_def cret_def split: sum.splits prod.splits)
qed (simp add: cret_def)

lemma ok_compile_args: "ok 0 (compile_args env es x) (\<lambda>rs st'. all_regs rs st' \<and> length rs = length es) st"
  using ok_expressions(6) [of env es x st] length_compile_args [of env es x st]
  by (auto simp: ok_def split: sum.splits)

lemma ok_CompileStmtReturn: "ok 0 (CompileStmtReturn env es) any st"
proof -
  consider "es = []" | e where "es = [e]" | e e' es' where "es = e # e' # es'"
    by (cases es; cases "tl es") auto
  then show ?thesis
  proof cases
    case 3
    show ?thesis unfolding 3 CompileStmtReturn_def list.case Let_def
      by (rule ok_compile_args [THEN ok_mono] vcg logic operands reg_neg | erule conjE | assumption | (erule block_reg, simp; fail) | erule ext_facts | erule regs_ext)+
  qed (auto simp: CompileStmtReturn_def ok_load_nil,
      (rule vcg logic operands reg_neg | assumption | erule ext_facts)+)
qed

lemma ok_def_at [vcg]: "(\<And>d. Q d st) \<Longrightarrow> ok b (def_at env s name) Q st"
  unfolding def_at_def by (rule vcg | assumption | simp)+

lemma ok_new_box: "ok 0 (new_box env d) any st"
  unfolding new_box_def by (rule vcg logic operands | assumption | erule ext_facts)+

lemma ok_local_slot: "ok 0 (local_slot d) any st"
  unfolding local_slot_def by (rule vcg logic operands | assumption | erule ext_facts)+

lemma ok_store_def: "reg st r \<Longrightarrow> ok 0 (store_def env d name r) any st"
  unfolding store_def_def by (rule vcg logic operands | assumption | erule ext_facts)+

lemmas [vcg] = ok_mono [OF ok_new_box] ok_mono [OF ok_local_slot] ok_mono [OF ok_store_def] ok_mono [OF ok_load_nil]

lemma ok_declare_locals: "ok 0 (declare_locals env s names) any st"
proof (induction names arbitrary: st)
  case (Cons n names)
  show ?case unfolding declare_locals.simps
    by (rule vcg logic operands reg_neg ok_mono [OF Cons.IH] | assumption | erule ext_facts)+
qed (simp add: ok_cret)

lemma ok_store_first: "ok 0 (store_first env nds es) any st"
proof (induction env nds es arbitrary: st rule: store_first.induct)
  case (1 env name d nds e e' es)
  show ?case unfolding store_first.simps
    by (rule vcg logic operands reg_neg ok_mono [OF 1] | assumption | erule ext_facts)+
qed (simp_all add: ok_cret)

lemma ok_store_unboxed: "reg st callr \<Longrightarrow> ok 0 (store_unboxed env callr k nds) any st"
proof (induction env callr k nds arbitrary: st rule: store_unboxed.induct)
  case (2 env callr k name d nds)
  show ?case unfolding store_unboxed.simps
    by (rule vcg logic operands reg_neg ok_mono [OF 2(1)] 2(2) | assumption | erule ext_facts)+
qed (simp add: ok_cret)

lemma ok_reg_or_none [vcg]:
  assumes "\<And>r. reg st r \<Longrightarrow> Q r st" shows "ok b (cget (\<lambda>st. if P then -1 else reg_of st d)) Q st"
  using assms reg_neg by (auto simp: ok_def cget_def cg_inv_def)

lemma ok_case_list:
  "(xs = [] \<Longrightarrow> ok b m Q st) \<Longrightarrow> (\<And>y ys. xs = y # ys \<Longrightarrow> ok b (f y ys) Q st) \<Longrightarrow>
   ok b (case xs of [] \<Rightarrow> m | y # ys \<Rightarrow> f y ys) Q st"
  by (cases xs) auto

lemma ok_store_each: "ok 0 (store_each env nds es) any st"
proof (induction env nds es arbitrary: st rule: store_each.induct)
  case (2 env e es)
  show ?case unfolding store_each.simps
    by (rule vcg logic operands reg_neg ok_mono [OF 2] | assumption | erule ext_facts)+
next
  case (3 env name d nds es)
  show ?case unfolding store_each.simps
    by (rule ok_reg_or_none ok_case_list vcg logic operands reg_neg ok_mono [OF 3] | assumption | erule ext_facts)+
qed (simp add: ok_cret)

lemmas [vcg] = ok_mono [OF ok_declare_locals] ok_mono [OF ok_store_first] ok_mono [OF ok_store_unboxed]
  ok_mono [OF ok_store_each]

lemma ok_CompileStmtLocalVar: "ok 0 (CompileStmtLocalVar env s names es) any st"
  unfolding CompileStmtLocalVar_def Let_def by (rule vcg logic operands reg_neg | assumption | erule ext_facts)+

lemma ok_CompileStmtAssign: "ok 0 (CompileStmtAssign env v e) any st"
  unfolding CompileStmtAssign_def by (rule vcg logic operands reg_neg | assumption | erule ext_facts)+

lemma ok_CompileStmtLocalFunction: "ok 0 (CompileStmtLocalFunction env s name) any st"
  unfolding CompileStmtLocalFunction_def by (rule vcg logic operands reg_neg | assumption | erule ext_facts)+

section \<open>Loops\<close>

lemma jips_ext: "ext st st' \<Longrightarrow> \<forall>k \<in> set ks. jip st k \<Longrightarrow> \<forall>k \<in> set ks. jip st' k"
  using ext_facts(1) by blast

lemma jips_Cons: "jip st k \<Longrightarrow> \<forall>k \<in> set ks. jip st k \<Longrightarrow> \<forall>k \<in> set (k # ks). jip st k"
  by simp

text \<open>A change of the loop stack.\<close>

lemma loops_inv:
  assumes "cg_inv b st" and "\<forall>l \<in> set ls. loop_ok b st l"
  shows "cg_inv b (st\<lparr>loops := ls\<rparr>)" and "grows st (st\<lparr>loops := ls\<rparr>)"
  using assms by (auto simp: cg_inv_def code_ok_def loop_ok_def scope_ok_def jip_def reg_def grows_def)

lemma ok_push_loop:
  assumes c: "pos st c" and rest: "\<And>st'. grows st st' \<Longrightarrow> in_loop st' \<Longrightarrow> pops rest Q st'"
  shows "ok 0 (cseq (push_loop c) rest) Q st"
proof -
  let ?l = "\<lparr>continue_ip = c, break_jmps = [], continue_jmps = []\<rparr>"
  have "cg_inv 0 (st\<lparr>loops := ?l # loops st\<rparr>)" if "cg_inv 0 st"
    using that c by (intro loops_inv) (auto simp: cg_inv_def loop_ok_def pos_def)
  moreover have "pops rest Q (st\<lparr>loops := ?l # loops st\<rparr>)"
    by (rule rest) (auto simp: grows_def in_loop_def)
  ultimately show ?thesis
    by (auto simp: ok_def pops_def cseq_def cbind_def push_loop_def cmodify_def ext_def grows_def
        split: sum.splits prod.splits)
qed

text \<open>The innermost loop.\<close>

lemma innermost:
  "in_loop st \<Longrightarrow> cg_inv b st \<Longrightarrow> loop_ok b st (hd (loops st))" "cg_inv b st \<Longrightarrow> \<forall>l \<in> set (tl (loops st)). loop_ok b st l"
  by (cases "loops st"; simp add: in_loop_def cg_inv_def)+

lemma pops_pop_loop: "in_loop st \<Longrightarrow> pops pop_loop any st"
  using loops_inv [OF _ innermost(2)] by (auto simp: pops_def pop_loop_def cmodify_def in_loop_def)

lemma ok_cget_loop [vcg]:
  assumes "in_loop st"
    and "\<And>l. \<forall>k \<in> set (break_jmps l). jip st k \<Longrightarrow> \<forall>k \<in> set (continue_jmps l). jip st k \<Longrightarrow> Q l st"
  shows "ok 0 (cget (\<lambda>st. hd (loops st))) Q st"
  using assms innermost(1) [of st 0] by (auto simp: ok_def cget_def loop_ok_def)

lemma ok_cget_jmps [vcg]:
  assumes "in_loop st" and "\<And>ks. \<forall>k \<in> set ks. jip st k \<Longrightarrow> Q ks st"
  shows "ok 0 (cget (\<lambda>st. break_jmps (hd (loops st)))) Q st"
    and "ok 0 (cget (\<lambda>st. continue_jmps (hd (loops st)))) Q st"
  using assms innermost(1) [of st 0] by (auto simp: ok_def cget_def loop_ok_def)

lemma ok_cget_cont [vcg]:
  assumes "in_loop st" and "\<And>c. pos st (int (nat c)) \<Longrightarrow> Q c st"
  shows "ok 0 (cget (\<lambda>st. continue_ip (hd (loops st)))) Q st"
  using assms innermost(1) [of st 0] by (auto simp: ok_def cget_def loop_ok_def pos_def)

lemma ok_mark_continue:
  assumes "in_loop st" and "pos st (int h)" and "\<And>st'. ext st st' \<Longrightarrow> Q () st'"
  shows "ok 0 (cmodify (\<lambda>st. st\<lparr>loops := (hd (loops st))\<lparr>continue_ip := int h\<rparr> # tl (loops st)\<rparr>)) Q st"
proof -
  let ?ls = "(hd (loops st))\<lparr>continue_ip := int h\<rparr> # tl (loops st)"
  have "\<forall>l \<in> set ?ls. loop_ok 0 st l" if "cg_inv 0 st"
    using that assms(1,2) by (auto simp: cg_inv_def loop_ok_def in_loop_def pos_def dest: list.set_sel(2))
  then show ?thesis
    using loops_inv [of 0 st ?ls] assms by (auto simp: ok_def cmodify_def ext_def in_loop_def)
qed

lemma ok_set_continue: "in_loop st \<Longrightarrow> ok 0 set_continue any st"
  unfolding set_continue_def
  by (rule ok_mark_continue vcg logic | assumption | erule ext_facts ext_in_loop jips_ext)+

lemmas [vcg] = ok_mono [OF ok_set_continue] ok_mark_continue

lemma pops_patch_breaks: "in_loop st \<Longrightarrow> pos st (int h) \<Longrightarrow> pops (patch_breaks h) any st"
  unfolding patch_breaks_def
  by (rule pops_pop_loop vcg logic | assumption | erule ext_facts ext_in_loop jips_ext)+

text \<open>\<open>break\<close> and \<open>continue\<close>.\<close>

lemma ok_set_loop:
  assumes "\<forall>l \<in> set ls. loop_ok 0 st l" and "length ls = length (loops st)"
  shows "ok 0 (cmodify (\<lambda>st. st\<lparr>loops := ls\<rparr>)) any st"
  using loops_inv [OF _ assms(1)] assms(2) by (auto simp: ok_def cmodify_def ext_def)

lemma ok_wait_jump:
  assumes q: "\<And>k st'. ext st st' \<Longrightarrow> jip st' k \<Longrightarrow> \<forall>l \<in> set (loops st). loop_ok 0 st' l \<Longrightarrow> ok 0 (f k) Q st'"
  shows "ok 0 (cbind (Emit JMP 0 0 0 0) f) Q st"
proof (cases "cg_inv 0 st")
  case True
  show ?thesis
    by (rule vcg operands logic q | assumption | use True loop_ok_grows ext_grows in \<open>fastforce simp: cg_inv_def\<close>)+
qed (simp add: ok_def)

lemma ok_CompileStmtBreak: "ok 0 CompileStmtBreak any st"
  unfolding CompileStmtBreak_def
proof (rule ok_cbind, rule ok_cget, rule ok_case_list)
  fix l rest assume ls: "loops st = l # rest"
  show "ok 0 (cbind (Emit JMP 0 0 0 0) (\<lambda>k. cmodify (\<lambda>st. st\<lparr>loops := l\<lparr>break_jmps := break_jmps l @ [k]\<rparr> # rest\<rparr>))) any st"
    by (rule ok_wait_jump, rule ok_set_loop) (auto simp: ls loop_ok_def ext_def)
qed (rule vcg)

lemma ok_CompileStmtContinue: "ok 0 CompileStmtContinue any st"
  unfolding CompileStmtContinue_def
proof (rule ok_cbind, rule ok_cget, rule ok_case_list)
  fix l rest assume ls: "loops st = l # rest"
  show "ok 0 (cbind (Emit JMP 0 0 0 0) (\<lambda>k. if 0 \<le> continue_ip l then PatchSbx k (nat (continue_ip l))
           else cmodify (\<lambda>st. st\<lparr>loops := l\<lparr>continue_jmps := continue_jmps l @ [k]\<rparr> # rest\<rparr>))) any st"
  proof (rule ok_wait_jump, rule ok_if)
    fix k st' assume "jip st' k" "\<forall>l \<in> set (loops st). loop_ok 0 st' l" "0 \<le> continue_ip l"
    then show "ok 0 (PatchSbx k (nat (continue_ip l))) any st'" by (intro vcg) (auto simp: ls loop_ok_def pos_def)
  next
    fix k st' assume "jip st' k" "\<forall>l \<in> set (loops st). loop_ok 0 st' l" "ext st st'"
    then show "ok 0 (cmodify (\<lambda>st. st\<lparr>loops := l\<lparr>continue_jmps := continue_jmps l @ [k]\<rparr> # rest\<rparr>)) any st'"
      by (intro ok_set_loop) (auto simp: ls loop_ok_def ext_def)
  qed
qed (rule vcg)

section \<open>Labels\<close>

lemma scopes_inv:
  assumes "cg_inv b st" and "\<forall>sc \<in> set scs. scope_ok b st sc"
  shows "cg_inv b (st\<lparr>label_scopes := scs\<rparr>)" and "ext st (st\<lparr>label_scopes := scs\<rparr>)"
  using assms by (auto simp: cg_inv_def code_ok_def loop_ok_def scope_ok_def jip_def reg_def ext_def grows_def)

lemma ok_set_scopes: "\<forall>sc \<in> set scs. scope_ok b st sc \<Longrightarrow> ok b (set_scopes scs) any st"
  using scopes_inv by (auto simp: ok_def set_scopes_def cmodify_def)

lemma ok_open_scope: "ok b open_scope any st"
proof (cases "cg_inv b st")
  case True
  then have "\<forall>sc \<in> set (\<lparr>label_defs = Map.empty, pending = []\<rparr> # label_scopes st). scope_ok b st sc"
    by (auto simp: cg_inv_def scope_ok_def)
  from scopes_inv [OF True this] show ?thesis by (simp add: ok_def open_scope_def cmodify_def)
qed (simp add: ok_def)

lemma find_label_pos:
  "\<forall>sc \<in> set scs. scope_ok b st sc \<Longrightarrow> find_label scs name = Some d \<Longrightarrow> pos st (int d + int b)"
proof (induction scs)
  case (Cons sc scs)
  then show ?case by (cases "label_defs sc name") (fastforce simp: scope_ok_def pos_def)+
qed simp

definition waits_ok :: "cgstate \<Rightarrow> (string \<times> nat list) list \<Rightarrow> bool" where
  "waits_ok st ps \<longleftrightarrow> (\<forall>p \<in> set ps. \<forall>k \<in> set (snd p). jip st k)"

lemma waits_add_pending:
  "waits_ok st ps \<Longrightarrow> \<forall>k \<in> set ks. jip st k \<Longrightarrow> waits_ok st (add_pending name ks ps)"
  by (induction name ks ps rule: add_pending.induct) (auto simp: waits_ok_def)

lemma waits_ext: "ext st st' \<Longrightarrow> waits_ok st ps \<Longrightarrow> waits_ok st' ps"
  using ext_facts(1) unfolding waits_ok_def by blast

lemma scope_ok_waits:
  "scope_ok b st sc \<longleftrightarrow>
   (\<forall>name d. label_defs sc name = Some d \<longrightarrow> pos st (int d + int b)) \<and> waits_ok st (pending sc)"
  by (simp add: scope_ok_def waits_ok_def pos_def) (metis of_nat_add of_nat_le_iff)

lemma scopes_ext: "ext st st' \<Longrightarrow> \<forall>sc \<in> set scs. scope_ok b st sc \<Longrightarrow> \<forall>sc \<in> set scs. scope_ok b st' sc"
  using scope_ok_grows ext_grows by blast

lemma ok_CompileStmtGoto: "ok 0 (CompileStmtGoto name) any st"
  unfolding CompileStmtGoto_def
proof (rule ok_cbind, rule ok_Emit_jump)
  fix k st' assume j: "jip st' k"
  show "ok 0 (cbind (cget label_scopes) (\<lambda>scs. case find_label scs name of Some dest \<Rightarrow> PatchSbx k dest
       | None \<Rightarrow> (case scs of [] \<Rightarrow> cthrow (no_label name)
          | sc # rest \<Rightarrow> set_scopes (sc\<lparr>pending := add_pending name [k] (pending sc)\<rparr> # rest)))) any st'"
  proof (cases "cg_inv 0 st'")
    case True
    then have S: "\<forall>sc \<in> set (label_scopes st'). scope_ok 0 st' sc" by (simp add: cg_inv_def)
    show ?thesis
    proof (rule ok_cbind, rule ok_cget, rule ok_case_option, rule ok_case_list)
      fix sc rest assume "label_scopes st' = sc # rest"
      then show "ok 0 (set_scopes (sc\<lparr>pending := add_pending name [k] (pending sc)\<rparr> # rest)) any st'"
        using S j waits_add_pending [of st' "pending sc" "[k]"] by (intro ok_set_scopes) (auto simp: scope_ok_waits)
    next
      fix d assume "find_label (label_scopes st') name = Some d"
      then show "ok 0 (PatchSbx k d) any st'" using find_label_pos [OF S] j by (intro vcg) auto
    qed (rule vcg)
  qed (simp add: ok_def)
qed (rule operands logic)+

lemma ok_CompileStmtLabel: "ok 0 (CompileStmtLabel name) any st"
proof (cases "cg_inv 0 st")
  case True
  then have S: "\<forall>sc \<in> set (label_scopes st). scope_ok 0 st sc" by (simp add: cg_inv_def)
  show ?thesis unfolding CompileStmtLabel_def
  proof (rule ok_cbind, rule ok_cget, rule ok_case_list, rule vcg, rule ok_if, rule vcg, rule ok_cbind, rule ok_here, rule ok_cseq)
    fix sc rest assume scs: "label_scopes st = sc # rest" and h: "pos st (int (length (c_code st)))"
    have w: "\<forall>k \<in> set ks. jip st k" if "map_of (pending sc) name = Some ks" for ks
      using that S scs by (auto simp: scope_ok_def dest!: map_of_SomeD)
    let ?sc = "sc\<lparr>label_defs := (label_defs sc)(name \<mapsto> length (c_code st)), pending := filter (\<lambda>p. fst p \<noteq> name) (pending sc)\<rparr>"
    have n: "\<forall>sc \<in> set (?sc # rest). scope_ok 0 st sc" using S scs h by (auto simp: scope_ok_def)
    have "ok 0 (set_scopes (?sc # rest)) any st'" if "ext st st'" for st'
      using scopes_ext [OF that n] by (rule ok_set_scopes)
    then show "ok 0 (case map_of (pending sc) name of Some ks \<Rightarrow> patch_all ks (length (c_code st)) | None \<Rightarrow> cret ())
        (\<lambda>_. ok 0 (set_scopes (?sc # rest)) any) st"
      using w h by (intro ok_case_option vcg) auto
  qed
qed (simp add: ok_def)

text \<open>The end of a block, also after the function's last instruction.\<close>

lemma ok_resolve_root:
  "waits_ok st ps \<Longrightarrow> \<forall>name d. defs name = Some d \<longrightarrow> pos st (int d + int b) \<Longrightarrow> ok b (resolve_root defs ps) any st"
proof (induction defs ps arbitrary: st rule: resolve_root.induct)
  case (2 defs name ks ps)
  have "ok b (resolve_root defs ps) any st'" if "ext st st'" "defs name = Some d" for st' d
    using 2(2,3) that ext_facts(1,3) [OF that(1)] by (intro 2(1)) (auto simp: waits_ok_def)
  then show ?case unfolding resolve_root.simps using 2(2,3)
    by (intro ok_case_option vcg ok_patch_all) (auto simp: waits_ok_def)
qed (simp add: ok_cret)

lemma ok_resolve_outer:
  "waits_ok st ps \<Longrightarrow> \<forall>sc \<in> set outer. scope_ok b st sc \<Longrightarrow> outer \<noteq> [] \<Longrightarrow>
   ok b (resolve_outer ps outer) (\<lambda>scs st'. \<forall>sc \<in> set scs. scope_ok b st' sc) st"
proof (induction ps outer arbitrary: st rule: resolve_outer.induct)
  case (2 name ks ps outer)
  have ks: "\<forall>k \<in> set ks. jip st k" and ps: "waits_ok st ps" using 2(3) by (simp_all add: waits_ok_def)
  show ?case unfolding resolve_outer.simps
  proof (rule ok_case_option)
    assume f: "find_label outer name = None"
    have "\<forall>sc \<in> set ((hd outer)\<lparr>pending := add_pending name ks (pending (hd outer))\<rparr> # tl outer). scope_ok b st sc"
      using 2(4,5) waits_add_pending ks by (cases outer) (auto simp: scope_ok_waits)
    then show "ok b (resolve_outer ps ((hd outer)\<lparr>pending := add_pending name ks (pending (hd outer))\<rparr> # tl outer))
       (\<lambda>scs st'. \<forall>sc \<in> set scs. scope_ok b st' sc) st"
      using f ps by (intro 2(1)) auto
  next
    fix d assume f: "find_label outer name = Some d"
    have "ok b (resolve_outer ps outer) (\<lambda>scs st'. \<forall>sc \<in> set scs. scope_ok b st' sc) st'" if "ext st st'" for st'
      using 2(5) waits_ext [OF that ps] scopes_ext [OF that 2(4)] by (intro 2(2) [OF f])
    then show "ok b (cseq (patch_all ks d) (resolve_outer ps outer)) (\<lambda>scs st'. \<forall>sc \<in> set scs. scope_ok b st' sc) st"
      using find_label_pos [OF 2(4) f] ks by (intro vcg ok_patch_all) auto
  qed
qed (simp add: ok_cret)

lemma ok_close_scope: "ok b close_scope any st"
proof (cases "cg_inv b st")
  case True
  then have S: "\<forall>sc \<in> set (label_scopes st). scope_ok b st sc" by (simp add: cg_inv_def)
  consider "label_scopes st = []" | sc where "label_scopes st = [sc]" | sc sc' scs where "label_scopes st = sc # sc' # scs"
    by (cases "label_scopes st"; cases "tl (label_scopes st)") auto
  then have "ok b (case label_scopes st of [] \<Rightarrow> cret () | [sc] \<Rightarrow> cseq (resolve_root (label_defs sc) (pending sc)) (set_scopes [])
       | sc # outer \<Rightarrow> cbind (resolve_outer (pending sc) outer) set_scopes) any st"
  proof cases
    case 2
    then have "ok b (resolve_root (label_defs sc) (pending sc)) any st" using S by (intro ok_resolve_root) (auto simp: scope_ok_waits)
    moreover have "ok b (set_scopes []) any st'" for st' by (rule ok_set_scopes) simp
    ultimately show ?thesis unfolding 2 list.case by (intro ok_cseq) (auto intro: ok_mono)
  next
    case 3
    then have "ok b (resolve_outer (pending sc) (sc' # scs)) (\<lambda>scs st'. \<forall>sc \<in> set scs. scope_ok b st' sc) st"
      using S by (intro ok_resolve_outer) (auto simp: scope_ok_waits)
    then show ?thesis unfolding 3 list.case by (intro ok_cbind) (auto intro!: ok_set_scopes elim: ok_mono)
  qed (simp add: ok_cret)
  then show ?thesis unfolding close_scope_def by (intro ok_cbind ok_cget)
qed (simp add: ok_def)

section \<open>Control flow\<close>

lemma ok_bind_name: "reg st r \<Longrightarrow> ok 0 (bind_name env r d) any st"
  unfolding bind_name_def by (rule vcg logic operands | assumption | erule ext_facts)+

lemma ok_loop_slots: "ok 0 (loop_slots env s names) any st"
proof (induction names arbitrary: st)
  case (Cons n names)
  show ?case unfolding loop_slots.simps
    by (rule vcg logic operands reg_neg ok_mono [OF Cons.IH] | assumption | erule ext_facts)+
qed (simp add: ok_cret)

lemma ok_add_one: "reg st idx \<Longrightarrow> ok 0 (add_one idx) any st"
  unfolding add_one_def by (rule vcg logic operands | assumption | erule ext_facts)+

lemmas [vcg] = ok_mono [OF ok_bind_name] ok_mono [OF ok_loop_slots] ok_mono [OF ok_add_one]

lemma ok_bind_loop_vars: "reg st k \<Longrightarrow> reg st v \<Longrightarrow> ok 0 (bind_loop_vars env ds k v) any st"
  unfolding bind_loop_vars_def by (rule ok_case_list vcg logic operands | assumption | erule ext_facts)+

lemma ok_bind_results: "reg st res \<Longrightarrow> ok 0 (bind_results env res k ds) any st"
proof (induction env res k ds arbitrary: st rule: bind_results.induct)
  case (2 env res k d ds)
  show ?case unfolding bind_results.simps
    by (rule vcg logic operands reg_neg ok_mono [OF 2(1)] 2(2) | assumption | erule ext_facts)+
qed (simp add: ok_cret)

lemma ok_iterator_triple:
  "reg st f \<Longrightarrow> reg st s \<Longrightarrow> reg st v \<Longrightarrow> ok 0 (iterator_triple env es f s v) any st"
  unfolding iterator_triple_def
  by (rule ok_case_list vcg logic operands reg_neg | assumption | erule ext_facts)+

lemmas [vcg] = ok_mono [OF ok_bind_loop_vars] ok_mono [OF ok_bind_results] ok_mono [OF ok_iterator_triple]

lemma pops_mono: "pops m P st \<Longrightarrow> (\<And>x st'. grows st st' \<Longrightarrow> P x st' \<Longrightarrow> Q x st') \<Longrightarrow> pops m Q st"
  by (auto simp: pops_def split: sum.splits prod.splits)

lemmas breaks = pops_patch_breaks [THEN pops_mono]

lemma pos_neg: "pos st (-1)" by (simp add: pos_def)

text \<open>The loops; \<open>body\<close> is the code of the body.\<close>

lemma ok_loops:
  assumes body: "\<And>st. ok 0 body any st"
  shows "ok 0 (ipairs_loop env ds e body) any st" "ok 0 (pairs_loop env ds e body) any st"
    "ok 0 (while_loop env e body) any st" "ok 0 (repeat_loop env e body) any st"
  unfolding ipairs_loop_def pairs_loop_def while_loop_def repeat_loop_def
  by (rule ok_push_loop vcg logic operands reg_neg pos_neg breaks pops_pop_loop ok_mono [OF body] | assumption
    | erule ext_facts ext_in_loop grows_facts jips_ext | (simp; fail))+

lemma ok_generic_loop:
  assumes body: "\<And>st. ok 0 body any st"
  shows "ok 0 (generic_loop env ds es body) any st"
  unfolding generic_loop_def
  by (rule ok_push_loop ok_case_list vcg logic operands reg_neg pos_neg breaks ok_mono [OF body] regs_Cons | assumption
    | (erule block_reg, simp; fail) | erule ext_facts ext_in_loop grows_facts | (simp; fail))+

lemma ok_if_branch:
  assumes body: "\<And>st. ok 0 body any st"
  shows "ok 0 (if_branch env e body) (\<lambda>k st. jip st k) st"
  unfolding if_branch_def
  by (rule vcg logic operands reg_neg ok_mono [OF body] | assumption | erule ext_facts)+

lemma ok_for_loop:
  assumes body: "\<And>st. ok 0 body any st"
  shows "ok 0 (for_loop env s name eb ee es body) any st"
proof -
  have tail: "pops (cseq (patch_breaks h) (FreeTo saved)) any st" if "in_loop st" "pos st (int h)" for h saved st
    by (rule pops_then, rule breaks) (rule that logic vcg)+
  show ?thesis
    unfolding for_loop_def
    by (rule ok_push_loop tail ok_cget_reg_of vcg logic operands reg_neg pos_neg ok_mono [OF body] | assumption
      | (simp; fail) | erule ext_facts ext_in_loop grows_facts)+
qed

section \<open>Statements and functions\<close>

lemmas simple_stmts = ok_CompileStmtReturn ok_CompileStmtLocalVar ok_CompileStmtAssign ok_CompileStmtBreak
  ok_CompileStmtContinue ok_CompileStmtLocalFunction ok_CompileStmtGoto ok_CompileStmtLabel

lemma ok_statements:
  "ok 0 (CompileStmt env s) any st"
  "ok 0 (CompileStmtBlock env ss) any st"
  "ok 0 (compile_stmts env ss) any st"
  "ok 0 (compile_elseifs env bs) (\<lambda>ks st. \<forall>k \<in> set ks. jip st k) st"
proof (induction env s and env ss and env ss and env bs arbitrary: st and st and st and st
    rule: CompileStmt_CompileStmtBlock_compile_stmts_compile_elseifs.induct)
  case (1 env ss)
  show ?case unfolding CompileStmtBlock.simps
    by (rule vcg ok_open_scope [THEN ok_mono] ok_mono [OF 1] ok_close_scope [THEN ok_mono] logic)+
next
  case (3 env s ss)
  show ?case unfolding compile_stmts.simps by (rule vcg ok_mono [OF 3(1)] ok_mono [OF 3(2)] logic)+
next
  case (5 env e b bs)
  show ?case unfolding compile_elseifs.simps
    by (rule vcg ok_if_branch [OF 5(1), THEN ok_mono] ok_mono [OF 5(2)] jips_Cons logic | assumption | erule ext_facts)+
next
  case (6 env s)
  show ?case
  proof (cases "IsPackageHeaderStmt env s")
    case True
    then show ?thesis by (simp add: ok_cret)
  next
    case P: False
    note U = CompileStmt.simps if_not_P [OF P]
    show ?thesis
    proof (cases s)
      case (SBlock ss)
      show ?thesis unfolding U unfolding SBlock stmt.case
        by (rule 6(1) [OF P SBlock])
    next
      case (SWhile e b)
      show ?thesis unfolding U unfolding SWhile stmt.case
        by (rule ok_loops 6(2) [OF P SWhile])+
    next
      case (SRepeat b e)
      show ?thesis unfolding U unfolding SRepeat stmt.case
        by (rule ok_loops 6(3) [OF P SRepeat])+
    next
      case (SIf e b bs eb)
      show ?thesis unfolding U unfolding SIf stmt.case
        by (rule vcg ok_if_branch [OF 6(4) [OF P SIf], THEN ok_mono] ok_mono [OF 6(5) [OF P SIf]] ok_mono [OF 6(6) [OF P SIf]]
          jips_Cons logic | assumption | erule ext_facts jips_ext)+
    next
      case (SForLoop n name eb ee es b)
      show ?thesis unfolding U unfolding SForLoop stmt.case
        by (rule ok_for_loop 6(7) [OF P SForLoop])+
    next
      case (SForIn n names es b)
      show ?thesis unfolding U unfolding SForIn stmt.case
        proof (rule vcg, rule ok_loop_slots [THEN ok_mono])
          fix ds st'
          show "ok 0 (case TryMatchPairsIpairs (\<lambda>v. var_def env v \<noteq> None) es of
              Some (kIpairs, e) \<Rightarrow> ipairs_loop env ds e (CompileStmtBlock env b)
            | Some (kPairs, e) \<Rightarrow> pairs_loop env ds e (CompileStmtBlock env b)
            | None \<Rightarrow> generic_loop env ds es (CompileStmtBlock env b)) any st'"
            using 6(8-10) [OF P SForIn] ok_loops(1,2) ok_generic_loop
              by (auto split: option.split prod.split PairsIpairsKind.split)
        qed
    qed (unfold U, simp_all only: stmt.case, (rule simple_stmts vcg logic | assumption)+)
  qed
qed (simp_all add: ok_cret)

end
