(* ===== verification/CodegenSafeFun.thy ===== *)
theory CodegenSafeFun
imports CodegenSafeStmt
begin

text \<open>
  Whole functions. The closing \<open>RETURN\<close> turns the weak bound on jump targets into the strict one; closing the
  root scope afterwards only patches jumps. So every prototype that \<open>CompileFunction\<close> returns is \<open>proto_ok\<close>.
\<close>

section \<open>Code that ends with a return\<close>

definition finished :: "cgstate \<Rightarrow> bool" where
  "finished st \<longleftrightarrow> cg_inv 1 st \<and> c_code st \<noteq> [] \<and> opc (last (c_code st)) = RETURN"

definition finishes :: "'a cg \<Rightarrow> cgstate \<Rightarrow> bool" where
  "finishes m st \<longleftrightarrow> (cg_inv 0 st \<longrightarrow> (case m st of Inl _ \<Rightarrow> True | Inr (x, st') \<Rightarrow> finished st'))"

lemma finishes_cbind: "ok 0 m (\<lambda>x st'. finishes (f x) st') st \<Longrightarrow> finishes (cbind m f) st"
  by (auto simp: ok_def finishes_def cbind_def split: sum.splits prod.splits)

lemma finishes_cseq: "ok 0 m (\<lambda>_ st'. finishes k st') st \<Longrightarrow> finishes (cseq m k) st"
  unfolding cseq_def by (rule finishes_cbind)

lemma finishes_cret: "finishes m st \<Longrightarrow> finishes (cseq m (cret ())) st"
  by (auto simp: finishes_def cseq_def cbind_def cret_def split: sum.splits prod.splits)

lemma cg_inv_closed:
  assumes inv: "cg_inv 0 st" and l: "length (c_code st') = Suc (length (c_code st))"
    and s: "c_code st' = c_code st @ [i]" "opc i = RETURN" "cg_inv 0 st'"
      "reg_of st' = reg_of st" "loops st' = loops st" "label_scopes st' = label_scopes st"
  shows "cg_inv 1 st'"
proof -
  have "code_ok 1 st'"
    unfolding code_ok_def
  proof (intro allI impI conjI)
    fix k
    assume k: "k < length (c_code st')"
    have c: "code_ok 0 st" "code_ok 0 st'" using inv s(3) by (simp_all add: cg_inv_def)
    show "inst_ok (c_max st') (length (c_consts st')) (length (c_children st')) (c_code st' ! k)"
      using c(2) k by (simp add: code_ok_def)
    assume j: "is_jump (opc (c_code st' ! k))"
    then have "k \<noteq> length (c_code st)" using s(1,2) by (auto simp: is_jump_def)
    then have "k < length (c_code st)" "c_code st' ! k = c_code st ! k" using k l s(1) by (simp_all add: nth_append)
    then show "0 \<le> int k + 1 + sbx (c_code st' ! k)"
      and "int k + 1 + sbx (c_code st' ! k) + int 1 \<le> int (length (c_code st'))"
      using c(1) j l unfolding code_ok_def by fastforce+
  qed
  moreover have "\<forall>l \<in> set (loops st'). loop_ok 1 st' l" and "\<forall>sc \<in> set (label_scopes st'). scope_ok 1 st' sc"
    using inv s by (fastforce simp: cg_inv_def loop_ok_def scope_ok_def jip_def nth_append)+
  ultimately show ?thesis using s(3) by (simp add: cg_inv_def)
qed

lemma finishes_return: assumes "reg st a" shows "finishes (emit RETURN a b c x) st"
proof -
  let ?i = "\<lparr>opc = RETURN, ia = nat a, ib = nat b, ic = nat c, sbx = x\<rparr>"
  have "finished (st\<lparr>c_code := c_code st @ [?i], c_boxes := c_boxes st\<rparr>)"
    if inv: "cg_inv 0 st" and o: "byte_operand a" "byte_operand b" "byte_operand c"
  proof -
    have "cg_inv 0 (st\<lparr>c_code := c_code st @ [?i], c_boxes := c_boxes st\<rparr>)"
      by (rule emit_inv [OF inv operands_1(7) o]) (rule assms)
    from cg_inv_closed [OF inv _ _ _ this] show ?thesis by (simp add: finished_def)
  qed
  then show ?thesis by (auto simp: finishes_def emit_def cseq_def cbind_def cret_def Emit_def)
qed

lemma finishes_load_nil: "finishes load_nil st"
  unfolding load_nil_def
  by (rule finishes_cbind finishes_cseq finishes_return vcg operands | assumption | erule ext_facts)+

lemma finishes_CompileStmtReturn: "finishes (CompileStmtReturn env es) st"
proof -
  consider "es = []" | e where "es = [e]" | e e' es' where "es = e # e' # es'"
    by (cases es; cases "tl es") auto
  then show ?thesis
  proof cases
    case 3
    show ?thesis unfolding 3 CompileStmtReturn_def list.case Let_def
      by (rule finishes_cbind finishes_cseq finishes_return ok_compile_args [THEN ok_mono] vcg logic operands reg_neg
        | erule conjE | assumption | (erule block_reg, simp; fail) | erule ext_facts | erule regs_ext)+
  qed (auto simp: CompileStmtReturn_def finishes_load_nil,
      (rule finishes_cbind finishes_return vcg logic operands reg_neg | assumption | erule ext_facts)+)
qed

lemma finishes_stmts: "ends_ret ss \<Longrightarrow> finishes (compile_stmts env ss) st"
proof (induction ss arbitrary: st)
  case (Cons s ss)
  show ?case
  proof (cases ss)
    case Nil
    then obtain es where "s = SReturn es" using Cons.prems by (auto split: stmt.splits)
    then show ?thesis using Nil finishes_CompileStmtReturn
      by (auto simp: IsPackageHeaderStmt_def intro!: finishes_cret)
  next
    case (Cons s' ss')
    then have "finishes (compile_stmts env ss) st" for st using Cons.prems Cons.IH by simp
    then show ?thesis unfolding compile_stmts.simps by (intro finishes_cseq ok_statements(1) [THEN ok_mono])
  qed
qed simp

text \<open>Closing a scope emits nothing.\<close>

definition patches_only :: "'a cg \<Rightarrow> bool" where
  "patches_only m \<longleftrightarrow> (\<forall>st x st'. m st = Inr (x, st') \<longrightarrow> length (c_code st') = length (c_code st))"

lemma patches_only_simps:
  "patches_only (cret x)" "patches_only (cthrow e)" "patches_only (PatchSbx k d)" "patches_only (set_scopes scs)"
  "patches_only (cget g)"
  by (auto simp: patches_only_def cret_def cthrow_def PatchSbx_def cmodify_def set_scopes_def cget_def)

lemma patches_only_cbind: "patches_only m \<Longrightarrow> (\<And>x. patches_only (f x)) \<Longrightarrow> patches_only (cbind m f)"
  by (fastforce simp: patches_only_def cbind_def split: sum.splits prod.splits)

lemma patches_only_cseq: "patches_only m \<Longrightarrow> patches_only k \<Longrightarrow> patches_only (cseq m k)"
  unfolding cseq_def by (rule patches_only_cbind)

lemmas patches_only_rules = patches_only_simps patches_only_cbind patches_only_cseq

lemma patches_only_close: "patches_only close_scope"
proof -
  have p: "patches_only (patch_all ks d)" for ks d by (induction ks) (auto intro: patches_only_rules)
  have r: "patches_only (resolve_root defs ps)" for defs ps
    by (induction defs ps rule: resolve_root.induct) (auto split: option.split intro: patches_only_rules p)
  have o: "patches_only (resolve_outer ps outer)" for ps outer
    by (induction ps outer rule: resolve_outer.induct) (auto split: option.split intro: patches_only_rules p)
  show ?thesis unfolding close_scope_def
    by (auto split: list.split intro!: patches_only_rules r o)
qed

lemma finishes_block: "ends_ret ss \<Longrightarrow> finishes (CompileStmtBlock env ss) st"
proof -
  assume e: "ends_ret ss"
  have "finished st'" if f: "finished st0" and c: "close_scope st0 = Inr (u, st')" for st0 st' u
  proof -
    have "cg_inv 1 st'" "ext st0 st'" using ok_close_scope [of 1 st0] f c by (auto simp: ok_def finished_def)
    moreover have l: "length (c_code st') = length (c_code st0)" using patches_only_close c by (auto simp: patches_only_def)
    moreover have "c_code st' \<noteq> []" using l f by (auto simp: finished_def)
    ultimately show ?thesis using f by (auto simp: finished_def last_conv_nth ext_def grows_def)
  qed
  then have "finishes (cseq (compile_stmts env ss) close_scope) st" for st
    using finishes_stmts [OF e, of env st]
    by (auto simp: finishes_def cseq_def cbind_def split: sum.splits prod.splits)
  then show ?thesis unfolding CompileStmtBlock.simps by (rule finishes_cseq [OF ok_open_scope [THEN ok_mono]])
qed

section \<open>Functions\<close>

lemma ok_compile_params:
  "block st n \<Longrightarrow> i + length ps \<le> n \<Longrightarrow> ok 0 (compile_params env i ps) any st"
proof (induction ps arbitrary: i st)
  case (Cons p ps)
  have IH: "ok 0 (compile_params env (i + 1) ps) any st'" if "ext st st'" for st'
    using that Cons.prems by (intro Cons.IH) (auto simp: block_def ext_def grows_def)
  have r: "reg st (int i)" using Cons.prems by (intro block_reg) auto
  have "ok 0 (case p of Some d \<Rightarrow> cseq (set_reg d (int i)) (new_box env d) | None \<Rightarrow> cret ()) any st"
    by (rule vcg logic r | assumption)+
  then show ?case unfolding compile_params.simps using IH by (intro ok_cseq) (auto elim: ok_mono)
qed (simp add: ok_cret)

lemma start_inv: "cg_inv 0 (start_state n (\<lambda>_. -1))"
  by (simp add: cg_inv_def start_state_def code_ok_def reg_def)

lemma finishes_body: "finishes (compile_body env fi) (start_state (length (fi_params fi)) (\<lambda>_. -1))"
proof -
  have "finishes (cseq (CompileStmtBlock env ss) (if ends_ret ss then cret () else load_nil)) st" for ss st
    using finishes_block finishes_load_nil
    by (cases "ends_ret ss"; simp only: if_True if_False)
      (blast intro: finishes_cret finishes_cseq ok_statements(2) [THEN ok_mono])+
  note B = this
  show ?thesis
  proof (cases "fi_body fi")
    case None
    then show ?thesis by (simp add: compile_body_def finishes_load_nil)
  next
    case (Some ss)
    have "block (start_state (length (fi_params fi)) (\<lambda>_. -1)) (length (fi_params fi))"
      by (simp add: block_def start_state_def)
    then show ?thesis unfolding compile_body_def Some option.case
      by (intro finishes_cseq [OF ok_compile_params [THEN ok_mono]] B) auto
  qed
qed

lemma CompileFunction_proto_ok:
  assumes "CompileFunction env fi ups = Inr (p, regs)" shows "proto_ok p"
proof -
  obtain st u where b: "compile_body (env\<lparr>cur_func := fi_node fi\<rparr>) fi (start_state (length (fi_params fi)) (\<lambda>_. -1)) = Inr (u, st)"
    and p: "max_stack p = c_max st" "code p = c_code st" "constants p = c_consts st" "child_protos p = c_children st"
    using assms by (auto simp: CompileFunction_def split: sum.splits prod.splits)
  have f: "finished st" using finishes_body [of "env\<lparr>cur_func := fi_node fi\<rparr>" fi] b start_inv by (simp add: finishes_def)
  have "c_max st \<le> frame_size p" using p by (simp add: frame_size_def)
  then show ?thesis
    using f inst_ok_mono by (fastforce simp: proto_ok_def finished_def cg_inv_def code_ok_def jump_ok_def p)
qed

end
