(* ===== verification/CodegenCorrect.thy ===== *)
theory CodegenCorrect
imports CodegenStmt Interp
begin

text \<open>
  Expressions mean the same to the generator and to the interpreter. \<open>eval\<close> is a direct evaluator of the
  expressions built from constants, the function's own uncaptured locals, operators, parentheses and indexing.
  The code that \<open>CompileExp\<close> emits for one of them, run by the interpreter, ends behind that code with the value
  of \<open>eval\<close> in the result register, the same final state and the other registers in use unchanged; or it raises
  the exception that \<open>eval\<close> raises, in the same state.
\<close>

section \<open>The evaluator\<close>

definition strict_binop :: "vm_env \<Rightarrow> BinOpKind \<Rightarrow> cvar \<Rightarrow> cvar \<Rightarrow> cvar vstep" where
  "strict_binop env k a b = vlift
     (case k of
        kPlus \<Rightarrow> BinAdd a b | kMinus \<Rightarrow> BinSub a b | kStar \<Rightarrow> BinMul a b | kSlash \<Rightarrow> BinDiv a b
      | kDoubleSlash \<Rightarrow> BinIdiv a b | kMod \<Rightarrow> BinMod a b | kPow \<Rightarrow> BinPow (ve_pow env) a b
      | kBitAnd \<Rightarrow> BinBand a b | kXor \<Rightarrow> BinBxor a b | kBitOr \<Rightarrow> BinBor a b
      | kLeftShift \<Rightarrow> BinShl a b | kRightShift \<Rightarrow> BinShr a b | kConcat \<Rightarrow> BinConcat a b
      | kLess \<Rightarrow> CmpLt a b | kLessEqual \<Rightarrow> CmpLe a b | kMore \<Rightarrow> CmpLt b a | kMoreEqual \<Rightarrow> CmpLe b a
      | kEqual \<Rightarrow> Inr (VBool (Equal a b)) | kNotEqual \<Rightarrow> Inr (VBool (\<not> Equal a b))
      | _ \<Rightarrow> Inr VNil)"

definition strict_unop :: "vm_env \<Rightarrow> UnOpKind \<Rightarrow> cvar \<Rightarrow> cvar vstep" where
  "strict_unop env k a =
     (case k of
        kNeg \<Rightarrow> vlift (UnMinus a) | kNot \<Rightarrow> vret (VBool (\<not> IsTrue a)) | kNumberSign \<Rightarrow> UnLen env a
      | kBitNot \<Rightarrow> vlift (UnBnot a))"

definition eval_index :: "vm_env \<Rightarrow> cvar \<Rightarrow> cvar \<Rightarrow> cvar vstep" where
  "eval_index env t k s =
     (if Type t \<noteq> TTable then vthrow index_error s
      else if k = VNil then vthrow nil_index s
      else case k of
          VInt n \<Rightarrow> vret (GetTableInt (ve_spec env) (tables (nst s) (tbl_ptr t)) n) s
        | _ \<Rightarrow> vget_table env t k s)"

definition number_value :: "string \<Rightarrow> cvar result" where
  "number_value s =
     (case const_number (ENumber s) of
        Some v \<Rightarrow> Inr v
      | None \<Rightarrow> if IsInteger s then rbind (ToInteger s) (\<lambda>i. Inr (VInt i)) else rbind (ToFloat s) (\<lambda>d. Inr (VFloat d)))"

fun eval :: "vm_env \<Rightarrow> (node \<Rightarrow> cvar) \<Rightarrow> exp \<Rightarrow> bool \<Rightarrow> cvar vstep" and
  evalp :: "vm_env \<Rightarrow> (node \<Rightarrow> cvar) \<Rightarrow> pexp \<Rightarrow> bool \<Rightarrow> cvar vstep" and
  evalv :: "vm_env \<Rightarrow> (node \<Rightarrow> cvar) \<Rightarrow> var \<Rightarrow> cvar vstep"
where
  "eval env \<rho> ETrue pm = vret (VBool True)"
| "eval env \<rho> EFalse pm = vret (VBool False)"
| "eval env \<rho> (ENumber s) pm = vlift (number_value s)"
| "eval env \<rho> (EString s) pm = vret (VStringId s)"
| "eval env \<rho> (EPrefix pe) pm = evalp env \<rho> pe pm"
| "eval env \<rho> (EBinop k l r) pm =
     vbind (eval env \<rho> l False) (\<lambda>a.
       if k = kAnd then (if IsTrue a then eval env \<rho> r False else vret a)
       else if k = kOr then (if IsTrue a then vret a else eval env \<rho> r False)
       else vbind (eval env \<rho> r False) (strict_binop env k a))"
| "eval env \<rho> (EUnop k e) pm =
     (case const_number (EUnop k e) of
        Some v \<Rightarrow> vret v
      | None \<Rightarrow> vbind (eval env \<rho> e False) (strict_unop env k))"
| "eval env \<rho> e pm = vret VNil"
| "evalp env \<rho> (PVar v) pm =
     vbind (evalv env \<rho> v) (\<lambda>x. vret (if \<not> pm \<and> (case v of SimpleVar _ n \<Rightarrow> is_vararg_name n | _ \<Rightarrow> False)
       then UnboxMulti x 0 else x))"
| "evalp env \<rho> (PExp e) pm = eval env \<rho> e pm"
| "evalp env \<rho> (PCall c) pm = vret VNil"
| "evalv env \<rho> (SimpleVar v n) = vret (\<rho> v)"
| "evalv env \<rho> (SquareVar pe e) = vbind (evalp env \<rho> pe False) (\<lambda>t. vbind (eval env \<rho> e False) (eval_index env t))"
| "evalv env \<rho> (DotVar pe n) = vbind (evalp env \<rho> pe False) (\<lambda>t. eval_index env t (VStringId n))"

text \<open>The fragment: no calls, constructors, closures or \<open>...\<close>; variables satisfy \<open>P\<close>.\<close>

fun frag :: "(node \<Rightarrow> bool) \<Rightarrow> exp \<Rightarrow> bool" and
  fragp :: "(node \<Rightarrow> bool) \<Rightarrow> pexp \<Rightarrow> bool" and
  fragv :: "(node \<Rightarrow> bool) \<Rightarrow> var \<Rightarrow> bool"
where
  "frag P (EPrefix pe) = fragp P pe"
| "frag P (EBinop k l r) = (frag P l \<and> frag P r)"
| "frag P (EUnop k e) = frag P e"
| "frag P EVarParams = False"
| "frag P (EFunctionDef f) = False"
| "frag P (ETable fs) = False"
| "frag P e = True"
| "fragp P (PVar v) = fragv P v"
| "fragp P (PExp e) = frag P e"
| "fragp P (PCall c) = False"
| "fragv P (SimpleVar v n) = P v"
| "fragv P (SquareVar pe e) = (fragp P pe \<and> frag P e)"
| "fragv P (DotVar pe n) = fragp P pe"

definition own_local :: "cg_env \<Rightarrow> (nat \<Rightarrow> int) \<Rightarrow> nat \<Rightarrow> node \<Rightarrow> bool" where
  "own_local env regs n v \<longleftrightarrow>
     (case var_def env v of
        Some d \<Rightarrow> defining_func (def_info env d) = Some (cur_func env) \<and> 0 \<le> regs d \<and> regs d < int n
      | None \<Rightarrow> False)"

section \<open>The machine\<close>

record vm_ctx =
  cx_env :: vm_env
  cx_protos :: "ptr \<Rightarrow> FuncProto"
  cx_call :: "ptr \<Rightarrow> cvar list \<Rightarrow> cvar vstep"
  cx_closure :: "VarClosure option"
  cx_annot :: "int \<Rightarrow> fl_exn \<Rightarrow> fl_exn"

definition machine :: "vm_ctx \<Rightarrow> FuncProto \<Rightarrow> nat \<Rightarrow> frame \<Rightarrow> cvar vstep" where
  "machine cx p = run (\<lambda>fr i. exec_inst (cx_env cx) (cx_protos cx) (cx_call cx) False p (cx_closure cx) i fr)
     (cx_annot cx) (code p)"

definition reaches :: "vm_ctx \<Rightarrow> FuncProto \<Rightarrow> frame \<Rightarrow> vmstate \<Rightarrow> frame \<Rightarrow> vmstate \<Rightarrow> bool" where
  "reaches cx p fr s fr' s' \<longleftrightarrow> (\<exists>k. \<forall>n. machine cx p (k + n) fr s = machine cx p n fr' s')"

definition fails :: "vm_ctx \<Rightarrow> FuncProto \<Rightarrow> frame \<Rightarrow> vmstate \<Rightarrow> fl_exn \<Rightarrow> vmstate \<Rightarrow> bool" where
  "fails cx p fr s e s' \<longleftrightarrow> (\<exists>k off. \<forall>n. machine cx p (k + n) fr s = (Inl (cx_annot cx off e), s'))"

definition leads :: "vm_ctx \<Rightarrow> FuncProto \<Rightarrow> 'a vstep \<Rightarrow> frame \<Rightarrow> vmstate \<Rightarrow> ('a \<Rightarrow> frame \<Rightarrow> bool) \<Rightarrow> bool" where
  "leads cx p ev fr s Post \<longleftrightarrow>
     (case ev s of
        (Inl e, s') \<Rightarrow> fails cx p fr s e s'
      | (Inr v, s') \<Rightarrow> \<exists>fr'. reaches cx p fr s fr' s' \<and> Post v fr')"

lemma reaches_refl: "reaches cx p fr s fr s"
  by (auto simp: reaches_def intro: exI [of _ 0])

lemma reaches_trans: "reaches cx p fr s fr1 s1 \<Longrightarrow> reaches cx p fr1 s1 fr2 s2 \<Longrightarrow> reaches cx p fr s fr2 s2"
  unfolding reaches_def by (metis add.assoc)

lemma reaches_fails: "reaches cx p fr s fr1 s1 \<Longrightarrow> fails cx p fr1 s1 e s2 \<Longrightarrow> fails cx p fr s e s2"
  unfolding reaches_def fails_def by (metis add.assoc)

lemma leads_reaches: "reaches cx p fr s fr1 s \<Longrightarrow> leads cx p ev fr1 s P \<Longrightarrow> leads cx p ev fr s P"
  unfolding leads_def
  by (auto split: prod.splits sum.splits intro: reaches_trans reaches_fails)

lemma leads_vret: "P v fr \<Longrightarrow> leads cx p (vret v) fr s P"
  by (auto simp: leads_def vret_def intro: reaches_refl)

lemma leads_mono: "leads cx p ev fr s P \<Longrightarrow> (\<And>v fr'. P v fr' \<Longrightarrow> Q v fr') \<Longrightarrow> leads cx p ev fr s Q"
  by (fastforce simp: leads_def split: prod.splits sum.splits)

lemma leads_vbind:
  assumes "leads cx p ev fr s P" and "\<And>v fr' s'. P v fr' \<Longrightarrow> leads cx p (f v) fr' s' Q"
  shows "leads cx p (vbind ev f) fr s Q"
proof (cases "ev s" rule: prod.exhaust)
  case (Pair r s1)
  show ?thesis
  proof (cases r)
    case (Inl e)
    then show ?thesis using assms(1) Pair by (simp add: leads_def vbind_def)
  next
    case (Inr v)
    then obtain fr' where r: "reaches cx p fr s fr' s1" and "P v fr'"
      using assms(1) Pair by (auto simp: leads_def)
    then have "leads cx p (f v) fr' s1 Q" using assms(2) by blast
    then show ?thesis using r Pair Inr
      by (auto simp: leads_def vbind_def split: prod.splits sum.splits intro: reaches_trans reaches_fails)
  qed
qed

text \<open>One instruction.\<close>

definition at_inst :: "FuncProto \<Rightarrow> frame \<Rightarrow> Inst \<Rightarrow> bool" where
  "at_inst p fr i \<longleftrightarrow> 0 \<le> ip fr \<and> nat (ip fr) < length (code p) \<and> code p ! nat (ip fr) = i"

definition advance :: "frame \<Rightarrow> frame" where "advance fr = fr\<lparr>ip := ip fr + 1\<rparr>"

definition do_inst :: "vm_ctx \<Rightarrow> FuncProto \<Rightarrow> Inst \<Rightarrow> frame \<Rightarrow> outcome vstep" where
  "do_inst cx p i fr = exec_inst (cx_env cx) (cx_protos cx) (cx_call cx) False p (cx_closure cx) i (advance fr)"

lemma machine_step:
  "at_inst p fr i \<Longrightarrow> machine cx p (Suc n) fr s =
     (case do_inst cx p i fr s of
        (Inl e, s') \<Rightarrow> (Inl (cx_annot cx (ip fr + 1) e), s')
      | (Inr (Return v), s') \<Rightarrow> (Inr v, s')
      | (Inr (Next fr'), s') \<Rightarrow> machine cx p n fr' s')"
  by (auto simp: machine_def at_inst_def do_inst_def advance_def Let_def split: prod.split sum.split outcome.split)

lemma step_reaches: "at_inst p fr i \<Longrightarrow> do_inst cx p i fr s = (Inr (Next fr'), s') \<Longrightarrow> reaches cx p fr s fr' s'"
  unfolding reaches_def by (rule exI [of _ 1]) (simp add: machine_step)

lemma leads_inst:
  assumes i: "at_inst p fr i" and d: "do_inst cx p i fr s = vbind ev (\<lambda>v. vret (Next (f v))) s" and P: "\<And>v. P v (f v)"
  shows "leads cx p ev fr s P"
proof (cases "ev s" rule: prod.exhaust)
  case (Pair r s1)
  show ?thesis
  proof (cases r)
    case (Inl e)
    then have "fails cx p fr s e s1"
      unfolding fails_def using machine_step [OF i] d Pair
      by (intro exI [of _ 1] exI [of _ "ip fr + 1"]) (simp add: vbind_def)
    then show ?thesis using Inl Pair by (simp add: leads_def)
  next
    case (Inr v)
    then have "reaches cx p fr s (f v) s1" using d Pair by (intro step_reaches [OF i]) (simp add: vbind_def vret_def)
    then show ?thesis using Inr Pair P by (auto simp: leads_def)
  qed
qed

definition put :: "frame \<Rightarrow> nat \<Rightarrow> cvar \<Rightarrow> frame" where
  "put fr r v = fr\<lparr>stk := (stk fr)[r := v], ip := ip fr + 1\<rparr>"

lemma put_reg_plain: "put_reg False r (advance fr) v = vret (Next (put fr r v))"
  by (simp add: put_reg_def vbind_def VmWrite_def vret_def put_def advance_def fun_eq_iff)

lemma slot_plain: "VmSlot False s (advance fr) r = stk fr ! r"
  by (simp add: VmSlot_def advance_def)

lemmas plain = put_reg_plain slot_plain do_inst_def exec_inst_def Let_def

lemma vret_vbind: "vret (g x) s = vbind (vret x) (\<lambda>v. vret (g v)) s"
  by simp

lemma do_simple:
  "opc i = MOVE \<Longrightarrow> do_inst cx p i fr s = vbind (vret (stk fr ! ib i)) (\<lambda>v. vret (Next (put fr (ia i) v))) s"
  "opc i = LOADK \<Longrightarrow> do_inst cx p i fr s = vbind (vret (constants p ! nat (sbx i))) (\<lambda>v. vret (Next (put fr (ia i) v))) s"
  "opc i = LOADNIL \<Longrightarrow> do_inst cx p i fr s = vbind (vret VNil) (\<lambda>v. vret (Next (put fr (ia i) v))) s"
  "opc i = LOADBOOL \<Longrightarrow> do_inst cx p i fr s = vbind (vret (VBool (ib i \<noteq> 0))) (\<lambda>v. vret (Next (put fr (ia i) v))) s"
  "opc i = UNBOX \<Longrightarrow> do_inst cx p i fr s =
     vbind (vret (UnboxMulti (stk fr ! ib i) (ic i))) (\<lambda>v. vret (Next (put fr (ia i) v))) s"
  by (simp_all add: plain)

lemma do_unop:
  "opc i = unop_op k \<Longrightarrow> do_inst cx p i fr s =
     vbind (unop_fun (cx_env cx) (unop_op k) (stk fr ! ib i)) (\<lambda>v. vret (Next (put fr (ia i) v))) s"
  by (cases k) (simp_all add: plain exec_unop_def unop_op_def put_reg_plain [abs_def])

lemma strict_unop_op: "strict_unop env k = unop_fun env (unop_op k)"
  by (cases k) (auto simp: strict_unop_def unop_fun_def unop_op_def UnNot_def)

lemma do_not:
  "opc i = OP_NOT \<Longrightarrow> do_inst cx p i fr s =
     vbind (vret (UnNot (stk fr ! ib i))) (\<lambda>v. vret (Next (put fr (ia i) v))) s"
  by (simp add: plain exec_unop_def unop_fun_def put_reg_plain [abs_def])

lemma do_binop:
  "opc i = binop_op k \<Longrightarrow> do_inst cx p i fr s =
     vbind (vlift (binop_fun (cx_env cx) (binop_op k) (stk fr ! ib i) (stk fr ! ic i))) (\<lambda>v. vret (Next (put fr (ia i) v))) s"
  by (cases k) (simp_all add: plain exec_binop_def binop_op_def put_reg_plain [abs_def])

lemma do_gettable:
  assumes "opc i = GETTABLE"
  shows "do_inst cx p i fr s =
     vbind (eval_index (cx_env cx) (stk fr ! ib i) (stk fr ! ic i)) (\<lambda>v. vret (Next (put fr (ia i) v))) s"
  using assms
  by (cases "stk fr ! ic i")
    (simp_all add: plain exec_gettable_def eval_index_def put_reg_plain [abs_def] vbind_def vthrow_def vret_def split: prod.split)

lemma do_testjmp:
  "opc i = TESTJMP \<Longrightarrow> do_inst cx p i fr s =
     (Inr (Next (if IsTrue (stk fr ! ia i) = (ib i \<noteq> 0) then fr\<lparr>ip := ip fr + 1 + sbx i\<rparr> else advance fr)), s)"
  by (cases "ib i = 0"; simp add: plain jump_def vret_def) (simp_all add: advance_def)

lemma do_jmp: "opc i = JMP \<Longrightarrow> do_inst cx p i fr s = (Inr (Next (fr\<lparr>ip := ip fr + 1 + sbx i\<rparr>)), s)"
  by (simp add: plain jump_def vret_def advance_def)

section \<open>What a step of the generator adds\<close>

definition fresh :: "cgstate \<Rightarrow> nat" where "fresh st = max (stack_top st) (local_top st)"

text \<open>\<open>keeps\<close>: later code extends the earlier and leaves registers in use alone.\<close>

definition keeps :: "cgstate \<Rightarrow> cgstate \<Rightarrow> bool" where
  "keeps st st' \<longleftrightarrow>
     length (c_code st) \<le> length (c_code st') \<and> (\<forall>k < length (c_code st). c_code st' ! k = c_code st ! k) \<and>
     length (c_consts st) \<le> length (c_consts st') \<and> (\<forall>k < length (c_consts st). c_consts st' ! k = c_consts st ! k) \<and>
     reg_of st' = reg_of st \<and> label_scopes st' = label_scopes st \<and>
     fresh st \<le> fresh st' \<and> (fresh st \<le> c_max st \<longrightarrow> fresh st' \<le> c_max st')"

lemma keeps_refl: "keeps st st" by (simp add: keeps_def)

lemma keeps_trans: "keeps st st1 \<Longrightarrow> keeps st1 st2 \<Longrightarrow> keeps st st2"
  by (fastforce simp: keeps_def)

text \<open>The code of the function at hand agrees with what was emitted between two states.\<close>

definition agrees :: "FuncProto \<Rightarrow> cgstate \<Rightarrow> cgstate \<Rightarrow> bool" where
  "agrees p st st' \<longleftrightarrow>
     (\<forall>k. length (c_code st) \<le> k \<and> k < length (c_code st') \<longrightarrow> k < length (code p) \<and> code p ! k = c_code st' ! k) \<and>
     (\<forall>k < length (c_consts st'). constants p ! k = c_consts st' ! k)"

lemma agrees_split:
  assumes "agrees p st st2" and "keeps st st1" and "keeps st1 st2"
  shows "agrees p st st1" and "agrees p st1 st2"
  using assms by (auto simp: agrees_def keeps_def)

lemma cbind_Inr: "cbind m f st = Inr y \<longleftrightarrow> (\<exists>x st1. m st = Inr (x, st1) \<and> f x st1 = Inr y)"
  by (auto simp: cbind_def split: sum.splits prod.splits)

lemma cseq_Inr: "cseq m k st = Inr y \<longleftrightarrow> (\<exists>x st1. m st = Inr (x, st1) \<and> k st1 = Inr y)"
  by (simp add: cseq_def cbind_Inr)

lemma cret_Inr: "cret x st = Inr y \<longleftrightarrow> y = (x, st)"
  by (auto simp: cret_def)

definition mk_inst :: "Op \<Rightarrow> int \<Rightarrow> int \<Rightarrow> int \<Rightarrow> int \<Rightarrow> Inst" where
  "mk_inst k a b c x = \<lparr>opc = k, ia = nat a, ib = nat b, ic = nat c, sbx = x\<rparr>"

definition push_inst :: "Inst \<Rightarrow> cgstate \<Rightarrow> cgstate" where
  "push_inst i st = st\<lparr>c_code := c_code st @ [i], c_boxes := c_boxes st \<or> opc i = NEWBOX\<rparr>"

lemma Emit_Inr:
  "Emit k a b c x st = Inr (j, st') \<longleftrightarrow>
     byte_operand a \<and> byte_operand b \<and> byte_operand c \<and> j = length (c_code st) \<and> st' = push_inst (mk_inst k a b c x) st"
  by (auto simp: Emit_def push_inst_def mk_inst_def)

lemma emit_Inr:
  "emit k a b c x st = Inr (u, st') \<longleftrightarrow>
     byte_operand a \<and> byte_operand b \<and> byte_operand c \<and> st' = push_inst (mk_inst k a b c x) st"
  by (auto simp: emit_def cseq_Inr cret_Inr Emit_Inr)

lemma push_inst_simps [simp]:
  "c_code (push_inst i st) = c_code st @ [i]" "c_consts (push_inst i st) = c_consts st"
  "reg_of (push_inst i st) = reg_of st" "fresh (push_inst i st) = fresh st"
  "label_scopes (push_inst i st) = label_scopes st" "c_max (push_inst i st) = c_max st"
  by (simp_all add: push_inst_def fresh_def)

lemma mk_inst_simps [simp]:
  "opc (mk_inst k a b c x) = k" "ia (mk_inst k a b c x) = nat a" "ib (mk_inst k a b c x) = nat b"
  "ic (mk_inst k a b c x) = nat c" "sbx (mk_inst k a b c x) = x"
  by (simp_all add: mk_inst_def)

lemma keeps_push: "keeps st (push_inst i st)"
  by (auto simp: keeps_def nth_append)

lemma AllocReg_Inr:
  "AllocReg st = Inr (r, st') \<Longrightarrow>
   r = int (fresh st) \<and> c_code st' = c_code st \<and> c_consts st' = c_consts st \<and> reg_of st' = reg_of st \<and> fresh st' = Suc (fresh st) \<and>
   label_scopes st' = label_scopes st \<and> fresh st' \<le> c_max st'"
  by (auto simp: AllocReg_def Let_def fresh_def note_max_def split: if_splits)

lemma keeps_AllocReg: "AllocReg st = Inr (r, st') \<Longrightarrow> keeps st st'"
  by (auto simp: keeps_def dest: AllocReg_Inr)

lemma agrees_at:
  "agrees p st st' \<Longrightarrow> ip fr = int (length (c_code st)) \<Longrightarrow> keeps (push_inst i st) st' \<Longrightarrow> at_inst p fr i"
  by (auto simp: agrees_def at_inst_def keeps_def)

section \<open>Correct generators\<close>

text \<open>The values of the variables in the registers of their definitions.\<close>

definition owns :: "cg_env \<Rightarrow> (node \<Rightarrow> bool) \<Rightarrow> cgstate \<Rightarrow> bool" where
  "owns env P st \<longleftrightarrow> (\<forall>v. P v \<longrightarrow> own_local env (reg_of st) (fresh st) v)"

definition holds :: "cg_env \<Rightarrow> (node \<Rightarrow> bool) \<Rightarrow> (node \<Rightarrow> cvar) \<Rightarrow> cgstate \<Rightarrow> frame \<Rightarrow> bool" where
  "holds env P \<rho> st fr \<longleftrightarrow> (\<forall>v. P v \<longrightarrow> stk fr ! nat (reg_of st (the (var_def env v))) = \<rho> v)"

definition result_in :: "int \<Rightarrow> cgstate \<Rightarrow> int \<Rightarrow> bool" where
  "result_in dest st r \<longleftrightarrow> 0 \<le> r \<and> (if 0 \<le> dest then r = dest else r < int (fresh st))"

definition post :: "cgstate \<Rightarrow> cgstate \<Rightarrow> int \<Rightarrow> int \<Rightarrow> frame \<Rightarrow> cvar \<Rightarrow> frame \<Rightarrow> bool" where
  "post st st' dest r fr v fr' \<longleftrightarrow>
     ip fr' = int (length (c_code st')) \<and> length (stk fr') = length (stk fr) \<and> stk fr' ! nat r = v \<and>
     (\<forall>j < fresh st. int j \<noteq> dest \<longrightarrow> stk fr' ! j = stk fr ! j)"

definition starts :: "FuncProto \<Rightarrow> cgstate \<Rightarrow> cgstate \<Rightarrow> int \<Rightarrow> frame \<Rightarrow> bool" where
  "starts p st st' dest fr \<longleftrightarrow>
     agrees p st st' \<and> ip fr = int (length (c_code st)) \<and> fresh st' \<le> length (stk fr) \<and> dest < int (length (stk fr))"

definition compiles ::
  "vm_ctx \<Rightarrow> cg_env \<Rightarrow> (node \<Rightarrow> bool) \<Rightarrow> (node \<Rightarrow> cvar) \<Rightarrow> int cg \<Rightarrow> cvar vstep \<Rightarrow> int \<Rightarrow> bool" where
  "compiles cx env P \<rho> m ev dest \<longleftrightarrow>
     (\<forall>st r st'. owns env P st \<longrightarrow> m st = Inr (r, st') \<longrightarrow>
        keeps st st' \<and> result_in dest st' r \<and>
        (\<forall>p fr s. starts p st st' dest fr \<longrightarrow> holds env P \<rho> st fr \<longrightarrow> leads cx p ev fr s (post st st' dest r fr)))"

lemma compilesI:
  assumes "\<And>st r st'. owns env P st \<Longrightarrow> m st = Inr (r, st') \<Longrightarrow>
      keeps st st' \<and> result_in dest st' r"
    and "\<And>st r st' p fr s. owns env P st \<Longrightarrow> m st = Inr (r, st') \<Longrightarrow> starts p st st' dest fr \<Longrightarrow> holds env P \<rho> st fr \<Longrightarrow>
      leads cx p ev fr s (post st st' dest r fr)"
  shows "compiles cx env P \<rho> m ev dest"
  using assms by (simp add: compiles_def)

lemma compilesD:
  assumes "compiles cx env P \<rho> m ev dest" and "owns env P st" and "m st = Inr (r, st')"
  shows "keeps st st'" "result_in dest st' r"
    "starts p st st' dest fr \<Longrightarrow> holds env P \<rho> st fr \<Longrightarrow> leads cx p ev fr s (post st st' dest r fr)"
  using assms by (auto simp: compiles_def)

lemma owns_keeps: "owns env P st \<Longrightarrow> keeps st st' \<Longrightarrow> owns env P st'"
  by (fastforce simp: owns_def own_local_def keeps_def split: option.splits)

lemma holds_post:
  assumes "owns env P st" "holds env P \<rho> st fr" "keeps st st'" "post st st' (-1) r fr v fr'"
  shows "holds env P \<rho> st' fr'"
  unfolding holds_def
proof (intro allI impI)
  fix x assume x: "P x"
  then have "own_local env (reg_of st) (fresh st) x" using assms(1) by (simp add: owns_def)
  then have "0 \<le> reg_of st (the (var_def env x))" "nat (reg_of st (the (var_def env x))) < fresh st"
    by (auto simp: own_local_def split: option.splits)
  then show "stk fr' ! nat (reg_of st' (the (var_def env x))) = \<rho> x"
    using assms x by (auto simp: holds_def post_def keeps_def)
qed

lemma post_trans:
  "post st st1 (-1) r1 fr v1 fr1 \<Longrightarrow> keeps st st1 \<Longrightarrow> post st1 st2 dest r fr1 v fr2 \<Longrightarrow> post st st2 dest r fr v fr2"
  by (auto simp: post_def keeps_def)

lemma starts_first:
  "starts p st st2 dest fr \<Longrightarrow> keeps st st1 \<Longrightarrow> keeps st1 st2 \<Longrightarrow> starts p st st1 (-1) fr"
  using agrees_split(1) by (fastforce simp: starts_def keeps_def)

lemma starts_then:
  "starts p st st2 dest fr \<Longrightarrow> keeps st st1 \<Longrightarrow> keeps st1 st2 \<Longrightarrow> post st st1 (-1) r1 fr v1 fr1 \<Longrightarrow> starts p st1 st2 dest fr1"
  using agrees_split(2) by (auto simp: starts_def post_def)

text \<open>A value computed first, then the rest.\<close>

lemma compiles_then:
  assumes m: "compiles cx env P \<rho> m ev (-1)"
    and f: "\<And>st1 a r st2. owns env P st1 \<Longrightarrow> f a st1 = Inr (r, st2) \<Longrightarrow> result_in (-1) st1 a \<Longrightarrow>
        keeps st1 st2 \<and> result_in dest st2 r \<and>
        (\<forall>p fr s. starts p st1 st2 dest fr \<longrightarrow> holds env P \<rho> st1 fr \<longrightarrow>
           leads cx p (g (stk fr ! nat a)) fr s (post st1 st2 dest r fr))"
  shows "compiles cx env P \<rho> (cbind m f) (vbind ev g) dest"
proof (rule compilesI)
  fix st r st2 assume o: "owns env P st" and "cbind m f st = Inr (r, st2)"
  then obtain a st1 where 1: "m st = Inr (a, st1)" and 2: "f a st1 = Inr (r, st2)" by (auto simp: cbind_Inr)
  note M = compilesD [OF m o 1]
  note F = f [OF owns_keeps [OF o M(1)] 2 M(2)]
  show "keeps st st2 \<and> result_in dest st2 r" using M(1) F by (auto intro: keeps_trans)
next
  fix st r st2 p fr s
  assume o: "owns env P st" and "cbind m f st = Inr (r, st2)" and st: "starts p st st2 dest fr" and h: "holds env P \<rho> st fr"
  then obtain a st1 where 1: "m st = Inr (a, st1)" and 2: "f a st1 = Inr (r, st2)" by (auto simp: cbind_Inr)
  note M = compilesD [OF m o 1]
  note F = f [OF owns_keeps [OF o M(1)] 2 M(2)]
  have k: "keeps st1 st2" using F by blast
  show "leads cx p (vbind ev g) fr s (post st st2 dest r fr)"
  proof (rule leads_vbind [OF M(3) [OF starts_first [OF st M(1) k] h]])
    fix v fr' s' assume q: "post st st1 (-1) a fr v fr'"
    have "leads cx p (g (stk fr' ! nat a)) fr' s' (post st1 st2 dest r fr')"
      using F starts_then [OF st M(1) k q] holds_post [OF o h M(1) q] by blast
    moreover have "stk fr' ! nat a = v" using q by (simp add: post_def)
    ultimately show "leads cx p (g v) fr' s' (post st st2 dest r fr)"
      using post_trans [OF q M(1)] by (auto elim: leads_mono)
  qed
qed

text \<open>One instruction that fills the chosen register.\<close>

lemma pick_Inr:
  "pick dest st = Inr (r, st') \<Longrightarrow>
   keeps st st' \<and> c_code st' = c_code st \<and> c_consts st' = c_consts st \<and> result_in dest st' r \<and>
   (dest < 0 \<longrightarrow> r = int (fresh st) \<and> fresh st < fresh st')"
  using AllocReg_Inr [of st r st'] by (auto simp: pick_def cret_Inr result_in_def keeps_refl keeps_AllocReg split: if_splits)

lemma put_post:
  assumes "pick dest st = Inr (r, st1)" and "starts p st (push_inst i st1) dest fr"
  shows "post st (push_inst i st1) dest r fr v (put fr (nat r) v)"
  using assms pick_Inr [OF assms(1)]
  by (auto simp: post_def put_def starts_def result_in_def nth_list_update split: if_splits)

lemma starts_at:
  "starts p st (push_inst i st1) dest fr \<Longrightarrow> c_code st1 = c_code st \<Longrightarrow> at_inst p fr i"
  by (auto simp: starts_def agrees_def at_inst_def)

lemma pick_inst:
  assumes p: "pick dest st = Inr (r, st1)" and s: "starts p st (push_inst i st1) dest fr" and i: "ia i = nat r"
    and d: "do_inst cx p i fr s = vbind ev (\<lambda>v. vret (Next (put fr (ia i) v))) s"
  shows "leads cx p ev fr s (post st (push_inst i st1) dest r fr)"
  using starts_at [OF s] pick_Inr [OF p] put_post [OF p s] d i by (intro leads_inst [where f = "put fr (nat r)"]) auto

section \<open>The pieces\<close>

text \<open>Constants.\<close>

lemma LoadConstTo_Inr:
  assumes "LoadConstTo r v st = Inr (x, st')"
  obtains i st1 where "x = r" "st' = push_inst i st1" "c_code st1 = c_code st" "keeps st st1" "fresh st1 = fresh st" "ia i = nat r"
    "\<And>cx p fr s. agrees p st st' \<Longrightarrow> do_inst cx p i fr s = vbind (vret v) (\<lambda>v. vret (Next (put fr (ia i) v))) s"
proof -
  let ?K = "mk_inst LOADK r 0 0 (int (length (c_consts st)))" and ?st = "st\<lparr>c_consts := c_consts st @ [v]\<rparr>"
  have k: "keeps st ?st" by (simp add: keeps_def nth_append fresh_def)
  consider "v = VNil" | b where "v = VBool b"
    | "LoadConstTo r v = cbind (AddConst v) (\<lambda>k. cseq (emit LOADK r 0 0 k) (cret r))"
    by (cases v) (auto simp: LoadConstTo_def)
  then show thesis
  proof cases
    case 1
    then show thesis using assms
      by (intro that [of "mk_inst LOADNIL r 0 0 0" st])
        (auto simp: LoadConstTo_def cseq_Inr emit_Inr cret_Inr do_simple keeps_refl)
  next
    case 2
    then show thesis using assms
      by (intro that [of "mk_inst LOADBOOL r (if b then 1 else 0) 0 0" st])
        (auto simp: LoadConstTo_def cseq_Inr emit_Inr cret_Inr do_simple keeps_refl)
  next
    case 3
    then show thesis using assms k
      by (intro that [of ?K ?st])
        (auto simp: cbind_Inr cseq_Inr emit_Inr cret_Inr do_simple AddConst_def fresh_def agrees_def)
  qed
qed

lemma agrees_code: "agrees p st st2 \<Longrightarrow> c_code st1 = c_code st \<Longrightarrow> agrees p st1 st2"
  by (simp add: agrees_def)

lemma starts_code: "starts p st st2 d fr \<Longrightarrow> c_code st1 = c_code st \<Longrightarrow> starts p st1 st2 d fr"
  by (simp add: starts_def agrees_def)

lemma post_code: "post st st2 d r fr v fr' \<Longrightarrow> fresh st1 \<le> fresh st \<Longrightarrow> post st1 st2 d r fr v fr'"
  by (simp add: post_def)

lemma compiles_const: "compiles cx env P \<rho> (load_const dest v) (vret v) dest"
proof -
  have "keeps st st' \<and> result_in dest st' r \<and>
      (starts p st st' dest fr \<longrightarrow> leads cx p (vret v) fr s (post st st' dest r fr))"
    if c: "load_const dest v st = Inr (r, st')" for st r st' p fr s
  proof -
    obtain st0 where p: "pick dest st = Inr (r, st0)" and l: "LoadConstTo r v st0 = Inr (r, st')"
      using c by (auto simp: load_const_def cbind_Inr elim: LoadConstTo_Inr)
    obtain i st1 where i: "st' = push_inst i st1" "c_code st1 = c_code st0" "keeps st0 st1" "fresh st1 = fresh st0" "ia i = nat r"
      and d: "\<And>cx p fr s. agrees p st0 st' \<Longrightarrow> do_inst cx p i fr s = vbind (vret v) (\<lambda>v. vret (Next (put fr (ia i) v))) s"
      using LoadConstTo_Inr [OF l] by metis
    note P = pick_Inr [OF p]
    have k: "keeps st st'" using P i(1,3) keeps_push by (auto intro: keeps_trans)
    have r: "result_in dest st' r" using P i by (auto simp: result_in_def)
    have "leads cx p (vret v) fr s (post st st' dest r fr)" if st: "starts p st st' dest fr"
    proof -
      have cs: "c_code st1 = c_code st" using P i(2) by simp
      have a: "at_inst p fr i" using starts_at [OF _ cs] st i(1) by simp
      have "post st st' dest r fr x (put fr (nat r) x)" for x
        using st P i by (auto simp: post_def put_def starts_def result_in_def nth_list_update split: if_splits)
      moreover have "do_inst cx p i fr s = vbind (vret v) (\<lambda>v. vret (Next (put fr (nat r) v))) s"
        using d [of p cx fr s] st P i(5) by (simp add: starts_def agrees_def)
      ultimately show ?thesis using leads_inst [OF a] by blast
    qed
    then show ?thesis using k r by blast
  qed
  then show ?thesis by (intro compilesI) blast+
qed

text \<open>A local stays where it is.\<close>

lemma compiles_local:
  assumes "P v" shows "compiles cx env P \<rho> (ResolveSimpleName env v n) (vret (\<rho> v)) (-1)"
proof -
  have "ResolveSimpleName env v n st = Inr (reg_of st (the (var_def env v)), st)" and "result_in (-1) st (reg_of st (the (var_def env v)))"
    if "owns env P st" for st
    using that assms
    by (auto simp: owns_def own_local_def ResolveSimpleName_def LoadLocal_def cget_def result_in_def split: option.splits)
  then show ?thesis using assms
    by (intro compilesI) (auto simp: keeps_refl holds_def post_def starts_def intro!: leads_vret)
qed

text \<open>Moving a value to its destination, and operators.\<close>

lemma result_in_push [simp]: "result_in dest (push_inst i st) r = result_in dest st r"
  by (simp add: result_in_def)

lemma compiles_1:
  assumes m: "compiles cx env P \<rho> m ev (-1)"
    and d: "\<And>i p fr s. opc i = k \<Longrightarrow> ic i = 0 \<Longrightarrow> do_inst cx p i fr s = vbind (g (stk fr ! ib i)) (\<lambda>v. vret (Next (put fr (ia i) v))) s"
  shows "compiles cx env P \<rho> (cbind m (\<lambda>x. cbind (pick dest) (\<lambda>r. cseq (emit k r x 0 0) (cret r)))) (vbind ev g) dest"
proof (rule compiles_then [OF m])
  fix st1 a r st2
  assume "cbind (pick dest) (\<lambda>r. cseq (emit k r a 0 0) (cret r)) st1 = Inr (r, st2)" and "result_in (-1) st1 a"
  then obtain st0 where p: "pick dest st1 = Inr (r, st0)" and 2: "st2 = push_inst (mk_inst k r a 0 0) st0"
    by (auto simp: cbind_Inr cseq_Inr emit_Inr cret_Inr)
  note P = pick_Inr [OF p]
  have "keeps st1 st2" "result_in dest st2 r" using P 2 keeps_push by (auto intro: keeps_trans)
  moreover have "leads cx p (g (stk fr ! nat a)) fr s (post st1 st2 dest r fr)" if "starts p st1 st2 dest fr" for p fr s
    using pick_inst [OF p, of p "mk_inst k r a 0 0" fr cx s "g (stk fr ! nat a)"] d that by (simp add: 2)
  ultimately show "keeps st1 st2 \<and> result_in dest st2 r \<and> (\<forall>p fr s. starts p st1 st2 dest fr \<longrightarrow> holds env P \<rho> st1 fr \<longrightarrow>
           leads cx p (g (stk fr ! nat a)) fr s (post st1 st2 dest r fr))" by blast
qed

lemma vbind_vret: "vbind m vret = m"
  by (auto simp: vbind_def vret_def fun_eq_iff split: prod.split sum.split)

lemma compiles_commit:
  assumes m: "compiles cx env P \<rho> m ev (-1)"
  shows "compiles cx env P \<rho> (cbind m (CommitDest dest)) ev dest"
proof -
  have "compiles cx env P \<rho> (cbind m (CommitDest dest)) (vbind ev vret) dest"
  proof (rule compiles_then [OF m])
    fix st1 a r st2
    assume c: "CommitDest dest a st1 = Inr (r, st2)" and a: "result_in (-1) st1 a"
    have "keeps st1 st2 \<and> result_in dest st2 r \<and>
       (starts p st1 st2 dest fr \<longrightarrow> leads cx p (vret (stk fr ! nat a)) fr s (post st1 st2 dest r fr))" for p fr s
    proof (cases "0 \<le> dest \<and> dest \<noteq> a")
      case False
      then have "r = a" "st2 = st1" using c by (auto simp: CommitDest_def MoveTo_def cret_Inr split: if_splits)
      then show ?thesis using a False
        by (auto simp: keeps_refl result_in_def post_def starts_def intro!: leads_vret)
    next
      case True
      then have p: "pick dest st1 = Inr (dest, st1)" and 2: "r = dest" "st2 = push_inst (mk_inst MOVE dest a 0 0) st1"
        using c by (auto simp: CommitDest_def MoveTo_def pick_def cret_def cseq_Inr emit_Inr cret_Inr)
      have "leads cx p (vret (stk fr ! nat a)) fr s (post st1 st2 dest r fr)" if "starts p st1 st2 dest fr"
        using pick_inst [OF p, of p "mk_inst MOVE dest a 0 0" fr cx s "vret (stk fr ! nat a)"] that by (simp add: 2 do_simple)
      then show ?thesis using True 2 keeps_push by (simp add: result_in_def)
    qed
    then show "keeps st1 st2 \<and> result_in dest st2 r \<and> (\<forall>p fr s. starts p st1 st2 dest fr \<longrightarrow> holds env P \<rho> st1 fr \<longrightarrow>
           leads cx p (vret (stk fr ! nat a)) fr s (post st1 st2 dest r fr))" by blast
  qed
  then show ?thesis by (simp add: vbind_vret)
qed

text \<open>Two operands, then code that fills a register from two others.\<close>

definition fills :: "vm_ctx \<Rightarrow> (int \<Rightarrow> int \<Rightarrow> int \<Rightarrow> unit cg) \<Rightarrow> (cvar \<Rightarrow> cvar \<Rightarrow> cvar vstep) \<Rightarrow> bool" where
  "fills cx c g \<longleftrightarrow>
     (\<forall>r a b st u st'. c r a b st = Inr (u, st') \<longrightarrow> 0 \<le> r \<longrightarrow>
        keeps st st' \<and> fresh st' = fresh st \<and>
        (\<forall>p fr s. agrees p st st' \<longrightarrow> ip fr = int (length (c_code st)) \<longrightarrow> nat r < length (stk fr) \<longrightarrow>
           leads cx p (g (stk fr ! nat a) (stk fr ! nat b)) fr s
             (\<lambda>v fr'. fr' = fr\<lparr>stk := (stk fr)[nat r := v], ip := int (length (c_code st'))\<rparr>)))"

lemma fills_one:
  assumes "\<And>i p fr s. opc i = k \<Longrightarrow>
      do_inst cx p i fr s = vbind (g (stk fr ! ib i) (stk fr ! ic i)) (\<lambda>v. vret (Next (put fr (ia i) v))) s"
  shows "fills cx (\<lambda>r a b. emit k r a b 0) g"
  unfolding fills_def
proof (intro allI impI conjI)
  fix r a b st u st' assume e: "emit k r a b 0 st = Inr (u, st')" "0 \<le> r"
  then have st': "st' = push_inst (mk_inst k r a b 0) st" by (simp add: emit_Inr)
  then show "keeps st st'" "fresh st' = fresh st" by (simp_all add: keeps_push)
  fix p and fr :: frame and s assume ag: "agrees p st st'" "ip fr = int (length (c_code st))" "nat r < length (stk fr)"
  have "at_inst p fr (mk_inst k r a b 0)" using ag st' by (auto simp: agrees_def at_inst_def)
  then show "leads cx p (g (stk fr ! nat a) (stk fr ! nat b)) fr s
     (\<lambda>v fr'. fr' = fr\<lparr>stk := (stk fr)[nat r := v], ip := int (length (c_code st'))\<rparr>)"
    by (rule leads_inst [where f = "put fr (nat r)"]) (use assms [of "mk_inst k r a b 0"] ag st' in \<open>auto simp: put_def\<close>)
qed

lemma fills_swap: "fills cx c g \<Longrightarrow> fills cx (\<lambda>r a b. c r b a) (\<lambda>x y. g y x)"
  by (simp add: fills_def)

lemma fills_not:
  assumes c: "fills cx c g"
  shows "fills cx (\<lambda>r a b. cseq (c r a b) (emit OP_NOT r r 0 0)) (\<lambda>x y. vbind (g x y) (\<lambda>v. vret (UnNot v)))"
  unfolding fills_def
proof (intro allI impI conjI)
  fix r a b st u st' assume e: "cseq (c r a b) (emit OP_NOT r r 0 0) st = Inr (u, st')" and r: "0 \<le> r"
  then obtain x st1 where 1: "c r a b st = Inr (x, st1)" and 2: "st' = push_inst (mk_inst OP_NOT r r 0 0) st1"
    by (auto simp: cseq_Inr emit_Inr)
  note C = c [unfolded fills_def, rule_format, OF 1 r]
  have k: "keeps st st1" "keeps st1 st'" using C 2 by (simp_all add: keeps_push)
  show "keeps st st'" "fresh st' = fresh st" using C k 2 by (auto intro: keeps_trans)
  fix p and fr :: frame and s assume ag: "agrees p st st'" and i: "ip fr = int (length (c_code st))" and l: "nat r < length (stk fr)"
  show "leads cx p (vbind (g (stk fr ! nat a) (stk fr ! nat b)) (\<lambda>v. vret (UnNot v))) fr s
     (\<lambda>v fr'. fr' = fr\<lparr>stk := (stk fr)[nat r := v], ip := int (length (c_code st'))\<rparr>)"
  proof (rule leads_vbind)
    show "leads cx p (g (stk fr ! nat a) (stk fr ! nat b)) fr s
       (\<lambda>v fr'. fr' = fr\<lparr>stk := (stk fr)[nat r := v], ip := int (length (c_code st1))\<rparr>)"
      using C agrees_split(1) [OF ag k] i l by blast
    fix v fr' s' assume q: "fr' = fr\<lparr>stk := (stk fr)[nat r := v], ip := int (length (c_code st1))\<rparr>"
    have "at_inst p fr' (mk_inst OP_NOT r r 0 0)"
      using agrees_split(2) [OF ag k] 2 q by (auto simp: agrees_def at_inst_def)
    then show "leads cx p (vret (UnNot v)) fr' s'
       (\<lambda>v fr'. fr' = fr\<lparr>stk := (stk fr)[nat r := v], ip := int (length (c_code st'))\<rparr>)"
      by (rule leads_inst [where f = "put fr' (nat r)"]) (use q 2 l in \<open>auto simp: put_def do_not\<close>)
  qed
qed

text \<open>The fast paths for integers agree with the operations themselves.\<close>

lemma int_fast_id: "(\<And>x y. a = VInt x \<Longrightarrow> b = VInt y \<Longrightarrow> slow = Inr (f x y)) \<Longrightarrow> int_fast f slow a b = slow"
  by (auto simp: int_fast_def split: cvar.split)

lemma binop_fun_simps:
  "binop_fun env ADD a b = BinAdd a b" "binop_fun env SUB a b = BinSub a b" "binop_fun env MUL a b = BinMul a b"
  "binop_fun env EQ a b = Inr (VBool (Equal a b))"
  unfolding binop_fun_def Op.case
  by (rule int_fast_id; simp add: BinAdd_def BinSub_def BinMul_def num_binop_def)+

lemmas binop_fun_other = binop_fun_def [where k = DIV, simplified] binop_fun_def [where k = IDIV, simplified]
  binop_fun_def [where k = MOD, simplified] binop_fun_def [where k = POW, simplified] binop_fun_def [where k = BAND, simplified]
  binop_fun_def [where k = BXOR, simplified] binop_fun_def [where k = BOR, simplified] binop_fun_def [where k = SHL, simplified]
  binop_fun_def [where k = SHR, simplified] binop_fun_def [where k = CONCAT, simplified] binop_fun_def [where k = LT, simplified]
  binop_fun_def [where k = LE, simplified]

lemma vlift_Inr: "vlift (Inr x) = vret x"
  by (simp add: vlift_def)

lemma fills_binop: "k \<noteq> kAnd \<Longrightarrow> k \<noteq> kOr \<Longrightarrow> fills cx (emit_binop k) (strict_binop (cx_env cx) k)"
proof -
  have b: "fills cx (\<lambda>r a b. emit (binop_op k) r a b 0) (\<lambda>x y. vlift (binop_fun (cx_env cx) (binop_op k) x y))" for k
    by (rule fills_one) (rule do_binop)
  note lt = fills_swap [OF b [of kMore]] and le = fills_swap [OF b [of kMoreEqual]] and ne = fills_not [OF b [of kNotEqual]]
  assume "k \<noteq> kAnd" "k \<noteq> kOr"
  then show ?thesis
    using b [of k] lt le ne
    by (cases k) (simp_all add: emit_binop_def [abs_def] strict_binop_def [abs_def] binop_op_def binop_fun_simps
        binop_fun_other vlift_Inr UnNot_def)
qed

lemma fills_gettable: "fills cx (\<lambda>r a b. emit GETTABLE r a b 0) (eval_index (cx_env cx))"
  by (rule fills_one) (rule do_gettable)

lemma compiles_2:
  assumes m1: "compiles cx env P \<rho> m1 ev1 (-1)" and m2: "compiles cx env P \<rho> m2 ev2 (-1)" and c: "fills cx c g"
  shows "compiles cx env P \<rho> (cbind m1 (\<lambda>a. cbind m2 (\<lambda>b. cbind (pick dest) (\<lambda>r. cseq (c r a b) (cret r)))))
     (vbind ev1 (\<lambda>x. vbind ev2 (g x))) dest"
proof (rule compiles_then [OF m1])
  fix st1 a r st4
  assume o: "owns env P st1" and "cbind m2 (\<lambda>b. cbind (pick dest) (\<lambda>r. cseq (c r a b) (cret r))) st1 = Inr (r, st4)"
    and a: "result_in (-1) st1 a"
  then obtain b st2 st3 u where 2: "m2 st1 = Inr (b, st2)" and 3: "pick dest st2 = Inr (r, st3)" and 4: "c r a b st3 = Inr (u, st4)"
    by (auto simp: cbind_Inr cseq_Inr cret_Inr)
  note M = compilesD [OF m2 o 2]
  note P3 = pick_Inr [OF 3]
  have r0: "0 \<le> r" using P3 by (simp add: result_in_def)
  note C = c [unfolded fills_def, rule_format, OF 4 r0]
  have k: "keeps st1 st2" "keeps st2 st3" "keeps st3 st4" using M(1) P3 C by auto
  have k4: "keeps st2 st4" using k by (auto intro: keeps_trans)
  have "leads cx p (vbind ev2 (g (stk fr ! nat a))) fr s (post st1 st4 dest r fr)"
    if st: "starts p st1 st4 dest fr" and h: "holds env P \<rho> st1 fr" for p fr s
  proof (rule leads_vbind [OF M(3) [OF starts_first [OF st k(1) k4] h]])
    fix v fr' s' assume q: "post st1 st2 (-1) b fr v fr'"
    have S: "starts p st2 st4 dest fr'" using starts_then [OF st k(1) k4 q] .
    have eq: "stk fr' ! nat a = stk fr ! nat a" "stk fr' ! nat b = v" using a q by (auto simp: result_in_def post_def)
    have l: "nat r < length (stk fr')"
      using S P3 C by (auto simp: starts_def result_in_def split: if_splits)
    have "leads cx p (g (stk fr' ! nat a) (stk fr' ! nat b)) fr' s'
        (\<lambda>v fr''. fr'' = fr'\<lparr>stk := (stk fr')[nat r := v], ip := int (length (c_code st4))\<rparr>)"
      using C S l P3 agrees_split(2) [of p st2 st4 st3] k by (auto simp: starts_def)
    then show "leads cx p (g (stk fr ! nat a) v) fr' s' (post st1 st4 dest r fr)"
      unfolding eq
    proof (rule leads_mono)
      fix x fr'' assume f: "fr'' = fr'\<lparr>stk := (stk fr')[nat r := x], ip := int (length (c_code st4))\<rparr>"
      have "post st2 st4 dest r fr' x fr''"
        using f l P3 by (auto simp: post_def nth_list_update result_in_def split: if_splits)
      then show "post st1 st4 dest r fr x fr''" by (rule post_trans [OF q k(1)])
    qed
  qed
  moreover have "keeps st1 st4" "result_in dest st4 r" using k k4 P3 C by (auto simp: result_in_def intro: keeps_trans)
  ultimately show "keeps st1 st4 \<and> result_in dest st4 r \<and> (\<forall>p fr s. starts p st1 st4 dest fr \<longrightarrow> holds env P \<rho> st1 fr \<longrightarrow>
           leads cx p (vbind ev2 (g (stk fr ! nat a))) fr s (post st1 st4 dest r fr))" by blast
qed

section \<open>Short circuit\<close>

lemma MoveTo_Inr:
  "MoveTo d x st = Inr (r, st') \<longleftrightarrow>
     r = d \<and> (if d = x then st' = st else byte_operand d \<and> byte_operand x \<and> st' = push_inst (mk_inst MOVE d x 0 0) st)"
  by (auto simp: MoveTo_def cret_Inr cseq_Inr emit_Inr byte_operand_def)

lemma MoveTo_facts:
  "MoveTo d x st = Inr (r, st') \<Longrightarrow> keeps st st' \<and> fresh st' = fresh st \<and> c_consts st' = c_consts st \<and> r = d"
  by (auto simp: MoveTo_Inr keeps_refl keeps_push split: if_splits)

lemma move_reaches:
  assumes "MoveTo d x st = Inr (r, st')" and "agrees p st st'" and "ip fr = int (length (c_code st))"
  shows "reaches cx p fr s (fr\<lparr>stk := (stk fr)[nat d := stk fr ! nat x], ip := int (length (c_code st'))\<rparr>) s"
proof (cases "d = x")
  case True
  then have "fr\<lparr>stk := (stk fr)[nat d := stk fr ! nat x], ip := int (length (c_code st'))\<rparr> = fr"
    using assms by (simp add: MoveTo_Inr)
  then show ?thesis by (simp add: reaches_refl)
next
  case False
  then have st': "st' = push_inst (mk_inst MOVE d x 0 0) st" using assms(1) by (simp add: MoveTo_Inr)
  have "at_inst p fr (mk_inst MOVE d x 0 0)" using assms st' by (auto simp: agrees_def at_inst_def)
  then show ?thesis using assms(3) st' by (intro step_reaches) (auto simp: do_simple put_def vret_def)
qed

definition patch :: "nat \<Rightarrow> nat \<Rightarrow> cgstate \<Rightarrow> cgstate" where
  "patch k dest st = st\<lparr>c_code := (c_code st)[k := (c_code st ! k)\<lparr>sbx := int dest - int k - 1\<rparr>]\<rparr>"

lemma PatchSbx_Inr: "PatchSbx k d st = Inr (u, st') \<longleftrightarrow> st' = patch k d st"
  by (auto simp: PatchSbx_def cmodify_def patch_def)

lemma patch_simps [simp]:
  "length (c_code (patch k d st)) = length (c_code st)" "c_consts (patch k d st) = c_consts st"
  "reg_of (patch k d st) = reg_of st" "fresh (patch k d st) = fresh st"
  "label_scopes (patch k d st) = label_scopes st" "c_max (patch k d st) = c_max st"
  "j \<noteq> k \<Longrightarrow> c_code (patch k d st) ! j = c_code st ! j"
  "k < length (c_code st) \<Longrightarrow> c_code (patch k d st) ! k = (c_code st ! k)\<lparr>sbx := int d - int k - 1\<rparr>"
  by (simp_all add: patch_def fresh_def)

definition short_circuit :: "int \<Rightarrow> int \<Rightarrow> int cg \<Rightarrow> int cg \<Rightarrow> int cg" where
  "short_circuit c dest L R =
     cbind (pick dest) (\<lambda>result. cbind L (\<lambda>left. cbind (Emit TESTJMP left c 0 0) (\<lambda>jmp. cbind R (\<lambda>right.
       cseq (MoveTo result right) (cbind (Emit JMP 0 0 0 0) (\<lambda>jmp_end. cbind here (\<lambda>h. cseq (PatchSbx jmp h) (
       cseq (MoveTo result left) (cbind here (\<lambda>h. cseq (PatchSbx jmp_end h) (cret result)))))))))))"

text \<open>The states that the generator goes through.\<close>

lemma short_circuit_states:
  assumes "short_circuit c dest L R st = Inr (r, st')"
  obtains a b st0 st1 st2 st3 st4 st5 st6 st7 where
    "pick dest st = Inr (r, st0)" "L st0 = Inr (a, st1)" "st2 = push_inst (mk_inst TESTJMP a c 0 0) st1"
    "R st2 = Inr (b, st3)" "MoveTo r b st3 = Inr (r, st4)" "st5 = push_inst (mk_inst JMP 0 0 0 0) st4"
    "st6 = patch (length (c_code st1)) (length (c_code st5)) st5" "MoveTo r a st6 = Inr (r, st7)"
    "st' = patch (length (c_code st4)) (length (c_code st7)) st7" "byte_operand c"
  using assms MoveTo_facts
  by (fastforce simp: short_circuit_def cbind_Inr cseq_Inr cret_Inr Emit_Inr PatchSbx_Inr here_def cget_def)

lemma compiles_short_circuit:
  assumes L: "compiles cx env P \<rho> L ev1 (-1)" and R: "compiles cx env P \<rho> R ev2 (-1)"
  shows "compiles cx env P \<rho> (short_circuit c dest L R)
     (vbind ev1 (\<lambda>x. if IsTrue x = (c \<noteq> 0) then vret x else ev2)) dest"
proof -
  have "keeps st st' \<and> result_in dest st' r \<and>
      (starts p st st' dest fr \<longrightarrow> holds env P \<rho> st fr \<longrightarrow>
       leads cx p (vbind ev1 (\<lambda>x. if IsTrue x = (c \<noteq> 0) then vret x else ev2)) fr s (post st st' dest r fr))"
    if o: "owns env P st" and m: "short_circuit c dest L R st = Inr (r, st')" for st r st' p fr s
  proof -
    from short_circuit_states [OF m] obtain a b st0 st1 st2 st3 st4 st5 st6 st7 where
      s0: "pick dest st = Inr (r, st0)" and s1: "L st0 = Inr (a, st1)" and s2: "st2 = push_inst (mk_inst TESTJMP a c 0 0) st1"
      and s3: "R st2 = Inr (b, st3)" and s4: "MoveTo r b st3 = Inr (r, st4)" and s5: "st5 = push_inst (mk_inst JMP 0 0 0 0) st4"
      and s6: "st6 = patch (length (c_code st1)) (length (c_code st5)) st5" and s7: "MoveTo r a st6 = Inr (r, st7)"
      and s8: "st' = patch (length (c_code st4)) (length (c_code st7)) st7" and s9: "byte_operand c" by metis
    note p0 = pick_Inr [OF s0]
    have o0: "owns env P st0" using owns_keeps o p0 by blast
    note L1 = compilesD [OF L o0 s1]
    have k2: "keeps st1 st2" using s2 keeps_push by simp
    have o2: "owns env P st2" using owns_keeps o0 L1(1) k2 by blast
    note R3 = compilesD [OF R o2 s3]
    note m4 = MoveTo_facts [OF s4] and m7 = MoveTo_facts [OF s7]
    let ?j = "length (c_code st1)" and ?e = "length (c_code st4)"
    have k5: "keeps st4 st5" "keeps st3 st4" using s5 keeps_push m4 by simp_all
    have k15: "keeps st2 st5" using R3(1) k5 by (auto intro: keeps_trans)
    have k05: "keeps st st5" using p0 L1(1) k2 k15 by (auto intro: keeps_trans)
    have lens: "length (c_code st0) = length (c_code st)" "length (c_code st) \<le> ?j" "length (c_code st2) = Suc ?j"
      "Suc ?j \<le> length (c_code st3)" "length (c_code st3) \<le> ?e" "length (c_code st5) = Suc ?e" "length (c_code st6) = Suc ?e"
      "Suc ?e \<le> length (c_code st7)" "length (c_code st') = length (c_code st7)"
      using p0 L1(1) s2 R3(1) m4 s5 s6 m7 s8 by (auto simp: keeps_def)
    have code: "c_code st' ! k = c_code st5 ! k" if "k < length (c_code st5)" "k \<noteq> ?j" "k \<noteq> ?e" for k
      using that lens m7 by (auto simp: s8 s6 keeps_def)
    have kons: "c_consts st' = c_consts st3" "c_consts st7 = c_consts st3" "c_consts st4 = c_consts st3"
      using m4 m7 by (simp_all add: s8 s6 s5)
    have test: "c_code st' ! ?j = mk_inst TESTJMP a c 0 (int (Suc ?e) - int ?j - 1)"
    proof -
      have "c_code st5 ! ?j = mk_inst TESTJMP a c 0 0" using k15 lens by (auto simp: keeps_def s2 nth_append)
      then show ?thesis using lens m7 by (auto simp: s8 s6 keeps_def mk_inst_def)
    qed
    have jmp: "c_code st' ! ?e = mk_inst JMP 0 0 0 (int (length (c_code st7)) - int ?e - 1)"
    proof -
      have "c_code st7 ! ?e = mk_inst JMP 0 0 0 0" using m7 lens by (auto simp: keeps_def s6 s5 nth_append)
      then show ?thesis using lens by (simp add: s8 mk_inst_def)
    qed
    have fresh: "fresh st \<le> fresh st0" "fresh st0 \<le> fresh st1" "fresh st2 = fresh st1" "fresh st1 \<le> fresh st3" "fresh st' = fresh st3"
      using p0 L1(1) R3(1) m4 m7 by (auto simp: keeps_def s2 s8 s6 s5)
    have K: "keeps st st'"
      using k05 lens code kons fresh m7 R3(1) by (auto simp: keeps_def s8 s6 s5)
    have res: "result_in dest st' r" using p0 fresh by (auto simp: result_in_def)
    have "leads cx p (vbind ev1 (\<lambda>x. if IsTrue x = (c \<noteq> 0) then vret x else ev2)) fr s (post st st' dest r fr)"
      if S: "starts p st st' dest fr" and h: "holds env P \<rho> st fr"
    proof -
      have ag: "agrees p st st'" and ipfr: "ip fr = int (length (c_code st))" and room: "fresh st' \<le> length (stk fr)" "dest < int (length (stk fr))"
        using S by (simp_all add: starts_def)
      have r: "nat r < length (stk fr)" using res room by (auto simp: result_in_def split: if_splits)
      have A: "agrees p st0 st1" "agrees p st2 st3" "agrees p st3 st4" "agrees p st6 st7"
      proof -
        have in_p: "k < length (code p) \<and> code p ! k = c_code st5 ! k" if "length (c_code st) \<le> k" "k < ?e" "k \<noteq> ?j" for k
          using ag code [of k] that lens by (auto simp: agrees_def)
        have "c_code st5 ! k = c_code st1 ! k" if "k < ?j" for k using that k2 k15 by (auto simp: keeps_def)
        then show "agrees p st0 st1" using in_p lens ag kons k2 R3(1) by (auto simp: agrees_def keeps_def)
        have "c_code st5 ! k = c_code st3 ! k" if "k < length (c_code st3)" for k using that k5 lens by (auto simp: keeps_def)
        then show "agrees p st2 st3" using in_p lens ag kons by (auto simp: agrees_def)
        have "c_code st5 ! k = c_code st4 ! k" if "k < ?e" for k using that k5 by (auto simp: keeps_def)
        then show "agrees p st3 st4" using in_p lens ag kons by (auto simp: agrees_def)
        show "agrees p st6 st7" using ag lens kons by (auto simp: agrees_def s8)
      qed
      have at: "at_inst p fr1 i" if "ip fr1 = int k" "length (c_code st) \<le> k" "k < length (c_code st')" "c_code st' ! k = i" for fr1 i k
        using ag that by (auto simp: agrees_def at_inst_def)
      have S0: "starts p st0 st1 (-1) fr" using A(1) ipfr lens room fresh by (simp add: starts_def)
      have h0: "holds env P \<rho> st0 fr" using h p0 by (auto simp: holds_def keeps_def)
      show ?thesis
      proof (rule leads_vbind [OF L1(3) [OF S0 h0]])
        fix x fr1 s1 assume q: "post st0 st1 (-1) a fr x fr1"
        then have ip1: "ip fr1 = int ?j" and l1: "length (stk fr1) = length (stk fr)" and x: "stk fr1 ! nat a = x" by (auto simp: post_def)
        have t: "at_inst p fr1 (mk_inst TESTJMP a c 0 (int (Suc ?e) - int ?j - 1))"
          using at [OF ip1 _ _ test] lens by simp
        note step = step_reaches [OF t do_testjmp, unfolded mk_inst_simps x]
        have byte: "0 \<le> c" using s9 by (simp add: byte_operand_def)
        have jump: "reaches cx p fr1 s1 (fr1\<lparr>ip := int (Suc ?e)\<rparr>) s1" if "IsTrue x = (c \<noteq> 0)"
          using step [of cx s1] that ip1 byte by simp
        have fall: "reaches cx p fr1 s1 (advance fr1) s1" if "IsTrue x \<noteq> (c \<noteq> 0)"
          using step [of cx s1] that ip1 byte by simp
        show "leads cx p (if IsTrue x = (c \<noteq> 0) then vret x else ev2) fr1 s1 (post st st' dest r fr)"
        proof (cases "IsTrue x = (c \<noteq> 0)")
          case True
          let ?fr = "fr1\<lparr>stk := (stk fr1)[nat r := x], ip := int (length (c_code st7))\<rparr>"
          have "reaches cx p fr1 s1 ?fr s1"
            using reaches_trans [OF jump [OF True] move_reaches [OF s7 A(4)]] lens x by simp
          moreover have "post st st' dest r fr x ?fr"
            using q r l1 lens fresh p0 by (auto simp: post_def nth_list_update result_in_def split: if_splits)
          ultimately show ?thesis using True by (auto intro: leads_reaches leads_vret)
        next
          case False
          have f2: "ip (advance fr1) = int (length (c_code st2))" using ip1 lens by (simp add: advance_def)
          have S2: "starts p st2 st3 (-1) (advance fr1)" using A(2) f2 room fresh l1 by (simp add: starts_def advance_def)
          have h2: "holds env P \<rho> st2 (advance fr1)"
            using holds_post [OF o0 h0 L1(1) q] by (simp add: holds_def advance_def s2)
          have "leads cx p ev2 (advance fr1) s1 (post st st' dest r fr)"
          proof (rule leads_vbind [OF R3(3) [OF S2 h2], of vret, unfolded vbind_vret])
            fix y fr2 s2' assume q2: "post st2 st3 (-1) b (advance fr1) y fr2"
            then have ip2: "ip fr2 = int (length (c_code st3))" and l2: "length (stk fr2) = length (stk fr)" and y: "stk fr2 ! nat b = y"
              using l1 by (auto simp: post_def advance_def)
            let ?fr3 = "fr2\<lparr>stk := (stk fr2)[nat r := y], ip := int ?e\<rparr>" and ?fr = "fr2\<lparr>stk := (stk fr2)[nat r := y], ip := int (length (c_code st7))\<rparr>"
            have m: "reaches cx p fr2 s2' ?fr3 s2'" using move_reaches [OF s4 A(3) ip2] y by simp
            have "at_inst p ?fr3 (mk_inst JMP 0 0 0 (int (length (c_code st7)) - int ?e - 1))"
              using at [OF _ _ _ jmp] lens by simp
            then have "reaches cx p ?fr3 s2' ?fr s2'" by (rule step_reaches) (simp add: do_jmp)
            then have "reaches cx p fr2 s2' ?fr s2'" using m reaches_trans by blast
            moreover have "post st st' dest r fr y ?fr"
              using q q2 r l2 lens fresh p0
              by (auto simp: post_def advance_def nth_list_update result_in_def split: if_splits)
            ultimately show "leads cx p (vret y) fr2 s2' (post st st' dest r fr)" by (auto intro: leads_reaches leads_vret)
          qed
          then show ?thesis using leads_reaches [OF fall [OF False]] False by simp
        qed
      qed
    qed
    then show ?thesis using K res by blast
  qed
  then show ?thesis by (intro compilesI) blast+
qed

section \<open>Expressions\<close>

lemma compiles_never: "(\<And>st. \<exists>e. m st = Inl e) \<Longrightarrow> compiles cx env P \<rho> m ev dest"
  unfolding compiles_def by (metis Inl_Inr_False)

lemma compiles_number: "compiles cx env P \<rho> (CompileExp env (ENumber s) pm dest) (vlift (number_value s)) dest"
proof -
  have never: "compiles cx env P \<rho> (cbind (pick dest) (\<lambda>r. cthrow e)) ev dest" for e ev
    by (rule compiles_never) (auto simp: cbind_def cthrow_def split: sum.split)
  have lc: "cbind (pick dest) (\<lambda>r. LoadConstTo r v) = load_const dest v" for v by (simp add: load_const_def)
  show ?thesis
    by (auto simp: number_value_def rbind_def lc vlift_def compiles_const never split: option.split sum.split)
qed

lemma alloc_const: "cbind AllocReg (\<lambda>k. cseq (LoadConstTo k v) (f k)) = cbind (load_const (-1) v) f"
proof
  fix st
  have "LoadConstTo k v st1 = Inr (x, st2) \<Longrightarrow> x = k" for k st1 x st2 by (erule LoadConstTo_Inr) simp
  then show "cbind AllocReg (\<lambda>k. cseq (LoadConstTo k v) (f k)) st = cbind (load_const (-1) v) f st"
    by (fastforce simp: load_const_def pick_def cseq_def cbind_def split: sum.split prod.split)
qed

lemma cseq_cret: "cseq (cret x) m = m"
  by (simp add: cseq_def cbind_def cret_def fun_eq_iff)

lemma AllocReg_pick: "AllocReg = pick (-1)"
  by (simp add: pick_def)

lemma if_swap: "(\<lambda>a. if IsTrue a then m else vret a) = (\<lambda>x. if \<not> IsTrue x then vret x else m)"
  by auto

lemma compiles_all:
  assumes bound: "\<And>v. P v \<Longrightarrow> var_def env v \<noteq> None"
  shows "frag P e \<Longrightarrow> compiles cx env P \<rho> (CompileExp env e pm dest) (eval (cx_env cx) \<rho> e pm) dest"
    and "fragp P pe \<Longrightarrow> compiles cx env P \<rho> (CompilePrefixexp env pe pm dest) (evalp (cx_env cx) \<rho> pe pm) dest"
    and "fragv P v \<Longrightarrow> compiles cx env P \<rho> (CompileVar env v) (evalv (cx_env cx) \<rho> v) (-1)"
proof (induction "cx_env cx" \<rho> e pm and "cx_env cx" \<rho> pe pm and "cx_env cx" \<rho> v arbitrary: dest and dest rule: eval_evalp_evalv.induct)
  case (6 \<rho> k l r pm)
  have truth: "IsTrue (VBool True)" "\<not> IsTrue VNil" by simp_all
  have L: "compiles cx env P \<rho> (CompileExp env l False (-1)) (eval (cx_env cx) \<rho> l False) (-1)" using 6 by auto
  have R: "compiles cx env P \<rho> (CompileExp env r False (-1)) (eval (cx_env cx) \<rho> r False) (-1)"
    using 6(2) [OF _ truth(1)] 6(3) [OF _ _ truth(2)] 6(4) 6(5) by (cases "k = kAnd"; cases "k = kOr") auto
  show ?case
  proof (cases "k = kAnd \<or> k = kOr")
    case True
    let ?c = "if k = kAnd then 0 else 1 :: int"
    have "CompileExp env (EBinop k l r) pm dest = short_circuit ?c dest (CompileExp env l False (-1)) (CompileExp env r False (-1))"
      using True by (simp add: short_circuit_def)
    moreover have "eval (cx_env cx) \<rho> (EBinop k l r) pm = vbind (eval (cx_env cx) \<rho> l False)
        (\<lambda>x. if IsTrue x = (?c \<noteq> 0) then vret x else eval (cx_env cx) \<rho> r False)"
      using True if_swap by auto
    ultimately show ?thesis using compiles_short_circuit [OF L R, of ?c dest] by simp
  next
    case False
    then show ?thesis using compiles_2 [OF L R fills_binop] by simp
  qed
next
  case (7 \<rho> k e pm)
  show ?case
  proof (cases "const_number (EUnop k e)")
    case None
    have "compiles cx env P \<rho> (CompileExp env e False (-1)) (eval (cx_env cx) \<rho> e False) (-1)" using 7 None by auto
    from compiles_1 [OF this, of "unop_op k" "strict_unop (cx_env cx) k" dest] None show ?thesis
      by (simp add: do_unop strict_unop_op)
  qed (simp add: compiles_const)
next
  case (9 \<rho> v pm)
  let ?w = "case v of SimpleVar _ n \<Rightarrow> is_vararg_name n | _ \<Rightarrow> False"
  have V: "compiles cx env P \<rho> (CompileVar env v) (evalv (cx_env cx) \<rho> v) (-1)" using 9 by simp
  show ?case
  proof (cases "\<not> pm \<and> ?w")
    case True
    then show ?thesis
      using compiles_1 [OF V, of UNBOX "\<lambda>x. vret (UnboxMulti x 0)" dest] by (simp add: do_simple)
  next
    case False
    then show ?thesis using compiles_commit [OF V, of dest] by (cases pm; cases ?w) (simp_all add: vbind_vret)
  qed
next
  case (13 \<rho> pe e)
  then have T: "compiles cx env P \<rho> (CompilePrefixexp env pe False (-1)) (evalp (cx_env cx) \<rho> pe False) (-1)"
    and K: "compiles cx env P \<rho> (CompileExp env e False (-1)) (eval (cx_env cx) \<rho> e False) (-1)" by auto
  show ?case using compiles_2 [OF T K fills_gettable, of "-1"] by (simp add: AllocReg_pick [symmetric])
next
  case (14 \<rho> pe n)
  then have T: "compiles cx env P \<rho> (CompilePrefixexp env pe False (-1)) (evalp (cx_env cx) \<rho> pe False) (-1)" by auto
  have "free_base env pe = None"
    using 14(2) bound by (cases "(env, pe)" rule: free_base.cases) auto
  then show ?case
    using compiles_2 [OF T compiles_const [of cx env P \<rho> "-1" "VStringId n"] fills_gettable, of "-1"]
    by (simp add: AllocReg_pick [symmetric] alloc_const math_slot_def cseq_cret)
next
  case (3 \<rho> s pm)
  show ?case unfolding eval.simps by (rule compiles_number)
qed (auto simp: compiles_const compiles_local)

text \<open>The values of the function's own locals in a frame.\<close>

definition local_value :: "cg_env \<Rightarrow> cgstate \<Rightarrow> frame \<Rightarrow> node \<Rightarrow> cvar" where
  "local_value env st fr v = stk fr ! nat (reg_of st (the (var_def env v)))"

lemma CompileExp_leads:
  assumes "frag (own_local env (reg_of st) (fresh st)) e" and "CompileExp env e pm dest st = Inr (r, st')"
    and "starts p st st' dest fr"
  shows "leads cx p (eval (cx_env cx) (local_value env st fr) e pm) fr s (post st st' dest r fr)"
proof -
  let ?P = "own_local env (reg_of st) (fresh st)"
  have "compiles cx env ?P (local_value env st fr) (CompileExp env e pm dest) (eval (cx_env cx) (local_value env st fr) e pm) dest"
    by (rule compiles_all(1)) (auto simp: own_local_def assms split: option.splits)
  moreover have "owns env ?P st" and "holds env ?P (local_value env st fr) st fr"
    by (simp_all add: owns_def holds_def local_value_def)
  ultimately show ?thesis using assms(2,3) compilesD(3) by blast
qed

section \<open>A function that returns an expression\<close>

lemma compile_params_plain:
  assumes "\<forall>d. Some d \<in> set ps \<longrightarrow> \<not> is_captured (def_info env d)" and "compile_params env i ps st = Inr (u, st')"
  shows "\<exists>regs. st' = st\<lparr>reg_of := regs\<rparr> \<and>
     (\<forall>d. Some d \<notin> set ps \<longrightarrow> regs d = reg_of st d) \<and>
     (distinct ps \<longrightarrow> (\<forall>j < length ps. \<forall>d. ps ! j = Some d \<longrightarrow> regs d = int (i + j)))"
  using assms
proof (induction ps arbitrary: i st)
  case Nil
  then show ?case by (intro exI [of _ "reg_of st"]) (simp add: cret_def)
next
  case (Cons x ps)
  let ?st = "case x of None \<Rightarrow> st | Some d \<Rightarrow> st\<lparr>reg_of := (reg_of st)(d := int i)\<rparr>"
  have "compile_params env (i + 1) ps ?st = Inr (u, st')"
    using Cons.prems by (auto simp: cseq_Inr cret_Inr set_reg_def cmodify_def new_box_def split: option.splits)
  then obtain regs where r: "st' = ?st\<lparr>reg_of := regs\<rparr>" "\<forall>d. Some d \<notin> set ps \<longrightarrow> regs d = reg_of ?st d"
    "distinct ps \<longrightarrow> (\<forall>j < length ps. \<forall>d. ps ! j = Some d \<longrightarrow> regs d = int (i + 1 + j))"
    using Cons.IH [of "i + 1" ?st] Cons.prems(1) by auto
  have "st' = st\<lparr>reg_of := regs\<rparr>" using r(1) by (simp split: option.splits)
  moreover have "\<forall>j < length (x # ps). \<forall>d. (x # ps) ! j = Some d \<longrightarrow> regs d = int (i + j)" if "distinct (x # ps)"
  proof (intro allI impI)
    fix j d assume "j < length (x # ps)" "(x # ps) ! j = Some d"
    then show "regs d = int (i + j)" using that r(2,3) by (cases j) auto
  qed
  moreover have "\<forall>d. Some d \<notin> set (x # ps) \<longrightarrow> regs d = reg_of st d" using r(2) by (auto split: option.splits)
  ultimately show ?case by blast
qed

definition entry_frame :: "FuncProto \<Rightarrow> cvar list \<Rightarrow> frame \<Rightarrow> frame" where
  "entry_frame p args fr = fr\<lparr>stk := map (pad_arg args) [0..<param_count p] @ drop (param_count p) (stk fr)\<rparr>"

lemma InterpreterExecuteT_machine:
  assumes "enter_frame (frame_size p) False s = (Inr fr, s1)" and "code p \<noteq> []"
  shows "InterpreterExecuteT env im call n False p args cl s =
    (let (r, s2) = machine \<lparr>cx_env = env, cx_protos = proto_at im, cx_call = call, cx_closure = cl,
         cx_annot = AnnotateInterpLocation (unit_file im) p\<rparr> p n (entry_frame p args fr) s1
     in (r, leave_frame (interp_top s) False s2))"
  using assms by (simp add: InterpreterExecuteT_def machine_def entry_frame_def)

text \<open>The value of a parameter: the argument at its position.\<close>

definition param_value :: "cg_env \<Rightarrow> FuncInfo \<Rightarrow> cvar list \<Rightarrow> node \<Rightarrow> cvar" where
  "param_value env fi args v = pad_arg args (length (takeWhile (\<lambda>x. x \<noteq> var_def env v) (fi_params fi)))"

definition is_param :: "cg_env \<Rightarrow> FuncInfo \<Rightarrow> node \<Rightarrow> bool" where
  "is_param env fi v \<longleftrightarrow>
     (case var_def env v of
        Some d \<Rightarrow> Some d \<in> set (fi_params fi) \<and> defining_func (def_info env d) = Some (fi_node fi)
      | None \<Rightarrow> False)"

lemma frag_mono:
  "frag P e \<Longrightarrow> (\<And>v. P v \<Longrightarrow> Q v) \<Longrightarrow> frag Q e"
  "fragp P pe \<Longrightarrow> (\<And>v. P v \<Longrightarrow> Q v) \<Longrightarrow> fragp Q pe"
  "fragv P v \<Longrightarrow> (\<And>v. P v \<Longrightarrow> Q v) \<Longrightarrow> fragv Q v"
  by (induction P e and P pe and P v rule: frag_fragp_fragv.induct) auto

lemma eval_cong:
  "frag P e \<Longrightarrow> (\<And>v. P v \<Longrightarrow> \<rho> v = \<rho>' v) \<Longrightarrow> eval env \<rho> e pm = eval env \<rho>' e pm"
  "fragp P pe \<Longrightarrow> (\<And>v. P v \<Longrightarrow> \<rho> v = \<rho>' v) \<Longrightarrow> evalp env \<rho> pe pm = evalp env \<rho>' pe pm"
  "fragv P v \<Longrightarrow> (\<And>v. P v \<Longrightarrow> \<rho> v = \<rho>' v) \<Longrightarrow> evalv env \<rho> v = evalv env \<rho>' v"
proof (induction P e and P pe and P v arbitrary: pm and pm rule: frag_fragp_fragv.induct)
  case (2 P k l r)
  then have "eval env \<rho> l False = eval env \<rho>' l False" "eval env \<rho> r False = eval env \<rho>' r False" by auto
  then show ?case by (simp cong: if_cong)
qed (auto cong: option.case_cong)

lemma index_first:
  "x \<in> set xs \<Longrightarrow> length (takeWhile (\<lambda>y. y \<noteq> x) xs) < length xs"
  "x \<in> set xs \<Longrightarrow> xs ! length (takeWhile (\<lambda>y. y \<noteq> x) xs) = x"
  by (induction xs) auto

text \<open>What \<open>CompileFunction\<close> makes of \<open>return e\<close>.\<close>

lemma CompileFunction_return:
  assumes c: "CompileFunction env fi ups = Inr (p, regs)" and b: "fi_body fi = Some [SReturn [e]]"
    and d: "distinct (fi_params fi)" "\<forall>d. Some d \<in> set (fi_params fi) \<longrightarrow> \<not> is_captured (def_info env d)"
    and fr: "frag P e" "\<And>v. P v \<Longrightarrow> is_param env fi v"
  obtains st r st2 where
    "CompileExp (env\<lparr>cur_func := fi_node fi\<rparr>) e True (-1) st = Inr (r, st2)" "byte_operand r"
    "c_code st = []" "fresh st = length (fi_params fi)"
    "\<And>v. P v \<Longrightarrow> own_local (env\<lparr>cur_func := fi_node fi\<rparr>) (reg_of st) (fresh st) v"
    "\<And>v. P v \<Longrightarrow> reg_of st (the (var_def env v)) = int (length (takeWhile (\<lambda>x. x \<noteq> var_def env v) (fi_params fi)))"
    "code p = c_code st2 @ [mk_inst RETURN r 0 0 0]" "constants p = c_consts st2" "fresh st2 \<le> frame_size p"
    "param_count p = length (fi_params fi)"
proof -
  let ?env = "env\<lparr>cur_func := fi_node fi\<rparr>" and ?n = "length (fi_params fi)"
  let ?scope = "\<lparr>label_defs = Map.empty, pending = []\<rparr>"
  obtain u st4 where body: "compile_body ?env fi (start_state ?n (\<lambda>_. -1)) = Inr (u, st4)"
    and p: "code p = c_code st4" "constants p = c_consts st4" "max_stack p = c_max st4" "param_count p = ?n"
    using c by (auto simp: CompileFunction_def split: sum.splits prod.splits)
  obtain u0 st0 where ps: "compile_params ?env 0 (fi_params fi) (start_state ?n (\<lambda>_. -1)) = Inr (u0, st0)"
    and blk: "CompileStmtBlock ?env [SReturn [e]] st0 = Inr (u, st4)"
    using body b by (auto simp: compile_body_def cseq_Inr cret_Inr simp del: CompileStmtBlock.simps)
  obtain rg where st0: "st0 = (start_state ?n (\<lambda>_. -1))\<lparr>reg_of := rg\<rparr>"
    and rg: "\<And>j d. j < ?n \<Longrightarrow> fi_params fi ! j = Some d \<Longrightarrow> rg d = int j"
    using compile_params_plain [OF _ ps] d by auto
  let ?st = "st0\<lparr>label_scopes := [?scope]\<rparr>"
  obtain r st2 where e: "CompileExp ?env e True (-1) ?st = Inr (r, st2)" and r: "byte_operand r"
    and st4: "close_scope (push_inst (mk_inst RETURN r 0 0 0) st2) = Inr (u, st4)"
    using blk by (auto simp: cseq_Inr cbind_Inr cret_Inr open_scope_def cmodify_def IsPackageHeaderStmt_def CompileStmtReturn_def
        emit_Inr st0 start_state_def byte_operand_def)
  have fresh: "fresh ?st = ?n" by (simp add: st0 start_state_def fresh_def)
  have reg: "reg_of ?st (the (var_def env v)) = int (length (takeWhile (\<lambda>x. x \<noteq> var_def env v) (fi_params fi)))"
    and own: "own_local ?env (reg_of ?st) (fresh ?st) v" if "P v" for v
  proof -
    let ?k = "length (takeWhile (\<lambda>x. x \<noteq> var_def env v) (fi_params fi))"
    note ip = fr(2) [OF that]
    obtain d where v: "var_def env v = Some d" "Some d \<in> set (fi_params fi)" "defining_func (def_info env d) = Some (fi_node fi)"
      using ip by (auto simp: is_param_def split: option.splits)
    then have k: "?k < ?n" and "fi_params fi ! ?k = Some d" using index_first [OF v(2)] by simp_all
    then have "rg d = int ?k" by (rule rg)
    then show "reg_of ?st (the (var_def env v)) = int ?k"
      and "own_local ?env (reg_of ?st) (fresh ?st) v" using v k by (simp_all add: st0 own_local_def fresh [unfolded st0])
  qed
  have K: "keeps ?st st2"
  proof -
    let ?P = "own_local ?env (reg_of ?st) (fresh ?st)"
    have "compiles cx ?env ?P \<rho> (CompileExp ?env e True (-1)) (eval (cx_env cx) \<rho> e True) (-1)" for cx \<rho>
      by (rule compiles_all(1)) (auto simp: own_local_def split: option.splits intro!: frag_mono(1) [OF fr(1)] dest!: own)
    moreover have "owns ?env ?P ?st" by (simp add: owns_def)
    ultimately show ?thesis using compilesD(1) e by blast
  qed
  then have "label_scopes st2 = [?scope]" "fresh st2 \<le> c_max st2"
    using fresh by (auto simp: keeps_def st0 start_state_def)
  then have "c_code st4 = c_code st2 @ [mk_inst RETURN r 0 0 0] \<and> c_consts st4 = c_consts st2 \<and> c_max st4 = c_max st2"
    using st4 by (auto simp: close_scope_def cbind_Inr cget_def cseq_Inr cret_Inr set_scopes_def cmodify_def)
  then show thesis using \<open>fresh st2 \<le> c_max st2\<close> p reg own fresh
    by (intro that [OF e r]) (auto simp: st0 start_state_def frame_size_def)
qed

text \<open>
  A function with the body \<open>return e\<close>, compiled and run by the interpreter without boxes, returns the value of
  \<open>e\<close> on its arguments, in the state that evaluating \<open>e\<close> leaves, or raises its exception; the fuel \<open>K\<close> suffices.
\<close>

lemma return_function:
  fixes env :: cg_env and venv :: vm_env
  assumes c: "CompileFunction env fi ups = Inr (p, regs)" and b: "fi_body fi = Some [SReturn [e]]"
    and d: "distinct (fi_params fi)" "\<forall>d. Some d \<in> set (fi_params fi) \<longrightarrow> \<not> is_captured (def_info env d)"
    and fr: "frag (is_param env fi) e"
    and en: "enter_frame (frame_size p) False s = (Inr fr0, s1)"
  shows "\<exists>K off. \<forall>n. InterpreterExecuteT venv im call (K + n) False p args cl s =
    (case eval venv (param_value env fi args) e True s1 of
       (Inl x, s2) \<Rightarrow> (Inl (AnnotateInterpLocation (unit_file im) p off x), leave_frame (interp_top s) False s2)
     | (Inr v, s2) \<Rightarrow> (Inr v, leave_frame (interp_top s) False s2))"
proof -
  let ?env = "env\<lparr>cur_func := fi_node fi\<rparr>"
  let ?cx = "\<lparr>cx_env = venv, cx_protos = proto_at im, cx_call = call, cx_closure = cl,
      cx_annot = AnnotateInterpLocation (unit_file im) p\<rparr>"
  from CompileFunction_return [OF c b d fr] obtain st r st2 where
    e: "CompileExp ?env e True (-1) st = Inr (r, st2)" and r: "byte_operand r" and c0: "c_code st = []"
    and f0: "fresh st = length (fi_params fi)"
    and own: "\<And>v. is_param env fi v \<Longrightarrow> own_local ?env (reg_of st) (fresh st) v"
    and reg: "\<And>v. is_param env fi v \<Longrightarrow>
      reg_of st (the (var_def env v)) = int (length (takeWhile (\<lambda>x. x \<noteq> var_def env v) (fi_params fi)))"
    and p: "code p = c_code st2 @ [mk_inst RETURN r 0 0 0]" "constants p = c_consts st2" "fresh st2 \<le> frame_size p"
      "param_count p = length (fi_params fi)" by metis
  let ?fr = "entry_frame p args fr0"
  have fr0: "stk fr0 = replicate (frame_size p) VNil" "ip fr0 = 0"
    using en by (auto simp: enter_frame_def Let_def vthrow_def split: if_splits)
  have len: "length (stk ?fr) = frame_size p" using fr0 by (simp add: entry_frame_def frame_size_def)
  have S: "starts p st st2 (-1) ?fr"
    using p c0 fr0 len by (auto simp: starts_def agrees_def entry_frame_def nth_append)
  have val: "local_value ?env st ?fr v = param_value env fi args v" if v: "is_param env fi v" for v
  proof -
    let ?k = "length (takeWhile (\<lambda>x. x \<noteq> var_def env v) (fi_params fi))"
    have "?k < length (fi_params fi)"
      using own [OF v] reg [OF v] f0 by (auto simp: own_local_def split: option.splits)
    then show ?thesis using reg [OF v] p(4) by (simp add: local_value_def param_value_def entry_frame_def nth_append)
  qed
  have "frag (own_local ?env (reg_of st) (fresh st)) e" using frag_mono(1) [OF fr own] .
  from CompileExp_leads [OF this e S, of ?cx s1]
  have L: "leads ?cx p (eval venv (param_value env fi args) e True) ?fr s1 (post st st2 (-1) r ?fr)"
    using eval_cong(1) [OF fr val] by simp
  have nonempty: "code p \<noteq> []" using p(1) by simp
  note run = InterpreterExecuteT_machine [OF en nonempty]
  show ?thesis
  proof (cases "eval venv (param_value env fi args) e True s1" rule: prod.exhaust)
    case (Pair x s2)
    show ?thesis
    proof (cases x)
      case (Inl err)
      then obtain k off where "\<And>n. machine ?cx p (k + n) ?fr s1 = (Inl (cx_annot ?cx off err), s2)"
        using L Pair by (auto simp: leads_def fails_def)
      then show ?thesis using Pair Inl run by (intro exI [of _ k] exI [of _ off]) simp
    next
      case (Inr v)
      then obtain k fr' where k: "\<And>n. machine ?cx p (k + n) ?fr s1 = machine ?cx p n fr' s2"
        and q: "post st st2 (-1) r ?fr v fr'"
        using L Pair by (auto simp: leads_def reaches_def)
      have a: "at_inst p fr' (mk_inst RETURN r 0 0 0)" using q p(1) by (auto simp: post_def at_inst_def)
      have "do_inst ?cx p (mk_inst RETURN r 0 0 0) fr' s2 = (Inr (Return v), s2)"
        using q by (simp add: plain call_result_def vret_def post_def)
      then have "machine ?cx p (Suc n) fr' s2 = (Inr v, s2)" for n by (simp add: machine_step [OF a])
      then have "machine ?cx p ((k + 1) + n) ?fr s1 = (Inr v, s2)" for n using k [of "Suc n"] by simp
      then show ?thesis using Pair Inr run by (intro exI [of _ "k + 1"] exI [of _ 0]) simp
    qed
  qed
qed

end
