(* ===== verification/CodegenRun.thy ===== *)
theory CodegenRun
imports CodegenSafeFun CodegenCorrect InterpBoxes
begin

text \<open>
  Generator and interpreter together: compiled functions are well formed, running them stays inside their code and
  frame, the two instances of the interpreter agree, and a function that returns an expression returns its value.
\<close>

section \<open>Two functions\<close>

text \<open>\<open>function f(a, b) return a + b * 2 end\<close> and \<open>function f(a, b) while a do a = b and a end end\<close>.\<close>

definition demo_env :: cg_env where
  "demo_env = \<lparr>var_def = (\<lambda>v. if v = 1 then Some 10 else if v = 2 then Some 20 else None),
     stmt_def = (\<lambda>_ _. None), def_info = (\<lambda>d. \<lparr>def_name = [], defining_func = Some 7, is_captured = False, def_local_function = False\<rparr>),
     captured_vars = (\<lambda>_. []), child_proto = (\<lambda>_. 0), named_protos = (\<lambda>_. None), file_func_sigs = (\<lambda>_. None),
     cur_package_name = [], call_exps = (\<lambda>_. False), callee_names = (\<lambda>_. None), max_returns = (\<lambda>_. None),
     version_text = [], cur_func = 7\<rparr>"

definition demo_var :: "node \<Rightarrow> exp" where "demo_var v = EPrefix (PVar (SimpleVar v []))"

definition demo_return :: exp where
  "demo_return = EBinop kPlus (demo_var 1) (EBinop kStar (demo_var 2) (ENumber ''2''))"

definition demo_fun :: "stmt list \<Rightarrow> FuncInfo" where
  "demo_fun ss = \<lparr>fi_name = ''f'', fi_node = 7, fi_unit = 0, fi_params = [Some 10, Some 20], fi_vararg = False, fi_body = Some ss\<rparr>"

definition demo_loop :: "stmt list" where
  "demo_loop = [SWhile (demo_var 1) [SAssign (SimpleVar 1 []) (EBinop kAnd (demo_var 2) (demo_var 1))]]"

definition demo_proto :: "nat \<Rightarrow> Inst list \<Rightarrow> cvar list \<Rightarrow> FuncProto" where
  "demo_proto n is ks = \<lparr>proto_name = ''f'', proto_unit = 0, param_count = 2, proto_vararg = False, max_stack = n,
     uses_boxes = False, code = is, constants = ks, upvalues = [], child_protos = [], lineinfo = replicate (length is) 0\<rparr>"

definition demo_return_proto :: FuncProto where
  "demo_return_proto = demo_proto 5
     [mk_inst LOADK 2 0 0 0, mk_inst MUL 3 1 2 0, mk_inst ADD 4 0 3 0, mk_inst RETURN 4 0 0 0] [VInt 2]"

definition demo_loop_proto :: FuncProto where
  "demo_loop_proto = demo_proto 3
     [mk_inst TESTJMP 0 0 0 4, mk_inst TESTJMP 1 0 0 1, mk_inst JMP 0 0 0 1, mk_inst MOVE 0 1 0 0,
      mk_inst JMP 0 0 0 (-5), mk_inst LOADNIL 2 0 0 0, mk_inst RETURN 2 1 0 0] []"

lemma two: "const_number (ENumber ''2'') = Some (VInt 2)"
proof -
  have "stoll0 ''2'' = Some (2, 1)" "IsInteger ''2''" by code_simp+
  then show ?thesis by (simp add: const_number_def ClassifyLuaNumberKey_def ConstNumberExpIsIntValue_def Let_def)
qed

lemma demo_compiled_loop: "map_sum id fst (CompileFunction demo_env (demo_fun demo_loop) []) = Inr demo_loop_proto"
  by code_simp

lemmas demo_defs = demo_env_def demo_var_def demo_return_def demo_fun_def demo_proto_def demo_return_proto_def

lemma demo_compiled_return:
  "map_sum id fst (CompileFunction demo_env (demo_fun [SReturn [demo_return]]) []) = Inr demo_return_proto"
  by (simp add: demo_defs CompileFunction_def compile_body_def cseq_def cbind_def cret_def cget_def cmodify_def
      start_state_def set_reg_def new_box_def open_scope_def IsPackageHeaderStmt_def CompileStmtReturn_def
      ResolveSimpleName_def LoadLocal_def two load_const_def pick_def AllocReg_def note_max_def LoadConstTo_def
      AddConst_def emit_def Emit_def byte_operand_def emit_binop_def binop_op_def CommitDest_def close_scope_def
      set_scopes_def mk_inst_def is_vararg_name_def vararg_prefix_def)

lemma demo_compiled:
  "\<exists>regs. CompileFunction demo_env (demo_fun demo_loop) [] = Inr (demo_loop_proto, regs)"
  "\<exists>regs. CompileFunction demo_env (demo_fun [SReturn [demo_return]]) [] = Inr (demo_return_proto, regs)"
  using demo_compiled_loop demo_compiled_return by (auto simp: map_sum_def split: sum.splits)

text \<open>The interpreter's frame on an empty stack.\<close>

definition demo_frame :: "nat \<Rightarrow> bool \<Rightarrow> frame" where
  "demo_frame n hb = \<lparr>stk = replicate n VNil, boxp = (if hb then replicate n 0 else []), ip = 0\<rparr>"

lemma demo_enter:
  "enter_frame n False (s\<lparr>interp_top := 0\<rparr>) = (Inr (demo_frame n False), snd (enter_frame n False (s\<lparr>interp_top := 0\<rparr>)))"
  by (simp add: enter_frame_def demo_frame_def Let_def)

lemma demo_sizes: "frame_size demo_loop_proto = 11" "frame_size demo_return_proto = 13"
  by (simp_all add: frame_size_def demo_loop_proto_def demo_return_proto_def demo_proto_def)

section \<open>Well-formed code\<close>

text \<open>
  C2. Whatever the body, the nesting of its loops, breaks, continues, labels and gotos: a function that
  \<open>CompileFunction\<close> accepts has registers, constants and children within its frame and pools, every jump patched
  to an instruction of its own code, and a \<open>RETURN\<close> at the end.
\<close>

theorem generated_code_well_formed:
  assumes "CompileFunction env fi ups = Inr (p, regs)" shows "proto_ok p"
  using assms by (rule CompileFunction_proto_ok)

theorem generated_code_well_formed_witness: "proto_ok demo_loop_proto \<and> length (code demo_loop_proto) = 7"
  using demo_compiled(1) generated_code_well_formed by (auto simp: demo_loop_proto_def demo_proto_def)


definition demo_at :: "int \<Rightarrow> frame" where
  "demo_at k = (entry_frame demo_loop_proto [VBool True] (demo_frame 11 False))\<lparr>ip := k\<rparr>"

lemma demo_step:
  "vm_step venv protos call False demo_loop_proto cl (entry_frame demo_loop_proto [VBool True] (demo_frame 11 False), s) (demo_at 1, s)"
  by (rule vm_next)
    (simp add: demo_loop_proto_def demo_proto_def demo_at_def entry_frame_def demo_frame_def mk_inst_def exec_inst_def
      VmSlot_def pad_arg_def vret_def nth_append)


section \<open>The two instances of the interpreter\<close>

text \<open>
  C4. On well-formed code that boxes none of its own registers, the instance of the interpreter with boxes and the
  one without give the same result or exception and the same final state, from any point of the code and for
  any amount of fuel, divergence included.
\<close>

theorem instances_agree:
  assumes "proto_ok p" and "captures_nothing protos p" and "in_code p fr" and "boxp fr = replicate (frame_size p) 0"
  shows "run (\<lambda>fr i. exec_inst env protos call True p cl i fr) annot (code p) k fr s =
    run (\<lambda>fr i. exec_inst env protos call False p cl i fr) annot (code p) k (strip fr) s"
  using assms by (rule run_unboxed)

text \<open>The loop with a true first and a false second argument runs seven instructions and returns nil.\<close>

definition demo_start :: frame where
  "demo_start = entry_frame demo_loop_proto [VBool True, VBool False] (demo_frame 11 True)"

theorem instances_agree_witness:
  "\<forall>env protos call annot s.
     run (\<lambda>fr i. exec_inst env protos call True demo_loop_proto None i fr) annot (code demo_loop_proto) 9 demo_start s =
     run (\<lambda>fr i. exec_inst env protos call False demo_loop_proto None i fr) annot (code demo_loop_proto) 9 (strip demo_start) s"
proof (intro allI)
  fix env protos call annot s
  have "captures_nothing protos demo_loop_proto"
    by (simp add: captures_nothing_def demo_loop_proto_def demo_proto_def mk_inst_def)
  moreover have "in_code demo_loop_proto demo_start" "boxp demo_start = replicate (frame_size demo_loop_proto) 0"
    by (simp_all add: in_code_def demo_start_def frame_size_def entry_frame_def demo_frame_def demo_loop_proto_def demo_proto_def)
  moreover have "proto_ok demo_loop_proto" using demo_compiled(1) CompileFunction_proto_ok by blast
  ultimately show "run (\<lambda>fr i. exec_inst env protos call True demo_loop_proto None i fr) annot (code demo_loop_proto) 9 demo_start s =
     run (\<lambda>fr i. exec_inst env protos call False demo_loop_proto None i fr) annot (code demo_loop_proto) 9 (strip demo_start) s"
    by (intro instances_agree)
qed

section \<open>Functions that return an expression\<close>

text \<open>
  C1. A function \<open>function f(params) return e end\<close> whose expression uses constants, its own parameters, operators,
  short circuit, parentheses and indexing, compiled and called: with enough fuel the interpreter returns the
  value of \<open>e\<close> on the arguments (missing ones nil) and leaves the state that evaluating \<open>e\<close> leaves, or raises
  the exception that evaluating \<open>e\<close> raises.
\<close>

theorem return_function_correct:
  fixes env :: cg_env and venv :: vm_env
  assumes c: "CompileFunction env fi ups = Inr (p, regs)" and b: "fi_body fi = Some [SReturn [e]]"
    and d: "distinct (fi_params fi)" "\<forall>d. Some d \<in> set (fi_params fi) \<longrightarrow> \<not> is_captured (def_info env d)"
    and fr: "frag (is_param env fi) e"
    and en: "enter_frame (frame_size p) False s = (Inr fr0, s1)"
  shows "\<exists>K off. \<forall>n. InterpreterExecuteT venv im call (K + n) False p args cl s =
    (case eval venv (param_value env fi args) e True s1 of
       (Inl x, s2) \<Rightarrow> (Inl (AnnotateInterpLocation (unit_file im) p off x), leave_frame (interp_top s) False s2)
     | (Inr v, s2) \<Rightarrow> (Inr v, leave_frame (interp_top s) False s2))"
  using assms by (rule return_function)

text \<open>\<open>f(3, 4)\<close> of \<open>return a + b * 2\<close> is 11.\<close>

lemma demo_eval:
  "eval venv (param_value demo_env (demo_fun [SReturn [demo_return]]) [VInt 3, VInt 4]) demo_return True s = (Inr (VInt 11), s)"
  by (simp add: demo_return_def demo_var_def param_value_def demo_env_def demo_fun_def pad_arg_def two number_value_def
      vlift_Inr strict_binop_def BinAdd_def BinMul_def num_binop_def is_vararg_name_def vararg_prefix_def)
    (simp add: vret_def)

theorem return_function_correct_witness:
  "\<forall>venv im call s. \<exists>K. \<forall>n.
     fst (InterpreterExecuteT venv im call (K + n) False demo_return_proto [VInt 3, VInt 4] None (s\<lparr>interp_top := 0\<rparr>)) = Inr (VInt 11)"
proof (intro allI)
  fix venv im call and s :: vmstate
  obtain regs where c: "CompileFunction demo_env (demo_fun [SReturn [demo_return]]) [] = Inr (demo_return_proto, regs)"
    using demo_compiled(2) by blast
  have f: "fi_body (demo_fun [SReturn [demo_return]]) = Some [SReturn [demo_return]]"
    "distinct (fi_params (demo_fun [SReturn [demo_return]]))"
    "\<forall>d. Some d \<in> set (fi_params (demo_fun [SReturn [demo_return]])) \<longrightarrow> \<not> is_captured (def_info demo_env d)"
    "frag (is_param demo_env (demo_fun [SReturn [demo_return]])) demo_return"
    by (simp_all add: demo_fun_def demo_env_def demo_return_def demo_var_def is_param_def)
  from return_function_correct [OF c f demo_enter [folded demo_sizes(2)], of venv im call "[VInt 3, VInt 4]" None s]
  obtain K where "\<And>n. InterpreterExecuteT venv im call (K + n) False demo_return_proto [VInt 3, VInt 4] None (s\<lparr>interp_top := 0\<rparr>) =
      (Inr (VInt 11), leave_frame 0 False (snd (enter_frame (frame_size demo_return_proto) False (s\<lparr>interp_top := 0\<rparr>))))"
    by (auto simp: demo_eval)
  then show "\<exists>K. \<forall>n. fst (InterpreterExecuteT venv im call (K + n) False demo_return_proto [VInt 3, VInt 4] None (s\<lparr>interp_top := 0\<rparr>)) = Inr (VInt 11)"
    by (intro exI [of _ K]) simp
qed

end
