(* ===== verification/LuaPattern.thy ===== *)
theory LuaPattern
imports Prelude
begin

text \<open>
  The pattern matcher of the string library (\<open>native/string/lua_pattern.cpp\<close>). Pointers into subject and
  pattern are indices into the strings \<open>src\<close> and \<open>pat\<close>, whose lengths stand for \<open>se_\<close> and \<open>pe_\<close>; a read
  outside them is undefined behaviour in the source and the exception \<open>out_of_bounds\<close> here, which
  \<open>LuaPatternSafe\<close> shows never to happen. \<open>depth_\<close> is an argument, since every normal return of \<open>Match\<close> leaves
  it as it was; an exception discards the matcher. The captures \<open>caps_\<close> and their number \<open>level_\<close> are the
  state \<open>pm\<close>. The character classes are those of the C locale.
\<close>

section \<open>Reads and errors\<close>

definition out_of_bounds :: string where "out_of_bounds = ''<read outside the string>''"

definition rd :: "string \<Rightarrow> nat \<Rightarrow> char result" where
  "rd xs i = (if i < length xs then Inr (xs ! i) else Inl out_of_bounds)"

definition peek :: "string \<Rightarrow> nat \<Rightarrow> char \<Rightarrow> bool" where
  "peek xs i c \<longleftrightarrow> i < length xs \<and> xs ! i = c"

definition stack_overflow_msg :: string where "stack_overflow_msg = ''stack overflow''"
definition ends_with_percent :: string where "ends_with_percent = ''malformed pattern (ends with '%')''"
definition missing_bracket :: string where "missing_bracket = ''malformed pattern (missing ']')''"
definition missing_balance :: string where "missing_balance = ''malformed pattern (missing arguments to '%b')''"
definition missing_frontier :: string where "missing_frontier = ''missing '[' after '%f' in pattern''"
definition too_many_captures :: string where "too_many_captures = ''too many captures''"
definition invalid_pattern_capture :: string where "invalid_pattern_capture = ''invalid pattern capture''"
definition invalid_capture_index :: "nat \<Rightarrow> string" where
  "invalid_capture_index n = ''invalid capture index %'' @ dec_digits n"

definition kMaxCallDepth :: nat where "kMaxCallDepth = 200"
definition kMaxCaptures :: nat where "kMaxCaptures = 32"
definition kCapUnfinished :: int where "kCapUnfinished = -1"
definition kCapPosition :: int where "kCapPosition = -2"

section \<open>Character classes\<close>

definition c_isupper :: "nat \<Rightarrow> bool" where "c_isupper n \<longleftrightarrow> 65 \<le> n \<and> n \<le> 90"
definition c_islower :: "nat \<Rightarrow> bool" where "c_islower n \<longleftrightarrow> 97 \<le> n \<and> n \<le> 122"
definition c_isalpha :: "nat \<Rightarrow> bool" where "c_isalpha n \<longleftrightarrow> c_isupper n \<or> c_islower n"
definition c_isdigit :: "nat \<Rightarrow> bool" where "c_isdigit n \<longleftrightarrow> 48 \<le> n \<and> n \<le> 57"
definition c_isalnum :: "nat \<Rightarrow> bool" where "c_isalnum n \<longleftrightarrow> c_isalpha n \<or> c_isdigit n"
definition c_iscntrl :: "nat \<Rightarrow> bool" where "c_iscntrl n \<longleftrightarrow> n < 32 \<or> n = 127"
definition c_isgraph :: "nat \<Rightarrow> bool" where "c_isgraph n \<longleftrightarrow> 33 \<le> n \<and> n \<le> 126"
definition c_ispunct :: "nat \<Rightarrow> bool" where "c_ispunct n \<longleftrightarrow> c_isgraph n \<and> \<not> c_isalnum n"
definition c_isspace :: "nat \<Rightarrow> bool" where "c_isspace n \<longleftrightarrow> n = 32 \<or> 9 \<le> n \<and> n \<le> 13"
definition c_isxdigit :: "nat \<Rightarrow> bool" where
  "c_isxdigit n \<longleftrightarrow> c_isdigit n \<or> 65 \<le> n \<and> n \<le> 70 \<or> 97 \<le> n \<and> n \<le> 102"
definition c_tolower :: "nat \<Rightarrow> nat" where "c_tolower n = (if c_isupper n then n + 32 else n)"

text \<open>The test behind a class letter; \<open>None\<close> for a letter that names no class.\<close>

definition class_test :: "nat \<Rightarrow> (nat \<Rightarrow> bool) option" where
  "class_test l =
     (if l = 97 then Some c_isalpha else if l = 99 then Some c_iscntrl else if l = 100 then Some c_isdigit
      else if l = 103 then Some c_isgraph else if l = 108 then Some c_islower else if l = 112 then Some c_ispunct
      else if l = 115 then Some c_isspace else if l = 117 then Some c_isupper else if l = 119 then Some c_isalnum
      else if l = 120 then Some c_isxdigit else if l = 122 then Some (\<lambda>c. c = 0) else None)"

definition MatchClass :: "nat \<Rightarrow> nat \<Rightarrow> bool" where
  "MatchClass c cl =
     (case class_test (c_tolower cl) of
        None \<Rightarrow> cl = c
      | Some t \<Rightarrow> if c_islower cl then t c else \<not> t c)"

text \<open>One member of a set at \<open>q\<close>: whether it contains \<open>c\<close>, and the position after it.\<close>

definition set_member :: "string \<Rightarrow> nat \<Rightarrow> nat \<Rightarrow> bool \<times> nat" where
  "set_member pat c q =
     (if pat ! q = CHR ''%'' then (q + 1 < length pat \<and> MatchClass c (of_char (pat ! (q + 1))), q + 2)
      else if q + 2 < length pat \<and> pat ! (q + 1) = CHR ''-'' \<and> pat ! (q + 2) \<noteq> CHR '']'' then
        (of_char (pat ! q) \<le> c \<and> c \<le> of_char (pat ! (q + 2)), q + 3)
      else (c = of_char (pat ! q), q + 1))"

lemma set_member_advances: "q < snd (set_member pat c q)"
  by (simp add: set_member_def)

text \<open>The do-while loop over the members.\<close>

function set_loop :: "string \<Rightarrow> nat \<Rightarrow> bool \<Rightarrow> nat \<Rightarrow> bool result" where
  "set_loop pat c sig q =
     (if length pat \<le> q then Inl out_of_bounds
      else let q' = snd (set_member pat c q) in
        if fst (set_member pat c q) then Inr sig
        else if q' < length pat \<and> pat ! q' \<noteq> CHR '']'' then set_loop pat c sig q'
        else Inr (\<not> sig))"
  by pat_completeness auto
termination
  by (relation "measure (\<lambda>(pat, c, sig, q). length pat - q)") (auto simp: diff_less_mono2 set_member_advances)

declare set_loop.simps [simp del]

definition SingleMatchByte :: "string \<Rightarrow> nat \<Rightarrow> nat \<Rightarrow> bool result" where
  "SingleMatchByte pat c p =
     rbind (rd pat p) (\<lambda>x.
       if x = CHR ''%'' then rbind (rd pat (p + 1)) (\<lambda>cl. Inr (MatchClass c (of_char cl)))
       else if x = CHR ''.'' then Inr True
       else if x = CHR ''['' then
         (if peek pat (p + 1) (CHR ''^'') then set_loop pat c False (p + 2) else set_loop pat c True (p + 1))
       else Inr (c = of_char x))"

definition SingleMatch :: "string \<Rightarrow> string \<Rightarrow> nat \<Rightarrow> nat \<Rightarrow> bool result" where
  "SingleMatch src pat s p = (if s < length src then SingleMatchByte pat (of_char (src ! s)) p else Inr False)"

function class_end_loop :: "string \<Rightarrow> nat \<Rightarrow> nat result" where
  "class_end_loop pat q =
     (if q < length pat \<and> pat ! q \<noteq> CHR '']'' then
        let q1 = (if pat ! q = CHR ''%'' then q + 1 else q) in
        if pat ! q = CHR ''%'' \<and> length pat \<le> q1 then Inl ends_with_percent
        else if length pat < q1 + 1 then Inl missing_bracket
        else class_end_loop pat (q1 + 1)
      else if length pat \<le> q then Inl missing_bracket
      else Inr (q + 1))"
  by pat_completeness auto
termination
  by (relation "measure (\<lambda>(pat, q). length pat - q)") auto

declare class_end_loop.simps [simp del]

definition ClassEnd :: "string \<Rightarrow> nat \<Rightarrow> nat result" where
  "ClassEnd pat p =
     rbind (rd pat p) (\<lambda>x.
       if x = CHR ''%'' then (if p + 1 < length pat then Inr (p + 2) else Inl ends_with_percent)
       else if x = CHR ''['' then
         (let q = (if peek pat (p + 1) (CHR ''^'') then p + 2 else p + 1);
              q' = (if peek pat q (CHR '']'') then q + 1 else q)
          in class_end_loop pat q')
       else if p < length pat then Inr (p + 1)
       else Inl missing_bracket)"

lemma class_end_loop_bounds: "class_end_loop pat q = Inr ep \<Longrightarrow> q < ep \<and> ep \<le> length pat"
proof (induction pat q rule: class_end_loop.induct)
  case (1 pat q)
  then show ?case
    by (subst (asm) (2) class_end_loop.simps) (auto simp: Let_def split: if_splits)
qed

lemma ClassEnd_bounds: "ClassEnd pat p = Inr ep \<Longrightarrow> p < ep \<and> ep \<le> length pat"
  by (auto simp: ClassEnd_def rbind_Inr_iff rd_def Let_def dest!: class_end_loop_bounds split: if_splits)

lemma ClassEnd_less:
  assumes "ClassEnd pat p = Inr ep"
  shows "length pat - ep < length pat - p" and "length pat - Suc ep < length pat - p"
  using ClassEnd_bounds [OF assms] by auto

section \<open>Balanced strings\<close>

function balance_same :: "string \<Rightarrow> nat \<Rightarrow> nat \<Rightarrow> nat option" where
  "balance_same src q e =
     (if q < length src then if of_char (src ! q) = e then Some (q + 1) else balance_same src (q + 1) e else None)"
  by pat_completeness auto
termination by (relation "measure (\<lambda>(src, q, e). length src - q)") auto

function balance_loop :: "string \<Rightarrow> nat \<Rightarrow> nat \<Rightarrow> nat \<Rightarrow> nat \<Rightarrow> nat option" where
  "balance_loop src q cont b e =
     (if q < length src then
        if of_char (src ! q) = e then
          (if cont - 1 = 0 then Some (q + 1) else balance_loop src (q + 1) (cont - 1) b e)
        else if of_char (src ! q) = b then balance_loop src (q + 1) (cont + 1) b e
        else balance_loop src (q + 1) cont b e
      else None)"
  by pat_completeness auto
termination by (relation "measure (\<lambda>(src, q, cont, b, e). length src - q)") auto

declare balance_same.simps [simp del] balance_loop.simps [simp del]

definition MatchBalance :: "string \<Rightarrow> nat \<Rightarrow> nat \<Rightarrow> nat \<Rightarrow> nat option" where
  "MatchBalance src s b e =
     (if length src \<le> s \<or> of_char (src ! s) \<noteq> b then None
      else if b = e then balance_same src (s + 1) e
      else balance_loop src (s + 1) 1 b e)"

section \<open>Captures\<close>

record Capture =
  cap_init :: nat
  cap_len :: int

record pm =
  level :: nat
  caps :: "Capture list"

definition RestoreCaps :: "pm \<Rightarrow> pm \<Rightarrow> pm" where
  "RestoreCaps snap st = st\<lparr>caps := caps snap, level := level snap\<rparr>"

definition StartCapture :: "nat \<Rightarrow> int \<Rightarrow> pm \<Rightarrow> pm result" where
  "StartCapture s what st =
     (if kMaxCaptures \<le> level st then Inl too_many_captures
      else Inr (st\<lparr>caps := (caps st)[level st := \<lparr>cap_init = s, cap_len = what\<rparr>], level := level st + 1\<rparr>))"

text \<open>The innermost capture that is still open, below \<open>n\<close>.\<close>

fun last_open :: "Capture list \<Rightarrow> nat \<Rightarrow> nat option" where
  "last_open cs 0 = None"
| "last_open cs (Suc i) = (if cap_len (cs ! i) = kCapUnfinished then Some i else last_open cs i)"

definition EndCapture :: "nat \<Rightarrow> pm \<Rightarrow> pm result" where
  "EndCapture s st =
     (case last_open (caps st) (level st) of
        None \<Rightarrow> Inl invalid_pattern_capture
      | Some i \<Rightarrow> Inr (st\<lparr>caps := (caps st)[i := (caps st ! i)\<lparr>cap_len := int s - int (cap_init (caps st ! i))\<rparr>]\<rparr>))"

definition MatchCapture :: "string \<Rightarrow> nat \<Rightarrow> nat \<Rightarrow> pm \<Rightarrow> nat option result" where
  "MatchCapture src s i st =
     (if level st \<le> i then Inl (invalid_capture_index (i + 1))
      else let c = caps st ! i; l = cap_len c in
        if l = kCapUnfinished then Inl (invalid_capture_index (i + 1))
        else if l = kCapPosition then Inr (if s = cap_init c then Some s else None)
        else if int (length src) - int s < l then Inr None
        else if length src < cap_init c + nat l then Inl out_of_bounds
        else Inr (if take (nat l) (drop (cap_init c) src) = take (nat l) (drop s src) then Some (s + nat l) else None))"

section \<open>Matching\<close>

definition frontier_byte :: "string \<Rightarrow> nat \<Rightarrow> nat result" where
  "frontier_byte src s = (if s = length src then Inr 0 else rbind (rd src s) (\<lambda>c. Inr (of_char c)))"

text \<open>\<open>%f[set]\<close>: the byte before is outside the set and the byte here is inside.\<close>

definition Frontier :: "string \<Rightarrow> string \<Rightarrow> nat \<Rightarrow> nat \<Rightarrow> bool result" where
  "Frontier src pat s p =
     rbind (if s = 0 then Inr 0 else rbind (rd src (s - 1)) (\<lambda>c. Inr (of_char c))) (\<lambda>prev.
     rbind (frontier_byte src s) (\<lambda>cur.
     rbind (SingleMatchByte pat prev p) (\<lambda>a.
       if a then Inr False else SingleMatchByte pat cur p)))"

text \<open>How often the item at \<open>p\<close> matches in a row from \<open>s\<close>.\<close>

function rep_count :: "string \<Rightarrow> string \<Rightarrow> nat \<Rightarrow> nat \<Rightarrow> nat result" where
  "rep_count src pat s p =
     (if s < length src then
        rbind (SingleMatch src pat s p) (\<lambda>m.
          if m then rbind (rep_count src pat (s + 1) p) (\<lambda>n. Inr (n + 1)) else Inr 0)
      else Inr 0)"
  by pat_completeness auto
termination by (relation "measure (\<lambda>(src, pat, s, p). length src - s)") auto

declare rep_count.simps [simp del]

type_synonym match_result = "(nat option \<times> pm) result"

text \<open>
  \<open>Match\<close> is the call, with the depth of its caller; \<open>match_init\<close> is the code from the label \<open>init\<close> on, with the
  depth of this call; \<open>max_loop\<close> and \<open>min_loop\<close> are the backtracking loops of \<open>MaxExpand\<close> and \<open>MinExpand\<close>.
\<close>

function (sequential)
  Match :: "string \<Rightarrow> string \<Rightarrow> nat \<Rightarrow> nat \<Rightarrow> nat \<Rightarrow> pm \<Rightarrow> match_result"
  and match_init :: "string \<Rightarrow> string \<Rightarrow> nat \<Rightarrow> nat \<Rightarrow> nat \<Rightarrow> pm \<Rightarrow> match_result"
  and max_loop :: "string \<Rightarrow> string \<Rightarrow> nat \<Rightarrow> nat \<Rightarrow> nat \<Rightarrow> nat \<Rightarrow> pm \<Rightarrow> pm \<Rightarrow> match_result"
  and min_loop :: "string \<Rightarrow> string \<Rightarrow> nat \<Rightarrow> nat \<Rightarrow> nat \<Rightarrow> nat \<Rightarrow> pm \<Rightarrow> pm \<Rightarrow> match_result"
where
  "Match src pat d s p st =
     (if kMaxCallDepth < d + 1 then Inl stack_overflow_msg else match_init src pat (d + 1) s p st)"
| "match_init src pat d s p st =
     (if length pat \<le> p then Inr (Some s, st)
      else if pat ! p = CHR ''('' then
        (if peek pat (p + 1) (CHR '')'') then
           rbind (StartCapture s kCapPosition st) (\<lambda>st'. Match src pat d s (p + 2) st')
         else rbind (StartCapture s kCapUnfinished st) (\<lambda>st'. Match src pat d s (p + 1) st'))
      else if pat ! p = CHR '')'' then rbind (EndCapture s st) (\<lambda>st'. Match src pat d s (p + 1) st')
      else if pat ! p = CHR ''$'' \<and> p + 1 = length pat then
        Inr (if s = length src then Some s else None, st)
      else if pat ! p = CHR ''%'' \<and> peek pat (p + 1) (CHR ''b'') then
        (if length pat \<le> p + 3 then Inl missing_balance
         else case MatchBalance src s (of_char (pat ! (p + 2))) (of_char (pat ! (p + 3))) of
             Some s' \<Rightarrow> match_init src pat d s' (p + 4) st
           | None \<Rightarrow> Inr (None, st))
      else if pat ! p = CHR ''%'' \<and> peek pat (p + 1) (CHR ''f'') then
        (if \<not> peek pat (p + 2) (CHR ''['') then Inl missing_frontier
         else rbind (ClassEnd pat (p + 2)) (\<lambda>ep.
              rbind (Frontier src pat s (p + 2)) (\<lambda>f.
                if f then match_init src pat d s ep st else Inr (None, st))))
      else if pat ! p = CHR ''%'' \<and> p + 1 < length pat \<and> c_isdigit (of_char (pat ! (p + 1))) then
        (if pat ! (p + 1) = CHR ''0'' then Inl (invalid_capture_index 0)
         else rbind (MatchCapture src s (of_char (pat ! (p + 1)) - 49) st) (\<lambda>r.
           case r of Some s' \<Rightarrow> match_init src pat d s' (p + 2) st | None \<Rightarrow> Inr (None, st)))
      else
        rbind (ClassEnd pat p) (\<lambda>ep.
        rbind (SingleMatch src pat s p) (\<lambda>m.
          if \<not> m then
            (if ep < length pat \<and> (pat ! ep = CHR ''*'' \<or> pat ! ep = CHR ''?'' \<or> pat ! ep = CHR ''-'') then
               match_init src pat d s (ep + 1) st
             else Inr (None, st))
          else if length pat \<le> ep then match_init src pat d (s + 1) ep st
          else if pat ! ep = CHR ''?'' then
            rbind (Match src pat d (s + 1) (ep + 1) st) (\<lambda>(r, st').
              case r of Some e \<Rightarrow> Inr (Some e, st')
              | None \<Rightarrow> match_init src pat d s (ep + 1) (RestoreCaps st st'))
          else if pat ! ep = CHR ''+'' then
            rbind (rep_count src pat (s + 1) p) (\<lambda>n. max_loop src pat d (s + 1) ep n st st)
          else if pat ! ep = CHR ''*'' then
            rbind (rep_count src pat s p) (\<lambda>n. max_loop src pat d s ep n st st)
          else if pat ! ep = CHR ''-'' then min_loop src pat d s p ep st st
          else match_init src pat d (s + 1) ep st)))"
| "max_loop src pat d s ep i snap st =
     rbind (Match src pat d (s + i) (ep + 1) st) (\<lambda>(r, st').
       case r of Some e \<Rightarrow> Inr (Some e, st')
       | None \<Rightarrow> if i = 0 then Inr (None, RestoreCaps snap st')
                 else max_loop src pat d s ep (i - 1) snap (RestoreCaps snap st'))"
| "min_loop src pat d s p ep snap st =
     rbind (Match src pat d s (ep + 1) st) (\<lambda>(r, st').
       case r of Some e \<Rightarrow> Inr (Some e, st')
       | None \<Rightarrow> rbind (SingleMatch src pat s p) (\<lambda>m.
           if s < length src \<and> m then min_loop src pat d (s + 1) p ep snap (RestoreCaps snap st')
           else Inr (None, RestoreCaps snap st')))"
  by pat_completeness auto
termination
  by (relation "inv_image (less_than <*lex*> less_than <*lex*> less_than) (\<lambda>x. case x of
        Inl (Inl (src, pat, d, s, p, st)) \<Rightarrow> (length pat - p, 1, 0)
      | Inl (Inr (src, pat, d, s, p, st)) \<Rightarrow> (length pat - p, 0, 0)
      | Inr (Inl (src, pat, d, s, ep, i, snap, st)) \<Rightarrow> (length pat - (ep + 1), 2, i)
      | Inr (Inr (src, pat, d, s, p, ep, snap, st)) \<Rightarrow> (length pat - (ep + 1), 2, length src - s))")
    (simp_all add: ClassEnd_less, auto dest!: ClassEnd_bounds)

declare Match.simps [simp del] match_init.simps [simp del] max_loop.simps [simp del] min_loop.simps [simp del]

section \<open>Entry points\<close>

record MatchResult =
  mr_begin :: nat
  mr_end :: nat
  mr_level :: nat
  mr_caps :: "Capture list"

definition pm_new :: pm where
  "pm_new = \<lparr>level = 0, caps = replicate kMaxCaptures \<lparr>cap_init = 0, cap_len = 0\<rparr>\<rparr>"

definition RunAt :: "string \<Rightarrow> string \<Rightarrow> nat \<Rightarrow> pm \<Rightarrow> (MatchResult option \<times> pm) result" where
  "RunAt src pat start st =
     (if length src < start then Inr (None, st)
      else rbind (Match src pat 0 start 0 (st\<lparr>level := 0\<rparr>)) (\<lambda>(r, st').
        case r of
          None \<Rightarrow> Inr (None, st')
        | Some e \<Rightarrow> Inr (Some \<lparr>mr_begin = start, mr_end = e, mr_level = level st',
                               mr_caps = take (level st') (caps st')\<rparr>, st')))"

definition MatchAt :: "string \<Rightarrow> string \<Rightarrow> nat \<Rightarrow> bool \<Rightarrow> MatchResult option result" where
  "MatchAt src pat start leading_caret_is_anchor =
     (let p = (if leading_caret_is_anchor \<and> pat \<noteq> [] \<and> pat ! 0 = CHR ''^'' then drop 1 pat else pat)
      in rbind (RunAt src p start pm_new) (\<lambda>(r, _). Inr r))"

function search_loop :: "string \<Rightarrow> string \<Rightarrow> nat \<Rightarrow> pm \<Rightarrow> MatchResult option result" where
  "search_loop src pat pos st =
     (if length src < pos then Inr None
      else rbind (RunAt src pat pos st) (\<lambda>(r, st').
        case r of Some m \<Rightarrow> Inr (Some m) | None \<Rightarrow> search_loop src pat (pos + 1) st'))"
  by pat_completeness auto
termination by (relation "measure (\<lambda>(src, pat, pos, st). length src + 1 - pos)") auto

declare search_loop.simps [simp del]

definition Search :: "string \<Rightarrow> string \<Rightarrow> nat \<Rightarrow> MatchResult option result" where
  "Search src pat start =
     (let anchored = pat \<noteq> [] \<and> pat ! 0 = CHR ''^'';
          p = (if anchored then drop 1 pat else pat)
      in if length src < start then Inr None
         else if anchored then rbind (RunAt src p start pm_new) (\<lambda>(r, _). Inr r)
         else search_loop src p start pm_new)"

end
