(* ===== verification/LuaPatternSafe.thy ===== *)
theory LuaPatternSafe
imports LuaPattern
begin

text \<open>
  The matcher stays inside its two strings, only raises the errors it documents, and what it reports lies
  inside the subject. \<open>pm_ok\<close> is the invariant of the captures, \<open>good\<close> the contract of the four mutually
  recursive functions: the first argument is how far the nesting can still go, and the second where the
  match began.
\<close>

lemma RestoreCaps_eq [simp]: "RestoreCaps snap st = snap"
  by (simp add: RestoreCaps_def)

section \<open>Classes\<close>

lemma set_loop_total: "q < length pat \<Longrightarrow> \<exists>b. set_loop pat c sig q = Inr b"
proof (induction pat c sig q rule: set_loop.induct)
  case (1 pat c sig q)
  then show ?case by (subst set_loop.simps) (auto simp: Let_def)
qed

lemma SingleMatchByte_total: "ClassEnd pat p = Inr ep \<Longrightarrow> \<exists>b. SingleMatchByte pat c p = Inr b"
  by (auto simp: ClassEnd_def SingleMatchByte_def rbind_Inr_iff rd_def peek_def Let_def
      intro!: set_loop_total dest!: class_end_loop_bounds split: if_splits)

lemma SingleMatch_total: "ClassEnd pat p = Inr ep \<Longrightarrow> \<exists>b. SingleMatch src pat s p = Inr b"
  by (auto simp: SingleMatch_def intro: SingleMatchByte_total)

lemma rep_count_ok:
  "ClassEnd pat p = Inr ep \<Longrightarrow> s \<le> length src \<Longrightarrow> \<exists>n. rep_count src pat s p = Inr n \<and> s + n \<le> length src"
proof (induction src pat s p rule: rep_count.induct)
  case (1 src pat s p)
  show ?case
  proof (cases "s < length src")
    case True
    obtain m where m: "SingleMatch src pat s p = Inr m" using SingleMatch_total [OF 1(2)] by blast
    show ?thesis
    proof (cases m)
      case True
      with 1(1) [OF \<open>s < length src\<close> m True 1(2)] \<open>s < length src\<close> m show ?thesis
        by (subst rep_count.simps) auto
    qed (use m \<open>s < length src\<close> in \<open>subst rep_count.simps, simp\<close>)
  qed (use 1(3) in \<open>subst rep_count.simps, simp\<close>)
qed

lemma Frontier_total:
  assumes "ClassEnd pat p = Inr ep" and "s \<le> length src"
  shows "\<exists>b. Frontier src pat s p = Inr b"
proof -
  have prev: "\<exists>x. (if s = 0 then Inr 0 else rbind (rd src (s - 1)) (\<lambda>c. Inr (of_char c))) = (Inr x :: nat result)"
    and cur: "\<exists>y. frontier_byte src s = Inr y"
    using assms(2) by (auto simp: frontier_byte_def rd_def)
  obtain x y where "(if s = 0 then Inr 0 else rbind (rd src (s - 1)) (\<lambda>c. Inr (of_char c))) = (Inr x :: nat result)"
    "frontier_byte src s = Inr y" using prev cur by blast
  moreover obtain a where "SingleMatchByte pat x p = Inr a" using SingleMatchByte_total [OF assms(1)] by blast
  ultimately show ?thesis
    using SingleMatchByte_total [OF assms(1), of y] by (cases a) (simp_all only: Frontier_def rbind_simps if_True if_False, auto)
qed

lemma class_no_error:
  assumes "ClassEnd pat p = Inr ep"
  shows "SingleMatch src pat s p \<noteq> Inl e"
    and "s \<le> length src \<Longrightarrow> Frontier src pat s p \<noteq> Inl e"
    and "s \<le> length src \<Longrightarrow> rep_count src pat s p \<noteq> Inl e"
  using SingleMatch_total [OF assms, of src s] Frontier_total [OF assms, of s src] rep_count_ok [OF assms, of s src]
  by auto

section \<open>Balanced strings and captures\<close>

lemma balance_same_bounds: "balance_same src q e = Some r \<Longrightarrow> q < r \<and> r \<le> length src"
proof (induction src q e rule: balance_same.induct)
  case (1 src q e)
  then show ?case by (subst (asm) (2) balance_same.simps) (auto split: if_splits)
qed

lemma balance_loop_bounds: "balance_loop src q n b e = Some r \<Longrightarrow> q < r \<and> r \<le> length src"
proof (induction src q n b e rule: balance_loop.induct)
  case (1 src q n b e)
  from 1(4) show ?case
    by (subst (asm) balance_loop.simps) (auto split: if_splits dest: 1(1-3))
qed

lemma MatchBalance_bounds: "MatchBalance src s b e = Some r \<Longrightarrow> s < r \<and> r \<le> length src"
  by (auto simp: MatchBalance_def dest!: balance_same_bounds balance_loop_bounds split: if_splits)

definition cap_ok :: "nat \<Rightarrow> Capture \<Rightarrow> bool" where
  "cap_ok s c \<longleftrightarrow> cap_init c \<le> s \<and>
     (cap_len c = kCapUnfinished \<or> cap_len c = kCapPosition \<or> 0 \<le> cap_len c \<and> int (cap_init c) + cap_len c \<le> int s)"

definition pm_ok :: "nat \<Rightarrow> pm \<Rightarrow> bool" where
  "pm_ok s st \<longleftrightarrow> length (caps st) = kMaxCaptures \<and> level st \<le> kMaxCaptures \<and>
     (\<forall>i < level st. cap_ok s (caps st ! i))"

lemma cap_ok_mono: "cap_ok s c \<Longrightarrow> s \<le> s' \<Longrightarrow> cap_ok s' c"
  by (auto simp: cap_ok_def)

lemma pm_ok_mono: "pm_ok s st \<Longrightarrow> s \<le> s' \<Longrightarrow> pm_ok s' st"
  by (auto simp: pm_ok_def intro: cap_ok_mono)

lemma StartCapture_ok:
  "StartCapture s what st = Inr st' \<Longrightarrow> pm_ok s st \<Longrightarrow> what = kCapUnfinished \<or> what = kCapPosition \<Longrightarrow> pm_ok s st'"
  by (auto simp: StartCapture_def pm_ok_def cap_ok_def nth_list_update less_Suc_eq split: if_splits)

lemma last_open_bounds: "last_open cs n = Some i \<Longrightarrow> i < n \<and> cap_len (cs ! i) = kCapUnfinished"
  by (induction n) (auto split: if_splits)

lemma EndCapture_ok:
  assumes "EndCapture s st = Inr st'" and ok: "pm_ok s st"
  shows "pm_ok s st'"
proof -
  obtain i where i: "last_open (caps st) (level st) = Some i"
    and st': "st' = st\<lparr>caps := (caps st)[i := (caps st ! i)\<lparr>cap_len := int s - int (cap_init (caps st ! i))\<rparr>]\<rparr>"
    using assms(1) by (auto simp: EndCapture_def split: option.splits)
  have "cap_ok s (caps st' ! k)" if "k < level st" for k
  proof (cases "k = i")
    case True
    then show ?thesis using ok that st' by (auto simp: pm_ok_def cap_ok_def)
  next
    case False
    then show ?thesis using ok that st' by (simp add: pm_ok_def)
  qed
  then show ?thesis using ok st' by (simp add: pm_ok_def)
qed

section \<open>The contract\<close>

definition pattern_errors :: "string set" where
  "pattern_errors =
     {stack_overflow_msg, ends_with_percent, missing_bracket, missing_balance, missing_frontier,
      too_many_captures, invalid_pattern_capture} \<union> invalid_capture_index ` {..9}"

definition good :: "string \<Rightarrow> nat \<Rightarrow> nat \<Rightarrow> match_result \<Rightarrow> bool" where
  "good src b s r \<longleftrightarrow>
     (case r of
        Inl e \<Rightarrow> e \<in> pattern_errors \<and> (e = stack_overflow_msg \<longrightarrow> kMaxCallDepth \<le> b)
      | Inr (None, st') \<Rightarrow> length (caps st') = kMaxCaptures
      | Inr (Some e, st') \<Rightarrow> s \<le> e \<and> e \<le> length src \<and> pm_ok e st')"

lemma error_messages_differ:
  "ends_with_percent \<noteq> stack_overflow_msg" "missing_bracket \<noteq> stack_overflow_msg"
  "missing_balance \<noteq> stack_overflow_msg" "missing_frontier \<noteq> stack_overflow_msg"
  "too_many_captures \<noteq> stack_overflow_msg" "invalid_pattern_capture \<noteq> stack_overflow_msg"
  "invalid_capture_index n \<noteq> stack_overflow_msg"
  by (simp_all add: stack_overflow_msg_def ends_with_percent_def missing_bracket_def missing_balance_def
      missing_frontier_def too_many_captures_def invalid_pattern_capture_def invalid_capture_index_def)

lemma good_errors [intro]:
  "good src b s (Inl ends_with_percent)" "good src b s (Inl missing_bracket)" "good src b s (Inl missing_balance)"
  "good src b s (Inl missing_frontier)" "good src b s (Inl too_many_captures)"
  "good src b s (Inl invalid_pattern_capture)"
  "n \<le> 9 \<Longrightarrow> good src b s (Inl (invalid_capture_index n))"
  by (auto simp: good_def pattern_errors_def error_messages_differ)

lemma good_None: "pm_ok t st \<Longrightarrow> good src b s (Inr (None, st))"
  by (simp add: good_def pm_ok_def)

lemma good_mono: "good src b s' r \<Longrightarrow> b \<le> b' \<Longrightarrow> s \<le> s' \<Longrightarrow> good src b' s r"
  by (auto simp: good_def split: sum.splits option.splits prod.splits)

lemma good_if: "(c \<Longrightarrow> good src b s x) \<Longrightarrow> (\<not> c \<Longrightarrow> good src b s y) \<Longrightarrow> good src b s (if c then x else y)"
  by simp

lemma good_rbind:
  "(\<And>e. r = Inl e \<Longrightarrow> good src b s (Inl e)) \<Longrightarrow> (\<And>x. r = Inr x \<Longrightarrow> good src b s (f x)) \<Longrightarrow>
   good src b s (rbind r f)"
  by (cases r) auto

lemma good_retry:
  assumes "good src b s r"
    and "\<And>st'. r = Inr (None, st') \<Longrightarrow> good src b s (g st')"
  shows "good src b s (rbind r (\<lambda>(x, st'). case x of Some e \<Rightarrow> Inr (Some e, st') | None \<Rightarrow> g st'))"
proof (cases r)
  case (Inr a)
  obtain x st' where a: "a = (x, st')" by (cases a)
  show ?thesis using assms Inr a by (cases x) (auto simp: good_def)
qed (use assms(1) in simp)

lemma StartCapture_error: "StartCapture s what st = Inl e \<Longrightarrow> good src b t (Inl e)"
  by (auto simp: StartCapture_def split: if_splits)

lemma EndCapture_error: "EndCapture s st = Inl e \<Longrightarrow> good src b t (Inl e)"
  by (auto simp: EndCapture_def split: option.splits)

lemma class_end_loop_error: "class_end_loop pat q = Inl e \<Longrightarrow> good src b t (Inl e)"
proof (induction pat q rule: class_end_loop.induct)
  case (1 pat q)
  then show ?case by (subst (asm) (2) class_end_loop.simps) (auto simp: Let_def split: if_splits)
qed

lemma ClassEnd_error: "ClassEnd pat p = Inl e \<Longrightarrow> p < length pat \<Longrightarrow> good src b t (Inl e)"
  by (auto simp: ClassEnd_def rbind_Inl_iff rd_def Let_def intro: class_end_loop_error split: if_splits)

lemma MatchCapture_error:
  "MatchCapture src s i st = Inl e \<Longrightarrow> pm_ok s st \<Longrightarrow> s \<le> length src \<Longrightarrow> i \<le> 8 \<Longrightarrow> good src b t (Inl e)"
  by (force simp: MatchCapture_def Let_def pm_ok_def cap_ok_def not_le split: if_splits)

lemma MatchCapture_bounds:
  "MatchCapture src s i st = Inr (Some s') \<Longrightarrow> pm_ok s st \<Longrightarrow> s \<le> length src \<Longrightarrow> s \<le> s' \<and> s' \<le> length src"
  by (force simp: MatchCapture_def Let_def pm_ok_def cap_ok_def not_le not_less split: if_splits)

lemma Match_good_all:
  "s \<le> length src \<Longrightarrow> pm_ok s st \<Longrightarrow> good src (d + (length pat - p)) s (Match src pat d s p st)"
  "s \<le> length src \<Longrightarrow> pm_ok s st \<Longrightarrow>
     good src (d + (length pat - p) - 1) s (match_init src pat d s p st)"
  "s + i \<le> length src \<Longrightarrow> st = snap \<Longrightarrow> pm_ok s snap \<Longrightarrow>
     good src (d + (length pat - (ep + 1))) s (max_loop src pat d s ep i snap st)"
  "s \<le> length src \<Longrightarrow> st = snap \<Longrightarrow> pm_ok s snap \<Longrightarrow> ClassEnd pat p = Inr ep \<Longrightarrow>
     good src (d + (length pat - (ep + 1))) s (min_loop src pat d s p ep snap st)"
proof (induction src pat d s p st and src pat d s p st and src pat d s ep i snap st and src pat d s p ep snap st
    rule: Match_match_init_max_loop_min_loop.induct)
  case (1 src pat d s p st)
  show ?case
  proof (cases "kMaxCallDepth < d + 1")
    case True
    then show ?thesis by (subst Match.simps) (simp add: good_def pattern_errors_def)
  next
    case False
    show ?thesis by (subst Match.simps) (use 1(1) [OF False 1(2,3)] False in simp)
  qed
next
  case (2 src pat d s p st)
  note ok = 2(15,16)
  have weaken: "good src b s' r \<Longrightarrow> b \<le> d + (length pat - p) - 1 \<Longrightarrow> s \<le> s' \<Longrightarrow>
      good src (d + (length pat - p) - 1) s r" for b s' r
    by (rule good_mono)
  have cls: "good src b t (Inl e)" if "ClassEnd pat q = Inl e" "q < length pat" for q e b t
    using ClassEnd_error that by blast
  have lt: "s < length src" if "SingleMatch src pat s p = Inr m" "\<not> \<not> m" for m
    using that by (auto simp: SingleMatch_def split: if_splits)
  have more: "pm_ok s' st" if "s \<le> s'" for s' using ok(2) that by (rule pm_ok_mono)
  show ?case
    apply (subst match_init.simps)
    apply (intro good_if good_retry good_rbind)
    subgoal by (simp add: good_def ok)
    subgoal by (erule StartCapture_error)
    subgoal by (rule weaken, rule 2(1), assumption+) (use ok in \<open>auto intro: StartCapture_ok\<close>)
    subgoal by (erule StartCapture_error)
    subgoal by (rule weaken, rule 2(2), assumption+) (use ok in \<open>auto intro: StartCapture_ok\<close>)
    subgoal by (erule EndCapture_error)
    subgoal by (rule weaken, rule 2(3), assumption+) (use ok in \<open>auto intro: EndCapture_ok\<close>)
    subgoal by (use ok in \<open>auto simp: good_def pm_ok_def\<close>)
    subgoal by blast
    subgoal
      apply (split option.split, intro conjI impI allI, simp add: good_None [OF ok(2)])
      apply (frule MatchBalance_bounds, rule weaken, rule 2(4), assumption+)
      by (auto intro: more)
    subgoal by blast
    subgoal by (erule cls) (simp add: peek_def)
    subgoal using class_no_error(2) ok(1) by blast
    subgoal by (frule ClassEnd_bounds, rule weaken, rule 2(5), assumption+) (use ok in auto)
    subgoal by (rule good_None [OF ok(2)])
    subgoal by (rule good_errors) simp
    subgoal by (erule MatchCapture_error) (use ok in \<open>auto simp: c_isdigit_def\<close>)
    subgoal for x
      apply (cases x, simp add: good_None [OF ok(2)])
      apply (simp only: option.case)
      apply (frule MatchCapture_bounds [OF _ ok(2,1)], rule weaken, rule 2(6), assumption+)
      by (auto intro: more)
    subgoal by (erule cls) simp
    subgoal using class_no_error(1) by blast
    subgoal by (frule ClassEnd_bounds, rule weaken, rule 2(7), assumption+) (use ok in auto)
    subgoal by (rule good_None [OF ok(2)])
    subgoal by (frule ClassEnd_bounds, frule (1) lt, rule weaken, rule 2(8), assumption+) (auto intro: more)
    subgoal by (frule ClassEnd_bounds, frule (1) lt, rule weaken, rule 2(9), assumption+) (auto intro: more)
    subgoal by (frule ClassEnd_bounds, rule weaken, rule 2(10), assumption+) (use ok in auto)
    subgoal by (frule (1) lt) (use class_no_error(3) in fastforce)
    subgoal for ep m n
      apply (frule ClassEnd_bounds, frule (1) lt, frule rep_count_ok [of pat p ep "s + 1" src], simp)
      by (rule weaken, rule 2(11), assumption+) (auto intro: more)
    subgoal using class_no_error(3) ok(1) by blast
    subgoal for ep m n
      apply (frule ClassEnd_bounds, frule rep_count_ok [of pat p ep s src], rule ok)
      by (rule weaken, rule 2(12), assumption+) (use ok in auto)
    subgoal by (frule ClassEnd_bounds, rule weaken, rule 2(13), assumption+) (use ok in auto)
    subgoal by (frule ClassEnd_bounds, frule (1) lt, rule weaken, rule 2(14), assumption+) (auto intro: more)
    done
next
  case (3 src pat d s ep i snap st)
  show ?case
    apply (subst max_loop.simps)
    apply (rule good_retry)
    subgoal by (rule good_mono, rule 3(1)) (use 3(3-5) in \<open>auto intro: pm_ok_mono\<close>)
    subgoal by (cases "i = 0") (use 3(2) [OF _ refl refl] 3(3-5) in \<open>auto intro: good_None\<close>)
    done
next
  case (4 src pat d s p ep snap st)
  show ?case
    apply (subst min_loop.simps)
    apply (rule good_retry)
    subgoal by (rule 4(1)) (use 4(3-6) in auto)
    subgoal
      apply (rule good_rbind)
      subgoal using class_no_error(1) [OF 4(6)] by blast
      subgoal by (rule good_if, rule good_mono, rule 4(2) [OF _ refl refl]) (use 4(3-6) in \<open>auto intro: pm_ok_mono good_None\<close>)
      done
    done
qed

section \<open>The entry points\<close>

definition errors_for :: "nat \<Rightarrow> string set" where
  "errors_for n = (if n < kMaxCallDepth then pattern_errors - {stack_overflow_msg} else pattern_errors)"

lemma errors_for_mono: "n \<le> n' \<Longrightarrow> e \<in> errors_for n \<Longrightarrow> e \<in> errors_for n'"
  by (auto simp: errors_for_def split: if_splits)

lemma out_of_bounds_no_error: "e \<in> errors_for n \<Longrightarrow> e \<noteq> out_of_bounds"
  by (auto simp: errors_for_def pattern_errors_def out_of_bounds_def stack_overflow_msg_def ends_with_percent_def
      missing_bracket_def missing_balance_def missing_frontier_def too_many_captures_def invalid_pattern_capture_def
      invalid_capture_index_def split: if_splits)

definition inside :: "nat \<Rightarrow> nat \<Rightarrow> MatchResult \<Rightarrow> bool" where
  "inside start slen m \<longleftrightarrow>
     start \<le> mr_begin m \<and> mr_begin m \<le> mr_end m \<and> mr_end m \<le> slen \<and>
     mr_level m = length (mr_caps m) \<and> mr_level m \<le> kMaxCaptures \<and> list_all (cap_ok (mr_end m)) (mr_caps m)"

lemma Match_good:
  "s \<le> length src \<Longrightarrow> pm_ok s st \<Longrightarrow> good src (d + (length pat - p)) s (Match src pat d s p st)"
  by (rule Match_good_all)

lemma pm_ok_fresh: "length (caps st) = kMaxCaptures \<Longrightarrow> pm_ok s (st\<lparr>level := 0\<rparr>)"
  by (simp add: pm_ok_def)

lemma pm_new_caps [simp]: "length (caps pm_new) = kMaxCaptures"
  by (simp add: pm_new_def)

lemma RunAt_cases:
  assumes "length (caps st) = kMaxCaptures"
  obtains (error) e where "RunAt src pat start st = Inl e" "e \<in> errors_for (length pat)"
    | (none) st' where "RunAt src pat start st = Inr (None, st')" "length (caps st') = kMaxCaptures"
    | (match) m st' where "RunAt src pat start st = Inr (Some m, st')" "mr_begin m = start" "inside start (length src) m"
proof (cases "length src < start")
  case True
  then show thesis using none [of st] assms by (simp add: RunAt_def)
next
  case False
  note g = Match_good [OF _ pm_ok_fresh [OF assms], of start src 0 pat 0]
  show thesis
  proof (cases "Match src pat 0 start 0 (st\<lparr>level := 0\<rparr>)")
    case (Inl e)
    then have "e \<in> errors_for (length pat)" using g False by (auto simp: good_def errors_for_def)
    then show thesis using error [of e] Inl False by (simp add: RunAt_def)
  next
    case (Inr a)
    obtain r st' where a: "a = (r, st')" by (cases a)
    show thesis
    proof (cases r)
      case None
      then show thesis using none [of st'] g Inr a False by (simp add: RunAt_def good_def)
    next
      case (Some e)
      then have "start \<le> e \<and> e \<le> length src \<and> pm_ok e st'" using g Inr a False by (simp add: good_def)
      then show thesis using match [of _ st'] Inr a Some False
        by (simp add: RunAt_def inside_def pm_ok_def list_all_length)
    qed
  qed
qed

lemma inside_start: "inside (Suc pos) n m \<Longrightarrow> inside pos n m"
  by (simp add: inside_def)

lemma search_loop_inside:
  "length (caps st) = kMaxCaptures \<Longrightarrow>
   (case search_loop src pat pos st of
      Inl e \<Rightarrow> e \<in> errors_for (length pat)
    | Inr None \<Rightarrow> True
    | Inr (Some m) \<Rightarrow> inside pos (length src) m)"
proof (induction src pat pos st rule: search_loop.induct)
  case (1 src pat pos st)
  show ?case
  proof (cases "length src < pos")
    case False
    show ?thesis
    proof (rule RunAt_cases [OF 1(2), where src = src and pat = pat and start = pos])
      fix st' assume none: "RunAt src pat pos st = Inr (None, st')" "length (caps st') = kMaxCaptures"
      show ?thesis
        using 1(1) [OF False none(1) refl refl none(2)] False
        by (subst search_loop.simps) (auto simp: none(1) split: sum.splits option.splits intro: inside_start)
    qed (use False in \<open>subst search_loop.simps, simp\<close>)+
  qed (subst search_loop.simps, simp)
qed

lemma search_stays_inside_facts:
  "case Search src pat start of
     Inl e \<Rightarrow> e \<in> errors_for (length pat)
   | Inr None \<Rightarrow> True
   | Inr (Some m) \<Rightarrow> inside start (length src) m"
proof -
  let ?p = "if pat \<noteq> [] \<and> pat ! 0 = CHR ''^'' then drop 1 pat else pat"
  have "length ?p \<le> length pat" by simp
  note mono = errors_for_mono [OF this]
  show ?thesis
    using search_loop_inside [OF pm_new_caps, where src = src and pat = ?p and pos = start]
    by (rule_tac RunAt_cases [OF pm_new_caps, where src = src and pat = ?p and start = start])
      (auto simp: Search_def Let_def intro: mono split: sum.splits option.splits if_splits)
qed

text \<open>
  C12. Matching is memory safe and its results lie inside the subject: for every subject, pattern and start,
  well-formed or not, \<open>Search\<close> never reads outside the two strings. It either reports no match, or a match whose
  bounds and captures lie inside the subject, behind the start, with at most 32 captures, or it raises one of the
  documented errors; the stack overflow error needs a pattern of at least 200 bytes.
\<close>
theorem search_stays_inside:
  "case Search src pat start of
     Inl e \<Rightarrow> e \<in> errors_for (length pat) \<and> e \<noteq> out_of_bounds
   | Inr None \<Rightarrow> True
   | Inr (Some m) \<Rightarrow> inside start (length src) m"
  using search_stays_inside_facts [where src = src and pat = pat and start = start] out_of_bounds_no_error
  by (auto split: sum.splits option.splits)

end
