(* ===== verification/LuaPatternSpec.thy ===== *)
theory LuaPatternSpec
imports LuaPatternSafe
begin

text \<open>
  What a pattern means, independently of how the matcher runs. \<open>parse\<close> reads a pattern into a list of items, and
  \<open>derives\<close> says which parts of the subject, with which captures, a list of items matches; it knows
  neither backtracking nor depth nor stale capture slots. \<open>Match_spec_all\<close> shows that the matcher decides \<open>derives\<close>:
  it returns an end only when there is a derivation to it, and reports no match only when there is none.
\<close>

section \<open>Items\<close>

datatype quant = Once | Optional | Star | Plus | Lazy

datatype item =
    Single "nat \<Rightarrow> bool" quant
  | CapOpen | CapPos | CapClose
  | Bal nat nat
  | Front "nat \<Rightarrow> bool"
  | Back nat
  | AtEnd

definition class_at :: "string \<Rightarrow> nat \<Rightarrow> nat \<Rightarrow> bool" where
  "class_at pat p c \<longleftrightarrow> SingleMatchByte pat c p = Inr True"

definition quant_at :: "string \<Rightarrow> nat \<Rightarrow> quant" where
  "quant_at pat ep =
     (if peek pat ep (CHR ''?'') then Optional else if peek pat ep (CHR ''+'') then Plus
      else if peek pat ep (CHR ''*'') then Star else if peek pat ep (CHR ''-'') then Lazy else Once)"

text \<open>Where the item after a class begins.\<close>

definition after_quant :: "string \<Rightarrow> nat \<Rightarrow> nat" where
  "after_quant pat ep = (if quant_at pat ep = Once then ep else ep + 1)"

function parse :: "string \<Rightarrow> nat \<Rightarrow> item list result" where
  "parse pat p =
     (if length pat \<le> p then Inr []
      else if pat ! p = CHR ''('' then
        (if peek pat (p + 1) (CHR '')'') then rbind (parse pat (p + 2)) (\<lambda>its. Inr (CapPos # its))
         else rbind (parse pat (p + 1)) (\<lambda>its. Inr (CapOpen # its)))
      else if pat ! p = CHR '')'' then rbind (parse pat (p + 1)) (\<lambda>its. Inr (CapClose # its))
      else if pat ! p = CHR ''$'' \<and> p + 1 = length pat then Inr [AtEnd]
      else if pat ! p = CHR ''%'' \<and> peek pat (p + 1) (CHR ''b'') then
        (if length pat \<le> p + 3 then Inl missing_balance
         else rbind (parse pat (p + 4)) (\<lambda>its. Inr (Bal (of_char (pat ! (p + 2))) (of_char (pat ! (p + 3))) # its)))
      else if pat ! p = CHR ''%'' \<and> peek pat (p + 1) (CHR ''f'') then
        (if \<not> peek pat (p + 2) (CHR ''['') then Inl missing_frontier
         else rbind (ClassEnd pat (p + 2)) (\<lambda>ep.
              rbind (parse pat ep) (\<lambda>its. Inr (Front (class_at pat (p + 2)) # its))))
      else if pat ! p = CHR ''%'' \<and> p + 1 < length pat \<and> c_isdigit (of_char (pat ! (p + 1))) then
        (if pat ! (p + 1) = CHR ''0'' then Inl (invalid_capture_index 0)
         else rbind (parse pat (p + 2)) (\<lambda>its. Inr (Back (of_char (pat ! (p + 1)) - 49) # its)))
      else
        rbind (ClassEnd pat p) (\<lambda>ep.
        rbind (parse pat (after_quant pat ep)) (\<lambda>its. Inr (Single (class_at pat p) (quant_at pat ep) # its))))"
  by pat_completeness auto
termination
  by (relation "measure (\<lambda>(pat, p). length pat - p)")
    (simp_all add: ClassEnd_less after_quant_def, auto dest!: ClassEnd_bounds)

declare parse.simps [simp del]

section \<open>Derivations\<close>

definition byte :: "string \<Rightarrow> nat \<Rightarrow> nat" where
  "byte src s = of_char (src ! s)"

fun quant_ok :: "quant \<Rightarrow> nat \<Rightarrow> bool" where
  "quant_ok Once n \<longleftrightarrow> n = 1"
| "quant_ok Optional n \<longleftrightarrow> n \<le> 1"
| "quant_ok Star n \<longleftrightarrow> True"
| "quant_ok Plus n \<longleftrightarrow> 1 \<le> n"
| "quant_ok Lazy n \<longleftrightarrow> True"

text \<open>\<open>n\<close> bytes of the class in a row.\<close>

definition all_in :: "string \<Rightarrow> (nat \<Rightarrow> bool) \<Rightarrow> nat \<Rightarrow> nat \<Rightarrow> bool" where
  "all_in src t s n \<longleftrightarrow> s + n \<le> length src \<and> (\<forall>i < n. t (byte src (s + i)))"

definition close_last :: "nat \<Rightarrow> Capture list \<Rightarrow> Capture list option" where
  "close_last s cs =
     (case last_open cs (length cs) of
        None \<Rightarrow> None
      | Some i \<Rightarrow> Some (cs[i := (cs ! i)\<lparr>cap_len := int s - int (cap_init (cs ! i))\<rparr>]))"

text \<open>The end of the text a back reference stands for, when that text occurs at \<open>s\<close>.\<close>

definition refers_to :: "string \<Rightarrow> nat \<Rightarrow> Capture \<Rightarrow> nat \<Rightarrow> bool" where
  "refers_to src s c s' \<longleftrightarrow>
     (if cap_len c = kCapPosition then s = cap_init c \<and> s' = s
      else 0 \<le> cap_len c \<and> s' = s + nat (cap_len c) \<and> s' \<le> length src \<and>
           take (nat (cap_len c)) (drop (cap_init c) src) = take (nat (cap_len c)) (drop s src))"

definition byte_before :: "string \<Rightarrow> nat \<Rightarrow> nat" where
  "byte_before src s = (if s = 0 then 0 else byte src (s - 1))"

definition byte_here :: "string \<Rightarrow> nat \<Rightarrow> nat" where
  "byte_here src s = (if s = length src then 0 else byte src s)"

inductive derives :: "string \<Rightarrow> item list \<Rightarrow> nat \<Rightarrow> Capture list \<Rightarrow> nat \<Rightarrow> Capture list \<Rightarrow> bool" for src where
  nil: "derives src [] s cs s cs"
| single: "quant_ok q n \<Longrightarrow> all_in src t s n \<Longrightarrow> derives src its (s + n) cs e cs' \<Longrightarrow>
    derives src (Single t q # its) s cs e cs'"
| opens: "length cs < kMaxCaptures \<Longrightarrow>
    derives src its s (cs @ [\<lparr>cap_init = s, cap_len = kCapUnfinished\<rparr>]) e cs' \<Longrightarrow> derives src (CapOpen # its) s cs e cs'"
| pos: "length cs < kMaxCaptures \<Longrightarrow>
    derives src its s (cs @ [\<lparr>cap_init = s, cap_len = kCapPosition\<rparr>]) e cs' \<Longrightarrow> derives src (CapPos # its) s cs e cs'"
| closes: "close_last s cs = Some cs1 \<Longrightarrow> derives src its s cs1 e cs' \<Longrightarrow> derives src (CapClose # its) s cs e cs'"
| balance: "MatchBalance src s b c = Some s' \<Longrightarrow> derives src its s' cs e cs' \<Longrightarrow> derives src (Bal b c # its) s cs e cs'"
| front: "\<not> t (byte_before src s) \<Longrightarrow> t (byte_here src s) \<Longrightarrow> derives src its s cs e cs' \<Longrightarrow>
    derives src (Front t # its) s cs e cs'"
| backref: "i < length cs \<Longrightarrow> refers_to src s (cs ! i) s' \<Longrightarrow> derives src its s' cs e cs' \<Longrightarrow>
    derives src (Back i # its) s cs e cs'"
| at_end: "s = length src \<Longrightarrow> derives src its s cs e cs' \<Longrightarrow> derives src (AtEnd # its) s cs e cs'"

inductive_simps derives_simps:
  "derives src [] s cs e cs'" "derives src (Single t q # its) s cs e cs'" "derives src (CapOpen # its) s cs e cs'"
  "derives src (CapPos # its) s cs e cs'" "derives src (CapClose # its) s cs e cs'" "derives src (Bal b c # its) s cs e cs'"
  "derives src (Front t # its) s cs e cs'" "derives src (Back i # its) s cs e cs'" "derives src (AtEnd # its) s cs e cs'"

section \<open>The matcher decides derivations\<close>

definition live :: "pm \<Rightarrow> Capture list" where
  "live st = take (level st) (caps st)"

text \<open>A result answers the question whether some end and captures satisfy \<open>D\<close>.\<close>

definition decides :: "(nat \<Rightarrow> Capture list \<Rightarrow> bool) \<Rightarrow> match_result \<Rightarrow> bool" where
  "decides D r \<longleftrightarrow>
     (case r of
        Inl _ \<Rightarrow> True
      | Inr (None, _) \<Rightarrow> (\<forall>e cs. \<not> D e cs)
      | Inr (Some e, st') \<Rightarrow> D e (live st'))"

lemma decides_Inl [simp, intro]: "decides D (Inl e)"
  by (simp add: decides_def)

lemma decides_cong: "decides D r \<Longrightarrow> (\<And>e cs. D e cs = D' e cs) \<Longrightarrow> decides D' r"
  by (auto simp: decides_def split: sum.splits option.splits prod.splits)

lemma decides_fail: "(\<And>e cs. \<not> D e cs) \<Longrightarrow> decides D (Inr (None, st))"
  by (simp add: decides_def)

lemma decides_rbind: "(\<And>x. r = Inr x \<Longrightarrow> decides D (f x)) \<Longrightarrow> decides D (rbind r f)"
  by (cases r) auto

lemma decides_if: "(c \<Longrightarrow> decides D x) \<Longrightarrow> (\<not> c \<Longrightarrow> decides D y) \<Longrightarrow> decides D (if c then x else y)"
  by simp

lemma decides_retry:
  assumes "decides D1 r" and "\<And>st'. r = Inr (None, st') \<Longrightarrow> decides D2 (g st')"
  shows "decides (\<lambda>e cs. D1 e cs \<or> D2 e cs)
    (rbind r (\<lambda>(x, st'). case x of Some e \<Rightarrow> Inr (Some e, st') | None \<Rightarrow> g st'))"
proof (cases r)
  case (Inr a)
  obtain x st' where a: "a = (x, st')" by (cases a)
  show ?thesis
  proof (cases x)
    case None
    then have no: "\<not> D1 e cs" for e cs using assms(1) Inr a by (auto simp: decides_def)
    show ?thesis using assms(2) [of st'] Inr a None by (simp add: no)
  qed (use assms(1) Inr a in \<open>auto simp: decides_def\<close>)
qed simp

lemma live_StartCapture:
  "StartCapture s what st = Inr st' \<Longrightarrow> pm_ok s st \<Longrightarrow>
   length (live st) < kMaxCaptures \<and> live st' = live st @ [\<lparr>cap_init = s, cap_len = what\<rparr>]"
  by (auto simp: StartCapture_def live_def pm_ok_def take_Suc_conv_app_nth split: if_splits)

lemma last_open_take: "n \<le> m \<Longrightarrow> last_open (take m cs) n = last_open cs n"
  by (induction n) auto

lemma live_EndCapture: "EndCapture s st = Inr st' \<Longrightarrow> pm_ok s st \<Longrightarrow> close_last s (live st) = Some (live st')"
  by (auto simp: EndCapture_def close_last_def live_def pm_ok_def last_open_take min_absorb2 take_update_swap
      dest!: last_open_bounds split: option.splits)

lemma MatchCapture_refers:
  assumes "MatchCapture src s i st = Inr r" "pm_ok s st" "s \<le> length src"
  shows "i < length (live st)" and "refers_to src s (live st ! i) s' \<longleftrightarrow> r = Some s'"
proof -
  have i: "i < level st" and k: "cap_ok s (caps st ! i)" "level st \<le> length (caps st)"
    using assms(1,2) by (auto simp: MatchCapture_def pm_ok_def split: if_splits)
  then show "i < length (live st)" by (simp add: live_def)
  have "live st ! i = caps st ! i" using i by (simp add: live_def)
  then show "refers_to src s (live st ! i) s' \<longleftrightarrow> r = Some s'"
    using assms(1,3) i k
    by (auto simp: MatchCapture_def refers_to_def cap_ok_def Let_def kCapPosition_def kCapUnfinished_def split: if_splits)
qed

lemma SingleMatch_class:
  assumes "ClassEnd pat p = Inr ep" "SingleMatch src pat s p = Inr m"
  shows "m \<longleftrightarrow> s < length src \<and> class_at pat p (byte src s)"
  using assms SingleMatchByte_total [OF assms(1)]
  by (auto simp: SingleMatch_def class_at_def byte_def split: if_splits)

lemma Frontier_class:
  assumes "ClassEnd pat p = Inr ep" "Frontier src pat s p = Inr f" "s \<le> length src"
  shows "f \<longleftrightarrow> \<not> class_at pat p (byte_before src s) \<and> class_at pat p (byte_here src s)"
proof -
  have "(if s = 0 then Inr 0 else rbind (rd src (s - 1)) (\<lambda>c. Inr (of_char c))) = (Inr (byte_before src s) :: nat result)"
    and "frontier_byte src s = Inr (byte_here src s)"
    using assms(3) by (auto simp: rd_def byte_before_def byte_here_def byte_def frontier_byte_def)
  moreover obtain a b where "SingleMatchByte pat (byte_before src s) p = Inr a" "SingleMatchByte pat (byte_here src s) p = Inr b"
    using SingleMatchByte_total [OF assms(1)] by blast
  ultimately show ?thesis using assms(2) by (auto simp: Frontier_def class_at_def split: if_splits)
qed

lemma all_in_0 [simp]: "all_in src t s 0 \<longleftrightarrow> s \<le> length src"
  by (simp add: all_in_def)

lemma all_in_Suc: "all_in src t s (Suc n) \<longleftrightarrow> s < length src \<and> t (byte src s) \<and> all_in src t (s + 1) n"
  by (auto simp: all_in_def All_less_Suc2)

lemma rep_count_all_in:
  "rep_count src pat s p = Inr n \<Longrightarrow> ClassEnd pat p = Inr ep \<Longrightarrow> s \<le> length src \<Longrightarrow>
   all_in src (class_at pat p) s k \<longleftrightarrow> k \<le> n"
proof (induction src pat s p arbitrary: n k rule: rep_count.induct)
  case (1 src pat s p)
  show ?case
  proof (cases "s < length src")
    case True
    then obtain m where m: "SingleMatch src pat s p = Inr m"
      and n: "if m then \<exists>n'. rep_count src pat (s + 1) p = Inr n' \<and> n = Suc n' else n = 0"
      using 1(2) by (subst (asm) rep_count.simps) (auto simp: rbind_Inr_iff split: if_splits)
    note cls = SingleMatch_class [OF 1(3) m]
    show ?thesis
    proof (cases m)
      case True
      then obtain n' where "rep_count src pat (s + 1) p = Inr n'" "n = Suc n'" using n by auto
      then show ?thesis using 1(1) [OF \<open>s < length src\<close> m True _ 1(3), of n'] cls True 1(4)
        by (cases k) (auto simp: all_in_Suc)
    qed (use n cls 1(4) True in \<open>cases k, auto simp: all_in_Suc\<close>)
  next
    case False
    then have "n = 0" using 1(2) by (subst (asm) rep_count.simps) simp
    then show ?thesis using False 1(4) by (cases k) (auto simp: all_in_Suc)
  qed
qed

lemma Match_spec_all:
  "s \<le> length src \<Longrightarrow> pm_ok s st \<Longrightarrow> parse pat p = Inr its \<Longrightarrow>
     decides (derives src its s (live st)) (Match src pat d s p st)"
  "s \<le> length src \<Longrightarrow> pm_ok s st \<Longrightarrow> parse pat p = Inr its \<Longrightarrow>
     decides (derives src its s (live st)) (match_init src pat d s p st)"
  "s + i \<le> length src \<Longrightarrow> st = snap \<Longrightarrow> pm_ok s snap \<Longrightarrow> parse pat (ep + 1) = Inr its \<Longrightarrow>
     decides (\<lambda>e cs. \<exists>n \<le> i. derives src its (s + n) (live snap) e cs) (max_loop src pat d s ep i snap st)"
  "s \<le> length src \<Longrightarrow> st = snap \<Longrightarrow> pm_ok s snap \<Longrightarrow> ClassEnd pat p = Inr ep \<Longrightarrow> parse pat (ep + 1) = Inr its \<Longrightarrow>
     decides (\<lambda>e cs. \<exists>n. all_in src (class_at pat p) s n \<and> derives src its (s + n) (live snap) e cs)
       (min_loop src pat d s p ep snap st)"
proof (induction src pat d s p st and src pat d s p st and src pat d s ep i snap st and src pat d s p ep snap st
    arbitrary: its and its and its and its rule: Match_match_init_max_loop_min_loop.induct)
  case (1 src pat d s p st)
  show ?case
    by (subst Match.simps) (rule decides_if, simp, rule 1(1) [OF _ 1(2-4)])
next
  case (2 src pat d s p st)
  note ok = 2(15,16) and pa = 2(17) [unfolded parse.simps [of pat p]]
  show ?case
    apply (subst match_init.simps)
    apply (rule decides_if)
    subgoal using pa by (simp add: decides_def derives_simps)
    apply (rule decides_if)
    subgoal
      apply (rule decides_if)
      subgoal premises c
      proof (rule decides_rbind)
        obtain its' where i: "parse pat (p + 2) = Inr its'" "its = CapPos # its'"
          using pa c by (auto simp: rbind_Inr_iff)
        fix st' assume st': "StartCapture s kCapPosition st = Inr st'"
        show "decides (derives src its s (live st)) (Match src pat d s (p + 2) st')"
          by (rule decides_cong, rule 2(1) [OF c st' ok(1) StartCapture_ok [OF st' ok(2)] i(1)])
            (simp_all add: i(2) derives_simps live_StartCapture [OF st' ok(2)])
      qed
      subgoal premises c
      proof (rule decides_rbind)
        obtain its' where i: "parse pat (p + 1) = Inr its'" "its = CapOpen # its'"
          using pa c by (auto simp: rbind_Inr_iff)
        fix st' assume st': "StartCapture s kCapUnfinished st = Inr st'"
        show "decides (derives src its s (live st)) (Match src pat d s (p + 1) st')"
          by (rule decides_cong, rule 2(2) [OF c st' ok(1) StartCapture_ok [OF st' ok(2)] i(1)])
            (simp_all add: i(2) derives_simps live_StartCapture [OF st' ok(2)])
      qed
      done
    apply (rule decides_if)
    subgoal premises c
    proof (rule decides_rbind)
      obtain its' where i: "parse pat (p + 1) = Inr its'" "its = CapClose # its'"
        using pa c by (auto simp: rbind_Inr_iff)
      fix st' assume st': "EndCapture s st = Inr st'"
      show "decides (derives src its s (live st)) (Match src pat d s (p + 1) st')"
        by (rule decides_cong, rule 2(3) [OF c st' ok(1) EndCapture_ok [OF st' ok(2)] i(1)])
          (simp_all add: i(2) derives_simps live_EndCapture [OF st' ok(2)])
    qed
    apply (rule decides_if)
    subgoal using pa by (auto simp: decides_def derives_simps)
    apply (rule decides_if)
    subgoal
      apply (rule decides_if, simp)
      subgoal premises c
      proof -
        obtain its' where i: "parse pat (p + 4) = Inr its'"
          "its = Bal (of_char (pat ! (p + 2))) (of_char (pat ! (p + 3))) # its'"
          using pa c by (auto simp: rbind_Inr_iff)
        show ?thesis
        proof (cases "MatchBalance src s (of_char (pat ! (p + 2))) (of_char (pat ! (p + 3)))")
          case None
          have "decides (derives src its s (live st)) (Inr (None, st))"
            using None by (simp add: decides_def i(2) derives_simps)
          then show ?thesis by (simp only: None option.case)
        next
          case (Some s')
          note b = MatchBalance_bounds [OF Some]
          have "decides (derives src its s (live st)) (match_init src pat d s' (p + 4) st)"
            by (rule decides_cong, rule 2(4) [OF c Some _ _ i(1)])
              (use b ok pm_ok_mono Some in \<open>auto simp: i(2) derives_simps\<close>)
          then show ?thesis by (simp only: Some option.case)
        qed
      qed
      done
    apply (rule decides_if)
    subgoal
      apply (rule decides_if, simp)
      subgoal premises c
      proof (rule decides_rbind, rule decides_rbind)
        fix ep f assume ep: "ClassEnd pat (p + 2) = Inr ep" and f: "Frontier src pat s (p + 2) = Inr f"
        obtain its' where i: "parse pat ep = Inr its'" "its = Front (class_at pat (p + 2)) # its'"
          using pa c ep by (auto simp: rbind_Inr_iff)
        have fr: "f \<longleftrightarrow> \<not> class_at pat (p + 2) (byte_before src s) \<and> class_at pat (p + 2) (byte_here src s)"
          by (rule Frontier_class [OF ep f ok(1)])
        show "decides (derives src its s (live st)) (if f then match_init src pat d s ep st else Inr (None, st))"
        proof (rule decides_if)
          assume "f"
          then show "decides (derives src its s (live st)) (match_init src pat d s ep st)"
            by (intro decides_cong [OF 2(5) [OF c ep f _ ok i(1)]]) (use fr in \<open>auto simp: i(2) derives_simps\<close>)
        qed (use fr in \<open>auto simp: i(2) derives_simps intro: decides_fail\<close>)
      qed
      done
    apply (rule decides_if)
    subgoal
      apply (rule decides_if, simp)
      subgoal premises c
      proof (rule decides_rbind)
        fix r assume r: "MatchCapture src s (of_char (pat ! (p + 1)) - 49) st = Inr r"
        obtain its' where i: "parse pat (p + 2) = Inr its'" "its = Back (of_char (pat ! (p + 1)) - 49) # its'"
          using pa c by (auto simp: rbind_Inr_iff)
        note m = MatchCapture_refers [OF r ok(2,1)]
        show "decides (derives src its s (live st))
          (case r of None \<Rightarrow> Inr (None, st) | Some s' \<Rightarrow> match_init src pat d s' (p + 2) st)"
        proof (cases r)
          case None
          then show ?thesis using m by (simp add: decides_def i(2) derives_simps)
        next
          case (Some s')
          note b = MatchCapture_bounds [OF r [unfolded Some] ok(2,1)]
          have "decides (derives src its s (live st)) (match_init src pat d s' (p + 2) st)"
            by (rule decides_cong, rule 2(6) [OF c r Some _ _ i(1)])
              (use b ok pm_ok_mono m Some in \<open>auto simp: i(2) derives_simps\<close>)
          then show ?thesis by (simp only: Some option.case)
        qed
      qed
      done
    subgoal premises c
    proof (rule decides_rbind, rule decides_rbind)
      fix ep m assume ep: "ClassEnd pat p = Inr ep" and m: "SingleMatch src pat s p = Inr m"
      obtain its' where i: "parse pat (after_quant pat ep) = Inr its'"
        and its: "its = Single (class_at pat p) (quant_at pat ep) # its'"
        using pa c ep by (auto simp: rbind_Inr_iff)
      note cls = SingleMatch_class [OF ep m]
      let ?t = "class_at pat p" and ?D = "\<lambda>k e cs. derives src its' (s + k) (live st) e cs"
      have one: "all_in src ?t s n \<longleftrightarrow> n = 0" if "\<not> m" for n
        using that cls ok(1) by (cases n) (auto simp: all_in_Suc)
      have two: "all_in src ?t s (Suc n) \<longleftrightarrow> all_in src ?t (s + 1) n" if "m" for n
        using that cls by (auto simp: all_in_Suc)
      have lt: "s + 1 \<le> length src" "pm_ok (s + 1) st" if "m"
        using that cls ok(2) by (auto intro: pm_ok_mono)
      show "decides (derives src its s (live st))
        (if \<not> m then
           (if ep < length pat \<and> (pat ! ep = CHR ''*'' \<or> pat ! ep = CHR ''?'' \<or> pat ! ep = CHR ''-'') then
              match_init src pat d s (ep + 1) st else Inr (None, st))
         else if length pat \<le> ep then match_init src pat d (s + 1) ep st
         else if pat ! ep = CHR ''?'' then
           rbind (Match src pat d (s + 1) (ep + 1) st) (\<lambda>(r, st').
             case r of None \<Rightarrow> match_init src pat d s (ep + 1) (RestoreCaps st st') | Some e \<Rightarrow> Inr (Some e, st'))
         else if pat ! ep = CHR ''+'' then
           rbind (rep_count src pat (s + 1) p) (\<lambda>n. max_loop src pat d (s + 1) ep n st st)
         else if pat ! ep = CHR ''*'' then
           rbind (rep_count src pat s p) (\<lambda>n. max_loop src pat d s ep n st st)
         else if pat ! ep = CHR ''-'' then min_loop src pat d s p ep st st
         else match_init src pat d (s + 1) ep st)"
        apply (rule decides_if)
        subgoal premises n
          apply (rule decides_if)
          subgoal premises q
            using q i by (intro decides_cong [OF 2(7) [OF c ep m n q ok, of its']])
              (auto simp: its derives_simps one [OF n] quant_at_def peek_def after_quant_def)
          subgoal premises q
            using q by (intro decides_fail) (auto simp: its derives_simps one [OF n] quant_at_def peek_def)
          done
        apply (rule decides_if)
        subgoal premises n
          using n i lt by (intro decides_cong [OF 2(8) [OF c ep m n, of its']])
            (auto simp: its derives_simps two quant_at_def peek_def after_quant_def)
        apply (rule decides_if)
        subgoal premises n
        proof -
          have q: "quant_at pat ep = Optional" "parse pat (ep + 1) = Inr its'"
            using n i by (simp_all add: quant_at_def peek_def after_quant_def)
          have le1: "(\<exists>k. k \<le> Suc 0 \<and> P k) \<longleftrightarrow> P (Suc 0) \<or> P 0" for P :: "nat \<Rightarrow> bool"
            by (auto simp: le_Suc_eq)
          have mm: "m" using n by simp
          have none: "decides (?D 0) (match_init src pat d s (ep + 1) (RestoreCaps st st'))"
            if "Match src pat d (s + 1) (ep + 1) st = Inr (None, st')" for st'
            using 2(10) [OF c ep m n that refl refl ok(1) _ q(2)] ok by simp
          show ?thesis
            by (rule decides_cong, rule decides_retry, rule 2(9) [OF c ep m n lt [OF mm] q(2)], erule none)
              (use lt [OF mm] ok(1) in \<open>simp add: its derives_simps q le1 two [OF mm]\<close>)
        qed
        apply (rule decides_if)
        subgoal premises n
        proof (rule decides_rbind)
          fix k assume k: "rep_count src pat (s + 1) p = Inr k"
          have q: "quant_at pat ep = Plus" "parse pat (ep + 1) = Inr its'"
            using n i by (simp_all add: quant_at_def peek_def after_quant_def)
          have mm: "m" using n by simp
          have bound: "s + 1 + k \<le> length src" using rep_count_ok [OF ep lt(1) [OF mm]] k by auto
          have all: "all_in src ?t s j \<longleftrightarrow> j - 1 \<le> k" if "1 \<le> j" for j
            using rep_count_all_in [OF k ep lt(1) [OF mm], of "j - 1"] two [OF mm, of "j - 1"] that by simp
          have "(\<exists>j \<ge> 1. all_in src ?t s j \<and> P j) \<longleftrightarrow> (\<exists>j \<le> k. P (Suc j))" for P
            by (metis all One_nat_def Suc_le_eq diff_Suc_1 le_add1 plus_1_eq_Suc Suc_pred zero_less_Suc)
          then show "decides (derives src its s (live st)) (max_loop src pat d (s + 1) ep k st st)"
            by (intro decides_cong [OF 2(11) [OF c ep m n k bound refl lt(2) [OF mm] q(2)]])
              (simp add: its derives_simps q conj_assoc)
        qed
        apply (rule decides_if)
        subgoal premises n
        proof (rule decides_rbind)
          fix k assume k: "rep_count src pat s p = Inr k"
          have q: "quant_at pat ep = Star" "parse pat (ep + 1) = Inr its'"
            using n i by (simp_all add: quant_at_def peek_def after_quant_def)
          have bound: "s + k \<le> length src" using rep_count_ok [OF ep ok(1)] k by auto
          show "decides (derives src its s (live st)) (max_loop src pat d s ep k st st)"
            by (rule decides_cong [OF 2(12) [OF c ep m n k bound refl ok(2) q(2)]])
              (simp add: its derives_simps q rep_count_all_in [OF k ep ok(1)])
        qed
        apply (rule decides_if)
        subgoal premises n
        proof -
          have q: "quant_at pat ep = Lazy" "parse pat (ep + 1) = Inr its'"
            using n i by (simp_all add: quant_at_def peek_def after_quant_def)
          show ?thesis
            by (rule decides_cong [OF 2(13) [OF c ep m n ok(1) refl ok(2) ep q(2)]]) (simp add: its derives_simps q)
        qed
        subgoal premises n
          using n i lt by (intro decides_cong [OF 2(14) [OF c ep m n, of its']])
            (auto simp: its derives_simps two quant_at_def peek_def after_quant_def)
        done
    qed
    done
next
  case (3 src pat d s ep i snap st)
  have step: "decides (derives src its (s + i) (live snap)) (Match src pat d (s + i) (ep + 1) st)"
    using 3(1) [OF 3(3) _ 3(6)] 3(4) pm_ok_mono [OF 3(5), of "s + i"] by simp
  have rest: "decides (\<lambda>e cs. \<exists>n < i. derives src its (s + n) (live snap) e cs)
      (if i = 0 then Inr (None, RestoreCaps snap st')
       else max_loop src pat d s ep (i - 1) snap (RestoreCaps snap st'))"
    if "Match src pat d (s + i) (ep + 1) st = Inr (None, st')" for st'
  proof (rule decides_if)
    assume i: "i \<noteq> 0"
    then have "n \<le> i - 1 \<longleftrightarrow> n < i" for n by auto
    then show "decides (\<lambda>e cs. \<exists>n < i. derives src its (s + n) (live snap) e cs)
      (max_loop src pat d s ep (i - 1) snap (RestoreCaps snap st'))"
      using 3(2) [OF that refl refl i _ _ 3(5,6)] 3(3) by simp
  qed (simp add: decides_def)
  show ?case
    by (subst max_loop.simps, rule decides_cong, rule decides_retry, rule step, erule rest) (auto simp: le_less)
next
  case (4 src pat d s p ep snap st)
  have step: "decides (derives src its s (live snap)) (Match src pat d s (ep + 1) st)"
    using 4(1) [OF 4(3) _ 4(7)] 4(4,5) by auto
  have rest: "decides (\<lambda>e cs. \<exists>n. all_in src (class_at pat p) s (Suc n) \<and> derives src its (s + Suc n) (live snap) e cs)
      (rbind (SingleMatch src pat s p) (\<lambda>m.
         if s < length src \<and> m then min_loop src pat d (s + 1) p ep snap (RestoreCaps snap st')
         else Inr (None, RestoreCaps snap st')))"
    if "Match src pat d s (ep + 1) st = Inr (None, st')" for st'
  proof (rule decides_rbind, rule decides_if)
    fix m assume m: "SingleMatch src pat s p = Inr m"
    note cls = SingleMatch_class [OF 4(6) m]
    {
      assume c: "s < length src \<and> m"
      show "decides (\<lambda>e cs. \<exists>n. all_in src (class_at pat p) s (Suc n) \<and> derives src its (s + Suc n) (live snap) e cs)
        (min_loop src pat d (s + 1) p ep snap (RestoreCaps snap st'))"
        by (rule decides_cong, rule 4(2) [OF that refl refl m c _ _ _ 4(6,7)])
          (use c cls 4(3-5) in \<open>auto simp: all_in_Suc intro: pm_ok_mono\<close>)
    next
      assume "\<not> (s < length src \<and> m)"
      then show "decides (\<lambda>e cs. \<exists>n. all_in src (class_at pat p) s (Suc n) \<and> derives src its (s + Suc n) (live snap) e cs)
        (Inr (None, RestoreCaps snap st'))"
        using cls by (intro decides_fail) (auto simp: all_in_Suc)
    }
  qed
  have split: "(\<exists>n. P n) \<longleftrightarrow> P 0 \<or> (\<exists>n. P (Suc n))" for P :: "nat \<Rightarrow> bool"
    by (metis not0_implies_Suc)
  show ?case
    by (subst min_loop.simps, rule decides_cong, rule decides_retry, rule step, erule rest)
      (use 4(3) split [of "\<lambda>n. all_in src (class_at pat p) s n \<and> derives src its (s + n) (live snap) _ _"] in auto)
qed

section \<open>Search\<close>

definition anchored :: "string \<Rightarrow> bool" where
  "anchored pat \<longleftrightarrow> pat \<noteq> [] \<and> pat ! 0 = CHR ''^''"

definition body :: "string \<Rightarrow> string" where
  "body pat = (if anchored pat then drop 1 pat else pat)"

text \<open>The positions \<open>Search\<close> may begin at.\<close>

definition tries :: "string \<Rightarrow> string \<Rightarrow> nat \<Rightarrow> nat set" where
  "tries src pat start = (if anchored pat then {start} else {start..length src})"

lemma RunAt_decides:
  assumes "parse pat 0 = Inr its" and "length (caps st) = kMaxCaptures" and "start \<le> length src"
  shows "RunAt src pat start st = Inr (Some m, st') \<Longrightarrow> derives src its start [] (mr_end m) (mr_caps m)"
    and "RunAt src pat start st = Inr (None, st') \<Longrightarrow> \<not> derives src its start [] e cs"
  using Match_spec_all(1) [OF assms(3) pm_ok_fresh [OF assms(2)] assms(1), of 0] assms(3)
  by (auto simp: RunAt_def rbind_Inr_iff decides_def live_def split: option.splits)

lemma search_loop_decides:
  "parse pat 0 = Inr its \<Longrightarrow> length (caps st) = kMaxCaptures \<Longrightarrow>
   (case search_loop src pat start st of
      Inl e \<Rightarrow> True
    | Inr None \<Rightarrow> \<not> (\<exists>pos e cs. start \<le> pos \<and> pos \<le> length src \<and> derives src its pos [] e cs)
    | Inr (Some m) \<Rightarrow> derives src its (mr_begin m) [] (mr_end m) (mr_caps m) \<and>
        \<not> (\<exists>pos e cs. start \<le> pos \<and> pos < mr_begin m \<and> derives src its pos [] e cs))"
proof (induction src pat start st rule: search_loop.induct)
  case (1 src pat pos st)
  show ?case
  proof (cases "length src < pos")
    case True
    then show ?thesis by (subst search_loop.simps) auto
  next
    case False
    then have le: "pos \<le> length src" by simp
    show ?thesis
    proof (rule RunAt_cases [OF 1(3), where src = src and pat = pat and start = pos])
      fix st' assume none: "RunAt src pat pos st = Inr (None, st')" "length (caps st') = kMaxCaptures"
      have no: "\<not> derives src its pos [] e cs" for e cs by (rule RunAt_decides(2) [OF 1(2,3) le none(1)])
      then have first: "pos \<le> k \<Longrightarrow> derives src its k [] e cs \<Longrightarrow> Suc pos \<le> k" for k e cs
        by (metis le_antisym not_less_eq_eq)
      have eq: "search_loop src pat pos st = search_loop src pat (pos + 1) st'"
        using False none(1) by (subst search_loop.simps) simp
      note ih = 1(1) [OF False none(1) refl refl 1(2) none(2)]
      show ?thesis
      proof (cases "search_loop src pat (pos + 1) st'")
        case (Inr r)
        then show ?thesis
        proof (cases r)
          case None
          then show ?thesis using ih Inr eq by simp (meson first)
        next
          case (Some m)
          then show ?thesis using ih Inr eq by simp (meson first)
        qed
      qed (simp add: eq)
    next
      fix m st' assume m: "RunAt src pat pos st = Inr (Some m, st')" "mr_begin m = pos"
      have "search_loop src pat pos st = Inr (Some m)" using False m(1) by (subst search_loop.simps) simp
      then show ?thesis using RunAt_decides(1) [OF 1(2,3) le m(1)] m(2) by simp
    qed (use False in \<open>subst search_loop.simps, simp\<close>)
  qed
qed

text \<open>
  C11. \<open>Search\<close> is correct for the meaning of patterns: for a well-formed pattern it reports no match only when the
  pattern matches at no admissible position, and the match it reports is one of the pattern's, captures included,
  at the leftmost position where the pattern matches at all.
\<close>
theorem search_finds_leftmost:
  assumes "parse (body pat) 0 = Inr its" and "start \<le> length src"
  shows "case Search src pat start of
      Inl e \<Rightarrow> e \<in> errors_for (length pat)
    | Inr None \<Rightarrow> \<not> (\<exists>pos e cs. pos \<in> tries src pat start \<and> derives src its pos [] e cs)
    | Inr (Some m) \<Rightarrow> mr_begin m \<in> tries src pat start \<and> derives src its (mr_begin m) [] (mr_end m) (mr_caps m) \<and>
        \<not> (\<exists>pos e cs. pos \<in> tries src pat start \<and> pos < mr_begin m \<and> derives src its pos [] e cs)"
proof (cases "anchored pat")
  case True
  then have s: "Search src pat start = rbind (RunAt src (body pat) start pm_new) (\<lambda>(r, _). Inr r)"
    using assms(2) by (auto simp: Search_def anchored_def body_def Let_def)
  show ?thesis
    using search_stays_inside_facts [where src = src and pat = pat and start = start] RunAt_decides [OF assms(1) pm_new_caps assms(2)] True
    by (rule_tac RunAt_cases [OF pm_new_caps, where src = src and pat = "body pat" and start = start])
      (auto simp: s tries_def)
next
  case False
  then have s: "Search src pat start = search_loop src (body pat) start pm_new"
    using assms(2) by (auto simp: Search_def anchored_def body_def Let_def)
  show ?thesis
    using search_stays_inside_facts [where src = src and pat = pat and start = start]
      search_loop_decides [OF assms(1) pm_new_caps, where src = src and start = start] False
    by (auto simp: s tries_def inside_def split: sum.splits option.splits)
qed

lemma demo_pattern: "parse (body ''(b+)'') 0 = Inr [CapOpen, Single (class_at ''(b+)'' 1) Plus, CapClose]"
  by (simp add: body_def anchored_def parse.simps peek_def ClassEnd_def rd_def after_quant_def quant_at_def)

lemma demo_search: "Search ''xabbc'' ''(b+)'' 0 =
    Inr (Some \<lparr>mr_begin = 2, mr_end = 4, mr_level = 1, mr_caps = [\<lparr>cap_init = 2, cap_len = 2\<rparr>]\<rparr>)"
  by code_simp

theorem search_finds_leftmost_witness:
  "derives ''xabbc'' [CapOpen, Single (class_at ''(b+)'' 1) Plus, CapClose] 2 [] 4 [\<lparr>cap_init = 2, cap_len = 2\<rparr>]"
  using search_finds_leftmost [OF demo_pattern, of 0 "''xabbc''"] by (simp add: demo_search)

end
