(* ===== verification/StringLib.thy ===== *)
theory StringLib
imports LuaPatternSafe InterpRuntime Conversions
begin

text \<open>
  The \<open>string\<close> library (\<open>native/string/native_string.cpp\<close>): the functions on whole strings, the ones that match
  patterns, and the loops of \<open>gmatch\<close> and \<open>gsub\<close>. A native function gets the list of its arguments; \<open>n\<close> of the
  code is the length of that list. A new string or multi value that exceeds the allocator's limit is its
  exception. What \<open>gsub\<close> does with a match is an argument of its loop; the three kinds of replacement are
  below. Calling a Lua function is a parameter.
\<close>

section \<open>Arguments and results\<close>

definition new_string :: "string \<Rightarrow> cvar result" where
  "new_string s = rbind (alloc_check (sizeof_VarString + length s)) (\<lambda>_. Inr (VString s))"

definition new_int :: "int \<Rightarrow> cvar" where "new_int i = VInt (word_of_int i)"

definition need_args :: "string \<Rightarrow> string list \<Rightarrow> cvar list \<Rightarrow> unit result" where
  "need_args fname expected args =
     (if length args < length expected then Inl (bad_argument (length args + 1) fname (expected ! length args))
      else Inr ())"

definition string_arg :: "cvar list \<Rightarrow> nat \<Rightarrow> string \<Rightarrow> string result" where
  "string_arg args i fname =
     (let a = GetNativeArg args i in rbind (CheckStringArg a (i + 1) fname) (\<lambda>_. Inr (GetStringArgView a)))"

text \<open>An optional integer: an absent argument and \<open>nil\<close> mean the default.\<close>

definition opt_integer :: "cvar list \<Rightarrow> nat \<Rightarrow> string \<Rightarrow> int64 \<Rightarrow> int64 result" where
  "opt_integer args i fname dflt =
     (if length args \<le> i then Inr dflt
      else let a = GetNativeArg args i in if a = VNil then Inr dflt else CheckIntegerArg a (i + 1) fname)"

definition len64 :: "string \<Rightarrow> int64" where "len64 s = word_of_nat (length s)"

section \<open>Whole strings\<close>

definition StringLen :: "cvar list \<Rightarrow> cvar result" where
  "StringLen args =
     rbind (need_args ''string.len'' [''string expected''] args) (\<lambda>_.
     rbind (string_arg args 0 ''string.len'') (\<lambda>sv. Inr (VInt (len64 sv))))"

text \<open>The part of \<open>string.sub\<close> behind the argument checks.\<close>

definition sub_range :: "string \<Rightarrow> int64 \<Rightarrow> int64 \<Rightarrow> string" where
  "sub_range sv i j =
     (let len = len64 sv;
          i1 = LuaPosRelat i len; j1 = LuaPosRelat j len;
          st = (if sint i1 < 1 then 1 else i1);
          en = (if sint len < sint j1 then len else j1)
      in if sint en < sint st \<or> sint len < sint st \<or> sint en < 1 then []
         else take (unat (en - st + 1)) (drop (unat (st - 1)) sv))"

definition StringSub :: "cvar list \<Rightarrow> cvar result" where
  "StringSub args =
     rbind (need_args ''string.sub'' [''string expected'', ''number expected''] args) (\<lambda>_.
     rbind (string_arg args 0 ''string.sub'') (\<lambda>sv.
     rbind (CheckIntegerArg (GetNativeArg args 1) 2 ''string.sub'') (\<lambda>i.
     rbind (opt_integer args 2 ''string.sub'' (len64 sv)) (\<lambda>j. new_string (sub_range sv i j)))))"

fun rep_loop :: "nat \<Rightarrow> string \<Rightarrow> string \<Rightarrow> string" where
  "rep_loop 0 sv sep = []"
| "rep_loop (Suc 0) sv sep = sv"
| "rep_loop (Suc n) sv sep = rep_loop n sv sep @ sep @ sv"

definition rep_separator :: "cvar list \<Rightarrow> string result" where
  "rep_separator args =
     (if length args < 3 then Inr []
      else if GetNativeArg args 2 = VNil then Inr [] else string_arg args 2 ''string.rep'')"

definition StringRep :: "cvar list \<Rightarrow> cvar result" where
  "StringRep args =
     rbind (need_args ''string.rep'' [''string expected'', ''number expected''] args) (\<lambda>_.
     rbind (string_arg args 0 ''string.rep'') (\<lambda>sv.
     rbind (CheckIntegerArg (GetNativeArg args 1) 2 ''string.rep'') (\<lambda>cnt.
       if sint cnt \<le> 0 then new_string []
       else rbind (rep_separator args) (\<lambda>sep.
         if sv = [] \<and> sep = [] then new_string []
         else if 1073741824 div (length sv + length sep) < unat cnt then
           Inl ''string.rep: resulting string too large''
         else new_string (rep_loop (unat cnt) sv sep)))))"

definition map_string :: "string \<Rightarrow> (string \<Rightarrow> string) \<Rightarrow> cvar list \<Rightarrow> cvar result" where
  "map_string fname f args =
     rbind (need_args fname [''string expected''] args) (\<lambda>_.
     rbind (string_arg args 0 fname) (\<lambda>sv. new_string (f sv)))"

definition StringReverse :: "cvar list \<Rightarrow> cvar result" where
  "StringReverse = map_string ''string.reverse'' rev"

definition ascii_lower :: "char \<Rightarrow> char" where
  "ascii_lower c = (let n = of_char c :: nat in if 65 \<le> n \<and> n \<le> 90 then char_of (n + 32) else c)"

definition ascii_upper :: "char \<Rightarrow> char" where
  "ascii_upper c = (let n = of_char c :: nat in if 97 \<le> n \<and> n \<le> 122 then char_of (n - 32) else c)"

definition StringLower :: "cvar list \<Rightarrow> cvar result" where
  "StringLower = map_string ''string.lower'' (map ascii_lower)"

definition StringUpper :: "cvar list \<Rightarrow> cvar result" where
  "StringUpper = map_string ''string.upper'' (map ascii_upper)"

definition StringByte :: "cvar list \<Rightarrow> cvar result" where
  "StringByte args =
     rbind (need_args ''string.byte'' [''string expected''] args) (\<lambda>_.
     rbind (string_arg args 0 ''string.byte'') (\<lambda>sv.
     rbind (opt_integer args 1 ''string.byte'' 1) (\<lambda>i.
     rbind (opt_integer args 2 ''string.byte'' i) (\<lambda>j.
       let len = len64 sv; i1 = LuaPosRelat i len; j1 = LuaPosRelat j len in
       if sint i1 < 1 \<or> sint len < sint i1 \<or> sint j1 < sint i1 then alloc_multi []
       else
         let en = (if sint len < sint j1 then len else j1);
             cnt = unat (en - i1 + 1);
             item = (\<lambda>k. VInt (word_of_nat (of_char (sv ! (unat (i1 - 1) + k)))))
         in if cnt = 1 then Inr (item 0) else alloc_multi (map item [0..<cnt])))))"

text \<open>One argument of \<open>string.char\<close>.\<close>

definition char_arg :: "cvar \<Rightarrow> char result" where
  "char_arg v =
     (let range = (\<lambda>c. if sint c < 0 \<or> 255 < sint c then Inl ''bad argument to 'string.char' (value out of range)''
                       else Inr (char_of (unat c)))
      in case v of
           VInt i \<Rightarrow> range i
         | VFloat d \<Rightarrow> (case integral_arg d of
               None \<Rightarrow> Inl ''bad argument to 'string.char' (number has no integer representation)''
             | Some i \<Rightarrow> range i)
         | _ \<Rightarrow> Inl ''bad argument to 'string.char' (number expected)'')"

fun char_args :: "cvar list \<Rightarrow> nat \<Rightarrow> nat \<Rightarrow> string result" where
  "char_args args i 0 = Inr []"
| "char_args args i (Suc k) =
     rbind (char_arg (GetNativeArg args i)) (\<lambda>c. rbind (char_args args (i + 1) k) (\<lambda>cs. Inr (c # cs)))"

definition StringChar :: "cvar list \<Rightarrow> cvar result" where
  "StringChar args = rbind (char_args args 0 (length args)) new_string"

section \<open>Matches\<close>

definition unfinished_capture :: string where "unfinished_capture = ''unfinished capture''"

definition CheckCapturesFinished :: "MatchResult \<Rightarrow> unit result" where
  "CheckCapturesFinished m =
     (if list_ex (\<lambda>c. cap_len c = kCapUnfinished) (mr_caps m) then Inl unfinished_capture else Inr ())"

definition cap_text :: "string \<Rightarrow> Capture \<Rightarrow> string" where
  "cap_text src c = take (nat (cap_len c)) (drop (cap_init c) src)"

definition CaptureToCVar :: "string \<Rightarrow> Capture \<Rightarrow> cvar result" where
  "CaptureToCVar src c =
     (if cap_len c = kCapPosition then Inr (new_int (int (cap_init c) + 1)) else new_string (cap_text src c))"

fun captures_to_cvars :: "string \<Rightarrow> Capture list \<Rightarrow> cvar list result" where
  "captures_to_cvars src [] = Inr []"
| "captures_to_cvars src (c # cs) =
     rbind (CaptureToCVar src c) (\<lambda>v. rbind (captures_to_cvars src cs) (\<lambda>vs. Inr (v # vs)))"

definition match_text :: "string \<Rightarrow> MatchResult \<Rightarrow> string" where
  "match_text src m = take (mr_end m - mr_begin m) (drop (mr_begin m) src)"

definition BuildFindResult :: "string \<Rightarrow> MatchResult \<Rightarrow> cvar result" where
  "BuildFindResult src m =
     rbind (CheckCapturesFinished m) (\<lambda>_.
     rbind (captures_to_cvars src (mr_caps m)) (\<lambda>vs.
       alloc_multi (new_int (int (mr_begin m) + 1) # new_int (int (mr_end m)) # vs)))"

text \<open>What \<open>match\<close> and \<open>gmatch\<close> return: the captures, or the whole match.\<close>

definition match_values :: "string \<Rightarrow> MatchResult \<Rightarrow> cvar result" where
  "match_values src m =
     (if 0 < mr_level m then
        rbind (CheckCapturesFinished m) (\<lambda>_. rbind (captures_to_cvars src (mr_caps m)) alloc_multi)
      else new_string (match_text src m))"

section \<open>find and match\<close>

text \<open>\<open>std::string::find\<close>: the first occurrence from \<open>pos\<close> on.\<close>

function find_from :: "string \<Rightarrow> string \<Rightarrow> nat \<Rightarrow> nat option" where
  "find_from sv p pos =
     (if length sv < pos + length p then None
      else if take (length p) (drop pos sv) = p then Some pos
      else find_from sv p (pos + 1))"
  by pat_completeness auto
termination by (relation "measure (\<lambda>(sv, p, pos). length sv + 1 - pos)") auto

declare find_from.simps [simp del]

text \<open>The start of a search, or none when it lies behind the end.\<close>

definition init_position :: "cvar list \<Rightarrow> string \<Rightarrow> string \<Rightarrow> nat option result" where
  "init_position args fname sv =
     rbind (opt_integer args 2 fname 1) (\<lambda>i.
       let len = len64 sv; i1 = LuaPosRelat i len; i2 = (if sint i1 < 1 then 1 else i1) in
       if sint len + 1 < sint i2 then Inr None else Inr (Some (unat (i2 - 1))))"

definition plain_flag :: "cvar list \<Rightarrow> bool" where
  "plain_flag args \<longleftrightarrow> 4 \<le> length args \<and> GetNativeArg args 3 = VBool True"

definition StringFind :: "cvar list \<Rightarrow> cvar result" where
  "StringFind args =
     rbind (need_args ''string.find'' [''string expected'', ''string expected''] args) (\<lambda>_.
     rbind (string_arg args 0 ''string.find'') (\<lambda>sv.
     rbind (string_arg args 1 ''string.find'') (\<lambda>pat.
     rbind (init_position args ''string.find'' sv) (\<lambda>init.
       case init of None \<Rightarrow> Inr VNil
       | Some st \<Rightarrow>
           if plain_flag args then
             (case find_from (drop st sv) pat 0 of
                None \<Rightarrow> Inr VNil
              | Some pos \<Rightarrow> alloc_multi [new_int (int (st + pos) + 1), new_int (int (st + pos + length pat))])
           else rbind (Search sv pat st) (\<lambda>r.
             case r of None \<Rightarrow> Inr VNil | Some m \<Rightarrow> BuildFindResult sv m)))))"

definition StringMatch :: "cvar list \<Rightarrow> cvar result" where
  "StringMatch args =
     rbind (need_args ''string.match'' [''string expected'', ''string expected''] args) (\<lambda>_.
     rbind (string_arg args 0 ''string.match'') (\<lambda>sv.
     rbind (string_arg args 1 ''string.match'') (\<lambda>pat.
     rbind (init_position args ''string.match'' sv) (\<lambda>init.
       case init of None \<Rightarrow> Inr VNil
       | Some st \<Rightarrow> rbind (Search sv pat st) (\<lambda>r.
             case r of None \<Rightarrow> Inr VNil | Some m \<Rightarrow> match_values sv m)))))"

end
