(* ===== verification/StringGsub.thy ===== *)
theory StringGsub
imports StringLib
begin

text \<open>
  The loops over matches of \<open>native/string/native_string.cpp\<close>: the iterator of \<open>string.gmatch\<close>, whose
  state is the record \<open>GMatchState\<close> of the code (\<open>None\<close> is the \<open>SIZE_MAX\<close> that \<open>prev\<close> begins with), and \<open>string.gsub\<close>.
  The replacement is an argument of the loop of \<open>gsub\<close>: it gets the match and the state and returns the
  replacement, or \<open>None\<close> to keep the original text.
\<close>

lemma MatchAt_inside: "MatchAt src pat pos b = Inr (Some m) \<Longrightarrow> mr_begin m = pos \<and> inside pos (length src) m"
proof -
  let ?p = "if b \<and> pat \<noteq> [] \<and> pat ! 0 = CHR ''^'' then drop 1 pat else pat"
  assume "MatchAt src pat pos b = Inr (Some m)"
  then have "rbind (RunAt src ?p pos pm_new) (\<lambda>(r, _). Inr r) = Inr (Some m)"
    by (simp only: MatchAt_def Let_def)
  then show ?thesis
    by (rule_tac RunAt_cases [OF pm_new_caps, where src = src and pat = ?p and start = pos]) auto
qed

section \<open>gmatch\<close>

record GMatchState =
  gm_text :: string
  gm_pattern :: string
  gm_prev :: "nat option"

definition StringGmatch :: "cvar list \<Rightarrow> GMatchState result" where
  "StringGmatch args =
     rbind (need_args ''string.gmatch'' [''string expected'', ''string expected''] args) (\<lambda>_.
     rbind (string_arg args 0 ''string.gmatch'') (\<lambda>sv.
     rbind (string_arg args 1 ''string.gmatch'') (\<lambda>pat.
       Inr \<lparr>gm_text = sv, gm_pattern = pat, gm_prev = None\<rparr>)))"

text \<open>The loop of the iterator: what the call returns, and the new \<open>prev\<close>.\<close>

function gmatch_loop :: "string \<Rightarrow> string \<Rightarrow> nat option \<Rightarrow> nat \<Rightarrow> cvar result \<times> nat option" where
  "gmatch_loop src pat prev pos =
     (if length src < pos then (Inr VNil, None)
      else case MatchAt src pat pos False of
          Inl e \<Rightarrow> (Inl e, prev)
        | Inr None \<Rightarrow> gmatch_loop src pat prev (pos + 1)
        | Inr (Some m) \<Rightarrow>
            if mr_end m \<noteq> pos \<or> prev \<noteq> Some pos then (match_values src m, Some (mr_end m))
            else gmatch_loop src pat prev (pos + 1))"
  by pat_completeness auto
termination by (relation "measure (\<lambda>(src, pat, prev, pos). length src + 1 - pos)") auto

declare gmatch_loop.simps [simp del]

definition GMatchIterator :: "GMatchState \<Rightarrow> cvar result \<times> GMatchState" where
  "GMatchIterator gs =
     (let (r, prev) = gmatch_loop (gm_text gs) (gm_pattern gs) (gm_prev gs)
                        (case gm_prev gs of None \<Rightarrow> 0 | Some q \<Rightarrow> q)
      in (r, gs\<lparr>gm_prev := prev\<rparr>))"

text \<open>A \<open>for\<close> loop over the iterator with a bound on the calls: the values it saw, or the error of a call.\<close>

fun gmatch_for :: "nat \<Rightarrow> GMatchState \<Rightarrow> cvar list result option" where
  "gmatch_for 0 gs = None"
| "gmatch_for (Suc n) gs =
     (case GMatchIterator gs of
        (Inl e, _) \<Rightarrow> Some (Inl e)
      | (Inr v, gs') \<Rightarrow>
          if v = VNil then Some (Inr [])
          else map_option (\<lambda>r. rbind r (\<lambda>vs. Inr (v # vs))) (gmatch_for n gs'))"

lemma match_values_not_nil: "match_values src m \<noteq> Inr VNil"
  by (auto simp: match_values_def new_string_def alloc_multi_def rbind_Inr_iff split: if_splits)

text \<open>A call that returns a value moves \<open>prev\<close> on.\<close>

lemma gmatch_loop_advances:
  "gmatch_loop src pat prev pos = (Inr v, prev') \<Longrightarrow> (case prev of None \<Rightarrow> True | Some q \<Rightarrow> q \<le> pos) \<Longrightarrow>
   v = VNil \<and> prev' = None \<or>
   v \<noteq> VNil \<and> (\<exists>e. prev' = Some e \<and> pos \<le> e \<and> e \<le> length src \<and> prev \<noteq> Some e)"
proof (induction src pat prev pos rule: gmatch_loop.induct)
  case (1 src pat prev pos)
  show ?case
  proof (cases "length src < pos")
    case True
    then show ?thesis using 1(3) by (subst (asm) gmatch_loop.simps) simp
  next
    case False
    have later: "case prev of None \<Rightarrow> True | Some q \<Rightarrow> q \<le> pos + 1" using 1(4) by (auto split: option.splits)
    show ?thesis
    proof (cases "MatchAt src pat pos False")
      case (Inl e)
      then show ?thesis using 1(3) False by (subst (asm) gmatch_loop.simps) simp
    next
      case (Inr r)
      show ?thesis
      proof (cases r)
        case None
        have "gmatch_loop src pat prev (pos + 1) = (Inr v, prev')"
          using 1(3) False Inr None by (subst (asm) gmatch_loop.simps) simp
        then show ?thesis using 1(1) [OF False Inr None _ later] by auto
      next
        case (Some m)
        note inside = MatchAt_inside [OF Inr [unfolded Some]]
        show ?thesis
        proof (cases "mr_end m \<noteq> pos \<or> prev \<noteq> Some pos")
          case True
          then have "match_values src m = Inr v" "prev' = Some (mr_end m)"
            using 1(3) False Inr Some by (subst (asm) gmatch_loop.simps, simp)+
          then show ?thesis using inside True 1(4) match_values_not_nil [of src m]
            by (auto simp: inside_def)
        next
          case False
          have "gmatch_loop src pat prev (pos + 1) = (Inr v, prev')"
            using 1(3) \<open>\<not> length src < pos\<close> Inr Some False by (subst (asm) gmatch_loop.simps) simp
          then show ?thesis using 1(2) [OF \<open>\<not> length src < pos\<close> Inr Some False _ later] by auto
        qed
      qed
    qed
  qed
qed

text \<open>How many calls can still return a value.\<close>

definition gmatch_left :: "GMatchState \<Rightarrow> nat" where
  "gmatch_left gs = (case gm_prev gs of None \<Rightarrow> length (gm_text gs) + 1 | Some q \<Rightarrow> length (gm_text gs) - q)"

lemma GMatchIterator_cases:
  assumes "GMatchIterator gs = (Inr v, gs')"
  shows "v = VNil \<and> gm_prev gs' = None \<or> v \<noteq> VNil \<and> gmatch_left gs' < gmatch_left gs"
    and "gm_text gs' = gm_text gs" "gm_pattern gs' = gm_pattern gs"
proof -
  obtain r prev where l: "gmatch_loop (gm_text gs) (gm_pattern gs) (gm_prev gs)
      (case gm_prev gs of None \<Rightarrow> 0 | Some q \<Rightarrow> q) = (r, prev)" by fastforce
  then have e: "r = Inr v" "gs' = gs\<lparr>gm_prev := prev\<rparr>" using assms by (simp_all add: GMatchIterator_def)
  then show "gm_text gs' = gm_text gs" "gm_pattern gs' = gm_pattern gs" by simp_all
  show "v = VNil \<and> gm_prev gs' = None \<or> v \<noteq> VNil \<and> gmatch_left gs' < gmatch_left gs"
    using gmatch_loop_advances [OF l [unfolded e(1)]] e(2)
    by (cases "gm_prev gs") (auto simp: gmatch_left_def)
qed

lemma gmatch_for_ends: "gmatch_left gs < n \<Longrightarrow> gmatch_for n gs \<noteq> None"
proof (induction n arbitrary: gs)
  case (Suc n)
  obtain r gs' where c: "GMatchIterator gs = (r, gs')" by fastforce
  show ?case
  proof (cases r)
    case (Inr v)
    have "v = VNil \<or> gmatch_left gs' < n" using GMatchIterator_cases(1) [OF c [unfolded Inr]] Suc.prems by auto
    then show ?thesis using Suc.IH [of gs'] c Inr by auto
  qed (use c in simp)
qed simp

section \<open>gsub\<close>

text \<open>The search for the next match from \<open>trial\<close> on; \<open>prev\<close> is the end of the previous match.\<close>

function gsub_trial :: "string \<Rightarrow> string \<Rightarrow> bool \<Rightarrow> nat option \<Rightarrow> nat \<Rightarrow> MatchResult option result" where
  "gsub_trial sv pat anch prev trial =
     (if length sv < trial then Inr None
      else case MatchAt sv pat trial True of
          Inl e \<Rightarrow> Inl e
        | Inr None \<Rightarrow> if anch then Inr None else gsub_trial sv pat anch prev (trial + 1)
        | Inr (Some m) \<Rightarrow>
            if mr_end m = mr_begin m \<and> prev = Some (mr_begin m)
            then (if anch then Inr None else gsub_trial sv pat anch prev (trial + 1))
            else Inr (Some m))"
  by pat_completeness auto
termination by (relation "measure (\<lambda>(sv, pat, anch, prev, trial). length sv + 1 - trial)") auto

declare gsub_trial.simps [simp del]

lemma gsub_trial_inside: "gsub_trial sv pat anch prev trial = Inr (Some m) \<Longrightarrow> inside trial (length sv) m"
proof (induction sv pat anch prev trial rule: gsub_trial.induct)
  case (1 sv pat anch prev trial)
  have le: "trial \<le> length sv" using 1(3) by (subst (asm) gsub_trial.simps) (auto split: if_splits)
  then obtain r where r: "MatchAt sv pat trial True = Inr r"
    using 1(3) by (subst (asm) gsub_trial.simps) (auto split: sum.splits)
  have later: "inside trial (length sv) m" if "gsub_trial sv pat anch prev (trial + 1) = Inr (Some m)"
    "\<lbrakk>gsub_trial sv pat anch prev (trial + 1) = Inr (Some m)\<rbrakk> \<Longrightarrow> inside (trial + 1) (length sv) m"
    using that by (auto intro: inside_start)
  show ?case
  proof (cases r)
    case None
    then have a: "\<not> anch" "gsub_trial sv pat anch prev (trial + 1) = Inr (Some m)"
      using 1(3) le r by (subst (asm) gsub_trial.simps, simp split: if_splits)+
    then show ?thesis using 1(1) [OF _ r None a] le later by simp
  next
    case (Some m')
    show ?thesis
    proof (cases "mr_end m' = mr_begin m' \<and> prev = Some (mr_begin m')")
      case True
      then have a: "\<not> anch" "gsub_trial sv pat anch prev (trial + 1) = Inr (Some m)"
        using 1(3) le r Some by (subst (asm) gsub_trial.simps, simp split: if_splits)+
      then show ?thesis using 1(2) [OF _ r Some True a] le later by simp
    next
      case False
      then have "m' = m" using 1(3) le r Some by (subst (asm) gsub_trial.simps) (auto split: if_splits)
      then show ?thesis using MatchAt_inside r Some by blast
    qed
  qed
qed

text \<open>
  After a match: the result so far, what of the subject is already in it, and where to search on. An empty match
  copies one byte, if there is one.
\<close>

definition gsub_next :: "string \<Rightarrow> nat \<Rightarrow> MatchResult \<Rightarrow> string \<Rightarrow> string option \<Rightarrow> string \<times> nat \<times> nat" where
  "gsub_next sv copied m out r =
     (let st = mr_begin m; en = mr_end m;
          out1 = out @ take (st - copied) (drop copied sv) @ (case r of None \<Rightarrow> match_text sv m | Some x \<Rightarrow> x)
      in if en = st then
           (if st < length sv then (out1 @ [sv ! st], st + 1, en + 1) else (out1, en, en + 1))
         else (out1, en, en))"

definition gsub_finish :: "string \<Rightarrow> nat \<Rightarrow> string \<Rightarrow> string" where
  "gsub_finish sv copied out = out @ drop copied sv"

lemma gsub_next_moves:
  "inside src n m \<Longrightarrow> gsub_next sv copied m out r = (out', copied', src') \<Longrightarrow> src < src'"
  by (auto simp: gsub_next_def Let_def inside_def split: if_splits)

function gsub_loop ::
  "(MatchResult \<Rightarrow> 's \<Rightarrow> string option result \<times> 's) \<Rightarrow> string \<Rightarrow> string \<Rightarrow> bool \<Rightarrow> int \<Rightarrow>
   nat \<Rightarrow> nat \<Rightarrow> nat option \<Rightarrow> int \<Rightarrow> string \<Rightarrow> 's \<Rightarrow> (string \<times> int) result \<times> 's" where
  "gsub_loop repl sv pat anch maxn src copied prev cnt out s =
     (if cnt < maxn \<and> src \<le> length sv then
        (case gsub_trial sv pat anch prev src of
           Inl e \<Rightarrow> (Inl e, s)
         | Inr None \<Rightarrow> (Inr (gsub_finish sv copied out, cnt), s)
         | Inr (Some m) \<Rightarrow>
             (case CheckCapturesFinished m of
                Inl e \<Rightarrow> (Inl e, s)
              | Inr _ \<Rightarrow>
                  (case repl m s of
                     (Inl e, s') \<Rightarrow> (Inl e, s')
                   | (Inr r, s') \<Rightarrow>
                       (case gsub_next sv copied m out r of
                          (out', copied', src') \<Rightarrow>
                            if anch then (Inr (gsub_finish sv copied' out', cnt + 1), s')
                            else gsub_loop repl sv pat anch maxn src' copied' (Some (mr_end m)) (cnt + 1) out' s'))))
      else (Inr (gsub_finish sv copied out, cnt), s))"
  by pat_completeness auto
termination
  by (relation "measure (\<lambda>(repl, sv, pat, anch, maxn, src, copied, prev, cnt, out, s). length sv + 1 - src)")
    (auto dest!: gsub_trial_inside dest: gsub_next_moves [OF _ sym])

declare gsub_loop.simps [simp del]

text \<open>The loop from the start, with the leading \<open>^\<close> of the pattern taken off.\<close>

definition gsub_run ::
  "(MatchResult \<Rightarrow> 's \<Rightarrow> string option result \<times> 's) \<Rightarrow> string \<Rightarrow> string \<Rightarrow> int \<Rightarrow> 's \<Rightarrow> (string \<times> int) result \<times> 's" where
  "gsub_run repl sv pat maxn s =
     (let anch = pat \<noteq> [] \<and> pat ! 0 = CHR ''^'' in
      gsub_loop repl sv (if anch then drop 1 pat else pat) anch maxn 0 0 None 0 [] s)"

section \<open>Replacements\<close>

fun KeyToStringView :: "cvar \<Rightarrow> string" where
  "KeyToStringView (VString t) = t"
| "KeyToStringView (VStringId t) = t"
| "KeyToStringView _ = []"

definition CaptureToLuaString :: "string \<Rightarrow> Capture \<Rightarrow> string result" where
  "CaptureToLuaString sv c =
     (if cap_len c = kCapPosition then Inr (to_string_int (int (cap_init c) + 1))
      else if cap_len c = kCapUnfinished then Inl unfinished_capture
      else Inr (cap_text sv c))"

fun expand_repl :: "string \<Rightarrow> MatchResult \<Rightarrow> string \<Rightarrow> string result" where
  "expand_repl sv m [] = Inr []"
| "expand_repl sv m (c # cs) =
     (if c \<noteq> CHR ''%'' then rbind (expand_repl sv m cs) (\<lambda>r. Inr (c # r))
      else case cs of
          [] \<Rightarrow> Inl ''invalid use of '%' in replacement string''
        | x # xs \<Rightarrow>
            rbind
              (if x = CHR ''%'' then Inr ''%''
               else if x = CHR ''0'' then Inr (match_text sv m)
               else if x \<in> set ''123456789'' then
                 (let idx = of_char x - 49 in
                  if mr_level m \<le> idx then Inl (invalid_capture_index (idx + 1))
                  else CaptureToLuaString sv (mr_caps m ! idx))
               else Inl (''invalid use of '%'' @ [x, CHR 39] @ '' in a replacement string''))
              (\<lambda>t. rbind (expand_repl sv m xs) (\<lambda>r. Inr (t @ r))))"

text \<open>What a value from a table or function stands for; \<open>std::string::c_str\<close> ends a key at its first zero byte.\<close>

definition replacement_value :: "string \<Rightarrow> cvar \<Rightarrow> string option result" where
  "replacement_value table_msg v =
     (case v of
        VNil \<Rightarrow> Inr None
      | VBool b \<Rightarrow> if b then Inl ''invalid replacement value (a boolean)'' else Inr None
      | VTable _ _ \<Rightarrow> Inl table_msg
      | _ \<Rightarrow> Inr (Some (KeyToStringView v)))"

definition c_str :: "string \<Rightarrow> string" where "c_str s = takeWhile (\<lambda>c. c \<noteq> CHR 0x00) s"

definition repl_with_string :: "string \<Rightarrow> string \<Rightarrow> MatchResult \<Rightarrow> string option nstep" where
  "repl_with_string sv r m s = (case expand_repl sv m r of Inl e \<Rightarrow> (Inl e, s) | Inr t \<Rightarrow> (Inr (Some t), s))"

definition repl_with_table :: "spec_env \<Rightarrow> ptr \<Rightarrow> string \<Rightarrow> MatchResult \<Rightarrow> string option nstep" where
  "repl_with_table env p sv m s =
     (let t = tables s p;
          c = mr_caps m ! 0;
          v = (if 0 < mr_level m then
                 if cap_len c = kCapPosition then GetTableInt env t (word_of_int (int (cap_init c) + 1))
                 else GetTableStrId env t (c_str (cap_text sv c))
               else GetTableStrId env t (c_str (match_text sv m)))
      in (replacement_value ''invalid replacement value (a boolean)'' v, s))"

definition repl_with_closure ::
  "(ptr \<Rightarrow> cvar list \<Rightarrow> cvar nstep) \<Rightarrow> ptr \<Rightarrow> string \<Rightarrow> MatchResult \<Rightarrow> string option nstep" where
  "repl_with_closure call p sv m s =
     (let n = (if 0 < mr_level m then mr_level m else 1) in
      if 32 < n then
        (Inl (''string.gsub: too many capture arguments ('' @ dec_digits n @ ''), max is 32''), s)
      else case (if 0 < mr_level m then captures_to_cvars sv (mr_caps m)
                 else rbind (new_string (match_text sv m)) (\<lambda>v. Inr [v])) of
          Inl e \<Rightarrow> (Inl e, s)
        | Inr vs \<Rightarrow>
            (case call p vs s of
               (Inl e, s') \<Rightarrow> (Inl e, s')
             | (Inr v, s') \<Rightarrow> (replacement_value ''invalid replacement value (a table)'' v, s')))"

definition select_repl ::
  "spec_env \<Rightarrow> (ptr \<Rightarrow> cvar list \<Rightarrow> cvar nstep) \<Rightarrow> cvar \<Rightarrow> string \<Rightarrow> MatchResult \<Rightarrow> string option nstep" where
  "select_repl env call v sv =
     (case v of
        VTable _ p \<Rightarrow> if p \<noteq> 0 then repl_with_table env p sv else repl_with_string sv []
      | VClosure p \<Rightarrow> if p \<noteq> 0 then repl_with_closure call p sv else repl_with_string sv []
      | _ \<Rightarrow> repl_with_string sv (KeyToStringView v))"

definition gsub_args :: "cvar list \<Rightarrow> (string \<times> string \<times> int64) result" where
  "gsub_args args =
     rbind (need_args ''string.gsub'' [''string expected'', ''string expected'', ''string/function/table expected''] args) (\<lambda>_.
     rbind (string_arg args 0 ''string.gsub'') (\<lambda>sv.
     rbind (string_arg args 1 ''string.gsub'') (\<lambda>pat.
     rbind (opt_integer args 3 ''string.gsub'' (len64 sv + 1)) (\<lambda>maxn.
       case GetNativeArg args 2 of
         VBool _ \<Rightarrow> Inl ''bad argument #3 to 'string.gsub' (string/function/table expected, got boolean)''
       | _ \<Rightarrow> Inr (sv, pat, maxn)))))"

definition StringGsub :: "spec_env \<Rightarrow> (ptr \<Rightarrow> cvar list \<Rightarrow> cvar nstep) \<Rightarrow> cvar list \<Rightarrow> cvar nstep" where
  "StringGsub env call args s =
     (case gsub_args args of
        Inl e \<Rightarrow> (Inl e, s)
      | Inr (sv, pat, maxn) \<Rightarrow>
          (case gsub_run (select_repl env call (GetNativeArg args 2) sv) sv pat (sint maxn) s of
             (Inl e, s') \<Rightarrow> (Inl e, s')
           | (Inr (out, cnt), s') \<Rightarrow> (rbind (new_string out) (\<lambda>v. alloc_multi [v, new_int cnt]), s')))"

section \<open>What gsub does\<close>

type_synonym edit = "string \<times> MatchResult \<times> string"

text \<open>
  A list of edits from position \<open>k\<close> on: each is the text before a match, the match, and what it is replaced with;
  \<open>rest\<close> is what follows the last one.
\<close>

fun edits ::
  "(MatchResult \<Rightarrow> 's \<Rightarrow> string option result \<times> 's) \<Rightarrow> string \<Rightarrow> string \<Rightarrow> nat \<Rightarrow> edit list \<Rightarrow> string \<Rightarrow> bool" where
  "edits repl sv pat k [] rest \<longleftrightarrow> rest = drop k sv"
| "edits repl sv pat k ((g, m, r) # es) rest \<longleftrightarrow>
     k + length g = mr_begin m \<and> mr_begin m \<le> mr_end m \<and> mr_end m \<le> length sv \<and>
     g = take (length g) (drop k sv) \<and>
     MatchAt sv pat (mr_begin m) True = Inr (Some m) \<and>
     (\<exists>s s'. repl m s = (Inr (Some r), s') \<or> repl m s = (Inr None, s') \<and> r = match_text sv m) \<and>
     edits repl sv pat (mr_end m) es rest"

definition before :: "string \<Rightarrow> edit list \<Rightarrow> string" where
  "before sv es = concat (map (\<lambda>(g, m, r). g @ match_text sv m) es)"

definition after :: "edit list \<Rightarrow> string" where
  "after es = concat (map (\<lambda>(g, m, r). g @ r) es)"

lemma edits_before: "edits repl sv pat k es rest \<Longrightarrow> drop k sv = before sv es @ rest"
proof (induction es arbitrary: k)
  case (Cons e es)
  obtain g m r where e: "e = (g, m, r)" by (cases e)
  have k: "k + length g = mr_begin m" "mr_begin m \<le> mr_end m" "g = take (length g) (drop k sv)"
    "drop (mr_end m) sv = before sv es @ rest"
    using Cons e by auto
  have "drop k sv = g @ drop (mr_begin m) sv"
    using k(1,3) by (metis append_take_drop_id drop_drop add.commute)
  also have "drop (mr_begin m) sv = match_text sv m @ drop (mr_end m) sv"
    using k(2) by (metis append_take_drop_id drop_drop le_add_diff_inverse2 match_text_def)
  finally show ?case using k(4) by (simp add: before_def e)
qed (simp add: before_def)

lemma take_between: "k \<le> a \<Longrightarrow> a \<le> b \<Longrightarrow> take (a - k) (drop k xs) @ take (b - a) (drop a xs) = take (b - k) (drop k xs)"
  by (metis Nat.add_diff_assoc2 add_diff_inverse_nat drop_drop le_add_diff_inverse2 not_less take_add)

lemma gsub_trial_match:
  "gsub_trial sv pat anch prev trial = Inr (Some m) \<Longrightarrow> MatchAt sv pat (mr_begin m) True = Inr (Some m)"
proof (induction sv pat anch prev trial rule: gsub_trial.induct)
  case (1 sv pat anch prev trial)
  have le: "\<not> length sv < trial" using 1(3) by (subst (asm) gsub_trial.simps) (auto split: if_splits)
  then obtain r where r: "MatchAt sv pat trial True = Inr r"
    using 1(3) by (subst (asm) gsub_trial.simps) (auto split: sum.splits)
  consider (later) "gsub_trial sv pat anch prev (trial + 1) = Inr (Some m)" "\<not> anch" "r = None"
    | (skip) m' where "gsub_trial sv pat anch prev (trial + 1) = Inr (Some m)" "\<not> anch" "r = Some m'"
        "mr_end m' = mr_begin m' \<and> prev = Some (mr_begin m')"
    | (here) "r = Some m"
    using 1(3) le r by (subst (asm) (1 2 3) gsub_trial.simps) (auto split: option.splits if_splits)
  then show ?case
  proof cases
    case later
    then show ?thesis using 1(1) [OF le r] by simp
  next
    case skip
    then show ?thesis using 1(2) [OF le r] by simp
  next
    case here
    then show ?thesis using MatchAt_inside [of sv pat trial True m] r by simp
  qed
qed

lemma gsub_next_edit:
  assumes "gsub_next sv copied m (pre @ take (copied - k) (drop k sv)) r = (out', copied', src')"
    and "k \<le> copied" "copied \<le> mr_begin m" "mr_begin m \<le> mr_end m" "mr_end m \<le> length sv"
  shows "out' = pre @ take (mr_begin m - k) (drop k sv) @ (case r of None \<Rightarrow> match_text sv m | Some x \<Rightarrow> x) @
      take (copied' - mr_end m) (drop (mr_end m) sv)"
    and "mr_end m \<le> copied'" "copied' \<le> src'" "copied' \<le> length sv"
proof -
  let ?x = "case r of None \<Rightarrow> match_text sv m | Some x \<Rightarrow> x"
  have out: "(pre @ take (copied - k) (drop k sv)) @ take (mr_begin m - copied) (drop copied sv) @ ?x =
      pre @ take (mr_begin m - k) (drop k sv) @ ?x"
    unfolding take_between [OF assms(2,3), of sv, symmetric] by (simp only: append.assoc)
  show "out' = pre @ take (mr_begin m - k) (drop k sv) @ ?x @ take (copied' - mr_end m) (drop (mr_end m) sv)"
  proof (cases "mr_end m = mr_begin m \<and> mr_begin m < length sv")
    case True
    then have "out' = (pre @ take (mr_begin m - k) (drop k sv) @ ?x) @ [sv ! mr_begin m]" "copied' = mr_begin m + 1"
      using assms(1) unfolding gsub_next_def Let_def out by simp_all
    then show ?thesis using True by (simp add: take_Suc hd_drop_conv_nth)
  next
    case False
    then have "out' = pre @ take (mr_begin m - k) (drop k sv) @ ?x" "copied' = mr_end m"
      using assms(1) unfolding gsub_next_def Let_def out by (auto split: if_splits)
    then show ?thesis by simp
  qed
  show "mr_end m \<le> copied'" "copied' \<le> src'" "copied' \<le> length sv"
    using assms(1,4,5) by (auto simp: gsub_next_def Let_def split: if_splits)
qed

lemma gsub_loop_edits:
  "gsub_loop repl sv pat anch maxn src copied prev cnt out s = (Inr (res, cnt'), s') \<Longrightarrow>
   out = pre @ take (copied - k) (drop k sv) \<Longrightarrow> k \<le> copied \<Longrightarrow> copied \<le> src \<Longrightarrow> copied \<le> length sv \<Longrightarrow>
   \<exists>es rest. edits repl sv pat k es rest \<and> res = pre @ after es @ rest \<and> cnt' = cnt + int (length es) \<and>
     cnt' \<le> max cnt maxn"
proof (induction repl sv pat anch maxn src copied prev cnt out s arbitrary: pre k rule: gsub_loop.induct)
  case (1 repl sv pat anch maxn src copied prev cnt out s)
  have fin: "gsub_finish sv copied (pre @ take (copied - k) (drop k sv)) = pre @ drop k sv"
    if "k \<le> copied" for pre k copied
    using that by (simp add: gsub_finish_def) (metis append_take_drop_id drop_drop le_add_diff_inverse2)
  have stop: ?case if "res = gsub_finish sv copied out" "cnt' = cnt"
    using that fin [OF 1(4)] 1(3) by (intro exI [of _ "[]"] exI [of _ "drop k sv"]) (simp add: after_def)
  show ?case
  proof (cases "cnt < maxn \<and> src \<le> length sv")
    case False
    then have "gsub_loop repl sv pat anch maxn src copied prev cnt out s = (Inr (gsub_finish sv copied out, cnt), s)"
      by (subst gsub_loop.simps) auto
    then show ?thesis using 1(2) stop by simp
  next
    case True
    then obtain r where r: "gsub_trial sv pat anch prev src = Inr r"
      using 1(2) by (subst (asm) gsub_loop.simps) (auto split: sum.splits)
    show ?thesis
    proof (cases r)
      case None
      then have "gsub_loop repl sv pat anch maxn src copied prev cnt out s = (Inr (gsub_finish sv copied out, cnt), s)"
        using True r by (subst gsub_loop.simps) auto
      then show ?thesis using 1(2) stop by simp
    next
      case (Some m)
      note m = r [unfolded Some]
      have inside: "src \<le> mr_begin m" "mr_begin m \<le> mr_end m" "mr_end m \<le> length sv"
        using gsub_trial_inside [OF m] by (simp_all add: inside_def)
      obtain c where c: "CheckCapturesFinished m = Inr c"
        using 1(2) True m by (subst (asm) gsub_loop.simps) (auto split: sum.splits)
      obtain x s1 where x: "repl m s = (Inr x, s1)"
        using 1(2) True m c by (subst (asm) gsub_loop.simps) (auto split: sum.splits prod.splits)
      obtain out' copied' src' where nx: "gsub_next sv copied m out x = (out', copied', src')"
        by (cases "gsub_next sv copied m out x")
      let ?x = "case x of None \<Rightarrow> match_text sv m | Some x \<Rightarrow> x"
      let ?g = "take (mr_begin m - k) (drop k sv)"
      let ?pre = "pre @ ?g @ ?x"
      have le: "copied \<le> mr_begin m" using 1(5) inside(1) by simp
      note e = gsub_next_edit [OF nx [unfolded 1(3)] 1(4) le inside(2,3)]
      have first: "edits repl sv pat k ((?g, m, ?x) # es) rest" if "edits repl sv pat (mr_end m) es rest" for es rest
      proof -
        have "length ?g = mr_begin m - k" using inside 1(4) le by simp
        then show ?thesis
          using that x inside 1(4) le gsub_trial_match [OF m] by (auto split: option.splits)
      qed
      have out': "out' = ?pre @ take (copied' - mr_end m) (drop (mr_end m) sv)" using e(1) by simp
      show ?thesis
      proof (cases anch)
        case True
        then have "res = gsub_finish sv copied' out'" "cnt' = cnt + 1"
          using 1(2) \<open>cnt < maxn \<and> src \<le> length sv\<close> m c x nx by (subst (asm) gsub_loop.simps, simp)+
        then show ?thesis
          using first [of "[]" "drop (mr_end m) sv"] fin [OF e(2), of ?pre] out' \<open>cnt < maxn \<and> src \<le> length sv\<close>
          by (intro exI [of _ "[(?g, m, ?x)]"] exI [of _ "drop (mr_end m) sv"]) (simp add: after_def)
      next
        case False
        then have "gsub_loop repl sv pat anch maxn src' copied' (Some (mr_end m)) (cnt + 1) out' s1 = (Inr (res, cnt'), s')"
          using 1(2) True m c x nx by (subst (asm) gsub_loop.simps) simp
        from 1(1) [OF True m refl c x [symmetric] refl nx [symmetric] refl False this out' e(2,3,4)]
        obtain es rest where "edits repl sv pat (mr_end m) es rest" "res = ?pre @ after es @ rest"
          "cnt' = cnt + 1 + int (length es)" "cnt' \<le> max (cnt + 1) maxn" by blast
        then show ?thesis using first [of es rest] True
          by (intro exI [of _ "(?g, m, ?x) # es"] exI [of _ rest]) (simp add: after_def)
      qed
    qed
  qed
qed

lemma gmatch_for_length: "gmatch_for n gs = Some (Inr vs) \<Longrightarrow> length vs < n"
proof (induction n arbitrary: gs vs)
  case (Suc n)
  obtain r gs' where c: "GMatchIterator gs = (r, gs')" by fastforce
  show ?case
  proof (cases r)
    case (Inr v)
    then show ?thesis using Suc.prems c Suc.IH [of gs']
      by (auto simp: rbind_Inr_iff split: if_splits)
  qed (use Suc.prems c in simp)
qed simp

text \<open>After the call that ends the iteration the iterator is a fresh one, so that one more call starts over.\<close>

lemma gmatch_restarts: "GMatchIterator gs = (Inr VNil, gs') \<Longrightarrow> gs' = gs\<lparr>gm_prev := None\<rparr>"
  using GMatchIterator_cases [of gs VNil gs'] by (cases gs; cases gs') auto

section \<open>Deviations seen in runs\<close>

text \<open>A second caret is taken off by \<open>MatchAt\<close> again, so \<open>gsub\<close> misses what \<open>find\<close> finds.\<close>

lemma gsub_second_caret:
  "gsub_run (repl_with_string ''^a'' ''x'') ''^a'' ''^^a'' 3 s = (Inr (''^a'', 0), s)"
  "Search ''^a'' ''^^a'' 0 = Inr (Some \<lparr>mr_begin = 0, mr_end = 2, mr_level = 0, mr_caps = []\<rparr>)"
  by code_simp+

text \<open>A number as the replacement removes the match.\<close>

lemma gsub_number_removes:
  "gsub_run (select_repl env call (VInt 5) ''abc'') ''abc'' ''b'' 4 s = (Inr (''ac'', 1), s)"
  by code_simp

text \<open>The set of \<open>[a-%]x]\<close> loses the members behind the range.\<close>

lemma set_loses_member: "Search ''x'' ''[a-%]x]'' 0 = Inr None"
  by code_simp

section \<open>Properties\<close>

text \<open>
  C13. Iteration with \<open>string.gmatch\<close> ends: for every text and every pattern, well-formed or not, patterns that match the
  empty string included, a loop over the iterator makes at most two more calls than the text has bytes
  before a call returns nil or throws, and it sees at most one value more than the text has bytes.
\<close>
theorem gmatch_iteration_ends:
  "\<exists>r. gmatch_for (length src + 2) \<lparr>gm_text = src, gm_pattern = pat, gm_prev = None\<rparr> = Some r \<and>
     (case r of Inl e \<Rightarrow> True | Inr vs \<Rightarrow> length vs \<le> length src + 1)"
proof -
  let ?gs = "\<lparr>gm_text = src, gm_pattern = pat, gm_prev = None\<rparr>"
  have "gmatch_for (length src + 2) ?gs \<noteq> None" by (rule gmatch_for_ends) (simp add: gmatch_left_def)
  then show ?thesis using gmatch_for_length [of "length src + 2" ?gs] by (fastforce split: sum.splits)
qed


end
