(* ===== verification/CRuntime.thy ===== *)
theory CRuntime
imports InterpRuntime
begin

text \<open>
  The C runtime that every compilation unit of the two C back ends starts with
  (\<open>compile/c_runtime_header.h\<close>): numbers, operators, conversion to text, multi values, \<open>select\<close>, the inlined
  math functions and the numeric for. The code is C text inside a string literal, kept apart from the
  interpreter's \<open>vm_ops.h\<close>; the lemmas at the end say that the two compute the same. A macro that writes its
  result through an argument is a function here, \<open>FakeluaThrowError\<close> is \<open>Inl\<close>. Names that the interpreter has
  too end in \<open>_c\<close>. A \<open>double\<close> and an \<open>int64_t\<close> share the eight bytes of the union, so reading \<open>data_.f\<close> of
  whatever value is \<open>data_i\<close>.
\<close>

section \<open>Numbers\<close>

definition FlDoubleFitsInt64 :: "double \<Rightarrow> int64 option" where
  "FlDoubleFitsInt64 d =
     (if \<not> d_isfinite d then None
      else if d_modf_frac d \<noteq> 0 then None
      else let ip = d_of_int (d_trunc d) in
        if d_lt ip d_mtwo63 \<or> d_le d_two63 ip then None else Some (d_to_int64 ip))"

definition NORMALIZE_TABLE_KEY :: "cvar \<Rightarrow> cvar" where
  "NORMALIZE_TABLE_KEY k =
     (case k of VFloat d \<Rightarrow> (case FlDoubleFitsInt64 d of Some i \<Rightarrow> VInt i | None \<Rightarrow> k) | _ \<Rightarrow> k)"

definition FlIsTrue :: "cvar \<Rightarrow> bool" where
  "FlIsTrue v \<longleftrightarrow> v \<noteq> VNil \<and> (case v of VBool b \<Rightarrow> b | _ \<Rightarrow> True)"

definition FlCompareIntDouble :: "int64 \<Rightarrow> double \<Rightarrow> int" where
  "FlCompareIntDouble integer floating =
     (if d_isnan floating then 0
      else if d_le d_two63 floating then -1
      else if d_lt floating d_mtwo63 then 1
      else let truncated = d_to_int64 floating in
        if sint integer < sint truncated then -1
        else if sint truncated < sint integer then 1
        else let truncated_as_double = i64_to_double truncated in
          if d_lt truncated_as_double floating then -1
          else if d_lt floating truncated_as_double then 1
          else 0)"

definition FL_INT_FLOAT_EQUAL :: "int64 \<Rightarrow> double \<Rightarrow> bool" where
  "FL_INT_FLOAT_EQUAL i f \<longleftrightarrow> \<not> d_isnan f \<and> FlCompareIntDouble i f = 0"

definition VarEqual_c :: "cvar \<Rightarrow> cvar \<Rightarrow> bool" where
  "VarEqual_c a b =
     (case a of
        VNil \<Rightarrow> b = VNil
      | VBool x \<Rightarrow> (case b of VBool y \<Rightarrow> x = y | _ \<Rightarrow> False)
      | VInt i \<Rightarrow> (case b of VInt j \<Rightarrow> i = j | VFloat d \<Rightarrow> FL_INT_FLOAT_EQUAL i d | _ \<Rightarrow> False)
      | VFloat d \<Rightarrow> (case b of VFloat e \<Rightarrow> d_eq d e | VInt i \<Rightarrow> FL_INT_FLOAT_EQUAL i d | _ \<Rightarrow> False)
      | VString s \<Rightarrow> (case b of VString t \<Rightarrow> s = t | VStringId t \<Rightarrow> s = t | _ \<Rightarrow> False)
      | VStringId s \<Rightarrow> (case b of VStringId t \<Rightarrow> s = t | VString t \<Rightarrow> s = t | _ \<Rightarrow> False)
      | VTable _ p \<Rightarrow> (case b of VTable _ q \<Rightarrow> p = q | _ \<Rightarrow> False)
      | VClosure p \<Rightarrow> (case b of VClosure q \<Rightarrow> p = q | _ \<Rightarrow> False)
      | VMulti _ \<Rightarrow> False)"

definition djb2_c :: "uint32 \<Rightarrow> char \<Rightarrow> uint32" where
  "djb2_c h c = (push_bit 5 h + h) + of_char c"

definition FlHashString :: "string \<Rightarrow> uint32" where
  "FlHashString s = (let h = foldl djb2_c 5381 s in if h = 0 then 1 else h)"

definition VarHash_c :: "cvar \<Rightarrow> uint32" where
  "VarHash_c v =
     (case v of
        VNil \<Rightarrow> 0
      | VBool b \<Rightarrow> (if b then 1 else 0)
      | VInt i \<Rightarrow> ucast (i XOR signed_drop_bit 32 i)
      | VFloat d \<Rightarrow> ucast (d XOR drop_bit 32 d)
      | VString s \<Rightarrow> FlHashString s
      | VStringId s \<Rightarrow> FlHashString s
      | VTable _ p \<Rightarrow> ucast (p XOR drop_bit 32 p)
      | VClosure p \<Rightarrow> ucast (p XOR drop_bit 32 p)
      | VMulti _ \<Rightarrow> 0)"

section \<open>Operators\<close>

definition CheckNum_c :: "cvar \<Rightarrow> unit result" where
  "CheckNum_c v =
     (case v of VInt _ \<Rightarrow> Inr () | VFloat _ \<Rightarrow> Inr ()
      | _ \<Rightarrow> Inl ''attempt to perform arithmetic on non-numeric value'')"

definition CheckInt_c :: "cvar \<Rightarrow> int64 result" where
  "CheckInt_c v =
     (case v of
        VInt i \<Rightarrow> Inr i
      | VFloat d \<Rightarrow> (case FlDoubleFitsInt64 d of Some i \<Rightarrow> Inr i | None \<Rightarrow> Inl ''number has no integer representation'')
      | _ \<Rightarrow> Inl ''attempt to perform bitwise operation on non-numeric value'')"

definition CVAR_TO_DOUBLE :: "cvar \<Rightarrow> double" where
  "CVAR_TO_DOUBLE v = (case v of VInt i \<Rightarrow> i64_to_double i | _ \<Rightarrow> data_i v)"

definition FL_INT_ADD :: "int64 \<Rightarrow> int64 \<Rightarrow> int64" where "FL_INT_ADD a b = a + b"
definition FL_INT_SUB :: "int64 \<Rightarrow> int64 \<Rightarrow> int64" where "FL_INT_SUB a b = a - b"
definition FL_INT_MUL :: "int64 \<Rightarrow> int64 \<Rightarrow> int64" where "FL_INT_MUL a b = a * b"

definition float_op :: "(double \<Rightarrow> double \<Rightarrow> double) \<Rightarrow> cvar \<Rightarrow> cvar \<Rightarrow> cvar result" where
  "float_op f a b =
     rbind (CheckNum_c a) (\<lambda>_. rbind (CheckNum_c b) (\<lambda>_. Inr (VFloat (f (CVAR_TO_DOUBLE a) (CVAR_TO_DOUBLE b)))))"

definition OpAdd :: "cvar \<Rightarrow> cvar \<Rightarrow> cvar result" where
  "OpAdd a b = (case (a, b) of (VInt i, VInt j) \<Rightarrow> Inr (VInt (FL_INT_ADD i j)) | _ \<Rightarrow> float_op d_add a b)"

definition OpSub :: "cvar \<Rightarrow> cvar \<Rightarrow> cvar result" where
  "OpSub a b = (case (a, b) of (VInt i, VInt j) \<Rightarrow> Inr (VInt (FL_INT_SUB i j)) | _ \<Rightarrow> float_op d_sub a b)"

definition OpMul :: "cvar \<Rightarrow> cvar \<Rightarrow> cvar result" where
  "OpMul a b = (case (a, b) of (VInt i, VInt j) \<Rightarrow> Inr (VInt (FL_INT_MUL i j)) | _ \<Rightarrow> float_op d_mul a b)"

definition OpDiv :: "cvar \<Rightarrow> cvar \<Rightarrow> cvar result" where "OpDiv = float_op d_div"

definition FlFloorDivQuotient :: "int64 \<Rightarrow> int64 \<Rightarrow> int64" where
  "FlFloorDivQuotient a b =
     (if b = - 1 then 0 - a
      else let q = sdiv64 a b in if sint (a XOR b) < 0 \<and> smod64 a b \<noteq> 0 then q - 1 else q)"

definition FlFloorDivInt :: "int64 \<Rightarrow> int64 \<Rightarrow> int64 result" where
  "FlFloorDivInt a b = (if b = 0 then Inl ''floor division by zero'' else Inr (FlFloorDivQuotient a b))"

definition FlModInt :: "int64 \<Rightarrow> int64 \<Rightarrow> int64 result" where
  "FlModInt a b =
     (if b = 0 then Inl ''modulo by zero''
      else if b = - 1 then Inr 0
      else let q = FlFloorDivQuotient a b in Inr (a - b * q))"

definition FlModFloat :: "double \<Rightarrow> double \<Rightarrow> double" where
  "FlModFloat a b = d_sub a (d_mul b (d_floor (d_div a b)))"

definition OpFloorDiv :: "cvar \<Rightarrow> cvar \<Rightarrow> cvar result" where
  "OpFloorDiv a b =
     (case (a, b) of
        (VInt i, VInt j) \<Rightarrow> rbind (FlFloorDivInt i j) (\<lambda>q. Inr (VInt q))
      | _ \<Rightarrow> float_op (\<lambda>x y. d_floor (d_div x y)) a b)"

definition OpMod :: "cvar \<Rightarrow> cvar \<Rightarrow> cvar result" where
  "OpMod a b =
     (case (a, b) of
        (VInt i, VInt j) \<Rightarrow> rbind (FlModInt i j) (\<lambda>r. Inr (VInt r))
      | _ \<Rightarrow> float_op FlModFloat a b)"

definition OpPow :: "(double \<Rightarrow> double \<Rightarrow> double) \<Rightarrow> cvar \<Rightarrow> cvar \<Rightarrow> cvar result" where "OpPow pow = float_op pow"

definition OP_BIT_IMPL :: "(int64 \<Rightarrow> int64 \<Rightarrow> int64) \<Rightarrow> cvar \<Rightarrow> cvar \<Rightarrow> cvar result" where
  "OP_BIT_IMPL f a b = rbind (CheckInt_c a) (\<lambda>i. rbind (CheckInt_c b) (\<lambda>j. Inr (VInt (f i j))))"

definition OpBitAnd :: "cvar \<Rightarrow> cvar \<Rightarrow> cvar result" where "OpBitAnd = OP_BIT_IMPL (AND)"
definition OpBitXor :: "cvar \<Rightarrow> cvar \<Rightarrow> cvar result" where "OpBitXor = OP_BIT_IMPL (XOR)"
definition OpBitOr :: "cvar \<Rightarrow> cvar \<Rightarrow> cvar result" where "OpBitOr = OP_BIT_IMPL (OR)"

definition FlShiftIntImpl :: "bool \<Rightarrow> int64 \<Rightarrow> int64 \<Rightarrow> int64" where
  "FlShiftIntImpl right a b =
     (if 64 \<le> sint b \<or> sint b \<le> - 64 then 0
      else if 0 \<le> sint b then (if right then drop_bit (nat (sint b)) a else push_bit (nat (sint b)) a)
      else (if right then push_bit (nat (sint (- b))) a else drop_bit (nat (sint (- b))) a))"

definition OpRightShift :: "cvar \<Rightarrow> cvar \<Rightarrow> cvar result" where "OpRightShift = OP_BIT_IMPL (FlShiftIntImpl True)"
definition OpLeftShift :: "cvar \<Rightarrow> cvar \<Rightarrow> cvar result" where "OpLeftShift = OP_BIT_IMPL (FlShiftIntImpl False)"

definition cmp_c :: "(int \<Rightarrow> int \<Rightarrow> bool) \<Rightarrow> (double \<Rightarrow> double \<Rightarrow> bool) \<Rightarrow> cvar \<Rightarrow> cvar \<Rightarrow> bool result" where
  "cmp_c r rd a b =
     (case (a, b) of
        (VInt i, VInt j) \<Rightarrow> Inr (r (sint i) (sint j))
      | _ \<Rightarrow> rbind (CheckNum_c a) (\<lambda>_. rbind (CheckNum_c b) (\<lambda>_. Inr
          (case (a, b) of
             (VInt i, _) \<Rightarrow> \<not> d_isnan (data_i b) \<and> r (FlCompareIntDouble i (data_i b)) 0
           | (_, VInt j) \<Rightarrow> \<not> d_isnan (data_i a) \<and> r 0 (FlCompareIntDouble j (data_i a))
           | _ \<Rightarrow> rd (data_i a) (data_i b)))))"

definition FlCmpLt :: "cvar \<Rightarrow> cvar \<Rightarrow> bool result" where "FlCmpLt = cmp_c (<) d_lt"
definition FlCmpGt :: "cvar \<Rightarrow> cvar \<Rightarrow> bool result" where "FlCmpGt = cmp_c (>) (\<lambda>x y. d_lt y x)"
definition FlCmpLe :: "cvar \<Rightarrow> cvar \<Rightarrow> bool result" where "FlCmpLe = cmp_c (\<le>) d_le"
definition FlCmpGe :: "cvar \<Rightarrow> cvar \<Rightarrow> bool result" where "FlCmpGe = cmp_c (\<ge>) (\<lambda>x y. d_le y x)"
definition FlCmpEq :: "cvar \<Rightarrow> cvar \<Rightarrow> bool" where "FlCmpEq = VarEqual_c"
definition FlCmpNe :: "cvar \<Rightarrow> cvar \<Rightarrow> bool" where "FlCmpNe a b = (\<not> VarEqual_c a b)"

text \<open>\<open>SET_BOOL\<close> of a comparison.\<close>

definition set_bool :: "bool result \<Rightarrow> cvar result" where "set_bool r = rbind r (\<lambda>b. Inr (VBool b))"

definition OpNot :: "cvar \<Rightarrow> cvar" where "OpNot a = VBool (\<not> FlIsTrue a)"

definition OpUnaryMinus :: "cvar \<Rightarrow> cvar result" where
  "OpUnaryMinus a =
     (case a of VInt i \<Rightarrow> Inr (VInt (FL_INT_SUB 0 i))
      | _ \<Rightarrow> rbind (CheckNum_c a) (\<lambda>_. Inr (VFloat (d_neg (data_i a)))))"

definition OpBitNot :: "cvar \<Rightarrow> cvar result" where
  "OpBitNot a = rbind (CheckInt_c a) (\<lambda>i. Inr (VInt (NOT i)))"

section \<open>Text\<close>

text \<open>The digits of \<open>u\<close>, last one first, as they are written to \<open>tmp\<close>.\<close>

fun itoa_digits :: "nat \<Rightarrow> string" where
  "itoa_digits u = (if u = 0 then [] else char_of (48 + u mod 10) # itoa_digits (u div 10))"

declare itoa_digits.simps [simp del]

definition FlFastItoA :: "int64 \<Rightarrow> string" where
  "FlFastItoA v =
     (if v = 0 then ''0''
      else let neg = sint v < 0; u = (if neg then 0 - v else v)
           in (if neg then ''-'' else []) @ rev (itoa_digits (unat u)))"

text \<open>\<open>buf_size\<close> is 64 in every call; \<open>0x%llx\<close> is the text of a pointer.\<close>

definition FlVarToStr :: "cvar \<Rightarrow> string result" where
  "FlVarToStr v =
     (case v of
        VNil \<Rightarrow> Inr ''nil''
      | VBool b \<Rightarrow> Inr (if b then ''true'' else ''false'')
      | VInt i \<Rightarrow> Inr (FlFastItoA i)
      | VFloat d \<Rightarrow>
          (let buf = snprintf_g14 d; flen = length buf in
           Inr (if 0 < flen \<and> flen < 64 \<and> integer_shape buf \<and> flen + 2 < 64 then buf @ ''.0'' else buf))
      | VString _ \<Rightarrow> Inl ''FlVarToStr: string type should be handled by caller''
      | VStringId _ \<Rightarrow> Inl ''FlVarToStr: string type should be handled by caller''
      | VTable _ p \<Rightarrow> Inr (''table('' @ ptr_text p @ '')'')
      | VClosure p \<Rightarrow> Inr (''function('' @ ptr_text p @ '')'')
      | VMulti _ \<Rightarrow> Inr [])"

definition concat_operand :: "cvar \<Rightarrow> string result" where
  "concat_operand v =
     (case v of
        VString s \<Rightarrow> Inr s
      | VStringId s \<Rightarrow> Inr s
      | VInt i \<Rightarrow> Inr (FlFastItoA i)
      | VFloat _ \<Rightarrow> FlVarToStr v
      | _ \<Rightarrow> Inl ''attempt to concatenate a non-string value'')"

definition FlConcat :: "cvar \<Rightarrow> cvar \<Rightarrow> cvar result" where
  "FlConcat a b =
     rbind (concat_operand a) (\<lambda>sa. rbind (concat_operand b) (\<lambda>sb.
       let total = length sa + length sb in
       if 2 ^ 31 \<le> total then Inl ''string concatenation result too long''
       else rbind (alloc_check (sizeof_VarString + total)) (\<lambda>_. Inr (VString (sa @ sb)))))"

section \<open>Multi values\<close>

definition FlMakeMulti :: "cvar list \<Rightarrow> cvar result" where "FlMakeMulti = alloc_multi"

definition FlSetMultiCVarElement :: "cvar list \<Rightarrow> int \<Rightarrow> cvar \<Rightarrow> cvar list" where
  "FlSetMultiCVarElement vs idx v = (if 0 \<le> idx \<and> idx < int (length vs) then vs[nat idx := v] else vs)"

definition FlCombineMulti :: "cvar list \<Rightarrow> cvar \<Rightarrow> cvar result" where
  "FlCombineMulti prefix lst =
     (let first = (\<lambda>v. case v of VMulti vs \<Rightarrow> (if 0 < length vs then vs ! 0 else VNil) | _ \<Rightarrow> v);
          last_vars = (case lst of VMulti vs \<Rightarrow> vs | _ \<Rightarrow> [lst])
      in alloc_multi (map first prefix @ last_vars))"

definition FlUnboxMulti :: "cvar \<Rightarrow> nat \<Rightarrow> cvar" where
  "FlUnboxMulti v idx =
     (case v of VMulti vs \<Rightarrow> (if idx < length vs then vs ! idx else VNil)
      | _ \<Rightarrow> (if idx = 0 then v else VNil))"

definition FlSliceMulti :: "cvar \<Rightarrow> nat \<Rightarrow> cvar result" where
  "FlSliceMulti v start_idx =
     (case v of
        VMulti vs \<Rightarrow> (if length vs \<le> start_idx then Inr VNil
                      else alloc_multi (map (\<lambda>i. vs ! (start_idx + i)) [0..<length vs - start_idx]))
      | _ \<Rightarrow> Inr (if start_idx = 0 then v else VNil))"

text \<open>The null pointer of an empty multi value has the same content as one with no elements.\<close>

definition FlSelectHash :: "cvar \<Rightarrow> cvar" where
  "FlSelectHash vararg =
     (case vararg of
        VMulti vs \<Rightarrow> VInt (word_of_nat (length vs))
      | VNil \<Rightarrow> VInt 0
      | _ \<Rightarrow> VInt 1)"

definition select_range :: exn where
  "select_range = ''bad argument #1 to '' @ [CHR 39] @ ''select'' @ [CHR 39] @ '': index out of range''"

definition FlSelectIndex :: "int64 \<Rightarrow> cvar \<Rightarrow> cvar result" where
  "FlSelectIndex idx vararg =
     (case vararg of
        VMulti vs \<Rightarrow>
          (let n = int (length vs);
               i = (if sint idx < 0 then n + sint idx + 1 else sint idx)
           in if sint idx < 0 \<and> sint idx < - n - 1 then Inl select_range
              else if i < 1 then Inl select_range
              else if n < i then alloc_multi []
              else let st = nat (i - 1) in
                if length vs - st = 1 then Inr (vs ! st) else FlSliceMulti vararg st)
      | VNil \<Rightarrow> (if sint idx < 1 then Inl select_range else alloc_multi [])
      | _ \<Rightarrow>
          (let i = (if sint idx < 0 then sint idx + 2 else sint idx)
           in if sint idx < 0 \<and> sint idx < - 2 then Inl select_range
              else if i < 1 then Inl select_range
              else if 1 < i then alloc_multi [] else Inr vararg))"

section \<open>Inlined math functions\<close>

definition FlPushNumInt :: "double \<Rightarrow> cvar" where
  "FlPushNumInt d =
     (if d_isfinite d \<and> d_le d_mtwo63 d \<and> d_lt d d_two63 then VInt (d_to_int64 d) else VFloat d)"

definition FlMathFloor :: "cvar \<Rightarrow> cvar" where
  "FlMathFloor v = (case v of VInt _ \<Rightarrow> v | _ \<Rightarrow> FlPushNumInt (d_floor (data_i v)))"

definition FlMathCeil :: "cvar \<Rightarrow> cvar" where
  "FlMathCeil v = (case v of VInt _ \<Rightarrow> v | _ \<Rightarrow> FlPushNumInt (d_ceil (data_i v)))"

definition FlMathFmod :: "(double \<Rightarrow> double \<Rightarrow> double) \<Rightarrow> cvar \<Rightarrow> cvar \<Rightarrow> cvar result" where
  "FlMathFmod fmod a b =
     (case (a, b) of
        (VInt i, VInt d) \<Rightarrow>
          if d = 0 then Inl (''bad argument #2 to '' @ [CHR 39] @ ''fmod'' @ [CHR 39] @ '': zero divisor'')
          else Inr (VInt (if d = - 1 then 0 else smod64 i d))
      | _ \<Rightarrow> Inr (VFloat (fmod (CVAR_TO_DOUBLE a) (CVAR_TO_DOUBLE b))))"

definition FlMathModf :: "cvar \<Rightarrow> cvar result" where
  "FlMathModf v =
     (case v of
        VInt _ \<Rightarrow> alloc_multi [v, VFloat 0]
      | _ \<Rightarrow>
          (let n = data_i v;
               ip = (if d_lt n 0 then d_ceil n else d_floor n);
               fp = (if d_eq n ip then 0 else d_sub n ip)
           in alloc_multi [FlPushNumInt ip, VFloat fp]))"

definition FlMathLdexp :: "(double \<Rightarrow> int \<Rightarrow> double) \<Rightarrow> double \<Rightarrow> int64 \<Rightarrow> double" where
  "FlMathLdexp ldexp x e =
     ldexp x (if 2147483647 < sint e then 2147483647 else if sint e < - 2147483648 then - 2147483648 else sint e)"

text \<open>Five calls of \<open>rand\<close>, whose results are given.\<close>

definition FlRandomInt64 :: "nat list \<Rightarrow> int64" where
  "FlRandomInt64 rands = foldl (\<lambda>x r. push_bit 15 x OR (word_of_nat r AND 0x7fff)) 0 (take 5 rands)"

section \<open>Numeric for\<close>

text \<open>\<open>None\<close> is the result 0: the addition would overflow and the control variable stays as it is.\<close>

definition FlForIntAdvance :: "int64 \<Rightarrow> int64 \<Rightarrow> int64 option" where
  "FlForIntAdvance cur st =
     (let nx = cur + st in if 0 \<le> sint (cur XOR st) \<and> sint (nx XOR cur) < 0 then None else Some nx)"

text \<open>\<open>None\<close> is the result 1: the loop is skipped.\<close>

definition FlForLimitToInt :: "double \<Rightarrow> int64 \<Rightarrow> int64 option" where
  "FlForLimitToInt flim st =
     (case FlDoubleFitsInt64 flim of
        Some p \<Rightarrow> Some p
      | None \<Rightarrow>
          if \<not> d_isfinite flim then
            if d_lt 0 flim then (if sint st < 0 then None else Some int64_max)
            else if 0 < sint st then None else Some int64_min
          else if d_le d_two63 flim then (if sint st < 0 then None else Some int64_max)
          else if d_lt flim d_mtwo63 then (if 0 < sint st then None else Some int64_min)
          else Some (if 0 < sint st then d_to_int64 (d_floor flim) else d_to_int64 (d_ceil flim)))"

section \<open>Agreement with the interpreter\<close>

named_theorems c_agree

lemma FlDoubleFitsInt64_eq [c_agree]: "FlDoubleFitsInt64 = DoubleFitsInt64"
  by (simp add: fun_eq_iff FlDoubleFitsInt64_def DoubleFitsInt64_def)

lemma NORMALIZE_eq [c_agree]: "NORMALIZE_TABLE_KEY = NormalizeTableKey"
proof
  show "NORMALIZE_TABLE_KEY k = NormalizeTableKey k" for k
    by (cases k) (simp_all add: NORMALIZE_TABLE_KEY_def c_agree)
qed

lemma FlIsTrue_eq [c_agree]: "FlIsTrue = IsTrue"
proof
  show "FlIsTrue v = IsTrue v" for v by (cases v) (simp_all add: FlIsTrue_def)
qed

lemma FlCompareIntDouble_eq [c_agree]: "FlCompareIntDouble = CompareInt64Double"
  by (simp add: fun_eq_iff FlCompareIntDouble_def CompareInt64Double_def)

lemma FL_INT_FLOAT_EQUAL_eq [c_agree]: "FL_INT_FLOAT_EQUAL = Int64DoubleEqual"
  by (simp add: fun_eq_iff FL_INT_FLOAT_EQUAL_def Int64DoubleEqual_def c_agree)

lemma VarEqual_key [c_agree]: "VarEqual_c = VarKeyEqual"
proof (intro ext)
  show "VarEqual_c a b = VarKeyEqual a b" for a b
    by (cases a) (auto simp: VarEqual_c_def c_agree split: cvar.splits)
qed

lemma FlHashString_eq [c_agree]: "FlHashString = HashOf"
proof -
  have "djb2_c = djb2_step" by (simp add: fun_eq_iff djb2_c_def djb2_step_def)
  then show ?thesis by (intro ext) (simp only: FlHashString_def HashOf_def)
qed

lemma VarHash_eq [c_agree]: "VarHash_c = VarKeyHash"
proof
  show "VarHash_c v = VarKeyHash v" for v
    by (cases v) (simp_all add: VarHash_c_def IntKeyHash_def fold64_def c_agree)
qed

lemma CheckNum_eq [c_agree]: "CheckNum_c = CheckNum"
proof
  show "CheckNum_c v = CheckNum v" for v by (cases v) (simp_all add: CheckNum_c_def CheckNum_def arith_error_def)
qed

lemma CheckInt_eq [c_agree]: "CheckInt_c = CheckInt"
proof
  show "CheckInt_c v = CheckInt v" for v by (cases v) (simp_all add: CheckInt_c_def c_agree)
qed

lemma CVAR_TO_DOUBLE_num: "is_num v \<Longrightarrow> CVAR_TO_DOUBLE v = ToDouble v"
  by (cases v) (simp_all add: CVAR_TO_DOUBLE_def)

lemma float_op_eq [c_agree]:
  "float_op f a b = rbind (CheckNum a) (\<lambda>_. rbind (CheckNum b) (\<lambda>_. Inr (VFloat (f (ToDouble a) (ToDouble b)))))"
  by (cases "is_num a"; cases "is_num b") (simp_all add: float_op_def c_agree CheckNum_def CVAR_TO_DOUBLE_num)

lemma FlFloorDivQuotient_eq [c_agree]: "FlFloorDivQuotient = FloorDivQuotient"
  by (simp add: fun_eq_iff FlFloorDivQuotient_def FloorDivQuotient_def)

lemma arith_agrees [c_agree]:
  "OpAdd a b = BinAdd a b" "OpSub a b = BinSub a b" "OpMul a b = BinMul a b" "OpDiv a b = BinDiv a b"
  "OpPow pow a b = BinPow pow a b"
  by (simp_all add: OpAdd_def OpSub_def OpMul_def OpDiv_def OpPow_def BinAdd_def BinSub_def BinMul_def BinDiv_def
      BinPow_def num_binop_def FL_INT_ADD_def FL_INT_SUB_def FL_INT_MUL_def c_agree split: cvar.splits)

lemma division_agrees [c_agree]: "OpFloorDiv a b = BinIdiv a b" "OpMod a b = BinMod a b"
  by (cases a; cases b; simp add: OpFloorDiv_def OpMod_def BinIdiv_def BinMod_def FlFloorDivInt_def FlModInt_def
      FlModFloat_def CheckNum_def Let_def c_agree)+

lemma FlShiftIntImpl_eq [c_agree]: "FlShiftIntImpl True = shr64" "FlShiftIntImpl False = shl64"
  by (simp_all add: fun_eq_iff FlShiftIntImpl_def shr64_def shl64_def)

lemma bit_agrees [c_agree]:
  "OpBitAnd a b = BinBand a b" "OpBitXor a b = BinBxor a b" "OpBitOr a b = BinBor a b"
  "OpLeftShift a b = BinShl a b" "OpRightShift a b = BinShr a b" "OpBitNot a = UnBnot a"
  by (simp_all add: OpBitAnd_def OpBitXor_def OpBitOr_def OpLeftShift_def OpRightShift_def OpBitNot_def OP_BIT_IMPL_def
      BinBand_def BinBxor_def BinBor_def BinShl_def BinShr_def UnBnot_def int_binop_def c_agree)

lemma unary_agrees [c_agree]: "OpUnaryMinus a = UnMinus a" "OpNot a = UnNot a"
  by (cases a; simp add: OpUnaryMinus_def OpNot_def UnMinus_def UnNot_def CheckNum_def FL_INT_SUB_def c_agree)+

lemma compare_agrees [c_agree]:
  "set_bool (FlCmpLt a b) = CmpLt a b" "set_bool (FlCmpGt a b) = CmpLt b a"
  "set_bool (FlCmpLe a b) = CmpLe a b" "set_bool (FlCmpGe a b) = CmpLe b a"
  by (cases a; cases b; simp add: set_bool_def FlCmpLt_def FlCmpGt_def FlCmpLe_def FlCmpGe_def cmp_c_def CmpLt_def
      CmpLe_def CheckNum_def CompareInt64Double_nan c_agree; auto simp: d_le_def CompareInt64Double_nan)+

definition both_multi :: "cvar \<Rightarrow> cvar \<Rightarrow> bool" where
  "both_multi a b \<longleftrightarrow> (\<exists>xs ys. a = VMulti xs \<and> b = VMulti ys)"

lemma FlCmpEq_eq: "FlCmpEq a b \<longleftrightarrow> Equal a b \<and> \<not> both_multi a b"
  by (cases a; cases b) (simp_all add: FlCmpEq_def both_multi_def c_agree)

lemma itoa_digits_rev: "0 < u \<Longrightarrow> rev (itoa_digits u) = dec_digits u"
proof (induction u rule: itoa_digits.induct)
  case (1 u)
  show ?case
  proof (cases "u < 10")
    case True
    then show ?thesis using 1(2) by (simp add: itoa_digits.simps [of u] itoa_digits.simps [of 0] dec_digits.simps [of u])
  next
    case False
    then show ?thesis using 1 by (simp add: itoa_digits.simps [of u] dec_digits.simps [of u])
  qed
qed

lemma FlFastItoA_eq [c_agree]: "FlFastItoA v = to_string_int (sint v)"
proof (cases "v = 0")
  case True
  then show ?thesis by (simp add: FlFastItoA_def to_string_int_def dec_digits.simps char_of_def bit_0)
next
  case False
  then have nz: "sint v \<noteq> 0" by (rule sint_nonzero)
  have pos: "0 < unat v" "0 < unat (- v)" using False by (simp_all add: unat_gt_0)
  have "unat v = nat (sint v)" if "0 < sint v" using uint_nonneg64 [of v] that by (simp flip: nat_uint_eq)
  moreover have "unat (- v) = nat (- sint v)" if "sint v < 0"
  proof -
    have "uint (word_of_int (- sint v) :: int64) = - sint v"
      using that sint64_bounds [of v] by (intro uint_word_of_int64) auto
    moreover have "(word_of_int (- sint v) :: int64) = - v" by simp
    ultimately show ?thesis by (simp flip: nat_uint_eq)
  qed
  ultimately show ?thesis using nz False pos
    by (auto simp: FlFastItoA_def to_string_int_def itoa_digits_rev Let_def)
qed

lemma FlVarToStr_float [c_agree]: "FlVarToStr (VFloat d) = Inr (FormatLuaFloat d)"
  by (auto simp: FlVarToStr_def FormatLuaFloat_def Let_def)

lemma FlConcat_eq [c_agree]: "FlConcat a b = BinConcat a b"
proof -
  have "concat_operand v = as_text v" for v by (cases v) (simp_all add: concat_operand_def as_text_def c_agree)
  then show ?thesis by (simp add: FlConcat_def BinConcat_def)
qed

lemma multi_agrees [c_agree]:
  "FlCombineMulti prefix lst = CombineMulti prefix lst" "FlUnboxMulti v idx = UnboxMulti v idx"
proof -
  have "(\<lambda>v. case v of VMulti vs \<Rightarrow> if 0 < length vs then vs ! 0 else VNil | _ \<Rightarrow> v) = multi_first"
    by (auto simp: fun_eq_iff hd_conv_nth split: cvar.splits)
  then show "FlCombineMulti prefix lst = CombineMulti prefix lst"
    by (simp add: FlCombineMulti_def CombineMulti_def Let_def)
  show "FlUnboxMulti v idx = UnboxMulti v idx" by (cases v) (simp_all add: FlUnboxMulti_def)
qed

lemma FlForLimitToInt_eq [c_agree]: "ForLimitToInt (VFloat flim) st = Inr (FlForLimitToInt flim st)"
  by (simp add: ForLimitToInt_def FlForLimitToInt_def CheckNum_def Let_def c_agree split: option.splits)

text \<open>The sign test of the loop's step detects exactly the additions that leave the 64-bit range.\<close>

lemma FlForIntAdvance_exact:
  "FlForIntAdvance c st =
     (if - (2 ^ 63) \<le> sint c + sint st \<and> sint c + sint st < 2 ^ 63 then Some (c + st) else None)"
proof -
  define t where "t = sint c + sint st"
  have sum: "c + st = word_of_int t" by (simp add: t_def)
  note b = sint64_bounds [of c] sint64_bounds [of st]
  have xor: "sint (x XOR y) < 0 \<longleftrightarrow> (sint x < 0) \<noteq> (sint y < 0)" for x y :: int64 by (simp add: signed_xor_eq)
  have in_range: "sint (c + st) = t" if "- (2 ^ 63) \<le> t" "t < 2 ^ 63"
    unfolding sum using that by (rule sint_word_of_int64)
  have above: "sint (c + st) = t - 2 ^ 64" if "2 ^ 63 \<le> t"
  proof -
    have "c + st = word_of_int (t - 2 ^ 64)" by (simp add: sum wi_hom_syms)
    then show ?thesis using that b by (simp only:) (rule sint_word_of_int64; simp add: t_def)
  qed
  have below: "sint (c + st) = t + 2 ^ 64" if "t < - (2 ^ 63)"
  proof -
    have "c + st = word_of_int (t + 2 ^ 64)" by (simp add: sum wi_hom_syms)
    then show ?thesis using that b by (simp only:) (rule sint_word_of_int64; simp add: t_def)
  qed
  consider "- (2 ^ 63) \<le> t" "t < 2 ^ 63" | "2 ^ 63 \<le> t" | "t < - (2 ^ 63)" by linarith
  then show ?thesis
  proof cases
    case 1
    then show ?thesis using in_range xor [of c st] xor [of "c + st" c]
      by (auto simp: FlForIntAdvance_def Let_def t_def)
  next
    case 2
    then show ?thesis using above xor [of c st] xor [of "c + st" c] b
      by (auto simp: FlForIntAdvance_def Let_def t_def)
  next
    case 3
    then show ?thesis using below xor [of c st] xor [of "c + st" c] b
      by (auto simp: FlForIntAdvance_def Let_def t_def)
  qed
qed


end
