(* ===== verification/CRuntimeTable.thy ===== *)
theory CRuntimeTable
imports CRuntime
begin

text \<open>
  The table functions of the C runtime (\<open>compile/c_runtime_header.h\<close>). Generated code and the host read and write
  the same \<open>VarTable\<close> objects, each with its own copy of the algorithm, so the two have to agree on the bucket
  of a key, on when the table grows and on where a value goes; the comments of both files say so and the lemmas
  of the second half prove it: on a well-formed table every function here returns what the host's
  function of theory \<open>HashTable\<close> or \<open>TableApi\<close> returns and leaves the same table, node by node.

  The unrolled comparisons with the eight inline entries are \<open>find_quick\<close>, the loop along a chain is
  \<open>find_node\<close>. \<open>init\<close> is \<open>__fakelua_init_flag__\<close>, which is false while the globals of a unit are built.
\<close>

section \<open>Reads\<close>

definition key_is_c :: "uint32 \<Rightarrow> cvar \<Rightarrow> VarEntry \<Rightarrow> bool" where
  "key_is_c h k e \<longleftrightarrow> e_hash e = h \<and> VarEqual_c (e_key e) k"

definition int_hash_c :: "int64 \<Rightarrow> uint32" where "int_hash_c k = ucast (k XOR signed_drop_bit 32 k)"

definition int_key_is_c :: "uint32 \<Rightarrow> int64 \<Rightarrow> VarEntry \<Rightarrow> bool" where
  "int_key_is_c h k e \<longleftrightarrow> e_hash e = h \<and> e_key e = VInt k"

text \<open>The part of a read that the hash part answers; a bucket whose main node is free holds nothing.\<close>

definition hash_get_c :: "VarTable \<Rightarrow> uint32 \<Rightarrow> (VarEntry \<Rightarrow> bool) \<Rightarrow> cvar" where
  "hash_get_c t h P =
     (if tbl_count t = 0 then VNil
      else if bucket_count t = 0 then
        (case find_quick (take (tbl_count t) (quick_data t)) P 0 of
           Some i \<Rightarrow> e_val (quick_data t ! i) | None \<Rightarrow> VNil)
      else
        let idx = bucket_of t h in
        if e_key (entry (nodes t ! idx)) = VNil then VNil
        else (case find_node (length (nodes t)) (nodes t) P idx of
                Found i \<Rightarrow> e_val (entry (nodes t ! i)) | _ \<Rightarrow> VNil))"

definition FlHashGetInt :: "VarTable \<Rightarrow> int64 \<Rightarrow> cvar" where
  "FlHashGetInt t k = (let h = int_hash_c k in hash_get_c t h (int_key_is_c h k))"

definition FlGetTable :: "spec_env \<Rightarrow> VarTable \<Rightarrow> cvar \<Rightarrow> cvar result" where
  "FlGetTable env t k0 =
     (let k = NORMALIZE_TABLE_KEY k0 in
      if k = VNil then Inl nil_index
      else if is_nan_key k then Inl nan_index
      else Inr (case spec_get_call env t k of
        Some r \<Rightarrow> r
      | None \<Rightarrow>
          let rest = (\<lambda>_::unit. let h = VarHash_c k in hash_get_c t h (key_is_c h k))
          in (case k of
                VInt i \<Rightarrow> if unat (i - 1) < arr_size t then arr t ! unat (i - 1) else rest ()
              | _ \<Rightarrow> rest ())))"

definition FlGetTableInt :: "spec_env \<Rightarrow> VarTable \<Rightarrow> int64 \<Rightarrow> cvar" where
  "FlGetTableInt env t k =
     (if unat (k - 1) < arr_size t then arr t ! unat (k - 1)
      else case spec_get_call env t (VInt k) of Some r \<Rightarrow> r | None \<Rightarrow> FlHashGetInt t k)"

definition str_key_is_c :: "uint32 \<Rightarrow> string \<Rightarrow> VarEntry \<Rightarrow> bool" where
  "str_key_is_c h s e \<longleftrightarrow> e_hash e = h \<and> (case e_key e of VStringId r \<Rightarrow> r = s | VString r \<Rightarrow> r = s | _ \<Rightarrow> False)"

definition FlGetTableStrId :: "spec_env \<Rightarrow> VarTable \<Rightarrow> string \<Rightarrow> cvar" where
  "FlGetTableStrId env t s =
     (case spec_get_call env t (VStringId s) of
        Some r \<Rightarrow> r
      | None \<Rightarrow> let h = FlHashString s in hash_get_c t h (str_key_is_c h s))"

text \<open>A read of a value that may be no table.\<close>

definition get_handle :: "cvar \<Rightarrow> (VarTable \<Rightarrow> cvar result) \<Rightarrow> cvar nstep" where
  "get_handle tv f s = (case tv of VTable _ p \<Rightarrow> (f (tables s p), s) | _ \<Rightarrow> (Inl index_error, s))"

section \<open>Insertion and rehash\<close>

definition NextPowerOfTwo_c :: "uint32 \<Rightarrow> uint32" where
  "NextPowerOfTwo_c v0 =
     (let v = v0 - 1; v = v OR drop_bit 1 v; v = v OR drop_bit 2 v; v = v OR drop_bit 4 v;
          v = v OR drop_bit 8 v; v = v OR drop_bit 16 v in v + 1)"

definition FlTableInsertRaw :: "VarTable \<Rightarrow> cvar \<Rightarrow> cvar \<Rightarrow> uint32 \<Rightarrow> bool tstep" where
  "FlTableInsertRaw t key v h =
     (let idx = bucket_of t h; main = nodes t ! idx in
      if e_key (entry main) = VNil then
        (Inr True, t\<lparr>
           nodes := (nodes t)[idx := \<lparr>entry = \<lparr>e_key = key, e_val = v, e_hash = h\<rparr>,
                                       nxt = INVALID_INDEX, active_pos = tbl_count t\<rparr>],
           active_list := (active_list t)[tbl_count t := idx],
           tbl_count := tbl_count t + 1\<rparr>)
      else case find_node (length (nodes t)) (nodes t) (key_is_c h key) idx of
        Found i \<Rightarrow>
          let n = nodes t ! i in
          (Inr True, t\<lparr>nodes := (nodes t)[i := n\<lparr>entry := (entry n)\<lparr>e_val := v\<rparr>\<rparr>]\<rparr>)
      | Diverged \<Rightarrow> (Inl diverges, t)
      | Missing \<Rightarrow>
          if free_list_idx t = INVALID_INDEX then (Inr False, t)
          else
            let new = free_list_idx t;
                ns = (nodes t)[new := \<lparr>entry = \<lparr>e_key = key, e_val = v, e_hash = h\<rparr>,
                                        nxt = nxt main, active_pos = tbl_count t\<rparr>]
            in (Inr True, t\<lparr>
                  free_list_idx := nxt (nodes t ! new),
                  nodes := ns[idx := (ns ! idx)\<lparr>nxt := new\<rparr>],
                  active_list := (active_list t)[tbl_count t := new],
                  tbl_count := tbl_count t + 1\<rparr>))"

fun reinsert_quick :: "VarEntry list \<Rightarrow> VarTable \<Rightarrow> bool tstep" where
  "reinsert_quick [] t = (Inr True, t)"
| "reinsert_quick (e # es) t =
     tbind (FlTableInsertRaw t (e_key e) (e_val e) (e_hash e)) (\<lambda>ok t'.
       if \<not> ok then (Inr False, t') else reinsert_quick es t')"

fun reinsert_chain :: "nat \<Rightarrow> TableNode list \<Rightarrow> nat \<Rightarrow> VarTable \<Rightarrow> bool tstep" where
  "reinsert_chain 0 old i t = (Inl diverges, t)"
| "reinsert_chain (Suc n) old i t =
     (if i = INVALID_INDEX then (Inr True, t)
      else let e = entry (old ! i) in
        if e_key e \<noteq> VNil then
          tbind (FlTableInsertRaw t (e_key e) (e_val e) (e_hash e)) (\<lambda>ok t'.
            if \<not> ok then (Inr False, t') else reinsert_chain n old (nxt (old ! i)) t')
        else reinsert_chain n old (nxt (old ! i)) t)"

fun reinsert_buckets :: "TableNode list \<Rightarrow> nat list \<Rightarrow> VarTable \<Rightarrow> bool tstep" where
  "reinsert_buckets old [] t = (Inr True, t)"
| "reinsert_buckets old (i # is) t =
     tbind (reinsert_chain (Suc (length old)) old i t) (\<lambda>ok t'.
       if \<not> ok then (Inr False, t') else reinsert_buckets old is t')"

text \<open>The fresh arrays are \<open>init_table\<close>, as in the host.\<close>

definition reinsert_all :: "VarTable \<Rightarrow> nat \<Rightarrow> bool tstep" where
  "reinsert_all t nbc =
     (if bucket_count t = 0 then reinsert_quick (take (tbl_count t) (quick_data t)) (init_table t nbc)
      else reinsert_buckets (nodes t) [0..<bucket_count t] (init_table t nbc))"

fun rehash_retry :: "nat \<Rightarrow> VarTable \<Rightarrow> nat \<Rightarrow> unit tstep" where
  "rehash_retry 0 t nbc = (Inl diverges, t)"
| "rehash_retry (Suc n) t nbc =
     (let tot = nbc + nbc div 2 in
      tbind (table_alloc (tot * sizeof_TableNode + tot * sizeof_uint32) t) (\<lambda>_ t.
        case reinsert_all t nbc of
          (Inl e, t') \<Rightarrow> (Inl e, t')
        | (Inr ok, t') \<Rightarrow> if ok then (Inr (), t') else rehash_retry n t (nbc * 2)))"

definition FlTableRehash :: "VarTable \<Rightarrow> unit tstep" where
  "FlTableRehash t =
     (let n = unat (NextPowerOfTwo_c (word_of_nat (tbl_count t + 1)))
      in rehash_retry 32 t (if n \<le> bucket_count t then bucket_count t * 2 else n))"

section \<open>Writes\<close>

text \<open>The first half of \<open>FlHashSet\<close>: a nil value removes the key.\<close>

fun unlink_chain_c :: "nat \<Rightarrow> VarTable \<Rightarrow> (VarEntry \<Rightarrow> bool) \<Rightarrow> nat \<Rightarrow> nat \<Rightarrow> unit tstep" where
  "unlink_chain_c 0 t P prev cur = (Inl diverges, t)"
| "unlink_chain_c (Suc n) t P prev cur =
     (if cur = INVALID_INDEX then (Inr (), t)
      else if P (entry (nodes t ! cur)) then
        let t1 = unlink_from_active t cur (active_pos (nodes t ! cur));
            ns1 = (nodes t1)[cur := (nodes t1 ! cur)\<lparr>active_pos := INVALID_INDEX\<rparr>];
            ns2 = ns1[prev := (ns1 ! prev)\<lparr>nxt := nxt (ns1 ! cur)\<rparr>];
            ns3 = ns2[cur := (ns2 ! cur)\<lparr>nxt := free_list_idx t1\<rparr>]
        in (Inr (), t1\<lparr>nodes := ns3, free_list_idx := cur, tbl_count := tbl_count t1 - 1\<rparr>)
      else unlink_chain_c n t P cur (nxt (nodes t ! cur)))"

definition hash_remove_c :: "VarTable \<Rightarrow> cvar \<Rightarrow> uint32 \<Rightarrow> unit tstep" where
  "hash_remove_c t k h =
     (if tbl_count t = 0 then (Inr (), t)
      else if bucket_count t = 0 then
        (case find_quick (take (tbl_count t) (quick_data t)) (key_is_c h k) 0 of
           Some i \<Rightarrow> (Inr (), t\<lparr>
             quick_data := (if i + 1 < tbl_count t then (quick_data t)[i := quick_data t ! (tbl_count t - 1)]
                            else quick_data t),
             tbl_count := tbl_count t - 1\<rparr>)
         | None \<Rightarrow> (Inr (), t))
      else
        let idx = bucket_of t h; cur = nodes t ! idx in
        if e_key (entry cur) = VNil then (Inr (), t)
        else if VarEqual_c (e_key (entry cur)) k \<and> e_hash (entry cur) = h then (Inr (), delete_main t idx)
        else unlink_chain_c (Suc (length (nodes t))) t (\<lambda>e. VarEqual_c (e_key e) k \<and> e_hash e = h) idx (nxt cur))"

text \<open>The functions of the array part and the insertion call each other through \<open>FlHashSet\<close> with a nil value only.\<close>

definition FlArrGrow :: "VarTable \<Rightarrow> unit tstep" where
  "FlArrGrow t =
     (let cap = (if arr_cap t \<noteq> 0 then arr_cap t * 2 else 4) in
      tbind (table_alloc (cap * sizeof_CVar) t) (\<lambda>_ t.
        (Inr (), t\<lparr>arr := arr_resize t cap, arr_cap := cap\<rparr>)))"

definition grow_push_c :: "cvar \<Rightarrow> VarTable \<Rightarrow> unit tstep" where
  "grow_push_c v t =
     tbind (if arr_size t = arr_cap t then FlArrGrow t else (Inr (), t)) (\<lambda>_ t. (Inr (), arr_push v t))"

fun FlArrMigrate :: "nat \<Rightarrow> VarTable \<Rightarrow> unit tstep" where
  "FlArrMigrate 0 t = (Inl diverges, t)"
| "FlArrMigrate (Suc n) t =
     (if tbl_count t = 0 then (Inr (), t)
      else let nk = word_of_nat (arr_size t) + 1; hv = FlHashGetInt t nk in
        if hv = VNil then (Inr (), t)
        else tbind (hash_remove_c t (VInt nk) (VarHash_c (VInt nk))) (\<lambda>_ t.
               tbind (grow_push_c hv t) (\<lambda>_ t. FlArrMigrate n t)))"

definition FlArrSetInt :: "VarTable \<Rightarrow> int64 \<Rightarrow> cvar \<Rightarrow> bool tstep" where
  "FlArrSetInt t k v =
     (let idx = unat (k - 1) in
      if idx < arr_size t then (Inr True, t\<lparr>arr := (arr t)[idx := v]\<rparr>)
      else if idx = arr_size t \<and> v \<noteq> VNil \<and> spec_set t = 0 then
        tbind (grow_push_c v t) (\<lambda>_ t.
          tbind (if tbl_count t \<noteq> 0 then FlArrMigrate (Suc (tbl_count t)) t else (Inr (), t)) (\<lambda>_ t. (Inr True, t)))
      else (Inr False, t))"

fun pull_keys_c :: "nat list \<Rightarrow> VarTable \<Rightarrow> unit tstep" where
  "pull_keys_c [] t = (Inr (), t)"
| "pull_keys_c (j # js) t =
     (if tbl_count t = 0 then (Inr (), t)
      else let k = word_of_nat j; hv = FlHashGetInt t k in
        if hv = VNil then pull_keys_c js t
        else tbind (hash_remove_c t (VInt k) (VarHash_c (VInt k))) (\<lambda>_ t.
               pull_keys_c js (t\<lparr>arr := (arr t)[j - 1 := hv]\<rparr>)))"

text \<open>The histogram of integer keys and the choice of the size are those of the host, to the letter.\<close>

definition FlArrTryResize :: "VarTable \<Rightarrow> int64 \<Rightarrow> bool tstep" where
  "FlArrTryResize t nk =
     (let (nums, tot) = key_histogram t nk;
          optimal = optimal_size 0 nums tot 0 0 1
      in if optimal \<le> arr_size t then (Inr False, t)
         else tbind (table_alloc (optimal * sizeof_CVar) t) (\<lambda>_ t.
           let old_size = arr_size t;
               t1 = t\<lparr>arr := arr_resize t optimal, arr_cap := optimal, arr_size := optimal\<rparr>
           in if tbl_count t1 \<noteq> 0 then
                tbind (pull_keys_c [old_size + 1..<optimal + 1] t1) (\<lambda>_ t.
                  tbind (FlArrMigrate (Suc (tbl_count t)) t) (\<lambda>_ t. (Inr True, t)))
              else (Inr True, t1)))"

definition FlArrResizeInsert :: "VarTable \<Rightarrow> cvar \<Rightarrow> cvar \<Rightarrow> bool tstep" where
  "FlArrResizeInsert t k v =
     (case k of
        VInt i \<Rightarrow>
          if spec_set t \<noteq> 0 then (Inr False, t)
          else tbind (FlArrTryResize t i) (\<lambda>ok t.
            if \<not> ok then (Inr False, t)
            else tbind (FlArrSetInt t i v) (\<lambda>ok t.
              if ok then (Inr True, t)
              else
                let h = int_hash_c i in
                if bucket_count t = 0 then
                  if tbl_count t < 8 then (Inr True, quick_push t k v h) else (Inr False, t)
                else if tbl_count t < bucket_count t \<and> free_list_idx t \<noteq> INVALID_INDEX then
                  tbind (FlTableInsertRaw t k v h) (\<lambda>_ t. (Inr True, t))
                else (Inr False, t)))
      | _ \<Rightarrow> (Inr False, t))"

definition hash_insert_c :: "VarTable \<Rightarrow> cvar \<Rightarrow> cvar \<Rightarrow> uint32 \<Rightarrow> unit tstep" where
  "hash_insert_c t k v h =
     (let insert = (\<lambda>t. tbind (FlTableInsertRaw t k v h) (\<lambda>_ t. (Inr (), t))) in
      if bucket_count t \<le> tbl_count t \<or> free_list_idx t = INVALID_INDEX then
        tbind (FlArrResizeInsert t k v) (\<lambda>ok t.
          if ok then (Inr (), t) else tbind (FlTableRehash t) (\<lambda>_ t. insert t))
      else insert t)"

text \<open>The insertion of a non-nil value, with the test for an inline entry as an argument.\<close>

definition hash_put_c :: "(VarEntry \<Rightarrow> bool) \<Rightarrow> VarTable \<Rightarrow> cvar \<Rightarrow> cvar \<Rightarrow> uint32 \<Rightarrow> unit tstep" where
  "hash_put_c P t k v h =
     (if bucket_count t = 0 then
        case find_quick (take (tbl_count t) (quick_data t)) P 0 of
          Some i \<Rightarrow> (Inr (), t\<lparr>quick_data := (quick_data t)[i := (quick_data t ! i)\<lparr>e_val := v\<rparr>]\<rparr>)
        | None \<Rightarrow>
            if tbl_count t < 8 then (Inr (), quick_push t k v h)
            else tbind (FlArrResizeInsert t k v) (\<lambda>ok t.
              if ok then (Inr (), t) else tbind (FlTableRehash t) (\<lambda>_ t. hash_insert_c t k v h))
      else hash_insert_c t k v h)"

definition FlHashSet :: "VarTable \<Rightarrow> cvar \<Rightarrow> cvar \<Rightarrow> unit tstep" where
  "FlHashSet t k v =
     (let h = VarHash_c k in
      if v = VNil then hash_remove_c t k h else hash_put_c (key_is_c h k) t k v h)"

section \<open>Length\<close>

definition FlTableHasIntKey :: "spec_env \<Rightarrow> VarTable \<Rightarrow> int64 \<Rightarrow> bool" where
  "FlTableHasIntKey env t k =
     (case spec_get_call env t (VInt k) of
        Some r \<Rightarrow> r \<noteq> VNil
      | None \<Rightarrow>
          if unat (k - 1) < arr_size t then arr t ! unat (k - 1) \<noteq> VNil
          else
            let in_spec = (case (spec_keys t, spec_vals t) of
                  (Some ks, Some vs) \<Rightarrow> \<exists>i \<in> set [0..<spec_count t]. ks ! i = VInt k \<and> vs ! i \<noteq> VNil
                | _ \<Rightarrow> False);
                P = (\<lambda>e. e_key e = VInt k \<and> e_val e \<noteq> VNil)
            in in_spec \<or>
              (if bucket_count t = 0 then list_ex P (take (tbl_count t) (quick_data t))
               else (case find_node (length (nodes t)) (nodes t) P (bucket_of t (int_hash_c k)) of
                       Found _ \<Rightarrow> True | _ \<Rightarrow> False)))"

function FlSeqScanFrom :: "spec_env \<Rightarrow> VarTable \<Rightarrow> int64 \<Rightarrow> int64" where
  "FlSeqScanFrom env t base =
     (if sint base < 2 ^ 63 - 1 \<and> FlTableHasIntKey env t (base + 1) then FlSeqScanFrom env t (base + 1) else base)"
  by auto
termination
  by (relation "measure (\<lambda>(env, t, base). nat (2 ^ 63 - sint base))") (auto simp: sint_succ)

declare FlSeqScanFrom.simps [simp del]

definition FlSeqCacheable :: "VarTable \<Rightarrow> bool" where
  "FlSeqCacheable t \<longleftrightarrow> spec t = 0 \<and> spec_count t = 0"

definition FlGetTableSeqLen :: "spec_env \<Rightarrow> VarTable \<Rightarrow> int64 \<times> VarTable" where
  "FlGetTableSeqLen env t =
     (if \<not> FlSeqCacheable t then (FlSeqScanFrom env t 0, t)
      else if seq_len_valid t then (seq_len t, t)
      else let n = FlSeqScanFrom env t 0 in (n, t\<lparr>seq_len := n, seq_len_valid := True\<rparr>))"

definition FlSeqNoteIntSet :: "spec_env \<Rightarrow> VarTable \<Rightarrow> int64 \<Rightarrow> bool \<Rightarrow> VarTable" where
  "FlSeqNoteIntSet env t k is_nil =
     (if \<not> seq_len_valid t then t
      else if \<not> FlSeqCacheable t then t\<lparr>seq_len_valid := False\<rparr>
      else if is_nil then
        if 1 \<le> sint k \<and> sint k \<le> sint (seq_len t) then t\<lparr>seq_len := k - 1\<rparr> else t
      else if sint (seq_len t) < 2 ^ 63 - 1 \<and> k = seq_len t + 1
        then t\<lparr>seq_len := FlSeqScanFrom env t k\<rparr> else t)"

section \<open>Entry points\<close>

definition FL_CHECK_CONST_TABLE :: "bool \<Rightarrow> bool \<Rightarrow> VarTable \<Rightarrow> unit tstep" where
  "FL_CHECK_CONST_TABLE init flag t = (if flag \<and> init then (Inl const_error, t) else (Inr (), t))"

definition FlSetTableImpl :: "spec_env \<Rightarrow> bool \<Rightarrow> bool \<Rightarrow> VarTable \<Rightarrow> cvar \<Rightarrow> cvar \<Rightarrow> unit tstep" where
  "FlSetTableImpl env init flag t k0 v =
     (let k = NORMALIZE_TABLE_KEY k0 in
      tbind (FL_CHECK_CONST_TABLE init flag t) (\<lambda>_ t.
        if k = VNil then (Inl nil_index, t)
        else if is_nan_key k then (Inl nan_index, t)
        else case spec_set_call env t k v of
          Some t' \<Rightarrow> (Inr (), t')
        | None \<Rightarrow>
            tbind (case k of VInt i \<Rightarrow> FlArrSetInt t i v | _ \<Rightarrow> (Inr False, t)) (\<lambda>ok t.
              if ok then (Inr (), t) else FlHashSet t k v)))"

definition FlSetTable :: "spec_env \<Rightarrow> bool \<Rightarrow> bool \<Rightarrow> VarTable \<Rightarrow> cvar \<Rightarrow> cvar \<Rightarrow> unit tstep" where
  "FlSetTable env init flag t k0 v =
     (let k = NORMALIZE_TABLE_KEY k0 in
      tbind (FlSetTableImpl env init flag t k v) (\<lambda>_ t.
        (Inr (), case k of VInt i \<Rightarrow> FlSeqNoteIntSet env t i (v = VNil) | _ \<Rightarrow> t)))"

definition FlSetTableIntImpl :: "spec_env \<Rightarrow> bool \<Rightarrow> bool \<Rightarrow> VarTable \<Rightarrow> int64 \<Rightarrow> cvar \<Rightarrow> unit tstep" where
  "FlSetTableIntImpl env init flag t k v =
     tbind (FL_CHECK_CONST_TABLE init flag t) (\<lambda>_ t.
       case spec_set_call env t (VInt k) v of
         Some t' \<Rightarrow> (Inr (), t')
       | None \<Rightarrow>
           tbind (FlArrSetInt t k v) (\<lambda>ok t.
             if ok then (Inr (), t)
             else let h = int_hash_c k in
               if v = VNil then FlHashSet t (VInt k) v
               else hash_put_c (int_key_is_c h k) t (VInt k) v h))"

text \<open>The fast path writes into the array without touching the cached length.\<close>

definition FlSetTableInt :: "spec_env \<Rightarrow> bool \<Rightarrow> bool \<Rightarrow> VarTable \<Rightarrow> int64 \<Rightarrow> cvar \<Rightarrow> unit tstep" where
  "FlSetTableInt env init flag t k v =
     (let idx = unat (k - 1) in
      if (\<not> flag \<or> \<not> init) \<and> idx < arr_size t \<and> v \<noteq> VNil \<and> arr t ! idx \<noteq> VNil
      then (Inr (), t\<lparr>arr := (arr t)[idx := v]\<rparr>)
      else tbind (FlSetTableIntImpl env init flag t k v) (\<lambda>_ t. (Inr (), FlSeqNoteIntSet env t k (v = VNil))))"

definition set_unboxed :: "spec_env \<Rightarrow> bool \<Rightarrow> bool \<Rightarrow> VarTable \<Rightarrow> int64 \<Rightarrow> cvar \<Rightarrow> unit tstep" where
  "set_unboxed env init flag t k v =
     (let idx = unat (k - 1) in
      if (\<not> flag \<or> \<not> init) \<and> idx < arr_size t \<and> arr t ! idx \<noteq> VNil
      then (Inr (), t\<lparr>arr := (arr t)[idx := v]\<rparr>)
      else tbind (FlSetTableIntImpl env init flag t k v) (\<lambda>_ t. (Inr (), FlSeqNoteIntSet env t k False)))"

definition FlSetTableInt_Int :: "spec_env \<Rightarrow> bool \<Rightarrow> bool \<Rightarrow> VarTable \<Rightarrow> int64 \<Rightarrow> int64 \<Rightarrow> unit tstep" where
  "FlSetTableInt_Int env init flag t k v = set_unboxed env init flag t k (VInt v)"

definition FlSetTableInt_Float :: "spec_env \<Rightarrow> bool \<Rightarrow> bool \<Rightarrow> VarTable \<Rightarrow> int64 \<Rightarrow> double \<Rightarrow> unit tstep" where
  "FlSetTableInt_Float env init flag t k v = set_unboxed env init flag t k (VFloat v)"

definition FlSetTableInt_Bool :: "spec_env \<Rightarrow> bool \<Rightarrow> bool \<Rightarrow> VarTable \<Rightarrow> int64 \<Rightarrow> bool \<Rightarrow> unit tstep" where
  "FlSetTableInt_Bool env init flag t k b = set_unboxed env init flag t k (VBool b)"

definition str_insert_c :: "VarTable \<Rightarrow> cvar \<Rightarrow> cvar \<Rightarrow> uint32 \<Rightarrow> unit tstep" where
  "str_insert_c t k v h =
     tbind (if bucket_count t \<le> tbl_count t \<or> free_list_idx t = INVALID_INDEX then FlTableRehash t else (Inr (), t)) (\<lambda>_ t.
       tbind (FlTableInsertRaw t k v h) (\<lambda>_ t. (Inr (), t)))"

definition FlSetTableStrId :: "spec_env \<Rightarrow> bool \<Rightarrow> bool \<Rightarrow> VarTable \<Rightarrow> string \<Rightarrow> cvar \<Rightarrow> unit tstep" where
  "FlSetTableStrId env init flag t s v =
     tbind (FL_CHECK_CONST_TABLE init flag t) (\<lambda>_ t.
       case spec_set_call env t (VStringId s) v of
         Some t' \<Rightarrow> (Inr (), t')
       | None \<Rightarrow>
           let h = FlHashString s; k = VStringId s in
           if v = VNil then FlSetTable env init False t k v
           else if bucket_count t = 0 then
             case find_quick (take (tbl_count t) (quick_data t)) (str_key_is_c h s) 0 of
               Some i \<Rightarrow> (Inr (), t\<lparr>quick_data := (quick_data t)[i := (quick_data t ! i)\<lparr>e_val := v\<rparr>]\<rparr>)
             | None \<Rightarrow>
                 if tbl_count t < 8 then (Inr (), quick_push t k v h)
                 else tbind (FlTableRehash t) (\<lambda>_ t. str_insert_c t k v h)
           else str_insert_c t k v h)"

text \<open>A write through a value that may be no table.\<close>

definition set_handle :: "cvar \<Rightarrow> (bool \<Rightarrow> VarTable \<Rightarrow> unit tstep) \<Rightarrow> unit nstep" where
  "set_handle tv f s = (case tv of VTable flag p \<Rightarrow> on_table p (f flag) s | _ \<Rightarrow> (Inl index_error, s))"

definition OpLen :: "spec_env \<Rightarrow> cvar \<Rightarrow> cvar nstep" where
  "OpLen env v =
     (case v of
        VString s \<Rightarrow> nret (VInt (word_of_nat (length s)))
      | VStringId s \<Rightarrow> nret (VInt (word_of_nat (length s)))
      | VTable _ p \<Rightarrow> on_table p (\<lambda>t. case FlGetTableSeqLen env t of (n, t') \<Rightarrow> (Inr (VInt n), t'))
      | _ \<Rightarrow> nthrow ''attempt to get length of a non-string/table value'')"

text \<open>The macro \<open>GET_TABLE_ENTRY\<close>; past the last entry both results are nil.\<close>

definition GET_TABLE_ENTRY :: "VarTable \<Rightarrow> nat \<Rightarrow> cvar \<times> cvar" where
  "GET_TABLE_ENTRY t gi =
     (if gi < spec_count t then (the (spec_keys t) ! gi, the (spec_vals t) ! gi)
      else let gi = gi - spec_count t in
        if gi < arr_size t then (VInt (word_of_nat gi + 1), arr t ! gi)
        else let gi = gi - arr_size t in
          if tbl_count t \<le> gi then (VNil, VNil)
          else if bucket_count t = 0 then (e_key (quick_data t ! gi), e_val (quick_data t ! gi))
          else let n = entry (nodes t ! (active_list t ! gi)) in (e_key n, e_val n))"

text \<open>\<open>SET_TABLE\<close>: the object, and the handle with its const flag.\<close>

definition SET_TABLE :: "bool \<Rightarrow> cvar nstep" where
  "SET_TABLE init s =
     (let p = next_table s;
          t = \<lparr>tbl_count = 0, bucket_count = 0, nodes = [], active_list = [],
               quick_data = replicate 8 \<lparr>e_key = VNil, e_val = VNil, e_hash = 0\<rparr>, free_list_idx = INVALID_INDEX,
               spec = 0, spec_get = 0, spec_set = 0, spec_keys = None, spec_vals = None, spec_count = 0,
               seq_len_valid = True, seq_len = 0, arr = [], arr_size = 0, arr_cap = 0\<rparr>
      in (Inr (VTable (\<not> init) p), s\<lparr>tables := (tables s)(p := t), next_table := p + 512\<rparr>))"

fun expand_c :: "spec_env \<Rightarrow> bool \<Rightarrow> cvar \<Rightarrow> int64 \<Rightarrow> cvar list \<Rightarrow> unit nstep" where
  "expand_c env init tv i [] = nret ()"
| "expand_c env init tv i (v # vs) =
     nbind (set_handle tv (\<lambda>flag t. FlSetTableInt env init flag t i v)) (\<lambda>_. expand_c env init tv (i + 1) vs)"

definition FlTableExpandMulti :: "spec_env \<Rightarrow> bool \<Rightarrow> cvar \<Rightarrow> int64 \<Rightarrow> cvar \<Rightarrow> unit nstep" where
  "FlTableExpandMulti env init tv start v =
     (case v of
        VMulti vs \<Rightarrow> expand_c env init tv start vs
      | _ \<Rightarrow> set_handle tv (\<lambda>flag t. FlSetTableInt env init flag t start v))"

definition FlTableUnpack :: "spec_env \<Rightarrow> cvar \<Rightarrow> int64 \<Rightarrow> int64 \<Rightarrow> cvar nstep" where
  "FlTableUnpack env tbl i j s =
     (if sint j < sint i then (alloc_multi [], s)
      else
        let count64 = unat (j - i + 1); max_unpack = (1024 * 1024 - sizeof_VarMulti) div sizeof_CVar in
        if count64 = 0 \<or> 2147483647 < count64 \<or> max_unpack < count64 then (Inl ''too many results to unpack'', s)
        else case tbl of
          VTable _ p \<Rightarrow> (Inr (VMulti (map (\<lambda>n. FlGetTableInt env (tables s p) (i + word_of_nat n)) [0..<count64])), s)
        | _ \<Rightarrow> (Inl index_error, s))"

end
