(* ===== verification/CRuntimeAgree.thy ===== *)
theory CRuntimeAgree
imports CRuntimeTable
begin

text \<open>
  The table functions of the C runtime against those of the host: on well-formed plain tables they return the
  same and leave the same table. The names of the lemmas follow the functions.
\<close>

section \<open>Helpers\<close>

lemma tbind_cong:
  "m = m' \<Longrightarrow> (\<And>x t'. m' = (Inr x, t') \<Longrightarrow> f x t' = g x t') \<Longrightarrow> tbind m f = tbind m' g"
  by (cases m') (auto simp: tbind_def split: sum.splits)

lemma key_is_c [c_agree]: "key_is_c = key_is" "(\<lambda>e. VarEqual_c (e_key e) k \<and> e_hash e = h) = key_is h k"
  by (auto simp: fun_eq_iff key_is_c_def key_is_def c_agree)

lemma int_key_is_c [c_agree]: "int_key_is_c = int_key_is" "int_hash_c = IntKeyHash"
  by (simp_all add: fun_eq_iff int_key_is_c_def int_key_is_def int_hash_c_def IntKeyHash_def)

lemma NextPowerOfTwo_c [c_agree]: "NextPowerOfTwo_c = NextPowerOfTwo"
  by (intro ext) (simp only: NextPowerOfTwo_c_def NextPowerOfTwo_def)

section \<open>The hash part\<close>

lemma FlTableInsertRaw_eq [c_agree]: "FlTableInsertRaw = TableInsertRaw"
  by (intro ext) (simp only: FlTableInsertRaw_def TableInsertRaw_def c_agree)

lemma reinsert_eq [c_agree]:
  "reinsert_quick es t = rehash_quick es t"
  "reinsert_chain n old i t = rehash_chain n old i t"
  "reinsert_buckets old is t = rehash_buckets old is t"
proof -
  show "reinsert_quick es t = rehash_quick es t"
    by (induction es arbitrary: t) (auto simp: c_agree intro!: tbind_cong)
  have chain: "reinsert_chain n old i t = rehash_chain n old i t" for n i t
    by (induction n arbitrary: i t) (auto simp: c_agree Let_def intro!: tbind_cong)
  then show "reinsert_chain n old i t = rehash_chain n old i t" .
  show "reinsert_buckets old is t = rehash_buckets old is t"
    by (induction "is" arbitrary: t) (auto simp: chain simp del: rehash_chain.simps reinsert_chain.simps intro!: tbind_cong)
qed

lemma rehash_retry_eq [c_agree]: "rehash_retry n t nbc = rehash_loop n t nbc"
proof (induction n arbitrary: nbc)
  case (Suc n)
  have "reinsert_all t nbc = rehash_into t nbc" for t nbc
    by (simp add: reinsert_all_def rehash_into_def c_agree)
  then show ?case
    by (auto simp: Let_def Suc.IH table_alloc_def tbind_def split: prod.splits sum.splits)
qed simp

text \<open>The host starts from at least one bucket, which the power of two is anyway.\<close>

lemma FlTableRehash_eq:
  assumes "tbl_count t \<le> 8192"
  shows "FlTableRehash t = TableRehash t"
proof -
  have "0 < unat (NextPowerOfTwo (word_of_nat (tbl_count t + 1)))"
    using assms by (subst NextPowerOfTwo_nat) simp_all
  then show ?thesis
    by (simp add: FlTableRehash_def TableRehash_def TableRehashTo_def rehash_start_def Let_def c_agree)
qed

lemma hash_remove_eq [c_agree]: "hash_remove_c = TableDelete"
proof (intro ext)
  fix t k h
  have chain: "unlink_chain_c n t P prev cur = delete_chain n t P prev cur" for n P prev cur
    by (induction n arbitrary: prev cur) (simp_all add: Let_def)
  have "VarEqual_c x k \<and> e_hash e = h \<longleftrightarrow> key_is h k e" if "x = e_key e" for x e
    using that by (auto simp: key_is_def c_agree)
  then show "hash_remove_c t k h = TableDelete t k h"
    by (simp add: hash_remove_c_def TableDelete_def chain c_agree Let_def del: unlink_chain_c.simps delete_chain.simps)
qed

text \<open>A bucket whose main node is free has no chain, so the early return of a read changes nothing.\<close>

lemma hash_get_eq:
  assumes h: "hash_ok t" and key: "hh = VarKeyHash key"
    and P: "\<And>e. entry_ok e \<Longrightarrow> P e \<longleftrightarrow> canon (e_key e) = canon key" "\<And>e. e_key e = VNil \<Longrightarrow> \<not> P e"
  shows "hash_get_c t hh P = hash_lookup t hh P"
proof (cases "tbl_count t = 0")
  case True
  then show ?thesis using hash_lookup_ok [OF h P] hmap_empty [OF h] by (simp add: hash_get_c_def key)
next
  case False
  show ?thesis
  proof (cases "bucket_count t = 0")
    case True
    then show ?thesis using False by (simp add: hash_get_c_def hash_lookup_def)
  next
    case nz: False
    then obtain ch fl where inv: "hash_inv t ch fl" using h by (auto simp: hash_ok_def bucket_inv_def)
    let ?b = "bucket_of t hh"
    have s: "shape_ok t ch fl" using inv by (simp add: hash_inv_def)
    have b: "?b < bucket_count t" by (rule bucket_of_less [OF s])
    have pos: "0 < length (nodes t)" using s b by (simp add: shape_ok_def total_nodes_def)
    have "find_node (length (nodes t)) (nodes t) P ?b = Missing" if nil: "e_key (entry (nodes t ! ?b)) = VNil"
    proof -
      have "ch ! ?b = []" "linked (nodes t) ?b (?b # ch ! ?b)"
        using inv b nil by (auto simp: hash_inv_def chains_ok_def node_key_def)
      then have "nxt (nodes t ! ?b) = INVALID_INDEX" by simp
      then show ?thesis using P(2) [OF nil] pos by (cases "length (nodes t)") simp_all
    qed
    then show ?thesis using False nz by (auto simp: hash_get_c_def hash_lookup_def Let_def)
  qed
qed

lemma FlHashGetInt_eq:
  assumes h: "hash_ok t"
  shows "FlHashGetInt t k = TableHashGetInt t k"
proof -
  have "hash_get_c t (IntKeyHash k) (int_key_is (IntKeyHash k) k) = hash_lookup t (IntKeyHash k) (int_key_is (IntKeyHash k) k)"
    by (rule hash_get_eq [OF h, of _ "VInt k"]) (simp_all add: int_key_is_canon, simp add: int_key_is_def)
  moreover have "hash_lookup t hh P = VNil" if "tbl_count t = 0" "hash_get_c t hh P = hash_lookup t hh P" for hh P
    using that by (simp add: hash_get_c_def)
  ultimately show ?thesis
    by (cases "tbl_count t = 0") (simp_all add: FlHashGetInt_def TableHashGetInt_def c_agree hash_lookup_def Let_def)
qed

section \<open>The array part\<close>

lemma grow_push_eq [c_agree]: "grow_push_c = grow_push"
proof -
  have "FlArrGrow = TableArrGrow" by (intro ext) (simp only: FlArrGrow_def TableArrGrow_def)
  then show ?thesis by (intro ext) (simp only: grow_push_c_def grow_push_def)
qed

lemma grow_push_hash: "hash_ok (snd (grow_push v t)) = hash_ok t"
  by (rule hash_part_cong)
    (auto simp: grow_push_def TableArrGrow_def table_alloc_def arr_push_def tbind_def Let_def split: if_splits)

lemma delete_hash: "hash_ok t \<Longrightarrow> \<exists>t'. TableDelete t (VInt k) (IntKeyHash k) = (Inr (), t') \<and> hash_ok t'"
  using TableDelete_ok [of t "VInt k"] by auto

lemma migrate_eq:
  assumes "hash_ok t"
  shows "FlArrMigrate n t = migrate n t \<and> hash_ok (snd (migrate n t))"
  using assms
proof (induction n arbitrary: t)
  case (Suc n)
  let ?k = "word_of_nat (arr_size t) + 1 :: int64"
  from delete_hash [OF Suc.prems, of ?k] obtain u where u: "TableDelete t (VInt ?k) (IntKeyHash ?k) = (Inr (), u)" "hash_ok u"
    by blast
  obtain r w where w: "grow_push (TableHashGetInt t ?k) u = (r, w)" by fastforce
  then have "hash_ok w" using grow_push_hash [of "TableHashGetInt t ?k" u] u(2) by simp
  then show ?case using Suc.IH [of w] Suc.prems
    by (cases r) (simp_all add: FlHashGetInt_eq c_agree u w Let_def)
qed simp

lemma FlArrSetInt_eq:
  assumes "hash_ok t"
  shows "FlArrSetInt t k v = TableArrSetInt t k v \<and> hash_ok (snd (TableArrSetInt t k v))"
proof -
  obtain r w where w: "grow_push v t = (r, w)" by fastforce
  then have h: "hash_ok w" using grow_push_hash [of v t] assms by simp
  have m: "FlArrMigrate (Suc (tbl_count w)) w = migrate (Suc (tbl_count w)) w" "hash_ok (snd (migrate (Suc (tbl_count w)) w))"
    using migrate_eq [OF h] by blast+
  have "hash_ok (t\<lparr>arr := a\<rparr>)" for a using assms hash_part_cong(1) [of "t\<lparr>arr := a\<rparr>" t] by simp
  then show ?thesis using assms m h
    by (cases r; cases "migrate (Suc (tbl_count w)) w")
      (auto simp: FlArrSetInt_def TableArrSetInt_def c_agree w Let_def tbind_def simp del: FlArrMigrate.simps split: sum.splits)
qed

lemma pull_keys_eq:
  assumes "hash_ok t"
  shows "pull_keys_c js t = pull_keys js t \<and> hash_ok (snd (pull_keys js t))"
  using assms
proof (induction js arbitrary: t)
  case (Cons j js)
  let ?k = "word_of_nat j :: int64"
  from delete_hash [OF Cons.prems, of ?k] obtain u where u: "TableDelete t (VInt ?k) (IntKeyHash ?k) = (Inr (), u)" "hash_ok u"
    by blast
  let ?w = "u\<lparr>arr := (arr u)[j - 1 := TableHashGetInt t ?k]\<rparr>"
  have "hash_ok ?w" using u(2) hash_part_cong(1) [of ?w u] by simp
  then show ?case using Cons.IH [of ?w] Cons.IH [of t] Cons.prems
    by (simp add: FlHashGetInt_eq c_agree u Let_def)
qed simp

lemma FlArrTryResize_eq:
  assumes h: "hash_ok t"
  shows "FlArrTryResize t nk = TableArrTryResize t nk \<and> hash_ok (snd (TableArrTryResize t nk))"
proof -
  define n where "n = optimal_size 0 (fst (key_histogram t nk)) (snd (key_histogram t nk)) 0 0 1"
  define w where "w = t\<lparr>arr := arr_resize t n, arr_cap := n, arr_size := n\<rparr>"
  define js where "js = [arr_size t + 1..<n + 1]"
  have hw: "hash_ok w" using h hash_part_cong(1) [of w t] by (simp add: w_def)
  obtain r x where x: "pull_keys js w = (r, x)" by fastforce
  have p: "pull_keys_c js w = (r, x)" "hash_ok x" using pull_keys_eq [OF hw, of js] x by simp_all
  have m: "FlArrMigrate (Suc (tbl_count x)) x = migrate (Suc (tbl_count x)) x" "hash_ok (snd (migrate (Suc (tbl_count x)) x))"
    using migrate_eq [OF p(2)] by blast+
  have host: "TableArrTryResize t nk = (if n \<le> arr_size t then (Inr False, t)
      else tbind (table_alloc (n * sizeof_CVar) t) (\<lambda>_ _. tbind (pull_keys js w) (\<lambda>_ t.
        tbind (migrate (Suc (tbl_count t)) t) (\<lambda>_ t. (Inr True, t)))))"
    by (auto simp: TableArrTryResize_def n_def w_def js_def case_prod_beta Let_def table_alloc_def)
  have gen: "FlArrTryResize t nk = (if n \<le> arr_size t then (Inr False, t)
      else tbind (table_alloc (n * sizeof_CVar) t) (\<lambda>_ _. if tbl_count w \<noteq> 0 then tbind (pull_keys_c js w) (\<lambda>_ t.
        tbind (FlArrMigrate (Suc (tbl_count t)) t) (\<lambda>_ t. (Inr True, t))) else (Inr True, w)))"
    by (auto simp: FlArrTryResize_def n_def w_def js_def case_prod_beta Let_def table_alloc_def)
  have none: "pull_keys js w = (Inr (), w)" if "tbl_count w = 0" using that by (cases js) simp_all
  show ?thesis
  proof (cases "tbl_count w = 0")
    case True
    then show ?thesis using h hw unfolding host gen
      by (auto simp: none table_alloc_def)
  next
    case False
    then show ?thesis using h p m unfolding host gen x
      by (cases r; cases "migrate (Suc (tbl_count x)) x")
        (auto simp: table_alloc_def tbind_def simp del: FlArrMigrate.simps migrate.simps split: sum.splits)
  qed
qed

text \<open>The generated code calls this function only when the hash part is full, which the host tests again.\<close>

lemma FlArrResizeInsert_eq:
  assumes h: "hash_ok t" and full: "hash_full t"
  shows "FlArrResizeInsert t k v = resize_insert_if_int t k v"
proof (cases k)
  case (VInt i)
  obtain r u where u: "TableArrTryResize t i = (r, u)" by fastforce
  have r: "FlArrTryResize t i = (r, u)" "hash_ok u" using FlArrTryResize_eq [OF h, of i] u by simp_all
  have s: "FlArrSetInt u i v = TableArrSetInt u i v" using FlArrSetInt_eq [OF r(2)] by blast
  show ?thesis
    using full unfolding FlArrResizeInsert_def resize_insert_if_int_def TableArrResizeInsert_def VInt r(1) u
      FlTableInsertRaw_eq int_key_is_c(2) QUICK_DATA_SIZE_def
    by (cases r) (simp_all add: s r u)
qed (simp_all add: FlArrResizeInsert_def resize_insert_if_int_def)

section \<open>Writes\<close>

lemma resize_or_rehash:
  assumes t: "tinv t" and v: "v \<noteq> VNil" and b: "beyond t k" and full: "hash_full t"
    and new: "bucket_count t = 0 \<Longrightarrow> tmap t (canon k) = None"
    and rest: "\<And>u w. tinv u \<Longrightarrow> TableRehash u = (Inr (), w) \<Longrightarrow> bucket_count u = bucket_count t \<Longrightarrow> hash_full u \<Longrightarrow>
      beyond u k \<Longrightarrow> f w = g w"
  shows "tbind (FlArrResizeInsert t k v) (\<lambda>ok t. if ok then (Inr (), t) else tbind (FlTableRehash t) (\<lambda>_ t. f t)) =
    tbind (resize_insert_if_int t k v) (\<lambda>ok t. if ok then (Inr (), t) else tbind (TableRehash t) (\<lambda>_ t. g t))"
proof (rule tbind_cong)
  show "FlArrResizeInsert t k v = resize_insert_if_int t k v"
    using t full by (intro FlArrResizeInsert_eq) (auto simp: tinv_def core_def)
next
  fix ok u
  assume r: "resize_insert_if_int t k v = (Inr ok, u)"
  show "(if ok then (Inr (), u) else tbind (FlTableRehash u) (\<lambda>_ t. f t)) =
    (if ok then (Inr (), u) else tbind (TableRehash u) (\<lambda>_ t. g t))"
  proof (cases ok)
    case False
    have "bucket_count t = 0 \<longrightarrow> tmap t (canon k) = None" using new by blast
    from resize_insert_if_int_ok [OF t v b this] r False
    have u: "tinv u" "bucket_count u = bucket_count t" "hash_full u" "beyond u k" using full by auto
    have "FlTableRehash u = TableRehash u" using tbl_count_bound [OF tinv_core [OF u(1)]] by (rule FlTableRehash_eq)
    then show ?thesis using False rest [OF u(1) _ u(2-4)] by (auto intro!: tbind_cong)
  qed simp
qed

lemma hash_insert_eq:
  assumes t: "tinv t" and nz: "bucket_count t \<noteq> 0" and v: "v \<noteq> VNil" and b: "beyond t k"
  shows "hash_insert_c t k v h = set_buckets t k v h"
proof (cases "hash_full t")
  case True
  then show ?thesis
    using resize_or_rehash [OF t v b True, where f = "\<lambda>t. tbind (TableInsertRaw t k v h) (\<lambda>_ t. (Inr (), t))"
        and g = "\<lambda>t. tbind (TableInsertRaw t k v h) (\<lambda>_ t. (Inr (), t))"] nz
    by (simp add: hash_insert_c_def set_buckets_def hash_full_def Let_def c_agree)
next
  case False
  then show ?thesis using nz by (auto simp: hash_insert_c_def set_buckets_def hash_full_def Let_def c_agree)
qed

lemma find_quick_cong: "(\<And>e. e \<in> set es \<Longrightarrow> P e = Q e) \<Longrightarrow> find_quick es P i = find_quick es Q i"
  by (induction es arbitrary: i) auto

lemma hash_put_eq:
  assumes t: "tinv t" and key: "key_ok k" "v \<noteq> VNil" "beyond t k"
    and P: "\<And>e. entry_ok e \<Longrightarrow> P e \<longleftrightarrow> canon (e_key e) = canon k"
  shows "hash_put_c P t k v (VarKeyHash k) = TableSetNonNil t k v (VarKeyHash k)"
proof (cases "bucket_count t = 0")
  case False
  then show ?thesis using hash_insert_eq [OF t False key(2,3)] by (simp add: hash_put_c_def TableSetNonNil_def)
next
  case True
  have q: "quick_inv t" using t True by (simp add: tinv_def core_def hash_ok_def)
  let ?es = "take (tbl_count t) (quick_data t)"
  have eok: "\<forall>e \<in> set ?es. entry_ok e" and cnt: "tbl_count t \<le> 8"
    using q True by (auto simp: quick_inv_def live_entries_def QUICK_DATA_SIZE_def)
  have same: "find_quick ?es P 0 = find_quick ?es (key_is (VarKeyHash k) k) 0"
    using eok P key_is_canon [OF _ key(1)] by (intro find_quick_cong) auto
  show ?thesis
  proof (cases "find_quick ?es (key_is (VarKeyHash k) k) 0")
    case (Some i)
    then show ?thesis using True same by (simp add: hash_put_c_def TableSetNonNil_def)
  next
    case None
    show ?thesis
    proof (cases "tbl_count t < 8")
      case lt: True
      then show ?thesis using True same None by (simp add: hash_put_c_def TableSetNonNil_def QUICK_DATA_SIZE_def)
    next
      case False
      then have full: "hash_full t" "tbl_count t = 8" using True cnt by (simp_all add: hash_full_def QUICK_DATA_SIZE_def)
      have "hmap t (canon k) = None"
        using None q key_is_canon [OF _ key(1)] True
        by (auto simp: find_quick_None hmap_def entries_map_None live_entries_def quick_inv_def)
      then have new: "tmap t (canon k) = None"
        using tmap_off [of t "canon k"] key(3) by (simp add: beyond_def off_array_def less_imp_le)
      have "hash_insert_c w k v (VarKeyHash k) = set_buckets w k v (VarKeyHash k)"
        if u: "tinv u" "TableRehash u = (Inr (), w)" "bucket_count u = bucket_count t" "hash_full u" "beyond u k" for u w
      proof -
        have "bucket_count u = 0 \<longrightarrow> tbl_count u = 8"
          using u(1,4) by (auto simp: tinv_def core_def hash_ok_def quick_inv_def hash_full_def QUICK_DATA_SIZE_def)
        from TableRehash_tinv [OF u(1) this] u(2) have "tinv w" "bucket_count w \<noteq> 0" "arr_size w = arr_size u" by auto
        moreover from this(3) have "beyond w k" using u(5) beyond_eq by blast
        ultimately show ?thesis using key(2) by (intro hash_insert_eq)
      qed
      from resize_or_rehash [OF t key(2,3) full(1) new this] show ?thesis
        using True same None False by (simp add: hash_put_c_def TableSetNonNil_def QUICK_DATA_SIZE_def)
    qed
  qed
qed

text \<open>Writing into the hash part a key that the array part does not take.\<close>

lemma FlHashSet_eq:
  assumes t: "tinv t" and key: "key_ok k" and b: "v \<noteq> VNil \<Longrightarrow> beyond t k"
  shows "FlHashSet t k v = hash_write t k v (VarKeyHash k)"
  using hash_put_eq [OF t key _ b key_is_canon [OF _ key]]
  by (simp add: FlHashSet_def hash_write_def c_agree Let_def)

lemma FlTableHasIntKey_eq:
  assumes "plain t"
  shows "FlTableHasIntKey env t k = TableHasIntKey env t k"
  using assms by (simp add: FlTableHasIntKey_def TableHasIntKey_def plain_def c_agree Let_def split: option.splits)

lemma FlSeqScanFrom_eq: "plain t \<Longrightarrow> FlSeqScanFrom env t b = SeqScanFrom env t b"
proof (induction env t b rule: SeqScanFrom.induct)
  case (1 env t b)
  then show ?case
    by (subst FlSeqScanFrom.simps, subst SeqScanFrom.simps) (simp add: FlTableHasIntKey_eq)
qed

lemma seq_agrees:
  assumes "plain t"
  shows "FlSeqNoteIntSet env t k b = SeqNoteIntSet env t k b" "FlGetTableSeqLen env t = GetTableLen env t"
  using assms by (simp_all add: FlSeqNoteIntSet_def SeqNoteIntSet_def FlGetTableSeqLen_def GetTableLen_def
      FlSeqCacheable_def SeqCacheable_def FlSeqScanFrom_eq Let_def)

lemma const_check_eq: "FL_CHECK_CONST_TABLE (\<not> ca) flag t = CheckConstTable ca flag t"
  by (simp add: FL_CHECK_CONST_TABLE_def CheckConstTable_def)

lemma const_check_ok: "flag \<longrightarrow> ca \<Longrightarrow> FL_CHECK_CONST_TABLE (\<not> ca) flag t = (Inr (), t)"
  by (simp add: FL_CHECK_CONST_TABLE_def)

lemma array_write_plain: "tinv t \<Longrightarrow> TableArrSetInt t k v = (r, u) \<Longrightarrow> plain u"
  using TableArrSetInt_ok [of t k v] by (auto simp: tinv_def core_def)

lemma hash_write_plain:
  assumes "tinv t" "key_ok k" "off_array t k" "v \<noteq> VNil \<Longrightarrow> beyond t k"
    "hash_write t k v (VarKeyHash k) = (r, u)"
  shows "plain u"
  using hash_write_ok [OF assms(1,2,3), where v = v, OF assms(4)] assms(5) by (auto simp: writes_def tinv_def core_def split: sum.splits)

lemma tbind_assoc: "tbind (tbind m f) g = tbind m (\<lambda>x t. tbind (f x t) g)"
  by (auto simp: tbind_def split: prod.splits sum.splits)

text \<open>The write of both sides without the constness check and the note of the length.\<close>

definition host_write :: "VarTable \<Rightarrow> cvar \<Rightarrow> cvar \<Rightarrow> unit tstep" where
  "host_write t k v =
     tbind (case k of VInt i \<Rightarrow> TableArrSetInt t i v | _ \<Rightarrow> (Inr False, t)) (\<lambda>ok t.
       if ok then (Inr (), t) else hash_write t k v (VarKeyHash k))"

lemma into_hash:
  assumes t: "tinv t" and r: "(case k of VInt i \<Rightarrow> TableArrSetInt t i v | _ \<Rightarrow> (Inr False, t)) = (Inr False, u)"
  shows "u = t" "off_array t k" "v \<noteq> VNil \<Longrightarrow> beyond t k"
proof -
  have "u = t \<and> off_array t k \<and> (v \<noteq> VNil \<longrightarrow> beyond t k)"
  proof (cases "\<exists>i. k = VInt i")
    case True
    then obtain i where i: "k = VInt i" ..
    with TableArrSetInt_ok [OF t, of i v] r show ?thesis by (auto simp: off_array_def beyond_def)
  next
    case False
    then have "u = t" using r by (cases k) auto
    then show ?thesis using False by (auto simp: off_array_def beyond_def split: cvar.splits)
  qed
  then show "u = t" "off_array t k" "v \<noteq> VNil \<Longrightarrow> beyond t k" by auto
qed

lemma host_write_plain:
  assumes t: "tinv t" and key: "key_ok k" and r: "host_write t k v = (r, u)"
  shows "plain u"
proof -
  obtain ok w where w: "(case k of VInt i \<Rightarrow> TableArrSetInt t i v | _ \<Rightarrow> (Inr False, t)) = (ok, w)" by fastforce
  have "plain w" using w t array_write_plain [OF t] by (cases k) (auto simp: tinv_def core_def)
  then show ?thesis
    using r w into_hash [OF t, where k = k and v = v and u = w] hash_write_plain [OF t key, where v = v and r = r and u = u]
    by (auto simp: host_write_def tbind_def split: sum.splits if_splits)
qed

lemma write_eq:
  assumes t: "tinv t" and key: "key_ok k"
    and put: "off_array t k \<Longrightarrow> (v \<noteq> VNil \<Longrightarrow> beyond t k) \<Longrightarrow> put t = hash_write t k v (VarKeyHash k)"
  shows "tbind (case k of VInt i \<Rightarrow> FlArrSetInt t i v | _ \<Rightarrow> (Inr False, t)) (\<lambda>ok t. if ok then (Inr (), t) else put t) =
    host_write t k v"
  unfolding host_write_def
proof (rule tbind_cong)
  have "hash_ok t" using t by (simp add: tinv_def core_def)
  then show "(case k of VInt i \<Rightarrow> FlArrSetInt t i v | _ \<Rightarrow> (Inr False, t)) =
      (case k of VInt i \<Rightarrow> TableArrSetInt t i v | _ \<Rightarrow> (Inr False, t))"
    using FlArrSetInt_eq by (cases k) auto
next
  fix ok u
  assume r: "(case k of VInt i \<Rightarrow> TableArrSetInt t i v | _ \<Rightarrow> (Inr False, t)) = (Inr ok, u)"
  show "(if ok then (Inr (), u) else put u) = (if ok then (Inr (), u) else hash_write u k v (VarKeyHash k))"
  proof (cases ok)
    case False
    with r have "(case k of VInt i \<Rightarrow> TableArrSetInt t i v | _ \<Rightarrow> (Inr False, t)) = (Inr False, u)" by simp
    from into_hash [OF t this] put show ?thesis by auto
  qed simp
qed

lemma NormalizeTableKey_twice: "NormalizeTableKey (NormalizeTableKey k) = NormalizeTableKey k"
  by (cases k) (auto split: option.splits)

lemma SetTable_host_write:
  assumes t: "tinv t" and k: "usable k" and const: "flag \<longrightarrow> ca"
  shows "SetTable env ca flag t k v = tbind (host_write t (NormalizeTableKey k) v) (\<lambda>_ t. (Inr (),
    case NormalizeTableKey k of VInt i \<Rightarrow> SeqNoteIntSet env t i (v = VNil) | _ \<Rightarrow> t))"
  using usable_key_ok [OF k] const
  by (auto simp: SetTable_def CheckConstTable_def plain_spec [OF t] host_write_def tbind_assoc Let_def intro!: tbind_cong)

lemma FlSetTable_eq:
  assumes t: "tinv t" and k: "usable k" and const: "flag \<longrightarrow> ca"
  shows "FlSetTable env (\<not> ca) flag t k v = SetTable env ca flag t k v"
proof -
  let ?k = "NormalizeTableKey k"
  note ok = usable_key_ok [OF k]
  have "FlSetTableImpl env (\<not> ca) flag t ?k v = tbind (case ?k of VInt i \<Rightarrow> FlArrSetInt t i v | _ \<Rightarrow> (Inr False, t)) (\<lambda>ok t.
      if ok then (Inr (), t) else FlHashSet t ?k v)"
    using ok const by (auto simp: FlSetTableImpl_def c_agree NormalizeTableKey_twice const_check_eq CheckConstTable_def
        plain_spec [OF t] Let_def)
  also have "\<dots> = host_write t ?k v"
    by (rule write_eq [OF t ok(1)]) (rule FlHashSet_eq [OF t ok(1)])
  finally have w: "FlSetTableImpl env (\<not> ca) flag t ?k v = host_write t ?k v" .
  show ?thesis
    unfolding SetTable_host_write [OF t k const] FlSetTable_def c_agree Let_def w
  proof (rule tbind_cong [OF refl])
    fix x u
    assume "host_write t ?k v = (Inr x, u)"
    then have "plain u" by (rule host_write_plain [OF t ok(1)])
    then show "(Inr (), case ?k of VInt i \<Rightarrow> FlSeqNoteIntSet env u i (v = VNil) | _ \<Rightarrow> u) =
      (Inr (), case ?k of VInt i \<Rightarrow> SeqNoteIntSet env u i (v = VNil) | _ \<Rightarrow> u)"
      by (cases ?k) (simp_all add: seq_agrees)
  qed
qed

lemma SetTableInt_host_write:
  assumes t: "tinv t" and const: "flag \<longrightarrow> ca"
  shows "SetTableInt env ca flag t i v =
    tbind (host_write t (VInt i) v) (\<lambda>_ t. (Inr (), SeqNoteIntSet env t i (v = VNil)))"
  using const
  by (auto simp: SetTableInt_def CheckConstTable_def plain_spec [OF t] host_write_def tbind_assoc Let_def intro!: tbind_cong)

lemma FlSetTableIntImpl_eq:
  assumes t: "tinv t" and const: "flag \<longrightarrow> ca"
  shows "FlSetTableIntImpl env (\<not> ca) flag t i v = host_write t (VInt i) v"
proof -
  let ?put = "\<lambda>t. if v = VNil then FlHashSet t (VInt i) v
    else hash_put_c (int_key_is (IntKeyHash i) i) t (VInt i) v (IntKeyHash i)"
  have "?put t = hash_write t (VInt i) v (VarKeyHash (VInt i))" if "v \<noteq> VNil \<Longrightarrow> beyond t (VInt i)"
    using FlHashSet_eq [OF t, of "VInt i" v] hash_put_eq [OF t, of "VInt i" v "int_key_is (IntKeyHash i) i"] that
    by (cases "v = VNil") (simp_all add: int_key_is_canon hash_write_def)
  from write_eq [OF t, of "VInt i" v ?put, OF _ this] show ?thesis
    using const unfolding FlSetTableIntImpl_def Let_def int_key_is_c
    by (auto simp: const_check_eq CheckConstTable_def plain_spec [OF t])
qed

text \<open>The fast path may leave the cached length alone: replacing one value by another does not move the border.\<close>

lemma fast_path_keeps_length:
  assumes t: "table_inv t" and idx: "unat (i - 1) < arr_size t" "arr t ! unat (i - 1) \<noteq> VNil"
  shows "SeqNoteIntSet env (t\<lparr>arr := a\<rparr>) i False = t\<lparr>arr := a\<rparr>"
proof (cases "seq_len_valid t")
  case True
  have ti: "tinv t" using t by (simp add: table_inv_def)
  have "tmap t (VInt i) \<noteq> None" using idx by (simp add: tmap_def arr_val_def)
  then have no: "\<not> (sint (seq_len t) < 9223372036854775807 \<and> i = seq_len t + 1)"
    using t True by (auto simp: table_inv_def seq_ok_def first_border_def)
  have "SeqCacheable (t\<lparr>arr := a\<rparr>)" using plain_spec(5) [OF ti] by (simp add: SeqCacheable_def)
  then show ?thesis using no by (simp add: SeqNoteIntSet_def del: SeqScanFrom.simps de_Morgan_conj not_less)
qed (simp add: SeqNoteIntSet_def)

lemma FlSetTableInt_eq:
  assumes t: "table_inv t" and const: "flag \<longrightarrow> ca"
  shows "FlSetTableInt env (\<not> ca) flag t i v = SetTableInt env ca flag t i v"
proof -
  have ti: "tinv t" using t by (simp add: table_inv_def)
  show ?thesis
  proof (cases "unat (i - 1) < arr_size t \<and> v \<noteq> VNil \<and> arr t ! unat (i - 1) \<noteq> VNil")
    case True
    then show ?thesis using const fast_path_keeps_length [OF t]
      by (auto simp: FlSetTableInt_def SetTableInt_host_write [OF ti const] host_write_def TableArrSetInt_def Let_def)
  next
    case False
    then have "FlSetTableInt env (\<not> ca) flag t i v =
        tbind (host_write t (VInt i) v) (\<lambda>_ t. (Inr (), FlSeqNoteIntSet env t i (v = VNil)))"
      by (auto simp: FlSetTableInt_def FlSetTableIntImpl_eq [OF ti const] Let_def)
    also have "\<dots> = SetTableInt env ca flag t i v"
      unfolding SetTableInt_host_write [OF ti const]
      by (rule tbind_cong [OF refl]) (simp add: seq_agrees host_write_plain [OF ti, of "VInt i"])
    finally show ?thesis .
  qed
qed

lemma set_unboxed_eq: "v \<noteq> VNil \<Longrightarrow> set_unboxed env init flag t i v = FlSetTableInt env init flag t i v"
  by (simp add: set_unboxed_def FlSetTableInt_def cong: if_cong)

lemma str_key_is_c: "str_key_is_c h s e \<longleftrightarrow> e_hash e = h \<and> key_match_str (e_key e) s"
  by (cases "e_key e") (auto simp: str_key_is_c_def)

lemma str_key_canon: "entry_ok e \<Longrightarrow> str_key_is_c (HashOf s) s e \<longleftrightarrow> canon (e_key e) = VString s"
  by (cases "e_key e") (auto simp: str_key_is_c_def entry_ok_def)

lemma FlSetTableStrId_eq:
  assumes t: "tinv t" and const: "flag \<longrightarrow> ca"
  shows "FlSetTableStrId env (\<not> ca) flag t s v = SetTableStrId ca flag t s v"
proof -
  let ?k = "VStringId s"
  have off: "off_array t ?k" "beyond t ?k" by (simp_all add: off_array_def beyond_def)
  have host: "SetTableStrId ca flag t s v = hash_write t ?k v (HashOf s)"
    using const by (auto simp: SetTableStrId_def CheckConstTable_def)
  have no: "FlArrResizeInsert u ?k v = (Inr False, u)" for u by (simp add: FlArrResizeInsert_def)
  have ins: "str_insert_c u ?k v h = hash_insert_c u ?k v h" for u h
    by (simp add: str_insert_c_def hash_insert_c_def no Let_def)
  show ?thesis
  proof (cases "v = VNil")
    case True
    have "FlSetTable env (\<not> ca) False t ?k VNil = SetTable env ca False t ?k VNil"
      by (rule FlSetTable_eq [OF t]) (simp_all add: usable_def is_nan_key_def)
    also have "\<dots> = hash_write t ?k VNil (HashOf s)"
      unfolding SetTable_def CheckConstTable_def
      by (auto simp: is_nan_key_def plain_spec [OF t] tbind_def split: prod.splits sum.splits)
    finally show ?thesis
      using const host unfolding True by (auto simp: FlSetTableStrId_def const_check_eq CheckConstTable_def plain_spec [OF t])
  next
    case False
    have "FlSetTableStrId env (\<not> ca) flag t s v = hash_put_c (str_key_is_c (HashOf s) s) t ?k v (HashOf s)"
      using False
      by (simp add: FlSetTableStrId_def const_check_ok [OF const] plain_spec [OF t] hash_put_c_def no ins c_agree Let_def
          split: option.split)
    also have "\<dots> = TableSetNonNil t ?k v (HashOf s)"
      using hash_put_eq [OF t, of ?k v "str_key_is_c (HashOf s) s"] False off by (simp add: str_key_canon)
    finally show ?thesis using False by (simp add: host hash_write_def)
  qed
qed

section \<open>Reads\<close>

lemma FlGetTable_eq:
  assumes t: "tinv t" and k: "usable k"
  shows "FlGetTable env t k = GetTable env t k"
proof -
  let ?k = "NormalizeTableKey k"
  note ok = usable_key_ok [OF k]
  have h: "hash_ok t" using t by (simp add: tinv_def core_def)
  have "hash_get_c t (VarKeyHash ?k) (key_is (VarKeyHash ?k) ?k) = hash_lookup t (VarKeyHash ?k) (key_is (VarKeyHash ?k) ?k)"
    by (rule hash_get_eq [OF h refl key_is_iff [OF ok(1)]])
  then show ?thesis
    using ok(2,3) by (simp add: FlGetTable_def GetTable_def c_agree plain_spec [OF t] Let_def)
qed

lemma FlGetTableInt_eq:
  assumes t: "tinv t"
  shows "FlGetTableInt env t i = GetTableInt env t i"
proof (cases "unat (i - 1) < arr_size t")
  case True
  then show ?thesis by (simp add: FlGetTableInt_def GetTableInt_def)
next
  case False
  have h: "hash_ok t" using t by (simp add: tinv_def core_def)
  have "FlGetTableInt env t i = map_val (hmap t) (VInt i)"
    using False by (simp add: FlGetTableInt_def plain_spec [OF t] FlHashGetInt_eq [OF h] TableHashGetInt_ok [OF h] map_val_def)
  then show ?thesis using GetTableInt_off [OF tinv_core [OF t]] False by simp
qed

lemma FlGetTableStrId_eq:
  assumes t: "tinv t"
  shows "FlGetTableStrId env t s = GetTableStrId env t s"
proof -
  have h: "hash_ok t" using t by (simp add: tinv_def core_def)
  have "hash_get_c t (HashOf s) (str_key_is_c (HashOf s) s) = hash_lookup t (HashOf s) (str_key_is_c (HashOf s) s)"
    by (rule hash_get_eq [OF h, of _ "VString s"]) (simp_all add: str_key_canon, simp add: str_key_is_c_def)
  then show ?thesis
    by (simp add: FlGetTableStrId_def GetTableStrId_def plain_spec [OF t] c_agree Let_def str_key_is_c [abs_def])
qed

lemma GET_TABLE_ENTRY_eq:
  assumes t: "tinv t"
  shows "GET_TABLE_ENTRY t n = (case entry_at t n of Some kv \<Rightarrow> kv | None \<Rightarrow> (VNil, VNil))"
proof -
  have "spec_count t = 0" using t by (simp add: tinv_def core_def plain_def)
  moreover have "active_list t \<noteq> []" if "bucket_count t \<noteq> 0" "0 < tbl_count t"
    using t that by (auto simp: tinv_def core_def hash_ok_def bucket_inv_def hash_inv_def active_ok_def)
  ultimately show ?thesis by (auto simp: GET_TABLE_ENTRY_def entry_at_def Let_def)
qed

text \<open>Writing to a constant table outside the initialisation is the same error on both sides.\<close>

lemma const_write_eq:
  assumes k: "usable k" and const: "flag" "\<not> ca"
  shows "FlSetTable env True flag t k v = SetTable env ca flag t k v"
    "FlSetTableInt env True flag t i v = SetTableInt env ca flag t i v"
    "FlSetTableStrId env True flag t s v = SetTableStrId ca flag t s v"
  using usable_key_ok [OF k] const
  by (simp_all add: FlSetTable_def FlSetTableImpl_def SetTable_def FlSetTableInt_def FlSetTableIntImpl_def SetTableInt_def
      FlSetTableStrId_def SetTableStrId_def FL_CHECK_CONST_TABLE_def CheckConstTable_def c_agree NormalizeTableKey_twice Let_def)

section \<open>Properties\<close>

text \<open>
  C9. Generated code and the host agree on every table: on a well-formed table and a key a program can use, each
  access of the C runtime returns what the host's access returns, raises the same exception, and leaves the very
  same object behind, array part, buckets, chains, free list and cached length included. This holds for reads
  and writes by value, by integer and by interned string, for the length and for enumeration.
\<close>
theorem c_runtime_tables_agree:
  assumes "table_inv t" and "usable k"
  shows "FlGetTable env t k = GetTable env t k \<and>
    FlGetTableInt env t i = GetTableInt env t i \<and>
    FlGetTableStrId env t s = GetTableStrId env t s \<and>
    FlSetTable env (\<not> ca) flag t k v = SetTable env ca flag t k v \<and>
    FlSetTableInt env (\<not> ca) flag t i v = SetTableInt env ca flag t i v \<and>
    FlSetTableInt_Int env (\<not> ca) flag t i w = SetTableInt env ca flag t i (VInt w) \<and>
    FlSetTableInt_Float env (\<not> ca) flag t i d = SetTableInt env ca flag t i (VFloat d) \<and>
    FlSetTableInt_Bool env (\<not> ca) flag t i b = SetTableInt env ca flag t i (VBool b) \<and>
    FlSetTableStrId env (\<not> ca) flag t s v = SetTableStrId ca flag t s v \<and>
    FlGetTableSeqLen env t = GetTableLen env t \<and>
    GET_TABLE_ENTRY t n = (case entry_at t n of Some kv \<Rightarrow> kv | None \<Rightarrow> (VNil, VNil))"
proof -
  have t: "tinv t" "plain t" using assms(1) by (simp_all add: table_inv_def tinv_def core_def)
  have w: "FlSetTable env (\<not> ca) flag t k v = SetTable env ca flag t k v \<and>
      FlSetTableInt env (\<not> ca) flag t i v = SetTableInt env ca flag t i v \<and>
      FlSetTableStrId env (\<not> ca) flag t s v = SetTableStrId ca flag t s v" for v
  proof (cases "flag \<longrightarrow> ca")
    case True
    then show ?thesis
      by (intro conjI FlSetTable_eq [OF t(1) assms(2)] FlSetTableInt_eq [OF assms(1)] FlSetTableStrId_eq [OF t(1)])
  next
    case False
    then show ?thesis using const_write_eq [OF assms(2), of flag ca] by simp
  qed
  show ?thesis
    using assms t by (simp add: w FlGetTable_eq FlGetTableInt_eq FlGetTableStrId_eq
        FlSetTableInt_Int_def FlSetTableInt_Float_def FlSetTableInt_Bool_def set_unboxed_eq
        seq_agrees GET_TABLE_ENTRY_eq)
qed

text \<open>No accessor of a specialised table says anything.\<close>

definition silent_env :: spec_env where
  "silent_env = \<lparr>call_get = \<lambda>_ _ _. None, call_set = \<lambda>_ _ _ _. None\<rparr>"

theorem c_runtime_tables_agree_witness:
  "FlGetTable silent_env CreateTable (VInt 1) = GetTable silent_env CreateTable (VInt 1) \<and>
   FlSetTable silent_env True False CreateTable (VInt 1) (VInt 5) = SetTable silent_env False False CreateTable (VInt 1) (VInt 5) \<and>
   FlGetTableSeqLen silent_env CreateTable = GetTableLen silent_env CreateTable"
  using c_runtime_tables_agree [of CreateTable "VInt 1" silent_env _ _ False False "VInt 5"] CreateTable_inv
  by (simp add: usable_def is_nan_key_def)

text \<open>A table that is written by the interpreter and by generated code in turn.\<close>

datatype engine = Interpreter | Generated

definition write_by :: "spec_env \<Rightarrow> bool \<Rightarrow> bool \<Rightarrow> engine \<Rightarrow> VarTable \<Rightarrow> cvar \<Rightarrow> cvar \<Rightarrow> unit tstep" where
  "write_by env ca flag e t k v =
     (case e of
        Interpreter \<Rightarrow> SetTable env ca flag t k v
      | Generated \<Rightarrow> FlSetTable env (\<not> ca) flag t k v)"

fun write_all :: "spec_env \<Rightarrow> bool \<Rightarrow> bool \<Rightarrow> VarTable \<Rightarrow> (engine \<times> cvar \<times> cvar) list \<Rightarrow> unit tstep" where
  "write_all env ca flag t [] = (Inr (), t)"
| "write_all env ca flag t ((e, k, v) # ws) = tbind (write_by env ca flag e t k v) (\<lambda>_ t. write_all env ca flag t ws)"

definition read_by :: "spec_env \<Rightarrow> engine \<Rightarrow> VarTable \<Rightarrow> cvar \<Rightarrow> cvar result" where
  "read_by env e t k = (case e of Interpreter \<Rightarrow> GetTable env t k | Generated \<Rightarrow> FlGetTable env t k)"

lemma write_all_ok:
  assumes "table_inv t" "flag \<longrightarrow> ca" "list_all (\<lambda>(e, k, v). usable k) ws" "write_all env ca flag t ws = (Inr (), t')"
  shows "table_inv t' \<and> tmap t' = foldl (\<lambda>m (e, k, v). m(tkey k := val_opt v)) (tmap t) ws"
  using assms
proof (induction ws arbitrary: t)
  case (Cons w ws)
  obtain e k v where w: "w = (e, k, v)" by (cases w)
  have k: "usable k" using Cons.prems(3) w by simp
  have t: "tinv t" using Cons.prems(1) by (simp add: table_inv_def)
  have wr: "write_by env ca flag e t k v = SetTable env ca flag t k v"
    using FlSetTable_eq [OF t k Cons.prems(2)] by (cases e) (simp_all add: write_by_def)
  obtain r u where u: "SetTable env ca flag t k v = (r, u)" by fastforce
  obtain x where "r = Inr x" using Cons.prems(4) w wr u by (cases r) auto
  then have u': "SetTable env ca flag t k v = (Inr x, u)" using u by simp
  have "table_inv u" "tmap u = (tmap t)(tkey k := val_opt v)"
    using SetTable_ok [OF Cons.prems(1,2) k, of v env] unfolding u' by (simp_all add: stores_def)
  with Cons.IH [of u] Cons.prems w wr u' show ?case by simp
qed simp

text \<open>
  C10. A table shared between the interpreter and generated code is one map: after any sequence of writes that
  do not hit the allocator's limit, in whatever order the two engines make them, a read by either engine
  returns the last value written under the key.
\<close>
theorem mixed_history_is_one_map:
  assumes "table_inv t" and "flag \<longrightarrow> ca" and "list_all (\<lambda>(e, k, v). usable k) ws"
    and "write_all env ca flag t ws = (Inr (), t')" and "usable j"
  shows "read_by env reader t' j =
    Inr (map_val (foldl (\<lambda>m (e, k, v). m(tkey k := val_opt v)) (tmap t) ws) (tkey j))"
proof -
  from write_all_ok [OF assms(1-4)] have "table_inv t'"
    and m: "tmap t' = foldl (\<lambda>m (e, k, v). m(tkey k := val_opt v)) (tmap t) ws" by auto
  then have "tinv t'" by (simp add: table_inv_def)
  with FlGetTable_eq [OF this assms(5)] GetTable_ok [OF this assms(5)] m show ?thesis
    by (cases reader) (simp_all add: read_by_def)
qed

lemma mixed_history_is_one_map_witness:
  "\<exists>t. write_all silent_env False False CreateTable [(Generated, VString ''a'', VInt 5), (Interpreter, VStringId ''a'', VInt 7)] =
      (Inr (), t) \<and> read_by silent_env Generated t (VString ''a'') = Inr (VInt 7)"
proof -
  let ?ws = "[(Generated, VString ''a'', VInt 5), (Interpreter, VStringId ''a'', VInt 7)]"
  have "take (Suc 0) ((replicate 8 nil_entry)[0 := e]) = [e]" for e by (simp add: eval_nat_numeral)
  then obtain t where r: "write_all silent_env False False CreateTable ?ws = (Inr (), t)"
    by (simp add: write_by_def spec_set_call_def FlSetTable_def FlSetTableImpl_def SetTable_def FL_CHECK_CONST_TABLE_def CheckConstTable_def
        FlHashSet_def hash_put_c_def hash_write_def TableSetNonNil_def CreateTable_def quick_push_def c_agree
        QUICK_DATA_SIZE_def is_nan_key_def key_is_def Let_def)
  have u: "usable (VString ''a'')" "usable (VStringId ''a'')" by (simp_all add: usable_def is_nan_key_def)
  have "table_inv CreateTable" "tmap CreateTable = Map.empty" using CreateTable_inv by blast+
  then show ?thesis
    using r u mixed_history_is_one_map [of CreateTable False False ?ws silent_env t "VString ''a''" Generated]
    by (simp add: map_val_def val_opt_def tkey_def)
qed

end
