(* ===== verification/Scopes.thy ===== *)
theory Scopes
imports Codegen
begin

text \<open>
  Name resolution of the bytecode generator: \<open>InterpCodegen::ResolveScopes\<close> (\<open>interp/codegen.cpp\<close>). It walks the
  tree once with a stack of scopes, gives every use of a name its definition, and records for every function the
  variables of enclosing functions that it or its inner functions use. Definitions and functions are numbered in
  the order of their creation, which stands for the pointers of the code; a function of the tree is found by the
  node of its \<open>Function\<close>, \<open>LocalFunction\<close> or \<open>FunctionDef\<close>. No result means undefined behaviour of the code
  (an empty scope stack, a cycle of parents) or too little fuel for the nesting of functions.
\<close>

section \<open>Functions of the tree\<close>

record lua_fun =
  lf_name :: string
  lf_parlist :: node
  lf_params :: "string list"
  lf_body :: "stmt list option"

type_synonym program = "node \<Rightarrow> lua_fun"

datatype fun_site = AtFunction node | AtLocal node string | AtLambda node

fun site_node :: "fun_site \<Rightarrow> node" where
  "site_node (AtFunction n) = n"
| "site_node (AtLocal n _) = n"
| "site_node (AtLambda n) = n"

section \<open>State\<close>

record func_info =
  fn_node :: node
  fn_parent :: "nat option"
  fn_name :: string
  fn_unique :: string
  fn_params :: "string list"
  fn_vararg :: bool
  fn_captured :: "nat list"

record scopes =
  sc_vars :: "(string \<Rightarrow> nat option) list"
  func_stack :: "nat list"
  all_defs :: "VarDef list"
  all_funcs :: "func_info list"
  func_map :: "node \<Rightarrow> nat option"
  var_to_def :: "node \<Rightarrow> nat option"
  stmt_var_to_def :: "node \<Rightarrow> string \<Rightarrow> nat option"

definition no_scopes :: scopes where
  "no_scopes = \<lparr>sc_vars = [], func_stack = [], all_defs = [], all_funcs = [], func_map = (\<lambda>_. None), var_to_def = (\<lambda>_. None),
     stmt_var_to_def = (\<lambda>_ _. None)\<rparr>"

type_synonym rs = "scopes \<Rightarrow> scopes option"

section \<open>Operations\<close>

definition EnterScope :: rs where "EnterScope st = Some (st\<lparr>sc_vars := (\<lambda>_. None) # sc_vars st\<rparr>)"

definition ExitScope :: rs where
  "ExitScope st = (case sc_vars st of [] \<Rightarrow> None | _ # ss \<Rightarrow> Some (st\<lparr>sc_vars := ss\<rparr>))"

definition DefineVar :: "nat option \<Rightarrow> string \<Rightarrow> node \<Rightarrow> bool \<Rightarrow> rs" where
  "DefineVar f name node is_lf st =
     (case sc_vars st of
        [] \<Rightarrow> None
      | s # ss \<Rightarrow>
          (let d = length (all_defs st) in
           Some (st\<lparr>sc_vars := s(name \<mapsto> d) # ss,
              all_defs := all_defs st @ [\<lparr>def_name = name, defining_func = f, is_captured = False, def_local_function = is_lf\<rparr>],
              stmt_var_to_def := (stmt_var_to_def st)(node := (stmt_var_to_def st node)(name \<mapsto> d))\<rparr>)))"

text \<open>The innermost scope that has the name.\<close>

fun find_def :: "(string \<Rightarrow> nat option) list \<Rightarrow> string \<Rightarrow> nat option" where
  "find_def [] name = None"
| "find_def (s # ss) name = (case s name of Some d \<Rightarrow> Some d | None \<Rightarrow> find_def ss name)"

definition add_captured :: "nat \<Rightarrow> func_info \<Rightarrow> func_info" where
  "add_captured d fi = (if d \<in> set (fn_captured fi) then fi else fi\<lparr>fn_captured := fn_captured fi @ [d]\<rparr>)"

text \<open>The walk from the using function up to the defining one.\<close>

fun capture_up :: "nat \<Rightarrow> nat \<Rightarrow> nat \<Rightarrow> nat option \<Rightarrow> func_info list \<Rightarrow> func_info list option" where
  "capture_up n d fd None fs = Some fs"
| "capture_up n d fd (Some p) fs =
     (if p = fd then Some fs
      else case n of
          0 \<Rightarrow> None
        | Suc m \<Rightarrow> capture_up m d fd (fn_parent (fs ! p)) (fs[p := add_captured d (fs ! p)]))"

definition use_var :: "nat option \<Rightarrow> node \<Rightarrow> string \<Rightarrow> rs" where
  "use_var f v name st =
     (case find_def (sc_vars st) name of
        None \<Rightarrow> Some st
      | Some d \<Rightarrow>
          (let st' = st\<lparr>var_to_def := (var_to_def st)(v \<mapsto> d)\<rparr> in
           case defining_func (all_defs st ! d) of
             None \<Rightarrow> Some st'
           | Some fd \<Rightarrow>
               if f = Some fd then Some st'
               else map_option
                 (\<lambda>fs. st'\<lparr>all_defs := (all_defs st)[d := (all_defs st ! d)\<lparr>is_captured := True\<rparr>], all_funcs := fs\<rparr>)
                 (capture_up (length (all_funcs st)) d fd f (all_funcs st))))"

definition site_params :: "program \<Rightarrow> fun_site \<Rightarrow> string list" where
  "site_params prog site =
     (let lf = prog (site_node site) in if lf_body lf = None then [] else lf_params lf)"

definition new_func :: "program \<Rightarrow> nat option \<Rightarrow> fun_site \<Rightarrow> rs" where
  "new_func prog f site st =
     (let k = length (all_funcs st);
          node = site_node site;
          orig_name = (case site of
              AtFunction _ \<Rightarrow> lf_name (prog node)
            | AtLocal _ name \<Rightarrow> name
            | AtLambda _ \<Rightarrow> ''__fakelua_lambda_'' @ dec_digits k);
          params = site_params prog site
      in Some (st\<lparr>all_funcs := all_funcs st @
             [\<lparr>fn_node = node, fn_parent = f, fn_name = orig_name,
               fn_unique = (if f \<noteq> None then ''__fl_func_'' @ dec_digits k else orig_name),
               fn_params = params, fn_vararg = (params \<noteq> [] \<and> is_vararg_name (last params)), fn_captured = []\<rparr>],
           func_map := (func_map st)(node \<mapsto> k)\<rparr>))"

section \<open>The walk\<close>

text \<open>
  What the walk does to the state, one operation after another; \<open>Open\<close> and \<open>Close\<close> bracket a function. \<open>TooDeep\<close>
  ends a walk that has no fuel for an inner function.
\<close>

datatype action = Enter | Leave | Define string node | Use node string | Open fun_site | Close | TooDeep

definition in_scope :: "action list \<Rightarrow> action list" where "in_scope as = Enter # as @ [Leave]"

definition define_all :: "node \<Rightarrow> string list \<Rightarrow> action list" where
  "define_all node names = map (\<lambda>x. Define x node) names"

text \<open>Expressions in the order of the cases; \<open>h\<close> is the walk of an inner function.\<close>

function (sequential)
  walk_exp :: "(fun_site \<Rightarrow> action list) \<Rightarrow> exp \<Rightarrow> action list" and
  walk_pexp :: "(fun_site \<Rightarrow> action list) \<Rightarrow> pexp \<Rightarrow> action list" and
  walk_var :: "(fun_site \<Rightarrow> action list) \<Rightarrow> var \<Rightarrow> action list" and
  walk_call :: "(fun_site \<Rightarrow> action list) \<Rightarrow> call \<Rightarrow> action list" and
  walk_args :: "(fun_site \<Rightarrow> action list) \<Rightarrow> args \<Rightarrow> action list" and
  walk_field :: "(fun_site \<Rightarrow> action list) \<Rightarrow> field \<Rightarrow> action list" and
  walk_exps :: "(fun_site \<Rightarrow> action list) \<Rightarrow> exp list \<Rightarrow> action list" and
  walk_fields :: "(fun_site \<Rightarrow> action list) \<Rightarrow> field list \<Rightarrow> action list"
where
  "walk_exp h e =
     (case e of
        EFunctionDef n \<Rightarrow> h (AtLambda n)
      | EPrefix p \<Rightarrow> walk_pexp h p
      | ETable fs \<Rightarrow> walk_fields h fs
      | EBinop _ a b \<Rightarrow> walk_exp h a @ walk_exp h b
      | EUnop _ a \<Rightarrow> walk_exp h a
      | _ \<Rightarrow> [])"
| "walk_pexp h (PVar v) = walk_var h v"
| "walk_pexp h (PCall c) = walk_call h c"
| "walk_pexp h (PExp e) = walk_exp h e"
| "walk_var h (SimpleVar v name) = [Use v name]"
| "walk_var h (SquareVar p e) = walk_pexp h p @ walk_exp h e"
| "walk_var h (DotVar p _) = walk_pexp h p"
| "walk_call h (Call _ p _ a) = walk_pexp h p @ walk_args h a"
| "walk_args h (ArgsExpList es) = walk_exps h es"
| "walk_args h ArgsEmpty = []"
| "walk_args h (ArgsTable fs) = walk_fields h fs"
| "walk_args h (ArgsString e) = walk_exp h e"
| "walk_field h (FObject _ e) = walk_exp h e"
| "walk_field h (FKey k e) = walk_exp h k @ walk_exp h e"
| "walk_field h (FArray e) = walk_exp h e"
| "walk_exps h [] = []"
| "walk_exps h (e # es) = walk_exp h e @ walk_exps h es"
| "walk_fields h [] = []"
| "walk_fields h (x # xs) = walk_field h x @ walk_fields h xs"
  by pat_completeness auto

termination
  by (relation "measure (case_sum
        (case_sum (case_sum (\<lambda>(_, e). size e) (\<lambda>(_, p). size p)) (case_sum (\<lambda>(_, v). size v) (\<lambda>(_, c). size c)))
        (case_sum (case_sum (\<lambda>(_, a). size a) (\<lambda>(_, x). size x))
          (case_sum (\<lambda>(_, es). size_list size es) (\<lambda>(_, fs). size_list size fs))))")
    auto

function (sequential)
  walk_stmt :: "(fun_site \<Rightarrow> action list) \<Rightarrow> stmt \<Rightarrow> action list" and
  walk_stmts :: "(fun_site \<Rightarrow> action list) \<Rightarrow> stmt list \<Rightarrow> action list" and
  walk_elseifs :: "(fun_site \<Rightarrow> action list) \<Rightarrow> (exp \<times> stmt list) list \<Rightarrow> action list"
where
  "walk_stmt h s =
     (case s of
        SReturn es \<Rightarrow> walk_exps h es
      | SLocalVar node names es \<Rightarrow> walk_exps h es @ define_all node names
      | SAssign v e \<Rightarrow> walk_var h v @ walk_exp h e
      | SCall c \<Rightarrow> walk_call h c
      | SBlock ss \<Rightarrow> in_scope (walk_stmts h ss)
      | SWhile e ss \<Rightarrow> walk_exp h e @ in_scope (walk_stmts h ss)
      | SRepeat ss e \<Rightarrow> in_scope (walk_stmts h ss @ walk_exp h e)
      | SIf e ss eifs el \<Rightarrow>
          walk_exp h e @ in_scope (walk_stmts h ss) @ walk_elseifs h eifs @
          (case el of None \<Rightarrow> [] | Some ts \<Rightarrow> in_scope (walk_stmts h ts))
      | SForLoop node name b e st ss \<Rightarrow>
          walk_exp h b @ walk_exp h e @ (case st of None \<Rightarrow> [] | Some x \<Rightarrow> walk_exp h x) @
          in_scope (Define name node # in_scope (walk_stmts h ss))
      | SForIn node names es ss \<Rightarrow> walk_exps h es @ in_scope (define_all node names @ in_scope (walk_stmts h ss))
      | SLocalFunction node name \<Rightarrow> h (AtLocal node name)
      | SFunction node \<Rightarrow> h (AtFunction node)
      | _ \<Rightarrow> [])"
| "walk_stmts h [] = []"
| "walk_stmts h (s # ss) = walk_stmt h s @ walk_stmts h ss"
| "walk_elseifs h [] = []"
| "walk_elseifs h ((e, ss) # rest) = walk_exp h e @ in_scope (walk_stmts h ss) @ walk_elseifs h rest"
  by pat_completeness auto

termination
  by (relation "measure (case_sum (\<lambda>(_, s). 2 * size s)
       (case_sum (\<lambda>(_, ss). 2 * size_list size ss + 1) (\<lambda>(_, bs). 2 * size_list (size_prod (\<lambda>x. 0) (size_list size)) bs + 1)))")
    auto

text \<open>A function: its parameters and its block, which has a scope of its own.\<close>

fun walk_function :: "program \<Rightarrow> nat \<Rightarrow> fun_site \<Rightarrow> action list" where
  "walk_function prog 0 site = [TooDeep]"
| "walk_function prog (Suc n) site =
     (let lf = prog (site_node site) in
      Open site #
        (case lf_body lf of
           None \<Rightarrow> []
         | Some ss \<Rightarrow> define_all (lf_parlist lf) (lf_params lf) @ in_scope (walk_stmts (walk_function prog n) ss)) @
        [Close])"

definition walk_chunk :: "program \<Rightarrow> nat \<Rightarrow> stmt list \<Rightarrow> action list" where
  "walk_chunk prog n chunk = in_scope (walk_stmts (walk_function prog n) chunk)"

text \<open>The current function is the top of the stack of functions.\<close>

definition cur :: "nat list \<Rightarrow> nat option" where "cur fs = (case fs of [] \<Rightarrow> None | f # _ \<Rightarrow> Some f)"

definition open_func :: "program \<Rightarrow> fun_site \<Rightarrow> rs" where
  "open_func prog site st =
     (let pf = length (all_funcs st) in
      Option.bind (new_func prog (cur (func_stack st)) site st) (\<lambda>st.
      Option.bind (case site of AtLocal node name \<Rightarrow> DefineVar (cur (func_stack st)) name node True st | _ \<Rightarrow> Some st) (\<lambda>st.
      EnterScope (st\<lparr>func_stack := pf # func_stack st\<rparr>))))"

definition close_func :: rs where
  "close_func st = map_option (\<lambda>st. st\<lparr>func_stack := tl (func_stack st)\<rparr>) (ExitScope st)"

fun act :: "program \<Rightarrow> action \<Rightarrow> rs" where
  "act prog Enter st = EnterScope st"
| "act prog Leave st = ExitScope st"
| "act prog (Define name node) st = DefineVar (cur (func_stack st)) name node False st"
| "act prog (Use v name) st = use_var (cur (func_stack st)) v name st"
| "act prog (Open site) st = open_func prog site st"
| "act prog Close st = close_func st"
| "act prog TooDeep st = None"

fun run_acts :: "program \<Rightarrow> action list \<Rightarrow> rs" where
  "run_acts prog [] st = Some st"
| "run_acts prog (a # as) st = Option.bind (act prog a st) (run_acts prog as)"

definition ResolveScopes :: "program \<Rightarrow> nat \<Rightarrow> stmt list \<Rightarrow> scopes option" where
  "ResolveScopes prog n chunk = run_acts prog (walk_chunk prog n chunk) no_scopes"

section \<open>What the generator is given\<close>

text \<open>
  The environment in which the function number \<open>i\<close> is compiled. The generator compares functions by the node; the
  parts that other passes provide come from \<open>env\<close>.
\<close>

definition scope_env :: "cg_env \<Rightarrow> scopes \<Rightarrow> nat \<Rightarrow> cg_env" where
  "scope_env env st i = env\<lparr>
     var_def := var_to_def st,
     stmt_def := stmt_var_to_def st,
     def_info := (\<lambda>d. (all_defs st ! d)\<lparr>defining_func := map_option (\<lambda>j. fn_node (all_funcs st ! j)) (defining_func (all_defs st ! d))\<rparr>),
     captured_vars := (\<lambda>node. case func_map st node of Some j \<Rightarrow> fn_captured (all_funcs st ! j) | None \<Rightarrow> []),
     cur_func := fn_node (all_funcs st ! i)\<rparr>"

end
