(* ===== verification/ScopesProps.thy ===== *)
theory ScopesProps
imports Scopes Interp
begin

text \<open>
  What name resolution guarantees. The walk is a bracket sequence; along it the scope stack agrees with a search
  backwards through the walk, the stack of functions is a chain of parents, and the captured variables of a
  function are variables of its parent or captured by it.
\<close>

section \<open>The walk is bracketed\<close>

text \<open>Open brackets from the inside out; the bracket of a function is \<open>True\<close>.\<close>

fun bracket :: "action \<Rightarrow> bool list \<Rightarrow> bool list option" where
  "bracket Enter b = Some (False # b)"
| "bracket (Open _) (x # b) = Some (True # x # b)"
| "bracket Leave (False # b) = Some b"
| "bracket Close (True # b) = Some b"
| "bracket (Define _ _) (x # b) = Some (x # b)"
| "bracket (Use _ _) b = Some b"
| "bracket TooDeep b = Some b"
| "bracket _ _ = None"

fun brackets :: "action list \<Rightarrow> bool list \<Rightarrow> bool list option" where
  "brackets [] b = Some b"
| "brackets (a # as) b = Option.bind (bracket a b) (brackets as)"

definition balanced :: "action list \<Rightarrow> bool" where
  "balanced as \<longleftrightarrow> (\<forall>x b. brackets as (x # b) = Some (x # b))"

lemma brackets_append: "brackets (as @ bs) b = Option.bind (brackets as b) (brackets bs)"
proof (induction as arbitrary: b)
  case (Cons a as)
  then show ?case by (cases "bracket a b") simp_all
qed simp

lemma balanced_simps [simp]:
  "balanced []" "balanced [Use v x]" "balanced [TooDeep]" "balanced (define_all n xs)"
  "balanced as \<Longrightarrow> balanced bs \<Longrightarrow> balanced (as @ bs)"
  "balanced as \<Longrightarrow> balanced (in_scope as)"
  "balanced as \<Longrightarrow> balanced (Open site # as @ [Close])"
  "balanced as \<Longrightarrow> balanced (Define x n # as)"
proof -
  show "balanced (define_all n xs)"
    by (induction xs) (auto simp: balanced_def define_all_def)
qed (auto simp: balanced_def in_scope_def brackets_append)

text \<open>A property of the parts that appending keeps holds of the walk.\<close>

lemma walk_exp_rule:
  fixes Q :: "action list \<Rightarrow> bool"
  assumes "Q []" "\<And>v x. Q [Use v x]" "\<And>xs ys. Q xs \<Longrightarrow> Q ys \<Longrightarrow> Q (xs @ ys)" "\<And>site. Q (h site)"
  shows "Q (walk_exp h e)" "Q (walk_pexp h p)" "Q (walk_var h v)" "Q (walk_call h c)" "Q (walk_args h a)"
    "Q (walk_field h x)" "Q (walk_exps h es)" "Q (walk_fields h xs)"
  using assms(4)
proof (induction h e and h p and h v and h c and h a and h x and h es and h xs
    rule: walk_exp_walk_pexp_walk_var_walk_call_walk_args_walk_field_walk_exps_walk_fields.induct)
  case (1 h e)
  then show ?case using assms(1-3) by (cases e) simp_all
qed (use assms(1-3) in simp_all)

lemma walk_stmt_rule:
  fixes Q :: "action list \<Rightarrow> bool"
  assumes "Q []" "\<And>v x. Q [Use v x]" "\<And>xs ys. Q xs \<Longrightarrow> Q ys \<Longrightarrow> Q (xs @ ys)" "\<And>site. Q (h site)"
    "\<And>xs. Q xs \<Longrightarrow> Q (in_scope xs)" "\<And>n xs. Q (define_all n xs)"
  shows "Q (walk_stmt h s)" "Q (walk_stmts h ss)" "Q (walk_elseifs h bs)"
  using assms(4)
proof (induction h s and h ss and h bs rule: walk_stmt_walk_stmts_walk_elseifs.induct)
  case (1 h s)
  note parts = walk_exp_rule [where Q = Q and h = h, OF assms(1-3) "1.prems"]
  have defs: "Q (Define x n # ys)" if "Q ys" for x n ys
    using assms(3) [OF assms(6) [of n "[x]"] that] by (simp add: define_all_def)
  show ?case
    using 1 assms(1-3,5,6) parts defs by (cases s) (simp_all split: option.split)
next
  case (3 h s ss)
  then show ?case using assms(3) by simp
next
  case (5 h e ss rest)
  then show ?case using assms(3,5) walk_exp_rule(1) [where Q = Q and h = h, OF assms(1-3)] by simp
qed (use assms(1) in simp_all)

lemma balanced_function: "balanced (walk_function prog n site)"
proof (induction n arbitrary: site)
  case (Suc n)
  have "balanced (walk_stmts (walk_function prog n) ss)" for ss
    by (rule walk_stmt_rule) (simp_all add: Suc.IH)
  then show ?case by (auto simp: Let_def split: option.split)
qed simp

lemma brackets_chunk: "brackets (walk_chunk prog n chunk) [] = Some []"
proof -
  have "balanced (walk_stmts (walk_function prog n) chunk)"
    by (rule walk_stmt_rule) (simp_all add: balanced_function)
  then show ?thesis by (simp add: walk_chunk_def in_scope_def balanced_def brackets_append)
qed

section \<open>The invariant of the walk\<close>

definition nth_opt :: "'a list \<Rightarrow> nat \<Rightarrow> 'a option" where
  "nth_opt xs i = (if i < length xs then Some (xs ! i) else None)"

definition trues :: "bool list \<Rightarrow> nat" where "trues b = length (filter id b)"

text \<open>The function that the scope at depth \<open>k\<close> belongs to.\<close>

definition owner :: "bool list \<Rightarrow> nat list \<Rightarrow> nat \<Rightarrow> nat option" where
  "owner b fs k = nth_opt fs (trues (take k b))"

text \<open>The open functions are a chain of parents.\<close>

definition chain_ok :: "nat list \<Rightarrow> func_info list \<Rightarrow> bool" where
  "chain_ok fs funs \<longleftrightarrow> distinct fs \<and>
     (\<forall>k<length fs. fs ! k < length funs \<and> fn_parent (funs ! (fs ! k)) = nth_opt fs (Suc k))"

text \<open>A captured variable is a variable of the parent or captured by the parent.\<close>

definition captured_ok :: "VarDef list \<Rightarrow> func_info list \<Rightarrow> nat \<Rightarrow> bool" where
  "captured_ok defs funs i \<longleftrightarrow>
     distinct (fn_captured (funs ! i)) \<and>
     (\<forall>d \<in> set (fn_captured (funs ! i)). d < length defs \<and> is_captured (defs ! d) \<and> defining_func (defs ! d) \<noteq> Some i \<and>
        (\<exists>p. fn_parent (funs ! i) = Some p \<and> (defining_func (defs ! d) = Some p \<or> d \<in> set (fn_captured (funs ! p)))))"

definition stacks_ok :: "bool list \<Rightarrow> scopes \<Rightarrow> bool" where
  "stacks_ok b st \<longleftrightarrow>
     length (sc_vars st) = length b \<and> length (func_stack st) = trues b \<and> chain_ok (func_stack st) (all_funcs st)"

definition vars_ok :: "bool list \<Rightarrow> scopes \<Rightarrow> bool" where
  "vars_ok b st \<longleftrightarrow>
     (\<forall>k<length b. \<forall>x d. (sc_vars st ! k) x = Some d \<longrightarrow>
        d < length (all_defs st) \<and> defining_func (all_defs st ! d) = owner b (func_stack st) k)"

definition tables_ok :: "VarDef list \<Rightarrow> func_info list \<Rightarrow> (node \<Rightarrow> nat option) \<Rightarrow> bool" where
  "tables_ok defs funs fm \<longleftrightarrow>
     (\<forall>i<length funs. captured_ok defs funs i \<and> fm (fn_node (funs ! i)) \<noteq> None \<and>
        (\<forall>p. fn_parent (funs ! i) = Some p \<longrightarrow> p < i)) \<and>
     (\<forall>d<length defs. \<forall>f. defining_func (defs ! d) = Some f \<longrightarrow> f < length funs) \<and>
     (\<forall>n j. fm n = Some j \<longrightarrow> j < length funs \<and> fn_node (funs ! j) = n)"

definition scope_inv :: "bool list \<Rightarrow> scopes \<Rightarrow> bool" where
  "scope_inv b st \<longleftrightarrow> stacks_ok b st \<and> vars_ok b st \<and> tables_ok (all_defs st) (all_funcs st) (func_map st)"

lemma trues_simps [simp]: "trues [] = 0" "trues (x # b) = (if x then Suc (trues b) else trues b)"
  by (simp_all add: trues_def)

lemma owner_Cons [simp]: "owner (x # b) fs 0 = cur fs" "owner (False # b) fs (Suc k) = owner b fs k"
    "owner (True # b) (f # fs) (Suc k) = owner b fs k"
  by (auto simp: owner_def nth_opt_def cur_def split: list.split)

lemma add_captured_simps [simp]:
  "fn_parent (add_captured d fi) = fn_parent fi" "fn_node (add_captured d fi) = fn_node fi"
  "set (fn_captured (add_captured d fi)) = insert d (set (fn_captured fi))"
  "distinct (fn_captured (add_captured d fi)) = distinct (fn_captured fi)"
  by (auto simp: add_captured_def)

lemma capture_up_ok:
  assumes "chain_ok fs funs" "a \<le> c" "c < length fs" "c - a \<le> n"
  shows "\<exists>funs'. capture_up n d (fs ! c) (Some (fs ! a)) funs = Some funs' \<and> length funs' = length funs \<and>
    (\<forall>i<length funs. funs' ! i = (if i \<in> (!) fs ` {a..<c} then add_captured d (funs ! i) else funs ! i))"
  using assms
proof (induction n arbitrary: a funs)
  case 0
  then show ?case by simp
next
  case (Suc n)
  show ?case
  proof (cases "a = c")
    case False
    let ?p = "fs ! a" and ?u = "funs[fs ! a := add_captured d (funs ! (fs ! a))]"
    have ac: "Suc a \<le> c" using Suc.prems(2) False by simp
    have p: "?p < length funs" "fn_parent (funs ! ?p) = Some (fs ! Suc a)" and dist: "distinct fs"
      using Suc.prems(1,3) ac by (auto simp: chain_ok_def nth_opt_def)
    have ne: "?p \<noteq> fs ! k" if "Suc a \<le> k" "k \<le> c" for k
      using dist that Suc.prems(3) by (simp add: nth_eq_iff_index_eq)
    have "chain_ok fs ?u" using Suc.prems(1) p(1) by (auto simp: chain_ok_def nth_list_update)
    then have "\<exists>funs'. capture_up n d (fs ! c) (Some (fs ! Suc a)) ?u = Some funs' \<and> length funs' = length ?u \<and>
        (\<forall>i<length ?u. funs' ! i = (if i \<in> (!) fs ` {Suc a..<c} then add_captured d (?u ! i) else ?u ! i))"
      using ac Suc.prems(3,4) by (intro Suc.IH) auto
    then obtain funs' where
      u: "capture_up n d (fs ! c) (Some (fs ! Suc a)) ?u = Some funs'" "length funs' = length funs"
        "\<forall>i<length funs. funs' ! i = (if i \<in> (!) fs ` {Suc a..<c} then add_captured d (?u ! i) else ?u ! i)" by (auto simp del: capture_up.simps)
    have "{a..<c} = insert a {Suc a..<c}" using ac by auto
    moreover have "?p \<notin> (!) fs ` {Suc a..<c}"
    proof
      assume "?p \<in> (!) fs ` {Suc a..<c}"
      then obtain k where "?p = fs ! k" "k \<in> {Suc a..<c}" by (rule imageE)
      then show False using ne [of k] by simp
    qed
    ultimately have "\<forall>i<length funs. funs' ! i = (if i \<in> (!) fs ` {a..<c} then add_captured d (funs ! i) else funs ! i)"
      using u(3) p(1) by (auto simp: nth_list_update)
    then show ?thesis using u(1,2) p ne [OF ac] ac by auto
  qed simp
qed

lemma EnterScope_inv:
  assumes "scope_inv b st"
  shows "\<exists>st'. EnterScope st = Some st' \<and> scope_inv (False # b) st'"
proof -
  have "vars_ok (False # b) (st\<lparr>sc_vars := (\<lambda>_. None) # sc_vars st\<rparr>)"
    unfolding vars_ok_def
  proof (intro allI impI)
    fix k x d
    assume "k < length (False # b)" "(sc_vars (st\<lparr>sc_vars := (\<lambda>_. None) # sc_vars st\<rparr>) ! k) x = Some d"
    then show "d < length (all_defs (st\<lparr>sc_vars := (\<lambda>_. None) # sc_vars st\<rparr>)) \<and>
        defining_func (all_defs (st\<lparr>sc_vars := (\<lambda>_. None) # sc_vars st\<rparr>) ! d) =
        owner (False # b) (func_stack (st\<lparr>sc_vars := (\<lambda>_. None) # sc_vars st\<rparr>)) k"
      using assms by (cases k) (auto simp: scope_inv_def vars_ok_def)
  qed
  then show ?thesis using assms by (simp add: EnterScope_def scope_inv_def stacks_ok_def)
qed

lemma chain_ok_tl: "chain_ok (f # fs) funs \<Longrightarrow> chain_ok fs funs"
  unfolding chain_ok_def
proof (elim conjE, intro conjI allI impI)
  fix k assume all: "\<forall>k<length (f # fs). (f # fs) ! k < length funs \<and> fn_parent (funs ! ((f # fs) ! k)) = nth_opt (f # fs) (Suc k)"
    and k: "k < length fs"
  from all [rule_format, of "Suc k"] k show "fs ! k < length funs" "fn_parent (funs ! (fs ! k)) = nth_opt fs (Suc k)"
    by (simp_all add: nth_opt_def)
qed simp

lemma ExitScope_inv:
  assumes "scope_inv (x # b) st"
  shows "\<exists>st'. (if x then close_func st else ExitScope st) = Some st' \<and> scope_inv b st'"
proof -
  have st: "stacks_ok (x # b) st" "vars_ok (x # b) st" "tables_ok (all_defs st) (all_funcs st) (func_map st)"
    using assms by (simp_all add: scope_inv_def)
  obtain s ss where s: "sc_vars st = s # ss" using st(1) by (cases "sc_vars st") (auto simp: stacks_ok_def)
  let ?fs = "if x then tl (func_stack st) else func_stack st"
  let ?u = "st\<lparr>sc_vars := ss, func_stack := ?fs\<rparr>"
  have fs: "x \<Longrightarrow> func_stack st = hd (func_stack st) # tl (func_stack st)"
    using st(1) by (cases "func_stack st") (auto simp: stacks_ok_def)
  have own: "owner (x # b) (func_stack st) (Suc k) = owner b ?fs k" for k
    using fs owner_Cons(3) [of b "hd (func_stack st)" "tl (func_stack st)" k] by (cases x) auto
  have "vars_ok b ?u"
    using st(2) s own unfolding vars_ok_def by (auto dest: spec [where x = "Suc k" for k])
  moreover have "stacks_ok b ?u"
    using st(1) s fs chain_ok_tl [of "hd (func_stack st)" "tl (func_stack st)" "all_funcs st"] by (auto simp: stacks_ok_def)
  ultimately have "scope_inv b ?u" using st(3) by (simp add: scope_inv_def)
  then show ?thesis by (auto simp: close_func_def ExitScope_def s)
qed

text \<open>What only grows along the walk.\<close>

definition scopes_grow :: "scopes \<Rightarrow> scopes \<Rightarrow> bool" where
  "scopes_grow st st' \<longleftrightarrow>
     length (all_defs st) \<le> length (all_defs st') \<and> length (all_funcs st) \<le> length (all_funcs st') \<and>
     (\<forall>d<length (all_defs st). defining_func (all_defs st' ! d) = defining_func (all_defs st ! d) \<and>
        (is_captured (all_defs st ! d) \<longrightarrow> is_captured (all_defs st' ! d))) \<and>
     (\<forall>i<length (all_funcs st). fn_node (all_funcs st' ! i) = fn_node (all_funcs st ! i) \<and>
        set (fn_captured (all_funcs st ! i)) \<subseteq> set (fn_captured (all_funcs st' ! i)))"

lemma scopes_grow_refl [simp]: "scopes_grow st st"
  by (simp add: scopes_grow_def)

lemma scopes_grow_trans: "scopes_grow st st' \<Longrightarrow> scopes_grow st' st'' \<Longrightarrow> scopes_grow st st''"
  unfolding scopes_grow_def by (elim conjE, intro conjI allI impI) (simp_all, meson subset_trans less_le_trans)

lemma scopes_grow_append:
  "all_defs st' = all_defs st @ ds \<Longrightarrow> all_funcs st' = all_funcs st @ fs \<Longrightarrow> scopes_grow st st'"
  by (simp add: scopes_grow_def nth_append)

lemma captured_ok_defs: "captured_ok defs funs i \<Longrightarrow> captured_ok (defs @ ds) funs i"
  by (fastforce simp: captured_ok_def nth_append)

lemma cur_in_range: "chain_ok fs funs \<Longrightarrow> cur fs = Some f \<Longrightarrow> f < length funs"
  by (cases fs) (auto simp: chain_ok_def cur_def)

lemma DefineVar_inv:
  assumes "scope_inv (x # b) st"
  shows "\<exists>st'. DefineVar (cur (func_stack st)) name node lf st = Some st' \<and> scope_inv (x # b) st' \<and> scopes_grow st st' \<and>
    func_stack st' = func_stack st \<and> all_funcs st' = all_funcs st"
proof -
  have st: "stacks_ok (x # b) st" "vars_ok (x # b) st" "tables_ok (all_defs st) (all_funcs st) (func_map st)"
    using assms by (simp_all add: scope_inv_def)
  obtain s ss where s: "sc_vars st = s # ss" using st(1) by (cases "sc_vars st") (auto simp: stacks_ok_def)
  define nd where "nd = \<lparr>def_name = name, defining_func = cur (func_stack st), is_captured = False, def_local_function = lf\<rparr>"
  let ?d = "length (all_defs st)"
  let ?u = "st\<lparr>sc_vars := s(name \<mapsto> ?d) # ss, all_defs := all_defs st @ [nd],
    stmt_var_to_def := (stmt_var_to_def st)(node := (stmt_var_to_def st node)(name \<mapsto> ?d))\<rparr>"
  have "vars_ok (x # b) ?u"
    unfolding vars_ok_def
  proof (intro allI impI)
    fix k y d
    assume k: "k < length (x # b)" and d: "(sc_vars ?u ! k) y = Some d"
    show "d < length (all_defs ?u) \<and> defining_func (all_defs ?u ! d) = owner (x # b) (func_stack ?u) k"
    proof (cases "k = 0 \<and> y = name")
      case True
      then show ?thesis using d by (auto simp: nth_append nd_def)
    next
      case False
      then have "(sc_vars st ! k) y = Some d" using d s by (cases k) auto
      then have "d < ?d \<and> defining_func (all_defs st ! d) = owner (x # b) (func_stack st) k"
        using st(2) k unfolding vars_ok_def by blast
      then show ?thesis by (simp add: nth_append)
    qed
  qed
  moreover have "stacks_ok (x # b) ?u" using st(1) s by (simp add: stacks_ok_def)
  moreover have "tables_ok (all_defs ?u) (all_funcs ?u) (func_map ?u)"
    using st(3) cur_in_range [of "func_stack st" "all_funcs st"] st(1)
    by (auto simp: tables_ok_def stacks_ok_def captured_ok_defs nth_append less_Suc_eq nd_def)
  ultimately have "scope_inv (x # b) ?u" by (simp add: scope_inv_def)
  then show ?thesis by (auto simp: DefineVar_def Let_def s nd_def intro!: scopes_grow_append)
qed

lemma chain_ok_append: "chain_ok fs funs \<Longrightarrow> chain_ok fs (funs @ gs)"
  by (auto simp: chain_ok_def nth_append)

lemma new_func_inv:
  assumes "scope_inv b st"
  shows "\<exists>st'. new_func prog (cur (func_stack st)) site st = Some st' \<and> scope_inv b st' \<and> scopes_grow st st' \<and>
    func_stack st' = func_stack st \<and> length (all_funcs st') = Suc (length (all_funcs st)) \<and>
    fn_parent (all_funcs st' ! length (all_funcs st)) = cur (func_stack st)"
proof -
  have st: "stacks_ok b st" "vars_ok b st" "tables_ok (all_defs st) (all_funcs st) (func_map st)"
    using assms by (simp_all add: scope_inv_def)
  obtain u where u: "new_func prog (cur (func_stack st)) site st = Some u" by (auto simp: new_func_def Let_def)
  then obtain fi where f: "all_funcs u = all_funcs st @ [fi]" "fn_parent fi = cur (func_stack st)" "fn_captured fi = []"
      "func_map u = (func_map st)(fn_node fi \<mapsto> length (all_funcs st))"
    and same: "sc_vars u = sc_vars st" "func_stack u = func_stack st" "all_defs u = all_defs st"
    by (auto simp: new_func_def Let_def)
  let ?n = "length (all_funcs st)"
  have cap: "captured_ok (all_defs st) (all_funcs st @ [fi]) i" if "i < Suc ?n" for i
  proof (cases "i < ?n")
    case True
    then have "captured_ok (all_defs st) (all_funcs st) i" "\<And>p. fn_parent (all_funcs st ! i) = Some p \<Longrightarrow> p < ?n"
      using st(3) by (force simp: tables_ok_def)+
    then show ?thesis using True by (fastforce simp: captured_ok_def nth_append)
  qed (use that f(3) in \<open>auto simp: captured_ok_def nth_append less_Suc_eq\<close>)
  have "tables_ok (all_defs u) (all_funcs u) (func_map u)"
    using st(3) cap cur_in_range [of "func_stack st" "all_funcs st"] st(1) f(2)
    by (fastforce simp: tables_ok_def f(1,4) same stacks_ok_def nth_append less_Suc_eq)
  moreover have "stacks_ok b u" using st(1) chain_ok_append [of "func_stack st" "all_funcs st" "[fi]"]
    by (auto simp: stacks_ok_def same f(1))
  moreover have "vars_ok b u" using st(2) by (simp add: vars_ok_def same)
  ultimately have "scope_inv b u" by (simp add: scope_inv_def)
  moreover have "scopes_grow st u" using f(1) same(3) by (intro scopes_grow_append [where ds = "[]"]) simp_all
  ultimately show ?thesis using u f(1,2) same(2) by (simp add: nth_append)
qed

lemma open_func_inv:
  assumes inv: "scope_inv b st" and local: "\<And>n x. site = AtLocal n x \<Longrightarrow> b \<noteq> []"
  shows "\<exists>st'. open_func prog site st = Some st' \<and> scope_inv (True # b) st' \<and> scopes_grow st st' \<and>
    func_stack st' = length (all_funcs st) # func_stack st"
proof -
  let ?pf = "length (all_funcs st)"
  from new_func_inv [OF inv, of prog site] obtain u where
    u: "new_func prog (cur (func_stack st)) site st = Some u" "scope_inv b u" "scopes_grow st u" "func_stack u = func_stack st"
      "length (all_funcs u) = Suc ?pf" "fn_parent (all_funcs u ! ?pf) = cur (func_stack st)" by blast
  have "\<exists>w. (case site of AtLocal node name \<Rightarrow> DefineVar (cur (func_stack u)) name node True u | _ \<Rightarrow> Some u) = Some w \<and>
      scope_inv b w \<and> scopes_grow u w \<and> func_stack w = func_stack u \<and> all_funcs w = all_funcs u"
  proof (cases "\<exists>n x. site = AtLocal n x")
    case True
    then obtain n x where site: "site = AtLocal n x" by blast
    then obtain y c where b: "b = y # c" using local by (cases b) auto
    show ?thesis using DefineVar_inv [of y c u x n True] u(2) unfolding site b by auto
  next
    case False
    then show ?thesis using u(2) by (cases site) auto
  qed
  then obtain w where w: "(case site of AtLocal node name \<Rightarrow> DefineVar (cur (func_stack u)) name node True u | _ \<Rightarrow> Some u) = Some w"
      "scope_inv b w" "scopes_grow u w" "func_stack w = func_stack st" "all_funcs w = all_funcs u"
    using u(4) by auto
  let ?v = "w\<lparr>sc_vars := (\<lambda>_. None) # sc_vars w, func_stack := ?pf # func_stack w\<rparr>"
  have w': "stacks_ok b w" "vars_ok b w" "tables_ok (all_defs w) (all_funcs w) (func_map w)"
    using w(2) by (simp_all add: scope_inv_def)
  have old: "f < ?pf" if "f \<in> set (func_stack w)" for f
    using that inv w(4) by (auto simp: scope_inv_def stacks_ok_def chain_ok_def in_set_conv_nth)
  have "chain_ok (?pf # func_stack w) (all_funcs w)"
    unfolding chain_ok_def
  proof (intro conjI allI impI)
    show "distinct (?pf # func_stack w)" using old w'(1) by (auto simp: stacks_ok_def chain_ok_def)
    fix k assume k: "k < length (?pf # func_stack w)"
    then show "(?pf # func_stack w) ! k < length (all_funcs w)"
      using old u(5) w(5) by (cases k) (auto simp: less_SucI)
    show "fn_parent (all_funcs w ! ((?pf # func_stack w) ! k)) = nth_opt (?pf # func_stack w) (Suc k)"
      using k u(6) w(4,5) w'(1) by (cases k) (auto simp: stacks_ok_def chain_ok_def nth_opt_def cur_def split: list.split)
  qed
  then have "stacks_ok (True # b) ?v" using w'(1) by (simp add: stacks_ok_def)
  moreover have "vars_ok (True # b) ?v"
    unfolding vars_ok_def
  proof (intro allI impI)
    fix k y d
    assume "k < length (True # b)" "(sc_vars ?v ! k) y = Some d"
    then show "d < length (all_defs ?v) \<and> defining_func (all_defs ?v ! d) = owner (True # b) (func_stack ?v) k"
      using w'(2) by (cases k) (auto simp: vars_ok_def)
  qed
  ultimately have "scope_inv (True # b) ?v" using w'(3) by (simp add: scope_inv_def)
  moreover have "scopes_grow st ?v"
    using scopes_grow_trans [OF u(3) w(3)] by (simp add: scopes_grow_def)
  moreover have "open_func prog site st = Some ?v"
    using u(1) w(1) by (simp add: open_func_def Let_def EnterScope_def u(4))
  ultimately show ?thesis using w(4) by simp
qed

lemma find_def_Some: "find_def ss x = Some d \<Longrightarrow> \<exists>k<length ss. (ss ! k) x = Some d"
proof (induction ss)
  case (Cons s ss)
  show ?case
  proof (cases "s x")
    case None
    then obtain k where "k < length ss" "(ss ! k) x = Some d" using Cons by auto
    then show ?thesis by (intro exI [of _ "Suc k"]) simp
  next
    case (Some e)
    then show ?thesis using Cons.prems by (intro exI [of _ 0]) simp
  qed
qed simp

lemma parents_length: "chain_ok fs funs \<Longrightarrow> length fs \<le> length funs"
proof -
  assume c: "chain_ok fs funs"
  then have "set fs \<subseteq> {..<length funs}" by (auto simp: chain_ok_def in_set_conv_nth)
  then have "card (set fs) \<le> length funs" using card_mono [of "{..<length funs}"] by simp
  then show ?thesis using c by (simp add: chain_ok_def distinct_card)
qed

text \<open>A use that crosses functions is captured by every function on the way.\<close>

definition reaches_def :: "scopes \<Rightarrow> nat option \<Rightarrow> nat \<Rightarrow> bool" where
  "reaches_def st f d \<longleftrightarrow>
     d < length (all_defs st) \<and>
     (defining_func (all_defs st ! d) = None \<or> defining_func (all_defs st ! d) = f \<or>
      (\<exists>i. f = Some i \<and> i < length (all_funcs st) \<and> d \<in> set (fn_captured (all_funcs st ! i)) \<and> is_captured (all_defs st ! d)))"

lemma reaches_def_grow: "reaches_def st f d \<Longrightarrow> scopes_grow st st' \<Longrightarrow> reaches_def st' f d"
  unfolding reaches_def_def scopes_grow_def by (metis (no_types, lifting) less_le_trans subsetD)

lemma mark_captured:
  assumes tab: "tables_ok defs funs fm" and chain: "chain_ok fs funs" and c: "c < length fs" "0 < c"
    and d: "d < length defs" "defining_func (defs ! d) = Some (fs ! c)"
    and len: "length funs' = length funs"
    and new: "\<forall>i<length funs. funs' ! i = (if i \<in> (!) fs ` {0..<c} then add_captured d (funs ! i) else funs ! i)"
  shows "tables_ok (defs[d := (defs ! d)\<lparr>is_captured := True\<rparr>]) funs' fm"
proof -
  let ?defs = "defs[d := (defs ! d)\<lparr>is_captured := True\<rparr>]"
  have fields: "fn_node (funs' ! i) = fn_node (funs ! i)" "fn_parent (funs' ! i) = fn_parent (funs ! i)"
      "set (fn_captured (funs ! i)) \<subseteq> set (fn_captured (funs' ! i))" if "i < length funs" for i
    using new that by auto
  have defs: "defining_func (?defs ! e) = defining_func (defs ! e)" "is_captured (defs ! e) \<Longrightarrow> is_captured (?defs ! e)"
    if "e < length defs" for e
    using that by (cases "e = d"; simp)+
  have at_d: "is_captured (?defs ! d)" using d(1) by simp
  have "captured_ok ?defs funs' i" if i: "i < length funs" for i
  proof -
    have ok: "captured_ok defs funs i" and below: "\<And>p. fn_parent (funs ! i) = Some p \<Longrightarrow> p < length funs"
      using tab i by (force simp: tables_ok_def)+
    have old: "e < length ?defs \<and> is_captured (?defs ! e) \<and> defining_func (?defs ! e) \<noteq> Some i \<and>
        (\<exists>p. fn_parent (funs' ! i) = Some p \<and> (defining_func (?defs ! e) = Some p \<or> e \<in> set (fn_captured (funs' ! p))))"
      if e: "e \<in> set (fn_captured (funs ! i))" for e
    proof -
      from ok e obtain p where p: "e < length defs" "is_captured (defs ! e)" "defining_func (defs ! e) \<noteq> Some i"
          "fn_parent (funs ! i) = Some p" "defining_func (defs ! e) = Some p \<or> e \<in> set (fn_captured (funs ! p))"
        unfolding captured_ok_def by blast
      then show ?thesis using defs [OF p(1)] fields(2) [OF i] fields(3) [OF below [OF p(4)]] by auto
    qed
    show ?thesis
    proof (cases "i \<in> (!) fs ` {0..<c}")
      case False
      then have "funs' ! i = funs ! i" using new i by simp
      then show ?thesis using ok old unfolding captured_ok_def by simp
    next
      case True
      then obtain k where k: "i = fs ! k" "k < c" by auto
      have par: "fn_parent (funs ! i) = Some (fs ! Suc k)"
        using chain k c by (simp add: chain_ok_def nth_opt_def)
      have ne: "fs ! c \<noteq> i" using chain k c by (simp add: chain_ok_def nth_eq_iff_index_eq)
      have up: "defining_func (?defs ! d) = Some (fs ! Suc k) \<or> d \<in> set (fn_captured (funs' ! (fs ! Suc k)))"
      proof (cases "Suc k = c")
        case False
        then have "fs ! Suc k \<in> (!) fs ` {0..<c}" "fs ! Suc k < length funs"
          using k(2) c(1) chain by (auto simp: chain_ok_def)
        then show ?thesis using new by simp
      qed (use d defs in auto)
      have "distinct (fn_captured (funs' ! i))" "set (fn_captured (funs' ! i)) = insert d (set (fn_captured (funs ! i)))"
        using new i True ok by (auto simp: captured_ok_def)
      then show ?thesis
        using old up par ne d at_d defs [OF d(1)] fields(2) [OF i] unfolding captured_ok_def by auto
    qed
  qed
  then show ?thesis using tab fields defs unfolding tables_ok_def by (simp add: len)
qed

lemma use_var_inv:
  assumes inv: "scope_inv b st"
  shows "\<exists>st'. use_var (cur (func_stack st)) v x st = Some st' \<and> scope_inv b st' \<and> scopes_grow st st' \<and>
    func_stack st' = func_stack st \<and>
    (\<forall>d. find_def (sc_vars st) x = Some d \<longrightarrow> reaches_def st' (cur (func_stack st)) d)"
proof (cases "find_def (sc_vars st) x")
  case None
  then show ?thesis using inv by (simp add: use_var_def)
next
  case (Some d)
  have st: "stacks_ok b st" "vars_ok b st" "tables_ok (all_defs st) (all_funcs st) (func_map st)"
    using inv by (simp_all add: scope_inv_def)
  let ?f = "cur (func_stack st)" and ?fs = "func_stack st" and ?funs = "all_funcs st"
  let ?v = "st\<lparr>var_to_def := (var_to_def st)(v \<mapsto> d)\<rparr>"
  from find_def_Some [OF Some] obtain k where k: "k < length b" "(sc_vars st ! k) x = Some d"
    using st(1) by (auto simp: stacks_ok_def)
  then have d: "d < length (all_defs st)" "defining_func (all_defs st ! d) = owner b ?fs k"
    using st(2) by (auto simp: vars_ok_def)
  have inv': "scope_inv b ?v" using st by (simp add: scope_inv_def stacks_ok_def vars_ok_def)
  have g: "scopes_grow st ?v" by (simp add: scopes_grow_def)
  show ?thesis
  proof (cases "owner b ?fs k = None \<or> owner b ?fs k = ?f")
    case True
    then have "use_var ?f v x st = Some ?v"
      using Some d by (auto simp: use_var_def Let_def split: option.split)
    moreover have "reaches_def ?v ?f d" using True d by (auto simp: reaches_def_def)
    ultimately show ?thesis using inv' g Some by auto
  next
    case False
    define c where "c = trues (take k b)"
    have c: "c < length ?fs" "owner b ?fs k = Some (?fs ! c)"
      using False by (auto simp: owner_def nth_opt_def c_def split: if_splits)
    then have c0: "0 < c" and f: "?f = Some (?fs ! 0)"
      using False by (cases ?fs; cases c; auto simp: cur_def)+
    have chain: "chain_ok ?fs ?funs" using st(1) by (simp add: stacks_ok_def)
    have ne: "?fs ! 0 \<noteq> ?fs ! c" using False c f by auto
    have "c - 0 \<le> length ?funs" using c(1) parents_length [OF chain] by simp
    from capture_up_ok [OF chain le0 c(1) this, of d] obtain funs' where
      u: "capture_up (length ?funs) d (?fs ! c) ?f ?funs = Some funs'" "length funs' = length ?funs"
        "\<forall>i<length ?funs. funs' ! i = (if i \<in> (!) ?fs ` {0..<c} then add_captured d (?funs ! i) else ?funs ! i)"
      unfolding f by auto
    let ?defs = "(all_defs st)[d := (all_defs st ! d)\<lparr>is_captured := True\<rparr>]"
    let ?u = "?v\<lparr>all_defs := ?defs, all_funcs := funs'\<rparr>"
    have def: "defining_func (?defs ! e) = defining_func (all_defs st ! e)" for e
      using d(1) by (cases "e = d") simp_all
    have cap: "is_captured (?defs ! e)" if "is_captured (all_defs st ! e)" for e
      using that d(1) by (cases "e = d") simp_all
    have "use_var ?f v x st = Some ?u"
      using Some d c u(1) ne f by (simp add: use_var_def Let_def)
    moreover have "scope_inv b ?u"
      unfolding scope_inv_def
    proof (intro conjI)
      show "stacks_ok b ?u" using st(1) u(2,3) by (auto simp: stacks_ok_def chain_ok_def)
      show "vars_ok b ?u" using st(2) def by (simp add: vars_ok_def)
      show "tables_ok (all_defs ?u) (all_funcs ?u) (func_map ?u)"
        using mark_captured [OF st(3) chain c(1) c0 d(1) _ u(2,3)] d(2) c(2) by simp
    qed
    moreover have "scopes_grow st ?u"
      using u(2,3) def cap by (auto simp: scopes_grow_def)
    moreover have "reaches_def ?u ?f d"
    proof -
      have "?fs ! 0 \<in> (!) ?fs ` {0..<c}" "?fs ! 0 < length ?funs"
        using c0 cur_in_range [OF chain f] by auto
      then show ?thesis using u(2,3) d(1) f by (simp add: reaches_def_def)
    qed
    ultimately show ?thesis using Some by auto
  qed
qed

lemma act_inv:
  assumes inv: "scope_inv b st" and b: "bracket a b = Some b'" and deep: "a \<noteq> TooDeep"
  shows "\<exists>st'. act prog a st = Some st' \<and> scope_inv b' st' \<and> scopes_grow st st' \<and>
    (\<forall>v x d. a = Use v x \<longrightarrow> find_def (sc_vars st) x = Some d \<longrightarrow> reaches_def st' (cur (func_stack st)) d)"
proof (cases a)
  case Enter
  then show ?thesis using EnterScope_inv [OF inv] b by (auto simp: EnterScope_def scopes_grow_def)
next
  case Leave
  then obtain c where "b = False # c" "b' = c" using b by (cases b rule: list.exhaust) (auto split: bool.splits elim: bracket.elims)
  then show ?thesis using ExitScope_inv [of False c st] inv Leave
    by (auto simp: ExitScope_def scopes_grow_def split: list.splits)
next
  case (Define x n)
  then obtain y c where "b = y # c" "b' = b" using b by (cases b) auto
  then show ?thesis using DefineVar_inv [of y c st x n False] inv Define by auto
next
  case (Use v x)
  then show ?thesis using use_var_inv [OF inv, of v x] b by auto
next
  case (Open site)
  then obtain y c where "b = y # c" "b' = True # b" using b by (cases b) auto
  then show ?thesis using open_func_inv [OF inv, of site prog] Open by auto
next
  case Close
  then obtain c where "b = True # c" "b' = c" using b by (cases b rule: list.exhaust) (auto split: bool.splits elim: bracket.elims)
  then show ?thesis using ExitScope_inv [of True c st] inv Close
    by (auto simp: close_func_def ExitScope_def scopes_grow_def split: list.splits)
qed (use deep in simp)

lemma run_inv:
  assumes "scope_inv b st" "brackets as b = Some b'" "TooDeep \<notin> set as"
  shows "\<exists>st'. run_acts prog as st = Some st' \<and> scope_inv b' st' \<and> scopes_grow st st'"
  using assms
proof (induction as arbitrary: b st)
  case (Cons a as)
  from Cons.prems(2) obtain c where c: "bracket a b = Some c" "brackets as c = Some b'" by (cases "bracket a b") auto
  have "a \<noteq> TooDeep" using Cons.prems(3) by auto
  from act_inv [OF Cons.prems(1) c(1) this, of prog] obtain u where
    u: "act prog a st = Some u" "scope_inv c u" "scopes_grow st u" by blast
  from Cons.IH [OF u(2) c(2)] Cons.prems(3) u show ?case by (auto intro: scopes_grow_trans)
qed simp

lemma run_append: "run_acts prog (as @ bs) st = Option.bind (run_acts prog as st) (run_acts prog bs)"
proof (induction as arbitrary: st)
  case (Cons a as)
  then show ?case by (cases "act prog a st") simp_all
qed simp

lemma no_scopes_inv: "scope_inv [] no_scopes"
  by (simp add: scope_inv_def stacks_ok_def vars_ok_def tables_ok_def chain_ok_def no_scopes_def)

lemma run_no_TooDeep: "run_acts prog as st = Some st' \<Longrightarrow> TooDeep \<notin> set as"
proof (induction as arbitrary: st)
  case (Cons a as)
  then obtain u where "act prog a st = Some u" "run_acts prog as u = Some st'" by (cases "act prog a st") auto
  then show ?case using Cons.IH by auto
qed simp

lemma ResolveScopes_inv:
  assumes "ResolveScopes prog n chunk = Some st"
  shows "scope_inv [] st"
proof -
  have r: "run_acts prog (walk_chunk prog n chunk) no_scopes = Some st" using assms by (simp add: ResolveScopes_def)
  from run_inv [OF no_scopes_inv brackets_chunk run_no_TooDeep [OF r], of prog] r show ?thesis by simp
qed

section \<open>Lexical scoping\<close>

text \<open>
  The meaning of a name by looking back through the walk, newest action first: scopes that are closed again are
  skipped (\<open>k\<close> counts them), and the first definition of the name that is left is the one. It is named by the
  number of definitions before it.
\<close>

fun local_name :: "fun_site \<Rightarrow> string option" where
  "local_name (AtLocal _ x) = Some x"
| "local_name _ = None"

fun defs_in :: "action list \<Rightarrow> nat" where
  "defs_in [] = 0"
| "defs_in (Define _ _ # as) = Suc (defs_in as)"
| "defs_in (Open site # as) = (if local_name site = None then defs_in as else Suc (defs_in as))"
| "defs_in (_ # as) = defs_in as"

fun visible :: "nat \<Rightarrow> string \<Rightarrow> action list \<Rightarrow> nat option" where
  "visible k x [] = None"
| "visible k x (Define y _ # as) = (if k = 0 \<and> y = x then Some (defs_in as) else visible k x as)"
| "visible k x (Open site # as) =
     (if k \<le> 1 \<and> local_name site = Some x then Some (defs_in as) else visible (k - 1) x as)"
| "visible k x (Enter # as) = visible (k - 1) x as"
| "visible k x (Leave # as) = visible (Suc k) x as"
| "visible k x (Close # as) = visible (Suc k) x as"
| "visible k x (_ # as) = visible k x as"

text \<open>The functions that are open, and how many there have been.\<close>

fun funs_in :: "action list \<Rightarrow> nat" where
  "funs_in [] = 0"
| "funs_in (Open _ # as) = Suc (funs_in as)"
| "funs_in (_ # as) = funs_in as"

fun open_funs :: "action list \<Rightarrow> nat list" where
  "open_funs [] = []"
| "open_funs (Open _ # as) = funs_in as # open_funs as"
| "open_funs (Close # as) = tl (open_funs as)"
| "open_funs (_ # as) = open_funs as"

definition follows :: "action list \<Rightarrow> scopes \<Rightarrow> bool" where
  "follows past st \<longleftrightarrow>
     length (all_defs st) = defs_in past \<and> length (all_funcs st) = funs_in past \<and> func_stack st = open_funs past \<and>
     (\<forall>k x. k \<le> length (sc_vars st) \<longrightarrow> find_def (drop k (sc_vars st)) x = visible k x past)"

lemma capture_up_length: "capture_up n d fd p funs = Some funs' \<Longrightarrow> length funs' = length funs"
  by (induction n d fd p funs rule: capture_up.induct) (auto split: if_splits nat.splits)

lemma use_var_fields:
  assumes "use_var f v x st = Some st'"
  shows "sc_vars st' = sc_vars st" "func_stack st' = func_stack st" "length (all_defs st') = length (all_defs st)"
    "length (all_funcs st') = length (all_funcs st)"
    "var_to_def st' = (case find_def (sc_vars st) x of None \<Rightarrow> var_to_def st | Some d \<Rightarrow> (var_to_def st)(v \<mapsto> d))"
  using assms by (auto simp: use_var_def Let_def dest!: capture_up_length split: option.splits if_splits)

lemma find_def_empty [simp]: "find_def ((\<lambda>_. None) # ss) x = find_def ss x"
  by simp

lemma DefineVar_fields:
  assumes "DefineVar f y n lf st = Some st'"
  shows "\<exists>s ss. sc_vars st = s # ss \<and> sc_vars st' = s(y \<mapsto> length (all_defs st)) # ss"
    "func_stack st' = func_stack st" "length (all_defs st') = Suc (length (all_defs st))"
    "all_funcs st' = all_funcs st" "var_to_def st' = var_to_def st"
  using assms by (auto simp: DefineVar_def Let_def split: list.splits)

lemma follows_define:
  assumes f: "follows past st" and d: "DefineVar g y n lf st = Some st'" and k: "k \<le> length (sc_vars st)"
  shows "find_def (drop k (sc_vars st')) x = (if k = 0 \<and> y = x then Some (defs_in past) else visible k x past)"
proof -
  obtain s ss where s: "sc_vars st = s # ss" "sc_vars st' = s(y \<mapsto> length (all_defs st)) # ss"
    using DefineVar_fields(1) [OF d] by blast
  have "find_def (drop k (s # ss)) x = visible k x past" using f k s(1) by (simp add: follows_def)
  then show ?thesis using f s(2) by (cases k) (auto simp: follows_def)
qed

lemma follows_step:
  assumes f: "follows past st" and a: "act prog a st = Some st'"
  shows "follows (a # past) st'"
proof (cases a)
  case Enter
  have "find_def (drop k ((\<lambda>_. None) # sc_vars st)) x = visible (k - 1) x past" if "k \<le> Suc (length (sc_vars st))" for k x
    using f that by (cases k) (auto simp: follows_def dest: spec [where x = 0])
  then show ?thesis using a f by (auto simp: follows_def Enter EnterScope_def)
next
  case Leave
  then obtain s ss where "sc_vars st = s # ss" "st' = st\<lparr>sc_vars := ss\<rparr>"
    using a by (auto simp: ExitScope_def split: list.splits)
  then show ?thesis using f by (force simp: follows_def Leave dest: spec [where x = "Suc k" for k])
next
  case (Define y n)
  then have d: "DefineVar (cur (func_stack st)) y n False st = Some st'" using a by simp
  have "length (sc_vars st') = length (sc_vars st)" using DefineVar_fields(1) [OF d] by auto
  then show ?thesis
    using f DefineVar_fields(2-4) [OF d] follows_define [OF f d] by (simp add: follows_def Define)
next
  case (Use v x)
  then have "use_var (cur (func_stack st)) v x st = Some st'" using a by simp
  from use_var_fields [OF this] show ?thesis using f by (simp add: follows_def Use)
next
  case Close
  then obtain s ss where "sc_vars st = s # ss" "st' = st\<lparr>sc_vars := ss, func_stack := tl (func_stack st)\<rparr>"
    using a by (auto simp: close_func_def ExitScope_def split: list.splits)
  then show ?thesis using f by (force simp: follows_def Close dest: spec [where x = "Suc k" for k])
next
  case (Open site)
  then obtain u w where u: "new_func prog (cur (func_stack st)) site st = Some u"
      "(case site of AtLocal node name \<Rightarrow> DefineVar (cur (func_stack u)) name node True u | _ \<Rightarrow> Some u) = Some w"
      "st' = w\<lparr>sc_vars := (\<lambda>_. None) # sc_vars w, func_stack := length (all_funcs st) # func_stack w\<rparr>"
    using a by (auto simp: open_func_def Let_def EnterScope_def bind_eq_Some_conv)
  have same: "sc_vars u = sc_vars st" "func_stack u = func_stack st" "all_defs u = all_defs st"
    and n: "length (all_funcs u) = Suc (length (all_funcs st))"
    using u(1) by (auto simp: new_func_def Let_def)
  have fu: "length (all_defs u) = defs_in past" "\<And>k x. k \<le> length (sc_vars u) \<Longrightarrow> find_def (drop k (sc_vars u)) x = visible k x past"
    using f by (auto simp: follows_def same)
  have "length (all_defs w) = defs_in (a # past) \<and> length (all_funcs w) = Suc (funs_in past) \<and> func_stack w = func_stack st \<and>
      (\<forall>k x. k \<le> length (sc_vars w) \<longrightarrow>
         find_def (drop k (sc_vars w)) x = (if k = 0 \<and> local_name site = Some x then Some (defs_in past) else visible k x past))"
  proof (cases "local_name site")
    case None
    then have "w = u" using u(2) by (cases site) auto
    then show ?thesis using None fu n f same Open by (simp add: follows_def)
  next
    case (Some y)
    then obtain m where site: "site = AtLocal m y" by (cases site) auto
    then have d: "DefineVar (cur (func_stack u)) y m True u = Some w" using u(2) by simp
    obtain s ss where s: "sc_vars u = s # ss" "sc_vars w = s(y \<mapsto> length (all_defs u)) # ss"
      using DefineVar_fields(1) [OF d] by blast
    have "find_def (drop k (sc_vars w)) x = (if k = 0 \<and> y = x then Some (defs_in past) else visible k x past)"
      if "k \<le> length (sc_vars w)" for k x
      using fu(1) fu(2) [of k x] that s by (cases k) auto
    then show ?thesis using DefineVar_fields(2-4) [OF d] fu(1) n f same Open site by (simp add: follows_def)
  qed
  note w = this
  have "find_def (drop k ((\<lambda>_. None) # sc_vars w)) x = visible k x (a # past)" if "k \<le> Suc (length (sc_vars w))" for k x
  proof (cases k)
    case 0
    then show ?thesis using w Open by (auto dest: spec [where x = 0])
  next
    case (Suc j)
    then show ?thesis using w Open that by auto
  qed
  then show ?thesis using w f Open u(3) by (simp add: follows_def)
qed (use a in simp)

lemma follows_run: "follows past st \<Longrightarrow> run_acts prog as st = Some st' \<Longrightarrow> follows (rev as @ past) st'"
proof (induction as arbitrary: past st)
  case (Cons a as)
  then obtain u where u: "act prog a st = Some u" "run_acts prog as u = Some st'" by (cases "act prog a st") auto
  from Cons.IH [OF follows_step [OF Cons.prems(1) u(1)] u(2)] show ?case by simp
qed simp

lemma var_to_def_step: "act prog a st = Some st' \<Longrightarrow> (\<And>x. a \<noteq> Use v x) \<Longrightarrow> var_to_def st' v = var_to_def st v"
  by (cases a) (auto simp: EnterScope_def ExitScope_def close_func_def open_func_def new_func_def Let_def bind_eq_Some_conv
      DefineVar_fields(5) use_var_fields(5) split: list.splits fun_site.splits option.splits)

lemma var_to_def_run: "run_acts prog as st = Some st' \<Longrightarrow> (\<And>x. Use v x \<notin> set as) \<Longrightarrow> var_to_def st' v = var_to_def st v"
proof (induction as arbitrary: st)
  case (Cons a as)
  then obtain u where u: "act prog a st = Some u" "run_acts prog as u = Some st'" by (cases "act prog a st") auto
  have "var_to_def st' v = var_to_def u v" using Cons.IH [OF u(2)] Cons.prems(2) by auto
  also have "\<dots> = var_to_def st v" using Cons.prems(2) by (intro var_to_def_step [OF u(1)]) auto
  finally show ?case .
qed simp

section \<open>Enough fuel\<close>

text \<open>The walk of inner functions put in where the functions stand.\<close>

fun expand :: "(fun_site \<Rightarrow> action list) \<Rightarrow> action \<Rightarrow> action list" where
  "expand h (Open site) = h site"
| "expand h a = [a]"

definition mark :: "fun_site \<Rightarrow> action list" where "mark site = [Open site]"

lemma expand_simps [simp]:
  "concat (map (expand h) (in_scope as)) = in_scope (concat (map (expand h) as))"
  "concat (map (expand h) (define_all n xs)) = define_all n xs"
  "concat (map (expand h) (mark site)) = h site"
  by (induction xs) (auto simp: in_scope_def define_all_def mark_def)

lemma walk_exp_expand:
  "walk_exp h e = concat (map (expand h) (walk_exp mark e))" "walk_pexp h p = concat (map (expand h) (walk_pexp mark p))"
  "walk_var h v = concat (map (expand h) (walk_var mark v))" "walk_call h c = concat (map (expand h) (walk_call mark c))"
  "walk_args h a = concat (map (expand h) (walk_args mark a))" "walk_field h x = concat (map (expand h) (walk_field mark x))"
  "walk_exps h es = concat (map (expand h) (walk_exps mark es))"
  "walk_fields h xs = concat (map (expand h) (walk_fields mark xs))"
proof (induction h e and h p and h v and h c and h a and h x and h es and h xs
    rule: walk_exp_walk_pexp_walk_var_walk_call_walk_args_walk_field_walk_exps_walk_fields.induct)
  case (1 h e)
  then show ?case by (cases e) simp_all
qed simp_all

lemma walk_stmt_expand:
  "walk_stmt h s = concat (map (expand h) (walk_stmt mark s))"
  "walk_stmts h ss = concat (map (expand h) (walk_stmts mark ss))"
  "walk_elseifs h bs = concat (map (expand h) (walk_elseifs mark bs))"
proof (induction h s and h ss and h bs rule: walk_stmt_walk_stmts_walk_elseifs.induct)
  case (1 h s)
  have "concat (map (expand h) (Define x n # as)) = Define x n # concat (map (expand h) as)" for x n as by simp
  with 1 show ?case
    by (cases s) (simp_all add: walk_exp_expand [of h] del: walk_exp.simps split: option.split)
next
  case (5 h e ss rest)
  then show ?case by (simp add: walk_exp_expand(1) [of h] del: walk_exp.simps)
qed simp_all

lemma walk_marks: "TooDeep \<notin> set (walk_stmts mark ss)"
  by (rule walk_stmt_rule) (auto simp: mark_def in_scope_def define_all_def)

text \<open>The functions that stand in a block, without those inside them.\<close>

definition sites :: "stmt list \<Rightarrow> fun_site set" where "sites ss = {site. Open site \<in> set (walk_stmts mark ss)}"

lemma walk_TooDeep:
  assumes "\<And>site. site \<in> sites ss \<Longrightarrow> TooDeep \<notin> set (h site)"
  shows "TooDeep \<notin> set (walk_stmts h ss)"
proof
  assume "TooDeep \<in> set (walk_stmts h ss)"
  then obtain a where a: "a \<in> set (walk_stmts mark ss)" "TooDeep \<in> set (expand h a)"
    unfolding walk_stmt_expand(2) [of h] by auto
  have "a = TooDeep \<or> (\<exists>s. a = Open s \<and> TooDeep \<in> set (h s))" using a(2) by (cases a) auto
  then show False using assms walk_marks [of ss] a(1) unfolding sites_def by blast
qed

lemma walk_function_TooDeep:
  assumes "\<And>node ss site. lf_body (prog node) = Some ss \<Longrightarrow> site \<in> sites ss \<Longrightarrow> rank (site_node site) < rank node"
  shows "rank (site_node site) < n \<Longrightarrow> TooDeep \<notin> set (walk_function prog n site)"
proof (induction n arbitrary: site)
  case (Suc n)
  have "TooDeep \<notin> set (walk_stmts (walk_function prog n) ss)" if "lf_body (prog (site_node site)) = Some ss" for ss
  proof (rule walk_TooDeep)
    fix s assume "s \<in> sites ss"
    then have "rank (site_node s) < n" using assms [OF that] Suc.prems by fastforce
    then show "TooDeep \<notin> set (walk_function prog n s)" by (rule Suc.IH)
  qed
  then show ?case by (auto simp: Let_def in_scope_def define_all_def split: option.splits)
qed simp

section \<open>What the generator gets\<close>

lemma ResolveScopes_tables:
  "ResolveScopes prog n chunk = Some st \<Longrightarrow> tables_ok (all_defs st) (all_funcs st) (func_map st)"
  using ResolveScopes_inv by (simp add: scope_inv_def)

lemma func_map_node:
  assumes "tables_ok defs funs fm" "distinct (map fn_node funs)" "i < length funs"
  shows "fm (fn_node (funs ! i)) = Some i"
proof -
  from assms(1,3) obtain j where j: "fm (fn_node (funs ! i)) = Some j" by (auto simp: tables_ok_def)
  then have "j < length funs" "fn_node (funs ! j) = fn_node (funs ! i)" using assms(1) by (auto simp: tables_ok_def)
  then have "j = i" using assms(2,3) by (simp add: distinct_conv_nth) metis
  then show ?thesis using j by simp
qed

lemma scope_env_captured:
  assumes "tables_ok (all_defs st) (all_funcs st) (func_map st)" "distinct (map fn_node (all_funcs st))" "j < length (all_funcs st)"
  shows "captured_vars (scope_env env st i) (fn_node (all_funcs st ! j)) = fn_captured (all_funcs st ! j)"
  using func_map_node [OF assms] by (simp add: scope_env_def)

lemma scope_env_own:
  assumes "tables_ok (all_defs st) (all_funcs st) (func_map st)" "distinct (map fn_node (all_funcs st))" "i < length (all_funcs st)"
    "d < length (all_defs st)"
  shows "defining_func (def_info (scope_env env st i) d) = Some (cur_func (scope_env env st i)) \<longleftrightarrow>
    defining_func (all_defs st ! d) = Some i"
proof (cases "defining_func (all_defs st ! d)")
  case (Some f)
  then have "f < length (all_funcs st)" using assms(1,4) by (auto simp: tables_ok_def)
  then show ?thesis using Some assms(2,3) by (auto simp: scope_env_def distinct_conv_nth)
qed (simp add: scope_env_def)

lemma index_of:
  assumes "d \<in> set xs"
  shows "length (takeWhile (\<lambda>y. y \<noteq> d) xs) < length xs \<and> xs ! length (takeWhile (\<lambda>y. y \<noteq> d) xs) = d"
  using assms by (induction xs) auto

lemma scope_env_upval:
  assumes "tables_ok (all_defs st) (all_funcs st) (func_map st)" "distinct (map fn_node (all_funcs st))" "i < length (all_funcs st)"
    "d \<in> set (fn_captured (all_funcs st ! i))"
  shows "\<exists>k<length (fn_captured (all_funcs st ! i)). fn_captured (all_funcs st ! i) ! k = d \<and>
    upval_index (scope_env env st i) d = int k"
proof -
  have "captured_vars (scope_env env st i) (cur_func (scope_env env st i)) = fn_captured (all_funcs st ! i)"
    using scope_env_captured [OF assms(1-3)] by (simp add: scope_env_def)
  then show ?thesis using assms(4) index_of [OF assms(4)] by (auto simp: upval_index_def)
qed

text \<open>What the walk leaves behind for one use.\<close>

lemma use_in_walk:
  assumes r: "ResolveScopes prog n chunk = Some st" and w: "walk_chunk prog n chunk = pre @ Use v x # post"
    and u: "\<forall>y. Use v y \<notin> set (pre @ post)" and f: "cur (open_funs (rev pre)) = Some i"
  shows "var_to_def st v = visible 0 x (rev pre) \<and> i < length (all_funcs st) \<and>
    (\<forall>d. var_to_def st v = Some d \<longrightarrow> reaches_def st (Some i) d)"
proof -
  have run: "run_acts prog (pre @ Use v x # post) no_scopes = Some st" using r w by (simp add: ResolveScopes_def)
  then obtain s1 where s1: "run_acts prog pre no_scopes = Some s1" "run_acts prog (Use v x # post) s1 = Some st"
    by (auto simp: run_append bind_eq_Some_conv)
  have deep: "TooDeep \<notin> set pre" "TooDeep \<notin> set post" using run_no_TooDeep [OF run] by auto
  obtain b where b: "brackets pre [] = Some b" "brackets (Use v x # post) b = Some []"
    using brackets_chunk [of prog n chunk] unfolding w brackets_append by (auto simp: bind_eq_Some_conv)
  have i1: "scope_inv b s1" using run_inv [OF no_scopes_inv b(1) deep(1), of prog] s1(1) by auto
  have "follows [] no_scopes" by (simp add: follows_def no_scopes_def)
  from follows_run [OF this s1(1)] have fol: "follows (rev pre) s1" by simp
  then have fs: "cur (func_stack s1) = Some i" and vis: "find_def (sc_vars s1) x = visible 0 x (rev pre)"
    using f by (auto simp: follows_def dest: spec [where x = 0])
  from act_inv [OF i1, of "Use v x" b prog] obtain s2 where
    s2: "act prog (Use v x) s1 = Some s2" "scope_inv b s2" "scopes_grow s1 s2"
      "\<forall>d. find_def (sc_vars s1) x = Some d \<longrightarrow> reaches_def s2 (cur (func_stack s1)) d" by auto
  have post: "run_acts prog post s2 = Some st" "brackets post b = Some []" using s1(2) s2(1) b(2) by simp_all
  from run_inv [OF s2(2) post(2) deep(2), of prog] post(1) have g: "scopes_grow s2 st" by auto
  have "var_to_def s1 v = None" using var_to_def_run [OF s1(1), of v] u by (auto simp: no_scopes_def)
  then have "var_to_def s2 v = visible 0 x (rev pre)"
    using use_var_fields(5) [of "cur (func_stack s1)" v x s1 s2] s2(1) vis by (auto split: option.splits)
  then have "var_to_def st v = visible 0 x (rev pre)" using var_to_def_run [OF post(1), of v] u by auto
  moreover have "i < length (all_funcs st)"
    using cur_in_range [OF _ fs, of "all_funcs s1"] i1 scopes_grow_trans [OF s2(3) g]
    by (auto simp: scope_inv_def stacks_ok_def scopes_grow_def)
  ultimately show ?thesis using reaches_def_grow [OF _ g, of "Some i"] s2(4) vis fs by auto
qed


text \<open>The cells that a new closure gets; a register is bound at most once.\<close>

lemma bind_upval_ok:
  assumes "bind_upval hb cl uv fr s = (Inr (p, fr'), s')" "in_stack uv \<Longrightarrow> uv_idx uv < length (boxp fr)"
  shows "length (boxp fr') = length (boxp fr) \<and> (\<forall>r. boxp fr ! r \<noteq> 0 \<longrightarrow> boxp fr' ! r = boxp fr ! r) \<and>
    (\<forall>r. \<not> (in_stack uv \<and> r = uv_idx uv) \<longrightarrow> boxp fr' ! r = boxp fr ! r) \<and>
    p = (if in_stack uv then boxp fr' ! uv_idx uv else upval_ptr cl (uv_idx uv))"
  using assms
  by (auto simp: bind_upval_def Let_def vbind_def vret_def vthrow_def new_cell_def nth_list_update split: if_splits)

lemma bind_upvals_ok:
  assumes "bind_upvals hb cl uvs fr s = (Inr (ups, fr'), s')" "distinct (map uv_idx (filter in_stack uvs))"
    "\<forall>uv \<in> set uvs. in_stack uv \<longrightarrow> uv_idx uv < length (boxp fr)"
  shows "length ups = length uvs \<and> (\<forall>r. boxp fr ! r \<noteq> 0 \<longrightarrow> boxp fr' ! r = boxp fr ! r) \<and>
    (\<forall>r. r \<notin> uv_idx ` {uv \<in> set uvs. in_stack uv} \<longrightarrow> boxp fr' ! r = boxp fr ! r) \<and>
    (\<forall>k<length uvs. ups ! k =
       (if in_stack (uvs ! k) then boxp fr' ! uv_idx (uvs ! k) else upval_ptr cl (uv_idx (uvs ! k))))"
  using assms
proof (induction uvs arbitrary: fr s ups)
  case Nil
  then show ?case by (simp add: vret_def)
next
  case (Cons uv uvs)
  from Cons.prems(1) obtain p fr1 s1 ps where
    u: "bind_upval hb cl uv fr s = (Inr (p, fr1), s1)" "bind_upvals hb cl uvs fr1 s1 = (Inr (ps, fr'), s')" "ups = p # ps"
    by (auto simp: vbind_Inr vret_def)
  from bind_upval_ok [OF u(1)] Cons.prems(3) have one:
    "length (boxp fr1) = length (boxp fr)" "\<And>r. boxp fr ! r \<noteq> 0 \<Longrightarrow> boxp fr1 ! r = boxp fr ! r"
    "\<And>r. \<not> (in_stack uv \<and> r = uv_idx uv) \<Longrightarrow> boxp fr1 ! r = boxp fr ! r"
    "p = (if in_stack uv then boxp fr1 ! uv_idx uv else upval_ptr cl (uv_idx uv))" by auto
  have d: "distinct (map uv_idx (filter in_stack uvs))" "in_stack uv \<Longrightarrow> uv_idx uv \<notin> uv_idx ` {uv \<in> set uvs. in_stack uv}"
    using Cons.prems(2) by (auto split: if_splits)
  have "\<forall>uv \<in> set uvs. in_stack uv \<longrightarrow> uv_idx uv < length (boxp fr1)" using Cons.prems(3) one(1) by simp
  from Cons.IH [OF u(2) d(1) this] have rest: "length ps = length uvs"
    "\<And>r. boxp fr1 ! r \<noteq> 0 \<Longrightarrow> boxp fr' ! r = boxp fr1 ! r"
    "\<And>r. r \<notin> uv_idx ` {uv \<in> set uvs. in_stack uv} \<Longrightarrow> boxp fr' ! r = boxp fr1 ! r"
    "\<And>k. k < length uvs \<Longrightarrow> ps ! k =
       (if in_stack (uvs ! k) then boxp fr' ! uv_idx (uvs ! k) else upval_ptr cl (uv_idx (uvs ! k)))" by blast+
  show ?case
  proof (intro conjI allI impI)
    show "length ups = length (uv # uvs)" using rest(1) u(3) by simp
    show "boxp fr' ! r = boxp fr ! r" if "boxp fr ! r \<noteq> 0" for r using one(2) [OF that] rest(2) [of r] that by simp
    show "boxp fr' ! r = boxp fr ! r" if "r \<notin> uv_idx ` {uv' \<in> set (uv # uvs). in_stack uv'}" for r
    proof -
      have "r \<notin> uv_idx ` {uv \<in> set uvs. in_stack uv}" "\<not> (in_stack uv \<and> r = uv_idx uv)" using that by auto
      then show ?thesis using rest(3) one(3) by simp
    qed
    fix k assume k: "k < length (uv # uvs)"
    show "ups ! k = (if in_stack ((uv # uvs) ! k) then boxp fr' ! uv_idx ((uv # uvs) ! k)
        else upval_ptr cl (uv_idx ((uv # uvs) ! k)))"
      using k rest(4) one(4) d(2) rest(3) u(3) by (cases k) auto
  qed
qed

text \<open>
  C6. Closures share variables: when a function creates a closure of an inner function, the upvalue for each
  captured variable is the very cell of that variable, the box of its register when the creating function defines
  it, or the cell of the creating function's own upvalue for the same variable.
\<close>
theorem closures_share_variables:
  assumes r: "ResolveScopes prog n chunk = Some st" and dist: "distinct (map fn_node (all_funcs st))"
    and c: "c < length (all_funcs st)" "fn_parent (all_funcs st ! c) = Some p"
    and lim: "length (fn_captured (all_funcs st ! p)) \<le> 65536"
    and regs: "\<forall>d \<in> set (fn_captured (all_funcs st ! c)). 0 \<le> regs d \<and> regs d < 256 \<and> nat (regs d) < length (boxp fr)"
    and inj: "inj_on regs {d \<in> set (fn_captured (all_funcs st ! c)). defining_func (all_defs st ! d) = Some p}"
    and b: "bind_upvals hb cl (upval_descs (scope_env env st p) regs (fn_node (all_funcs st ! c))) fr s = (Inr (ups, fr'), s')"
  shows "length ups = length (fn_captured (all_funcs st ! c)) \<and>
    (\<forall>k<length ups. let d = fn_captured (all_funcs st ! c) ! k in
       if defining_func (all_defs st ! d) = Some p then
         ups ! k = boxp fr' ! nat (regs d) \<and> (boxp fr ! nat (regs d) \<noteq> 0 \<longrightarrow> ups ! k = boxp fr ! nat (regs d))
       else \<exists>j<length (fn_captured (all_funcs st ! p)). fn_captured (all_funcs st ! p) ! j = d \<and> ups ! k = upval_ptr cl j)"
proof -
  let ?e = "scope_env env st p" and ?cs = "fn_captured (all_funcs st ! c)" and ?ps = "fn_captured (all_funcs st ! p)"
  note tab = ResolveScopes_tables [OF r]
  have p: "p < length (all_funcs st)" and cap: "captured_ok (all_defs st) (all_funcs st) c"
    using tab c by (fastforce simp: tables_ok_def)+
  define D where "D d = (if defining_func (all_defs st ! d) = Some p then \<lparr>in_stack = True, uv_idx = nat (regs d)\<rparr>
    else \<lparr>in_stack = False, uv_idx = nat (upval_index ?e d)\<rparr>)" for d
  have up: "\<exists>j<length ?ps. ?ps ! j = d \<and> upval_index ?e d = int j"
    if "d \<in> set ?cs" "defining_func (all_defs st ! d) \<noteq> Some p" for d
    using cap that c(2) scope_env_upval [OF tab dist p, of d env] unfolding captured_ok_def by force
  have "(if defining_func (def_info ?e d) = Some (cur_func ?e) then \<lparr>in_stack = True, uv_idx = nat (regs d mod 65536)\<rparr>
      else \<lparr>in_stack = False, uv_idx = nat (upval_index ?e d mod 65536)\<rparr>) = D d" if d: "d \<in> set ?cs" for d
  proof -
    have "d < length (all_defs st)" using cap d unfolding captured_ok_def by blast
    then show ?thesis using scope_env_own [OF tab dist p, of d env] regs d up [OF d] lim by (auto simp: D_def)
  qed
  then have descs: "upval_descs ?e regs (fn_node (all_funcs st ! c)) = map D ?cs"
    unfolding upval_descs_def scope_env_captured [OF tab dist c(1)] by (intro map_cong) auto
  have idx: "uv_idx (D d) = nat (regs d)" "in_stack (D d)" if "defining_func (all_defs st ! d) = Some p" for d
    using that by (simp_all add: D_def)
  have own: "filter in_stack (map D ?cs) = map D (filter (\<lambda>d. defining_func (all_defs st ! d) = Some p) ?cs)"
    by (simp add: filter_map comp_def D_def cong: filter_cong if_cong)
  have "inj_on (\<lambda>d. nat (regs d)) {d \<in> set ?cs. defining_func (all_defs st ! d) = Some p}"
    using inj regs by (auto simp: inj_on_def eq_nat_nat_iff)
  then have "distinct (map uv_idx (filter in_stack (map D ?cs)))"
    using cap unfolding own captured_ok_def
    by (auto simp: distinct_map inj_on_def idx)
  moreover have "\<forall>uv \<in> set (map D ?cs). in_stack uv \<longrightarrow> uv_idx uv < length (boxp fr)"
    using regs by (auto simp: D_def)
  ultimately have ok: "length ups = length ?cs" "\<And>r. boxp fr ! r \<noteq> 0 \<Longrightarrow> boxp fr' ! r = boxp fr ! r"
    "\<And>k. k < length ?cs \<Longrightarrow> ups ! k = (if in_stack (D (?cs ! k)) then boxp fr' ! uv_idx (D (?cs ! k))
       else upval_ptr cl (uv_idx (D (?cs ! k))))"
    using bind_upvals_ok [of hb cl "map D ?cs" fr s ups fr' s'] b unfolding descs by auto
  have "let d = ?cs ! k in
       if defining_func (all_defs st ! d) = Some p then
         ups ! k = boxp fr' ! nat (regs d) \<and> (boxp fr ! nat (regs d) \<noteq> 0 \<longrightarrow> ups ! k = boxp fr ! nat (regs d))
       else \<exists>j<length ?ps. ?ps ! j = d \<and> ups ! k = upval_ptr cl j" if k: "k < length ups" for k
  proof (cases "defining_func (all_defs st ! (?cs ! k)) = Some p")
    case True
    then show ?thesis using ok that by (simp add: idx Let_def)
  next
    case False
    then obtain j where "j < length ?ps" "?ps ! j = ?cs ! k" "upval_index ?e (?cs ! k) = int j"
      using up [OF nth_mem False] ok(1) k by auto
    then show ?thesis using ok that False by (auto simp: Let_def D_def)
  qed
  then show ?thesis using ok(1) by simp
qed

text \<open>
  C7. Name resolution ends with a result for every program whose functions are properly nested, with as much fuel
  as the nesting is deep: the scope stack is never empty when a name is defined or a scope closed, and the walk up
  the parents always meets the defining function.
\<close>
theorem resolution_succeeds:
  assumes "\<And>node ss site. lf_body (prog node) = Some ss \<Longrightarrow> site \<in> sites ss \<Longrightarrow> rank (site_node site) < rank node"
    and "\<And>site. site \<in> sites chunk \<Longrightarrow> rank (site_node site) < n"
  shows "\<exists>st. ResolveScopes prog n chunk = Some st"
proof -
  have "TooDeep \<notin> set (walk_stmts (walk_function prog n) chunk)"
    using walk_function_TooDeep [of prog rank] assms by (intro walk_TooDeep) blast
  then have "TooDeep \<notin> set (walk_chunk prog n chunk)" by (simp add: walk_chunk_def in_scope_def)
  from run_inv [OF no_scopes_inv brackets_chunk this] show ?thesis by (auto simp: ResolveScopes_def)
qed

section \<open>A counter\<close>

text \<open>
  \<open>function counter() local n = 0; return function() n = n + 1; return n end end\<close>: the functions are the nodes 1
  and 2, the uses of \<open>n\<close> the nodes 20 to 22.
\<close>

definition name_exp :: "node \<Rightarrow> exp" where "name_exp v = EPrefix (PVar (SimpleVar v ''n''))"

definition counter_prog :: program where
  "counter_prog node =
     (if node = 1 then
        \<lparr>lf_name = ''counter'', lf_parlist = 11, lf_params = [],
         lf_body = Some [SLocalVar 10 [''n''] [ENumber ''0''], SReturn [EFunctionDef 2]]\<rparr>
      else
        \<lparr>lf_name = [], lf_parlist = 12, lf_params = [],
         lf_body = (if node = 2 then Some [SAssign (SimpleVar 20 ''n'') (EBinop kPlus (name_exp 21) (ENumber ''1'')),
           SReturn [name_exp 22]] else None)\<rparr>)"

definition counter_chunk :: "stmt list" where "counter_chunk = [SFunction 1]"

lemma counter_scopes:
  "\<exists>st. ResolveScopes counter_prog 2 counter_chunk = Some st \<and> func_map st 2 = Some 1 \<and>
     all_funcs st =
      [\<lparr>fn_node = 1, fn_parent = None, fn_name = ''counter'', fn_unique = ''counter'', fn_params = [],
        fn_vararg = False, fn_captured = []\<rparr>,
       \<lparr>fn_node = 2, fn_parent = Some 0, fn_name = ''__fakelua_lambda_1'', fn_unique = ''__fl_func_1'', fn_params = [],
        fn_vararg = False, fn_captured = [0]\<rparr>] \<and>
     all_defs st = [\<lparr>def_name = ''n'', defining_func = Some 0, is_captured = True, def_local_function = False\<rparr>]"
proof -
  have "map_option (\<lambda>st. (func_map st 2, all_funcs st, all_defs st)) (ResolveScopes counter_prog 2 counter_chunk) =
     Some (Some 1, [\<lparr>fn_node = 1, fn_parent = None, fn_name = ''counter'', fn_unique = ''counter'', fn_params = [],
        fn_vararg = False, fn_captured = []\<rparr>,
       \<lparr>fn_node = 2, fn_parent = Some 0, fn_name = ''__fakelua_lambda_1'', fn_unique = ''__fl_func_1'', fn_params = [],
        fn_vararg = False, fn_captured = [0]\<rparr>],
      [\<lparr>def_name = ''n'', defining_func = Some 0, is_captured = True, def_local_function = False\<rparr>])"
    by code_simp
  then show ?thesis by auto
qed

definition blank_env :: cg_env where
  "blank_env = \<lparr>var_def = (\<lambda>_. None), stmt_def = (\<lambda>_ _. None),
     def_info = (\<lambda>_. \<lparr>def_name = [], defining_func = None, is_captured = False, def_local_function = False\<rparr>),
     captured_vars = (\<lambda>_. []), child_proto = (\<lambda>_. 0), named_protos = (\<lambda>_. None), file_func_sigs = (\<lambda>_. None),
     cur_package_name = [], call_exps = (\<lambda>_. False), callee_names = (\<lambda>_. None), max_returns = (\<lambda>_. None),
     version_text = [], cur_func = 0\<rparr>"

lemma counter_walk:
  "walk_chunk counter_prog 2 counter_chunk =
     [Enter, Open (AtFunction 1), Enter, Define ''n'' 10, Open (AtLambda 2), Enter, Use 20 ''n''] @ Use 21 ''n'' #
     [Use 22 ''n'', Leave, Close, Leave, Close, Leave]"
  by code_simp


theorem closures_share_variables_witness:
  "\<exists>st. ResolveScopes counter_prog 2 counter_chunk = Some st \<and>
     (\<forall>s. \<exists>u fr' s'. bind_upvals True None (upval_descs (scope_env blank_env st 0) (\<lambda>_. 0) 2)
        \<lparr>stk = [VInt 0], boxp = [0], ip = 0\<rparr> s = (Inr ([u], fr'), s') \<and> u = boxp fr' ! 0)"
proof -
  from counter_scopes obtain st where st: "ResolveScopes counter_prog 2 counter_chunk = Some st" "func_map st 2 = Some 1"
    "all_funcs st =
      [\<lparr>fn_node = 1, fn_parent = None, fn_name = ''counter'', fn_unique = ''counter'', fn_params = [],
        fn_vararg = False, fn_captured = []\<rparr>,
       \<lparr>fn_node = 2, fn_parent = Some 0, fn_name = ''__fakelua_lambda_1'', fn_unique = ''__fl_func_1'', fn_params = [],
        fn_vararg = False, fn_captured = [0]\<rparr>]"
    "all_defs st = [\<lparr>def_name = ''n'', defining_func = Some 0, is_captured = True, def_local_function = False\<rparr>]"
    by blast
  have "\<exists>u fr' s'. bind_upvals True None (upval_descs (scope_env blank_env st 0) (\<lambda>_. 0) 2)
        \<lparr>stk = [VInt 0], boxp = [0], ip = 0\<rparr> s = (Inr ([u], fr'), s') \<and> u = boxp fr' ! 0" for s
  proof -
    let ?fr = "\<lparr>stk = [VInt 0], boxp = [0], ip = 0\<rparr> :: frame"
    have d: "upval_descs (scope_env blank_env st 0) (\<lambda>_. 0) 2 = [\<lparr>in_stack = True, uv_idx = 0\<rparr>]"
      using st(2-) by (simp add: upval_descs_def scope_env_def)
    obtain u fr' s' where b: "bind_upvals True None (upval_descs (scope_env blank_env st 0) (\<lambda>_. 0) 2) ?fr s = (Inr ([u], fr'), s')"
      unfolding d by (simp add: bind_upval_def vbind_def vret_def new_cell_def Let_def)
    from closures_share_variables [OF st(1), of 1 0 "\<lambda>_. 0" ?fr True None blank_env s "[u]" fr' s'] b st(2-)
    show ?thesis by (auto simp: Let_def inj_on_def)
  qed
  then show ?thesis using st(1) by blast
qed

theorem resolution_succeeds_witness: "\<exists>st. ResolveScopes counter_prog 2 counter_chunk = Some st"
proof (rule resolution_succeeds [where rank = "\<lambda>node. if node = 1 then 1 else 0"])
  show "(if site_node site = 1 then 1 else 0) < (if node = 1 then 1 else (0 :: nat))"
    if "lf_body (counter_prog node) = Some ss" "site \<in> sites ss" for node ss site
    using that by (auto simp: counter_prog_def sites_def define_all_def mark_def name_exp_def split: if_splits)
  show "(if site_node site = 1 then 1 else 0) < (2 :: nat)" for site by simp
qed

end
