(* ===== verification/Spec2Isabelle.thy ===== *)
theory Spec2Isabelle
imports VmOps HeapAlloc TableMap TableLibProps Timer NetPackets WireCodec Utf8 InterpBoxes CodegenRun LuaPatternSpec StringGsub
  CRuntimeAgree ScopesProps
begin

text \<open>
  Verification development of fakelua, a Lua dialect compiled to bytecode and, through C, to machine code.

  \<^bold>\<open>The program.\<close> A source file is parsed and rewritten (\<open>src/src/compile\<close>), then handed to one of three
  back ends: a bytecode generator with its interpreter (\<open>src/src/interp\<close>), and two C back ends that go through
  libtcc and libgccjit (\<open>src/src/jit\<close>). All of them share the runtime values (\<open>src/src/var\<close>), the bump
  allocators (\<open>src/src/state\<close>), the table implementation and the native libraries (\<open>src/src/native\<close>), which
  get their arguments through \<open>state/fakelua.cpp\<close>.

  \<^bold>\<open>Theories and what they model.\<close>

  \<^item> \<open>Prelude\<close>: results (an exception message or a value) with their bind, machine integers, decimal numbers.
  \<^item> \<open>Doubles\<close>: binary64 on bit patterns and the exact conversions and comparisons of \<open>util/number_util.h\<close>.
  \<^item> \<open>Values\<close>: the tagged value \<open>CVar\<close>, its equality, hashing and printing (\<open>var/var.cpp\<close>,
    \<open>var/var_string.h\<close>).
  \<^item> \<open>VmOps\<close>: the arithmetic, comparison and numeric-for operations of \<open>interp/vm_ops.h\<close>.
  \<^item> \<open>HeapAlloc\<close>: \<open>HeapAllocator\<close> of \<open>state/heap.cpp\<close> with the fast path of generated code.
  \<^item> \<open>HashTable\<close>, \<open>TableApi\<close>: the table of \<open>native/table/native_table.cpp\<close>: array part, inline entries, hash
    buckets with a free list, rehashing and migration, and the entry points the back ends call. \<open>KeyMap\<close>,
    \<open>HashInv\<close>, \<open>Rehash\<close>, \<open>HashDelete\<close>, \<open>TableRefine\<close>, \<open>TableWrites\<close> and \<open>TableMap\<close> hold its invariant and the
    refinement of an abstract map from keys to values.
  \<^item> \<open>NativeArgs\<close>, \<open>TableLib\<close>, \<open>TableLibProps\<close>: argument checks of native functions and the \<open>table\<close> library.
  \<^item> \<open>HeapTimer\<close>, \<open>HeapTimerProps\<close>, \<open>Timer\<close>: the 4-ary timer heap and the \<open>timer\<close> library on top of it.
  \<^item> \<open>Conversions\<close>: conversions between C++ and runtime values, and the arity rule of closure calls.
  \<^item> \<open>NetBuffer\<close>, \<open>NetPackets\<close>: the ring buffer of the network layer and the packet framing over it.
  \<^item> \<open>WireCodec\<close>: the binary serialisation of values.
  \<^item> \<open>Utf8\<close>: the \<open>utf8\<close> library.
  \<^item> \<open>LuaPattern\<close>: the backtracking matcher of \<open>native/string/lua_pattern.cpp\<close>. \<open>LuaPatternSafe\<close>: it never
    reads outside subject and pattern, and what its results and errors can be. \<open>LuaPatternSpec\<close>: an inductive
    matching relation on parsed patterns that mentions neither depth nor backtracking, and that the matcher
    decides it in priority order. \<open>StringLib\<close>: the functions of the \<open>string\<close> library that search, slice and
    build strings. \<open>StringGsub\<close>: the iterator of \<open>string.gmatch\<close> and the replacement loop of \<open>string.gsub\<close>.
  \<^item> \<open>Bytecode\<close>: the instructions of \<open>interp/opcode.h\<close> and the function prototypes of \<open>interp/func_proto.h\<close>.
    \<open>InterpRuntime\<close>: frames, upvalue cells and the runtime helpers of \<open>interp/runtime.cpp\<close>. \<open>Interp\<close>: the
    dispatch loop of \<open>interp/interpreter.cpp\<close>, one equation per opcode. \<open>InterpSafety\<close>: what a well-formed prototype is, and
    that running one never leaves its code, its registers or its constants. \<open>InterpBoxes\<close>: the specialised
    loop for functions without captured variables against the general one.
  \<^item> \<open>Ast\<close>: the syntax tree of \<open>compile/syntax_tree.h\<close> as datatypes, reading of number literals and the
    expression tests of \<open>compile/compile_common.h\<close>.
  \<^item> \<open>Codegen\<close>, \<open>CodegenExp\<close>, \<open>CodegenStmt\<close>: the bytecode generator \<open>interp/codegen.cpp\<close>: its state with
    the register high-water mark, constant table and jump patching; expressions, calls and table
    constructors; statements, loops, labels and \<open>goto\<close>, closures.
  \<^item> \<open>CodegenSafe\<close>, \<open>CodegenSafeStmt\<close>, \<open>CodegenSafeFun\<close>: the invariant of the generator, that every operation
    preserves it, and that the prototype of a function that compiles is well-formed.
    \<open>CodegenCorrect\<close>: an evaluator of scalar expressions that does not mention code, the runs of the
    interpreter, and that generated code leaves the value of the evaluator, or its error, in the target
    register. \<open>CodegenRun\<close>: the properties of generator and interpreter together.

  \<^item> \<open>Scopes\<close>, \<open>ScopesProps\<close>: name resolution (\<open>InterpCodegen::ResolveScopes\<close>), which gives the generator the
    definition of every name and the captured variables of every function; that it is lexical scoping, that it
    always ends with a result, and that closures made by the interpreter share the cells of their variables.
  \<^item> \<open>CRuntime\<close>, \<open>CRuntimeTable\<close>: the C runtime that is prepended to generated code
    (\<open>compile/c_runtime_header.h\<close>), function by function as it is written there: operators, conversions, numeric
    for, multi values and the table functions. \<open>CRuntime\<close> also shows that its operators agree with \<open>interp/vm_ops.h\<close>;
    \<open>CRuntimeAgree\<close> that its table functions agree with those of the host, so that a table which both engines
    write is one map.

  \<^bold>\<open>Conventions.\<close> A C++ exception is \<open>Inl\<close> of its message. A native function is a state transformer on
  \<open>nstate\<close> (the tables by address and what allocation needs). Strings are lists of bytes. An interned string is
  represented by its content. Tables and closures are addresses. What lies outside the sources is a parameter:
  \<open>pow\<close>, \<open>aligned_alloc\<close>, the clock, the accessors of specialised tables, Lua and native callbacks, custom
  packet parsers.

  \<^bold>\<open>Interfaces.\<close> \<open>timer_queue\<close> (a queue of timers as a map from ids to deadlines) is provided by the heap of
  \<open>HeapTimerProps\<close> and \<open>byte_queue\<close> (a bounded queue of bytes) by the ring buffer of \<open>NetBuffer\<close>; the timer
  library and the packet framing rest on them.

  \<^bold>\<open>Generator and interpreter.\<close> A function body goes through \<open>CompileFunction\<close> to a \<open>FuncProto\<close>, which
  \<open>InterpreterExecute\<close> runs. Two chains of lemmas meet there. The first is about safety: \<open>cg_inv\<close> (operands below the
  register mark, constants inside the table, jumps patched) holds throughout the generator, so the prototype is
  well-formed, so the interpreter stays inside it. The second is about meaning: \<open>compiles\<close> relates the code of an
  expression to its evaluation, so a function that returns a scalar expression computes its value.

  \<^bold>\<open>Bounds and fuel.\<close> Loops over chains of the hash part take as fuel one more than the number of nodes, which
  the invariant shows to be enough; running out is the distinct exception \<open>diverges\<close>, which no theorem allows.
  The allocator's limit of 1 MiB per object is part of the model and shows up as the room hypotheses of the
  table properties.

  The pattern matcher needs no fuel: every call moves forward in the pattern or in the subject, which its
  termination measure says. Its depth limit of 200 calls is the program's and part of the model. A loop over
  \<open>string.gmatch\<close> is bounded by the length of the subject (\<open>gmatch_iteration_ends\<close>).

  The interpreter takes one unit of fuel per instruction and per nested activation and says \<open>diverges\<close> when it
  is used up; for the functions of \<open>return_function_correct\<close> an amount that suffices is part of the theorem.

  \<^bold>\<open>Not modelled.\<close> The generated lexer and parser, the passes that rewrite and check the syntax tree before the
  generator sees it, source line numbers in the bytecode, \<open>string.format\<close>, \<open>string.pack\<close> and the string functions built on Boost, the C back ends and the libraries that wrap third-party code (see the list of components in
  the manifest).
\<close>

end
